(* ===== verification/Prelude.thy ===== *)
theory Prelude
  imports Main "HOL-Library.Word"
begin

text \<open>
  Shared vocabulary of the development: bytes and machine words, the error values of the
  Go packages, the outside world a call may consume (random bytes, locked memory), slices,
  and the big-endian codecs of \<^verbatim>\<open>encoding/binary\<close> with their round trips. The collection
  \<open>codec\<close> gathers the equations that decode what was encoded; the component theories add to
  it and pass it to the simplifier.
\<close>

named_theorems codec \<open>decoding what was encoded\<close>
named_theorems len \<open>lengths of encodings and cells\<close>

section \<open>Machine types\<close>

type_synonym byte = "8 word"
type_synonym bytes = "8 word list"
type_synonym u16 = "16 word"
type_synonym u32 = "32 word"
type_synonym u64 = "64 word"

text \<open>Durations and instants of the package \<^verbatim>\<open>time\<close>, in nanoseconds.\<close>

definition Millisecond :: int where "Millisecond = 1000000"

definition Second :: int where "Second = 1000 * Millisecond"

definition Minute :: int where "Minute = 60 * Second"

definition Hour :: int where "Hour = 60 * Minute"

section \<open>Errors\<close>

text \<open>
  One constructor per sentinel error of each package, and one per message for the errors that
  have no sentinel; abbreviations give them the names of the source. \<open>Panic\<close> is a run-time panic
  of the source (a slice or an index out of range); the theorems show where it cannot occur.
  \<open>Errorf\<close> is \<^verbatim>\<open>fmt.Errorf\<close> with two errors wrapped, \<open>Message\<close> a text without a sentinel.
\<close>

text \<open>Crypto and crypto/secmem.\<close>

datatype cryptoError =
  EBadKeySizeCrypto | EOpenCrypto | EBadPublicKeyCrypto | EBadLabelCrypto | EBadContextCrypto |
  ERandomCrypto | EMemoryCrypto | EBadSizeCrypto | EReleasedCrypto | EPolicyCrypto | EPrimitiveCrypto

text \<open>Wire.\<close>

datatype wireError =
  ECellSizeWire | EVersionWire | EKindWire | EPayloadSizeWire | EFramingWire | ECounterWire |
  EDirectionWire | ENonceSizeWire | ESetupReplayWire | ESetupCacheFullWire | ENoHopsWire |
  EHopCountsWire | EOverheadWire | ECircuitClosedWire | ESealedBodyWire | EHopIndexWire | EHopRoomWire
  | EHopClosedWire | EAddrSizeWire | ESetupSizeWire | EEmptyChainWire | ENotSetupWire

text \<open>Link and the errors of net and os it passes on.\<close>

datatype netError =
  EHandshakeNet | EClosedNet | EEOFNet | EWriteNet | EDeadlineNet | ETemporaryNet

text \<open>Relay.\<close>

datatype relayError =
  EOnionKeyRelay | eRingClosedRelay | ECacheSizeRelay | EQueueSizeRelay | EStaticPubSizeRelay |
  EStaticPairRelay | eDuplicateRelay | eLinkTakenRelay | eBrokenRelay | eNotPeerRelay | eFatalRelay |
  eRelayClosedRelay | eRefusedRelay | eSetupRateRelay | eUnknownCircuitRelay | eNoStaticRelay |
  eNoProviderRelay | eRateRelay | eBurstRelay | eDialRelay

text \<open>Client.\<close>

datatype clientError =
  EChoiceClient | ENodeKeyClient | EReplyClient | eClientClosedClient

text \<open>Pki.\<close>

datatype pkiError =
  EFormatPki | EPkiVersionPki | ESuitePki | EUnknownCAPki | ECertSignaturePki | ECertTimePki |
  EWrongAddrPki | ECertMismatchPki | EDescSignaturePki | EDescTimePki | EKeySizePki |
  EDuplicateNodePki | ENoCertPki | EPkiNoncePki | ERosterPki | ERequestSignaturePki | eHashSizePki |
  eNodeCountPki

datatype error =
    Panic
  | inCrypto cryptoError | inWire wireError | inNet netError | inRelay relayError | inClient clientError
  | inPki pkiError
  | Message string
  | Errorf error error

abbreviation ErrBadKeySize :: error where "ErrBadKeySize \<equiv> inCrypto EBadKeySizeCrypto"
abbreviation ErrOpen :: error where "ErrOpen \<equiv> inCrypto EOpenCrypto"
abbreviation ErrBadPublicKey :: error where "ErrBadPublicKey \<equiv> inCrypto EBadPublicKeyCrypto"
abbreviation ErrBadLabel :: error where "ErrBadLabel \<equiv> inCrypto EBadLabelCrypto"
abbreviation ErrBadContext :: error where "ErrBadContext \<equiv> inCrypto EBadContextCrypto"
abbreviation ErrRandom :: error where "ErrRandom \<equiv> inCrypto ERandomCrypto"
abbreviation ErrMemory :: error where "ErrMemory \<equiv> inCrypto EMemoryCrypto"
abbreviation ErrBadSize :: error where "ErrBadSize \<equiv> inCrypto EBadSizeCrypto"
abbreviation ErrReleased :: error where "ErrReleased \<equiv> inCrypto EReleasedCrypto"
abbreviation ErrPolicy :: error where "ErrPolicy \<equiv> inCrypto EPolicyCrypto"
abbreviation ErrPrimitive :: error where "ErrPrimitive \<equiv> inCrypto EPrimitiveCrypto"

abbreviation ErrCellSize :: error where "ErrCellSize \<equiv> inWire ECellSizeWire"
abbreviation ErrVersion :: error where "ErrVersion \<equiv> inWire EVersionWire"
abbreviation ErrKind :: error where "ErrKind \<equiv> inWire EKindWire"
abbreviation ErrPayloadSize :: error where "ErrPayloadSize \<equiv> inWire EPayloadSizeWire"
abbreviation ErrFraming :: error where "ErrFraming \<equiv> inWire EFramingWire"
abbreviation ErrCounter :: error where "ErrCounter \<equiv> inWire ECounterWire"
abbreviation ErrDirection :: error where "ErrDirection \<equiv> inWire EDirectionWire"
abbreviation ErrNonceSize :: error where "ErrNonceSize \<equiv> inWire ENonceSizeWire"
abbreviation ErrSetupReplay :: error where "ErrSetupReplay \<equiv> inWire ESetupReplayWire"
abbreviation ErrSetupCacheFull :: error where "ErrSetupCacheFull \<equiv> inWire ESetupCacheFullWire"
abbreviation ErrNoHops :: error where "ErrNoHops \<equiv> inWire ENoHopsWire"
abbreviation ErrHopCounts :: error where "ErrHopCounts \<equiv> inWire EHopCountsWire"
abbreviation ErrOverhead :: error where "ErrOverhead \<equiv> inWire EOverheadWire"
abbreviation ErrCircuitClosed :: error where "ErrCircuitClosed \<equiv> inWire ECircuitClosedWire"
abbreviation ErrSealedBody :: error where "ErrSealedBody \<equiv> inWire ESealedBodyWire"
abbreviation ErrHopIndex :: error where "ErrHopIndex \<equiv> inWire EHopIndexWire"
abbreviation ErrHopRoom :: error where "ErrHopRoom \<equiv> inWire EHopRoomWire"
abbreviation ErrHopClosed :: error where "ErrHopClosed \<equiv> inWire EHopClosedWire"
abbreviation ErrAddrSize :: error where "ErrAddrSize \<equiv> inWire EAddrSizeWire"
abbreviation ErrSetupSize :: error where "ErrSetupSize \<equiv> inWire ESetupSizeWire"
abbreviation ErrEmptyChain :: error where "ErrEmptyChain \<equiv> inWire EEmptyChainWire"
abbreviation ErrNotSetup :: error where "ErrNotSetup \<equiv> inWire ENotSetupWire"

abbreviation ErrHandshake :: error where "ErrHandshake \<equiv> inNet EHandshakeNet"
abbreviation ErrClosed :: error where "ErrClosed \<equiv> inNet EClosedNet"
abbreviation ErrEOF :: error where "ErrEOF \<equiv> inNet EEOFNet"
abbreviation ErrWrite :: error where "ErrWrite \<equiv> inNet EWriteNet"
abbreviation ErrDeadline :: error where "ErrDeadline \<equiv> inNet EDeadlineNet"
abbreviation ErrTemporary :: error where "ErrTemporary \<equiv> inNet ETemporaryNet"

abbreviation ErrOnionKey :: error where "ErrOnionKey \<equiv> inRelay EOnionKeyRelay"
abbreviation errRingClosed :: error where "errRingClosed \<equiv> inRelay eRingClosedRelay"
abbreviation ErrCacheSize :: error where "ErrCacheSize \<equiv> inRelay ECacheSizeRelay"
abbreviation ErrQueueSize :: error where "ErrQueueSize \<equiv> inRelay EQueueSizeRelay"
abbreviation ErrStaticPubSize :: error where "ErrStaticPubSize \<equiv> inRelay EStaticPubSizeRelay"
abbreviation ErrStaticPair :: error where "ErrStaticPair \<equiv> inRelay EStaticPairRelay"
abbreviation errDuplicate :: error where "errDuplicate \<equiv> inRelay eDuplicateRelay"
abbreviation errLinkTaken :: error where "errLinkTaken \<equiv> inRelay eLinkTakenRelay"
abbreviation errBroken :: error where "errBroken \<equiv> inRelay eBrokenRelay"
abbreviation errNotPeer :: error where "errNotPeer \<equiv> inRelay eNotPeerRelay"
abbreviation errFatal :: error where "errFatal \<equiv> inRelay eFatalRelay"
abbreviation errRelayClosed :: error where "errRelayClosed \<equiv> inRelay eRelayClosedRelay"
abbreviation errRefused :: error where "errRefused \<equiv> inRelay eRefusedRelay"
abbreviation errSetupRate :: error where "errSetupRate \<equiv> inRelay eSetupRateRelay"
abbreviation errUnknownCircuit :: error where "errUnknownCircuit \<equiv> inRelay eUnknownCircuitRelay"
abbreviation errNoStatic :: error where "errNoStatic \<equiv> inRelay eNoStaticRelay"
abbreviation errNoProvider :: error where "errNoProvider \<equiv> inRelay eNoProviderRelay"
abbreviation errRate :: error where "errRate \<equiv> inRelay eRateRelay"
abbreviation errBurst :: error where "errBurst \<equiv> inRelay eBurstRelay"
abbreviation errDial :: error where "errDial \<equiv> inRelay eDialRelay"

abbreviation ErrChoice :: error where "ErrChoice \<equiv> inClient EChoiceClient"
abbreviation ErrNodeKey :: error where "ErrNodeKey \<equiv> inClient ENodeKeyClient"
abbreviation ErrReply :: error where "ErrReply \<equiv> inClient EReplyClient"
abbreviation errClientClosed :: error where "errClientClosed \<equiv> inClient eClientClosedClient"

abbreviation ErrFormat :: error where "ErrFormat \<equiv> inPki EFormatPki"
abbreviation ErrPkiVersion :: error where "ErrPkiVersion \<equiv> inPki EPkiVersionPki"
abbreviation ErrSuite :: error where "ErrSuite \<equiv> inPki ESuitePki"
abbreviation ErrUnknownCA :: error where "ErrUnknownCA \<equiv> inPki EUnknownCAPki"
abbreviation ErrCertSignature :: error where "ErrCertSignature \<equiv> inPki ECertSignaturePki"
abbreviation ErrCertTime :: error where "ErrCertTime \<equiv> inPki ECertTimePki"
abbreviation ErrWrongAddr :: error where "ErrWrongAddr \<equiv> inPki EWrongAddrPki"
abbreviation ErrCertMismatch :: error where "ErrCertMismatch \<equiv> inPki ECertMismatchPki"
abbreviation ErrDescSignature :: error where "ErrDescSignature \<equiv> inPki EDescSignaturePki"
abbreviation ErrDescTime :: error where "ErrDescTime \<equiv> inPki EDescTimePki"
abbreviation ErrKeySize :: error where "ErrKeySize \<equiv> inPki EKeySizePki"
abbreviation ErrDuplicateNode :: error where "ErrDuplicateNode \<equiv> inPki EDuplicateNodePki"
abbreviation ErrNoCert :: error where "ErrNoCert \<equiv> inPki ENoCertPki"
abbreviation ErrPkiNonce :: error where "ErrPkiNonce \<equiv> inPki EPkiNoncePki"
abbreviation ErrRoster :: error where "ErrRoster \<equiv> inPki ERosterPki"
abbreviation ErrRequestSignature :: error where "ErrRequestSignature \<equiv> inPki ERequestSignaturePki"
abbreviation errHashSize :: error where "errHashSize \<equiv> inPki eHashSizePki"
abbreviation errNodeCount :: error where "errNodeCount \<equiv> inPki eNodeCountPki"

type_synonym 'a result = "error + 'a"

text \<open>\<^verbatim>\<open>errors.Is\<close>: the error itself or one it wraps.\<close>

fun errors_Is :: "error \<Rightarrow> error \<Rightarrow> bool" where
  "errors_Is (Errorf a b) t \<longleftrightarrow> Errorf a b = t \<or> errors_Is a t \<or> errors_Is b t"
| "errors_Is e t \<longleftrightarrow> e = t"

lemma errors_Is_self [simp]: "errors_Is e e"
  by (cases e) simp_all

section \<open>The world of a call\<close>

text \<open>
  \<open>rnd\<close> is what \<^verbatim>\<open>crypto/rand.Reader\<close> still gives; \<^verbatim>\<open>io.ReadFull\<close> on it fails when it
  runs short. \<open>live\<close> counts the \<^verbatim>\<open>secmem\<close> buffers allocated and not yet released, and
  \<open>limit\<close> is how many the process may hold (RLIMIT_MEMLOCK), so an allocation fails at it.
  \<open>sizeCache\<close> is the package variable of \<^verbatim>\<open>wire/setup.go\<close>: public key length and overhead
  per suite, filled on first use.
\<close>

record world =
  rnd :: bytes
  live :: nat
  limit :: nat
  sizeCache :: "8 word \<Rightarrow> (nat \<times> int) option"

type_synonym 'a io = "world \<Rightarrow> 'a result \<times> world"

definition readFull :: "nat \<Rightarrow> bytes io" where
  "readFull n w =
     (if n \<le> length (rnd w) then (Inr (take n (rnd w)), w\<lparr>rnd := drop n (rnd w)\<rparr>)
      else (Inl ErrRandom, w))"

definition allocate :: "world \<Rightarrow> world" where
  "allocate w = w\<lparr>live := live w + 1\<rparr>"

definition release :: "world \<Rightarrow> world" where
  "release w = w\<lparr>live := live w - 1\<rparr>"

lemma release_allocate [simp]: "release (allocate w) = w"
  by (simp add: release_def allocate_def)

lemma live_allocate [simp]: "live (allocate w) = live w + 1"
  by (simp add: allocate_def)

lemma live_release [simp]: "live (release w) = live w - 1"
  by (simp add: release_def)

lemma rnd_allocate [simp]: "rnd (allocate w) = rnd w"
  and rnd_release [simp]: "rnd (release w) = rnd w"
  and limit_allocate [simp]: "limit (allocate w) = limit w"
  and limit_release [simp]: "limit (release w) = limit w"
  and sizeCache_allocate [simp]: "sizeCache (allocate w) = sizeCache w"
  and sizeCache_release [simp]: "sizeCache (release w) = sizeCache w"
  by (simp_all add: allocate_def release_def)

lemma readFull_Inr:
  "readFull n w = (Inr bs, w') \<longleftrightarrow>
     n \<le> length (rnd w) \<and> bs = take n (rnd w) \<and> w' = w\<lparr>rnd := drop n (rnd w)\<rparr>"
  by (auto simp: readFull_def)

lemma readFull_ok:
  "n \<le> length (rnd w) \<Longrightarrow> readFull n w = (Inr (take n (rnd w)), w\<lparr>rnd := drop n (rnd w)\<rparr>)"
  by (simp add: readFull_def)

lemma readFull_length [len]: "readFull n w = (Inr bs, w') \<Longrightarrow> length bs = n"
  by (auto simp: readFull_def split: if_splits)

lemma readFull_live: "readFull n w = (r, w') \<Longrightarrow> live w' = live w \<and> limit w' = limit w"
  by (auto simp: readFull_def split: if_splits)

section \<open>Slices\<close>

text \<open>
  \<^verbatim>\<open>b[:n]\<close> of a slice whose capacity is its length: a panic when \<open>n\<close> is negative or too
  large. \<^verbatim>\<open>copy(dst, src)\<close> overwrites a prefix of \<open>dst\<close> and never changes its length.
\<close>

definition slice_to :: "bytes \<Rightarrow> int \<Rightarrow> bytes result" where
  "slice_to b n = (if 0 \<le> n \<and> n \<le> int (length b) then Inr (take (nat n) b) else Inl Panic)"

text \<open>\<^verbatim>\<open>io.ReadFull(rand.Reader, b[m:])\<close> for a slice \<open>b\<close> of length \<open>n\<close>.\<close>

definition readTail :: "nat \<Rightarrow> nat \<Rightarrow> bytes io" where
  "readTail n m w = (if m > n then (Inl Panic, w) else readFull (n - m) w)"

lemma readTail_ok:
  "m \<le> n \<Longrightarrow> n - m \<le> length (rnd w) \<Longrightarrow>
     readTail n m w = (Inr (take (n - m) (rnd w)), w\<lparr>rnd := drop (n - m) (rnd w)\<rparr>)"
  by (simp add: readTail_def readFull_ok)

lemma readTail_Inr:
  "readTail n m w = (Inr bs, w') \<longleftrightarrow>
     m \<le> n \<and> n - m \<le> length (rnd w) \<and> bs = take (n - m) (rnd w)
     \<and> w' = w\<lparr>rnd := drop (n - m) (rnd w)\<rparr>"
  by (auto simp: readTail_def readFull_Inr)

definition copy :: "bytes \<Rightarrow> bytes \<Rightarrow> bytes" where
  "copy dst src = take (length dst) src @ drop (length src) dst"

lemma length_copy [simp, len]: "length (copy dst src) = length dst"
  by (simp add: copy_def)

lemma copy_same: "length src = length dst \<Longrightarrow> copy dst src = src"
  by (simp add: copy_def)

lemma copy_prefix: "length src \<le> length dst \<Longrightarrow> copy dst src = src @ drop (length src) dst"
  by (simp add: copy_def)

lemma slice_to_nat: "n \<le> length b \<Longrightarrow> slice_to b (int n) = Inr (take n b)"
  by (simp add: slice_to_def)

lemma slice_to_Inr:
  "slice_to b n = Inr x \<longleftrightarrow> 0 \<le> n \<and> n \<le> int (length b) \<and> x = take (nat n) b"
  by (auto simp: slice_to_def)

section \<open>Big-endian integers\<close>

text \<open>\<open>be n k\<close> is the low \<open>8 * n\<close> bits of \<open>k\<close> in \<open>n\<close> bytes, most significant first.\<close>

fun be :: "nat \<Rightarrow> nat \<Rightarrow> bytes" where
  "be 0 k = []"
| "be (Suc n) k = be n (k div 256) @ [word_of_nat k]"

definition nat_be :: "bytes \<Rightarrow> nat" where
  "nat_be bs = foldl (\<lambda>a b. a * 256 + unat b) 0 bs"

lemma unat_lt: "unat (w :: 'a::len word) < 2 ^ LENGTH('a)"
  by (rule unsigned_less)

lemma length_be [simp, len]: "length (be n k) = n"
  by (induction n arbitrary: k) simp_all

lemma nat_be_Nil [simp]: "nat_be [] = 0"
  by (simp add: nat_be_def)

lemma nat_be_snoc [simp]: "nat_be (bs @ [b]) = nat_be bs * 256 + unat b"
  by (simp add: nat_be_def)

lemma nat_be_less: "nat_be bs < 256 ^ length bs"
proof (induction bs rule: rev_induct)
  case Nil
  then show ?case by simp
next
  case (snoc b bs)
  have "unat b < 256"
    using unat_lt [of b] by simp
  then show ?case using snoc by simp
qed

lemma nat_be_be [codec]: "nat_be (be n k) = k mod 256 ^ n"
proof (induction n arbitrary: k)
  case 0
  then show ?case by simp
next
  case (Suc n)
  have "k mod (256 * 256 ^ n) = 256 * (k div 256 mod 256 ^ n) + k mod 256"
    by (rule mod_mult2_eq)
  then show ?case using Suc by (simp add: unat_of_nat mult.commute)
qed

lemma be_nat_be [codec]: "be (length bs) (nat_be bs) = bs"
proof (induction bs rule: rev_induct)
  case Nil
  then show ?case by simp
next
  case (snoc b bs)
  have "unat b < 256"
    using unat_lt [of b] by simp
  then have "(nat_be bs * 256 + unat b) div 256 = nat_be bs"
    by simp
  moreover have "word_of_nat (nat_be bs * 256 + unat b) = b"
  proof -
    have "(word_of_nat (nat_be bs * 256 + unat b) :: byte) = word_of_nat (nat_be bs) * 256 + b"
      by simp
    also have "(256 :: byte) = 0"
      by simp
    finally show ?thesis by simp
  qed
  ultimately show ?case using snoc by simp
qed

definition PutUint16 :: "u16 \<Rightarrow> bytes" where
  "PutUint16 x = be 2 (unat x)"

definition Uint16 :: "bytes \<Rightarrow> u16" where
  "Uint16 b = word_of_nat (nat_be b)"

definition PutUint32 :: "u32 \<Rightarrow> bytes" where
  "PutUint32 x = be 4 (unat x)"

definition Uint32 :: "bytes \<Rightarrow> u32" where
  "Uint32 b = word_of_nat (nat_be b)"

definition PutUint64 :: "u64 \<Rightarrow> bytes" where
  "PutUint64 x = be 8 (unat x)"

definition Uint64 :: "bytes \<Rightarrow> u64" where
  "Uint64 b = word_of_nat (nat_be b)"

lemma length_PutUint [simp, len]:
  "length (PutUint16 x) = 2" "length (PutUint32 y) = 4" "length (PutUint64 z) = 8"
  by (simp_all add: PutUint16_def PutUint32_def PutUint64_def)

text \<open>A fixed-width codec: what it writes has its width, and reading and writing are inverse.\<close>

locale fixed_codec =
  fixes put :: "'a \<Rightarrow> bytes" and get :: "bytes \<Rightarrow> 'a" and width :: nat
  assumes put_width: "length (put x) = width"
    and get_put: "get (put x) = x"
    and put_get: "length b = width \<Longrightarrow> put (get b) = b"
begin

lemma put_inj: "put x = put y \<longleftrightarrow> x = y"
  by (metis get_put)

lemma put_append_inj: "put x @ r = put y @ s \<longleftrightarrow> x = y \<and> r = s"
  by (metis append_eq_append_conv get_put put_width)

lemma take_put: "take width (put x @ r) = put x"
  by (simp add: put_width)

lemma drop_put: "drop width (put x @ r) = r"
  by (simp add: put_width)

lemma get_inj: "length b = width \<Longrightarrow> length c = width \<Longrightarrow> get b = get c \<longleftrightarrow> b = c"
  by (metis put_get)

end

lemma unat_word_of_nat_be:
  "length b = LENGTH('a::len) div 8 \<Longrightarrow> LENGTH('a) = 8 * (LENGTH('a) div 8) \<Longrightarrow>
     unat (word_of_nat (nat_be b) :: 'a word) = nat_be b"
proof -
  assume b: "length b = LENGTH('a) div 8" and w: "LENGTH('a) = 8 * (LENGTH('a) div 8)"
  have "nat_be b < 256 ^ (LENGTH('a) div 8)"
    using nat_be_less [of b] b by simp
  also have "(256 :: nat) ^ (LENGTH('a) div 8) = 2 ^ (8 * (LENGTH('a) div 8))"
    by (simp add: power_mult)
  finally show ?thesis
    using w by (simp add: unat_of_nat)
qed

interpretation u16: fixed_codec PutUint16 Uint16 2
proof
  fix x :: u16 and b :: bytes
  show "length (PutUint16 x) = 2" by simp
  show "Uint16 (PutUint16 x) = x"
    using unat_lt [of x] by (simp add: Uint16_def PutUint16_def nat_be_be)
  show "PutUint16 (Uint16 b) = b" if "length b = 2"
    using that be_nat_be [of b] unat_word_of_nat_be [of b, where 'a = 16]
    by (simp add: Uint16_def PutUint16_def)
qed

interpretation u32: fixed_codec PutUint32 Uint32 4
proof
  fix x :: u32 and b :: bytes
  show "length (PutUint32 x) = 4" by simp
  show "Uint32 (PutUint32 x) = x"
    using unat_lt [of x] by (simp add: Uint32_def PutUint32_def nat_be_be)
  show "PutUint32 (Uint32 b) = b" if "length b = 4"
    using that be_nat_be [of b] unat_word_of_nat_be [of b, where 'a = 32]
    by (simp add: Uint32_def PutUint32_def)
qed

interpretation u64: fixed_codec PutUint64 Uint64 8
proof
  fix x :: u64 and b :: bytes
  show "length (PutUint64 x) = 8" by simp
  show "Uint64 (PutUint64 x) = x"
    using unat_lt [of x] by (simp add: Uint64_def PutUint64_def nat_be_be)
  show "PutUint64 (Uint64 b) = b" if "length b = 8"
    using that be_nat_be [of b] unat_word_of_nat_be [of b, where 'a = 64]
    by (simp add: Uint64_def PutUint64_def)
qed

declare u16.get_put [codec] u32.get_put [codec] u64.get_put [codec]
  u16.put_get [codec] u32.put_get [codec] u64.put_get [codec]

text \<open>\<^verbatim>\<open>strings.Split\<close> with a separator of one character.\<close>

fun splitOn :: "'a \<Rightarrow> 'a list \<Rightarrow> 'a list list" where
  "splitOn d [] = [[]]"
| "splitOn d (c # s) = (if c = d then [] # splitOn d s else (c # hd (splitOn d s)) # tl (splitOn d s))"

lemma splitOn_append: "d \<notin> set x \<Longrightarrow> splitOn d (x @ d # y) = x # splitOn d y"
  by (induction x) auto

lemma splitOn_last: "d \<notin> set x \<Longrightarrow> splitOn d x = [x]"
  by (induction x) auto

end
