(* ===== verification/Chan.thy ===== *)
theory Chan
  imports Prelude
begin

text \<open>
  Buffered Go channels used without blocking: \<^verbatim>\<open>select\<close> with a send or a receive and a
  \<^verbatim>\<open>default\<close>. The pacers of a relay and the schedule and the replies of a client are such
  channels. The locale states the contract of a bounded queue and what follows from it for any
  sequence of sends and receives.
\<close>

record 'a chan =
  ch_buf :: "'a list"
  ch_cap :: nat

definition make_chan :: "nat \<Rightarrow> 'a chan" where
  "make_chan n = \<lparr>ch_buf = [], ch_cap = n\<rparr>"

definition try_send :: "'a \<Rightarrow> 'a chan \<Rightarrow> bool \<times> 'a chan" where
  "try_send x q =
     (if length (ch_buf q) < ch_cap q then (True, q\<lparr>ch_buf := ch_buf q @ [x]\<rparr>) else (False, q))"

definition try_recv :: "'a chan \<Rightarrow> 'a option \<times> 'a chan" where
  "try_recv q = (case ch_buf q of [] \<Rightarrow> (None, q) | x # xs \<Rightarrow> (Some x, q\<lparr>ch_buf := xs\<rparr>))"

text \<open>
  A call is a send of an element or a receive; \<open>run\<close> collects the elements that were taken in and
  the elements that came out.
\<close>

locale fifo =
  fixes put :: "'a \<Rightarrow> 'q \<Rightarrow> bool \<times> 'q" and get :: "'q \<Rightarrow> 'a option \<times> 'q"
    and items :: "'q \<Rightarrow> 'a list" and capacity :: "'q \<Rightarrow> nat"
  assumes put_law: "put x q = (ok, q') \<Longrightarrow> ok = (length (items q) < capacity q)
      \<and> items q' = (if ok then items q @ [x] else items q) \<and> capacity q' = capacity q"
    and get_law: "get q = (r, q') \<Longrightarrow> items q = (case r of None \<Rightarrow> [] | Some x \<Rightarrow> [x]) @ items q'
      \<and> (r = None \<longrightarrow> items q' = []) \<and> capacity q' = capacity q"
begin

primrec run :: "'a option list \<Rightarrow> 'q \<Rightarrow> 'a list \<times> 'a list \<times> 'q" where
  "run [] q = ([], [], q)"
| "run (e # es) q =
     (case e of
        Some x \<Rightarrow> (case put x q of (ok, q) \<Rightarrow>
          (case run es q of (ins, outs, q) \<Rightarrow> ((if ok then x # ins else ins), outs, q)))
      | None \<Rightarrow> (case get q of (r, q) \<Rightarrow>
          (case run es q of (ins, outs, q) \<Rightarrow> (ins, (case r of None \<Rightarrow> outs | Some y \<Rightarrow> y # outs), q))))"

lemma run_in_order: "run es q = (ins, outs, q') \<Longrightarrow> items q @ ins = outs @ items q'"
proof (induction es arbitrary: q ins outs)
  case (Cons e es)
  show ?case
  proof (cases e)
    case (Some x)
    then obtain ok q1 ins1 where p: "put x q = (ok, q1)" "run es q1 = (ins1, outs, q')" "ins = (if ok then x # ins1 else ins1)"
      using Cons.prems by (auto split: prod.splits)
    then show ?thesis using put_law [OF p(1)] Cons.IH [OF p(2)] by (auto split: if_splits)
  next
    case None
    then obtain r q1 outs1 where p: "get q = (r, q1)" "run es q1 = (ins, outs1, q')" "outs = (case r of None \<Rightarrow> outs1 | Some y \<Rightarrow> y # outs1)"
      using Cons.prems by (auto split: prod.splits)
    then show ?thesis using get_law [OF p(1)] Cons.IH [OF p(2)] by (cases r) auto
  qed
qed simp

lemma run_bounded: "run es q = (ins, outs, q') \<Longrightarrow> length (items q) \<le> capacity q \<Longrightarrow>
    length (items q') \<le> capacity q' \<and> capacity q' = capacity q"
proof (induction es arbitrary: q ins outs)
  case (Cons e es)
  show ?case
  proof (cases e)
    case (Some x)
    then obtain ok q1 ins1 where p: "put x q = (ok, q1)" "run es q1 = (ins1, outs, q')"
      using Cons.prems(1) by (auto split: prod.splits)
    have "length (items q1) \<le> capacity q1 \<and> capacity q1 = capacity q"
      using put_law [OF p(1)] Cons.prems(2) by auto
    then show ?thesis using Cons.IH [OF p(2)] by simp
  next
    case None
    then obtain r q1 outs1 where p: "get q = (r, q1)" "run es q1 = (ins, outs1, q')"
      using Cons.prems(1) by (auto split: prod.splits)
    have "length (items q1) \<le> capacity q1 \<and> capacity q1 = capacity q"
      using get_law [OF p(1)] Cons.prems(2) by auto
    then show ?thesis using Cons.IH [OF p(2)] by simp
  qed
qed simp

end

interpretation ch: fifo try_send try_recv ch_buf ch_cap
  by unfold_locales (auto simp: try_send_def try_recv_def split: list.splits if_splits)

end
