(* ===== verification/Kdf.thy ===== *)
theory Kdf
  imports Prelude "HOL-Library.Char_ord"
begin

text \<open>
  \<^verbatim>\<open>crypto/provider.go\<close> (suites) and \<^verbatim>\<open>crypto/kdf.go\<close>: the labels every derived key is bound
  to, and the transcript bytes a \<^verbatim>\<open>Context\<close> hashes. The lemmas show what the comments of that
  file promise: names follow their grammar, labels and transcripts are injective encodings,
  and a label a caller can derive under is never one the providers keep to themselves.
\<close>

section \<open>Suites\<close>

type_synonym suite = "8 word"

definition SuiteGOST :: suite where "SuiteGOST = 1"

definition SuiteC25519 :: suite where "SuiteC25519 = 2"

definition suite_String :: "suite \<Rightarrow> string" where
  "suite_String s =
     (if s = SuiteGOST then ''gost'' else if s = SuiteC25519 then ''c25519'' else ''unknown'')"

definition knownSuite :: "suite \<Rightarrow> bool" where
  "knownSuite s \<longleftrightarrow> s = SuiteGOST \<or> s = SuiteC25519"

section \<open>Names and labels\<close>

definition ContextSize :: nat where "ContextSize = 32"

definition labelPrefix :: string where "labelPrefix = ''jimichi/v1/''"

definition maxNameSize :: nat where "maxNameSize = 32"

definition maxParts :: nat where "maxParts = 255"

definition maxPartSize :: nat where "maxPartSize = 65535"

definition transcriptNS :: string where "transcriptNS = ''transcript/''"

definition reservedPurposes :: "string list" where "reservedPurposes = [''agree'', ''mix'']"

definition alnum :: "char \<Rightarrow> bool" where
  "alnum c \<longleftrightarrow> (CHR ''a'' \<le> c \<and> c \<le> CHR ''z'') \<or> (CHR ''0'' \<le> c \<and> c \<le> CHR ''9'')"

text \<open>The loop of \<^verbatim>\<open>validName\<close>, from the character before the rest.\<close>

fun validName_loop :: "char \<Rightarrow> string \<Rightarrow> bool" where
  "validName_loop prev [] = (prev \<noteq> CHR ''/'')"
| "validName_loop prev (c # cs) =
     (if alnum c then validName_loop c cs
      else if c = CHR ''/'' \<and> prev \<noteq> CHR ''/'' then validName_loop c cs
      else False)"

definition validName :: "string \<Rightarrow> bool" where
  "validName name =
     (if length name = 0 \<or> length name > maxNameSize then False
      else validName_loop (CHR ''/'') name)"

text \<open>The bytes of a Go string: \<^verbatim>\<open>[]byte(s)\<close>.\<close>

definition str :: "string \<Rightarrow> bytes" where
  "str s = map of_char s"

definition Label :: "suite \<Rightarrow> string \<Rightarrow> bytes result" where
  "Label s purpose =
     (if \<not> knownSuite s \<or> \<not> validName purpose then Inl ErrBadLabel
      else Inr (str (labelPrefix @ suite_String s @ ''/'' @ purpose)))"

definition DeriveLabel :: "suite \<Rightarrow> string \<Rightarrow> bytes result" where
  "DeriveLabel s purpose =
     (if purpose \<in> set reservedPurposes then Inl ErrBadLabel
      else if take (length transcriptNS) purpose = transcriptNS then Inl ErrBadLabel
      else Label s purpose)"

section \<open>Transcripts\<close>

definition badPart :: "bytes \<Rightarrow> bool" where
  "badPart part \<longleftrightarrow> length part = 0 \<or> length part > maxPartSize"

definition putPart :: "bytes \<Rightarrow> bytes" where
  "putPart part = word_of_nat (length part div 256) # word_of_nat (length part) # part"

definition transcript_head :: "suite \<Rightarrow> string \<Rightarrow> string" where
  "transcript_head s exchange = labelPrefix @ suite_String s @ ''/'' @ transcriptNS @ exchange"

definition TranscriptBytes :: "suite \<Rightarrow> string \<Rightarrow> bytes list \<Rightarrow> bytes result" where
  "TranscriptBytes s exchange parts =
     (if \<not> knownSuite s then Inl ErrBadContext
      else if \<not> validName exchange then Inl ErrBadLabel
      else if length parts = 0 \<or> length parts > maxParts then Inl ErrBadContext
      else if list_ex badPart parts then Inl ErrBadContext
      else Inr (str (transcript_head s exchange) @ [0, word_of_nat (length parts)]
                @ concat (map putPart parts)))"

section \<open>Contexts\<close>

record Context =
  ctx_suite :: suite
  ctx_sum :: bytes
  ctx_set :: bool

text \<open>The zero value \<^verbatim>\<open>Context{}\<close>, which the providers refuse.\<close>

definition zeroContext :: Context where
  "zeroContext = \<lparr>ctx_suite = 0, ctx_sum = replicate ContextSize 0, ctx_set = False\<rparr>"

definition Context_Valid :: "Context \<Rightarrow> bool" where
  "Context_Valid c \<longleftrightarrow> ctx_set c \<and> knownSuite (ctx_suite c)"

text \<open>\<open>s\<close> and \<open>hash\<close> are the suite and the hash of the provider.\<close>

definition NewContext :: "suite \<Rightarrow> (bytes \<Rightarrow> bytes) \<Rightarrow> string \<Rightarrow> bytes list \<Rightarrow> Context result" where
  "NewContext s hash exchange parts =
     (case TranscriptBytes s exchange parts of
        Inl e \<Rightarrow> Inl e
      | Inr t \<Rightarrow>
          if length (hash t) \<noteq> ContextSize then Inl ErrBadContext
          else Inr \<lparr>ctx_suite = s, ctx_sum = hash t, ctx_set = True\<rparr>)"

section \<open>Characters and bytes\<close>

lemma of_char_byte_eq: "(of_char c :: byte) = of_char d \<longleftrightarrow> c = d"
proof
  assume "(of_char c :: byte) = of_char d"
  then have "(word_of_nat (of_char c) :: byte) = word_of_nat (of_char d)"
    by (simp add: of_nat_of_char)
  then have "unat (word_of_nat (of_char c) :: byte) = unat (word_of_nat (of_char d) :: byte)"
    by simp
  then have "(of_char c :: nat) = of_char d"
    by (simp add: unat_of_nat)
  then show "c = d"
    by simp
qed simp

lemma of_char_byte_zero: "(of_char c :: byte) = 0 \<longleftrightarrow> c = CHR 0x00"
  using of_char_byte_eq [of c "CHR 0x00"] by simp

lemma str_inj [simp]: "str s = str t \<longleftrightarrow> s = t"
  unfolding str_def by (rule inj_map_eq_map) (simp add: inj_def of_char_byte_eq)

lemma str_append [simp]: "str (s @ t) = str s @ str t"
  by (simp add: str_def)

lemma length_str [simp, len]: "length (str s) = length s"
  by (simp add: str_def)

lemma zero_notin_str: "0 \<in> set (str s) \<longleftrightarrow> CHR 0x00 \<in> set s"
  by (force simp: str_def of_char_byte_zero)

section \<open>Names follow their grammar\<close>

text \<open>The grammar of the comment, \<^verbatim>\<open>[a-z0-9]+(/[a-z0-9]+)*\<close>: segments joined by slashes.\<close>

fun join :: "string list \<Rightarrow> string" where
  "join [] = []"
| "join [g] = g"
| "join (g # gs) = g @ CHR ''/'' # join gs"

definition segment :: "string \<Rightarrow> bool" where
  "segment g \<longleftrightarrow> g \<noteq> [] \<and> list_all alnum g"

definition name_grammar :: "string \<Rightarrow> bool" where
  "name_grammar s \<longleftrightarrow> (\<exists>gs. gs \<noteq> [] \<and> list_all segment gs \<and> s = join gs)"

lemma alnum_slash [simp]: "\<not> alnum (CHR ''/'')"
  by (simp add: alnum_def less_eq_char_def)

lemma alnum_zero [simp]: "\<not> alnum (CHR 0x00)"
  by (simp add: alnum_def less_eq_char_def)

lemma validName_loop_alnum:
  "list_all alnum g \<Longrightarrow> g \<noteq> [] \<Longrightarrow> validName_loop p (g @ s) = validName_loop (last g) s"
  by (induction g arbitrary: p) (auto split: if_splits)

lemma join_Cons: "gs \<noteq> [] \<Longrightarrow> join (g # gs) = g @ CHR ''/'' # join gs"
  by (cases gs) simp_all

lemma last_segment: "segment g \<Longrightarrow> last g \<noteq> CHR ''/''"
  by (metis alnum_slash last_in_set list_all_iff segment_def)

lemma validName_loop_join:
  "gs \<noteq> [] \<Longrightarrow> list_all segment gs \<Longrightarrow> validName_loop p (join gs)"
proof (induction gs arbitrary: p)
  case Nil
  then show ?case by simp
next
  case (Cons g gs)
  from Cons.prems have g: "segment g" by simp
  then have loop: "validName_loop p (g @ s) = validName_loop (last g) s" for s
    by (simp add: segment_def validName_loop_alnum)
  show ?case
  proof (cases "gs = []")
    case True
    with loop [of "[]"] g show ?thesis by (simp add: last_segment)
  next
    case False
    with Cons g show ?thesis by (simp add: join_Cons loop last_segment)
  qed
qed

text \<open>
  The loop reads the rest of a segment first: after a slash the rest is a name of its own,
  after an alphanumeric it may also continue or end the segment.
\<close>

lemma name_grammar_cons:
  "alnum c \<Longrightarrow> name_grammar s \<Longrightarrow> name_grammar (c # s)"
proof -
  assume c: "alnum c" and "name_grammar s"
  then obtain gs where gs: "gs \<noteq> []" "list_all segment gs" "s = join gs"
    by (auto simp: name_grammar_def)
  then have "c # s = join ((c # hd gs) # tl gs)"
    by (cases gs rule: join.cases) simp_all
  moreover have "list_all segment ((c # hd gs) # tl gs)"
    using gs c by (cases gs) (simp_all add: segment_def)
  ultimately show ?thesis
    unfolding name_grammar_def by blast
qed

lemma name_grammar_slash:
  "alnum c \<Longrightarrow> name_grammar s \<Longrightarrow> name_grammar (c # CHR ''/'' # s)"
proof -
  assume c: "alnum c" and "name_grammar s"
  then obtain gs where gs: "gs \<noteq> []" "list_all segment gs" "s = join gs"
    by (auto simp: name_grammar_def)
  then have "c # CHR ''/'' # s = join ([c] # gs)"
    by (simp add: join_Cons)
  with gs c show ?thesis
    unfolding name_grammar_def
    by (intro exI [of _ "[c] # gs"]) (simp add: segment_def)
qed

lemma validName_loop_grammar:
  "validName_loop p s \<Longrightarrow>
     (p = CHR ''/'' \<longrightarrow> name_grammar s) \<and> (alnum p \<longrightarrow> name_grammar (p # s))"
proof (induction s arbitrary: p)
  case Nil
  have "name_grammar [p]" if "alnum p"
    unfolding name_grammar_def using that by (intro exI [of _ "[[p]]"]) (simp add: segment_def)
  with Nil show ?case by auto
next
  case (Cons c s)
  show ?case
  proof (cases "alnum c")
    case True
    with Cons have "name_grammar (c # s)" by auto
    then show ?thesis by (simp add: name_grammar_cons)
  next
    case False
    with Cons have "c = CHR ''/''" "p \<noteq> CHR ''/''" "name_grammar s"
      by (auto split: if_splits)
    then show ?thesis by (simp add: name_grammar_slash)
  qed
qed

lemma name_grammar_nonempty: "name_grammar s \<Longrightarrow> s \<noteq> []"
  by (auto simp: name_grammar_def segment_def elim!: join.elims)

lemma validName_iff:
  "validName name \<longleftrightarrow> name_grammar name \<and> length name \<le> maxNameSize"
proof -
  have "validName_loop (CHR ''/'') name \<longleftrightarrow> name_grammar name"
    using validName_loop_grammar [of "CHR ''/''" name] validName_loop_join
    by (auto simp: name_grammar_def)
  then show ?thesis
    using name_grammar_nonempty by (auto simp: validName_def)
qed

lemma validName_loop_no_zero: "validName_loop p s \<Longrightarrow> CHR 0x00 \<notin> set s"
  by (induction p s rule: validName_loop.induct) (auto split: if_splits)

lemma validName_no_zero: "validName s \<Longrightarrow> CHR 0x00 \<notin> set s"
  by (auto simp: validName_def validName_loop_no_zero split: if_splits)

section \<open>Labels are injective and disjoint\<close>

lemma suite_String_slash_inj:
  "knownSuite s \<Longrightarrow> knownSuite t \<Longrightarrow>
     suite_String s @ CHR ''/'' # x = suite_String t @ CHR ''/'' # y \<longleftrightarrow> s = t \<and> x = y"
  by (auto simp: knownSuite_def suite_String_def SuiteGOST_def SuiteC25519_def)

lemma Label_Inr:
  "Label s purpose = Inr l \<longleftrightarrow>
     knownSuite s \<and> validName purpose \<and> l = str (labelPrefix @ suite_String s @ ''/'' @ purpose)"
  by (auto simp: Label_def)

lemma Label_inj_helper:
  "Label s p = Inr l \<Longrightarrow> Label t q = Inr l \<Longrightarrow> s = t \<and> p = q"
  using suite_String_slash_inj [of s t p q] by (simp add: Label_Inr del: str_append)

lemma DeriveLabel_Inr:
  "DeriveLabel s purpose = Inr l \<longleftrightarrow>
     purpose \<notin> set reservedPurposes \<and> take (length transcriptNS) purpose \<noteq> transcriptNS
     \<and> Label s purpose = Inr l"
  by (auto simp: DeriveLabel_def)

lemma Label_no_zero: "Label s p = Inr l \<Longrightarrow> 0 \<notin> set l"
  by (auto simp: Label_Inr zero_notin_str validName_no_zero labelPrefix_def suite_String_def)

section \<open>Transcripts are injective\<close>

lemma TranscriptBytes_Inr:
  "TranscriptBytes s e ps = Inr t \<longleftrightarrow>
     knownSuite s \<and> validName e \<and> ps \<noteq> [] \<and> length ps \<le> maxParts \<and> \<not> list_ex badPart ps \<and>
     t = str (transcript_head s e) @ [0, word_of_nat (length ps)] @ concat (map putPart ps)"
  by (auto simp: TranscriptBytes_def)

lemma head_no_zero: "knownSuite s \<Longrightarrow> validName e \<Longrightarrow> 0 \<notin> set (str (transcript_head s e))"
  by (simp add: zero_notin_str transcript_head_def labelPrefix_def transcriptNS_def
      suite_String_def validName_no_zero)

lemma first_zero_split:
  assumes "x \<notin> set h" "x \<notin> set h'" "h @ x # r = h' @ x # r'"
  shows "h = h' \<and> r = r'"
proof -
  have "takeWhile (\<lambda>b. b \<noteq> x) (h @ x # r) = h"
    using assms(1) by (induction h) auto
  moreover have "takeWhile (\<lambda>b. b \<noteq> x) (h' @ x # r') = h'"
    using assms(2) by (induction h') auto
  ultimately have "h = h'"
    using assms(3) by simp
  with assms(3) show ?thesis by simp
qed

lemma word_of_nat_byte_inj:
  "m < 256 \<Longrightarrow> n < 256 \<Longrightarrow> (word_of_nat m :: byte) = word_of_nat n \<Longrightarrow> m = n"
  by (simp add: word_of_nat_eq_iff take_bit_eq_mod)

lemma putPart_inj:
  assumes "\<not> badPart p" "\<not> badPart q" "putPart p @ r = putPart q @ s"
  shows "p = q \<and> r = s"
proof -
  have le: "length p \<le> 65535" "length q \<le> 65535"
    using assms(1,2) by (auto simp: badPart_def maxPartSize_def)
  have hi: "length p div 256 = length q div 256"
    using assms(3) le by (intro word_of_nat_byte_inj) (auto simp: putPart_def)
  have "(word_of_nat (length p) :: byte) = word_of_nat (length q)"
    using assms(3) by (simp add: putPart_def)
  then have "length p mod 256 = length q mod 256"
    by (simp add: word_of_nat_eq_iff take_bit_eq_mod)
  with hi have "length p = length q"
    by (metis div_mult_mod_eq)
  with assms(3) show ?thesis
    by (simp add: putPart_def)
qed

lemma concat_putPart_inj:
  assumes "length ps = length qs" "\<not> list_ex badPart ps" "\<not> list_ex badPart qs"
    and "concat (map putPart ps) = concat (map putPart qs)"
  shows "ps = qs"
  using assms
proof (induction ps qs rule: list_induct2)
  case (Cons p ps q qs)
  then have "p = q \<and> concat (map putPart ps) = concat (map putPart qs)"
    by (intro putPart_inj) auto
  with Cons show ?case by simp
qed simp

lemma transcript_head_inj:
  "knownSuite s \<Longrightarrow> knownSuite t \<Longrightarrow> transcript_head s e = transcript_head t f \<Longrightarrow> s = t \<and> e = f"
  by (simp add: transcript_head_def suite_String_slash_inj)

lemma TranscriptBytes_inj_helper:
  assumes "TranscriptBytes s e ps = Inr t" "TranscriptBytes s' e' ps' = Inr t"
  shows "s = s' \<and> e = e' \<and> ps = ps'"
proof -
  note l = assms(1) [unfolded TranscriptBytes_Inr] and r = assms(2) [unfolded TranscriptBytes_Inr]
  have heads: "str (transcript_head s e) = str (transcript_head s' e')"
    and rest: "(word_of_nat (length ps) :: byte) # concat (map putPart ps)
                = word_of_nat (length ps') # concat (map putPart ps')"
    using first_zero_split [OF head_no_zero head_no_zero, of s e s' e'
        "word_of_nat (length ps) # concat (map putPart ps)"
        "word_of_nat (length ps') # concat (map putPart ps')"] l r by simp_all
  have "length ps = length ps'"
    using l r rest by (intro word_of_nat_byte_inj) (auto simp: maxParts_def)
  then have "ps = ps'"
    using l r rest by (intro concat_putPart_inj) auto
  moreover have "s = s' \<and> e = e'"
    using l r heads transcript_head_inj [of s s' e e'] by simp
  ultimately show ?thesis by simp
qed

section \<open>The properties of labels and transcripts\<close>

text \<open>
  transcripts are unambiguous. Two transcripts that give the same bytes have the same suite,
  exchange and list of parts, so two exchanges that differ anywhere derive from different
  contexts as far as the hash tells them apart.
\<close>

theorem transcript_unambiguous:
  assumes "TranscriptBytes s e ps = Inr t" "TranscriptBytes s' e' ps' = Inr t"
  shows "s = s' \<and> e = e' \<and> ps = ps'"
  by (rule TranscriptBytes_inj_helper [OF assms])

theorem transcript_unambiguous_witness:
  "SuiteGOST = SuiteGOST \<and> ''setup'' = ''setup'' \<and> [[1], [2, 0 :: byte]] = [[1], [2, 0]]"
  by (rule transcript_unambiguous [of SuiteGOST "''setup''" "[[1], [2, 0]]"
        "projr (TranscriptBytes SuiteGOST ''setup'' [[1], [2, 0]])"])
    (simp_all add: TranscriptBytes_def knownSuite_def validName_def maxNameSize_def maxParts_def
      maxPartSize_def badPart_def alnum_def less_eq_char_def)

text \<open>
  a label names its suite and purpose and nothing else, holds no zero byte, and a purpose is
  accepted exactly when it follows the grammar \<^verbatim>\<open>[a-z0-9]+(/[a-z0-9]+)*\<close> within 32 bytes; the
  label of a derivation is never one that the providers reserve for themselves.
\<close>

theorem labels_separate:
  assumes "DeriveLabel s p = Inr l"
  shows "(\<forall>t q. Label t q = Inr l \<longrightarrow> t = s \<and> q = p) \<and> 0 \<notin> set l
    \<and> name_grammar p \<and> length p \<le> maxNameSize \<and> knownSuite s
    \<and> (\<forall>t r. r \<in> set reservedPurposes \<or> take (length transcriptNS) r = transcriptNS \<longrightarrow> Label t r \<noteq> Inr l)"
proof -
  have l: "Label s p = Inr l" "p \<notin> set reservedPurposes" "take (length transcriptNS) p \<noteq> transcriptNS"
    using assms by (simp_all add: DeriveLabel_Inr)
  then have "knownSuite s \<and> validName p"
    by (simp add: Label_Inr)
  then have "name_grammar p \<and> length p \<le> maxNameSize \<and> knownSuite s"
    by (simp add: validName_iff)
  moreover have only: "t = s \<and> q = p" if "Label t q = Inr l" for t q
    using Label_inj_helper [OF that l(1)] .
  moreover have "Label t r \<noteq> Inr l"
    if "r \<in> set reservedPurposes \<or> take (length transcriptNS) r = transcriptNS" for t r
    using that only [of t r] l(2,3) by metis
  ultimately show ?thesis
    using Label_no_zero [OF l(1)] by blast
qed

theorem labels_separate_witness:
  "Label SuiteGOST ''cell'' \<noteq> Inr (str ''jimichi/v1/c25519/cell'')
    \<and> 0 \<notin> set (str ''jimichi/v1/c25519/cell'') \<and> name_grammar ''cell''
    \<and> Label SuiteC25519 ''agree'' \<noteq> Inr (str ''jimichi/v1/c25519/cell'')"
proof -
  have "DeriveLabel SuiteC25519 ''cell'' = Inr (str ''jimichi/v1/c25519/cell'')"
    by code_simp
  moreover have "SuiteGOST \<noteq> SuiteC25519" "''agree'' \<in> set reservedPurposes"
    by (simp_all add: SuiteGOST_def SuiteC25519_def reservedPurposes_def)
  ultimately show ?thesis
    using labels_separate by blast
qed

end
