(* ===== verification/Cell.thy ===== *)
theory Cell
  imports Kdf
begin

text \<open>
  \<^verbatim>\<open>wire/cell.go\<close>: the fixed-size cell and its clear-text header. A cell is a Go array, so the
  invariant \<open>wf_cell\<close> is its type; every operation keeps it, and header and body are a
  lossless view of the 512 bytes.
\<close>

definition CellSize :: nat where "CellSize = 512"

definition headerSize :: nat where "headerSize = 18"

definition BodySize :: nat where "BodySize = CellSize - headerSize"

definition Version :: byte where "Version = 2"

lemmas cell_sizes = CellSize_def headerSize_def BodySize_def

lemma BodySize_val: "BodySize = 494"
  by (simp add: cell_sizes)

section \<open>Kinds and headers\<close>

type_synonym Kind = byte

definition KindData :: Kind where "KindData = 1"

definition KindControl :: Kind where "KindControl = 3"

definition KindPadding :: Kind where "KindPadding = 4"

lemmas kinds = KindData_def KindControl_def KindPadding_def

definition Kind_String :: "Kind \<Rightarrow> string" where
  "Kind_String k =
     (if k = KindData then ''data'' else if k = KindControl then ''control''
      else if k = KindPadding then ''padding'' else ''unknown'')"

definition Kind_valid :: "Kind \<Rightarrow> bool" where
  "Kind_valid k \<longleftrightarrow> k = KindData \<or> k = KindControl \<or> k = KindPadding"

record Header =
  hVersion :: byte
  hKind :: Kind
  hCircuit :: u64
  hCounter :: u64

text \<open>\<^verbatim>\<open>Header{Kind: k, Circuit: id, Counter: n}\<close>: the version is left zero and not read.\<close>

definition mkHeader :: "Kind \<Rightarrow> u64 \<Rightarrow> u64 \<Rightarrow> Header" where
  "mkHeader k cid n = \<lparr>hVersion = 0, hKind = k, hCircuit = cid, hCounter = n\<rparr>"

lemma mkHeader_sel [simp]:
  "hKind (mkHeader k cid n) = k" "hCircuit (mkHeader k cid n) = cid"
  "hCounter (mkHeader k cid n) = n"
  by (simp_all add: mkHeader_def)

section \<open>Cells\<close>

type_synonym Cell = bytes

definition wf_cell :: "Cell \<Rightarrow> bool" where
  "wf_cell c \<longleftrightarrow> length c = CellSize"

definition NewCell :: "Header \<Rightarrow> bytes \<Rightarrow> Cell result" where
  "NewCell h body =
     (if length body \<noteq> BodySize then Inl ErrCellSize
      else if \<not> Kind_valid (hKind h) then Inl ErrKind
      else Inr ([Version, hKind h] @ PutUint64 (hCircuit h) @ PutUint64 (hCounter h)
                @ copy (replicate BodySize 0) body))"

definition Cell_Header :: "Cell \<Rightarrow> Header result" where
  "Cell_Header c =
     (if c ! 0 \<noteq> Version then Inl ErrVersion
      else if \<not> Kind_valid (c ! 1) then Inl ErrKind
      else Inr \<lparr>hVersion = c ! 0, hKind = c ! 1,
                hCircuit = Uint64 (take 8 (drop 2 c)), hCounter = Uint64 (take 8 (drop 10 c))\<rparr>)"

definition Cell_Body :: "Cell \<Rightarrow> bytes" where
  "Cell_Body c = drop headerSize c"

text \<open>\<^verbatim>\<open>copy(cell.Body(), b)\<close>: the body is a slice of the cell's array.\<close>

definition set_Body :: "Cell \<Rightarrow> bytes \<Rightarrow> Cell" where
  "set_Body c b = take headerSize c @ copy (Cell_Body c) b"

definition NewPadding :: Cell where
  "NewPadding = [Version, KindPadding] @ replicate (CellSize - 2) 0"

definition IsPadding :: "Cell \<Rightarrow> bool" where
  "IsPadding c \<longleftrightarrow> c ! 0 = Version \<and> c ! 1 = KindPadding"

definition Cell_aad :: "Cell \<Rightarrow> u64 \<Rightarrow> int \<Rightarrow> bytes" where
  "Cell_aad c counter hop = [c ! 0, c ! 1] @ PutUint64 counter @ [word_of_int hop]"

definition SetCircuit :: "u64 \<Rightarrow> Cell \<Rightarrow> Cell" where
  "SetCircuit cid c = take 2 c @ PutUint64 cid @ drop 10 c"

section \<open>Every operation keeps the size\<close>

lemma NewCell_Inr:
  "NewCell h body = Inr c \<longleftrightarrow>
     length body = BodySize \<and> Kind_valid (hKind h) \<and>
     c = [Version, hKind h] @ PutUint64 (hCircuit h) @ PutUint64 (hCounter h) @ body"
  by (auto simp: NewCell_def copy_same)

lemma wf_NewCell [len]: "NewCell h body = Inr c \<Longrightarrow> wf_cell c"
  by (auto simp: NewCell_Inr wf_cell_def cell_sizes)

lemma wf_NewPadding [simp, len]: "wf_cell NewPadding"
  by (simp add: wf_cell_def NewPadding_def CellSize_def)

lemma wf_SetCircuit [len]: "wf_cell c \<Longrightarrow> wf_cell (SetCircuit cid c)"
  by (simp add: wf_cell_def SetCircuit_def CellSize_def)

lemma length_Body [len]: "wf_cell c \<Longrightarrow> length (Cell_Body c) = BodySize"
  by (simp add: wf_cell_def Cell_Body_def BodySize_def)

lemma wf_set_Body [len]: "wf_cell c \<Longrightarrow> wf_cell (set_Body c b)"
  by (simp add: wf_cell_def set_Body_def Cell_Body_def cell_sizes)

lemma length_aad [simp, len]: "length (Cell_aad c n i) = 11"
  by (simp add: Cell_aad_def)

section \<open>Header and body are a lossless view\<close>

lemma Cell_Header_NewCell:
  assumes "NewCell h body = Inr c"
  shows "Cell_Header c = Inr (h\<lparr>hVersion := Version\<rparr>)"
  using assms by (auto simp: NewCell_Inr Cell_Header_def codec)

lemma Cell_Body_NewCell: "NewCell h body = Inr c \<Longrightarrow> Cell_Body c = body"
  by (auto simp: NewCell_Inr Cell_Body_def headerSize_def)

lemma Cell_Header_Inr:
  "Cell_Header c = Inr h \<longleftrightarrow>
     c ! 0 = Version \<and> Kind_valid (c ! 1) \<and>
     h = \<lparr>hVersion = Version, hKind = c ! 1, hCircuit = Uint64 (take 8 (drop 2 c)),
          hCounter = Uint64 (take 8 (drop 10 c))\<rparr>"
  by (auto simp: Cell_Header_def)

lemma cell_split:
  assumes "wf_cell c"
  shows "c = [c ! 0, c ! 1] @ take 8 (drop 2 c) @ take 8 (drop 10 c) @ drop 18 c"
proof -
  have "c = take 2 c @ take 8 (drop 2 c) @ take 8 (drop 10 c) @ drop 18 c"
    using append_take_drop_id [of 2 c] append_take_drop_id [of 8 "drop 2 c"]
      append_take_drop_id [of 8 "drop 10 c"] by simp
  moreover have "take 2 c = [c ! 0, c ! 1]"
    using assms by (simp add: wf_cell_def CellSize_def take_Suc_conv_app_nth numeral_2_eq_2)
  ultimately show ?thesis by simp
qed

lemma NewCell_Cell_Header:
  assumes "wf_cell c" "Cell_Header c = Inr h"
  shows "NewCell h (Cell_Body c) = Inr c"
  using assms cell_split [OF assms(1)]
  by (simp add: NewCell_Inr Cell_Header_Inr length_Body u64.put_get Cell_Body_def headerSize_def
      wf_cell_def cell_sizes)

lemma Cell_Header_SetCircuit:
  assumes "wf_cell c"
  shows "Cell_Header (SetCircuit cid c) = map_sum (\<lambda>e. e) (\<lambda>h. h\<lparr>hCircuit := cid\<rparr>) (Cell_Header c)"
  using assms
  by (simp add: Cell_Header_def SetCircuit_def wf_cell_def CellSize_def nth_append codec)

lemma Cell_Body_SetCircuit: "wf_cell c \<Longrightarrow> Cell_Body (SetCircuit cid c) = Cell_Body c"
  by (simp add: Cell_Body_def SetCircuit_def wf_cell_def cell_sizes)

lemma padding_header: "Cell_Header NewPadding = Inr (mkHeader KindPadding 0 0 \<lparr>hVersion := Version\<rparr>)"
  by (simp add: Cell_Header_def NewPadding_def Kind_valid_def mkHeader_def CellSize_def Uint64_def
      nat_be_def numeral_eq_Suc)

lemma IsPadding_NewPadding [simp]: "IsPadding NewPadding"
  by (simp add: IsPadding_def NewPadding_def)

lemma IsPadding_iff: "Cell_Header c = Inr h \<Longrightarrow> IsPadding c \<longleftrightarrow> hKind h = KindPadding"
  by (auto simp: Cell_Header_Inr IsPadding_def)

text \<open>The associated data depends on the kind only, and fixes kind, counter and hop.\<close>

lemma aad_NewCell:
  "NewCell h body = Inr c \<Longrightarrow> Cell_aad c n i = [Version, hKind h] @ PutUint64 n @ [word_of_int i]"
  by (auto simp: NewCell_Inr Cell_aad_def)

lemma aad_SetCircuit: "wf_cell c \<Longrightarrow> Cell_aad (SetCircuit cid c) n i = Cell_aad c n i"
  by (simp add: Cell_aad_def SetCircuit_def wf_cell_def CellSize_def nth_append)

lemma aad_set_Body: "wf_cell c \<Longrightarrow> Cell_aad (set_Body c b) n i = Cell_aad c n i"
  by (simp add: Cell_aad_def set_Body_def wf_cell_def cell_sizes nth_append)

lemma set_Body_NewCell:
  "NewCell h body = Inr c \<Longrightarrow> length b = BodySize \<Longrightarrow> NewCell h b = Inr (set_Body c b)"
  by (auto simp: NewCell_Inr set_Body_def Cell_Body_def headerSize_def copy_same)

section \<open>The property of a cell\<close>

text \<open>
  header and body of a cell round trip both ways. Cells of 512 bytes correspond one to one to the
  pairs of a header and a body that \<^verbatim>\<open>NewCell\<close> takes: what it encodes \<^verbatim>\<open>Header\<close> and \<^verbatim>\<open>Body\<close>
  read back, with the version set, and encoding what they read gives the same bytes.
\<close>

theorem cell_codec:
  assumes "wf_cell c"
  shows "NewCell h body = Inr c \<longleftrightarrow> Cell_Header c = Inr (h\<lparr>hVersion := Version\<rparr>) \<and> Cell_Body c = body"
proof
  assume "NewCell h body = Inr c"
  then show "Cell_Header c = Inr (h\<lparr>hVersion := Version\<rparr>) \<and> Cell_Body c = body"
    by (simp add: Cell_Header_NewCell Cell_Body_NewCell)
next
  assume "Cell_Header c = Inr (h\<lparr>hVersion := Version\<rparr>) \<and> Cell_Body c = body"
  then have "NewCell (h\<lparr>hVersion := Version\<rparr>) body = Inr c"
    using NewCell_Cell_Header [OF assms] by blast
  then show "NewCell h body = Inr c"
    by (cases h) (simp add: NewCell_Inr)
qed

theorem cell_codec_witness:
  "NewCell (mkHeader KindPadding 0 0) (replicate BodySize 0) = Inr NewPadding \<longleftrightarrow>
     Cell_Header NewPadding = Inr (mkHeader KindPadding 0 0\<lparr>hVersion := Version\<rparr>)
     \<and> Cell_Body NewPadding = replicate BodySize 0"
  by (rule cell_codec) simp

end
