(* ===== verification/Counter.thy ===== *)
theory Counter
  imports Cell
begin

text \<open>
  \<^verbatim>\<open>wire/nonce.go\<close> and \<^verbatim>\<open>wire/counter.go\<close>: the counters of a link, the offsets a hop adds to
  them, and the nonces built from both. Link values live in the cyclic group of the counter
  limit, which the locale \<open>cyclic_counter\<close> states as the interface that circuits, hops and
  sequences rely on; nonces are injective in direction, circuit and counter.
\<close>

unbundle bit_operations_syntax

section \<open>Directions, limits and nonces\<close>

type_synonym Direction = "8 word"

definition Forward :: Direction where "Forward = 0"

definition Backward :: Direction where "Backward = 1"

lemmas directions = Forward_def Backward_def

lemma Forward_neq_Backward [simp]: "Forward \<noteq> Backward" "Backward \<noteq> Forward"
  by (simp_all add: directions)

definition counterLimit :: u64 where "counterLimit = push_bit 62 1"

definition cellLimit :: u64 where "cellLimit = push_bit 60 1"

definition nonceFor :: "int \<Rightarrow> Direction \<Rightarrow> u64 \<Rightarrow> u64 \<Rightarrow> bytes result" where
  "nonceFor sz dir circuit counter =
     (if counter \<ge> counterLimit then Inl ErrCounter
      else if dir > Backward then Inl ErrDirection
      else if sz \<ge> 17 then
        Inr ([dir] @ PutUint64 circuit @ PutUint64 counter @ replicate (nat sz - 17) 0)
      else if sz = 16 then
        Inr (PutUint64 (counter OR push_bit 62 (ucast dir)) @ PutUint64 circuit)
      else Inl ErrNonceSize)"

section \<open>Offsets\<close>

text \<open>\<^verbatim>\<open>type Offsets [2]uint64\<close>, indexed by direction.\<close>

record Offsets =
  off_fwd :: u64
  off_bwd :: u64

definition shift :: "u64 \<Rightarrow> u64 \<Rightarrow> u64" where
  "shift value offset = (value + offset) AND (counterLimit - 1)"

definition unshift :: "u64 \<Rightarrow> u64 \<Rightarrow> u64" where
  "unshift value offset = (value - offset) AND (counterLimit - 1)"

section \<open>Link values form a cyclic group\<close>

lemma counterLimit_val: "counterLimit = 2 ^ 62"
  by (simp add: counterLimit_def push_bit_eq_mult)

lemma cellLimit_val: "cellLimit = 2 ^ 60"
  by (simp add: cellLimit_def push_bit_eq_mult)

lemma and_counterLimit: "x AND (counterLimit - 1) = take_bit 62 (x :: u64)"
  by (simp add: counterLimit_val take_bit_eq_mask mask_eq_exp_minus_1)

lemma shift_take_bit: "shift v a = take_bit 62 (v + a)"
  by (simp add: shift_def and_counterLimit)

lemma unshift_take_bit: "unshift v a = take_bit 62 (v - a)"
  by (simp add: unshift_def and_counterLimit)

lemma unat_take_bit_62: "unat (take_bit 62 (v :: u64)) = unat v mod 2 ^ 62"
  using unsigned_take_bit_eq [of 62 v, where 'a = nat] by (simp only: take_bit_nat_def)

lemma unat_add_64: "unat (a + b :: u64) = (unat a + unat b) mod 2 ^ 64"
  by (simp add: unat_word_ariths)

lemma mod_64_62: "(n :: nat) mod 2 ^ 64 mod 2 ^ 62 = n mod 2 ^ 62"
  by (rule mod_mod_cancel) simp

lemma take_bit_62_add: "take_bit 62 (take_bit 62 a + b) = take_bit 62 (a + b :: u64)"
proof -
  have "unat (take_bit 62 (take_bit 62 a + b)) = (unat a mod 2 ^ 62 + unat b) mod 2 ^ 64 mod 2 ^ 62"
    by (simp only: unat_take_bit_62 unat_add_64)
  also have "\<dots> = (unat a + unat b) mod 2 ^ 64 mod 2 ^ 62"
    by (simp only: mod_64_62 mod_add_left_eq)
  also have "\<dots> = unat (take_bit 62 (a + b))"
    by (simp only: unat_take_bit_62 unat_add_64)
  finally show ?thesis
    by (simp only: word_unat_eq_iff)
qed

lemma less_counterLimit: "v < counterLimit \<longleftrightarrow> take_bit 62 v = (v :: u64)"
proof -
  have "v < counterLimit \<longleftrightarrow> unat v < 2 ^ 62"
    by (simp add: counterLimit_val word_less_nat_alt)
  also have "\<dots> \<longleftrightarrow> take_bit 62 (unat v) = unat v"
    by (simp add: take_bit_nat_eq_self_iff)
  also have "\<dots> \<longleftrightarrow> take_bit 62 v = v"
    by (simp add: unsigned_take_bit_eq [symmetric] word_unat_eq_iff)
  finally show ?thesis .
qed

text \<open>
  What a counter promises its users: adding and removing an offset are inverse on the link
  values, and offsets add up in any order.
\<close>

locale cyclic_counter =
  fixes add :: "'v \<Rightarrow> 'v \<Rightarrow> 'v" and sub :: "'v \<Rightarrow> 'v \<Rightarrow> 'v" and ok :: "'v \<Rightarrow> bool" and zero :: 'v
  assumes ok_add: "ok (add v a)"
    and ok_sub: "ok (sub v a)"
    and ok_zero: "ok zero"
    and add_zero: "ok v \<Longrightarrow> add v zero = v"
    and add_add: "add (add v a) b = add v (add a b)"
    and add_comm: "add v a = add a v"
    and sub_add: "ok v \<Longrightarrow> sub (add v a) a = v"
    and add_sub: "ok v \<Longrightarrow> add (sub v a) a = v"
begin

lemma add_right_comm: "add (add v a) b = add (add v b) a"
  by (metis add_add add_comm)

lemma sub_sub: "ok v \<Longrightarrow> sub (sub v a) b = sub v (add a b)"
proof -
  let ?x = "sub (sub v a) b"
  assume "ok v"
  then have "add (add ?x b) a = v"
    by (simp add: add_sub ok_sub)
  then have "add ?x (add a b) = v"
    by (simp add: add_add add_comm [of a b])
  then show ?thesis
    using sub_add [of ?x "add a b"] by (simp add: ok_sub)
qed

lemma add_inj: "ok v \<Longrightarrow> ok w \<Longrightarrow> add v a = add w a \<Longrightarrow> v = w"
  by (metis sub_add)

lemma fold_add: "foldl add v as = (if as = [] then v else add v (foldl add zero as))"
proof (induction as arbitrary: v)
  case Nil
  then show ?case by simp
next
  case (Cons a as)
  have "foldl add (add v a) as = add v (foldl add (add zero a) as)"
  proof (cases "as = []")
    case True
    then show ?thesis by simp (metis add_add add_comm add_zero ok_add ok_zero)
  next
    case False
    then show ?thesis
      using Cons [of "add v a"] Cons [of "add zero a"] by simp (metis add_add add_comm add_zero ok_add)
  qed
  then show ?case by simp
qed

end

interpretation link: cyclic_counter shift unshift "\<lambda>v. v < counterLimit" 0
proof
  fix v a b :: u64
  show "shift v a < counterLimit" "unshift v a < counterLimit"
    by (simp_all add: less_counterLimit shift_take_bit unshift_take_bit)
  show "(0 :: u64) < counterLimit"
    by (simp add: less_counterLimit)
  show "shift v 0 = v" if "v < counterLimit"
    using that by (simp add: less_counterLimit shift_take_bit)
  show "shift v a = shift a v"
    by (simp add: shift_take_bit add.commute)
  show "shift (shift v a) b = shift v (shift a b)"
    using take_bit_62_add [of "v + a" b] take_bit_62_add [of "a + b" v]
    by (simp add: shift_take_bit ac_simps)
  show "unshift (shift v a) a = v" if "v < counterLimit"
    using that take_bit_62_add [of "v + a" "- a"]
    by (simp add: shift_take_bit unshift_take_bit less_counterLimit)
  show "shift (unshift v a) a = v" if "v < counterLimit"
    using that take_bit_62_add [of "v - a" a]
    by (simp add: shift_take_bit unshift_take_bit less_counterLimit)
qed

lemma unat_shift: "unat (shift v a) = (unat v + unat a) mod 2 ^ 62"
proof -
  have "unat (shift v a) = (unat v + unat a) mod 2 ^ 64 mod 2 ^ 62"
    by (simp only: shift_take_bit unat_take_bit_62 unat_add_64)
  then show ?thesis by (simp only: mod_64_62)
qed

section \<open>Nonces never collide\<close>

lemma direction_cases: "\<not> dir > Backward \<Longrightarrow> dir = Forward \<or> dir = Backward"
  by (simp add: directions word_less_nat_alt) (metis One_nat_def le_SucE le_zero_eq
      unat_eq_zero unsigned_eq_0_iff word_unat_eq_iff unsigned_1 not_less)

lemma nonceFor_Inr:
  "nonceFor sz dir circuit counter = Inr n \<longleftrightarrow>
     counter < counterLimit \<and> (dir = Forward \<or> dir = Backward) \<and>
     (sz \<ge> 17 \<and> n = [dir] @ PutUint64 circuit @ PutUint64 counter @ replicate (nat sz - 17) 0 \<or>
      sz = 16 \<and> n = PutUint64 (counter OR push_bit 62 (ucast dir)) @ PutUint64 circuit)"
proof -
  have "\<not> Forward > Backward" "\<not> Backward > Backward"
    by (simp_all add: directions)
  then show ?thesis
    using direction_cases [of dir] by (auto simp: nonceFor_def not_less)
qed

lemma nonceFor_ok:
  "sz \<ge> 16 \<Longrightarrow> counter < counterLimit \<Longrightarrow> dir = Forward \<or> dir = Backward \<Longrightarrow>
     \<exists>n. nonceFor sz dir circuit counter = Inr n"
  by (cases "sz = 16") (auto simp: nonceFor_Inr)

lemma length_nonceFor [len]: "nonceFor sz dir circuit counter = Inr n \<Longrightarrow> int (length n) = sz"
  by (auto simp: nonceFor_Inr)

text \<open>In the 16-byte form the direction is bit 62 and the counter the bits below it.\<close>

lemma counter_word_parts:
  assumes "counter < counterLimit" "dir = Forward \<or> dir = Backward"
  shows "take_bit 62 (counter OR push_bit 62 (ucast dir)) = counter"
    and "bit (counter OR push_bit 62 (ucast dir)) 62 \<longleftrightarrow> dir = Backward"
    and "\<not> bit (counter OR push_bit 62 (ucast dir :: u64)) 63"
proof -
  have c: "take_bit 62 counter = counter"
    using assms(1) by (simp add: less_counterLimit)
  have "take_bit 62 (push_bit 62 (ucast dir :: u64)) = 0"
    by (simp add: take_bit_push_bit)
  with c show "take_bit 62 (counter OR push_bit 62 (ucast dir)) = counter"
    by (simp add: take_bit_or)
  have "\<not> bit counter n" if "n \<ge> 62" for n
    using that c by (metis bit_take_bit_iff not_less)
  moreover have "(bit dir 0 \<longleftrightarrow> dir = Backward) \<and> \<not> bit dir 1"
    using assms(2) by (auto simp: directions bit_1_iff bit_0)
  ultimately show "bit (counter OR push_bit 62 (ucast dir)) 62 \<longleftrightarrow> dir = Backward"
    and "\<not> bit (counter OR push_bit 62 (ucast dir :: u64)) 63"
    by (simp_all add: bit_or_iff bit_push_bit_iff bit_ucast_iff)
qed

lemma nonceFor_inj_helper:
  assumes "nonceFor sz dir circuit counter = Inr n"
    and "nonceFor sz dir' circuit' counter' = Inr n"
  shows "dir = dir' \<and> circuit = circuit' \<and> counter = counter'"
proof (cases "sz = 16")
  case False
  with assms show ?thesis
    by (auto simp: nonceFor_Inr u64.put_append_inj u64.put_inj)
next
  case True
  then have eq: "counter OR push_bit 62 (ucast dir) = counter' OR push_bit 62 (ucast dir')"
    and "circuit = circuit'"
    using assms by (auto simp: nonceFor_Inr u64.put_append_inj u64.put_inj)
  moreover have "counter = counter'" "dir = dir'"
    using counter_word_parts(1,2) [of counter dir] counter_word_parts(1,2) [of counter' dir'] assms eq
    by (auto simp: nonceFor_Inr)
  ultimately show ?thesis by simp
qed

text \<open>The first byte of a 16-byte nonce has its top bit clear, which MGM requires.\<close>

lemma be_Suc_Cons: "be (Suc n) k = word_of_nat (k div 256 ^ n) # be n k"
proof (induction n arbitrary: k)
  case 0
  then show ?case by simp
next
  case (Suc n)
  have "be (Suc (Suc n)) k = be (Suc n) (k div 256) @ [word_of_nat k]"
    by simp
  also have "\<dots> = word_of_nat (k div 256 div 256 ^ n) # be (Suc n) k"
    using Suc.IH [of "k div 256"] by simp
  finally show ?case by (simp add: div_mult2_eq)
qed

lemma take_bit_63: "\<not> bit (w :: u64) 63 \<Longrightarrow> take_bit 63 w = w"
proof (rule bit_word_eqI)
  fix n
  assume "\<not> bit w 63" "n < LENGTH(64)"
  moreover from this have "n < 63 \<or> n = 63" by auto
  ultimately show "bit (take_bit 63 w) n \<longleftrightarrow> bit w n"
    by (auto simp: bit_take_bit_iff)
qed

lemma nonceFor_16_top_bit:
  assumes "nonceFor 16 dir circuit counter = Inr n"
  shows "unat (n ! 0) < 128"
proof -
  let ?w = "counter OR push_bit 62 (ucast dir) :: u64"
  have parts: "counter < counterLimit" "dir = Forward \<or> dir = Backward"
    and n: "n = PutUint64 ?w @ PutUint64 circuit"
    using assms by (auto simp: nonceFor_Inr)
  have "\<not> bit ?w 63"
    using counter_word_parts(3) [OF parts] .
  then have "take_bit 63 ?w = ?w"
    by (rule take_bit_63)
  then have "unat ?w < 2 ^ 63"
    by (metis take_bit_nat_eq_self_iff unsigned_take_bit_eq)
  then have "unat ?w div 256 ^ 7 < 128"
    by (simp add: div_less_iff_less_mult)
  moreover have "n ! 0 = word_of_nat (unat ?w div 256 ^ 7)"
    using be_Suc_Cons [of 7 "unat ?w"] by (simp add: n nth_append PutUint64_def)
  ultimately show ?thesis
    by (simp add: unat_of_nat)
qed

section \<open>The property of nonces\<close>

text \<open>
  under one key no nonce repeats unless direction, link and counter all repeat: nonces of every
  size the code supports are injective in the three. A 16-byte nonce has its top bit clear, as
  MGM asks, and every counter below the limit has a nonce of the asked size.
\<close>

theorem nonce_unique:
  assumes "nonceFor sz dir circuit counter = Inr n"
  shows "(\<forall>dir' circuit' counter'. nonceFor sz dir' circuit' counter' = Inr n \<longrightarrow>
        dir' = dir \<and> circuit' = circuit \<and> counter' = counter)
    \<and> int (length n) = sz \<and> (sz = 16 \<longrightarrow> unat (n ! 0) < 128)
    \<and> (\<forall>v < counterLimit. \<exists>n'. nonceFor sz dir circuit v = Inr n')"
proof (intro conjI allI impI)
  have "sz \<ge> 16" "dir = Forward \<or> dir = Backward"
    using assms direction_cases by (auto simp: nonceFor_Inr)
  then show "\<exists>n'. nonceFor sz dir circuit v = Inr n'" if "v < counterLimit" for v
    using nonceFor_ok that by blast
  show "unat (n ! 0) < 128" if "sz = 16"
    using nonceFor_16_top_bit assms that by blast
qed (use nonceFor_inj_helper [OF assms] length_nonceFor [OF assms] in simp_all)

theorem nonce_unique_witness:
  "nonceFor 24 Forward 9 5 \<noteq> Inr ([1] @ PutUint64 9 @ PutUint64 5 @ replicate 7 0)
    \<and> int (length ([1] @ PutUint64 9 @ PutUint64 5 @ replicate 7 0)) = 24
    \<and> (\<exists>n'. nonceFor 24 Backward 9 77 = Inr n')"
proof -
  have "nonceFor 24 Backward 9 5 = Inr ([1] @ PutUint64 9 @ PutUint64 5 @ replicate 7 0)"
    by (simp add: nonceFor_def directions counterLimit_val word_le_nat_alt)
  moreover have "77 < counterLimit"
    by (simp add: counterLimit_val word_less_nat_alt)
  ultimately show ?thesis
    using nonce_unique [of 24 Backward 9 5] Forward_neq_Backward by blast
qed

end
