(* ===== verification/Provider.thy ===== *)
theory Provider
  imports Counter
begin

text \<open>
  \<^verbatim>\<open>crypto/provider.go\<close>: the \<^verbatim>\<open>CryptoProvider\<close> and \<^verbatim>\<open>AEAD\<close> interfaces as records of functions.
  The primitives themselves (X25519, XChaCha20-Poly1305, Ed25519, the GOST suite) are packages
  outside the repository, so a provider is an argument of every definition that calls one. What
  the code relies on is stated as the predicates \<open>aead_ok\<close> and \<open>provider_ok\<close>, the contract of
  \<^verbatim>\<open>docs/en/CRYPTO.md\<close>: opening undoes sealing, lengths grow by the overhead, two key pairs
  agree on one secret, derived keys have the asked size (any size up to the key size works for
  any purpose that may be derived under), and every call accounts for the
  locked memory it takes.

  A \<^verbatim>\<open>*secmem.Buffer\<close> that holds a secret is represented by its bytes; the number of buffers
  alive is tracked in the world, where each call that returns a buffer adds one and each
  \<^verbatim>\<open>Release\<close> takes one off.
\<close>

section \<open>AEAD\<close>

record AEAD =
  NonceSize :: int
  Overhead :: int
  aSeal :: "bytes \<Rightarrow> bytes \<Rightarrow> bytes \<Rightarrow> bytes"
  aOpen :: "bytes \<Rightarrow> bytes \<Rightarrow> bytes \<Rightarrow> bytes result"

text \<open>
  Arguments in the order nonce, text, associated data. MGM takes nonces of one block with the
  top bit clear, so the contract asks nothing of other 16-byte nonces.
\<close>

definition nonce_ok :: "AEAD \<Rightarrow> bytes \<Rightarrow> bool" where
  "nonce_ok a n \<longleftrightarrow> int (length n) = NonceSize a \<and> (NonceSize a = 16 \<longrightarrow> unat (n ! 0) < 128)"

definition aead_ok :: "AEAD \<Rightarrow> bool" where
  "aead_ok a \<longleftrightarrow>
     NonceSize a \<ge> 16 \<and> Overhead a > 0 \<and>
     (\<forall>n p ad. nonce_ok a n \<longrightarrow> aOpen a n (aSeal a n p ad) ad = Inr p) \<and>
     (\<forall>n p ad. int (length (aSeal a n p ad)) = int (length p) + Overhead a) \<and>
     (\<forall>n c ad p. aOpen a n c ad = Inr p \<longrightarrow> int (length c) = int (length p) + Overhead a) \<and>
     (\<forall>n c ad e. aOpen a n c ad = Inl e \<longrightarrow> e = ErrOpen)"

lemma aead_open_seal: "aead_ok a \<Longrightarrow> nonce_ok a n \<Longrightarrow> aOpen a n (aSeal a n p ad) ad = Inr p"
  by (simp add: aead_ok_def)

lemma aead_seal_length: "aead_ok a \<Longrightarrow> int (length (aSeal a n p ad)) = int (length p) + Overhead a"
  by (simp add: aead_ok_def)

lemma aead_open_length:
  "aead_ok a \<Longrightarrow> aOpen a n c ad = Inr p \<Longrightarrow> int (length c) = int (length p) + Overhead a"
  by (simp add: aead_ok_def)

lemma aead_open_error: "aead_ok a \<Longrightarrow> aOpen a n c ad = Inl e \<Longrightarrow> e = ErrOpen"
  by (simp add: aead_ok_def)

lemma aead_overhead: "aead_ok a \<Longrightarrow> Overhead a > 0"
  by (simp add: aead_ok_def)

lemma nonceFor_aead:
  assumes "aead_ok a" "counter < counterLimit" "dir = Forward \<or> dir = Backward"
  obtains n where "nonceFor (NonceSize a) dir circuit counter = Inr n" "nonce_ok a n"
proof -
  have "NonceSize a \<ge> 16"
    using assms(1) by (simp add: aead_ok_def)
  then obtain n where n: "nonceFor (NonceSize a) dir circuit counter = Inr n"
    using nonceFor_ok assms(2,3) by blast
  have "nonce_ok a n"
    using n length_nonceFor [OF n] nonceFor_16_top_bit by (auto simp: nonce_ok_def)
  with n that show ?thesis by blast
qed

section \<open>CryptoProvider\<close>

record provider =
  pSuite :: suite
  pKeySize :: int
  pEphemeral :: "(bytes \<times> bytes) io"
  pAgree :: "bytes \<Rightarrow> bytes \<Rightarrow> Context \<Rightarrow> bytes result"
  pMixKey :: "bytes \<Rightarrow> bytes \<Rightarrow> Context \<Rightarrow> bytes result"
  pDeriveKey :: "bytes \<Rightarrow> string \<Rightarrow> Context \<Rightarrow> int \<Rightarrow> bytes result"
  pNewAEAD :: "bytes \<Rightarrow> AEAD result"
  pSigning :: "(bytes \<times> bytes) io"
  pSign :: "bytes \<Rightarrow> bytes \<Rightarrow> bytes io"
  pVerify :: "bytes \<Rightarrow> bytes \<Rightarrow> bytes \<Rightarrow> bool"
  pHash :: "bytes \<Rightarrow> bytes"

text \<open>
  A secret of the pure part of a call put into a fresh buffer, which fails at the memory limit.
\<close>

definition newBuffer :: "bytes result \<Rightarrow> bytes io" where
  "newBuffer r w =
     (case r of
        Inl e \<Rightarrow> (Inl e, w)
      | Inr k \<Rightarrow> if live w < limit w then (Inr k, allocate w) else (Inl ErrMemory, w))"

definition GenerateEphemeral :: "provider \<Rightarrow> (bytes \<times> bytes) io" where
  "GenerateEphemeral p w = pEphemeral p w"

definition Agree :: "provider \<Rightarrow> bytes \<Rightarrow> bytes \<Rightarrow> Context \<Rightarrow> bytes io" where
  "Agree p priv peerPub ctx w = newBuffer (pAgree p priv peerPub ctx) w"

definition MixKey :: "provider \<Rightarrow> bytes \<Rightarrow> bytes \<Rightarrow> Context \<Rightarrow> bytes io" where
  "MixKey p chain secret ctx w = newBuffer (pMixKey p chain secret ctx) w"

definition DeriveKey :: "provider \<Rightarrow> bytes \<Rightarrow> string \<Rightarrow> Context \<Rightarrow> int \<Rightarrow> bytes io" where
  "DeriveKey p secret purpose ctx sz w = newBuffer (pDeriveKey p secret purpose ctx sz) w"

definition newContext :: "provider \<Rightarrow> string \<Rightarrow> bytes list \<Rightarrow> Context result" where
  "newContext p exchange parts = NewContext (pSuite p) (pHash p) exchange parts"

section \<open>The contract\<close>

definition aeads_ok :: "provider \<Rightarrow> bool" where
  "aeads_ok p \<longleftrightarrow> (\<forall>k a. pNewAEAD p k = Inr a \<longrightarrow> aead_ok a)"

text \<open>A pair that \<^verbatim>\<open>GenerateEphemeral\<close> can return.\<close>

definition is_pair :: "provider \<Rightarrow> bytes \<Rightarrow> bytes \<Rightarrow> bool" where
  "is_pair p priv pub \<longleftrightarrow> (\<exists>w w'. pEphemeral p w = (Inr (priv, pub), w'))"

text \<open>A secret that serves one derivation serves every allowed purpose and size.\<close>

definition derives_any :: "provider \<Rightarrow> bool" where
  "derives_any p \<longleftrightarrow>
     (\<forall>s pu ctx sz pu' sz'. \<not> isl (pDeriveKey p s pu ctx sz) \<longrightarrow> 0 < sz' \<longrightarrow> sz' \<le> pKeySize p \<longrightarrow>
        \<not> isl (DeriveLabel (pSuite p) pu') \<longrightarrow> \<not> isl (pDeriveKey p s pu' ctx sz'))"

definition provider_ok :: "provider \<Rightarrow> nat \<Rightarrow> int \<Rightarrow> bool" where
  "provider_ok p pubLen overhead \<longleftrightarrow>
     knownSuite (pSuite p) \<and> pubLen > 0 \<and> pubLen \<le> maxPartSize \<and> pKeySize p \<ge> 16 \<and>
     (\<forall>t. length (pHash p t) = ContextSize) \<and>
     (\<forall>priv pub. is_pair p priv pub \<longrightarrow> length pub = pubLen) \<and>
     (\<forall>a A b B ctx. is_pair p a A \<longrightarrow> is_pair p b B \<longrightarrow> pAgree p a B ctx = pAgree p b A ctx) \<and>
     (\<forall>s pu ctx sz k. pDeriveKey p s pu ctx sz = Inr k \<longrightarrow> int (length k) = sz) \<and>
     derives_any p \<and>
     (\<forall>k a. pNewAEAD p k = Inr a \<longrightarrow> aead_ok a \<and> Overhead a = overhead) \<and>
     (\<forall>w r w'. pEphemeral p w = (r, w') \<longrightarrow>
        live w' = (if isl r then live w else live w + 1) \<and> limit w' = limit w \<and> sizeCache w' = sizeCache w)"

text \<open>
  When calls succeed: a key pair takes one buffer and at most \<open>eb\<close> random bytes, honest pairs
  agree under a context of the suite on a secret that serves derivations, two such secrets mix
  into another, and a derived key of the key size makes an AEAD.
\<close>

definition provider_total :: "provider \<Rightarrow> nat \<Rightarrow> bool" where
  "provider_total p eb \<longleftrightarrow>
     (\<forall>w. live w < limit w \<longrightarrow> eb \<le> length (rnd w) \<longrightarrow>
        (\<exists>a A w'. pEphemeral p w = (Inr (a, A), w') \<and> length (rnd w) \<le> eb + length (rnd w'))) \<and>
     (\<forall>a A b B ctx. is_pair p a A \<longrightarrow> is_pair p b B \<longrightarrow> Context_Valid ctx \<longrightarrow> ctx_suite ctx = pSuite p \<longrightarrow>
        (\<exists>s. pAgree p a B ctx = Inr s \<and> \<not> isl (pDeriveKey p s ''cell'' ctx (pKeySize p)))) \<and>
     (\<forall>s t ctx. \<not> isl (pDeriveKey p s ''cell'' ctx (pKeySize p)) \<longrightarrow>
        \<not> isl (pDeriveKey p t ''cell'' ctx (pKeySize p)) \<longrightarrow>
        (\<exists>m. pMixKey p s t ctx = Inr m \<and> \<not> isl (pDeriveKey p m ''cell'' ctx (pKeySize p)))) \<and>
     (\<forall>k. int (length k) = pKeySize p \<longrightarrow> \<not> isl (pNewAEAD p k))"

lemma provider_okD:
  assumes "provider_ok p n ov"
  shows "knownSuite (pSuite p)" "0 < n" "n \<le> maxPartSize" "length (pHash p t) = ContextSize"
    and "is_pair p priv pub \<Longrightarrow> length pub = n"
    and "is_pair p a A \<Longrightarrow> is_pair p b B \<Longrightarrow> pAgree p a B ctx = pAgree p b A ctx"
    and "pDeriveKey p s pu ctx sz = Inr k \<Longrightarrow> int (length k) = sz"
    and "pNewAEAD p k = Inr e \<Longrightarrow> aead_ok e \<and> Overhead e = ov"
    and "pKeySize p \<ge> 16"
    and "derives_any p"
  using assms unfolding provider_ok_def by blast+

lemma provider_totalD:
  assumes "provider_total p eb"
  shows "live w < limit w \<Longrightarrow> eb \<le> length (rnd w) \<Longrightarrow>
      \<exists>a A w'. pEphemeral p w = (Inr (a, A), w') \<and> length (rnd w) \<le> eb + length (rnd w')"
    and "is_pair p a A \<Longrightarrow> is_pair p b B \<Longrightarrow> Context_Valid ctx \<Longrightarrow> ctx_suite ctx = pSuite p \<Longrightarrow>
      \<exists>s. pAgree p a B ctx = Inr s \<and> \<not> isl (pDeriveKey p s ''cell'' ctx (pKeySize p))"
    and "\<not> isl (pDeriveKey p s ''cell'' ctx (pKeySize p)) \<Longrightarrow>
      \<not> isl (pDeriveKey p t ''cell'' ctx (pKeySize p)) \<Longrightarrow>
      \<exists>m. pMixKey p s t ctx = Inr m \<and> \<not> isl (pDeriveKey p m ''cell'' ctx (pKeySize p))"
    and "int (length k) = pKeySize p \<Longrightarrow> \<not> isl (pNewAEAD p k)"
  using assms unfolding provider_total_def by blast+

lemma provider_ok_aeads: "provider_ok p n ov \<Longrightarrow> aeads_ok p"
  by (simp add: aeads_ok_def provider_ok_def)

lemma GenerateEphemeral_live:
  assumes "provider_ok p n ov" "GenerateEphemeral p w = (r, w')"
  shows "live w' = (if isl r then live w else live w + 1) \<and> limit w' = limit w
    \<and> sizeCache w' = sizeCache w"
  using assms unfolding provider_ok_def GenerateEphemeral_def by blast

lemma newBuffer_Inr:
  "newBuffer r w = (Inr k, w') \<longleftrightarrow> r = Inr k \<and> live w < limit w \<and> w' = allocate w"
  by (auto simp: newBuffer_def split: sum.splits if_splits)

lemma newBuffer_Inl: "newBuffer r w = (Inl e, w') \<Longrightarrow> w' = w"
  by (auto simp: newBuffer_def split: sum.splits if_splits)

lemmas provider_calls = Agree_def MixKey_def DeriveKey_def

end
