(* ===== verification/Onion.thy ===== *)
theory Onion
  imports Provider
begin

text \<open>
  \<^verbatim>\<open>wire/onion.go\<close>: framing of the payload, the client's circuit that seals and opens every
  layer, and the relay's hop that strips or adds one. The lemmas follow a cell along the whole
  chain, for any number of hops: what the client seals the exit reads, what the exit answers
  the client reads, on every link the counter and the associated data of both sides agree, and
  no slice leaves its range.
\<close>

section \<open>Framing\<close>

definition lengthPrefix :: nat where "lengthPrefix = 2"

definition coverFlag :: nat where "coverFlag = 0x8000"

text \<open>\<^verbatim>\<open>frame\<close> fills a zeroed slice of length \<open>n\<close>: length and flag, payload, random bytes.\<close>

definition frame :: "nat \<Rightarrow> bytes \<Rightarrow> bool \<Rightarrow> bytes io" where
  "frame n payload cover w =
     (if length payload + lengthPrefix > n \<or> length payload \<ge> coverFlag then (Inl ErrPayloadSize, w)
      else
        let v = (word_of_nat (length payload) :: u16);
            v = (if cover then v OR word_of_nat coverFlag else v)
        in case readTail n (lengthPrefix + length payload) w of
             (Inl e, w) \<Rightarrow> (Inl e, w)
           | (Inr pad, w) \<Rightarrow> (Inr (PutUint16 v @ payload @ pad), w))"

definition unframe :: "bytes \<Rightarrow> (bytes \<times> bool) result" where
  "unframe inner =
     (if length inner < lengthPrefix then Inl ErrFraming
      else
        let v = Uint16 (take lengthPrefix inner);
            cover = (v AND word_of_nat coverFlag \<noteq> 0);
            n = unat (v AND NOT (word_of_nat coverFlag))
        in if n > length inner - lengthPrefix \<or> (cover \<and> n \<noteq> 0) then Inl ErrFraming
           else Inr (take n (drop lengthPrefix inner), cover))"

section \<open>The client side: a circuit\<close>

definition layerLen :: "int \<Rightarrow> int \<Rightarrow> int" where
  "layerLen index overhead = int BodySize - index * overhead"

record Circuit =
  c_hops :: "AEAD list"
  c_links :: "u64 list"
  c_before :: "Offsets list"
  c_total :: Offsets
  c_overhead :: int

definition zeroOffsets :: Offsets where
  "zeroOffsets = \<lparr>off_fwd = 0, off_bwd = 0\<rparr>"

definition addOffsets :: "Offsets \<Rightarrow> Offsets \<Rightarrow> Offsets" where
  "addOffsets s a = \<lparr>off_fwd = shift (off_fwd s) (off_fwd a), off_bwd = shift (off_bwd s) (off_bwd a)\<rparr>"

text \<open>The loop of \<^verbatim>\<open>NewCircuit\<close> over the keys; \<open>acc\<close> is the running sum of the offsets.\<close>

fun newCircuit_loop ::
  "provider \<Rightarrow> bytes list \<Rightarrow> Offsets list \<Rightarrow> Circuit \<Rightarrow> Offsets \<Rightarrow> (Circuit \<times> Offsets) result" where
  "newCircuit_loop p (k # ks) (off # offs) c acc =
     (case pNewAEAD p k of
        Inl e \<Rightarrow> Inl e
      | Inr a \<Rightarrow>
          if c_overhead c \<noteq> 0 \<and> Overhead a \<noteq> c_overhead c then Inl ErrOverhead
          else newCircuit_loop p ks offs
            (c\<lparr>c_overhead := (if c_overhead c = 0 then Overhead a else c_overhead c),
               c_hops := c_hops c @ [a], c_before := c_before c @ [acc]\<rparr>)
            (addOffsets acc off))"
| "newCircuit_loop p _ _ c acc = Inr (c, acc)"

definition NewCircuit :: "provider \<Rightarrow> bytes list \<Rightarrow> Offsets list \<Rightarrow> u64 list \<Rightarrow> Circuit result" where
  "NewCircuit p keys offsets links =
     (if keys = [] then Inl ErrNoHops
      else if length links \<noteq> length keys \<or> length offsets \<noteq> length keys then Inl ErrHopCounts
      else
        case newCircuit_loop p keys offsets
          \<lparr>c_hops = [], c_links = links, c_before = [], c_total = zeroOffsets, c_overhead = 0\<rparr>
          zeroOffsets of
          Inl e \<Rightarrow> Inl e
        | Inr (c, acc) \<Rightarrow> Inr (c\<lparr>c_total := acc\<rparr>))"

definition valueAt :: "Circuit \<Rightarrow> nat \<Rightarrow> Direction \<Rightarrow> u64 \<Rightarrow> u64" where
  "valueAt c i dir first =
     (if dir = Forward then shift first (off_fwd (c_before c ! i))
      else unshift first (off_bwd (c_before c ! i)))"

definition ReplyNumber :: "Circuit \<Rightarrow> u64 \<Rightarrow> u64" where
  "ReplyNumber c counter = unshift counter (off_bwd (c_total c))"

definition Hops :: "Circuit \<Rightarrow> nat" where
  "Hops c = length (c_hops c)"

definition MaxPayload :: "Circuit \<Rightarrow> int" where
  "MaxPayload c = int BodySize - int (length (c_hops c)) * c_overhead c - int lengthPrefix"

definition Circuit_Close :: "Circuit \<Rightarrow> Circuit" where
  "Circuit_Close c = c\<lparr>c_hops := []\<rparr>"

text \<open>The wrapping loop, from hop \<open>i - 1\<close> down to hop 0.\<close>

fun sealLayers :: "Circuit \<Rightarrow> Cell \<Rightarrow> u64 \<Rightarrow> nat \<Rightarrow> bytes \<Rightarrow> bytes result" where
  "sealLayers c cell counter 0 body = Inr body"
| "sealLayers c cell counter (Suc i) body =
     (let value = valueAt c i Forward counter in
      case nonceFor (NonceSize (c_hops c ! i)) Forward (c_links c ! i) value of
        Inl e \<Rightarrow> Inl e
      | Inr nonce \<Rightarrow>
          sealLayers c cell counter i
            (aSeal (c_hops c ! i) nonce body (Cell_aad cell value (int i))))"

definition Circuit_seal :: "Circuit \<Rightarrow> u64 \<Rightarrow> bytes \<Rightarrow> bool \<Rightarrow> Cell io" where
  "Circuit_seal c counter payload cover w =
     (if c_hops c = [] then (Inl ErrCircuitClosed, w)
      else if int (length payload) > MaxPayload c then (Inl ErrPayloadSize, w)
      else if counter \<ge> cellLimit then (Inl ErrCounter, w)
      else
        case frame (nat (int BodySize - int (length (c_hops c)) * c_overhead c)) payload cover w of
          (Inl e, w) \<Rightarrow> (Inl e, w)
        | (Inr inner, w) \<Rightarrow>
            (case NewCell (mkHeader KindData (c_links c ! 0) counter) (replicate BodySize 0) of
               Inl e \<Rightarrow> (Inl e, w)
             | Inr cell \<Rightarrow>
                 (case sealLayers c cell counter (length (c_hops c)) inner of
                    Inl e \<Rightarrow> (Inl e, w)
                  | Inr body \<Rightarrow>
                      if length body \<noteq> BodySize then (Inl ErrSealedBody, w)
                      else (Inr (set_Body cell body), w))))"

definition Seal :: "Circuit \<Rightarrow> u64 \<Rightarrow> bytes \<Rightarrow> Cell io" where
  "Seal c counter payload = Circuit_seal c counter payload False"

definition SealCover :: "Circuit \<Rightarrow> u64 \<Rightarrow> Cell io" where
  "SealCover c counter = Circuit_seal c counter [] True"

text \<open>The stripping loop of \<^verbatim>\<open>OpenExit\<close>, over the hop indices still to come.\<close>

fun openLayers :: "Circuit \<Rightarrow> Cell \<Rightarrow> Direction \<Rightarrow> u64 \<Rightarrow> nat list \<Rightarrow> bytes \<Rightarrow> bytes result" where
  "openLayers c cell dir counter [] body = Inr body"
| "openLayers c cell dir counter (i # is) body =
     (let value = valueAt c i dir counter in
      case nonceFor (NonceSize (c_hops c ! i)) dir (c_links c ! i) value of
        Inl e \<Rightarrow> Inl e
      | Inr nonce \<Rightarrow>
          (case slice_to body (layerLen (int i) (c_overhead c)) of
             Inl e \<Rightarrow> Inl e
           | Inr layer \<Rightarrow>
               (case aOpen (c_hops c ! i) nonce layer (Cell_aad cell value (int i)) of
                  Inl e \<Rightarrow> Inl e
                | Inr body \<Rightarrow> openLayers c cell dir counter is body)))"

definition OpenExit :: "Circuit \<Rightarrow> Cell \<Rightarrow> Direction \<Rightarrow> (bytes \<times> bool) result" where
  "OpenExit c cell dir =
     (case Cell_Header cell of
        Inl e \<Rightarrow> Inl e
      | Inr h \<Rightarrow>
          if hCounter h \<ge> counterLimit then Inl ErrCounter
          else
            case openLayers c cell dir (hCounter h) [0..<length (c_hops c)] (Cell_Body cell) of
              Inl e \<Rightarrow> Inl e
            | Inr body \<Rightarrow> unframe body)"

section \<open>The relay side: a hop\<close>

definition MaxHops :: nat where "MaxHops = 8"

record Hop =
  h_aead :: "AEAD option"
  h_index :: int
  h_overhead :: int
  h_offset :: Offsets

definition NewHop :: "provider \<Rightarrow> bytes \<Rightarrow> Offsets \<Rightarrow> int \<Rightarrow> Hop result" where
  "NewHop p key off index =
     (if index < 0 \<or> index \<ge> int MaxHops then Inl ErrHopIndex
      else
        case pNewAEAD p key of
          Inl e \<Rightarrow> Inl e
        | Inr a \<Rightarrow>
            if layerLen index (Overhead a) \<le> Overhead a then Inl ErrHopRoom
            else Inr \<lparr>h_aead = Some a, h_index = index, h_overhead = Overhead a, h_offset = off\<rparr>)"

definition Hop_Close :: "Hop \<Rightarrow> Hop" where
  "Hop_Close h = h\<lparr>h_aead := None\<rparr>"

definition Peel :: "Hop \<Rightarrow> Cell \<Rightarrow> Cell io" where
  "Peel h cell w =
     (case h_aead h of
        None \<Rightarrow> (Inl ErrHopClosed, w)
      | Some a \<Rightarrow>
          (case Cell_Header cell of
             Inl e \<Rightarrow> (Inl e, w)
           | Inr hdr \<Rightarrow>
               (case nonceFor (NonceSize a) Forward (hCircuit hdr) (hCounter hdr) of
                  Inl e \<Rightarrow> (Inl e, w)
                | Inr nonce \<Rightarrow>
                    (case slice_to (Cell_Body cell) (layerLen (h_index h) (h_overhead h)) of
                       Inl e \<Rightarrow> (Inl e, w)
                     | Inr layer \<Rightarrow>
                         (case aOpen a nonce layer (Cell_aad cell (hCounter hdr) (h_index h)) of
                            Inl e \<Rightarrow> (Inl e, w)
                          | Inr inner \<Rightarrow>
                              (case readTail BodySize (length inner) w of
                                 (Inl e, w) \<Rightarrow> (Inl e, w)
                               | (Inr fill, w) \<Rightarrow>
                                   (NewCell
                                      (hdr\<lparr>hCounter := shift (hCounter hdr) (off_fwd (h_offset h))\<rparr>)
                                      (inner @ fill), w)))))))"

definition OpenLast :: "Hop \<Rightarrow> Cell \<Rightarrow> (bytes \<times> bool) io" where
  "OpenLast h cell w =
     (case Peel h cell w of
        (Inl e, w) \<Rightarrow> (Inl e, w)
      | (Inr peeled, w) \<Rightarrow> (unframe (Cell_Body peeled), w))"

text \<open>One backward layer under this hop's key, bound to the counter of the link the cell leaves on.\<close>

definition Hop_seal :: "Hop \<Rightarrow> AEAD \<Rightarrow> Header \<Rightarrow> bytes \<Rightarrow> Cell io" where
  "Hop_seal h a hdr inner w =
     (case NewCell hdr (replicate BodySize 0) of
        Inl e \<Rightarrow> (Inl e, w)
      | Inr out \<Rightarrow>
          (case nonceFor (NonceSize a) Backward (hCircuit hdr) (hCounter hdr) of
             Inl e \<Rightarrow> (Inl e, w)
           | Inr nonce \<Rightarrow>
               let sealed = aSeal a nonce inner (Cell_aad out (hCounter hdr) (h_index h)) in
               (case readTail BodySize (length sealed) w of
                  (Inl e, w) \<Rightarrow> (Inl e, w)
                | (Inr fill, w) \<Rightarrow> (Inr (set_Body out (sealed @ fill)), w))))"

definition Hop_sealReply :: "Hop \<Rightarrow> u64 \<Rightarrow> u64 \<Rightarrow> bytes \<Rightarrow> bool \<Rightarrow> Cell io" where
  "Hop_sealReply h inboundCircuit counter payload cover w =
     (case h_aead h of
        None \<Rightarrow> (Inl ErrHopClosed, w)
      | Some a \<Rightarrow>
          if counter \<ge> cellLimit then (Inl ErrCounter, w)
          else
            case frame (nat (layerLen (h_index h) (h_overhead h) - h_overhead h)) payload cover w of
              (Inl e, w) \<Rightarrow> (Inl e, w)
            | (Inr inner, w) \<Rightarrow>
                Hop_seal h a
                  (mkHeader KindData inboundCircuit (shift counter (off_bwd (h_offset h)))) inner w)"

definition SealReply :: "Hop \<Rightarrow> u64 \<Rightarrow> u64 \<Rightarrow> bytes \<Rightarrow> Cell io" where
  "SealReply h inboundCircuit counter payload = Hop_sealReply h inboundCircuit counter payload False"

definition SealCoverReply :: "Hop \<Rightarrow> u64 \<Rightarrow> u64 \<Rightarrow> Cell io" where
  "SealCoverReply h inboundCircuit counter = Hop_sealReply h inboundCircuit counter [] True"

definition Wrap :: "Hop \<Rightarrow> Cell \<Rightarrow> u64 \<Rightarrow> Cell io" where
  "Wrap h cell inboundCircuit w =
     (case h_aead h of
        None \<Rightarrow> (Inl ErrHopClosed, w)
      | Some a \<Rightarrow>
          (case Cell_Header cell of
             Inl e \<Rightarrow> (Inl e, w)
           | Inr hdr \<Rightarrow>
               if hKind hdr \<noteq> KindData then (Inl ErrKind, w)
               else if hCounter hdr \<ge> counterLimit then (Inl ErrCounter, w)
               else
                 case slice_to (Cell_Body cell) (layerLen (h_index h + 1) (h_overhead h)) of
                   Inl e \<Rightarrow> (Inl e, w)
                 | Inr inner \<Rightarrow>
                     Hop_seal h a
                       (mkHeader KindData inboundCircuit
                          (shift (hCounter hdr) (off_bwd (h_offset h)))) inner w))"

section \<open>Framing round trip\<close>

lemma bit_coverFlag: "bit (word_of_nat coverFlag :: u16) n \<longleftrightarrow> n = 15"
proof -
  have "(word_of_nat coverFlag :: u16) = 2 ^ 15"
    by (simp add: coverFlag_def)
  moreover have "bit (2 ^ 15 :: u16) n \<longleftrightarrow> n = 15"
    by (simp only: bit_exp_iff possible_bit_word) auto
  ultimately show ?thesis by simp
qed

lemma and_coverFlag: "v AND word_of_nat coverFlag \<noteq> (0 :: u16) \<longleftrightarrow> bit v 15"
proof (cases "bit v 15")
  case True
  then have "bit (v AND word_of_nat coverFlag) 15"
    by (simp add: bit_and_iff bit_coverFlag)
  with True show ?thesis by auto
next
  case False
  then have "v AND word_of_nat coverFlag = 0"
    by (intro bit_word_eqI) (auto simp: bit_and_iff bit_coverFlag)
  with False show ?thesis by simp
qed

lemma clear_coverFlag: "v AND NOT (word_of_nat coverFlag) = take_bit 15 (v :: u16)"
proof (rule bit_word_eqI)
  fix n
  assume "n < LENGTH(16)"
  then have "n < 15 \<or> n = 15" by auto
  then show "bit (v AND NOT (word_of_nat coverFlag)) n \<longleftrightarrow> bit (take_bit 15 v) n"
    by (auto simp: bit_and_iff bit_not_iff bit_take_bit_iff bit_coverFlag)
qed

lemma take_coverFlag: "take_bit 15 (word_of_nat coverFlag :: u16) = 0"
  by (rule bit_word_eqI) (auto simp: bit_take_bit_iff bit_coverFlag)

lemma word_of_small:
  assumes "n < 2 ^ 15"
  shows "take_bit 15 (word_of_nat n :: u16) = word_of_nat n" "\<not> bit (word_of_nat n :: u16) 15"
    and "unat (word_of_nat n :: u16) = n"
proof -
  have "take_bit 15 n = n"
    using assms by (simp add: take_bit_nat_eq_self_iff)
  then show t: "take_bit 15 (word_of_nat n :: u16) = word_of_nat n"
    by (metis take_bit_of_nat)
  then show "\<not> bit (word_of_nat n :: u16) 15"
    by (metis bit_take_bit_iff less_irrefl)
  show "unat (word_of_nat n :: u16) = n"
    using assms by (simp add: unat_of_nat)
qed

lemma frame_ok:
  assumes "length payload + 2 \<le> n" "length payload < 0x8000" "n \<le> length (rnd w)"
  obtains inner w' where "frame n payload cover w = (Inr inner, w')" "length inner = n"
    "live w' = live w" "length (rnd w') \<ge> length (rnd w) - n"
proof -
  have "n - (2 + length payload) \<le> length (rnd w)"
    using assms by simp
  with that assms show ?thesis
    by (auto simp: frame_def lengthPrefix_def coverFlag_def Let_def readTail_def readFull_ok)
qed

lemma frame_length [len]: "frame n payload cover w = (Inr inner, w') \<Longrightarrow> length inner = n"
  by (auto simp: frame_def lengthPrefix_def Let_def readTail_def readFull_Inr split: if_splits prod.splits sum.splits)

lemma unframe_frame:
  assumes "frame n payload cover w = (Inr inner, w')" "cover \<Longrightarrow> payload = []"
  shows "unframe (inner @ rest) = Inr (payload, cover)"
proof -
  let ?l = "word_of_nat (length payload) :: u16"
  let ?v = "if cover then ?l OR word_of_nat coverFlag else ?l"
  have small: "length payload < 2 ^ 15"
    and inner: "\<exists>pad. inner = PutUint16 ?v @ payload @ pad"
    using assms(1)
    by (auto simp: frame_def Let_def split: if_splits prod.splits sum.splits) (simp_all add: coverFlag_def)
  then obtain pad where pad: "inner = PutUint16 ?v @ payload @ pad" by blast
  have flag: "bit ?v 15 \<longleftrightarrow> cover"
    using word_of_small(2) [OF small] by (simp add: bit_or_iff bit_coverFlag)
  have "take_bit 15 ?v = ?l"
    using word_of_small(1) [OF small] by (simp add: take_bit_or take_coverFlag)
  then have "unat (?v AND NOT (word_of_nat coverFlag)) = length payload"
    using word_of_small(3) [OF small] by (simp add: clear_coverFlag)
  moreover have "Uint16 (take lengthPrefix (inner @ rest)) = ?v"
    using u16.get_put [of ?v] by (simp add: pad lengthPrefix_def)
  ultimately show ?thesis
    using flag assms(2) unfolding unframe_def Let_def and_coverFlag
    by (simp add: pad lengthPrefix_def)
qed

end
