(* ===== verification/Sample.thy ===== *)
theory Sample
  imports Provider
begin

text \<open>
  A concrete suite for the witnesses: keys are 32 bytes, a public key is its private key, sealing
  appends a tag of 16 zero bytes, a derived key is the secret cut to size. It keeps the whole
  contract of \<open>provider_ok\<close>, so the hypotheses of the theorems about \<^verbatim>\<open>wire\<close> and \<^verbatim>\<open>link\<close>
  can hold. Nothing of the program is modelled here.
\<close>

definition sampleAEAD :: AEAD where
  "sampleAEAD =
     \<lparr>NonceSize = 24, Overhead = 16,
      aSeal = (\<lambda>n p ad. p @ replicate 16 0),
      aOpen = (\<lambda>n c ad. if length c < 16 \<or> drop (length c - 16) c \<noteq> replicate 16 0 then Inl ErrOpen
                       else Inr (take (length c - 16) c))\<rparr>"

definition fit :: "nat \<Rightarrow> bytes \<Rightarrow> bytes" where
  "fit n b = take n (b @ replicate n 0)"

definition sampleEphemeral :: "(bytes \<times> bytes) io" where
  "sampleEphemeral w =
     (if live w < limit w then
        case readFull 32 w of
          (Inl e, w) \<Rightarrow> (Inl e, w)
        | (Inr k, w) \<Rightarrow> (Inr (k, k), allocate w)
      else (Inl ErrMemory, w))"

definition samplePublic :: "bytes \<Rightarrow> bytes \<Rightarrow> bytes" where
  "samplePublic a b = map2 (XOR) (fit 32 a) (fit 32 b)"

definition sampleSuite :: provider where
  "sampleSuite =
     \<lparr>pSuite = SuiteC25519, pKeySize = 32, pEphemeral = sampleEphemeral,
      pAgree = (\<lambda>a B ctx. Inr (samplePublic a B)),
      pMixKey = (\<lambda>c s ctx. Inr (samplePublic c s)),
      pDeriveKey = (\<lambda>s pu ctx n. if n \<le> 0 then Inl ErrBadSize else Inr (fit (nat n) s)),
      pNewAEAD = (\<lambda>k. if length k = 32 then Inr sampleAEAD else Inl ErrBadKeySize),
      pSigning = sampleEphemeral,
      pSign = (\<lambda>k m w. (Inr (fit 64 (k @ m)), w)),
      pVerify = (\<lambda>k m s. s = fit 64 (k @ m)),
      pHash = fit 32\<rparr>"

lemma length_fit [simp]: "length (fit n b) = n"
  by (simp add: fit_def)

lemma samplePublic_comm: "samplePublic a b = samplePublic b a"
  unfolding samplePublic_def
  by (rule nth_equalityI) (simp_all add: xor.commute)

lemma sampleAEAD_ok: "aead_ok sampleAEAD"
  by (auto simp: aead_ok_def sampleAEAD_def split: if_splits)

lemma sampleEphemeral_pair: "is_pair sampleSuite a A \<Longrightarrow> A = a \<and> length A = 32"
  by (auto simp: is_pair_def sampleSuite_def sampleEphemeral_def readFull_def
      split: if_splits prod.splits sum.splits)

lemma sampleSuite_pair: "length k = 32 \<Longrightarrow> is_pair sampleSuite k k"
  unfolding is_pair_def
  by (intro exI [of _ "\<lparr>rnd = k, live = 0, limit = 1, sizeCache = \<lambda>_. None\<rparr>"]
        exI [of _ "\<lparr>rnd = [], live = 1, limit = 1, sizeCache = \<lambda>_. None\<rparr>"])
    (simp add: sampleSuite_def sampleEphemeral_def readFull_def allocate_def)

lemma sampleSuite_ok: "provider_ok sampleSuite 32 16"
proof -
  have agree: "pAgree sampleSuite a B ctx = Inr (samplePublic a B)" for a B ctx
    by (simp add: sampleSuite_def)
  have "\<forall>w r w'. pEphemeral sampleSuite w = (r, w') \<longrightarrow>
      live w' = (if isl r then live w else live w + 1) \<and> limit w' = limit w \<and> sizeCache w' = sizeCache w"
    by (auto simp: sampleSuite_def sampleEphemeral_def readFull_def
        split: if_splits prod.splits sum.splits)
  moreover have "\<forall>a A b B ctx. is_pair sampleSuite a A \<longrightarrow> is_pair sampleSuite b B \<longrightarrow>
      pAgree sampleSuite a B ctx = pAgree sampleSuite b A ctx"
    unfolding agree by (metis sampleEphemeral_pair samplePublic_comm)
  moreover have "\<forall>k a. pNewAEAD sampleSuite k = Inr a \<longrightarrow> aead_ok a \<and> Overhead a = 16"
    using sampleAEAD_ok by (simp add: sampleSuite_def) (simp add: sampleAEAD_def)
  moreover have "\<forall>priv pub. is_pair sampleSuite priv pub \<longrightarrow> length pub = 32"
    using sampleEphemeral_pair by blast
  moreover have "\<forall>s pu ctx sz k. pDeriveKey sampleSuite s pu ctx sz = Inr k \<longrightarrow> int (length k) = sz"
    by (auto simp: sampleSuite_def split: if_splits)
  moreover have "derives_any sampleSuite"
    by (simp add: sampleSuite_def derives_any_def)
  moreover have "knownSuite (pSuite sampleSuite)" "pKeySize sampleSuite \<ge> 16"
    "\<forall>t. length (pHash sampleSuite t) = ContextSize" "(32::nat) > 0" "32 \<le> maxPartSize"
    by (simp_all add: sampleSuite_def knownSuite_def ContextSize_def maxPartSize_def)
  ultimately show ?thesis
    unfolding provider_ok_def by (intro conjI) assumption+
qed

lemma sampleSuite_aeads: "aeads_ok sampleSuite"
  by (rule provider_ok_aeads [OF sampleSuite_ok])

lemma sampleSuite_total: "provider_total sampleSuite 32"
proof -
  have "\<exists>a A w'. pEphemeral sampleSuite w = (Inr (a, A), w') \<and> length (rnd w) \<le> 32 + length (rnd w')"
    if "live w < limit w" "32 \<le> length (rnd w)" for w
    using that by (simp add: sampleSuite_def sampleEphemeral_def readFull_def)
  then show ?thesis
    by (simp add: provider_total_def) (simp add: sampleSuite_def)
qed

end
