(* ===== verification/Chain.thy ===== *)
theory Chain
  imports Onion Sample
begin

text \<open>
  A circuit of any length over the operations of \<^verbatim>\<open>wire/onion.go\<close>: the cell a client seals is
  followed through every hop to the exit, and the reply of the exit back to the client. A relay
  that is not the exit peels a forward cell and rewrites the circuit identifier
  (\<^verbatim>\<open>relay.route\<close>), and wraps a backward cell for its inbound link (\<^verbatim>\<open>relay.backward\<close>); the
  functions below compose the operations in that order.
\<close>

section \<open>The path of a cell\<close>

fun forward_hops :: "nat \<Rightarrow> Hop list \<Rightarrow> u64 list \<Rightarrow> Cell \<Rightarrow> Cell io" where
  "forward_hops 0 hs links cell w = (Inr cell, w)"
| "forward_hops (Suc i) hs links cell w =
     (case forward_hops i hs links cell w of
        (Inl e, w) \<Rightarrow> (Inl e, w)
      | (Inr cell, w) \<Rightarrow>
          (case Peel (hs ! i) cell w of
             (Inl e, w) \<Rightarrow> (Inl e, w)
           | (Inr out, w) \<Rightarrow> (Inr (SetCircuit (links ! Suc i) out), w)))"

definition forward_path :: "Hop list \<Rightarrow> u64 list \<Rightarrow> Cell \<Rightarrow> (bytes \<times> bool) io" where
  "forward_path hs links cell w =
     (case forward_hops (length hs - 1) hs links cell w of
        (Inl e, w) \<Rightarrow> (Inl e, w)
      | (Inr cell, w) \<Rightarrow> OpenLast (last hs) cell w)"

fun backward_hops :: "nat \<Rightarrow> Hop list \<Rightarrow> u64 list \<Rightarrow> Cell \<Rightarrow> Cell io" where
  "backward_hops 0 hs links cell w = (Inr cell, w)"
| "backward_hops (Suc i) hs links cell w =
     (case Wrap (hs ! i) cell (links ! i) w of
        (Inl e, w) \<Rightarrow> (Inl e, w)
      | (Inr out, w) \<Rightarrow> backward_hops i hs links out w)"

section \<open>What NewCircuit and NewHop build\<close>

definition offsets_before :: "Offsets list \<Rightarrow> nat \<Rightarrow> Offsets" where
  "offsets_before offs i = foldl addOffsets zeroOffsets (take i offs)"

definition wf_circuit :: "Circuit \<Rightarrow> Offsets list \<Rightarrow> u64 list \<Rightarrow> bool" where
  "wf_circuit c offs links \<longleftrightarrow>
     c_hops c \<noteq> [] \<and> length offs = length (c_hops c) \<and> length links = length (c_hops c) \<and>
     c_links c = links \<and> (\<forall>a \<in> set (c_hops c). aead_ok a \<and> Overhead a = c_overhead c) \<and>
     c_before c = map (offsets_before offs) [0..<length offs] \<and>
     c_total c = offsets_before offs (length offs)"

definition hop_of :: "Circuit \<Rightarrow> Offsets list \<Rightarrow> nat \<Rightarrow> Hop \<Rightarrow> bool" where
  "hop_of c offs i h \<longleftrightarrow>
     h = \<lparr>h_aead = Some (c_hops c ! i), h_index = int i, h_overhead = c_overhead c,
          h_offset = offs ! i\<rparr>"

lemma newCircuit_loop_spec:
  assumes "newCircuit_loop p ks offs c acc = Inr (c', acc')" "length ks = length offs"
    and "aeads_ok p"
  shows "\<exists>as. list_all2 (\<lambda>k a. pNewAEAD p k = Inr a) ks as
      \<and> c_hops c' = c_hops c @ as \<and> c_links c' = c_links c
      \<and> c_before c' = c_before c @ map (\<lambda>i. foldl addOffsets acc (take i offs)) [0..<length offs]
      \<and> acc' = foldl addOffsets acc offs
      \<and> (\<forall>a \<in> set as. Overhead a = c_overhead c')
      \<and> (c_overhead c \<noteq> 0 \<longrightarrow> c_overhead c' = c_overhead c)"
  using assms
proof (induction p ks offs c acc rule: newCircuit_loop.induct)
  case (1 p k ks off offs c acc)
  then obtain a where a: "pNewAEAD p k = Inr a"
    by (auto split: sum.splits)
  let ?c = "c\<lparr>c_overhead := (if c_overhead c = 0 then Overhead a else c_overhead c),
               c_hops := c_hops c @ [a], c_before := c_before c @ [acc]\<rparr>"
  have ov: "\<not> (c_overhead c \<noteq> 0 \<and> Overhead a \<noteq> c_overhead c)"
    and rest: "newCircuit_loop p ks offs ?c (addOffsets acc off) = Inr (c', acc')"
    using 1(2) a by (auto split: if_splits)
  have "Overhead a > 0"
    using a 1(4) by (simp add: aeads_ok_def aead_overhead)
  moreover obtain as where as: "list_all2 (\<lambda>k a. pNewAEAD p k = Inr a) ks as"
    "c_hops c' = c_hops c @ a # as" "c_links c' = c_links c"
    "c_before c' = c_before c @ acc #
       map (\<lambda>i. foldl addOffsets (addOffsets acc off) (take i offs)) [0..<length offs]"
    "acc' = foldl addOffsets (addOffsets acc off) offs"
    "\<forall>a \<in> set as. Overhead a = c_overhead c'"
    "(if c_overhead c = 0 then Overhead a else c_overhead c) \<noteq> 0 \<longrightarrow>
       c_overhead c' = (if c_overhead c = 0 then Overhead a else c_overhead c)"
    using "1.IH" [OF a ov rest] 1(3,4) by auto
  moreover have "map (\<lambda>i. foldl addOffsets acc (take i (off # offs))) [0..<length (off # offs)] =
      acc # map (\<lambda>i. foldl addOffsets (addOffsets acc off) (take i offs)) [0..<length offs]"
    by (simp add: upt_conv_Cons map_Suc_upt [symmetric] del: upt_Suc)
  ultimately show ?case
    using a ov by (intro exI [of _ "a # as"]) auto
qed auto

lemma NewCircuit_wf:
  assumes "NewCircuit p keys offs links = Inr c"
    and aeads: "aeads_ok p"
  shows "wf_circuit c offs links" "length keys = length offs" "keys \<noteq> []"
    and "\<And>i. i < length keys \<Longrightarrow> pNewAEAD p (keys ! i) = Inr (c_hops c ! i)"
proof -
  let ?c0 = "\<lparr>c_hops = [], c_links = links, c_before = [], c_total = zeroOffsets, c_overhead = 0\<rparr>"
  have lens: "keys \<noteq> []" "length links = length keys" "length keys = length offs"
    using assms(1) by (simp_all add: NewCircuit_def split: if_splits)
  obtain c1 acc where c1: "newCircuit_loop p keys offs ?c0 zeroOffsets = Inr (c1, acc)"
    "c = c1\<lparr>c_total := acc\<rparr>"
    using assms(1) lens
    by (cases "newCircuit_loop p keys offs ?c0 zeroOffsets") (simp_all add: NewCircuit_def split: prod.splits)
  obtain as where as: "list_all2 (\<lambda>k a. pNewAEAD p k = Inr a) keys as"
    "c_hops c1 = as" "c_links c1 = links"
    "c_before c1 = map (offsets_before offs) [0..<length offs]"
    "acc = foldl addOffsets zeroOffsets offs" "\<forall>a \<in> set as. Overhead a = c_overhead c1"
    using newCircuit_loop_spec [OF c1(1) lens(3) aeads]
    by (auto simp: offsets_before_def [abs_def])
  have "\<forall>a \<in> set as. aead_ok a"
    using as(1) aeads unfolding aeads_ok_def list_all2_conv_all_nth by (metis in_set_conv_nth)
  with as c1(2) lens show "wf_circuit c offs links"
    by (auto simp: wf_circuit_def offsets_before_def list_all2_lengthD)
  show "length keys = length offs" "keys \<noteq> []"
    by fact+
  show "pNewAEAD p (keys ! i) = Inr (c_hops c ! i)" if "i < length keys" for i
    using as(1,2) c1(2) that by (simp add: list_all2_conv_all_nth)
qed

lemma NewHop_hop_of:
  assumes "NewCircuit p keys offs links = Inr c" "aeads_ok p"
    and "NewHop p (keys ! i) (offs ! i) (int i) = Inr h" "i < length keys"
  shows "hop_of c offs i h" "layerLen (int i) (c_overhead c) > c_overhead c"
proof -
  note wf = NewCircuit_wf [OF assms(1,2)]
  have "Overhead (c_hops c ! i) = c_overhead c"
    using wf(1,2) assms(4) by (simp add: wf_circuit_def)
  with wf(4) [OF assms(4)] assms(3)
  show "hop_of c offs i h" "layerLen (int i) (c_overhead c) > c_overhead c"
    by (auto simp: NewHop_def hop_of_def split: if_splits)
qed

section \<open>Counters along the chain\<close>

lemma offsets_before_Suc:
  "i < length offs \<Longrightarrow> offsets_before offs (Suc i) = addOffsets (offsets_before offs i) (offs ! i)"
  by (simp add: offsets_before_def take_Suc_conv_app_nth)

lemma valueAt_Forward_0:
  "wf_circuit c offs links \<Longrightarrow> v < counterLimit \<Longrightarrow> valueAt c 0 Forward v = v"
  by (simp add: wf_circuit_def valueAt_def offsets_before_def zeroOffsets_def link.add_zero)

lemma unshift_0: "v < counterLimit \<Longrightarrow> unshift v 0 = v"
  by (metis link.add_zero link.sub_add)

lemma valueAt_Backward_0:
  "wf_circuit c offs links \<Longrightarrow> v < counterLimit \<Longrightarrow> valueAt c 0 Backward v = v"
  by (simp add: wf_circuit_def valueAt_def offsets_before_def zeroOffsets_def unshift_0)

lemma valueAt_Forward_Suc:
  assumes "wf_circuit c offs links" "Suc i < length offs"
  shows "valueAt c (Suc i) Forward v = shift (valueAt c i Forward v) (off_fwd (offs ! i))"
  using assms
  by (simp add: wf_circuit_def valueAt_def offsets_before_Suc addOffsets_def link.add_add)

lemma valueAt_Backward_Suc:
  assumes "wf_circuit c offs links" "Suc i < length offs" "v < counterLimit"
  shows "valueAt c (Suc i) Backward v = unshift (valueAt c i Backward v) (off_bwd (offs ! i))"
  using assms
  by (simp add: wf_circuit_def valueAt_def offsets_before_Suc addOffsets_def link.sub_sub)

lemma valueAt_less: "valueAt c i dir v < counterLimit"
  by (simp add: valueAt_def link.ok_add link.ok_sub)

section \<open>Cells that carry a layer\<close>

definition carries :: "Cell \<Rightarrow> u64 \<Rightarrow> u64 \<Rightarrow> bytes \<Rightarrow> bool" where
  "carries cell circuit counter content \<longleftrightarrow>
     NewCell (mkHeader KindData circuit counter) (Cell_Body cell) = Inr cell \<and>
     take (length content) (Cell_Body cell) = content"

definition data_aad :: "u64 \<Rightarrow> int \<Rightarrow> bytes" where
  "data_aad v i = [Version, KindData] @ PutUint64 v @ [word_of_int i]"

lemma carries_wf: "carries cell l v x \<Longrightarrow> wf_cell cell"
  by (auto simp: carries_def wf_NewCell)

lemma carries_header:
  "carries cell l v x \<Longrightarrow>
     Cell_Header cell = Inr \<lparr>hVersion = Version, hKind = KindData, hCircuit = l, hCounter = v\<rparr>"
  using Cell_Header_NewCell [of "mkHeader KindData l v" "Cell_Body cell" cell]
  by (simp add: carries_def mkHeader_def)

lemma carries_aad: "carries cell l v x \<Longrightarrow> Cell_aad cell n i = data_aad n i"
  unfolding carries_def data_aad_def by (metis aad_NewCell mkHeader_sel(1))

lemma carries_body_length: "carries cell l v x \<Longrightarrow> length (Cell_Body cell) = BodySize"
  by (simp add: carries_wf length_Body)

lemma NewCell_data:
  "length b = BodySize \<Longrightarrow> hKind h = KindData \<Longrightarrow>
     \<exists>cell. NewCell h b = Inr cell \<and> carries cell (hCircuit h) (hCounter h) b"
proof -
  assume b: "length b = BodySize" and k: "hKind h = KindData"
  then obtain cell where cell: "NewCell h b = Inr cell"
    by (simp add: NewCell_def Kind_valid_def)
  then have "carries cell (hCircuit h) (hCounter h) b"
    using b k Cell_Body_NewCell [OF cell] by (auto simp: carries_def NewCell_Inr)
  with cell show ?thesis by blast
qed

lemma carries_prefix: "carries cell l v (x @ y) \<Longrightarrow> carries cell l v x"
  by (auto simp: carries_def) (metis append_eq_conv_conj append_take_drop_id append.assoc)

lemma carries_SetCircuit: "carries cell l v x \<Longrightarrow> carries (SetCircuit l' cell) l' v x"
proof -
  assume c: "carries cell l v x"
  let ?h = "\<lparr>hVersion = Version, hKind = KindData, hCircuit = l', hCounter = v\<rparr>"
  have wf: "wf_cell (SetCircuit l' cell)" and body: "Cell_Body (SetCircuit l' cell) = Cell_Body cell"
    using carries_wf [OF c] by (simp_all add: wf_SetCircuit Cell_Body_SetCircuit)
  have "Cell_Header (SetCircuit l' cell) = Inr ?h"
    using Cell_Header_SetCircuit [OF carries_wf [OF c]] carries_header [OF c] by simp
  then have "NewCell ?h (Cell_Body cell) = Inr (SetCircuit l' cell)"
    using NewCell_Cell_Header [OF wf] body by simp
  with c body show ?thesis
    by (simp add: carries_def NewCell_Inr)
qed

section \<open>One hop forward\<close>

lemma layerLen_Suc: "layerLen (int i + 1) ov = layerLen (int i) ov - ov"
  by (simp add: layerLen_def algebra_simps)

lemma layerLen_le: "0 \<le> ov \<Longrightarrow> layerLen (int i) ov \<le> int BodySize"
  by (simp add: layerLen_def)

lemma Peel_carries:
  assumes h: "h = \<lparr>h_aead = Some a, h_index = int i, h_overhead = Overhead a, h_offset = off\<rparr>"
    and a: "aead_ok a" and n: "nonceFor (NonceSize a) Forward l v = Inr n" "nonce_ok a n"
    and cell: "carries cell l v (aSeal a n body (data_aad v (int i)))"
    and b: "int (length body) = layerLen (int i) (Overhead a) - Overhead a"
    and r: "BodySize \<le> length (rnd w)"
  obtains out w' where "Peel h cell w = (Inr out, w')"
    "carries out l (shift v (off_fwd off)) body" "length (rnd w) - BodySize \<le> length (rnd w')"
proof -
  let ?ct = "aSeal a n body (data_aad v (int i))"
  have ct: "int (length ?ct) = layerLen (int i) (Overhead a)"
    using aead_seal_length [OF a] b by simp
  have ov: "Overhead a > 0"
    using a by (rule aead_overhead)
  have "int (length ?ct) \<le> int BodySize"
    using ct layerLen_le [of "Overhead a" i] ov by simp
  moreover from this have le: "length body \<le> BodySize"
    using ct b ov by simp
  ultimately have slice: "slice_to (Cell_Body cell) (layerLen (int i) (Overhead a)) = Inr ?ct"
    using cell slice_to_nat [of "length ?ct" "Cell_Body cell"] carries_body_length [OF cell]
    unfolding ct [symmetric] carries_def by simp
  let ?fill = "take (BodySize - length body) (rnd w)"
  let ?hdr = "\<lparr>hVersion = Version, hKind = KindData, hCircuit = l,
    hCounter = shift v (off_fwd off)\<rparr>"
  have "length (body @ ?fill) = BodySize"
    using le r by simp
  then obtain out where out: "NewCell ?hdr (body @ ?fill) = Inr out"
    "carries out l (shift v (off_fwd off)) (body @ ?fill)"
    using NewCell_data [of "body @ ?fill" ?hdr] by auto
  have "Peel h cell w = (Inr out, w\<lparr>rnd := drop (BodySize - length body) (rnd w)\<rparr>)"
    using h n slice out(1) r le aead_open_seal [OF a n(2)]
    by (simp add: Peel_def carries_header [OF cell] carries_aad [OF cell] readTail_ok)
  then show ?thesis
    using that out(2) carries_prefix by auto
qed

section \<open>The whole way forward\<close>

lemma wf_circuit_nth:
  assumes "wf_circuit c offs links" "i < length offs"
  shows "aead_ok (c_hops c ! i)" "Overhead (c_hops c ! i) = c_overhead c" "c_links c = links"
    "length (c_hops c) = length offs"
  using assms by (auto simp: wf_circuit_def)

lemma hop_of_overhead:
  "wf_circuit c offs links \<Longrightarrow> i < length offs \<Longrightarrow> hop_of c offs i h \<Longrightarrow>
     h = \<lparr>h_aead = Some (c_hops c ! i), h_index = int i,
          h_overhead = Overhead (c_hops c ! i), h_offset = offs ! i\<rparr>"
  by (simp add: hop_of_def wf_circuit_nth)

lemma sealLayers_Suc:
  assumes "wf_circuit c offs links" "i < length offs" "wf_cell cell" "cell ! 0 = Version" "cell ! 1 = KindData"
  obtains n where "nonceFor (NonceSize (c_hops c ! i)) Forward (links ! i) (valueAt c i Forward v) = Inr n"
    "nonce_ok (c_hops c ! i) n"
    "\<And>body. sealLayers c cell v (Suc i) body =
       sealLayers c cell v i (aSeal (c_hops c ! i) n body (data_aad (valueAt c i Forward v) (int i)))"
proof -
  note nth = wf_circuit_nth [OF assms(1,2)]
  obtain n where "nonceFor (NonceSize (c_hops c ! i)) Forward (links ! i) (valueAt c i Forward v) = Inr n"
    "nonce_ok (c_hops c ! i) n"
    using nonceFor_aead [OF nth(1) valueAt_less] by blast
  with that show ?thesis
    using nth(3) assms(4,5) by (simp add: Let_def Cell_aad_def data_aad_def)
qed

text \<open>Sealing succeeds and gives a body of the full width.\<close>

lemma sealLayers_ok:
  assumes "wf_circuit c offs links" "i \<le> length offs" "wf_cell cell" "cell ! 0 = Version" "cell ! 1 = KindData"
    and "int (length body) = layerLen (int i) (c_overhead c)"
  shows "\<exists>out. sealLayers c cell v i body = Inr out \<and> length out = BodySize"
  using assms
proof (induction i arbitrary: body)
  case 0
  then show ?case by (simp add: layerLen_def)
next
  case (Suc i)
  then have i: "i < length offs" by simp
  obtain n where eq: "\<And>body. sealLayers c cell v (Suc i) body =
      sealLayers c cell v i (aSeal (c_hops c ! i) n body (data_aad (valueAt c i Forward v) (int i)))"
    using sealLayers_Suc [OF Suc.prems(1) i Suc.prems(3-5)] by metis
  have "int (length (aSeal (c_hops c ! i) n body (data_aad (valueAt c i Forward v) (int i))))
      = layerLen (int i) (c_overhead c)"
    using Suc.prems(6) wf_circuit_nth [OF Suc.prems(1) i]
    by (simp add: aead_seal_length layerLen_def algebra_simps)
  then show ?case
    using Suc.IH Suc.prems i eq by simp
qed

text \<open>
  After the first \<open>i\<close> hops the cell carries, under the counter of its link, exactly what was
  sealed for the hops that follow.
\<close>

lemma forward_hops_carry:
  assumes "wf_circuit c offs links" "i < length offs" "wf_cell cell" "cell ! 0 = Version" "cell ! 1 = KindData"
    and "\<And>j. j < i \<Longrightarrow> hop_of c offs j (hs ! j)"
    and "int (length body) = layerLen (int i) (c_overhead c)"
    and "sealLayers c cell v i body = Inr out" "carries first (links ! 0) v out" "v < counterLimit"
    and "i * BodySize + m \<le> length (rnd w)"
  shows "\<exists>at w'. forward_hops i hs links first w = (Inr at, w')
    \<and> carries at (links ! i) (valueAt c i Forward v) body \<and> m \<le> length (rnd w')"
  using assms
proof (induction i arbitrary: body m)
  case 0
  then show ?case by (simp add: valueAt_Forward_0)
next
  case (Suc i)
  then have i: "i < length offs" by simp
  let ?a = "c_hops c ! i" and ?v = "valueAt c i Forward v"
  note nth = wf_circuit_nth [OF Suc.prems(1) i]
  obtain n where n: "nonceFor (NonceSize ?a) Forward (links ! i) ?v = Inr n" "nonce_ok ?a n"
    and eq: "\<And>body. sealLayers c cell v (Suc i) body =
      sealLayers c cell v i (aSeal ?a n body (data_aad ?v (int i)))"
    using sealLayers_Suc [OF Suc.prems(1) i Suc.prems(3-5)] by metis
  let ?ct = "aSeal ?a n body (data_aad ?v (int i))"
  have len: "int (length body) = layerLen (int i) (Overhead ?a) - Overhead ?a"
    using Suc.prems(7) nth by (simp add: layerLen_def algebra_simps)
  then have "int (length ?ct) = layerLen (int i) (c_overhead c)"
    using nth by (simp add: aead_seal_length)
  then obtain at w1 where at: "forward_hops i hs links first w = (Inr at, w1)"
    "carries at (links ! i) ?v ?ct" "BodySize + m \<le> length (rnd w1)"
    using Suc.IH [of ?ct "BodySize + m"] Suc.prems i eq by (auto simp: add.assoc add.commute)
  have h: "hs ! i = \<lparr>h_aead = Some ?a, h_index = int i, h_overhead = Overhead ?a, h_offset = offs ! i\<rparr>"
    using hop_of_overhead Suc.prems(1,6) i by blast
  have r: "BodySize \<le> length (rnd w1)"
    using at(3) by simp
  obtain p w2 where p: "Peel (hs ! i) at w1 = (Inr p, w2)"
    "carries p (links ! i) (shift ?v (off_fwd (offs ! i))) body"
    "length (rnd w1) - BodySize \<le> length (rnd w2)"
    by (rule Peel_carries [OF h nth(1) n at(2) len r])
  then have "carries (SetCircuit (links ! Suc i) p) (links ! Suc i) (valueAt c (Suc i) Forward v) body"
    using carries_SetCircuit valueAt_Forward_Suc [OF Suc.prems(1,2)] by simp
  with at p show ?case by auto
qed

lemma OpenLast_carries:
  assumes "h = \<lparr>h_aead = Some a, h_index = int i, h_overhead = Overhead a, h_offset = off\<rparr>"
    and "aead_ok a" "nonceFor (NonceSize a) Forward l v = Inr n" "nonce_ok a n"
    and "carries cell l v (aSeal a n inner (data_aad v (int i)))"
    and "int (length inner) = layerLen (int i) (Overhead a) - Overhead a"
    and "BodySize \<le> length (rnd w)"
    and "frame k payload cover w0 = (Inr inner, w1)" "cover \<Longrightarrow> payload = []"
  shows "\<exists>w'. OpenLast h cell w = (Inr (payload, cover), w')"
proof -
  obtain out w' where out: "Peel h cell w = (Inr out, w')" "carries out l (shift v (off_fwd off)) inner"
    using Peel_carries [OF assms(1-7)] by blast
  then have "Cell_Body out = inner @ drop (length inner) (Cell_Body out)"
    unfolding carries_def by (metis append_take_drop_id)
  then have "unframe (Cell_Body out) = Inr (payload, cover)"
    using unframe_frame [OF assms(8,9)] by metis
  with out show ?thesis
    by (simp add: OpenLast_def)
qed

text \<open>What a sealed cell is: the framed payload under the layers of all hops.\<close>

lemma Circuit_seal_Inr:
  assumes wf: "wf_circuit c offs links"
    and seal: "Circuit_seal c counter payload cover w = (Inr cell, w1)"
  obtains inner k w0 c0 body where "frame k payload cover w = (Inr inner, w0)"
    "int (length inner) = layerLen (int (length offs)) (c_overhead c)"
    "wf_cell c0" "c0 ! 0 = Version" "c0 ! 1 = KindData"
    "sealLayers c c0 counter (length offs) inner = Inr body"
    "carries cell (links ! 0) counter body" "counter < counterLimit"
proof -
  let ?k = "nat (int BodySize - int (length (c_hops c)) * c_overhead c)"
  have n: "length (c_hops c) = length offs" "c_links c = links"
    using wf by (simp_all add: wf_circuit_def)
  obtain inner w0 c0 body where inner: "frame ?k payload cover w = (Inr inner, w0)"
    and c0: "NewCell (mkHeader KindData (c_links c ! 0) counter) (replicate BodySize 0) = Inr c0"
    and body: "sealLayers c c0 counter (length offs) inner = Inr body" "length body = BodySize"
    and cell: "cell = set_Body c0 body" and counter: "counter < cellLimit"
    and fits: "int (length payload) \<le> MaxPayload c"
    using seal n(1)
    by (auto simp: Circuit_seal_def not_le not_less split: if_splits prod.splits sum.splits)
  show thesis
  proof (rule that [OF inner])
    show "int (length inner) = layerLen (int (length offs)) (c_overhead c)"
      using frame_length [OF inner] fits n by (simp add: MaxPayload_def layerLen_def)
    show "wf_cell c0" "c0 ! 0 = Version" "c0 ! 1 = KindData"
      using wf_NewCell [OF c0] c0 by (auto simp: NewCell_Inr)
    show "carries cell (links ! 0) counter body"
      using set_Body_NewCell [OF c0 body(2)] cell n body(2) Cell_Body_NewCell
      by (auto simp: carries_def)
    show "counter < counterLimit"
      using counter by (simp add: cellLimit_val counterLimit_val word_less_nat_alt)
  qed (rule body(1))
qed

lemma Circuit_seal_ok:
  assumes wf: "wf_circuit c offs links" and fits: "int (length payload) \<le> MaxPayload c"
    and "counter < cellLimit" "BodySize \<le> length (rnd w)"
  shows "\<exists>cell w'. Circuit_seal c counter payload cover w = (Inr cell, w')"
proof -
  let ?k = "nat (int BodySize - int (length (c_hops c)) * c_overhead c)"
  have n: "length (c_hops c) = length offs" "c_hops c \<noteq> []"
    using wf by (simp_all add: wf_circuit_def)
  then have "c_overhead c > 0"
    using wf aead_overhead by (auto simp: wf_circuit_def) (metis hd_in_set)
  then have "0 \<le> int (length (c_hops c)) * c_overhead c"
    by simp
  then have "length payload + 2 \<le> ?k" "length payload < 0x8000" "?k \<le> length (rnd w)"
    using fits assms(4) by (auto simp: MaxPayload_def lengthPrefix_def BodySize_val)
  then obtain inner w0 where inner: "frame ?k payload cover w = (Inr inner, w0)"
    by (rule frame_ok)
  obtain c0 where c0: "NewCell (mkHeader KindData (c_links c ! 0) counter) (replicate BodySize 0) = Inr c0"
    using NewCell_data [of "replicate BodySize 0" "mkHeader KindData (c_links c ! 0) counter"] by auto
  have "int (length inner) = layerLen (int (length offs)) (c_overhead c)"
    using frame_length [OF inner] fits n by (simp add: MaxPayload_def layerLen_def)
  moreover have "wf_cell c0" "c0 ! 0 = Version" "c0 ! 1 = KindData"
    using wf_NewCell [OF c0] c0 by (auto simp: NewCell_Inr)
  ultimately obtain body where "sealLayers c c0 counter (length offs) inner = Inr body"
    "length body = BodySize"
    using sealLayers_ok [OF wf order_refl] by blast
  then show ?thesis
    using n fits assms(3) inner c0 by (simp add: Circuit_seal_def not_le not_less)
qed

lemma last_hop:
  assumes "wf_circuit c offs links" "length hs = length offs"
    "\<And>i. i < length offs \<Longrightarrow> hop_of c offs i (hs ! i)" "length offs = Suc m"
  shows "last hs = \<lparr>h_aead = Some (c_hops c ! m), h_index = int m,
      h_overhead = Overhead (c_hops c ! m), h_offset = offs ! m\<rparr>"
proof -
  have "last hs = hs ! m"
    using assms(2,4) by (cases hs rule: rev_cases) (simp_all add: nth_append)
  then show ?thesis
    using hop_of_overhead [OF assms(1), of m] assms(3,4) by simp
qed

lemma forward_path_delivers:
  assumes wf: "wf_circuit c offs links" and hs: "length hs = length offs"
    "\<And>i. i < length offs \<Longrightarrow> hop_of c offs i (hs ! i)"
    and seal: "Circuit_seal c counter payload cover w = (Inr cell, w1)" "cover \<Longrightarrow> payload = []"
    and r: "length hs * BodySize \<le> length (rnd w2)"
  shows "\<exists>w3. forward_path hs links cell w2 = (Inr (payload, cover), w3)"
proof -
  obtain m where m: "length offs = Suc m"
    using wf by (cases offs) (auto simp: wf_circuit_def)
  then have last: "m < length offs" by simp
  note nth = wf_circuit_nth [OF wf last]
  obtain inner k w0 c0 body where inner: "frame k payload cover w = (Inr inner, w0)"
    "int (length inner) = layerLen (int (length offs)) (c_overhead c)"
    and c0: "wf_cell c0" "c0 ! 0 = Version" "c0 ! 1 = KindData"
    and body: "sealLayers c c0 counter (length offs) inner = Inr body"
    and first: "carries cell (links ! 0) counter body" "counter < counterLimit"
    by (rule Circuit_seal_Inr [OF wf seal(1)])
  let ?a = "c_hops c ! m" and ?v = "valueAt c m Forward counter"
  obtain n where n: "nonceFor (NonceSize ?a) Forward (links ! m) ?v = Inr n" "nonce_ok ?a n"
    and eq: "\<And>body. sealLayers c c0 counter (Suc m) body =
      sealLayers c c0 counter m (aSeal ?a n body (data_aad ?v (int m)))"
    using sealLayers_Suc [OF wf last c0] by metis
  let ?ct = "aSeal ?a n inner (data_aad ?v (int m))"
  have len: "int (length inner) = layerLen (int m) (Overhead ?a) - Overhead ?a"
    using inner(2) m nth by (simp add: layerLen_def algebra_simps)
  then have ct: "int (length ?ct) = layerLen (int m) (c_overhead c)"
    using nth by (simp add: aead_seal_length)
  have sealed: "sealLayers c c0 counter m ?ct = Inr body"
    using body m eq [of inner] by metis
  have "m * BodySize + BodySize \<le> length (rnd w2)"
    using r hs(1) m by simp
  then obtain at w3 where at: "forward_hops m hs links cell w2 = (Inr at, w3)"
    "carries at (links ! m) ?v ?ct" "BodySize \<le> length (rnd w3)"
    using forward_hops_carry [OF wf last c0 _ ct sealed first] hs(2) m by (metis less_SucI)
  obtain w4 where "OpenLast (last hs) at w3 = (Inr (payload, cover), w4)"
    using OpenLast_carries [OF last_hop [OF wf hs m] nth(1) n at(2) len at(3) inner(1) seal(2)]
    by blast
  then show ?thesis
    using at(1) hs(1) m by (simp add: forward_path_def)
qed

section \<open>The whole way back\<close>

text \<open>
  \<open>opens c offs i v B inner\<close>: a backward layer \<open>B\<close> on the link into hop \<open>i\<close>, whose counter
  there is \<open>v\<close>, is what the client strips from hop \<open>i\<close> on and gets \<open>inner\<close>.
\<close>

definition opens :: "Circuit \<Rightarrow> nat \<Rightarrow> u64 \<Rightarrow> bytes \<Rightarrow> bytes \<Rightarrow> bool" where
  "opens c i v B inner \<longleftrightarrow>
     int (length B) = layerLen (int i) (c_overhead c) \<and> v < counterLimit \<and>
     (\<forall>h0 cell. h0 < counterLimit \<longrightarrow> cell ! 0 = Version \<longrightarrow> cell ! 1 = KindData \<longrightarrow>
        (i < length (c_hops c) \<longrightarrow> valueAt c i Backward h0 = v) \<longrightarrow>
        openLayers c cell Backward h0 [i..<length (c_hops c)] B = Inr inner)"

lemma opens_step:
  assumes wf: "wf_circuit c offs links" and i: "i < length offs"
    and B: "opens c (Suc i) v B inner"
    and n: "nonceFor (NonceSize (c_hops c ! i)) Backward (links ! i) (shift v (off_bwd (offs ! i))) = Inr n"
      "nonce_ok (c_hops c ! i) n"
  shows "opens c i (shift v (off_bwd (offs ! i)))
    (aSeal (c_hops c ! i) n B (data_aad (shift v (off_bwd (offs ! i))) (int i))) inner"
proof -
  let ?a = "c_hops c ! i" and ?v = "shift v (off_bwd (offs ! i))"
  let ?ct = "aSeal ?a n B (data_aad ?v (int i))"
  note nth = wf_circuit_nth [OF wf i]
  have ct: "int (length ?ct) = layerLen (int i) (c_overhead c)"
    using B nth by (simp add: opens_def aead_seal_length layerLen_def algebra_simps)
  have "openLayers c cell Backward h0 [i..<length (c_hops c)] ?ct = Inr inner"
    if "h0 < counterLimit" "cell ! 0 = Version" "cell ! 1 = KindData" "valueAt c i Backward h0 = ?v"
    for h0 cell
  proof -
    have "valueAt c (Suc i) Backward h0 = v" if "Suc i < length (c_hops c)"
      using valueAt_Backward_Suc [OF wf] that nth(4) \<open>h0 < counterLimit\<close>
        \<open>valueAt c i Backward h0 = ?v\<close> B by (simp add: opens_def link.sub_add)
    then have "openLayers c cell Backward h0 [Suc i..<length (c_hops c)] B = Inr inner"
      using B that by (simp add: opens_def)
    moreover have "slice_to ?ct (layerLen (int i) (c_overhead c)) = Inr ?ct"
      using slice_to_nat [of "length ?ct" ?ct] ct by simp
    moreover have "aOpen ?a n ?ct (Cell_aad cell ?v (int i)) = Inr B"
      using aead_open_seal [OF nth(1) n(2)] that by (simp add: Cell_aad_def data_aad_def)
    moreover have "[i..<length (c_hops c)] = i # [Suc i..<length (c_hops c)]"
      using i nth(4) by (simp add: upt_conv_Cons)
    ultimately show ?thesis
      using n(1) nth(3) that(4) by (simp add: Let_def)
  qed
  with ct i nth(4) show ?thesis
    by (simp add: opens_def link.ok_add)
qed

lemma Hop_seal_carries:
  assumes a: "aead_ok a" and idx: "h_index h = int i"
    and B: "int (length B) = layerLen (int i) (Overhead a) - Overhead a"
    and v: "v < counterLimit" and r: "BodySize \<le> length (rnd w)"
  obtains n out w' where "nonceFor (NonceSize a) Backward l v = Inr n" "nonce_ok a n"
    "Hop_seal h a (mkHeader KindData l v) B w = (Inr out, w')"
    "carries out l v (aSeal a n B (data_aad v (int i)))"
    "length (rnd w) - BodySize \<le> length (rnd w')"
proof -
  obtain n where n: "nonceFor (NonceSize a) Backward l v = Inr n" "nonce_ok a n"
    using nonceFor_aead [OF a v] by blast
  let ?hdr = "mkHeader KindData l v"
  obtain c0 where c0: "NewCell ?hdr (replicate BodySize 0) = Inr c0"
    using NewCell_data [of "replicate BodySize 0" ?hdr] by auto
  let ?ct = "aSeal a n B (data_aad v (int i))"
  have "int (length ?ct) = layerLen (int i) (Overhead a)"
    using B aead_seal_length [OF a] by simp
  then have le: "length ?ct \<le> BodySize"
    using layerLen_le [of "Overhead a" i] aead_overhead [OF a] by simp
  let ?fill = "take (BodySize - length ?ct) (rnd w)"
  have full: "length (?ct @ ?fill) = BodySize"
    using le r by simp
  have aad: "Cell_aad c0 v (int i) = data_aad v (int i)"
    using aad_NewCell [OF c0] by (simp add: data_aad_def)
  have "carries (set_Body c0 (?ct @ ?fill)) l v ?ct"
    using set_Body_NewCell [OF c0 full] Cell_Body_NewCell by (auto simp: carries_def)
  moreover have "Hop_seal h a ?hdr B w =
      (Inr (set_Body c0 (?ct @ ?fill)), w\<lparr>rnd := drop (BodySize - length ?ct) (rnd w)\<rparr>)"
    using c0 n(1) idx aad le r by (simp add: Hop_seal_def Let_def readTail_ok)
  ultimately show ?thesis
    using that n by simp
qed

lemma Wrap_opens:
  assumes wf: "wf_circuit c offs links" and i: "Suc i < length offs" and h: "hop_of c offs i h"
    and cell: "carries cell l v B" "opens c (Suc i) v B inner" and r: "BodySize \<le> length (rnd w)"
  obtains out w' B' where "Wrap h cell (links ! i) w = (Inr out, w')"
    "carries out (links ! i) (shift v (off_bwd (offs ! i))) B'"
    "opens c i (shift v (off_bwd (offs ! i))) B' inner"
    "length (rnd w) - BodySize \<le> length (rnd w')"
proof -
  let ?a = "c_hops c ! i" and ?v = "shift v (off_bwd (offs ! i))"
  have i': "i < length offs" using i by simp
  note nth = wf_circuit_nth [OF wf i'] and h' = hop_of_overhead [OF wf i' h]
  have len: "int (length B) = layerLen (int i) (Overhead ?a) - Overhead ?a"
    using cell(2) nth by (simp add: opens_def layerLen_def algebra_simps)
  have "length B \<le> BodySize"
    using cell(1) carries_body_length [OF cell(1)] by (metis carries_def length_take min.cobounded1)
  then have slice: "slice_to (Cell_Body cell) (layerLen (int i + 1) (Overhead ?a)) = Inr B"
    using slice_to_nat [of "length B" "Cell_Body cell"] cell(1) len carries_body_length [OF cell(1)]
    by (simp add: carries_def layerLen_Suc)
  have idx: "h_index h = int i" using h' by simp
  obtain n out w' where n: "nonceFor (NonceSize ?a) Backward (links ! i) ?v = Inr n" "nonce_ok ?a n"
    and out: "Hop_seal h ?a (mkHeader KindData (links ! i) ?v) B w = (Inr out, w')"
    "carries out (links ! i) ?v (aSeal ?a n B (data_aad ?v (int i)))"
    "length (rnd w) - BodySize \<le> length (rnd w')"
    by (rule Hop_seal_carries [OF nth(1) idx len link.ok_add r])
  have "Wrap h cell (links ! i) w = (Inr out, w')"
    using h' slice out(1) cell(2) by (simp add: Wrap_def carries_header [OF cell(1)] opens_def not_le)
  then show ?thesis
    using that out opens_step [OF wf i' cell(2) n] by blast
qed

lemma backward_hops_opens:
  assumes wf: "wf_circuit c offs links" and "i < length offs"
    and "\<And>j. j < i \<Longrightarrow> hop_of c offs j (hs ! j)"
    and "carries cell l v B" "opens c i v B inner" "i * BodySize \<le> length (rnd w)"
    and "l = links ! i"
  shows "\<exists>out w' h0 B'. backward_hops i hs links cell w = (Inr out, w')
    \<and> carries out (links ! 0) h0 B' \<and> opens c 0 h0 B' inner
    \<and> valueAt c i Backward h0 = v"
  using assms(2-)
proof (induction i arbitrary: cell l v B w)
  case 0
  then show ?case
    using valueAt_Backward_0 [OF wf] by (auto simp: opens_def)
next
  case (Suc i)
  let ?v = "shift v (off_bwd (offs ! i))"
  have r: "BodySize \<le> length (rnd w)" using Suc.prems(5) by simp
  obtain out w' B' where out: "Wrap (hs ! i) cell (links ! i) w = (Inr out, w')"
    "carries out (links ! i) ?v B'" "opens c i ?v B' inner"
    "length (rnd w) - BodySize \<le> length (rnd w')"
    using Wrap_opens [OF wf Suc.prems(1) _ Suc.prems(3,4) r] Suc.prems(2) by blast
  have r': "i * BodySize \<le> length (rnd w')"
    using out(4) Suc.prems(5) by simp
  obtain out' w'' h0 B'' where step: "backward_hops i hs links out w' = (Inr out', w'')"
    "carries out' (links ! 0) h0 B''" "opens c 0 h0 B'' inner" "valueAt c i Backward h0 = ?v"
    using Suc.IH [OF _ _ out(2,3) r'] Suc.prems(1,2) by auto
  have "valueAt c (Suc i) Backward h0 = v"
    using valueAt_Backward_Suc [OF wf Suc.prems(1), of h0] step(3,4) Suc.prems(4)
    by (simp add: opens_def link.sub_add)
  with out(1) step show ?case by auto
qed

text \<open>The exit seals reply \<open>number\<close> and every relay before it adds its layer.\<close>

definition reply_path :: "Hop list \<Rightarrow> u64 list \<Rightarrow> u64 \<Rightarrow> bytes \<Rightarrow> bool \<Rightarrow> Cell io" where
  "reply_path hs links number payload cover w =
     (case Hop_sealReply (last hs) (last links) number payload cover w of
        (Inl e, w) \<Rightarrow> (Inl e, w)
      | (Inr cell, w) \<Rightarrow> backward_hops (length hs - 1) hs links cell w)"

lemma sealReply_opens:
  assumes wf: "wf_circuit c offs links" and m: "length offs = Suc m"
    and h: "h = \<lparr>h_aead = Some (c_hops c ! m), h_index = int m,
        h_overhead = Overhead (c_hops c ! m), h_offset = offs ! m\<rparr>"
    and fits: "int (length payload) \<le> MaxPayload c" and cover: "cover \<Longrightarrow> payload = []"
    and number: "number < cellLimit" and r: "2 * BodySize + k \<le> length (rnd w)"
  obtains cell w' B inner where "Hop_sealReply h (links ! m) number payload cover w = (Inr cell, w')"
    "carries cell (links ! m) (shift number (off_bwd (offs ! m))) B"
    "opens c m (shift number (off_bwd (offs ! m))) B inner"
    "unframe inner = Inr (payload, cover)" "k \<le> length (rnd w')"
proof -
  let ?a = "c_hops c ! m" and ?v = "shift number (off_bwd (offs ! m))"
  have m': "m < length offs" using m by simp
  note nth = wf_circuit_nth [OF wf m']
  let ?N = "nat (layerLen (int m) (Overhead ?a) - Overhead ?a)"
  have ov: "0 < c_overhead c" "layerLen (int m) (Overhead ?a) \<le> int BodySize"
    using nth aead_overhead [OF nth(1)] layerLen_le [of "c_overhead c" m] by auto
  then have "?N \<le> BodySize"
    using nth(2) by linarith
  then have N: "int ?N = layerLen (int (Suc m)) (c_overhead c)" "length payload + 2 \<le> ?N" "?N \<le> BodySize"
    using fits nth m ov
    by (auto simp: MaxPayload_def layerLen_def lengthPrefix_def algebra_simps)
  have small: "length payload < 0x8000" and r1: "?N \<le> length (rnd w)"
    using N r by (simp_all add: BodySize_val)
  obtain inner w0 where inner: "frame ?N payload cover w = (Inr inner, w0)" "length inner = ?N"
    "length (rnd w) - ?N \<le> length (rnd w0)"
    by (rule frame_ok [OF N(2) small r1, of cover])
  have nl: "number < counterLimit"
    using number by (simp add: cellLimit_val counterLimit_val word_less_nat_alt)
  have base: "opens c (Suc m) number inner inner"
    using inner(2) N(1) nl nth(4) m by (simp add: opens_def)
  have r0: "BodySize \<le> length (rnd w0)"
    using inner(3) N(3) r by simp
  have idx: "h_index h = int m" and len: "int (length inner) = layerLen (int m) (Overhead ?a) - Overhead ?a"
    using h inner(2) N nth by (simp_all add: layerLen_def algebra_simps)
  obtain n out w' where n: "nonceFor (NonceSize ?a) Backward (links ! m) ?v = Inr n" "nonce_ok ?a n"
    and out: "Hop_seal h ?a (mkHeader KindData (links ! m) ?v) inner w0 = (Inr out, w')"
    "carries out (links ! m) ?v (aSeal ?a n inner (data_aad ?v (int m)))"
    "length (rnd w0) - BodySize \<le> length (rnd w')"
    by (rule Hop_seal_carries [OF nth(1) idx len link.ok_add r0])
  have "Hop_sealReply h (links ! m) number payload cover w = (Inr out, w')"
    using h number inner(1) out(1) by (simp add: Hop_sealReply_def not_le)
  moreover have "unframe inner = Inr (payload, cover)"
    using unframe_frame [OF inner(1) cover, of "[]"] by simp
  moreover have "k \<le> length (rnd w')"
    using out(3) inner(3) N(3) r by simp
  ultimately show ?thesis
    using that out(2) opens_step [OF wf m' base n] by blast
qed

lemma OpenExit_opens:
  assumes "wf_circuit c offs links" "carries cell l h0 B" "opens c 0 h0 B inner"
  shows "OpenExit c cell Backward = unframe inner"
proof -
  have len: "length B = BodySize" and h0: "h0 < counterLimit"
    using assms(3) by (simp_all add: opens_def layerLen_def)
  have body: "Cell_Body cell = B"
    using assms(2) carries_body_length [OF assms(2)] len by (simp add: carries_def)
  have ver: "cell ! 0 = Version" "cell ! 1 = KindData"
    using carries_header [OF assms(2)] by (auto simp: Cell_Header_def split: if_splits)
  have "openLayers c cell Backward h0 [0..<length (c_hops c)] B = Inr inner"
    using assms(3) h0 ver valueAt_Backward_0 [OF assms(1) h0] by (simp add: opens_def)
  then show ?thesis
    using h0 body by (auto simp: OpenExit_def carries_header [OF assms(2)] not_le [symmetric])
qed

lemma ReplyNumber_valueAt:
  assumes "wf_circuit c offs links" "length offs = Suc m" "h0 < counterLimit" "number < counterLimit"
    and "valueAt c m Backward h0 = shift number (off_bwd (offs ! m))"
  shows "ReplyNumber c h0 = number"
proof -
  have "off_bwd (c_total c) = shift (off_bwd (c_before c ! m)) (off_bwd (offs ! m))"
    using assms(1,2) by (simp add: wf_circuit_def offsets_before_Suc addOffsets_def nth_append)
  then have "ReplyNumber c h0 = unshift (valueAt c m Backward h0) (off_bwd (offs ! m))"
    using assms(3) by (simp add: ReplyNumber_def valueAt_def link.sub_sub)
  with assms(4,5) show ?thesis
    by (simp add: link.sub_add)
qed

lemma reply_path_delivers:
  assumes wf: "wf_circuit c offs links" and hs: "length hs = length offs"
    "\<And>i. i < length offs \<Longrightarrow> hop_of c offs i (hs ! i)"
    and fits: "int (length payload) \<le> MaxPayload c" and cover: "cover \<Longrightarrow> payload = []"
    and number: "number < cellLimit" and r: "(length hs + 1) * BodySize \<le> length (rnd w)"
  shows "\<exists>cell w' hdr. reply_path hs links number payload cover w = (Inr cell, w')
    \<and> OpenExit c cell Backward = Inr (payload, cover)
    \<and> Cell_Header cell = Inr hdr \<and> hKind hdr = KindData \<and> hCircuit hdr = links ! 0
    \<and> ReplyNumber c (hCounter hdr) = number"
proof -
  obtain m where m: "length offs = Suc m"
    using wf by (cases offs) (auto simp: wf_circuit_def)
  then have m': "m < length offs" by simp
  have r': "2 * BodySize + m * BodySize \<le> length (rnd w)"
    using r hs(1) m by simp
  obtain cell w1 B inner where cell: "Hop_sealReply (last hs) (links ! m) number payload cover w = (Inr cell, w1)"
    "carries cell (links ! m) (shift number (off_bwd (offs ! m))) B"
    "opens c m (shift number (off_bwd (offs ! m))) B inner"
    "unframe inner = Inr (payload, cover)" "m * BodySize \<le> length (rnd w1)"
    by (rule sealReply_opens [OF wf m last_hop [OF wf hs m] fits cover number r'])
  obtain out w2 h0 B' where out: "backward_hops m hs links cell w1 = (Inr out, w2)"
    "carries out (links ! 0) h0 B'" "opens c 0 h0 B' inner"
    "valueAt c m Backward h0 = shift number (off_bwd (offs ! m))"
    using backward_hops_opens [OF wf m' _ cell(2,3,5)] hs(2) m by (metis less_SucI)
  have "length links = Suc m"
    using wf m by (simp add: wf_circuit_def)
  then have "last links = links ! m"
    using last_conv_nth [of links] by (cases links) auto
  then have "reply_path hs links number payload cover w = (Inr out, w2)"
    using cell(1) out(1) hs(1) m by (simp add: reply_path_def)
  moreover have "number < counterLimit"
    using number by (simp add: cellLimit_val counterLimit_val word_less_nat_alt)
  then have "ReplyNumber c h0 = number"
    using ReplyNumber_valueAt [OF wf m _ _ out(4)] out(3) by (simp add: opens_def)
  ultimately show ?thesis
    using OpenExit_opens [OF wf out(2,3)] cell(4) carries_header [OF out(2)] by simp
qed

section \<open>No slice leaves its range\<close>

lemma openLayers_no_panic:
  assumes "wf_circuit c offs links" "int (length body) = layerLen (int i) (c_overhead c)"
    "i \<le> length offs"
  shows "openLayers c cell dir v [i..<length offs] body \<noteq> Inl Panic
    \<and> (\<forall>out. openLayers c cell dir v [i..<length offs] body = Inr out \<longrightarrow>
          int (length out) = layerLen (int (length offs)) (c_overhead c))"
  using assms(2,3)
proof (induction "length offs - i" arbitrary: i body)
  case 0
  then have "i = length offs" by simp
  with 0 show ?case by simp
next
  case (Suc k)
  then have i: "i < length offs" by simp
  let ?a = "c_hops c ! i"
  note nth = wf_circuit_nth [OF assms(1) i]
  have upt: "[i..<length offs] = i # [Suc i..<length offs]"
    using i by (simp add: upt_conv_Cons)
  have slice: "slice_to body (layerLen (int i) (c_overhead c)) = Inr body"
    using slice_to_nat [of "length body" body] Suc.prems(1) by simp
  have rest: "openLayers c cell dir v [Suc i..<length offs] b \<noteq> Inl Panic
      \<and> (\<forall>out. openLayers c cell dir v [Suc i..<length offs] b = Inr out \<longrightarrow>
            int (length out) = layerLen (int (length offs)) (c_overhead c))"
    if "aOpen ?a n body ad = Inr b" for n ad b
    using that aead_open_length [OF nth(1) that] Suc.hyps(1) [of "Suc i" b] Suc.hyps(2) Suc.prems(1) i nth(2)
    by (simp add: layerLen_def algebra_simps)
  have "nonceFor (NonceSize ?a) dir (c_links c ! i) (valueAt c i dir v) \<noteq> Inl Panic"
    by (simp add: nonceFor_def)
  moreover have "aOpen ?a n body ad \<noteq> Inl Panic" for n ad
    using aead_open_error [OF nth(1)] by fastforce
  ultimately show ?case
    using rest upt slice by (auto simp: Let_def split: sum.splits)
qed

lemma NewHop_Inr:
  assumes "NewHop p key off i = Inr h" "aeads_ok p"
  obtains a where "h = \<lparr>h_aead = Some a, h_index = i, h_overhead = Overhead a, h_offset = off\<rparr>"
    "aead_ok a" "0 \<le> i" "Overhead a < layerLen i (Overhead a)"
  using assms by (auto simp: NewHop_def aeads_ok_def split: if_splits sum.splits)

lemma layerLen_le_body: "0 \<le> i \<Longrightarrow> 0 < ov \<Longrightarrow> layerLen i ov \<le> int BodySize"
  by (simp add: layerLen_def)

lemma nonceFor_no_panic: "nonceFor n d l v \<noteq> Inl Panic"
  by (simp add: nonceFor_def)

lemma Cell_Header_no_panic: "Cell_Header c \<noteq> Inl Panic"
  by (simp add: Cell_Header_def)

lemma Peel_no_panic:
  assumes h: "NewHop p key off i = Inr h" "aeads_ok p" and cell: "wf_cell cell"
  shows "fst (Peel h cell w) \<noteq> Inl Panic" "Peel h cell w = (Inr out, w') \<Longrightarrow> wf_cell out"
proof -
  obtain a where a: "h = \<lparr>h_aead = Some a, h_index = i, h_overhead = Overhead a, h_offset = off\<rparr>"
    "aead_ok a" "0 \<le> i" "Overhead a < layerLen i (Overhead a)"
    by (rule NewHop_Inr [OF h])
  note ov = aead_overhead [OF a(2)]
  have le: "layerLen i (Overhead a) \<le> int BodySize"
    using a(3) ov by (rule layerLen_le_body)
  have slice: "slice_to (Cell_Body cell) (layerLen i (Overhead a)) =
      Inr (take (nat (layerLen i (Overhead a))) (Cell_Body cell))" (is "_ = Inr ?layer")
    using le a(4) ov length_Body [OF cell] by (simp add: slice_to_def)
  have layer: "int (length ?layer) = layerLen i (Overhead a)"
    using le a(4) ov length_Body [OF cell] by simp
  have fill: "readTail BodySize (length inner) w = (r, w') \<Longrightarrow> r \<noteq> Inl Panic"
    if "aOpen a n ?layer ad = Inr inner" for n ad inner r w'
    using aead_open_length [OF a(2) that] layer le ov by (auto simp: readTail_def readFull_def split: if_splits)
  have body: "NewCell hdr b \<noteq> Inl Panic" for hdr b
    by (simp add: NewCell_def)
  have opened: "aOpen a n ?layer ad \<noteq> Inl Panic" for n ad
    using aead_open_error [OF a(2)] by fastforce
  show "fst (Peel h cell w) \<noteq> Inl Panic"
    using fill body opened nonceFor_no_panic Cell_Header_no_panic
    by (auto simp: Peel_def a(1) slice split: sum.splits prod.splits) blast+
  show "Peel h cell w = (Inr out, w') \<Longrightarrow> wf_cell out"
    by (auto simp: Peel_def a(1) wf_NewCell split: sum.splits prod.splits)
qed

lemma Hop_seal_no_panic:
  assumes "aead_ok a" "int (length inner) + Overhead a \<le> int BodySize"
  shows "fst (Hop_seal h a hdr inner w) \<noteq> Inl Panic"
    "Hop_seal h a hdr inner w = (Inr out, w') \<Longrightarrow> wf_cell out"
proof -
  have len: "length (aSeal a n inner ad) \<le> BodySize" for n ad
    using aead_seal_length [OF assms(1), of n inner ad] assms(2) by linarith
  have body: "NewCell hdr b \<noteq> Inl Panic" for b
    by (simp add: NewCell_def)
  show "fst (Hop_seal h a hdr inner w) \<noteq> Inl Panic"
    using body nonceFor_no_panic len
    by (auto simp: Hop_seal_def Let_def readTail_def readFull_def not_less [symmetric] split: sum.splits prod.splits if_splits)
  show "Hop_seal h a hdr inner w = (Inr out, w') \<Longrightarrow> wf_cell out"
    using len wf_NewCell [of hdr "replicate BodySize 0"]
    by (auto simp: Hop_seal_def Let_def readTail_Inr wf_set_Body split: sum.splits prod.splits if_splits)
qed

lemma frame_no_panic: "fst (frame n payload cover w) \<noteq> Inl Panic"
  by (auto simp: frame_def Let_def readTail_def readFull_def lengthPrefix_def split: sum.splits prod.splits if_splits)

lemma unframe_no_panic: "unframe b \<noteq> Inl Panic"
  by (simp add: unframe_def Let_def)

lemma Wrap_no_panic:
  assumes h: "NewHop p key off i = Inr h" "aeads_ok p" and cell: "wf_cell cell"
  shows "fst (Wrap h cell l w) \<noteq> Inl Panic" "Wrap h cell l w = (Inr out, w') \<Longrightarrow> wf_cell out"
proof -
  obtain a where a: "h = \<lparr>h_aead = Some a, h_index = i, h_overhead = Overhead a, h_offset = off\<rparr>"
    "aead_ok a" "0 \<le> i" "Overhead a < layerLen i (Overhead a)"
    by (rule NewHop_Inr [OF h])
  note ov = aead_overhead [OF a(2)]
  have len: "layerLen (i + 1) (Overhead a) = layerLen i (Overhead a) - Overhead a"
    by (simp add: layerLen_def algebra_simps)
  have le: "layerLen i (Overhead a) \<le> int BodySize"
    using a(3) ov by (rule layerLen_le_body)
  have slice: "slice_to (Cell_Body cell) (layerLen (i + 1) (Overhead a)) =
      Inr (take (nat (layerLen (i + 1) (Overhead a))) (Cell_Body cell))" (is "_ = Inr ?inner")
    using le a(4) ov length_Body [OF cell] by (simp add: slice_to_def len)
  have inner: "int (length ?inner) + Overhead a \<le> int BodySize"
    using le a(4) ov length_Body [OF cell] by (simp add: len)
  show "fst (Wrap h cell l w) \<noteq> Inl Panic"
    using Cell_Header_no_panic Hop_seal_no_panic(1) [OF a(2) inner]
    by (auto simp: Wrap_def a(1) slice split: sum.splits)
  show "Wrap h cell l w = (Inr out, w') \<Longrightarrow> wf_cell out"
    using Hop_seal_no_panic(2) [OF a(2) inner] by (auto simp: Wrap_def a(1) slice split: sum.splits if_splits)
qed

lemma sealReply_no_panic:
  assumes h: "NewHop p key off i = Inr h" "aeads_ok p"
  shows "fst (Hop_sealReply h l counter payload cover w) \<noteq> Inl Panic"
    "Hop_sealReply h l counter payload cover w = (Inr out, w') \<Longrightarrow> wf_cell out"
proof -
  obtain a where a: "h = \<lparr>h_aead = Some a, h_index = i, h_overhead = Overhead a, h_offset = off\<rparr>"
    "aead_ok a" "0 \<le> i" "Overhead a < layerLen i (Overhead a)"
    by (rule NewHop_Inr [OF h])
  note ov = aead_overhead [OF a(2)]
  let ?n = "nat (layerLen i (Overhead a) - Overhead a)"
  have "layerLen i (Overhead a) \<le> int BodySize"
    using a(3) ov by (rule layerLen_le_body)
  then have inner: "int (length inner) + Overhead a \<le> int BodySize"
    if "frame ?n payload cover w = (Inr inner, w1)" for inner w1
    using frame_length [OF that] a(4) by simp
  show "fst (Hop_sealReply h l counter payload cover w) \<noteq> Inl Panic"
    using frame_no_panic [of ?n payload cover w] Hop_seal_no_panic(1) [OF a(2) inner]
    by (auto simp: Hop_sealReply_def a(1) split: sum.splits prod.splits)
  show "Hop_sealReply h l counter payload cover w = (Inr out, w') \<Longrightarrow> wf_cell out"
    using Hop_seal_no_panic(2) [OF a(2) inner]
    by (auto simp: Hop_sealReply_def a(1) split: sum.splits prod.splits if_splits)
qed

section \<open>The properties of a circuit\<close>

text \<open>The circuit of the witnesses: three hops, each with its own key, offsets and link.\<close>

definition sampleKeys :: "bytes list" where
  "sampleKeys = [replicate 32 1, replicate 32 2, replicate 32 3]"

definition sampleOffsets :: "Offsets list" where
  "sampleOffsets =
     [\<lparr>off_fwd = 100, off_bwd = 0x3FFFFFFFFFFFFFFF\<rparr>, \<lparr>off_fwd = 7, off_bwd = 9\<rparr>,
      \<lparr>off_fwd = 0, off_bwd = 5000\<rparr>]"

definition sampleLinks :: "u64 list" where
  "sampleLinks = [11, 12, 13]"

definition sampleCircuit :: Circuit where
  "sampleCircuit = projr (NewCircuit sampleSuite sampleKeys sampleOffsets sampleLinks)"

definition sampleHop :: "nat \<Rightarrow> Hop" where
  "sampleHop i =
     \<lparr>h_aead = Some sampleAEAD, h_index = int i, h_overhead = 16, h_offset = sampleOffsets ! i\<rparr>"

definition sampleWorld :: world where
  "sampleWorld = \<lparr>rnd = replicate 4000 7, live = 0, limit = 64, sizeCache = \<lambda>_. None\<rparr>"

lemmas sample_defs = sampleSuite_def sampleAEAD_def sampleKeys_def sampleOffsets_def sampleLinks_def

lemma sampleCircuit_ok:
  "NewCircuit sampleSuite sampleKeys sampleOffsets sampleLinks = Inr sampleCircuit"
  "MaxPayload sampleCircuit = 444"
  unfolding sampleCircuit_def
  by (simp_all add: NewCircuit_def sample_defs MaxPayload_def lengthPrefix_def BodySize_val)

lemma sampleHop_ok:
  assumes "i < 3"
  shows "NewHop sampleSuite (sampleKeys ! i) (sampleOffsets ! i) (int i) = Inr (sampleHop i)"
proof -
  have "i = 0 \<or> i = 1 \<or> i = 2" using assms by auto
  then show ?thesis
    by (auto simp: NewHop_def sample_defs MaxHops_def sampleHop_def layerLen_def BodySize_val)
qed

lemma sampleHops_ok:
  "\<forall>i < length sampleKeys. NewHop sampleSuite (sampleKeys ! i) (sampleOffsets ! i) (int i)
     = Inr (map sampleHop [0, 1, 2] ! i)"
proof (intro allI impI)
  fix i assume "i < length sampleKeys"
  then have "i < 3" "map sampleHop [0, 1, 2] ! i = sampleHop i"
    by (auto simp: sampleKeys_def nth_Cons numeral_2_eq_2 split: nat.splits)
  then show "NewHop sampleSuite (sampleKeys ! i) (sampleOffsets ! i) (int i)
      = Inr (map sampleHop [0, 1, 2] ! i)"
    by (simp add: sampleHop_ok)
qed

text \<open>
  C1: whatever the number of hops, a payload that fits is sealed, and the cell, peeled by every
  relay of the chain in turn with the circuit identifier of the next link written in, gives the
  exit exactly that payload and its cover flag.
\<close>

theorem onion_forward:
  assumes "NewCircuit p keys offs links = Inr c" "aeads_ok p" "length hs = length keys"
    and "\<forall>i < length keys. NewHop p (keys ! i) (offs ! i) (int i) = Inr (hs ! i)"
    and "int (length payload) \<le> MaxPayload c" "counter < cellLimit" "cover \<longrightarrow> payload = []"
    and "BodySize \<le> length (rnd w)" "length hs * BodySize \<le> length (rnd w2)"
  shows "\<exists>cell w1 w3. Circuit_seal c counter payload cover w = (Inr cell, w1)
    \<and> forward_path hs links cell w2 = (Inr (payload, cover), w3)"
proof -
  note wf = NewCircuit_wf [OF assms(1,2)]
  have hs: "length hs = length offs" "\<And>i. i < length offs \<Longrightarrow> hop_of c offs i (hs ! i)"
    using assms(3,4) wf(2) NewHop_hop_of [OF assms(1,2)] by auto
  obtain cell w1 where seal: "Circuit_seal c counter payload cover w = (Inr cell, w1)"
    using Circuit_seal_ok [OF wf(1) assms(5,6,8)] by blast
  moreover have "\<exists>w3. forward_path hs links cell w2 = (Inr (payload, cover), w3)"
    using forward_path_delivers [OF wf(1) hs seal _ assms(9)] assms(7) by blast
  ultimately show ?thesis by blast
qed

theorem onion_forward_witness:
  "\<exists>cell w1 w3. Circuit_seal sampleCircuit 41 [1, 2, 3] False sampleWorld = (Inr cell, w1)
    \<and> forward_path (map sampleHop [0, 1, 2]) sampleLinks cell sampleWorld = (Inr ([1, 2, 3], False), w3)"
  by (rule onion_forward [OF sampleCircuit_ok(1) sampleSuite_aeads _ sampleHops_ok])
    (simp_all add: sampleKeys_def sampleCircuit_ok(2) cellLimit_val word_less_nat_alt sampleWorld_def BodySize_val)

text \<open>
  C2: whatever the number of hops, the reply the exit seals under its number, wrapped by every relay
  on the way back, is a data cell on the client's first link that the client opens to the same
  payload and cover flag, and \<^verbatim>\<open>ReplyNumber\<close> of its counter is the number the exit gave it.
\<close>

theorem onion_reply:
  assumes "NewCircuit p keys offs links = Inr c" "aeads_ok p" "length hs = length keys"
    and "\<forall>i < length keys. NewHop p (keys ! i) (offs ! i) (int i) = Inr (hs ! i)"
    and "int (length payload) \<le> MaxPayload c" "number < cellLimit" "cover \<longrightarrow> payload = []"
    and "(length hs + 1) * BodySize \<le> length (rnd w)"
  shows "\<exists>cell w' hdr. reply_path hs links number payload cover w = (Inr cell, w')
    \<and> OpenExit c cell Backward = Inr (payload, cover)
    \<and> Cell_Header cell = Inr hdr \<and> hKind hdr = KindData \<and> hCircuit hdr = links ! 0
    \<and> ReplyNumber c (hCounter hdr) = number"
proof -
  note wf = NewCircuit_wf [OF assms(1,2)]
  have hs: "length hs = length offs" "\<And>i. i < length offs \<Longrightarrow> hop_of c offs i (hs ! i)"
    using assms(3,4) wf(2) NewHop_hop_of [OF assms(1,2)] by auto
  show ?thesis
    using reply_path_delivers [OF wf(1) hs assms(5) _ assms(6,8)] assms(7) by blast
qed

theorem onion_reply_witness:
  "\<exists>cell w' hdr. reply_path (map sampleHop [0, 1, 2]) sampleLinks 3 [] True sampleWorld = (Inr cell, w')
    \<and> OpenExit sampleCircuit cell Backward = Inr ([], True)
    \<and> Cell_Header cell = Inr hdr \<and> hKind hdr = KindData \<and> hCircuit hdr = sampleLinks ! 0
    \<and> ReplyNumber sampleCircuit (hCounter hdr) = 3"
  by (rule onion_reply [OF sampleCircuit_ok(1) sampleSuite_aeads _ sampleHops_ok])
    (simp_all add: sampleKeys_def sampleCircuit_ok(2) cellLimit_val word_less_nat_alt sampleWorld_def BodySize_val)

text \<open>
  a hop that \<^verbatim>\<open>NewHop\<close> accepts never slices out of range and never emits anything but a full
  cell, whatever bytes the cells, the counters and the payloads hold: peeling, wrapping and
  sealing a reply end in a cell of \<open>CellSize\<close> bytes or in an error value, never in a panic.
\<close>

theorem hop_operations_safe:
  assumes "NewHop p key off i = Inr h" "aeads_ok p" "wf_cell cell"
  shows "fst (Peel h cell w) \<noteq> Inl Panic \<and> fst (OpenLast h cell w) \<noteq> Inl Panic
    \<and> fst (Wrap h cell l w) \<noteq> Inl Panic \<and> fst (Hop_sealReply h l n payload cover w) \<noteq> Inl Panic
    \<and> (\<forall>out w'. Peel h cell w = (Inr out, w') \<or> Wrap h cell l w = (Inr out, w')
          \<or> Hop_sealReply h l n payload cover w = (Inr out, w') \<longrightarrow> length out = CellSize)"
proof -
  have "fst (OpenLast h cell w) \<noteq> Inl Panic"
    using Peel_no_panic(1) [OF assms, of w] unframe_no_panic
    by (auto simp: OpenLast_def split: sum.splits prod.splits)
  then show ?thesis
    using Peel_no_panic [OF assms] Wrap_no_panic [OF assms] sealReply_no_panic [OF assms(1,2)]
    by (auto simp: wf_cell_def)
qed

theorem hop_operations_safe_witness:
  "fst (Peel (sampleHop 2) (replicate 512 255) sampleWorld) \<noteq> Inl Panic
    \<and> fst (OpenLast (sampleHop 2) (replicate 512 255) sampleWorld) \<noteq> Inl Panic
    \<and> fst (Wrap (sampleHop 2) (replicate 512 255) 5 sampleWorld) \<noteq> Inl Panic
    \<and> fst (Hop_sealReply (sampleHop 2) 5 6 [1] True sampleWorld) \<noteq> Inl Panic"
proof -
  have "wf_cell (replicate 512 255)"
    by (simp add: wf_cell_def CellSize_def)
  then show ?thesis
    using hop_operations_safe [OF sampleHop_ok [of 2] sampleSuite_aeads] by simp
qed

end
