(* ===== verification/Replay.thy ===== *)
theory Replay
  imports Counter
begin

text \<open>
  \<^verbatim>\<open>wire/replay.go\<close>: the sequence a link's counters follow and the cache of setup tags. A
  sequence accepts a run of consecutive values of the cyclic group and never one value twice;
  the cache is stated through the locale \<open>replay_filter\<close>, the contract the onion ring relies
  on: a tag once taken is refused for as long as the cache lives, and a full cache takes nothing.
\<close>

section \<open>Sequence\<close>

record Sequence =
  seq_next :: u64
  seq_taken :: u64
  seeded :: bool

text \<open>The zero value, which a circuit starts with.\<close>

definition newSequence :: Sequence where
  "newSequence = \<lparr>seq_next = 0, seq_taken = 0, seeded = False\<rparr>"

definition Expect :: "u64 \<Rightarrow> Sequence \<Rightarrow> Sequence" where
  "Expect first s = s\<lparr>seeded := True, seq_next := first\<rparr>"

definition Next :: "u64 \<Rightarrow> Sequence \<Rightarrow> bool \<times> Sequence" where
  "Next counter s =
     (if counter \<ge> counterLimit \<or> seq_taken s \<ge> cellLimit then (False, s)
      else if seeded s \<and> counter \<noteq> seq_next s then (False, s)
      else (True, s\<lparr>seeded := True, seq_next := shift counter 1, seq_taken := seq_taken s + 1\<rparr>))"

section \<open>SetupCache\<close>

type_synonym SetupTag = bytes

definition DefaultSetupCache :: int where "DefaultSetupCache = 2 ^ 16"

text \<open>The map of the source holds every tag once; \<open>cache_seen\<close> lists its keys.\<close>

record SetupCache =
  cache_max :: int
  cache_seen :: "SetupTag list"

definition NewSetupCache :: "int \<Rightarrow> SetupCache" where
  "NewSetupCache n = \<lparr>cache_max = (if n \<le> 0 then DefaultSetupCache else n), cache_seen = []\<rparr>"

definition SetupCache_Add :: "SetupTag \<Rightarrow> SetupCache \<Rightarrow> unit result \<times> SetupCache" where
  "SetupCache_Add tag c =
     (if tag \<in> set (cache_seen c) then (Inl ErrSetupReplay, c)
      else if int (length (cache_seen c)) \<ge> cache_max c then (Inl ErrSetupCacheFull, c)
      else (Inr (), c\<lparr>cache_seen := tag # cache_seen c\<rparr>))"

section \<open>A sequence takes consecutive values, none twice\<close>

text \<open>The counters a link reader offers one after another, and those it takes.\<close>

fun taken_of :: "Sequence \<Rightarrow> u64 list \<Rightarrow> u64 list" where
  "taken_of s [] = []"
| "taken_of s (c # cs) =
     (case Next c s of (True, s') \<Rightarrow> c # taken_of s' cs | (False, s') \<Rightarrow> taken_of s' cs)"

text \<open>The \<open>n\<close> values that follow \<open>v\<close> on a link, \<open>v\<close> first.\<close>

fun run_from :: "u64 \<Rightarrow> nat \<Rightarrow> u64 list" where
  "run_from v 0 = []"
| "run_from v (Suc n) = v # run_from (shift v 1) n"

lemma Next_True:
  "Next c s = (True, s') \<longleftrightarrow>
     c < counterLimit \<and> seq_taken s < cellLimit \<and> (seeded s \<longrightarrow> c = seq_next s) \<and>
     s' = s\<lparr>seeded := True, seq_next := shift c 1, seq_taken := seq_taken s + 1\<rparr>"
  by (auto simp: Next_def not_le)

lemma Next_False: "Next c s = (False, s') \<Longrightarrow> s' = s"
  by (auto simp: Next_def split: if_splits)

lemma unat_Suc_taken:
  "n < cellLimit \<Longrightarrow> unat (n + 1) = unat n + 1"
  by (simp add: cellLimit_val word_less_nat_alt unat_word_ariths)

lemma unat_cellLimit: "unat cellLimit = 2 ^ 60"
  by (simp add: cellLimit_val)

lemma taken_seeded:
  assumes "seeded s" "seq_taken s \<le> cellLimit"
  shows "\<exists>n. taken_of s cs = run_from (seq_next s) n \<and> n + unat (seq_taken s) \<le> 2 ^ 60"
  using assms
proof (induction cs arbitrary: s)
  case Nil
  then have "taken_of s [] = run_from (seq_next s) 0 \<and> 0 + unat (seq_taken s) \<le> 2 ^ 60"
    by (simp add: word_le_nat_alt unat_cellLimit)
  then show ?case by blast
next
  case (Cons c cs)
  obtain b s' where step: "Next c s = (b, s')"
    by (cases "Next c s")
  show ?case
  proof (cases b)
    case False
    with step have "s' = s" by (simp add: Next_False)
    with step False Cons show ?thesis by simp
  next
    case True
    with step have c: "c = seq_next s" "seq_taken s < cellLimit"
      and s': "s' = s\<lparr>seeded := True, seq_next := shift c 1, seq_taken := seq_taken s + 1\<rparr>"
      using Cons.prems(1) by (auto simp: Next_True)
    have t: "unat (seq_taken s') = unat (seq_taken s) + 1"
      using c s' by (simp add: unat_Suc_taken)
    then have "seq_taken s' \<le> cellLimit"
      using c by (simp add: word_le_nat_alt word_less_nat_alt unat_cellLimit)
    then obtain n where "taken_of s' cs = run_from (seq_next s') n" "n + unat (seq_taken s') \<le> 2 ^ 60"
      using Cons.IH [of s'] s' by auto
    then have "taken_of s (c # cs) = run_from (seq_next s) (Suc n)
        \<and> Suc n + unat (seq_taken s) \<le> 2 ^ 60"
      using step True c s' t by simp
    then show ?thesis by blast
  qed
qed

lemma run_from_step:
  assumes "v < counterLimit" "i < n"
  shows "unat (run_from v n ! i) = (unat v + i) mod 2 ^ 62"
  using assms
proof (induction n arbitrary: v i)
  case 0
  then show ?case by simp
next
  case (Suc n)
  show ?case
  proof (cases i)
    case 0
    with Suc.prems show ?thesis
      by (simp add: counterLimit_val word_less_nat_alt)
  next
    case (Suc j)
    with Suc.prems have "unat (run_from (shift v 1) n ! j) = (unat (shift v 1) + j) mod 2 ^ 62"
      by (intro Suc.IH) (simp_all add: link.ok_add)
    also have "\<dots> = (unat v + 1 + j) mod 2 ^ 62"
      by (simp only: unat_shift mod_add_left_eq unsigned_1)
    finally show ?thesis using Suc by simp
  qed
qed

lemma length_run_from [simp, len]: "length (run_from v n) = n"
  by (induction n arbitrary: v) simp_all

lemma mod_window_le:
  fixes a i j m :: nat
  assumes "(a + i) mod m = (a + j) mod m" "i \<le> j" "j < m"
  shows "i = j"
proof -
  have "m dvd (a + j) - (a + i)"
    using assms by (metis mod_eq_dvd_iff_nat nat_add_left_cancel_le)
  then show ?thesis
    using assms by (auto dest: dvd_imp_le)
qed

lemma mod_window_inj:
  fixes a i j m :: nat
  assumes "(a + i) mod m = (a + j) mod m" "i < m" "j < m"
  shows "i = j"
  using mod_window_le [of a i m j] mod_window_le [of a j m i] assms by (metis nat_le_linear)

lemma distinct_run_from:
  assumes "v < counterLimit" "n \<le> 2 ^ 60"
  shows "distinct (run_from v n)"
proof -
  have "i = j" if "i < n" "j < n" "run_from v n ! i = run_from v n ! j" for i j
  proof (rule mod_window_inj)
    show "(unat v + i) mod 2 ^ 62 = (unat v + j) mod 2 ^ 62"
      using that assms(1) by (metis run_from_step)
  qed (use that assms(2) in auto)
  then show ?thesis
    by (auto simp: distinct_conv_nth)
qed

lemma taken_unseeded:
  assumes "\<not> seeded s" "seq_taken s = 0"
  shows "\<exists>v n. v < counterLimit \<and> taken_of s cs = run_from v n \<and> n \<le> 2 ^ 60"
proof (induction cs)
  case Nil
  then show ?case
    by (intro exI [of _ 0]) (simp add: link.ok_zero)
next
  case (Cons c cs)
  obtain b s' where step: "Next c s = (b, s')"
    by (cases "Next c s")
  show ?case
  proof (cases b)
    case False
    with step have "s' = s" by (simp add: Next_False)
    with step False Cons show ?thesis by simp
  next
    case True
    with step have c: "c < counterLimit"
      and s': "s' = s\<lparr>seeded := True, seq_next := shift c 1, seq_taken := 1\<rparr>"
      using assms by (auto simp: Next_True)
    then obtain n where "taken_of s' cs = run_from (shift c 1) n" "n + 1 \<le> 2 ^ 60"
      using taken_seeded [of s' cs] by (auto simp: cellLimit_val word_le_nat_alt)
    then have "taken_of s (c # cs) = run_from c (Suc n)" "Suc n \<le> 2 ^ 60"
      using step True s' by simp_all
    with c show ?thesis by blast
  qed
qed

section \<open>The contract of a replay filter\<close>

text \<open>
  \<open>add\<close> takes a tag or refuses it, \<open>members\<close> is what was taken, \<open>cap\<close> the most it holds.
\<close>

locale replay_filter =
  fixes add :: "'t \<Rightarrow> 'c \<Rightarrow> unit result \<times> 'c"
    and members :: "'c \<Rightarrow> 't set" and cap :: "'c \<Rightarrow> nat" and inv :: "'c \<Rightarrow> bool"
  assumes add_ok: "inv c \<Longrightarrow> add t c = (Inr (), c') \<Longrightarrow>
      t \<notin> members c \<and> members c' = insert t (members c)"
    and add_err: "inv c \<Longrightarrow> add t c = (Inl e, c') \<Longrightarrow> c' = c"
    and add_seen: "inv c \<Longrightarrow> t \<in> members c \<Longrightarrow> fst (add t c) = Inl ErrSetupReplay"
    and add_fresh: "inv c \<Longrightarrow> t \<notin> members c \<Longrightarrow>
      fst (add t c) = (if card (members c) < cap c then Inr () else Inl ErrSetupCacheFull)"
    and add_inv: "inv c \<Longrightarrow> add t c = (r, c') \<Longrightarrow> inv c' \<and> cap c' = cap c"
    and bound: "inv c \<Longrightarrow> finite (members c) \<and> card (members c) \<le> cap c"
begin

text \<open>The tags taken out of a sequence of offers, and the cache afterwards.\<close>

fun offer :: "'t list \<Rightarrow> 'c \<Rightarrow> 't list \<times> 'c" where
  "offer [] c = ([], c)"
| "offer (t # ts) c =
     (case add t c of
        (Inr _, c') \<Rightarrow> (case offer ts c' of (got, c'') \<Rightarrow> (t # got, c''))
      | (Inl _, c') \<Rightarrow> offer ts c')"

lemma offer_spec:
  assumes "inv c" "offer ts c = (got, c')"
  shows "inv c' \<and> distinct got \<and> set got \<inter> members c = {} \<and> members c' = members c \<union> set got
    \<and> cap c' = cap c"
  using assms
proof (induction ts arbitrary: c got)
  case Nil
  then show ?case by simp
next
  case (Cons t ts)
  obtain r c1 where step: "add t c = (r, c1)"
    by (cases "add t c")
  note c1 = add_inv [OF Cons.prems(1) step]
  show ?case
  proof (cases r)
    case (Inl e)
    then show ?thesis
      using Cons.IH [of c1 got] Cons.prems step c1 add_err [OF Cons.prems(1), of t e c1] by auto
  next
    case (Inr u)
    then obtain got' where "offer ts c1 = (got', c')" "got = t # got'"
      using Cons.prems(2) step by (auto split: prod.splits)
    then show ?thesis
      using Cons.IH [of c1 got'] c1 add_ok [OF Cons.prems(1), of t c1] step Inr by auto
  qed
qed

lemma seen_refused: "inv c \<Longrightarrow> offer ts c = (got, c') \<Longrightarrow> t \<in> set got \<Longrightarrow>
    fst (add t c') = Inl ErrSetupReplay"
  using add_seen offer_spec by blast

lemma full_refuses:
  "inv c \<Longrightarrow> card (members c) = cap c \<Longrightarrow> \<exists>e. add t c = (Inl e, c)"
  by (metis add_err add_fresh add_seen eq_fst_iff order_less_irrefl)

end

definition wf_cache :: "SetupCache \<Rightarrow> bool" where
  "wf_cache c \<longleftrightarrow> cache_max c > 0 \<and> distinct (cache_seen c)
     \<and> int (length (cache_seen c)) \<le> cache_max c"

lemma wf_NewSetupCache: "wf_cache (NewSetupCache n)"
  by (simp add: wf_cache_def NewSetupCache_def DefaultSetupCache_def)

interpretation tags: replay_filter SetupCache_Add "\<lambda>c. set (cache_seen c)"
  "\<lambda>c. nat (cache_max c)" wf_cache
proof
  fix c c' t e r
  assume wf: "wf_cache c"
  show "t \<notin> set (cache_seen c) \<and> set (cache_seen c') = insert t (set (cache_seen c))"
    if "SetupCache_Add t c = (Inr (), c')"
    using that by (auto simp: SetupCache_Add_def split: if_splits)
  show "c' = c" if "SetupCache_Add t c = (Inl e, c')"
    using that by (auto simp: SetupCache_Add_def split: if_splits)
  show "fst (SetupCache_Add t c) = Inl ErrSetupReplay" if "t \<in> set (cache_seen c)"
    using that by (simp add: SetupCache_Add_def)
  have "card (set (cache_seen c)) = length (cache_seen c)"
    using wf by (simp add: wf_cache_def distinct_card)
  then show "fst (SetupCache_Add t c) =
      (if card (set (cache_seen c)) < nat (cache_max c) then Inr () else Inl ErrSetupCacheFull)"
    if "t \<notin> set (cache_seen c)"
    using that by (auto simp: SetupCache_Add_def)
  show "wf_cache c' \<and> nat (cache_max c') = nat (cache_max c)" if "SetupCache_Add t c = (r, c')"
    using that wf by (auto simp: SetupCache_Add_def wf_cache_def split: if_splits)
  show "finite (set (cache_seen c)) \<and> card (set (cache_seen c)) \<le> nat (cache_max c)"
    using wf by (auto simp: wf_cache_def distinct_card)
qed

section \<open>The properties of replay protection\<close>

text \<open>
  whatever counters arrive on a link and in whatever order, a fresh \<^verbatim>\<open>Sequence\<close> takes a run of
  consecutive values of the link, so it takes no counter twice and leaves no gap, and it stops
  after \<open>2 ^ 60\<close> of them. When the exit told it where to start, the run starts there.
\<close>

theorem sequence_takes_a_run:
  "\<exists>v n. taken_of newSequence cs = run_from v n \<and> n \<le> 2 ^ 60 \<and> distinct (taken_of newSequence cs)
     \<and> (\<exists>k. taken_of (Expect first newSequence) cs = run_from first k \<and> k \<le> 2 ^ 60)"
proof -
  obtain v n where "v < counterLimit" "taken_of newSequence cs = run_from v n" "n \<le> 2 ^ 60"
    using taken_unseeded [of newSequence cs] by (auto simp: newSequence_def)
  moreover have "\<exists>k. taken_of (Expect first newSequence) cs = run_from first k \<and> k \<le> 2 ^ 60"
    using taken_seeded [of "Expect first newSequence" cs]
    by (auto simp: newSequence_def Expect_def)
  ultimately show ?thesis
    using distinct_run_from by metis
qed

text \<open>The tags that a sequence of setup cells gets accepted, and the cache afterwards.\<close>

fun accept_tags :: "SetupTag list \<Rightarrow> SetupCache \<Rightarrow> SetupTag list \<times> SetupCache" where
  "accept_tags [] c = ([], c)"
| "accept_tags (t # ts) c =
     (case SetupCache_Add t c of
        (Inr _, c') \<Rightarrow> (case accept_tags ts c' of (got, c'') \<Rightarrow> (t # got, c''))
      | (Inl _, c') \<Rightarrow> accept_tags ts c')"

lemma accept_tags_offer: "accept_tags ts c = tags.offer ts c"
  by (induction ts arbitrary: c) (auto split: prod.splits sum.splits)

text \<open>
  over the life of a node key no setup tag is accepted twice: in any sequence of setups the
  accepted tags are distinct, at most as many as the cache holds, and offering one of them again
  is refused as a replay and leaves the cache as it was.
\<close>

theorem setup_never_replayed:
  assumes "accept_tags ts (NewSetupCache m) = (got, c)"
  shows "distinct got \<and> int (length got) \<le> (if m \<le> 0 then DefaultSetupCache else m)
    \<and> (\<forall>t \<in> set got. SetupCache_Add t c = (Inl ErrSetupReplay, c))"
proof -
  let ?c = "NewSetupCache m"
  have spec: "wf_cache c" "distinct got" "set (cache_seen c) = set got"
    and cap: "nat (cache_max c) = nat (cache_max ?c)"
    using tags.offer_spec [OF wf_NewSetupCache] assms
    by (auto simp: accept_tags_offer NewSetupCache_def)
  have "card (set got) \<le> nat (cache_max ?c)"
    using tags.bound [OF spec(1)] spec(3) cap by simp
  then have "int (length got) \<le> (if m \<le> 0 then DefaultSetupCache else m)"
    using spec(2) by (simp add: distinct_card NewSetupCache_def DefaultSetupCache_def split: if_splits)
  moreover have "SetupCache_Add t c = (Inl ErrSetupReplay, c)" if "t \<in> set got" for t
    using that spec(3) by (simp add: SetupCache_Add_def)
  ultimately show ?thesis
    using spec(2) by blast
qed

theorem setup_never_replayed_witness:
  "distinct [[1], [2 :: byte]] \<and> int (length [[1], [2 :: byte]]) \<le> 2
    \<and> SetupCache_Add [1] \<lparr>cache_max = 2, cache_seen = [[2], [1]]\<rparr>
         = (Inl ErrSetupReplay, \<lparr>cache_max = 2, cache_seen = [[2], [1]]\<rparr>)"
proof -
  have "accept_tags [[1], [1], [2], [3]] (NewSetupCache 2)
      = ([[1], [2]], \<lparr>cache_max = 2, cache_seen = [[2], [1]]\<rparr>)"
    by (simp add: NewSetupCache_def SetupCache_Add_def)
  from setup_never_replayed [OF this] show ?thesis by simp
qed

end
