(* ===== verification/Setup.thy ===== *)
theory Setup
  imports Chain Replay
begin

text \<open>
  \<^verbatim>\<open>wire/setup.go\<close> and \<^verbatim>\<open>deriveOffsets\<close> of \<^verbatim>\<open>wire/counter.go\<close>: the nested setup cell that a
  client builds for a whole chain, the layer a relay opens, and the cell it passes on. Every
  secret a call takes is released on every path, which the world's count of live buffers shows.
  A Go string that travels on the wire (an address) is its bytes.
\<close>

section \<open>Constants and sizes\<close>

definition AddrSize :: nat where "AddrSize = 64"

definition setupFlags :: nat where "setupFlags = 1"

definition setupHdr :: nat where "setupHdr = setupFlags + AddrSize + 8"

definition exchangeSetup :: string where "exchangeSetup = ''setup''"

definition purposeSetup :: string where "purposeSetup = ''setup''"

definition purposeCell :: string where "purposeCell = ''cell''"

definition purposeReplay :: string where "purposeReplay = ''setup/replay''"

definition purposeCounterForward :: string where "purposeCounterForward = ''counter/fwd''"

definition purposeCounterBackward :: string where "purposeCounterBackward = ''counter/bwd''"

definition setupLayerLen :: "nat \<Rightarrow> int \<Rightarrow> int" where
  "setupLayerLen index perHop = int BodySize - int index * perHop"

definition perHopCost :: "nat \<Rightarrow> int \<Rightarrow> int" where
  "perHopCost pubLen overhead = int pubLen + overhead + int setupHdr"

text \<open>\<^verbatim>\<open>secmem.New\<close>: a zeroed buffer of the asked size.\<close>

definition secmem_New :: "int \<Rightarrow> bytes io" where
  "secmem_New sz = newBuffer (if sz \<le> 0 then Inl ErrBadSize else Inr (replicate (nat sz) 0))"

definition sizesOf :: "provider \<Rightarrow> (nat \<times> int) io" where
  "sizesOf p w =
     (case sizeCache w (pSuite p) of
        Some sz \<Rightarrow> (Inr sz, w)
      | None \<Rightarrow>
          (case GenerateEphemeral p w of
             (Inl e, w) \<Rightarrow> (Inl e, w)
           | (Inr (priv, pub), w) \<Rightarrow>
               (case secmem_New (pKeySize p) (release w) of
                  (Inl e, w) \<Rightarrow> (Inl e, w)
                | (Inr probe, w) \<Rightarrow>
                    (case pNewAEAD p probe of
                       Inl e \<Rightarrow> (Inl e, release w)
                     | Inr a \<Rightarrow>
                         let sz = (length pub, Overhead a) in
                         (Inr sz, release (w\<lparr>sizeCache := (sizeCache w)(pSuite p \<mapsto> sz)\<rparr>))))))"

definition PublicKeySize :: "provider \<Rightarrow> nat io" where
  "PublicKeySize p w =
     (case sizesOf p w of
        (Inl e, w) \<Rightarrow> (Inl e, w)
      | (Inr (pub, overhead), w) \<Rightarrow> (Inr pub, w))"

definition MaxLayers :: "provider \<Rightarrow> int io" where
  "MaxLayers p w =
     (case sizesOf p w of
        (Inl e, w) \<Rightarrow> (Inl e, w)
      | (Inr (pub, overhead), w) \<Rightarrow>
          (Inr (min (int BodySize div perHopCost pub overhead) (int MaxHops)), w))"

section \<open>Derivations\<close>

definition deriveOffset :: "provider \<Rightarrow> bytes \<Rightarrow> string \<Rightarrow> Context \<Rightarrow> u64 io" where
  "deriveOffset p secret purpose ctx w =
     (case DeriveKey p secret purpose ctx 8 w of
        (Inl e, w) \<Rightarrow> (Inl e, w)
      | (Inr b, w) \<Rightarrow> (Inr (Uint64 b AND (counterLimit - 1)), release w))"

definition deriveOffsets :: "provider \<Rightarrow> bytes \<Rightarrow> Context \<Rightarrow> Offsets io" where
  "deriveOffsets p secret ctx w =
     (case deriveOffset p secret purposeCounterForward ctx w of
        (Inl e, w) \<Rightarrow> (Inl e, w)
      | (Inr f, w) \<Rightarrow>
          (case deriveOffset p secret purposeCounterBackward ctx w of
             (Inl e, w) \<Rightarrow> (Inl e, w)
           | (Inr b, w) \<Rightarrow> (Inr \<lparr>off_fwd = f, off_bwd = b\<rparr>, w)))"

definition setupTag :: "provider \<Rightarrow> bytes \<Rightarrow> Context \<Rightarrow> SetupTag io" where
  "setupTag p secret ctx w =
     (case DeriveKey p secret purposeReplay ctx 16 w of
        (Inl e, w) \<Rightarrow> (Inl e, w)
      | (Inr b, w) \<Rightarrow> (Inr (copy (replicate 16 0) b), release w))"

definition setupAAD :: "nat \<Rightarrow> bytes" where
  "setupAAD index = [Version, KindControl, word_of_nat index]"

definition setupContext :: "provider \<Rightarrow> nat \<Rightarrow> u64 \<Rightarrow> bytes \<Rightarrow> bytes \<Rightarrow> Context result" where
  "setupContext p index lnk staticPub ephPub =
     newContext p exchangeSetup [[Version], [word_of_nat index], PutUint64 lnk, staticPub, ephPub]"

definition putAddr :: "bytes \<Rightarrow> bytes \<Rightarrow> bytes result" where
  "putAddr dst addr = (if length addr > length dst then Inl ErrAddrSize else Inr (copy dst addr))"

definition takeAddr :: "bytes \<Rightarrow> bytes" where
  "takeAddr src = rev (dropWhile (\<lambda>b. b = 0) (rev src))"

definition firstForward :: "Offsets list \<Rightarrow> u64" where
  "firstForward before = foldl (\<lambda>acc off. shift acc (off_fwd off)) 0 before"

section \<open>Building the setup\<close>

record SetupHop =
  StaticPub :: bytes
  NextAddr :: bytes
  NextCircuit :: u64
  Link :: u64

record SetupResult =
  sr_Cell :: Cell
  sr_CellKeys :: "bytes list"
  sr_Offsets :: "Offsets list"

text \<open>The closure \<^verbatim>\<open>release\<close> of \<^verbatim>\<open>BuildSetup\<close> over the keys taken so far.\<close>

definition releaseKeys :: "bytes list \<Rightarrow> bytes list \<Rightarrow> bool \<Rightarrow> world \<Rightarrow> world" where
  "releaseKeys setupKeys cellKeys built w =
     (release ^^ (length setupKeys + (if built then 0 else length cellKeys))) w"

text \<open>The first loop: keys, offsets and ephemeral keys of the hops from index \<open>i\<close> on.\<close>

fun buildKeys ::
  "provider \<Rightarrow> nat \<Rightarrow> nat \<Rightarrow> SetupHop list \<Rightarrow> bytes list \<Rightarrow> bytes list \<Rightarrow> Offsets list \<Rightarrow> bytes list
     \<Rightarrow> (bytes list \<times> bytes list \<times> Offsets list \<times> bytes list) io" where
  "buildKeys p pub i [] sks cks offs pubs w = (Inr (sks, cks, offs, pubs), w)"
| "buildKeys p pub i (hop # chain) sks cks offs pubs w =
     (if length (StaticPub hop) \<noteq> pub then (Inl ErrBadPublicKey, releaseKeys sks cks False w)
      else
        case GenerateEphemeral p w of
          (Inl e, w) \<Rightarrow> (Inl e, releaseKeys sks cks False w)
        | (Inr (ephPriv, ephPub), w) \<Rightarrow>
            (case setupContext p i (Link hop) (StaticPub hop) ephPub of
               Inl e \<Rightarrow> (Inl e, releaseKeys sks cks False (release w))
             | Inr ctx \<Rightarrow>
                 (case Agree p ephPriv (StaticPub hop) ctx w of
                    (Inl e, w) \<Rightarrow> (Inl e, releaseKeys sks cks False (release w))
                  | (Inr secret, w) \<Rightarrow>
                      (case DeriveKey p secret purposeSetup ctx (pKeySize p) (release w) of
                         (Inl e, w) \<Rightarrow> (Inl e, releaseKeys sks cks False (release w))
                       | (Inr sk, w) \<Rightarrow>
                           (case DeriveKey p secret purposeCell ctx (pKeySize p) w of
                              (Inl e, w) \<Rightarrow> (Inl e, releaseKeys (sks @ [sk]) cks False (release w))
                            | (Inr ck, w) \<Rightarrow>
                                (case deriveOffsets p secret ctx w of
                                   (Inl e, w) \<Rightarrow>
                                     (Inl e, releaseKeys (sks @ [sk]) (cks @ [ck]) False (release w))
                                 | (Inr off, w) \<Rightarrow>
                                     buildKeys p pub (Suc i) chain (sks @ [sk]) (cks @ [ck])
                                       (offs @ [off]) (pubs @ [ephPub]) (release w)))))))"

text \<open>What the layer of hop \<open>i\<close> seals: flag, next address, next identifier, the inner layers.\<close>

definition setupPlain :: "SetupHop list \<Rightarrow> Offsets list \<Rightarrow> nat \<Rightarrow> bytes \<Rightarrow> bytes result" where
  "setupPlain chain offs i body =
     (let hop = chain ! i;
          nxt = (if NextAddr hop \<noteq> [] then NextCircuit hop else firstForward (take i offs))
      in case putAddr (replicate AddrSize 0) (NextAddr hop) of
           Inl e \<Rightarrow> Inl e
         | Inr addr \<Rightarrow> Inr ([if NextAddr hop \<noteq> [] then 1 else 0] @ addr @ PutUint64 nxt @ body))"

text \<open>The second loop: the layers from hop \<open>i - 1\<close> down to hop 0.\<close>

fun buildLayers ::
  "provider \<Rightarrow> SetupHop list \<Rightarrow> bytes list \<Rightarrow> Offsets list \<Rightarrow> bytes list \<Rightarrow> nat \<Rightarrow> bytes \<Rightarrow> bytes result" where
  "buildLayers p chain sks offs pubs 0 body = Inr body"
| "buildLayers p chain sks offs pubs (Suc i) body =
     (case setupPlain chain offs i body of
        Inl e \<Rightarrow> Inl e
      | Inr plain \<Rightarrow>
          (case pNewAEAD p (sks ! i) of
             Inl e \<Rightarrow> Inl e
           | Inr a \<Rightarrow>
               (case nonceFor (NonceSize a) Forward (Link (chain ! i)) 0 of
                  Inl e \<Rightarrow> Inl e
                | Inr nonce \<Rightarrow>
                    buildLayers p chain sks offs pubs i
                      (pubs ! i @ aSeal a nonce plain (setupAAD i)))))"

definition BuildSetup :: "provider \<Rightarrow> SetupHop list \<Rightarrow> SetupResult io" where
  "BuildSetup p chain w =
     (if chain = [] then (Inl ErrEmptyChain, w)
      else
        case sizesOf p w of
          (Inl e, w) \<Rightarrow> (Inl e, w)
        | (Inr (pub, overhead), w) \<Rightarrow>
            let n = length chain; perHop = perHopCost pub overhead in
            if setupLayerLen n perHop < 0 then (Inl ErrSetupSize, w)
            else
              case buildKeys p pub 0 chain [] [] [] [] w of
                (Inl e, w) \<Rightarrow> (Inl e, w)
              | (Inr (sks, cks, offs, pubs), w) \<Rightarrow>
                  (case readFull (nat (setupLayerLen n perHop)) w of
                     (Inl e, w) \<Rightarrow> (Inl e, releaseKeys sks cks False w)
                   | (Inr body, w) \<Rightarrow>
                       (case buildLayers p chain sks offs pubs n body of
                          Inl e \<Rightarrow> (Inl e, releaseKeys sks cks False w)
                        | Inr body \<Rightarrow>
                            (case readTail BodySize (length body) w of
                               (Inl e, w) \<Rightarrow> (Inl e, releaseKeys sks cks False w)
                             | (Inr fill, w) \<Rightarrow>
                                 (case NewCell (mkHeader KindControl (Link (chain ! 0)) 0) (body @ fill) of
                                    Inl e \<Rightarrow> (Inl e, releaseKeys sks cks False w)
                                  | Inr cell \<Rightarrow>
                                      (Inr \<lparr>sr_Cell = cell, sr_CellKeys = cks, sr_Offsets = offs\<rparr>,
                                       releaseKeys sks cks True w))))))"

section \<open>Opening a layer and passing the rest on\<close>

record SetupLayer =
  sl_NextAddr :: bytes
  sl_NextCircuit :: u64
  sl_Inner :: bytes
  sl_CellKey :: bytes
  sl_Offsets :: Offsets
  sl_First :: u64
  sl_Tag :: SetupTag

text \<open>What \<^verbatim>\<open>OpenSetup\<close> reads out of the opened layer; an error releases the cell key.\<close>

definition readLayer :: "bytes \<Rightarrow> bytes \<Rightarrow> Offsets \<Rightarrow> SetupTag \<Rightarrow> SetupLayer io" where
  "readLayer plain cellKey off tag w =
     (if length plain < setupHdr then (Inl ErrFraming, release w)
      else
        let nxt = Uint64 (take 8 (drop (setupFlags + AddrSize) plain));
            out = \<lparr>sl_NextAddr = [], sl_NextCircuit = 0, sl_Inner = drop setupHdr plain,
                   sl_CellKey = cellKey, sl_Offsets = off, sl_First = 0, sl_Tag = tag\<rparr>
        in if plain ! 0 = 1 then
             (Inr (out\<lparr>sl_NextAddr := takeAddr (take AddrSize (drop setupFlags plain)),
                       sl_NextCircuit := nxt\<rparr>), w)
           else if nxt \<ge> counterLimit then (Inl ErrFraming, release w)
           else (Inr (out\<lparr>sl_First := nxt\<rparr>), w))"

definition openLayer ::
  "provider \<Rightarrow> bytes \<Rightarrow> bytes \<Rightarrow> bytes \<Rightarrow> Offsets \<Rightarrow> SetupTag \<Rightarrow> u64 \<Rightarrow> nat \<Rightarrow> SetupLayer io" where
  "openLayer p setupKey sealed cellKey off tag circuit index w =
     (case pNewAEAD p setupKey of
        Inl e \<Rightarrow> (Inl e, release w)
      | Inr a \<Rightarrow>
          (case nonceFor (NonceSize a) Forward circuit 0 of
             Inl e \<Rightarrow> (Inl e, release w)
           | Inr nonce \<Rightarrow>
               (case aOpen a nonce sealed (setupAAD index) of
                  Inl e \<Rightarrow> (Inl e, release w)
                | Inr plain \<Rightarrow> readLayer plain cellKey off tag w)))"

text \<open>
  The part of \<^verbatim>\<open>OpenSetup\<close> after the setup key: its \<^verbatim>\<open>defer\<close> is the release around the whole.
\<close>

definition openKeys ::
  "provider \<Rightarrow> bytes \<Rightarrow> bytes \<Rightarrow> bytes \<Rightarrow> Context \<Rightarrow> u64 \<Rightarrow> nat \<Rightarrow> SetupLayer io" where
  "openKeys p secret setupKey sealed ctx circuit index w =
     (case setupTag p secret ctx w of
        (Inl e, w) \<Rightarrow> (Inl e, release w)
      | (Inr tag, w) \<Rightarrow>
          (case DeriveKey p secret purposeCell ctx (pKeySize p) w of
             (Inl e, w) \<Rightarrow> (Inl e, release w)
           | (Inr cellKey, w) \<Rightarrow>
               (case deriveOffsets p secret ctx w of
                  (Inl e, w) \<Rightarrow> (Inl e, release (release w))
                | (Inr off, w) \<Rightarrow>
                    openLayer p setupKey sealed cellKey off tag circuit index (release w))))"

definition OpenSetup :: "provider \<Rightarrow> bytes \<Rightarrow> bytes \<Rightarrow> Cell \<Rightarrow> SetupLayer io" where
  "OpenSetup p staticPriv staticPub cell w =
     (case Cell_Header cell of
        Inl e \<Rightarrow> (Inl e, w)
      | Inr hdr \<Rightarrow>
          if hKind hdr \<noteq> KindControl then (Inl ErrNotSetup, w)
          else if hCounter hdr \<ge> word_of_nat MaxHops then (Inl ErrSetupSize, w)
          else
            let index = unat (hCounter hdr) in
            case sizesOf p w of
              (Inl e, w) \<Rightarrow> (Inl e, w)
            | (Inr (pubLen, overhead), w) \<Rightarrow>
                if length staticPub \<noteq> pubLen then (Inl ErrBadPublicKey, w)
                else
                  let perHop = perHopCost pubLen overhead; n = setupLayerLen index perHop in
                  if n \<le> int pubLen + overhead \<or> n > int BodySize then (Inl ErrSetupSize, w)
                  else
                    case slice_to (Cell_Body cell) n of
                      Inl e \<Rightarrow> (Inl e, w)
                    | Inr layer \<Rightarrow>
                        (case slice_to layer (int pubLen) of
                           Inl e \<Rightarrow> (Inl e, w)
                         | Inr ephPub \<Rightarrow>
                             (case setupContext p index (hCircuit hdr) staticPub ephPub of
                                Inl e \<Rightarrow> (Inl e, w)
                              | Inr ctx \<Rightarrow>
                                  (case Agree p staticPriv ephPub ctx w of
                                     (Inl e, w) \<Rightarrow> (Inl e, w)
                                   | (Inr secret, w) \<Rightarrow>
                                       (case DeriveKey p secret purposeSetup ctx (pKeySize p) w of
                                          (Inl e, w) \<Rightarrow> (Inl e, release w)
                                        | (Inr setupKey, w) \<Rightarrow>
                                            (case openKeys p secret setupKey (drop pubLen layer) ctx
                                                    (hCircuit hdr) index w of
                                               (r, w) \<Rightarrow> (r, release w)))))))"

definition ForwardSetup :: "SetupLayer \<Rightarrow> nat \<Rightarrow> Cell io" where
  "ForwardSetup layer index w =
     (case readTail BodySize (length (sl_Inner layer)) w of
        (Inl e, w) \<Rightarrow> (Inl e, w)
      | (Inr fill, w) \<Rightarrow>
          (NewCell (mkHeader KindControl (sl_NextCircuit layer) (word_of_nat (index + 1)))
             (sl_Inner layer @ fill), w))"

section \<open>Every buffer is accounted for\<close>

text \<open>\<open>grows k m\<close>: a call that succeeds leaves \<open>k\<close> more live buffers, one that fails leaves none.\<close>

definition grows :: "nat \<Rightarrow> 'a io \<Rightarrow> bool" where
  "grows k m \<longleftrightarrow> (\<forall>w r w'. m w = (r, w') \<longrightarrow> live w' = live w + (if isl r then 0 else k))"

lemma growsD: "grows k m \<Longrightarrow> m w = (r, w') \<Longrightarrow> live w' = live w + (if isl r then 0 else k)"
  by (simp add: grows_def)

lemma grows_Inr: "grows k m \<Longrightarrow> m w = (Inr x, w') \<Longrightarrow> live w' = live w + k"
  and grows_Inl: "grows k m \<Longrightarrow> m w = (Inl e, w') \<Longrightarrow> live w' = live w"
  by (auto dest: growsD)

lemma grows_newBuffer: "grows 1 (newBuffer r)"
  by (auto simp: grows_def newBuffer_def split: sum.splits if_splits)

lemma grows_Agree: "grows 1 (Agree p a b ctx)"
  and grows_DeriveKey: "grows 1 (DeriveKey p s pu ctx sz)"
  and grows_MixKey: "grows 1 (MixKey p s k ctx)"
  and grows_secmem_New: "grows 1 (secmem_New sz)"
  unfolding provider_calls [abs_def] secmem_New_def by (rule grows_newBuffer)+

lemma grows_readFull: "grows 0 (readFull n)"
  by (auto simp: grows_def readFull_def)

lemma grows_readTail: "grows 0 (readTail n m)"
  by (auto simp: grows_def readTail_def readFull_def)

lemma grows_GenerateEphemeral: "provider_ok p n ov \<Longrightarrow> grows 1 (GenerateEphemeral p)"
  using GenerateEphemeral_live by (fastforce simp: grows_def)

lemmas grows_calls = grows_newBuffer grows_Agree grows_DeriveKey grows_MixKey grows_secmem_New
  grows_readFull grows_readTail

lemma grows_deriveOffset: "grows 0 (deriveOffset p s pu ctx)"
  by (auto simp: grows_def deriveOffset_def dest!: growsD [OF grows_DeriveKey] split: prod.splits sum.splits)

lemma grows_deriveOffsets: "grows 0 (deriveOffsets p s ctx)"
  by (auto simp: grows_def deriveOffsets_def dest!: growsD [OF grows_deriveOffset] split: prod.splits sum.splits)

lemma grows_setupTag: "grows 0 (setupTag p s ctx)"
  by (auto simp: grows_def setupTag_def dest!: growsD [OF grows_DeriveKey] split: prod.splits sum.splits)

lemma grows_sizesOf:
  assumes "provider_ok p n ov"
  shows "grows 0 (sizesOf p)"
  by (auto simp: grows_def sizesOf_def Let_def dest!: growsD [OF grows_GenerateEphemeral [OF assms]]
      growsD [OF grows_secmem_New] split: prod.splits sum.splits option.splits)

lemma grows_PublicKeySize: "provider_ok p n ov \<Longrightarrow> grows 0 (PublicKeySize p)"
  by (auto simp: grows_def PublicKeySize_def dest!: growsD [OF grows_sizesOf] split: prod.splits sum.splits)

lemma live_releaseKeys:
  "live (releaseKeys sks cks built w) = live w - (length sks + (if built then 0 else length cks))"
proof -
  have "live ((release ^^ n) w) = live w - n" for n
    by (induction n) simp_all
  then show ?thesis by (simp add: releaseKeys_def)
qed

lemma live_buildKeys:
  assumes "provider_ok p n ov"
    and "buildKeys p pub i chain sks cks offs pubs w = (r, w')" "length sks = length cks"
    and "length sks + length cks \<le> live w"
  shows "case r of
      Inl e \<Rightarrow> live w' = live w - (length sks + length cks)
    | Inr (sks', cks', offs', pubs') \<Rightarrow> live w' = live w + 2 * length chain
        \<and> length sks' = length sks + length chain \<and> length cks' = length cks + length chain"
  using assms(2-)
proof (induction chain arbitrary: i sks cks offs pubs w)
  case Nil
  then show ?case by auto
next
  case (Cons hop chain)
  note facts = grows_Inl [OF grows_GenerateEphemeral [OF assms(1)]] grows_Inr [OF grows_GenerateEphemeral [OF assms(1)]]
    grows_Inl [OF grows_Agree] grows_Inr [OF grows_Agree] grows_Inl [OF grows_DeriveKey] grows_Inr [OF grows_DeriveKey]
    grows_Inl [OF grows_deriveOffsets] grows_Inr [OF grows_deriveOffsets]
  show ?case
    using Cons.prems
    apply (simp split: if_splits prod.splits sum.splits)
    subgoal by (auto simp: live_releaseKeys)
    subgoal by (auto simp: live_releaseKeys dest!: facts)
    subgoal by (auto simp: live_releaseKeys dest!: facts)
    subgoal by (auto simp: live_releaseKeys dest!: facts)
    subgoal by (auto simp: live_releaseKeys dest!: facts)
    subgoal by (auto simp: live_releaseKeys dest!: facts)
    subgoal by (auto simp: live_releaseKeys dest!: facts)
    subgoal using Cons.IH by (fastforce dest!: facts)
    done
qed

lemma live_BuildSetup:
  assumes "provider_ok p n ov" "BuildSetup p chain w = (r, w')"
  shows "live w' = live w + (if isl r then 0 else length chain)"
proof (cases "chain = []")
  case True
  then show ?thesis using assms(2) by (auto simp: BuildSetup_def)
next
  case False
  obtain s w1 where s: "sizesOf p w = (s, w1)" by (cases "sizesOf p w")
  then have w1: "live w1 = live w" using growsD [OF grows_sizesOf [OF assms(1)]] by fastforce
  show ?thesis
  proof (cases s)
    case (Inl e)
    then show ?thesis using assms(2) False s w1 by (auto simp: BuildSetup_def)
  next
    case (Inr sz)
    obtain pub ov' where sz: "sz = (pub, ov')" by (cases sz)
    obtain k w2 where k: "buildKeys p pub 0 chain [] [] [] [] w1 = (k, w2)"
      by (cases "buildKeys p pub 0 chain [] [] [] [] w1")
    note keys = live_buildKeys [OF assms(1) k]
    show ?thesis
      using assms(2) False s Inr sz k keys w1
      by (auto simp: BuildSetup_def Let_def live_releaseKeys dest!: growsD [OF grows_readFull]
          growsD [OF grows_readTail] split: if_splits prod.splits sum.splits)
  qed
qed

lemma live_readLayer: "readLayer plain ck off tag w = (r, w') \<Longrightarrow>
    live w' = (if isl r then live w - 1 else live w)"
  by (auto simp: readLayer_def Let_def split: if_splits)

lemma live_openLayer: "openLayer p sk sealed ck off tag circuit i w = (r, w') \<Longrightarrow>
    live w' = (if isl r then live w - 1 else live w)"
  by (auto simp: openLayer_def dest!: live_readLayer split: sum.splits)

lemma live_openKeys:
  assumes "openKeys p secret sk sealed ctx circuit i w = (r, w')" "live w > 0"
  shows "live w' = (if isl r then live w - 1 else live w)"
  using assms
  by (auto simp: openKeys_def dest!: live_openLayer growsD [OF grows_setupTag] growsD [OF grows_DeriveKey]
      growsD [OF grows_deriveOffsets] split: sum.splits prod.splits if_splits)

lemma live_OpenSetup:
  assumes "provider_ok p n ov" "OpenSetup p priv pub cell w = (r, w')"
  shows "live w' = live w + (if isl r then 0 else 1)"
  using assms(2)
  apply (simp add: OpenSetup_def Let_def split: sum.splits if_splits prod.splits)
  apply (auto dest!: live_openKeys growsD [OF grows_sizesOf [OF assms(1)]] growsD [OF grows_Agree]
      growsD [OF grows_DeriveKey])
  done

section \<open>The sizes of a suite\<close>

definition sizes_known :: "provider \<Rightarrow> nat \<Rightarrow> int \<Rightarrow> world \<Rightarrow> bool" where
  "sizes_known p n ov w \<longleftrightarrow> sizeCache w (pSuite p) \<in> {None, Some (n, ov)}"

lemma sizesOf_value:
  assumes ok: "provider_ok p n ov" and known: "sizes_known p n ov w" and s: "sizesOf p w = (Inr sz, w')"
  shows "sz = (n, ov)" "sizeCache w' (pSuite p) = Some (n, ov)"
proof -
  have pub: "length pub = n" if "GenerateEphemeral p w = (Inr (priv, pub), w1)" for priv pub w1
    using that provider_okD(5) [OF ok] by (auto simp: GenerateEphemeral_def is_pair_def)
  have "sz = (n, ov) \<and> sizeCache w' (pSuite p) = Some (n, ov)"
    using s known pub provider_okD(8) [OF ok]
    by (auto simp: sizesOf_def sizes_known_def Let_def split: option.splits prod.splits sum.splits)
  then show "sz = (n, ov)" "sizeCache w' (pSuite p) = Some (n, ov)" by auto
qed

lemma sizesOf_cached: "sizeCache w (pSuite p) = Some sz \<Longrightarrow> sizesOf p w = (Inr sz, w)"
  by (simp add: sizesOf_def)

section \<open>What the two loops build\<close>

text \<open>The keys of one hop all come from one agreement over the transcript of that hop.\<close>

definition offsets_from :: "provider \<Rightarrow> bytes \<Rightarrow> Context \<Rightarrow> Offsets \<Rightarrow> bool" where
  "offsets_from p secret ctx off \<longleftrightarrow>
     (\<exists>f b. pDeriveKey p secret purposeCounterForward ctx 8 = Inr f
        \<and> pDeriveKey p secret purposeCounterBackward ctx 8 = Inr b
        \<and> off = \<lparr>off_fwd = Uint64 f AND (counterLimit - 1), off_bwd = Uint64 b AND (counterLimit - 1)\<rparr>)"

definition hop_keys :: "provider \<Rightarrow> nat \<Rightarrow> SetupHop \<Rightarrow> bytes \<Rightarrow> bytes \<Rightarrow> bytes \<Rightarrow> Offsets \<Rightarrow> bool" where
  "hop_keys p i hop pub sk ck off \<longleftrightarrow>
     (\<exists>priv ctx secret. is_pair p priv pub
        \<and> setupContext p i (Link hop) (StaticPub hop) pub = Inr ctx
        \<and> pAgree p priv (StaticPub hop) ctx = Inr secret
        \<and> pDeriveKey p secret purposeSetup ctx (pKeySize p) = Inr sk
        \<and> pDeriveKey p secret purposeCell ctx (pKeySize p) = Inr ck
        \<and> offsets_from p secret ctx off)"

lemma deriveOffsets_Inr:
  "deriveOffsets p secret ctx w = (Inr off, w') \<Longrightarrow> offsets_from p secret ctx off"
  by (auto simp: deriveOffsets_def deriveOffset_def DeriveKey_def newBuffer_def offsets_from_def
      split: sum.splits prod.splits if_splits)

lemma deriveOffsets_ok:
  "offsets_from p secret ctx off \<Longrightarrow> live w < limit w \<Longrightarrow> deriveOffsets p secret ctx w = (Inr off, w)"
  by (auto simp: deriveOffsets_def deriveOffset_def DeriveKey_def newBuffer_def offsets_from_def)

lemma buildKeys_spec:
  assumes "buildKeys p pub i chain sks cks offs pubs w = (Inr (sks', cks', offs', pubs'), w')"
  shows "\<exists>S C F P. sks' = sks @ S \<and> cks' = cks @ C \<and> offs' = offs @ F \<and> pubs' = pubs @ P
    \<and> length S = length chain \<and> length C = length chain \<and> length F = length chain
    \<and> length P = length chain
    \<and> (\<forall>j < length chain. length (StaticPub (chain ! j)) = pub
         \<and> hop_keys p (i + j) (chain ! j) (P ! j) (S ! j) (C ! j) (F ! j))"
  using assms
proof (induction chain arbitrary: i sks cks offs pubs w)
  case Nil
  then show ?case by simp
next
  case (Cons hop chain)
  obtain priv ephPub ctx secret sk ck off w1 w2 w3 w4 w5 where
    steps: "length (StaticPub hop) = pub" "pEphemeral p w = (Inr (priv, ephPub), w1)"
      "setupContext p i (Link hop) (StaticPub hop) ephPub = Inr ctx"
      "Agree p priv (StaticPub hop) ctx w1 = (Inr secret, w2)"
      "DeriveKey p secret purposeSetup ctx (pKeySize p) (release w2) = (Inr sk, w3)"
      "DeriveKey p secret purposeCell ctx (pKeySize p) w3 = (Inr ck, w4)"
      "deriveOffsets p secret ctx w4 = (Inr off, w5)"
    and rest: "buildKeys p pub (Suc i) chain (sks @ [sk]) (cks @ [ck]) (offs @ [off]) (pubs @ [ephPub])
        (release w5) = (Inr (sks', cks', offs', pubs'), w')"
    using Cons.prems by (auto simp: GenerateEphemeral_def split: if_splits sum.splits prod.splits)
  have hop: "hop_keys p i hop ephPub sk ck off"
    using steps deriveOffsets_Inr [OF steps(7)]
    by (auto simp: hop_keys_def is_pair_def Agree_def DeriveKey_def newBuffer_Inr)
  obtain S C F P where IH: "sks' = (sks @ [sk]) @ S" "cks' = (cks @ [ck]) @ C"
      "offs' = (offs @ [off]) @ F" "pubs' = (pubs @ [ephPub]) @ P"
      "length S = length chain" "length C = length chain" "length F = length chain" "length P = length chain"
      "\<forall>j < length chain. length (StaticPub (chain ! j)) = pub
         \<and> hop_keys p (Suc i + j) (chain ! j) (P ! j) (S ! j) (C ! j) (F ! j)"
    using Cons.IH [OF rest] by blast
  have "length (StaticPub ((hop # chain) ! j)) = pub \<and>
      hop_keys p (i + j) ((hop # chain) ! j) ((ephPub # P) ! j) ((sk # S) ! j) ((ck # C) ! j) ((off # F) ! j)"
    if "j < length (hop # chain)" for j
    using that hop steps(1) IH(9) by (cases j) auto
  then show ?case
    using IH by (intro exI [of _ "sk # S"] exI [of _ "ck # C"] exI [of _ "off # F"] exI [of _ "ephPub # P"]) simp
qed

text \<open>The layer of hop \<open>i\<close> wraps the layer of the next hop.\<close>

definition wraps :: "provider \<Rightarrow> SetupHop list \<Rightarrow> bytes list \<Rightarrow> Offsets list \<Rightarrow> bytes list \<Rightarrow> nat \<Rightarrow> bytes \<Rightarrow> bytes \<Rightarrow> bool" where
  "wraps p chain sks offs pubs i inner outer \<longleftrightarrow>
     (\<exists>plain a nonce. setupPlain chain offs i inner = Inr plain \<and> pNewAEAD p (sks ! i) = Inr a
        \<and> nonceFor (NonceSize a) Forward (Link (chain ! i)) 0 = Inr nonce
        \<and> outer = pubs ! i @ aSeal a nonce plain (setupAAD i))"

lemma buildLayers_spec:
  assumes "buildLayers p chain sks offs pubs n body = Inr out"
  shows "\<exists>Ls. Ls n = body \<and> Ls 0 = out \<and> (\<forall>i < n. wraps p chain sks offs pubs i (Ls (Suc i)) (Ls i))"
  using assms
proof (induction n arbitrary: body)
  case 0
  then show ?case by auto
next
  case (Suc n)
  obtain outer where outer: "wraps p chain sks offs pubs n body outer"
    "buildLayers p chain sks offs pubs n outer = Inr out"
    using Suc.prems by (auto simp: wraps_def split: sum.splits)
  obtain Ls where Ls: "Ls n = outer" "Ls 0 = out" "\<forall>i < n. wraps p chain sks offs pubs i (Ls (Suc i)) (Ls i)"
    using Suc.IH [OF outer(2)] by blast
  then show ?case
    using outer(1) by (intro exI [of _ "Ls(Suc n := body)"]) (auto simp: less_Suc_eq)
qed

lemma setupPlain_length: "setupPlain chain offs i body = Inr plain \<Longrightarrow> length plain = setupHdr + length body"
  by (auto simp: setupPlain_def Let_def putAddr_def setupHdr_def setupFlags_def AddrSize_def
      split: sum.splits if_splits)

lemma wraps_length:
  assumes "wraps p chain sks offs pubs i inner outer" "provider_ok p n ov" "length (pubs ! i) = n"
  shows "int (length outer) = int (length inner) + perHopCost n ov"
  using assms provider_okD(8) [OF assms(2)]
  by (auto simp: wraps_def perHopCost_def aead_seal_length setupPlain_length)

lemma layers_length:
  assumes "\<forall>i < n. wraps p chain sks offs pubs i (Ls (Suc i)) (Ls i)" "provider_ok p m ov"
    and "\<forall>i < n. length (pubs ! i) = m" "int (length (Ls n)) = setupLayerLen n (perHopCost m ov)" "i \<le> n"
  shows "int (length (Ls i)) = setupLayerLen i (perHopCost m ov)"
  using assms(5)
proof (induction rule: inc_induct)
  case base
  then show ?case by (rule assms(4))
next
  case (step i)
  then show ?case
    using wraps_length [OF assms(1) [rule_format, of i] assms(2)] assms(3)
    by (simp add: setupLayerLen_def algebra_simps)
qed

section \<open>Opening what was built\<close>

definition no_trailing_zero :: "bytes \<Rightarrow> bool" where
  "no_trailing_zero addr \<longleftrightarrow> addr = [] \<or> last addr \<noteq> 0"

lemma takeAddr_pad: "no_trailing_zero addr \<Longrightarrow> takeAddr (addr @ replicate k 0) = addr"
proof -
  assume addr: "no_trailing_zero addr"
  have "dropWhile (\<lambda>b. b = 0) (replicate k 0 @ rev addr) = dropWhile (\<lambda>b. b = 0) (rev addr)"
    by (induction k) simp_all
  moreover have "dropWhile (\<lambda>b. b = 0) (rev addr) = rev addr"
    using addr by (cases addr rule: rev_cases) (auto simp: no_trailing_zero_def)
  ultimately show ?thesis by (simp add: takeAddr_def)
qed

definition layer_for :: "SetupHop \<Rightarrow> bytes \<Rightarrow> Offsets \<Rightarrow> u64 \<Rightarrow> bytes \<Rightarrow> SetupLayer \<Rightarrow> bool" where
  "layer_for hop ck off first inner l \<longleftrightarrow>
     sl_CellKey l = ck \<and> sl_Offsets l = off \<and> sl_Inner l = inner \<and> sl_NextAddr l = NextAddr hop
     \<and> (NextAddr hop \<noteq> [] \<longrightarrow> sl_NextCircuit l = NextCircuit hop)
     \<and> (NextAddr hop = [] \<longrightarrow> sl_First l = first)"

lemma firstForward_less: "firstForward offs < counterLimit"
proof (cases offs rule: rev_cases)
  case Nil
  then show ?thesis by (simp add: firstForward_def counterLimit_val word_less_nat_alt)
next
  case (snoc xs x)
  then show ?thesis by (simp add: firstForward_def link.ok_add)
qed

lemma readLayer_setupPlain:
  assumes "setupPlain chain offs i inner = Inr plain" "no_trailing_zero (NextAddr (chain ! i))"
  obtains l where "readLayer plain ck off tag w = (Inr l, w)"
    "layer_for (chain ! i) ck off (firstForward (take i offs)) inner l"
proof -
  let ?hop = "chain ! i"
  let ?nxt = "if NextAddr ?hop \<noteq> [] then NextCircuit ?hop else firstForward (take i offs)"
  let ?addr = "NextAddr ?hop @ replicate (AddrSize - length (NextAddr ?hop)) 0"
  have le: "length (NextAddr ?hop) \<le> AddrSize"
    and plain: "plain = [if NextAddr ?hop \<noteq> [] then 1 else 0] @ ?addr @ PutUint64 ?nxt @ inner"
    using assms(1) by (auto simp: setupPlain_def Let_def putAddr_def copy_def split: if_splits)
  have len: "length ?addr = AddrSize" using le by simp
  have nxt: "Uint64 (take 8 (drop (setupFlags + AddrSize) plain)) = ?nxt"
    using len by (simp add: plain setupFlags_def u64.take_put codec)
  have addr: "take AddrSize (drop setupFlags plain) = ?addr"
    using len by (simp add: plain setupFlags_def)
  have inner: "drop setupHdr plain = inner" "\<not> length plain < setupHdr"
    using len by (simp_all add: plain setupHdr_def setupFlags_def AddrSize_def)
  have flag: "plain ! 0 = (if NextAddr ?hop \<noteq> [] then 1 else 0)"
    by (simp add: plain)
  show ?thesis
  proof (cases "NextAddr ?hop = []")
    case True
    then show ?thesis
      using that inner nxt flag firstForward_less [of "take i offs"]
      by (simp add: readLayer_def Let_def layer_for_def not_le)
  next
    case False
    then show ?thesis
      using that inner nxt flag addr takeAddr_pad [OF assms(2)]
      by (simp add: readLayer_def Let_def layer_for_def)
  qed
qed

lemma DeriveKey_ok: "pDeriveKey p s pu ctx sz = Inr k \<Longrightarrow> live w < limit w \<Longrightarrow>
    DeriveKey p s pu ctx sz w = (Inr k, allocate w)"
  by (simp add: DeriveKey_def newBuffer_def)

lemma derive_purposeReplay: "knownSuite s \<Longrightarrow> \<not> isl (DeriveLabel s purposeReplay)"
  unfolding knownSuite_def by (elim disjE; hypsubst; code_simp)

lemma setupTag_ok:
  assumes "provider_ok p n ov" "pDeriveKey p secret pu ctx sz = Inr k" "live w < limit w"
  obtains tag where "setupTag p secret ctx w = (Inr tag, w)"
proof -
  have "\<not> isl (pDeriveKey p secret purposeReplay ctx 16)"
    using provider_okD(1,9,10) [OF assms(1)] derive_purposeReplay assms(2)
    unfolding derives_any_def by (metis isl_def sum.disc(2) zero_less_numeral)
  then obtain b where "pDeriveKey p secret purposeReplay ctx 16 = Inr b"
    by (cases "pDeriveKey p secret purposeReplay ctx 16") auto
  then show ?thesis
    using that assms(3) by (simp add: setupTag_def DeriveKey_ok)
qed

lemma openKeys_ok:
  assumes ok: "provider_ok p n ov"
    and keys: "pDeriveKey p secret purposeSetup ctx (pKeySize p) = Inr sk"
      "pDeriveKey p secret purposeCell ctx (pKeySize p) = Inr ck" "offsets_from p secret ctx off"
    and a: "pNewAEAD p sk = Inr a" "nonceFor (NonceSize a) Forward (Link (chain ! i)) 0 = Inr nonce"
    and plain: "setupPlain chain offs i inner = Inr plain" "no_trailing_zero (NextAddr (chain ! i))"
    and room: "live w + 2 \<le> limit w" "0 < live w"
  obtains l where "openKeys p secret sk (aSeal a nonce plain (setupAAD i)) ctx (Link (chain ! i)) i w = (Inr l, w)"
    "layer_for (chain ! i) ck off (firstForward (take i offs)) inner l"
proof -
  have nonce: "nonce_ok a nonce"
    using nonceFor_aead [of a 0 Forward] provider_okD(8) [OF ok a(1)] a(2)
    by (metis Inr_inject nonceFor_Inr)
  obtain tag where tag: "setupTag p secret ctx w = (Inr tag, w)"
    using setupTag_ok [OF ok keys(1), of w] room by fastforce
  obtain l where l: "readLayer plain ck off tag w = (Inr l, w)"
    "layer_for (chain ! i) ck off (firstForward (take i offs)) inner l"
    by (rule readLayer_setupPlain [OF plain])
  have "openLayer p sk (aSeal a nonce plain (setupAAD i)) ck off tag (Link (chain ! i)) i w = (Inr l, w)"
    using a l(1) aead_open_seal provider_okD(8) [OF ok a(1)] nonce by (simp add: openLayer_def)
  then have "openKeys p secret sk (aSeal a nonce plain (setupAAD i)) ctx (Link (chain ! i)) i w = (Inr l, w)"
    using tag room by (simp add: openKeys_def DeriveKey_ok [OF keys(2)] deriveOffsets_ok [OF keys(3)])
  then show ?thesis using that l(2) by blast
qed

text \<open>A setup cell on the link into hop \<open>i\<close> whose body starts with \<open>layer\<close>.\<close>

definition carries_setup :: "Cell \<Rightarrow> u64 \<Rightarrow> nat \<Rightarrow> bytes \<Rightarrow> bool" where
  "carries_setup cell lnk i layer \<longleftrightarrow>
     Cell_Header cell = Inr \<lparr>hVersion = Version, hKind = KindControl, hCircuit = lnk, hCounter = word_of_nat i\<rparr>
     \<and> length (Cell_Body cell) = BodySize \<and> take (length layer) (Cell_Body cell) = layer"

lemma NewCell_carries_setup:
  assumes "length (layer @ fill) = BodySize"
  obtains cell where "NewCell (mkHeader KindControl lnk (word_of_nat i)) (layer @ fill) = Inr cell"
    "carries_setup cell lnk i layer"
proof -
  let ?h = "mkHeader KindControl lnk (word_of_nat i)"
  obtain cell where cell: "NewCell ?h (layer @ fill) = Inr cell"
    using assms by (simp add: NewCell_def Kind_valid_def)
  moreover have "Cell_Header cell = Inr (?h\<lparr>hVersion := Version\<rparr>)" "Cell_Body cell = layer @ fill"
    using Cell_Header_NewCell [OF cell] Cell_Body_NewCell [OF cell] by auto
  ultimately show ?thesis
    using that assms by (simp add: carries_setup_def mkHeader_def)
qed

lemma perHopCost_pos: "provider_ok p n ov \<Longrightarrow> pNewAEAD p k = Inr a \<Longrightarrow> int n + ov < perHopCost n ov \<and> 73 < perHopCost n ov"
  using provider_okD(2,8) [of p n ov] aead_overhead [of a]
  by (auto simp: perHopCost_def setupHdr_def setupFlags_def AddrSize_def)

lemma OpenSetup_ok:
  assumes ok: "provider_ok p n ov" and cached: "sizeCache w (pSuite p) = Some (n, ov)"
    and hop: "hop_keys p i (chain ! i) (pubs ! i) (sks ! i) ck off" "length (StaticPub (chain ! i)) = n"
    and pair: "is_pair p priv (StaticPub (chain ! i))"
    and wraps: "wraps p chain sks offs pubs i inner layer"
    and len: "int (length layer) = setupLayerLen i (perHopCost n ov)" "i < MaxHops"
    and addr: "no_trailing_zero (NextAddr (chain ! i))"
    and cell: "carries_setup cell (Link (chain ! i)) i layer" and room: "live w + 4 \<le> limit w"
  obtains l where "OpenSetup p priv (StaticPub (chain ! i)) cell w = (Inr l, allocate w)"
    "layer_for (chain ! i) ck off (firstForward (take i offs)) inner l"
proof -
  obtain plain a nonce where w: "setupPlain chain offs i inner = Inr plain" "pNewAEAD p (sks ! i) = Inr a"
    "nonceFor (NonceSize a) Forward (Link (chain ! i)) 0 = Inr nonce"
    "layer = pubs ! i @ aSeal a nonce plain (setupAAD i)"
    using wraps by (auto simp: wraps_def)
  obtain e ctx secret where k: "is_pair p e (pubs ! i)"
    "setupContext p i (Link (chain ! i)) (StaticPub (chain ! i)) (pubs ! i) = Inr ctx"
    "pAgree p e (StaticPub (chain ! i)) ctx = Inr secret"
    "pDeriveKey p secret purposeSetup ctx (pKeySize p) = Inr (sks ! i)"
    "pDeriveKey p secret purposeCell ctx (pKeySize p) = Inr ck" "offsets_from p secret ctx off"
    using hop by (auto simp: hop_keys_def)
  have pub: "length (pubs ! i) = n" and agree: "pAgree p priv (pubs ! i) ctx = Inr secret"
    using provider_okD(5) [OF ok k(1)] provider_okD(6) [OF ok k(1) pair, of ctx] k(3) by simp_all
  have i: "unat (word_of_nat i :: u64) = i" "\<not> word_of_nat MaxHops \<le> (word_of_nat i :: u64)"
    using len(2) by (simp_all add: MaxHops_def unat_of_nat word_le_nat_alt)
  have ovpos: "ov > 0" using provider_okD(8) [OF ok w(2)] aead_overhead by auto
  have "0 \<le> int i * perHopCost n ov"
    using perHopCost_pos [OF ok w(2)] by (intro mult_nonneg_nonneg) simp_all
  then have L2: "\<not> setupLayerLen i (perHopCost n ov) > int BodySize"
    unfolding setupLayerLen_def by linarith
  have "int (length layer) = int n + (int (length plain) + ov)" "0 < length plain"
    using w(4) pub setupPlain_length [OF w(1)] provider_okD(8) [OF ok w(2)] aead_seal_length [of a nonce plain]
    by (simp_all add: setupHdr_def setupFlags_def)
  with len(1) L2 have L: "\<not> setupLayerLen i (perHopCost n ov) \<le> int n + ov"
      "\<not> setupLayerLen i (perHopCost n ov) > int BodySize"
    by linarith+
  have lenB: "length (Cell_Body cell) = BodySize" "take (length layer) (Cell_Body cell) = layer"
    using cell by (simp_all add: carries_setup_def)
  have slice: "slice_to (Cell_Body cell) (setupLayerLen i (perHopCost n ov)) = Inr layer"
    using slice_to_nat [of "length layer" "Cell_Body cell"] lenB len(1) L(2) by simp
  have eph: "slice_to layer (int n) = Inr (pubs ! i)" "drop n layer = aSeal a nonce plain (setupAAD i)"
    using slice_to_nat [of n layer] pub w(4) by auto
  let ?w = "allocate (allocate w)"
  obtain l where l: "openKeys p secret (sks ! i) (aSeal a nonce plain (setupAAD i)) ctx (Link (chain ! i)) i ?w = (Inr l, ?w)"
    "layer_for (chain ! i) ck off (firstForward (take i offs)) inner l"
    by (rule openKeys_ok [OF ok k(4-6) w(2,3,1) addr, of ?w]) (use room in simp_all)
  have "OpenSetup p priv (StaticPub (chain ! i)) cell w = (Inr l, allocate w)"
    using cell i L slice eph k(2) agree l(1) hop(2) room
    by (simp add: OpenSetup_def carries_setup_def sizesOf_cached [OF cached] Agree_def newBuffer_def
        DeriveKey_ok [OF k(4)])
  then show ?thesis using that l(2) by blast
qed

section \<open>Along the chain\<close>

text \<open>
  Each relay opens its layer with its own key and passes the rest on to the next, the way
  \<^verbatim>\<open>relay.setup\<close> and \<^verbatim>\<open>relay.extend\<close> do; the last one keeps it.
\<close>

fun open_chain :: "provider \<Rightarrow> (bytes \<times> bytes) list \<Rightarrow> nat \<Rightarrow> Cell \<Rightarrow> SetupLayer list io" where
  "open_chain p [] i cell w = (Inr [], w)"
| "open_chain p ((priv, pub) # ks) i cell w =
     (case OpenSetup p priv pub cell w of
        (Inl e, w) \<Rightarrow> (Inl e, w)
      | (Inr l, w) \<Rightarrow>
          if ks = [] then (Inr [l], w)
          else
            case ForwardSetup l i w of
              (Inl e, w) \<Rightarrow> (Inl e, w)
            | (Inr cell, w) \<Rightarrow>
                (case open_chain p ks (Suc i) cell w of
                   (Inl e, w) \<Rightarrow> (Inl e, w)
                 | (Inr ls, w) \<Rightarrow> (Inr (l # ls), w)))"

text \<open>A chain as the client chooses it: every hop but the last names the next one and its link.\<close>

definition wf_chain :: "SetupHop list \<Rightarrow> bool" where
  "wf_chain chain \<longleftrightarrow> chain \<noteq> [] \<and> NextAddr (last chain) = []
     \<and> (\<forall>i. Suc i < length chain \<longrightarrow> NextAddr (chain ! i) \<noteq> [] \<and> no_trailing_zero (NextAddr (chain ! i))
          \<and> NextCircuit (chain ! i) = Link (chain ! Suc i))"

lemma wf_chain_addr: "wf_chain chain \<Longrightarrow> i < length chain \<Longrightarrow> no_trailing_zero (NextAddr (chain ! i))"
proof (cases "Suc i < length chain")
  case False
  assume "wf_chain chain" "i < length chain"
  moreover from this False have "chain ! i = last chain"
    by (metis Suc_lessI diff_Suc_1 last_conv_nth wf_chain_def)
  ultimately show ?thesis by (simp add: wf_chain_def no_trailing_zero_def)
qed (simp add: wf_chain_def)

lemma ForwardSetup_ok:
  assumes "length (sl_Inner l) \<le> BodySize" "BodySize \<le> length (rnd w)"
  obtains cell w' where "ForwardSetup l i w = (Inr cell, w')"
    "carries_setup cell (sl_NextCircuit l) (Suc i) (sl_Inner l)"
    "live w' = live w" "limit w' = limit w" "sizeCache w' = sizeCache w"
    "length (rnd w) \<le> BodySize + length (rnd w')"
proof -
  let ?fill = "take (BodySize - length (sl_Inner l)) (rnd w)"
  have "length (sl_Inner l @ ?fill) = BodySize" using assms by simp
  then obtain cell where "NewCell (mkHeader KindControl (sl_NextCircuit l) (word_of_nat (Suc i))) (sl_Inner l @ ?fill) = Inr cell"
    "carries_setup cell (sl_NextCircuit l) (Suc i) (sl_Inner l)"
    by (rule NewCell_carries_setup)
  then show ?thesis
    using that assms by (simp add: ForwardSetup_def readTail_ok)
qed

text \<open>What the client holds after a build, and the layers of its cell.\<close>

definition built :: "provider \<Rightarrow> nat \<Rightarrow> int \<Rightarrow> SetupHop list \<Rightarrow> bytes list \<Rightarrow> bytes list \<Rightarrow> Offsets list
    \<Rightarrow> bytes list \<Rightarrow> (nat \<Rightarrow> bytes) \<Rightarrow> bool" where
  "built p n ov chain sks cks offs pubs Ls \<longleftrightarrow>
     provider_ok p n ov \<and> wf_chain chain \<and> length cks = length chain \<and> length offs = length chain \<and>
     (\<forall>i < length chain. i < MaxHops \<and> length (StaticPub (chain ! i)) = n
        \<and> hop_keys p i (chain ! i) (pubs ! i) (sks ! i) (cks ! i) (offs ! i)
        \<and> wraps p chain sks offs pubs i (Ls (Suc i)) (Ls i)
        \<and> int (length (Ls i)) = setupLayerLen i (perHopCost n ov))"

lemma built_inner_length:
  assumes "built p n ov chain sks cks offs pubs Ls" "Suc i < length chain"
  shows "length (Ls (Suc i)) \<le> BodySize"
proof -
  have "provider_ok p n ov" and i: "Suc i < length chain"
    using assms by (simp_all add: built_def)
  moreover obtain a where "pNewAEAD p (sks ! i) = Inr a"
    using assms by (auto simp: built_def wraps_def dest: Suc_lessD)
  ultimately have "0 \<le> int (Suc i) * perHopCost n ov"
    using perHopCost_pos by (intro mult_nonneg_nonneg) fastforce+
  moreover have "int (length (Ls (Suc i))) = setupLayerLen (Suc i) (perHopCost n ov)"
    using assms by (simp add: built_def)
  ultimately show ?thesis unfolding setupLayerLen_def by linarith
qed

lemma open_chain_ok:
  assumes b: "built p n ov chain sks cks offs pubs Ls"
    and pairs: "length ks = length chain" "\<And>j. j < length chain \<Longrightarrow>
      snd (ks ! j) = StaticPub (chain ! j) \<and> is_pair p (fst (ks ! j)) (snd (ks ! j))"
    and "i < length chain" "carries_setup cell (Link (chain ! i)) i (Ls i)"
    and "sizeCache w (pSuite p) = Some (n, ov)" "live w + (length chain - i) + 4 \<le> limit w"
    and "(length chain - i) * BodySize \<le> length (rnd w)"
  shows "\<exists>ls w'. open_chain p (drop i ks) i cell w = (Inr ls, w') \<and> live w' = live w + (length chain - i)
    \<and> list_all2 (\<lambda>j l. layer_for (chain ! j) (cks ! j) (offs ! j) (firstForward (take j offs)) (Ls (Suc j)) l)
        [i..<length chain] ls"
  using assms(4-)
proof (induction "length chain - i" arbitrary: i cell w)
  case 0
  then show ?case by simp
next
  case (Suc k)
  obtain priv pub where k: "ks ! i = (priv, pub)" by (cases "ks ! i")
  have ks: "drop i ks = (priv, StaticPub (chain ! i)) # drop (Suc i) ks" "is_pair p priv (StaticPub (chain ! i))"
    using pairs(1) pairs(2) [OF Suc.prems(1)] Suc.prems(1) k Cons_nth_drop_Suc [of i ks] by auto
  have hop: "provider_ok p n ov" "hop_keys p i (chain ! i) (pubs ! i) (sks ! i) (cks ! i) (offs ! i)"
    "length (StaticPub (chain ! i)) = n" "wraps p chain sks offs pubs i (Ls (Suc i)) (Ls i)"
    "int (length (Ls i)) = setupLayerLen i (perHopCost n ov)" "i < MaxHops" "wf_chain chain"
    using b Suc.prems(1) by (simp_all add: built_def)
  have room: "live w + 4 \<le> limit w" using Suc.prems(4) by simp
  obtain l where l: "OpenSetup p priv (StaticPub (chain ! i)) cell w = (Inr l, allocate w)"
    "layer_for (chain ! i) (cks ! i) (offs ! i) (firstForward (take i offs)) (Ls (Suc i)) l"
    by (rule OpenSetup_ok [OF hop(1) Suc.prems(3) hop(2,3) ks(2) hop(4,5,6)
          wf_chain_addr [OF hop(7) Suc.prems(1)] Suc.prems(2) room])
  have upt: "[i..<length chain] = i # [Suc i..<length chain]"
    using Suc.prems(1) by (simp add: upt_conv_Cons)
  show ?case
  proof (cases "Suc i < length chain")
    case False
    then have "drop (Suc i) ks = []" "length chain - i = 1" "[Suc i..<length chain] = []"
      using pairs(1) Suc.prems(1) by auto
    then show ?thesis using l ks(1) upt by simp
  next
    case True
    have inner: "sl_Inner l = Ls (Suc i)" "sl_NextCircuit l = Link (chain ! Suc i)"
      using l(2) hop(7) True by (auto simp: layer_for_def wf_chain_def)
    have fits: "length (sl_Inner l) \<le> BodySize" and rnd: "BodySize \<le> length (rnd (allocate w))"
      using built_inner_length [OF b True] inner(1) Suc.prems(5) Suc.hyps(2) [symmetric] by simp_all
    obtain cell' w' where f: "ForwardSetup l i (allocate w) = (Inr cell', w')"
      "carries_setup cell' (sl_NextCircuit l) (Suc i) (sl_Inner l)"
      "live w' = live (allocate w)" "limit w' = limit (allocate w)" "sizeCache w' = sizeCache (allocate w)"
      "length (rnd (allocate w)) \<le> BodySize + length (rnd w')"
      by (rule ForwardSetup_ok [OF fits rnd])
    have "k * BodySize \<le> length (rnd w')"
      using f(6) Suc.prems(5) Suc.hyps(2) [symmetric] by simp
    moreover have "live w' + (length chain - Suc i) + 4 \<le> limit w'"
      using f(3,4) Suc.prems(4) True by simp
    moreover have "k = length chain - Suc i" using Suc.hyps(2) by simp
    ultimately obtain ls w2 where ls: "open_chain p (drop (Suc i) ks) (Suc i) cell' w' = (Inr ls, w2)"
      "live w2 = live w' + (length chain - Suc i)"
      "list_all2 (\<lambda>j l. layer_for (chain ! j) (cks ! j) (offs ! j) (firstForward (take j offs)) (Ls (Suc j)) l)
        [Suc i..<length chain] ls"
      using Suc.hyps(1) [of "Suc i" cell' w'] True f(2,5) inner Suc.prems(3) by auto
    moreover have "drop (Suc i) ks \<noteq> []" using True pairs(1) by simp
    ultimately show ?thesis
      using l f(1,3) ks(1) upt True by auto
  qed
qed

section \<open>A setup that fits is built\<close>

lemma setup_purposes:
  "knownSuite s \<Longrightarrow> pu \<in> {purposeSetup, purposeCell, purposeCounterForward, purposeCounterBackward} \<Longrightarrow>
     \<not> isl (DeriveLabel s pu)"
  unfolding knownSuite_def by (elim disjE insertE emptyE; hypsubst; code_simp)

lemma setupContext_ok:
  assumes "provider_ok p n ov" "length pub = n" "length eph = n"
  obtains ctx where "setupContext p i lnk pub eph = Inr ctx" "Context_Valid ctx" "ctx_suite ctx = pSuite p"
proof -
  have "validName exchangeSetup" by code_simp
  moreover have "pub \<noteq> []" "eph \<noteq> []" using assms(2,3) provider_okD(2) [OF assms(1)] by auto
  moreover have "length (PutUint64 lnk) = 8" by simp
  then have "PutUint64 lnk \<noteq> []" by (metis length_0_conv zero_neq_numeral)
  ultimately show ?thesis
    using that assms provider_okD(1,2,3,4) [OF assms(1)]
    by (simp add: setupContext_def newContext_def NewContext_def TranscriptBytes_def badPart_def maxParts_def
        maxPartSize_def Context_Valid_def)
qed

lemma is_pair_pEphemeral: "pEphemeral p w = (Inr (a, A), w') \<Longrightarrow> is_pair p a A"
  by (auto simp: is_pair_def)

lemma derive_all:
  assumes ok: "provider_ok p n ov" and s: "\<not> isl (pDeriveKey p s ''cell'' ctx (pKeySize p))"
  obtains sk ck f b where "pDeriveKey p s purposeSetup ctx (pKeySize p) = Inr sk"
    "pDeriveKey p s purposeCell ctx (pKeySize p) = Inr ck" "offsets_from p s ctx
       \<lparr>off_fwd = Uint64 f AND (counterLimit - 1), off_bwd = Uint64 b AND (counterLimit - 1)\<rparr>"
proof -
  have any: "\<not> isl (pDeriveKey p s pu ctx sz)"
    if "pu \<in> {purposeSetup, purposeCell, purposeCounterForward, purposeCounterBackward}" "0 < sz" "sz \<le> pKeySize p"
    for pu sz
    using provider_okD(10) [OF ok] setup_purposes [OF provider_okD(1) [OF ok] that(1)] s that(2,3)
    unfolding derives_any_def by blast
  have "pKeySize p \<ge> 16" using provider_okD(9) [OF ok] .
  then obtain sk ck f b where "pDeriveKey p s purposeSetup ctx (pKeySize p) = Inr sk"
    "pDeriveKey p s purposeCell ctx (pKeySize p) = Inr ck"
    "pDeriveKey p s purposeCounterForward ctx 8 = Inr f" "pDeriveKey p s purposeCounterBackward ctx 8 = Inr b"
    using any [of purposeSetup "pKeySize p"] any [of purposeCell "pKeySize p"] any [of purposeCounterForward 8]
      any [of purposeCounterBackward 8]
    by (auto simp: isl_def) (metis obj_sumE)
  then show ?thesis using that by (auto simp: offsets_from_def)
qed

lemma buildKeys_total:
  assumes ok: "provider_ok p n ov" "provider_total p eb"
    and "\<forall>hop \<in> set chain. \<exists>priv. is_pair p priv (StaticPub hop)"
    and "live w + 2 * length chain + 4 \<le> limit w" "length chain * eb + m \<le> length (rnd w)"
  shows "\<exists>r w'. buildKeys p n i chain sks cks offs pubs w = (Inr r, w') \<and> m \<le> length (rnd w') \<and> limit w' = limit w"
  using assms(3-)
proof (induction chain arbitrary: i sks cks offs pubs w)
  case Nil
  then show ?case by simp
next
  case (Cons hop chain)
  obtain priv where priv: "is_pair p priv (StaticPub hop)" using Cons.prems by auto
  have pub: "length (StaticPub hop) = n" using provider_okD(5) [OF ok(1) priv] .
  have start: "live w < limit w" "eb \<le> length (rnd w)" using Cons.prems(2,3) by simp_all
  obtain a A w1 where e: "pEphemeral p w = (Inr (a, A), w1)" "length (rnd w) \<le> eb + length (rnd w1)"
    using ok(2) start unfolding provider_total_def by blast
  have w1: "live w1 = live w + 1" "limit w1 = limit w"
    using GenerateEphemeral_live [OF ok(1)] e(1) by (fastforce simp: GenerateEphemeral_def)+
  note A = is_pair_pEphemeral [OF e(1)]
  obtain ctx where ctx: "setupContext p i (Link hop) (StaticPub hop) A = Inr ctx" "Context_Valid ctx"
    "ctx_suite ctx = pSuite p"
    using setupContext_ok [OF ok(1) pub provider_okD(5) [OF ok(1) A]] by metis
  obtain s where s: "pAgree p a (StaticPub hop) ctx = Inr s" "\<not> isl (pDeriveKey p s ''cell'' ctx (pKeySize p))"
    using ok(2) A priv ctx(2,3) unfolding provider_total_def by blast
  obtain sk ck f b where k: "pDeriveKey p s purposeSetup ctx (pKeySize p) = Inr sk"
    "pDeriveKey p s purposeCell ctx (pKeySize p) = Inr ck" "offsets_from p s ctx
       \<lparr>off_fwd = Uint64 f AND (counterLimit - 1), off_bwd = Uint64 b AND (counterLimit - 1)\<rparr>" (is "offsets_from p s ctx ?off")
    by (rule derive_all [OF ok(1) s(2)])
  let ?w = "allocate (allocate w1)"
  have room: "live w1 + 3 \<le> limit w1" using w1 Cons.prems(2) by simp
  have lim: "live w1 < limit w1" "live w1 + 1 < limit w1" "live w1 + 2 < limit w1" using room by simp_all
  have Ag: "Agree p a (StaticPub hop) ctx w1 = (Inr s, allocate w1)"
    using s(1) lim by (simp add: Agree_def newBuffer_def)
  have D1: "DeriveKey p s purposeSetup ctx (pKeySize p) w1 = (Inr sk, allocate w1)"
    using DeriveKey_ok [OF k(1)] lim by simp
  have D2: "DeriveKey p s purposeCell ctx (pKeySize p) (allocate w1) = (Inr ck, ?w)"
    using DeriveKey_ok [OF k(2)] lim by simp
  have D3: "deriveOffsets p s ctx ?w = (Inr ?off, ?w)"
    using deriveOffsets_ok [OF k(3)] lim by simp
  have step: "buildKeys p n i (hop # chain) sks cks offs pubs w =
      buildKeys p n (Suc i) chain (sks @ [sk]) (cks @ [ck]) (offs @ [?off]) (pubs @ [A]) (allocate w1)"
    using pub e(1) ctx(1) Ag D1 D2 D3 by (simp add: GenerateEphemeral_def)
  have "live (allocate w1) + 2 * length chain + 4 \<le> limit (allocate w1)"
    "length chain * eb + m \<le> length (rnd (allocate w1))"
    using w1 Cons.prems(2,3) e(2) by simp_all
  then show ?case
    using Cons.IH [of "allocate w1"] Cons.prems(1) step w1(2) by simp
qed

lemma setupPlain_ok:
  assumes "length (NextAddr (chain ! i)) \<le> AddrSize"
  obtains plain where "setupPlain chain offs i body = Inr plain"
  using assms that by (simp add: setupPlain_def Let_def putAddr_def)

lemma buildLayers_total:
  assumes ok: "provider_ok p n ov" "provider_total p eb"
    and "\<And>i. i < m \<Longrightarrow> length (NextAddr (chain ! i)) \<le> AddrSize \<and> int (length (sks ! i)) = pKeySize p"
  shows "\<exists>out. buildLayers p chain sks offs pubs m body = Inr out"
  using assms(3)
proof (induction m arbitrary: body)
  case 0
  then show ?case by simp
next
  case (Suc m)
  obtain plain where plain: "setupPlain chain offs m body = Inr plain"
    using setupPlain_ok Suc.prems by blast
  have "\<not> isl (pNewAEAD p (sks ! m))"
    using ok(2) Suc.prems unfolding provider_total_def by blast
  then obtain a where a: "pNewAEAD p (sks ! m) = Inr a"
    by (cases "pNewAEAD p (sks ! m)") auto
  have "0 < counterLimit" by (simp add: counterLimit_val word_less_nat_alt)
  then obtain nonce where "nonceFor (NonceSize a) Forward (Link (chain ! m)) 0 = Inr nonce"
    using nonceFor_aead provider_okD(8) [OF ok(1) a] by metis
  with plain a show ?case
    using Suc.IH Suc.prems by simp
qed

lemma BuildSetup_split:
  assumes ok: "provider_ok p n ov" and s: "sizesOf p w = (Inr (n, ov), w0)" "chain \<noteq> []"
    "setupLayerLen (length chain) (perHopCost n ov) \<ge> 0"
    and k: "buildKeys p n 0 chain [] [] [] [] w0 = (Inr (sks, cks, offs, pubs), w1)"
    and body: "readFull (nat (setupLayerLen (length chain) (perHopCost n ov))) w1 = (Inr body, w2)"
    and layers: "buildLayers p chain sks offs pubs (length chain) body = Inr out" "length out = BodySize"
  obtains cell where "BuildSetup p chain w =
      (Inr \<lparr>sr_Cell = cell, sr_CellKeys = cks, sr_Offsets = offs\<rparr>, releaseKeys sks cks True w2)"
    "carries_setup cell (Link (chain ! 0)) 0 out"
proof -
  obtain cell where cell: "NewCell (mkHeader KindControl (Link (chain ! 0)) (word_of_nat 0)) (out @ []) = Inr cell"
    "carries_setup cell (Link (chain ! 0)) 0 out"
    using NewCell_carries_setup [of out "[]" "Link (chain ! 0)" 0] layers(2) by auto
  then have "BuildSetup p chain w =
      (Inr \<lparr>sr_Cell = cell, sr_CellKeys = cks, sr_Offsets = offs\<rparr>, releaseKeys sks cks True w2)"
    using s k body layers by (simp add: BuildSetup_def Let_def readTail_def readFull_def)
  then show ?thesis using that cell(2) by blast
qed

lemma fits_MaxHops:
  assumes "provider_ok p n ov" "pNewAEAD p k = Inr a" "setupLayerLen m (perHopCost n ov) \<ge> 0" "i < m"
  shows "i < MaxHops"
proof -
  have "int m * 74 \<le> int m * perHopCost n ov"
    using perHopCost_pos [OF assms(1,2)] by (intro mult_left_mono) simp_all
  then have "int m * 74 \<le> 494"
    using assms(3) unfolding setupLayerLen_def BodySize_val by linarith
  then show ?thesis
    using assms(4) by (simp add: MaxHops_def)
qed

lemma built_from:
  assumes ok: "provider_ok p n ov" "provider_total p eb" and wf: "wf_chain chain"
    and fits: "setupLayerLen (length chain) (perHopCost n ov) \<ge> 0"
    and k: "buildKeys p n 0 chain [] [] [] [] w0 = (Inr (sks, cks, offs, pubs), w1)"
    and body: "int (length body) = setupLayerLen (length chain) (perHopCost n ov)"
    and layers: "buildLayers p chain sks offs pubs (length chain) body = Inr out"
  obtains Ls where "built p n ov chain sks cks offs pubs Ls" "Ls 0 = out" "length out = BodySize"
proof -
  have lens: "length sks = length chain" "length cks = length chain" "length offs = length chain" "length pubs = length chain"
    and hop: "\<And>j. j < length chain \<Longrightarrow> length (StaticPub (chain ! j)) = n
         \<and> hop_keys p j (chain ! j) (pubs ! j) (sks ! j) (cks ! j) (offs ! j)"
    using buildKeys_spec [OF k] by auto
  have pubs: "\<forall>j < length chain. length (pubs ! j) = n"
    using hop provider_okD(5) [OF ok(1)] unfolding hop_keys_def by blast
  obtain Ls where Ls: "Ls (length chain) = body" "Ls 0 = out"
    "\<forall>i < length chain. wraps p chain sks offs pubs i (Ls (Suc i)) (Ls i)"
    using buildLayers_spec [OF layers] by blast
  have len: "int (length (Ls i)) = setupLayerLen i (perHopCost n ov)" if "i \<le> length chain" for i
    using layers_length [OF Ls(3) ok(1) pubs] body Ls(1) that by simp
  have "i < MaxHops" if "i < length chain" for i
    using fits_MaxHops [OF ok(1) _ fits that] Ls(3) that unfolding wraps_def by blast
  then have "built p n ov chain sks cks offs pubs Ls"
    using ok(1) wf lens hop Ls(3) len by (simp add: built_def)
  moreover have "length out = BodySize"
    using len [of 0] Ls(2) by (simp add: setupLayerLen_def)
  ultimately show ?thesis using that Ls(2) by blast
qed

section \<open>The properties of a setup\<close>

lemma buildKeys_key_size:
  assumes "provider_ok p n ov" "buildKeys p n 0 chain [] [] [] [] w0 = (Inr (sks, cks, offs, pubs), w1)" "i < length chain"
  shows "int (length (sks ! i)) = pKeySize p" "int (length (cks ! i)) = pKeySize p"
  using buildKeys_spec [OF assms(2)] assms(3) provider_okD(7) [OF assms(1)] by (auto simp: hop_keys_def)

lemma releaseKeys_keeps: "rnd (releaseKeys sks cks b w) = rnd w" "limit (releaseKeys sks cks b w) = limit w"
proof -
  have "rnd ((release ^^ n) w) = rnd w \<and> limit ((release ^^ n) w) = limit w" for n by (induction n) simp_all
  then show "rnd (releaseKeys sks cks b w) = rnd w" "limit (releaseKeys sks cks b w) = limit w" by (simp_all add: releaseKeys_def)
qed

lemma BuildSetup_built:
  assumes ok: "provider_ok p n ov" "provider_total p eb" and wf: "wf_chain chain"
    and fits: "int (length chain) * perHopCost n ov \<le> int BodySize"
    and chain: "\<forall>hop \<in> set chain. length (NextAddr hop) \<le> AddrSize \<and> (\<exists>priv. is_pair p priv (StaticPub hop))"
    and w: "sizeCache w (pSuite p) = Some (n, ov)" "live w + 2 * length chain + 4 \<le> limit w"
    "length chain * eb + BodySize + m \<le> length (rnd w)"
  obtains cell cks offs sks pubs Ls w' where
    "BuildSetup p chain w = (Inr \<lparr>sr_Cell = cell, sr_CellKeys = cks, sr_Offsets = offs\<rparr>, w')"
    "built p n ov chain sks cks offs pubs Ls" "carries_setup cell (Link (chain ! 0)) 0 (Ls 0)"
    "m \<le> length (rnd w')" "limit w' = limit w" "length cks = length chain"
proof -
  let ?n = "length chain" and ?L = "setupLayerLen (length chain) (perHopCost n ov)"
  have pairs: "\<forall>hop \<in> set chain. \<exists>priv. is_pair p priv (StaticPub hop)" using chain by blast
  have rnd: "length chain * eb + (BodySize + m) \<le> length (rnd w)" using w(3) by simp
  obtain r w1 where r: "buildKeys p n 0 chain [] [] [] [] w = (Inr r, w1)" "BodySize + m \<le> length (rnd w1)" "limit w1 = limit w"
    using buildKeys_total [OF ok pairs w(2) rnd] by blast
  obtain sks cks offs pubs where k: "buildKeys p n 0 chain [] [] [] [] w = (Inr (sks, cks, offs, pubs), w1)"
    using r(1) by (metis prod_cases4)
  have L: "0 \<le> ?L" using fits by (simp add: setupLayerLen_def)
  have ne: "chain \<noteq> []" using wf by (simp add: wf_chain_def)
  have keys: "int (length (sks ! 0)) = pKeySize p" using buildKeys_key_size(1) [OF ok(1) k, of 0] ne by simp
  then have "\<not> isl (pNewAEAD p (sks ! 0))" using ok(2) unfolding provider_total_def by blast
  then obtain a where "pNewAEAD p (sks ! 0) = Inr a" by (cases "pNewAEAD p (sks ! 0)") auto
  then have "0 \<le> int ?n * perHopCost n ov"
    using perHopCost_pos [OF ok(1)] by (intro mult_nonneg_nonneg) fastforce+
  then have le: "?L \<le> int BodySize" unfolding setupLayerLen_def by linarith
  have readL: "nat ?L \<le> length (rnd w1)" using r(2) le L by linarith
  let ?body = "take (nat ?L) (rnd w1)"
  have body: "int (length ?body) = ?L" using readL L by simp
  have "length (NextAddr (chain ! i)) \<le> AddrSize \<and> int (length (sks ! i)) = pKeySize p" if "i < ?n" for i
    using chain buildKeys_key_size(1) [OF ok(1) k that] that by simp
  then obtain out where out: "buildLayers p chain sks offs pubs ?n ?body = Inr out"
    using buildLayers_total [OF ok] by blast
  obtain Ls where Ls: "built p n ov chain sks cks offs pubs Ls" "Ls 0 = out" "length out = BodySize"
    by (rule built_from [OF ok wf L k body out])
  let ?w = "releaseKeys sks cks True (w1\<lparr>rnd := drop (nat ?L) (rnd w1)\<rparr>)"
  obtain cell where cell: "BuildSetup p chain w = (Inr \<lparr>sr_Cell = cell, sr_CellKeys = cks, sr_Offsets = offs\<rparr>, ?w)"
    "carries_setup cell (Link (chain ! 0)) 0 out"
    by (rule BuildSetup_split [OF ok(1) sizesOf_cached [OF w(1)] ne L k readFull_ok [OF readL] out Ls(3)])
  moreover have "m \<le> length (rnd ?w)" "limit ?w = limit w"
    using r(2,3) le by (simp_all add: releaseKeys_keeps)
  moreover have "length cks = length chain" using Ls(1) by (simp add: built_def)
  ultimately show ?thesis using that Ls(1,2) by blast
qed

text \<open>A cell that was built is opened along the chain.\<close>

lemma built_reaches:
  assumes b: "built p n ov chain sks cks offs pubs Ls" "carries_setup cell (Link (chain ! 0)) 0 (Ls 0)" and wf: "wf_chain chain"
    and keys: "map snd ks = map StaticPub chain" "\<forall>(priv, pub) \<in> set ks. is_pair p priv pub"
    and w: "sizeCache w2 (pSuite p) = Some (n, ov)" "live w2 + length chain + 4 \<le> limit w2" "length chain * BodySize \<le> length (rnd w2)"
  shows "\<exists>ls w3. open_chain p ks 0 cell w2 = (Inr ls, w3)
    \<and> map sl_CellKey ls = cks \<and> map sl_Offsets ls = offs
    \<and> map sl_NextAddr ls = map NextAddr chain \<and> sl_First (last ls) = firstForward (butlast offs)
    \<and> live w3 = live w2 + length chain"
proof -
  have len: "length ks = length chain" using keys(1) by (metis length_map)
  have ks: "snd (ks ! j) = StaticPub (chain ! j) \<and> is_pair p (fst (ks ! j)) (snd (ks ! j))" if "j < length chain" for j
    using that keys len by (metis case_prod_beta nth_map nth_mem)
  have ne: "0 < length chain" using wf by (simp add: wf_chain_def)
  obtain ls w3 where ls: "open_chain p (drop 0 ks) 0 cell w2 = (Inr ls, w3)" "live w3 = live w2 + (length chain - 0)"
    "list_all2 (\<lambda>j l. layer_for (chain ! j) (cks ! j) (offs ! j) (firstForward (take j offs)) (Ls (Suc j)) l)
        [0..<length chain] ls"
    using open_chain_ok [OF b(1) len ks ne b(2) w(1)] w(2,3) by auto
  then have l: "length ls = length chain" "\<And>j. j < length chain \<Longrightarrow>
      layer_for (chain ! j) (cks ! j) (offs ! j) (firstForward (take j offs)) (Ls (Suc j)) (ls ! j)"
    by (auto simp: list_all2_conv_all_nth)
  have lens: "length cks = length chain" "length offs = length chain" using b(1) by (simp_all add: built_def)
  have "map sl_CellKey ls = cks" "map sl_Offsets ls = offs" "map sl_NextAddr ls = map NextAddr chain"
    using l lens by (auto simp: layer_for_def intro!: nth_equalityI)
  moreover have "last ls = ls ! (length chain - 1)" "last chain = chain ! (length chain - 1)"
    using l(1) ne by (metis last_conv_nth length_greater_0_conv)+
  then have "sl_First (last ls) = firstForward (take (length chain - 1) offs)"
    using l(2) [of "length chain - 1"] ne wf by (simp add: layer_for_def wf_chain_def)
  then have "sl_First (last ls) = firstForward (butlast offs)" by (simp add: butlast_conv_take lens)
  ultimately show ?thesis using ls(1,2) by simp
qed

text \<open>
  C4: a client sets up any chain that fits a cell, and every relay on it learns its part. The setup
  is built; each relay opens its layer with its own key pair, gets the cell key and the counter
  offsets the client kept for it and the address of the next relay, and the cell it passes on is
  opened by the next; the exit learns the counter the first forward cell reaches it with. Every
  relay holds one buffer more, its cell key.
\<close>

theorem setup_reaches_every_hop:
  assumes "provider_ok p n ov" "provider_total p eb" "wf_chain chain"
    and "int (length chain) * perHopCost n ov \<le> int BodySize"
    and "\<forall>hop \<in> set chain. length (NextAddr hop) \<le> AddrSize"
    and "map snd ks = map StaticPub chain" "\<forall>(priv, pub) \<in> set ks. is_pair p priv pub"
    and "sizeCache w (pSuite p) = Some (n, ov)" "live w + 2 * length chain + 4 \<le> limit w"
    and "length chain * eb + BodySize \<le> length (rnd w)"
    and "sizeCache w2 (pSuite p) = Some (n, ov)" "live w2 + length chain + 4 \<le> limit w2"
    and "length chain * BodySize \<le> length (rnd w2)"
  shows "\<exists>res w1 ls w3. BuildSetup p chain w = (Inr res, w1) \<and> open_chain p ks 0 (sr_Cell res) w2 = (Inr ls, w3)
    \<and> map sl_CellKey ls = sr_CellKeys res \<and> map sl_Offsets ls = sr_Offsets res
    \<and> map sl_NextAddr ls = map NextAddr chain \<and> sl_First (last ls) = firstForward (butlast (sr_Offsets res))
    \<and> live w3 = live w2 + length chain"
proof -
  have "\<forall>hop \<in> set chain. \<exists>priv. is_pair p priv (StaticPub hop)"
  proof
    fix hop assume "hop \<in> set chain"
    then have "StaticPub hop \<in> snd ` set ks" using assms(6) by (metis image_eqI set_map)
    then show "\<exists>priv. is_pair p priv (StaticPub hop)" using assms(7) by fastforce
  qed
  then have hops: "\<forall>hop \<in> set chain. length (NextAddr hop) \<le> AddrSize \<and> (\<exists>priv. is_pair p priv (StaticPub hop))"
    using assms(5) by blast
  have "length chain * eb + BodySize + 0 \<le> length (rnd w)" using assms(10) by simp
  then obtain cell cks offs sks pubs Ls w1 where b:
    "BuildSetup p chain w = (Inr \<lparr>sr_Cell = cell, sr_CellKeys = cks, sr_Offsets = offs\<rparr>, w1)"
    "built p n ov chain sks cks offs pubs Ls" "carries_setup cell (Link (chain ! 0)) 0 (Ls 0)"
    by (rule BuildSetup_built [OF assms(1-4) hops assms(8,9)])
  then show ?thesis using built_reaches [OF b(2,3) assms(3,6,7,11-13)] by simp
qed

definition sampleChain :: "SetupHop list" where
  "sampleChain =
     [\<lparr>StaticPub = replicate 32 4, NextAddr = [1, 2], NextCircuit = 12, Link = 11\<rparr>,
      \<lparr>StaticPub = replicate 32 5, NextAddr = [3], NextCircuit = 13, Link = 12\<rparr>,
      \<lparr>StaticPub = replicate 32 6, NextAddr = [], NextCircuit = 0, Link = 13\<rparr>]"

definition sampleNode :: world where
  "sampleNode = \<lparr>rnd = replicate 4000 7, live = 0, limit = 64, sizeCache = [SuiteC25519 \<mapsto> (32, 16)]\<rparr>"

lemma sampleChain_wf: "wf_chain sampleChain"
  by (auto simp: wf_chain_def sampleChain_def no_trailing_zero_def less_Suc_eq)

theorem setup_reaches_every_hop_witness:
  "\<exists>res w1 ls w3. BuildSetup sampleSuite sampleChain sampleNode = (Inr res, w1)
    \<and> open_chain sampleSuite [(replicate 32 4, replicate 32 4), (replicate 32 5, replicate 32 5),
        (replicate 32 6, replicate 32 6)] 0 (sr_Cell res) sampleNode = (Inr ls, w3)
    \<and> map sl_CellKey ls = sr_CellKeys res \<and> map sl_Offsets ls = sr_Offsets res
    \<and> map sl_NextAddr ls = map NextAddr sampleChain
    \<and> sl_First (last ls) = firstForward (butlast (sr_Offsets res))
    \<and> live w3 = live sampleNode + length sampleChain"
  by (rule setup_reaches_every_hop [OF sampleSuite_ok sampleSuite_total sampleChain_wf])
    (simp_all add: sampleChain_def sampleNode_def perHopCost_def setupHdr_def setupFlags_def AddrSize_def
      BodySize_val sampleSuite_pair, simp_all add: sampleSuite_def)

text \<open>
  no secret outlives a failed setup. Whatever error a build or an opening ends in (a bad public
  key, a refused agreement, no memory left, no randomness left, a layer that does not open or
  does not parse), every buffer taken on the way is released again; a build that succeeds leaves
  one cell key per hop, an opening that succeeds leaves the one cell key of its layer.
\<close>

theorem setup_buffers_accounted:
  assumes "provider_ok p n ov"
  shows "live (snd (BuildSetup p chain w)) =
      live w + (case fst (BuildSetup p chain w) of Inl e \<Rightarrow> 0 | Inr res \<Rightarrow> length chain)
    \<and> live (snd (OpenSetup p priv pub cell w)) =
      live w + (case fst (OpenSetup p priv pub cell w) of Inl e \<Rightarrow> 0 | Inr l \<Rightarrow> 1)"
proof -
  have "live (snd (BuildSetup p chain w)) = live w + (if isl (fst (BuildSetup p chain w)) then 0 else length chain)"
    "live (snd (OpenSetup p priv pub cell w)) = live w + (if isl (fst (OpenSetup p priv pub cell w)) then 0 else 1)"
    using live_BuildSetup [OF assms] live_OpenSetup [OF assms] by (metis prod.collapse)+
  then show ?thesis
    by (simp split: sum.split)
qed

theorem setup_buffers_accounted_witness:
  "live (snd (OpenSetup sampleSuite [] [] (replicate 512 2) (sampleNode\<lparr>live := 3\<rparr>))) = 3"
proof -
  have "fst (OpenSetup sampleSuite [] [] (replicate 512 2) (sampleNode\<lparr>live := 3\<rparr>)) = Inl ErrKind"
    by (simp add: OpenSetup_def Cell_Header_def Version_def Kind_valid_def kinds)
  then show ?thesis
    using setup_buffers_accounted [OF sampleSuite_ok, of "[]" "sampleNode\<lparr>live := 3\<rparr>" "[]" "[]" "replicate 512 2"]
    by simp
qed

end
