(* ===== verification/Link.thy ===== *)
theory Link
  imports Setup
begin

text \<open>
  \<^verbatim>\<open>link/link.go\<close>: the encrypted channel between neighbours. A \<^verbatim>\<open>net.Conn\<close> is the bytes that
  still come in and the error that follows them, the bytes written so far, how many more the socket
  takes before a write fails part way and with which error, and whether a deadline can be set. \<^verbatim>\<open>ReadCell\<close> loops until a cell that is not
  padding arrives, so it is a partial function; the lemmas show that it returns.
\<close>

section \<open>The raw connection\<close>

record Raw =
  inbox :: bytes
  outbox :: bytes
  room :: nat
  deadlineOK :: bool
  rfail :: error
  wfail :: error

definition raw_Write :: "bytes \<Rightarrow> Raw \<Rightarrow> unit result \<times> Raw" where
  "raw_Write b raw =
     (if length b \<le> room raw then (Inr (), raw\<lparr>outbox := outbox raw @ b, room := room raw - length b\<rparr>)
      else (Inl (wfail raw), raw\<lparr>outbox := outbox raw @ take (room raw) b, room := 0\<rparr>))"

definition raw_ReadFull :: "nat \<Rightarrow> Raw \<Rightarrow> bytes result \<times> Raw" where
  "raw_ReadFull n raw =
     (if n \<le> length (inbox raw) then (Inr (take n (inbox raw)), raw\<lparr>inbox := drop n (inbox raw)\<rparr>)
      else (Inl (rfail raw), raw\<lparr>inbox := []\<rparr>))"

definition raw_SetWriteDeadline :: "Raw \<Rightarrow> unit result" where
  "raw_SetWriteDeadline raw = (if deadlineOK raw then Inr () else Inl (wfail raw))"

section \<open>Constants and sizes\<close>

definition exchangeLink :: string where "exchangeLink = ''link''"

definition purposeI2R :: string where "purposeI2R = ''link/i2r''"

definition purposeR2I :: string where "purposeR2I = ''link/r2i''"

definition modeAnonymous :: byte where "modeAnonymous = 0"

definition modeAuthenticated :: byte where "modeAuthenticated = 1"

text \<open>
  \<^verbatim>\<open>pubSize\<close> remembers in the package variable \<^verbatim>\<open>pubSizes\<close> what the first call found; the
  variable is passed in and out.
\<close>

definition pubSize :: "provider \<Rightarrow> (suite \<rightharpoonup> nat) \<Rightarrow> world \<Rightarrow> nat result \<times> (suite \<rightharpoonup> nat) \<times> world" where
  "pubSize p pubSizes w =
     (case pubSizes (pSuite p) of
        Some n \<Rightarrow> (Inr n, pubSizes, w)
      | None \<Rightarrow>
          (case GenerateEphemeral p w of
             (Inl e, w) \<Rightarrow> (Inl e, pubSizes, w)
           | (Inr (priv, pub), w) \<Rightarrow>
               (Inr (length pub), pubSizes(pSuite p \<mapsto> length pub), release w)))"

definition FrameSize :: "provider \<Rightarrow> int io" where
  "FrameSize p w =
     (case secmem_New (pKeySize p) w of
        (Inl e, w) \<Rightarrow> (Inl e, w)
      | (Inr probe, w) \<Rightarrow>
          (case pNewAEAD p probe of
             Inl e \<Rightarrow> (Inl e, release w)
           | Inr a \<Rightarrow> (Inr (int CellSize + Overhead a), release w)))"

definition InitiatorHandshakeSize ::
  "provider \<Rightarrow> (suite \<rightharpoonup> nat) \<Rightarrow> world \<Rightarrow> nat result \<times> (suite \<rightharpoonup> nat) \<times> world" where
  "InitiatorHandshakeSize p pubSizes w =
     (case pubSize p pubSizes w of
        (Inl e, s, w) \<Rightarrow> (Inl e, s, w)
      | (Inr n, s, w) \<Rightarrow> (Inr (n + 1), s, w))"

definition ResponderHandshakeSize ::
  "provider \<Rightarrow> (suite \<rightharpoonup> nat) \<Rightarrow> world \<Rightarrow> int result \<times> (suite \<rightharpoonup> nat) \<times> world" where
  "ResponderHandshakeSize p pubSizes w =
     (case pubSize p pubSizes w of
        (Inl e, s, w) \<Rightarrow> (Inl e, s, w)
      | (Inr n, s, w) \<Rightarrow>
          (case FrameSize p w of
             (Inl e, w) \<Rightarrow> (Inl e, s, w)
           | (Inr fr, w) \<Rightarrow> (Inr (int n + fr), s, w)))"

section \<open>A connection\<close>

record Conn =
  cn_send :: "AEAD option"
  cn_recv :: "AEAD option"
  cn_frame :: nat
  cn_sendSeq :: u64
  cn_writeTimeout :: int
  cn_werr :: "error option"
  cn_recvSeq :: u64

definition nonce :: "int \<Rightarrow> u64 \<Rightarrow> bytes" where
  "nonce sz seq = replicate (nat sz - 8) 0 @ PutUint64 seq"

definition SetWriteTimeout :: "int \<Rightarrow> Conn \<Rightarrow> Conn" where
  "SetWriteTimeout d c = c\<lparr>cn_writeTimeout := d\<rparr>"

definition WriteCell :: "Cell \<Rightarrow> Conn \<Rightarrow> Raw \<Rightarrow> unit result \<times> Conn \<times> Raw" where
  "WriteCell cell c raw =
     (case cn_werr c of
        Some e \<Rightarrow> (Inl e, c, raw)
      | None \<Rightarrow>
          (case cn_send c of
             None \<Rightarrow> (Inl ErrClosed, c, raw)
           | Some a \<Rightarrow>
               let fr = aSeal a (nonce (NonceSize a) (cn_sendSeq c)) cell [];
                   c = c\<lparr>cn_sendSeq := cn_sendSeq c + 1\<rparr>
               in case (if cn_writeTimeout c > 0 then raw_SetWriteDeadline raw else Inr ()) of
                    Inl e \<Rightarrow> (Inl e, c\<lparr>cn_werr := Some e\<rparr>, raw)
                  | Inr _ \<Rightarrow>
                      (case raw_Write fr raw of
                         (Inl e, raw) \<Rightarrow> (Inl e, c\<lparr>cn_werr := Some e\<rparr>, raw)
                       | (Inr _, raw) \<Rightarrow> (Inr (), c, raw))))"

definition readFrame :: "Cell \<Rightarrow> Conn \<Rightarrow> Raw \<Rightarrow> unit result \<times> Cell \<times> Conn \<times> Raw" where
  "readFrame cell c raw =
     (case raw_ReadFull (cn_frame c) raw of
        (Inl e, raw) \<Rightarrow> (Inl e, cell, c, raw)
      | (Inr buf, raw) \<Rightarrow>
          (case cn_recv c of
             None \<Rightarrow> (Inl ErrClosed, cell, c, raw)
           | Some a \<Rightarrow>
               (case aOpen a (nonce (NonceSize a) (cn_recvSeq c)) buf [] of
                  Inl e \<Rightarrow> (Inl e, cell, c, raw)
                | Inr plain \<Rightarrow>
                    (Inr (), copy cell plain, c\<lparr>cn_recvSeq := cn_recvSeq c + 1\<rparr>, raw))))"

partial_function (option) ReadCell ::
  "Cell \<Rightarrow> Conn \<Rightarrow> Raw \<Rightarrow> (unit result \<times> Cell \<times> Conn \<times> Raw) option" where
  "ReadCell cell c raw =
     (case readFrame cell c raw of (r, cell, c, raw) \<Rightarrow>
        (case r of
           Inl e \<Rightarrow> Some (Inl e, cell, c, raw)
         | Inr _ \<Rightarrow> if \<not> IsPadding cell then Some (Inr (), cell, c, raw) else ReadCell cell c raw))"

definition discard :: "Conn \<Rightarrow> Conn" where
  "discard c = c\<lparr>cn_send := None, cn_recv := None\<rparr>"

text \<open>After \<^verbatim>\<open>raw.Close\<close> nothing is read or written any more.\<close>

definition raw_Close :: "Raw \<Rightarrow> Raw" where
  "raw_Close raw = raw\<lparr>inbox := [], room := 0, deadlineOK := False, rfail := ErrClosed, wfail := ErrClosed\<rparr>"

definition Conn_Close :: "Conn \<Rightarrow> Raw \<Rightarrow> Conn \<times> Raw" where
  "Conn_Close c raw = (discard c, raw_Close raw)"

section \<open>The handshake\<close>

definition handshakeContext :: "provider \<Rightarrow> byte \<Rightarrow> bytes \<Rightarrow> bytes \<Rightarrow> bytes \<Rightarrow> Context result" where
  "handshakeContext p mode initiatorEph responderEph responderStatic =
     newContext p exchangeLink
       ([[Version], [mode], initiatorEph, responderEph]
        @ (if mode = modeAuthenticated then [responderStatic] else []))"

definition chainKey ::
  "provider \<Rightarrow> Context \<Rightarrow> byte \<Rightarrow> bytes \<Rightarrow> bytes \<Rightarrow> bytes \<Rightarrow> bytes \<Rightarrow> bytes io" where
  "chainKey p ctx mode esPriv esPeer ephPriv ephPeer w =
     (if mode \<noteq> modeAuthenticated then
        case Agree p ephPriv ephPeer ctx w of
          (Inl e, w) \<Rightarrow> (Inl ErrHandshake, w)
        | (Inr ee, w) \<Rightarrow> (Inr ee, w)
      else
        case Agree p esPriv esPeer ctx w of
          (Inl e, w) \<Rightarrow> (Inl ErrHandshake, w)
        | (Inr es, w) \<Rightarrow>
            (case Agree p ephPriv ephPeer ctx w of
               (Inl e, w) \<Rightarrow> (Inl ErrHandshake, release w)
             | (Inr ee, w) \<Rightarrow>
                 (case MixKey p es ee ctx w of (r, w) \<Rightarrow> (r, release (release w)))))"

definition newConn :: "provider \<Rightarrow> bytes \<Rightarrow> Context \<Rightarrow> string \<Rightarrow> string \<Rightarrow> Conn io" where
  "newConn p secret ctx sendPurpose recvPurpose w =
     (case DeriveKey p secret sendPurpose ctx (pKeySize p) w of
        (Inl e, w) \<Rightarrow> (Inl e, w)
      | (Inr sendKey, w) \<Rightarrow>
          (case DeriveKey p secret recvPurpose ctx (pKeySize p) w of
             (Inl e, w) \<Rightarrow> (Inl e, release w)
           | (Inr recvKey, w) \<Rightarrow>
               (case pNewAEAD p sendKey of
                  Inl e \<Rightarrow> (Inl e, release (release w))
                | Inr sa \<Rightarrow>
                    (case pNewAEAD p recvKey of
                       Inl e \<Rightarrow> (Inl e, release (release w))
                     | Inr ra \<Rightarrow>
                         (Inr \<lparr>cn_send = Some sa, cn_recv = Some ra,
                               cn_frame = nat (int CellSize + Overhead sa), cn_sendSeq = 0,
                               cn_writeTimeout = 0, cn_werr = None, cn_recvSeq = 0\<rparr>,
                          release (release w))))))"

text \<open>
  \<^verbatim>\<open>Dial\<close> after its ephemeral key; \<open>peerStatic\<close> is \<open>None\<close> for nil. The caller's \<^verbatim>\<open>defer\<close>s
  release the secret and the ephemeral key on every path.
\<close>

definition dialKeyed :: "provider \<Rightarrow> bytes \<Rightarrow> bytes \<Rightarrow> bytes option \<Rightarrow> byte \<Rightarrow> Raw \<Rightarrow> world \<Rightarrow> Conn result \<times> Raw \<times> world" where
  "dialKeyed p ephPriv ephPub peerStatic mode raw w =
     (case raw_ReadFull (length ephPub) raw of
        (Inl e, raw) \<Rightarrow> (Inl (Errorf ErrHandshake e), raw, w)
      | (Inr peerEph, raw) \<Rightarrow>
          (case handshakeContext p mode ephPub peerEph (case peerStatic of None \<Rightarrow> [] | Some s \<Rightarrow> s) of
             Inl e \<Rightarrow> (Inl (Errorf ErrHandshake e), raw, w)
           | Inr ctx \<Rightarrow>
               (case chainKey p ctx mode ephPriv (case peerStatic of None \<Rightarrow> [] | Some s \<Rightarrow> s) ephPriv peerEph w of
                  (Inl e, w) \<Rightarrow> (Inl e, raw, w)
                | (Inr secret, w) \<Rightarrow>
                    (case newConn p secret ctx purposeI2R purposeR2I w of
                       (Inl e, w) \<Rightarrow> (Inl e, raw, release w)
                     | (Inr c, w) \<Rightarrow>
                         (case readFrame (replicate CellSize 0) c raw of
                            (Inl e, first, c, raw) \<Rightarrow> (Inl (Errorf ErrHandshake e), raw, release w)
                          | (Inr _, first, c, raw) \<Rightarrow>
                              if \<not> IsPadding first then (Inl ErrHandshake, raw, release w)
                              else (Inr c, raw, release w))))))"

definition dialWith :: "provider \<Rightarrow> bytes \<Rightarrow> bytes \<Rightarrow> bytes option \<Rightarrow> Raw \<Rightarrow> world \<Rightarrow> Conn result \<times> Raw \<times> world" where
  "dialWith p ephPriv ephPub peerStatic raw w =
     (if (case peerStatic of None \<Rightarrow> False | Some s \<Rightarrow> length s \<noteq> length ephPub)
      then (Inl (Errorf ErrHandshake ErrBadPublicKey), raw, w)
      else
        let mode = (case peerStatic of None \<Rightarrow> modeAnonymous | Some _ \<Rightarrow> modeAuthenticated) in
        case raw_Write (mode # ephPub) raw of
          (Inl e, raw) \<Rightarrow> (Inl e, raw, w)
        | (Inr _, raw) \<Rightarrow> dialKeyed p ephPriv ephPub peerStatic mode raw w)"

definition Dial :: "provider \<Rightarrow> bytes option \<Rightarrow> Raw \<Rightarrow> world \<Rightarrow> Conn result \<times> Raw \<times> world" where
  "Dial p peerStatic raw w =
     (case GenerateEphemeral p w of
        (Inl e, w) \<Rightarrow> (Inl e, raw, w)
      | (Inr (ephPriv, ephPub), w) \<Rightarrow>
          (case dialWith p ephPriv ephPub peerStatic raw w of (r, raw, w) \<Rightarrow> (r, raw, release w)))"

text \<open>\<^verbatim>\<open>Accept\<close> after its ephemeral key; \<open>static\<close> is the link key pair, \<open>None\<close> for an anonymous link.\<close>

definition acceptWith ::
  "provider \<Rightarrow> byte \<Rightarrow> bytes \<Rightarrow> bytes \<Rightarrow> bytes \<Rightarrow> (bytes \<times> bytes) option \<Rightarrow> Raw \<Rightarrow> world \<Rightarrow> Conn result \<times> Raw \<times> world" where
  "acceptWith p mode peerEph ephPriv ephPub static raw w =
     (case raw_Write ephPub raw of
        (Inl e, raw) \<Rightarrow> (Inl e, raw, w)
      | (Inr _, raw) \<Rightarrow>
          (case handshakeContext p mode peerEph ephPub (case static of None \<Rightarrow> [] | Some (k, s) \<Rightarrow> s) of
             Inl e \<Rightarrow> (Inl (Errorf ErrHandshake e), raw, w)
           | Inr ctx \<Rightarrow>
               (case chainKey p ctx mode (case static of None \<Rightarrow> [] | Some (k, s) \<Rightarrow> k) peerEph ephPriv peerEph w of
                  (Inl e, w) \<Rightarrow> (Inl e, raw, w)
                | (Inr secret, w) \<Rightarrow>
                    (case newConn p secret ctx purposeR2I purposeI2R w of
                       (Inl e, w) \<Rightarrow> (Inl e, raw, release w)
                     | (Inr c, w) \<Rightarrow>
                         (case WriteCell NewPadding c raw of
                            (Inl e, c, raw) \<Rightarrow> (Inl (Errorf ErrHandshake e), raw, release w)
                          | (Inr _, c, raw) \<Rightarrow> (Inr c, raw, release w))))))"

definition Accept ::
  "provider \<Rightarrow> (suite \<rightharpoonup> nat) \<Rightarrow> (bytes \<times> bytes) option \<Rightarrow> Raw \<Rightarrow> world
     \<Rightarrow> Conn result \<times> Raw \<times> (suite \<rightharpoonup> nat) \<times> world" where
  "Accept p pubSizes static raw w =
     (case pubSize p pubSizes w of
        (Inl e, s, w) \<Rightarrow> (Inl e, raw, s, w)
      | (Inr n, s, w) \<Rightarrow>
          (case raw_ReadFull (n + 1) raw of
             (Inl e, raw) \<Rightarrow> (Inl (Errorf ErrHandshake e), raw, s, w)
           | (Inr hello, raw) \<Rightarrow>
               let mode = hello ! 0; peerEph = drop 1 hello in
               if mode \<noteq> modeAnonymous \<and> mode \<noteq> modeAuthenticated then (Inl ErrHandshake, raw, s, w)
               else if mode = modeAuthenticated \<and> (case static of None \<Rightarrow> True | Some (k, pub) \<Rightarrow> length pub \<noteq> n)
               then (Inl ErrHandshake, raw, s, w)
               else
                 case GenerateEphemeral p w of
                   (Inl e, w) \<Rightarrow> (Inl e, raw, s, w)
                 | (Inr (ephPriv, ephPub), w) \<Rightarrow>
                     (case acceptWith p mode peerEph ephPriv ephPub
                             (if mode = modeAnonymous then None else static) raw w of
                        (r, raw, w) \<Rightarrow> (r, raw, s, release w))))"

section \<open>Frames\<close>

text \<open>The bytes that carry the cells from frame \<open>s\<close> on.\<close>

fun frames :: "AEAD \<Rightarrow> u64 \<Rightarrow> Cell list \<Rightarrow> bytes" where
  "frames a s [] = []"
| "frames a s (cell # cells) = aSeal a (nonce (NonceSize a) s) cell [] @ frames a (s + 1) cells"

lemma nonce_ok_nonce: "aead_ok a \<Longrightarrow> nonce_ok a (nonce (NonceSize a) s)"
  by (auto simp: aead_ok_def nonce_ok_def nonce_def nth_append)

lemma nonce_inj: "nonce sz s = nonce sz t \<Longrightarrow> s = t"
  by (simp add: nonce_def u64.put_inj)

definition sends :: "Conn \<Rightarrow> AEAD \<Rightarrow> u64 \<Rightarrow> bool" where
  "sends c a s \<longleftrightarrow> cn_send c = Some a \<and> cn_sendSeq c = s \<and> cn_werr c = None"

definition receives :: "Conn \<Rightarrow> AEAD \<Rightarrow> u64 \<Rightarrow> bool" where
  "receives c a s \<longleftrightarrow> cn_recv c = Some a \<and> cn_recvSeq c = s \<and> int (cn_frame c) = int CellSize + Overhead a"

lemma WriteCell_sends:
  assumes "sends c a s" "aead_ok a" "wf_cell cell" "nat (int CellSize + Overhead a) \<le> room raw" "deadlineOK raw"
  shows "\<exists>c'. WriteCell cell c raw = (Inr (), c', raw\<lparr>outbox := outbox raw @ frames a s [cell],
      room := room raw - nat (int CellSize + Overhead a)\<rparr>) \<and> sends c' a (s + 1)"
proof -
  have "length (aSeal a (nonce (NonceSize a) s) cell []) = nat (int CellSize + Overhead a)"
    using aead_seal_length [OF assms(2), of "nonce (NonceSize a) s" cell "[]"] assms(3) by (simp add: wf_cell_def)
  then show ?thesis
    using assms by (simp add: WriteCell_def sends_def raw_Write_def raw_SetWriteDeadline_def Let_def)
qed

definition frame_len :: "AEAD \<Rightarrow> nat" where
  "frame_len a = nat (int CellSize + Overhead a)"

lemma frames_length:
  "aead_ok a \<Longrightarrow> \<forall>x \<in> set xs. wf_cell x \<Longrightarrow> length (frames a s xs) = length xs * frame_len a"
proof (induction xs arbitrary: s)
  case (Cons x xs)
  then show ?case
    using aead_seal_length [OF Cons.prems(1), of "nonce (NonceSize a) s" x "[]"] by (simp add: wf_cell_def frame_len_def)
qed simp

lemma readFrame_receives:
  assumes "receives c a s" "aead_ok a" "wf_cell x" "length cell = CellSize" "inbox raw = frames a s [x] @ rest"
  shows "\<exists>c'. readFrame cell c raw = (Inr (), x, c', raw\<lparr>inbox := rest\<rparr>) \<and> receives c' a (s + 1)
    \<and> cn_send c' = cn_send c \<and> cn_sendSeq c' = cn_sendSeq c \<and> cn_werr c' = cn_werr c"
proof -
  let ?f = "aSeal a (nonce (NonceSize a) s) x []"
  have len: "length ?f = cn_frame c"
    using aead_seal_length [OF assms(2), of "nonce (NonceSize a) s" x "[]"] assms(1,3)
    by (simp add: wf_cell_def receives_def)
  have "raw_ReadFull (cn_frame c) raw = (Inr ?f, raw\<lparr>inbox := rest\<rparr>)"
    using assms(5) len by (simp add: raw_ReadFull_def)
  moreover have "copy cell x = x"
    using assms(3,4) by (simp add: copy_same wf_cell_def)
  ultimately show ?thesis
    using assms(1) aead_open_seal [OF assms(2) nonce_ok_nonce [OF assms(2)]]
    by (simp add: readFrame_def receives_def)
qed

lemma ReadCell_data:
  assumes "receives c a s" "aead_ok a" "wf_cell x" "length cell = CellSize"
    "inbox raw = frames a s [x] @ rest" "\<not> IsPadding x"
  shows "\<exists>c'. ReadCell cell c raw = Some (Inr (), x, c', raw\<lparr>inbox := rest\<rparr>) \<and> receives c' a (s + 1)"
  using readFrame_receives [OF assms(1-5)] assms(6) by (subst ReadCell.simps) auto

lemma ReadCell_padding:
  assumes "receives c a s" "aead_ok a" "wf_cell x" "length cell = CellSize"
    "inbox raw = frames a s [x] @ rest" "IsPadding x"
  shows "\<exists>c'. ReadCell cell c raw = ReadCell x c' (raw\<lparr>inbox := rest\<rparr>) \<and> receives c' a (s + 1)"
  using readFrame_receives [OF assms(1-5)] assms(6) by (subst ReadCell.simps) auto

text \<open>Reading until the stream ends: the cells the caller gets.\<close>

fun read_cells :: "nat \<Rightarrow> Conn \<Rightarrow> Raw \<Rightarrow> Cell list option" where
  "read_cells 0 c raw = Some []"
| "read_cells (Suc n) c raw =
     (case ReadCell (replicate CellSize 0) c raw of
        None \<Rightarrow> None
      | Some (Inl e, cell, c, raw) \<Rightarrow> Some []
      | Some (Inr _, cell, c, raw) \<Rightarrow>
          (case read_cells n c raw of None \<Rightarrow> None | Some cs \<Rightarrow> Some (cell # cs)))"

lemma ReadCell_end: "cn_frame c > 0 \<Longrightarrow> inbox raw = [] \<Longrightarrow> \<exists>c' raw'. ReadCell cell c raw = Some (Inl (rfail raw), cell, c', raw')"
  by (subst ReadCell.simps) (simp add: readFrame_def raw_ReadFull_def)

lemma ReadCell_frames:
  assumes "receives c a s" "aead_ok a" "\<forall>x \<in> set cells. wf_cell x" "length cell = CellSize"
    and "inbox raw = frames a s cells"
  shows "case filter (\<lambda>x. \<not> IsPadding x) cells of
      [] \<Rightarrow> \<exists>cell' c' raw'. ReadCell cell c raw = Some (Inl (rfail raw), cell', c', raw')
    | x # xs \<Rightarrow> \<exists>c' t rest. ReadCell cell c raw = Some (Inr (), x, c', raw\<lparr>inbox := frames a t rest\<rparr>)
        \<and> receives c' a t \<and> filter (\<lambda>x. \<not> IsPadding x) rest = xs \<and> set rest \<subseteq> set cells"
  using assms
proof (induction cells arbitrary: c s cell raw)
  case Nil
  then have "cn_frame c > 0"
    using aead_overhead [of a] by (auto simp: receives_def CellSize_def)
  then show ?case
    using ReadCell_end [of c raw cell] Nil(5) by simp blast
next
  case (Cons x cells)
  have raw: "inbox raw = frames a s [x] @ frames a (s + 1) cells" and x: "wf_cell x"
    using Cons.prems by simp_all
  show ?case
  proof (cases "IsPadding x")
    case False
    then show ?thesis
      using ReadCell_data [OF Cons.prems(1,2) x Cons.prems(4) raw] by auto
  next
    case True
    then obtain c' where c': "ReadCell cell c raw = ReadCell x c' (raw\<lparr>inbox := frames a (s + 1) cells\<rparr>)"
      "receives c' a (s + 1)"
      using ReadCell_padding [OF Cons.prems(1,2) x Cons.prems(4) raw] by blast
    show ?thesis
      using Cons.IH [of c' "s + 1" x "raw\<lparr>inbox := frames a (s + 1) cells\<rparr>"] c' True Cons.prems(2,3) x
      by (auto simp: wf_cell_def split: list.splits) blast
  qed
qed

lemma read_cells_frames:
  assumes "receives c a s" "aead_ok a" "\<forall>x \<in> set cells. wf_cell x" "inbox raw = frames a s cells"
    and "length (filter (\<lambda>x. \<not> IsPadding x) cells) \<le> n"
  shows "read_cells n c raw = Some (filter (\<lambda>x. \<not> IsPadding x) cells)"
  using assms
proof (induction n arbitrary: c s cells raw)
  case 0
  then show ?case by simp
next
  case (Suc n)
  note step = ReadCell_frames [OF Suc.prems(1,2,3) _ Suc.prems(4), of "replicate CellSize 0"]
  show ?case
  proof (cases "filter (\<lambda>x. \<not> IsPadding x) cells")
    case Nil
    then show ?thesis using step by auto
  next
    case (Cons x xs)
    then obtain c' t rest where r: "ReadCell (replicate CellSize 0) c raw = Some (Inr (), x, c', raw\<lparr>inbox := frames a t rest\<rparr>)"
      "receives c' a t" "filter (\<lambda>x. \<not> IsPadding x) rest = xs" "set rest \<subseteq> set cells"
      using step by auto
    have "read_cells n c' (raw\<lparr>inbox := frames a t rest\<rparr>) = Some xs"
      using Suc.IH [OF r(2) Suc.prems(2), of rest "raw\<lparr>inbox := frames a t rest\<rparr>"] r(3,4) Suc.prems(3,5) Cons by auto
    then show ?thesis using r(1) Cons by simp
  qed
qed

fun write_cells :: "Cell list \<Rightarrow> Conn \<Rightarrow> Raw \<Rightarrow> unit result \<times> Conn \<times> Raw" where
  "write_cells [] c raw = (Inr (), c, raw)"
| "write_cells (cell # cells) c raw =
     (case WriteCell cell c raw of
        (Inl e, c, raw) \<Rightarrow> (Inl e, c, raw)
      | (Inr _, c, raw) \<Rightarrow> write_cells cells c raw)"

lemma write_cells_sends:
  assumes "sends c a s" "aead_ok a" "\<forall>x \<in> set cells. wf_cell x" "deadlineOK raw"
    "length cells * nat (int CellSize + Overhead a) \<le> room raw"
  shows "\<exists>c' raw'. write_cells cells c raw = (Inr (), c', raw') \<and> outbox raw' = outbox raw @ frames a s cells"
  using assms
proof (induction cells arbitrary: c s raw)
  case Nil
  then show ?case by simp
next
  case (Cons x cells)
  let ?raw = "raw\<lparr>outbox := outbox raw @ frames a s [x], room := room raw - nat (int CellSize + Overhead a)\<rparr>"
  have le: "nat (int CellSize + Overhead a) \<le> room raw" using Cons.prems(5) by simp
  obtain c' where c': "WriteCell x c raw = (Inr (), c', ?raw)" "sends c' a (s + 1)"
    using WriteCell_sends [OF Cons.prems(1,2) _ le Cons.prems(4)] Cons.prems(3) by auto
  have "length cells * nat (int CellSize + Overhead a) \<le> room ?raw" using Cons.prems(5) by simp
  then show ?case
    using Cons.IH [OF c'(2) Cons.prems(2), of ?raw] Cons.prems(3,4) c'(1) by auto
qed

section \<open>The handshake agrees\<close>

lemma link_purposes:
  "knownSuite s \<Longrightarrow> pu \<in> {purposeI2R, purposeR2I} \<Longrightarrow> \<not> isl (DeriveLabel s pu)"
  unfolding knownSuite_def by (elim disjE insertE emptyE; hypsubst; code_simp)

lemma handshakeContext_ok:
  assumes "provider_ok p n ov" "length A = n" "length B = n" "mode = modeAuthenticated \<Longrightarrow> length S = n"
  obtains ctx where "handshakeContext p mode A B S = Inr ctx" "Context_Valid ctx" "ctx_suite ctx = pSuite p"
proof -
  have "validName exchangeLink" by code_simp
  then show ?thesis
    using that assms provider_okD(1,2,3,4) [OF assms(1)]
    by (cases "mode = modeAuthenticated")
      (simp_all add: handshakeContext_def newContext_def NewContext_def TranscriptBytes_def badPart_def maxParts_def
        maxPartSize_def Context_Valid_def)
qed

text \<open>A secret from which keys can be derived.\<close>

definition derivable :: "provider \<Rightarrow> Context \<Rightarrow> bytes \<Rightarrow> bool" where
  "derivable p ctx s \<longleftrightarrow> \<not> isl (pDeriveKey p s ''cell'' ctx (pKeySize p))"

definition link_secret :: "provider \<Rightarrow> Context \<Rightarrow> byte \<Rightarrow> bytes \<Rightarrow> bytes \<Rightarrow> bytes \<Rightarrow> bytes \<Rightarrow> bytes \<Rightarrow> bool" where
  "link_secret p ctx mode esPriv esPeer ephPriv ephPeer s \<longleftrightarrow>
     (if mode \<noteq> modeAuthenticated then pAgree p ephPriv ephPeer ctx = Inr s
      else \<exists>es ee. pAgree p esPriv esPeer ctx = Inr es \<and> pAgree p ephPriv ephPeer ctx = Inr ee
             \<and> pMixKey p es ee ctx = Inr s)"

lemma grows_chainKey: "grows 1 (chainKey p ctx mode x X y Y)"
  by (auto simp: grows_def chainKey_def dest!: growsD [OF grows_Agree] growsD [OF grows_MixKey] split: if_splits prod.splits sum.splits)

lemma grows_newConn: "grows 0 (newConn p s ctx spu rpu)"
  by (auto simp: grows_def newConn_def dest!: growsD [OF grows_DeriveKey] split: prod.splits sum.splits)

lemma live_dialKeyed: "dialKeyed p a A st mode raw w = (r, raw', w') \<Longrightarrow> live w' = live w"
  by (auto simp: dialKeyed_def dest!: growsD [OF grows_chainKey] growsD [OF grows_newConn]
      split: if_splits prod.splits sum.splits)

lemma live_Dial:
  assumes "provider_ok p n ov" "Dial p st raw w = (r, raw', w')"
  shows "live w' = live w"
proof -
  have "live w3 = live w2" if "dialWith p a A st raw2 w2 = (r2, raw3, w3)" for a A raw2 w2 r2 raw3 w3
    using that by (auto simp: dialWith_def Let_def dest!: live_dialKeyed split: if_splits prod.splits sum.splits)
  then show ?thesis
    using assms by (auto simp: Dial_def dest!: growsD [OF grows_GenerateEphemeral [OF assms(1)]] split: prod.splits sum.splits)
qed

lemma chainKey_ok:
  assumes "link_secret p ctx mode x X y Y s" "live w + 3 \<le> limit w"
  shows "chainKey p ctx mode x X y Y w = (Inr s, allocate w)"
  using assms by (auto simp: chainKey_def link_secret_def provider_calls newBuffer_def split: if_splits)

lemma link_secret_both:
  assumes ok: "provider_ok p n ov" "provider_total p eb"
    and ctx: "Context_Valid ctx" "ctx_suite ctx = pSuite p"
    and pairs: "is_pair p a A" "is_pair p b B" "mode = modeAuthenticated \<Longrightarrow> is_pair p k S"
  obtains s where "link_secret p ctx mode a S a B s" "link_secret p ctx mode k A b A s" "derivable p ctx s"
proof -
  have agree: "\<exists>s. pAgree p x Y ctx = Inr s \<and> pAgree p y X ctx = Inr s \<and> derivable p ctx s"
    if "is_pair p x X" "is_pair p y Y" for x X y Y
  proof -
    obtain s where "pAgree p x Y ctx = Inr s" "derivable p ctx s"
      using provider_totalD(2) [OF ok(2) \<open>is_pair p x X\<close> \<open>is_pair p y Y\<close> ctx] unfolding derivable_def by blast
    then show ?thesis using provider_okD(6) [OF ok(1) that, of ctx] by metis
  qed
  obtain ee where ee: "pAgree p a B ctx = Inr ee" "pAgree p b A ctx = Inr ee" "derivable p ctx ee"
    using agree [OF pairs(1,2)] by blast
  show ?thesis
  proof (cases "mode = modeAuthenticated")
    case False
    then show ?thesis using that ee by (simp add: link_secret_def)
  next
    case True
    obtain es where es: "pAgree p a S ctx = Inr es" "pAgree p k A ctx = Inr es" "derivable p ctx es"
      using agree [OF pairs(1) pairs(3) [OF True]] by blast
    obtain m where "pMixKey p es ee ctx = Inr m" "derivable p ctx m"
      using provider_totalD(3) [OF ok(2), of es ctx ee] es(3) ee(3) unfolding derivable_def by blast
    then show ?thesis using that True ee es by (auto simp: link_secret_def)
  qed
qed

lemma derivable_key:
  assumes "provider_ok p n ov" "provider_total p eb" "derivable p ctx s" "\<not> isl (DeriveLabel (pSuite p) pu)"
  obtains key a where "pDeriveKey p s pu ctx (pKeySize p) = Inr key" "pNewAEAD p key = Inr a" "aead_ok a" "Overhead a = ov"
proof -
  have "\<not> isl (pDeriveKey p s pu ctx (pKeySize p))"
    using assms(3,4) provider_okD(9,10) [OF assms(1)] unfolding derivable_def derives_any_def by force
  then obtain key where key: "pDeriveKey p s pu ctx (pKeySize p) = Inr key"
    by (cases "pDeriveKey p s pu ctx (pKeySize p)") auto
  then have "\<not> isl (pNewAEAD p key)"
    using assms(2) provider_okD(7) [OF assms(1) key] unfolding provider_total_def by blast
  then obtain a where "pNewAEAD p key = Inr a" by (cases "pNewAEAD p key") auto
  then show ?thesis using that key provider_okD(8) [OF assms(1)] by blast
qed

lemma newConn_ok:
  assumes "pDeriveKey p s spu ctx (pKeySize p) = Inr k1" "pDeriveKey p s rpu ctx (pKeySize p) = Inr k2"
    and "pNewAEAD p k1 = Inr x" "pNewAEAD p k2 = Inr y" "Overhead x = Overhead y" "Overhead x > 0"
    and "live w + 2 \<le> limit w"
  obtains c where "newConn p s ctx spu rpu w = (Inr c, w)" "sends c x 0" "receives c y 0"
proof -
  have lim: "live w < limit w" "live (allocate w) < limit (allocate w)" using assms(7) by simp_all
  show ?thesis
    using that assms(3-6) DeriveKey_ok [OF assms(1) lim(1)] DeriveKey_ok [OF assms(2) lim(2)]
    by (simp add: newConn_def sends_def receives_def)
qed

text \<open>The keys of both directions, as both sides derive them.\<close>

definition link_keys :: "provider \<Rightarrow> Context \<Rightarrow> bytes \<Rightarrow> AEAD \<Rightarrow> AEAD \<Rightarrow> bool" where
  "link_keys p ctx s x y \<longleftrightarrow>
     (\<exists>k1 k2. pDeriveKey p s purposeI2R ctx (pKeySize p) = Inr k1 \<and> pNewAEAD p k1 = Inr x
        \<and> pDeriveKey p s purposeR2I ctx (pKeySize p) = Inr k2 \<and> pNewAEAD p k2 = Inr y)
     \<and> aead_ok x \<and> aead_ok y \<and> Overhead x = Overhead y"

lemma link_keys_ok:
  assumes "provider_ok p n ov" "provider_total p eb" "derivable p ctx s"
  obtains x y where "link_keys p ctx s x y" "Overhead y = ov"
proof -
  have suite: "knownSuite (pSuite p)" using provider_okD(1) [OF assms(1)] .
  obtain k1 x where "pDeriveKey p s purposeI2R ctx (pKeySize p) = Inr k1" "pNewAEAD p k1 = Inr x"
    "aead_ok x" "Overhead x = ov"
    using derivable_key [OF assms link_purposes [OF suite, of purposeI2R]] by auto
  moreover obtain k2 y where "pDeriveKey p s purposeR2I ctx (pKeySize p) = Inr k2" "pNewAEAD p k2 = Inr y"
    "aead_ok y" "Overhead y = ov"
    using derivable_key [OF assms link_purposes [OF suite, of purposeR2I]] by auto
  ultimately show ?thesis using that by (auto simp: link_keys_def)
qed

definition static_priv :: "(bytes \<times> bytes) option \<Rightarrow> bytes" where
  "static_priv static = (case static of None \<Rightarrow> [] | Some (k, s) \<Rightarrow> k)"

definition static_pub :: "(bytes \<times> bytes) option \<Rightarrow> bytes" where
  "static_pub static = (case static of None \<Rightarrow> [] | Some (k, s) \<Rightarrow> s)"

lemma link_material:
  assumes "provider_ok p n ov" "provider_total p eb" "is_pair p a A" "is_pair p b B"
    and st: "mode = modeAuthenticated \<Longrightarrow> is_pair p k S"
  obtains ctx s x y where "length A = n" "length B = n" "mode = modeAuthenticated \<longrightarrow> length S = n"
    "handshakeContext p mode A B S = Inr ctx" "link_secret p ctx mode a S a B s" "link_secret p ctx mode k A b A s"
    "link_keys p ctx s x y" "Overhead y = ov"
proof -
  have lens: "length A = n" "length B = n" "mode = modeAuthenticated \<Longrightarrow> length S = n"
    using provider_okD(5) [OF assms(1)] assms(3,4) st by blast+
  obtain ctx where ctx: "handshakeContext p mode A B S = Inr ctx" "Context_Valid ctx" "ctx_suite ctx = pSuite p"
    using handshakeContext_ok [OF assms(1) lens] by blast
  obtain s where s: "link_secret p ctx mode a S a B s" "link_secret p ctx mode k A b A s" "derivable p ctx s"
    using link_secret_both [OF assms(1,2) ctx(2,3) assms(3,4) st] by blast
  obtain x y where "link_keys p ctx s x y" "Overhead y = ov"
    by (rule link_keys_ok [OF assms(1,2) s(3)])
  then show ?thesis using that lens ctx(1) s(1,2) by blast
qed

lemma acceptWith_ok:
  assumes ctx: "handshakeContext p mode A B (static_pub static) = Inr ctx"
    and s: "link_secret p ctx mode (static_priv static) A b A s" and keys: "link_keys p ctx s x y"
    and raw: "length B + nat (int CellSize + Overhead y) \<le> room raw" "deadlineOK raw"
    and w: "live w + 3 \<le> limit w"
  obtains c raw' where "acceptWith p mode A b B static raw w = (Inr c, raw', w)"
    "outbox raw' = outbox raw @ B @ frames y 0 [NewPadding]" "sends c y 1" "receives c x 0"
proof -
  let ?raw = "raw\<lparr>outbox := outbox raw @ B, room := room raw - length B\<rparr>"
  have ovs: "Overhead y = Overhead x" "Overhead y > 0" "live (allocate w) + 2 \<le> limit (allocate w)" "aead_ok y"
    using keys aead_overhead w by (auto simp: link_keys_def)
  obtain k1 k2 where k: "pDeriveKey p s purposeI2R ctx (pKeySize p) = Inr k1" "pNewAEAD p k1 = Inr x"
    "pDeriveKey p s purposeR2I ctx (pKeySize p) = Inr k2" "pNewAEAD p k2 = Inr y"
    using keys by (auto simp: link_keys_def)
  obtain c where c: "newConn p s ctx purposeR2I purposeI2R (allocate w) = (Inr c, allocate w)" "sends c y 0" "receives c x 0"
    by (rule newConn_ok [OF k(3,1,4,2) ovs(1-3)])
  have room: "nat (int CellSize + Overhead y) \<le> room ?raw" "deadlineOK ?raw" using raw by simp_all
  obtain c' where c': "WriteCell NewPadding c ?raw = (Inr (), c', ?raw\<lparr>outbox := outbox ?raw @ frames y 0 [NewPadding],
      room := room ?raw - nat (int CellSize + Overhead y)\<rparr>)" "sends c' y (0 + 1)"
    using WriteCell_sends [OF c(2) ovs(4) wf_NewPadding room] by blast
  have "cn_recv c' = cn_recv c" "cn_recvSeq c' = cn_recvSeq c" "cn_frame c' = cn_frame c"
    using c'(1) by (auto simp: WriteCell_def Let_def split: option.splits sum.splits prod.splits if_splits)
  then have "receives c' x 0" using c(3) by (simp add: receives_def)
  moreover have "raw_Write B raw = (Inr (), ?raw)" using raw(1) by (simp add: raw_Write_def)
  then have "acceptWith p mode A b B static raw w = (Inr c', ?raw\<lparr>outbox := outbox ?raw @ frames y 0 [NewPadding],
      room := room ?raw - nat (int CellSize + Overhead y)\<rparr>, w)"
    using ctx chainKey_ok [OF s w] c(1) c'(1) by (simp add: acceptWith_def static_priv_def static_pub_def)
  ultimately show ?thesis using that c'(2) by simp
qed

lemma dialKeyed_ok:
  assumes ctx: "handshakeContext p mode A B (case peerStatic of None \<Rightarrow> [] | Some s \<Rightarrow> s) = Inr ctx"
    and s: "link_secret p ctx mode a (case peerStatic of None \<Rightarrow> [] | Some s \<Rightarrow> s) a B s" and keys: "link_keys p ctx s x y"
    and raw: "inbox raw = B @ frames y 0 [NewPadding] @ rest" "length A = length B" and w: "live w + 3 \<le> limit w"
  obtains c where "dialKeyed p a A peerStatic mode raw w = (Inr c, raw\<lparr>inbox := rest\<rparr>, w)" "sends c x 0" "receives c y 1"
proof -
  let ?raw = "raw\<lparr>inbox := frames y 0 [NewPadding] @ rest\<rparr>"
  have ovs: "Overhead x = Overhead y" "Overhead x > 0" "live (allocate w) + 2 \<le> limit (allocate w)" "aead_ok y"
    using keys aead_overhead w by (auto simp: link_keys_def)
  obtain k1 k2 where k: "pDeriveKey p s purposeI2R ctx (pKeySize p) = Inr k1" "pNewAEAD p k1 = Inr x"
    "pDeriveKey p s purposeR2I ctx (pKeySize p) = Inr k2" "pNewAEAD p k2 = Inr y"
    using keys by (auto simp: link_keys_def)
  obtain c where c: "newConn p s ctx purposeI2R purposeR2I (allocate w) = (Inr c, allocate w)" "sends c x 0" "receives c y 0"
    by (rule newConn_ok [OF k(1,3,2,4) ovs(1-3)])
  obtain c' where c': "readFrame (replicate CellSize 0) c ?raw = (Inr (), NewPadding, c', ?raw\<lparr>inbox := rest\<rparr>)"
    "receives c' y (0 + 1)" "cn_send c' = cn_send c" "cn_sendSeq c' = cn_sendSeq c" "cn_werr c' = cn_werr c"
    using readFrame_receives [OF c(3) ovs(4) wf_NewPadding, of "replicate CellSize 0" ?raw rest] by auto
  have "raw_ReadFull (length A) raw = (Inr B, ?raw)" using raw by (simp add: raw_ReadFull_def)
  then have "dialKeyed p a A peerStatic mode raw w = (Inr c', raw\<lparr>inbox := rest\<rparr>, w)"
    using ctx chainKey_ok [OF s w] c(1) c'(1) by (simp add: dialKeyed_def)
  then show ?thesis using that c' c(2) by (simp add: sends_def)
qed

section \<open>The properties of a link\<close>

lemma handshake_agrees:
  assumes "provider_ok p n ov" "provider_total p eb" "pubSizes (pSuite p) = Some n"
    and "static = None \<or> (\<exists>k S. static = Some (k, S) \<and> is_pair p k S)" "authenticate \<longrightarrow> static \<noteq> None"
    and "GenerateEphemeral p wI = (Inr (a, A), wI1)" "live wI + 4 \<le> limit wI"
    and "live wR + 4 \<le> limit wR" "eb \<le> length (rnd wR)"
    and "inbox rawR = (if authenticate then modeAuthenticated else modeAnonymous) # A @ later" "outbox rawR = []"
    and "n + nat (int CellSize + ov) \<le> room rawR" "deadlineOK rawR" "n + 1 \<le> room rawI"
  shows "\<exists>cR rawR' wR' cI rawI' wI' x y. Accept p pubSizes static rawR wR = (Inr cR, rawR', pubSizes, wR')
    \<and> Dial p (if authenticate then Some (static_pub static) else None) (rawI\<lparr>inbox := outbox rawR'\<rparr>) wI = (Inr cI, rawI', wI')
    \<and> outbox rawI' = outbox rawI @ (if authenticate then modeAuthenticated else modeAnonymous) # A
    \<and> sends cI x 0 \<and> receives cR x 0 \<and> sends cR y 1 \<and> receives cI y 1 \<and> aead_ok x \<and> aead_ok y
    \<and> live wR' = live wR \<and> live wI' = live wI
    \<and> room rawI' = room rawI - (n + 1) \<and> deadlineOK rawI' = deadlineOK rawI \<and> Overhead x = ov"
proof -
  let ?mode = "if authenticate then modeAuthenticated else modeAnonymous"
  let ?static = "if authenticate then static else None"
  let ?peer = "if authenticate then Some (static_pub static) else None"
  have modes: "modeAuthenticated \<noteq> modeAnonymous" by (simp add: modeAnonymous_def modeAuthenticated_def)
  obtain b B wR1 where B: "pEphemeral p wR = (Inr (b, B), wR1)"
    using provider_totalD(1) [OF assms(2) _ assms(9)] assms(8) by auto
  have lR: "live wR1 = live wR + 1" "limit wR1 = limit wR" and lI: "live wI1 = live wI + 1" "limit wI1 = limit wI"
    using GenerateEphemeral_live [OF assms(1)] B assms(6) by (fastforce simp: GenerateEphemeral_def)+
  have pairs: "is_pair p a A" "is_pair p b B" using assms(6) B by (auto simp: GenerateEphemeral_def is_pair_def)
  have st: "is_pair p (static_priv ?static) (static_pub ?static)" if "?mode = modeAuthenticated"
    using that assms(4,5) modes by (auto simp: static_priv_def static_pub_def split: if_splits)
  obtain ctx s x y where lens: "length A = n" "length B = n" "?mode = modeAuthenticated \<longrightarrow> length (static_pub ?static) = n"
    and ctx: "handshakeContext p ?mode A B (static_pub ?static) = Inr ctx"
    and s: "link_secret p ctx ?mode a (static_pub ?static) a B s" "link_secret p ctx ?mode (static_priv ?static) A b A s"
    and k: "link_keys p ctx s x y" "Overhead y = ov"
    by (rule link_material [OF assms(1,2) pairs st])
  let ?rawR = "rawR\<lparr>inbox := later\<rparr>"
  have room: "length B + nat (int CellSize + Overhead y) \<le> room ?rawR" "deadlineOK ?rawR" "live wR1 + 3 \<le> limit wR1"
    using assms(8,12,13) k(2) lens(2) lR by simp_all
  obtain cR rawR' where R: "acceptWith p ?mode A b B ?static ?rawR wR1 = (Inr cR, rawR', wR1)"
    "outbox rawR' = outbox ?rawR @ B @ frames y 0 [NewPadding]" "sends cR y 1" "receives cR x 0"
    by (rule acceptWith_ok [OF ctx s(2) k(1) room])
  have readR: "raw_ReadFull (n + 1) rawR = (Inr (?mode # A), ?rawR)" using assms(10) lens(1) by (simp add: raw_ReadFull_def)
  have statics: "\<not> (?mode = modeAuthenticated \<and> (case static of None \<Rightarrow> True | Some (k, pub) \<Rightarrow> length pub \<noteq> n))"
    using assms(5) lens(3) modes by (auto simp: static_pub_def split: option.splits if_splits)
  have "Accept p pubSizes static rawR wR = (Inr cR, rawR', pubSizes, release wR1)"
    using assms(3) readR statics B R(1) modes
    by (simp add: Accept_def pubSize_def GenerateEphemeral_def Let_def split: if_splits)
  moreover have peer: "(case ?peer of None \<Rightarrow> [] | Some s \<Rightarrow> s) = static_pub ?static"
    by (simp add: static_pub_def)
  let ?rawI = "rawI\<lparr>inbox := outbox rawR', outbox := outbox rawI @ ?mode # A, room := room rawI - (n + 1)\<rparr>"
  have inI: "inbox ?rawI = B @ frames y 0 [NewPadding] @ []" "length A = length B" "live wI1 + 3 \<le> limit wI1"
    using R(2) assms(7,11) lens lI by simp_all
  obtain cI where I: "dialKeyed p a A ?peer ?mode ?rawI wI1 = (Inr cI, ?rawI\<lparr>inbox := []\<rparr>, wI1)" "sends cI x 0" "receives cI y 1"
    by (rule dialKeyed_ok [OF ctx [folded peer] s(1) [folded peer] k(1) inI])
  have "raw_Write (?mode # A) (rawI\<lparr>inbox := outbox rawR'\<rparr>) = (Inr (), ?rawI)"
    using assms(14) lens(1) by (simp add: raw_Write_def)
  then have "dialWith p a A ?peer (rawI\<lparr>inbox := outbox rawR'\<rparr>) wI1 = (Inr cI, ?rawI\<lparr>inbox := []\<rparr>, wI1)"
    using I(1) lens modes by (cases authenticate) (simp_all add: dialWith_def Let_def)
  then have "Dial p ?peer (rawI\<lparr>inbox := outbox rawR'\<rparr>) wI = (Inr cI, ?rawI\<lparr>inbox := []\<rparr>, release wI1)"
    using assms(6) by (simp add: Dial_def)
  moreover have "aead_ok x" "aead_ok y" "Overhead x = ov" using k by (simp_all add: link_keys_def)
  ultimately show ?thesis
    using R I lR lI by (intro exI conjI) (assumption | simp)+
qed

text \<open>
  C8: the handshake of a link succeeds between honest ends, with and without the responder's link
  key, and both ends hold the same two keys, one per direction: what the initiator sends under
  the responder receives under, and the other way round; the responder has used frame 0 of its
  direction for the confirmation, which the initiator has read. Neither end keeps a secret buffer.
\<close>

theorem link_handshake:
  assumes "provider_ok p n ov" "provider_total p eb" "pubSizes (pSuite p) = Some n"
    and "static = None \<or> (\<exists>k S. static = Some (k, S) \<and> is_pair p k S)" "authenticate \<longrightarrow> static \<noteq> None"
    and "GenerateEphemeral p wI = (Inr (a, A), wI1)" "live wI + 4 \<le> limit wI"
    and "live wR + 4 \<le> limit wR" "eb \<le> length (rnd wR)"
    and "inbox rawR = (if authenticate then modeAuthenticated else modeAnonymous) # A @ later" "outbox rawR = []"
    and "n + nat (int CellSize + ov) \<le> room rawR" "deadlineOK rawR" "n + 1 \<le> room rawI"
  shows "\<exists>cR rawR' wR' cI rawI' wI' x y. Accept p pubSizes static rawR wR = (Inr cR, rawR', pubSizes, wR')
    \<and> Dial p (if authenticate then Some (static_pub static) else None) (rawI\<lparr>inbox := outbox rawR'\<rparr>) wI = (Inr cI, rawI', wI')
    \<and> outbox rawI' = outbox rawI @ (if authenticate then modeAuthenticated else modeAnonymous) # A
    \<and> sends cI x 0 \<and> receives cR x 0 \<and> sends cR y 1 \<and> receives cI y 1 \<and> aead_ok x \<and> aead_ok y
    \<and> live wR' = live wR \<and> live wI' = live wI"
  using handshake_agrees [of p n ov eb pubSizes static authenticate wI a A wI1 wR rawR later rawI, OF assms] by (elim exE conjE, intro exI conjI) assumption+

text \<open>
  C9: a link delivers. Cells written on one end come out of \<^verbatim>\<open>ReadCell\<close> on the other in the order
  they were written, unchanged, with exactly the padding cells missing; every call of \<^verbatim>\<open>ReadCell\<close>
  returns, and after the last cell it reports the end of the stream.
\<close>

theorem link_delivers:
  assumes "sends c a s" "receives d a s" "aead_ok a" "\<forall>x \<in> set cells. wf_cell x"
    and "length cells * nat (int CellSize + Overhead a) \<le> room raw" "deadlineOK raw" "outbox raw = []"
  shows "\<exists>c' raw'. write_cells cells c raw = (Inr (), c', raw')
    \<and> (\<forall>n \<ge> length cells. read_cells n d (other\<lparr>inbox := outbox raw'\<rparr>) = Some (filter (\<lambda>x. \<not> IsPadding x) cells))"
proof -
  obtain c' raw' where w: "write_cells cells c raw = (Inr (), c', raw')" "outbox raw' = outbox raw @ frames a s cells"
    using write_cells_sends [OF assms(1,3,4,6,5)] by blast
  have "read_cells n d (other\<lparr>inbox := outbox raw'\<rparr>) = Some (filter (\<lambda>x. \<not> IsPadding x) cells)"
    if "n \<ge> length cells" for n
    using read_cells_frames [OF assms(2,3,4), of "other\<lparr>inbox := outbox raw'\<rparr>" n] w(2) assms(7)
      le_trans [OF length_filter_le that] by simp
  then show ?thesis using w(1) by blast
qed

definition sampleConn :: Conn where
  "sampleConn = \<lparr>cn_send = Some sampleAEAD, cn_recv = Some sampleAEAD, cn_frame = 528, cn_sendSeq = 5,
     cn_writeTimeout = 1, cn_werr = None, cn_recvSeq = 5\<rparr>"

definition sampleRaw :: Raw where
  "sampleRaw = \<lparr>inbox = [], outbox = [], room = 2000, deadlineOK = True, rfail = ErrEOF, wfail = ErrDeadline\<rparr>"

theorem link_delivers_witness:
  "\<exists>c' raw'. write_cells [NewPadding, replicate 512 1, NewPadding] sampleConn sampleRaw = (Inr (), c', raw')
    \<and> read_cells 3 sampleConn (sampleRaw\<lparr>inbox := outbox raw'\<rparr>) = Some [replicate 512 1]"
proof -
  have "sends sampleConn sampleAEAD 5" "receives sampleConn sampleAEAD 5"
    "\<forall>x \<in> set [NewPadding, replicate 512 1, NewPadding]. wf_cell x"
    "length [NewPadding, replicate 512 1, NewPadding] * nat (int CellSize + Overhead sampleAEAD) \<le> room sampleRaw"
    "deadlineOK sampleRaw" "outbox sampleRaw = []"
    by (simp_all add: sends_def receives_def sampleConn_def sampleRaw_def)
      (simp_all add: sampleAEAD_def CellSize_def wf_cell_def)
  from link_delivers [OF this(1,2) sampleAEAD_ok this(3-6), of sampleRaw]
  obtain c' raw' where "write_cells [NewPadding, replicate 512 1, NewPadding] sampleConn sampleRaw = (Inr (), c', raw')"
    "read_cells 3 sampleConn (sampleRaw\<lparr>inbox := outbox raw'\<rparr>)
       = Some (filter (\<lambda>x. \<not> IsPadding x) [NewPadding, replicate 512 1, NewPadding])"
    by (metis One_nat_def le_refl length_Cons list.size(3) numeral_3_eq_3)
  moreover have "\<not> IsPadding (replicate 512 1)"
    by (simp add: IsPadding_def Version_def)
  ultimately show ?thesis by simp
qed

theorem link_handshake_witness:
  "\<exists>cR rawR' wR' cI rawI' wI' x y.
      Accept sampleSuite [SuiteC25519 \<mapsto> 32] (Some (replicate 32 9, replicate 32 9))
        (sampleRaw\<lparr>inbox := modeAuthenticated # replicate 32 7\<rparr>) sampleNode = (Inr cR, rawR', [SuiteC25519 \<mapsto> 32], wR')
    \<and> Dial sampleSuite (Some (replicate 32 9)) (sampleRaw\<lparr>inbox := outbox rawR'\<rparr>) sampleNode = (Inr cI, rawI', wI')
    \<and> outbox rawI' = modeAuthenticated # replicate 32 7
    \<and> sends cI x 0 \<and> receives cR x 0 \<and> sends cR y 1 \<and> receives cI y 1 \<and> aead_ok x \<and> aead_ok y
    \<and> live wR' = live sampleNode \<and> live wI' = live sampleNode"
proof -
  have 1: "[SuiteC25519 \<mapsto> (32 :: nat)] (pSuite sampleSuite) = Some 32"
    by (simp add: sampleSuite_def)
  have 2: "GenerateEphemeral sampleSuite sampleNode =
      (Inr (replicate 32 7, replicate 32 7), allocate (sampleNode\<lparr>rnd := replicate 3968 7\<rparr>))"
    by (simp add: GenerateEphemeral_def sampleSuite_def sampleEphemeral_def readFull_def sampleNode_def)
  have 3: "is_pair sampleSuite (replicate 32 9) (replicate 32 9)"
    by (simp add: sampleSuite_pair)
  show ?thesis
    using link_handshake [of sampleSuite 32 16 32 "[SuiteC25519 \<mapsto> 32]" "Some (replicate 32 9, replicate 32 9)" True
        sampleNode, OF sampleSuite_ok sampleSuite_total 1 _ _ 2, of sampleNode
        "sampleRaw\<lparr>inbox := modeAuthenticated # replicate 32 7\<rparr>" "[]" sampleRaw] 3
    by (simp add: sampleNode_def sampleRaw_def CellSize_def static_pub_def)
qed

text \<open>
  a broken link stays silent. After one failed write every later write fails with the same error,
  whatever happens to the socket, and puts no byte on the wire; and once the keys are discarded
  neither end of the connection sends or accepts a frame, nor does a byte leave.
\<close>

theorem link_fails_closed:
  assumes "WriteCell cell c raw = (Inl e, c', raw')" "cn_send c \<noteq> None"
  shows "WriteCell cell' c' raw2 = (Inl e, c', raw2)
    \<and> (\<exists>e'. WriteCell cell' (discard c) raw2 = (Inl e', discard c, raw2))
    \<and> (\<exists>e' raw3. readFrame cell' (discard c) raw2 = (Inl e', cell', discard c, raw3) \<and> outbox raw3 = outbox raw2)"
proof (intro conjI)
  show "WriteCell cell' c' raw2 = (Inl e, c', raw2)"
    using assms by (auto simp: WriteCell_def Let_def split: option.splits sum.splits prod.splits if_splits)
  show "\<exists>e'. WriteCell cell' (discard c) raw2 = (Inl e', discard c, raw2)"
    by (simp add: WriteCell_def discard_def split: option.split)
  show "\<exists>e' raw3. readFrame cell' (discard c) raw2 = (Inl e', cell', discard c, raw3) \<and> outbox raw3 = outbox raw2"
    by (simp add: readFrame_def discard_def raw_ReadFull_def)
qed

theorem link_fails_closed_witness:
  "WriteCell NewPadding (sampleConn\<lparr>cn_sendSeq := 6, cn_werr := Some ErrDeadline\<rparr>) sampleRaw
     = (Inl ErrDeadline, sampleConn\<lparr>cn_sendSeq := 6, cn_werr := Some ErrDeadline\<rparr>, sampleRaw)"
proof -
  have "WriteCell NewPadding sampleConn (sampleRaw\<lparr>deadlineOK := False\<rparr>) =
      (Inl ErrDeadline, sampleConn\<lparr>cn_sendSeq := 6, cn_werr := Some ErrDeadline\<rparr>, sampleRaw\<lparr>deadlineOK := False\<rparr>)"
    by (simp add: WriteCell_def sampleConn_def sampleRaw_def raw_SetWriteDeadline_def)
  from link_fails_closed [OF this] show ?thesis by (simp add: sampleConn_def)
qed

end
