(* ===== verification/Ring.thy ===== *)
theory Ring
  imports Setup
begin

text \<open>
  \<^verbatim>\<open>relay/onion.go\<close>: the ring of onion keys a relay opens setups with, the current one and for a
  grace period the one before it, each with the tags of the setups it opened. The ring's provider
  is an argument. Private keys are counted in the world like every other buffer.
\<close>

section \<open>State\<close>

record onionKey =
  ok_epoch :: u32
  ok_priv :: bytes
  ok_pub :: bytes
  ok_setups :: SetupCache

record OnionRing =
  rg_pubSize :: nat
  rg_cacheSize :: int
  rg_current :: "onionKey option"
  rg_previous :: "onionKey option"
  rg_closed :: bool

definition MaxSetupCache :: int where "MaxSetupCache = 2 ^ 20"

definition exchangeKeyCheck :: string where "exchangeKeyCheck = ''relay/keycheck''"

section \<open>Key pairs\<close>

definition refusedKey :: "error \<Rightarrow> error \<Rightarrow> error" where
  "refusedKey e mismatch = (if errors_Is e ErrBadPublicKey \<or> errors_Is e ErrBadKeySize then mismatch else e)"

definition checkKeyPair :: "provider \<Rightarrow> bytes \<Rightarrow> bytes \<Rightarrow> error \<Rightarrow> unit io" where
  "checkKeyPair p priv pub mismatch w =
     (case GenerateEphemeral p w of
        (Inl e, w) \<Rightarrow> (Inl e, w)
      | (Inr (ephPriv, ephPub), w) \<Rightarrow>
          (case newContext p exchangeKeyCheck [pub, ephPub] of
             Inl e \<Rightarrow> (Inl e, release w)
           | Inr ctx \<Rightarrow>
               (case Agree p ephPriv pub ctx w of
                  (Inl e, w) \<Rightarrow> (Inl (refusedKey e mismatch), release w)
                | (Inr theirs, w) \<Rightarrow>
                    (case Agree p priv ephPub ctx w of
                       (Inl e, w) \<Rightarrow> (Inl (refusedKey e mismatch), release (release w))
                     | (Inr ours, w) \<Rightarrow>
                         (if theirs \<noteq> ours then Inl mismatch else Inr (),
                          release (release (release w)))))))"

section \<open>Operations\<close>

definition freshKey :: "u32 \<Rightarrow> bytes \<Rightarrow> bytes \<Rightarrow> int \<Rightarrow> onionKey" where
  "freshKey epoch priv pub cacheSize =
     \<lparr>ok_epoch = epoch, ok_priv = priv, ok_pub = pub, ok_setups = NewSetupCache cacheSize\<rparr>"

definition staticRing :: "bytes \<Rightarrow> bytes \<Rightarrow> int \<Rightarrow> OnionRing" where
  "staticRing priv pub cacheSize =
     \<lparr>rg_pubSize = length pub, rg_cacheSize = cacheSize,
      rg_current = Some (freshKey 0 priv pub cacheSize), rg_previous = None, rg_closed = False\<rparr>"

definition NewOnionRing :: "provider \<Rightarrow> bytes option \<Rightarrow> bytes \<Rightarrow> int \<Rightarrow> OnionRing io" where
  "NewOnionRing p priv pub cacheSize w =
     (if cacheSize < 0 \<or> cacheSize > MaxSetupCache then (Inl ErrCacheSize, w)
      else
        case PublicKeySize p w of
          (Inl e, w) \<Rightarrow> (Inl e, w)
        | (Inr sz, w) \<Rightarrow>
            (case priv of
               None \<Rightarrow> (Inl ErrOnionKey, w)
             | Some k \<Rightarrow>
                 if length pub \<noteq> sz then (Inl ErrOnionKey, w)
                 else
                   case checkKeyPair p k pub ErrOnionKey w of
                     (Inl e, w) \<Rightarrow> (Inl e, w)
                   | (Inr _, w) \<Rightarrow>
                       (Inr \<lparr>rg_pubSize = sz, rg_cacheSize = cacheSize,
                             rg_current = Some (freshKey 0 k pub cacheSize),
                             rg_previous = None, rg_closed = False\<rparr>, w)))"

definition Rotate :: "provider \<Rightarrow> bytes option \<Rightarrow> bytes \<Rightarrow> OnionRing \<Rightarrow> world \<Rightarrow> u32 result \<times> OnionRing \<times> world" where
  "Rotate p priv pub g w =
     (case priv of
        None \<Rightarrow> (Inl ErrOnionKey, g, w)
      | Some k \<Rightarrow>
          if length pub \<noteq> rg_pubSize g then (Inl ErrOnionKey, g, w)
          else
            case checkKeyPair p k pub ErrOnionKey w of
              (Inl e, w) \<Rightarrow> (Inl e, g, w)
            | (Inr _, w) \<Rightarrow>
                if rg_closed g then (Inl errRingClosed, g, w)
                else
                  case rg_current g of
                    None \<Rightarrow> (Inl Panic, g, w)
                  | Some cur \<Rightarrow>
                      if pub = ok_pub cur then (Inl ErrOnionKey, g, w)
                      else
                        (Inr (ok_epoch cur + 1),
                         g\<lparr>rg_previous := Some cur,
                           rg_current := Some (freshKey (ok_epoch cur + 1) k pub (rg_cacheSize g))\<rparr>,
                         (if rg_previous g = None then w else release w)))"

definition Retire :: "OnionRing \<Rightarrow> world \<Rightarrow> OnionRing \<times> world" where
  "Retire g w =
     (if rg_previous g = None then (g, w) else (g\<lparr>rg_previous := None\<rparr>, release w))"

definition OnionRing_Close :: "OnionRing \<Rightarrow> world \<Rightarrow> OnionRing \<times> world" where
  "OnionRing_Close g w =
     (let w = (if rg_current g = None then w else release w);
          w = (if rg_previous g = None then w else release w)
      in (g\<lparr>rg_current := None, rg_previous := None, rg_closed := True\<rparr>, w))"

definition Current :: "OnionRing \<Rightarrow> u32 \<times> bytes option" where
  "Current g = (case rg_current g of None \<Rightarrow> (0, None) | Some k \<Rightarrow> (ok_epoch k, Some (ok_pub k)))"

text \<open>
  One round of the loop of \<^verbatim>\<open>Open\<close>; \<open>opened\<close> keeps the first layer and whether the previous key
  opened it, \<open>refused\<close> the first error.
\<close>

definition tryKey ::
  "provider \<Rightarrow> Cell \<Rightarrow> bool \<Rightarrow> onionKey option
     \<Rightarrow> (SetupLayer \<times> bool) option \<times> error option \<Rightarrow> world
     \<Rightarrow> ((SetupLayer \<times> bool) option \<times> error option) \<times> world" where
  "tryKey p cell isPrev slot acc w =
     (case slot of
        None \<Rightarrow> (acc, w)
      | Some k \<Rightarrow>
          (case acc of (opened, refused) \<Rightarrow>
             (case OpenSetup p (ok_priv k) (ok_pub k) cell w of
                (Inl e, w) \<Rightarrow> ((opened, if refused = None then Some e else refused), w)
              | (Inr layer, w) \<Rightarrow>
                  if opened = None then ((Some (layer, isPrev), refused), w)
                  else ((opened, refused), release w))))"

text \<open>The whole loop, over the current and the previous key, to the end.\<close>

definition openTry ::
  "provider \<Rightarrow> Cell \<Rightarrow> OnionRing \<Rightarrow> world \<Rightarrow> ((SetupLayer \<times> bool) option \<times> error option) \<times> world" where
  "openTry p cell g w =
     (case tryKey p cell False (rg_current g) (None, None) w of
        (acc, w) \<Rightarrow> tryKey p cell True (rg_previous g) acc w)"

text \<open>
  Without any live key the Go function would return neither a layer nor an error, which its
  caller dereferences: a panic, which the invariant below excludes.
\<close>

definition Open :: "provider \<Rightarrow> Cell \<Rightarrow> OnionRing \<Rightarrow> world \<Rightarrow> SetupLayer result \<times> OnionRing \<times> world" where
  "Open p cell g w =
     (if rg_closed g then (Inl errRingClosed, g, w)
      else
            (case openTry p cell g w of
               ((opened, refused), w) \<Rightarrow>
                 (case opened of
                    None \<Rightarrow> (Inl (case refused of None \<Rightarrow> Panic | Some e \<Rightarrow> e), g, w)
                  | Some (layer, isPrev) \<Rightarrow>
                      (case (if isPrev then rg_previous g else rg_current g) of
                         None \<Rightarrow> (Inl Panic, g, w)
                       | Some k \<Rightarrow>
                           (case SetupCache_Add (sl_Tag layer) (ok_setups k) of
                              (Inl e, c) \<Rightarrow> (Inl e, g, release w)
                            | (Inr _, c) \<Rightarrow>
                                (Inr layer,
                                 (if isPrev then g\<lparr>rg_previous := Some (k\<lparr>ok_setups := c\<rparr>)\<rparr>
                                  else g\<lparr>rg_current := Some (k\<lparr>ok_setups := c\<rparr>)\<rparr>), w))))))"

section \<open>Invariant\<close>

definition wf_key :: "onionKey option \<Rightarrow> bool" where
  "wf_key k = (case k of None \<Rightarrow> True | Some k \<Rightarrow> wf_cache (ok_setups k))"

definition succeeds :: "onionKey option \<Rightarrow> onionKey option \<Rightarrow> bool" where
  "succeeds c q =
     (case c of None \<Rightarrow> True
      | Some c \<Rightarrow>
          (case q of None \<Rightarrow> True | Some q \<Rightarrow> ok_pub c \<noteq> ok_pub q \<and> ok_epoch c = ok_epoch q + 1))"

definition wf_ring :: "OnionRing \<Rightarrow> bool" where
  "wf_ring g \<longleftrightarrow>
     rg_closed g = (rg_current g = None) \<and> (rg_closed g \<longrightarrow> rg_previous g = None) \<and>
     wf_key (rg_current g) \<and> wf_key (rg_previous g) \<and>
     succeeds (rg_current g) (rg_previous g)"

text \<open>The private keys the ring owns.\<close>

definition ring_keys :: "OnionRing \<Rightarrow> nat" where
  "ring_keys g = (if rg_current g = None then 0 else 1) + (if rg_previous g = None then 0 else 1)"

lemma succeeds_simps [simp]:
  "succeeds None q0" "succeeds c0 None"
  "succeeds (Some c) (Some q) \<longleftrightarrow> ok_pub c \<noteq> ok_pub q \<and> ok_epoch c = ok_epoch q + 1"
  by (simp_all add: succeeds_def split: option.split)

lemma succeeds_setups [simp]:
  "succeeds (Some (k\<lparr>ok_setups := s\<rparr>)) q = succeeds (Some k) q"
  "succeeds c (Some (k\<lparr>ok_setups := s\<rparr>)) = succeeds c (Some k)"
  by (simp_all add: succeeds_def split: option.split)

lemma SetupCache_Add_wf: "SetupCache_Add t c = (r, c') \<Longrightarrow> wf_cache c \<Longrightarrow> wf_cache c'"
  using tags.add_inv by blast

lemma grows_checkKeyPair: "provider_ok p n ov \<Longrightarrow> grows 0 (checkKeyPair p priv pub m)"
  by (auto simp: grows_def checkKeyPair_def dest!: growsD [OF grows_GenerateEphemeral]
      growsD [OF grows_Agree] split: prod.splits sum.splits if_splits)

lemma NewOnionRing_wf:
  assumes "provider_ok p n ov" "NewOnionRing p priv pub m w = (r, w')"
  shows "live w' = live w" "r = Inr g \<Longrightarrow> wf_ring g \<and> rg_cacheSize g = m \<and> 0 \<le> m \<and> m \<le> MaxSetupCache"
proof -
  show "live w' = live w"
    using assms(2) by (auto simp: NewOnionRing_def dest!: growsD [OF grows_PublicKeySize [OF assms(1)]]
        growsD [OF grows_checkKeyPair [OF assms(1)]] split: if_splits prod.splits sum.splits option.splits)
  show "wf_ring g \<and> rg_cacheSize g = m \<and> 0 \<le> m \<and> m \<le> MaxSetupCache" if "r = Inr g"
    using assms(2) that
    by (auto simp: NewOnionRing_def wf_ring_def wf_key_def freshKey_def wf_NewSetupCache
        split: if_splits prod.splits sum.splits option.splits)
qed

lemma Rotate_wf:
  assumes "wf_ring g" "Rotate p priv pub g w = (r, g', w')"
  shows "wf_ring g'" "isl r \<Longrightarrow> g' = g"
  using assms
  by (auto simp: Rotate_def wf_ring_def wf_key_def freshKey_def wf_NewSetupCache
      split: if_splits prod.splits sum.splits option.splits)

lemma Retire_wf: "wf_ring g \<Longrightarrow> Retire g w = (g', w') \<Longrightarrow> wf_ring g'"
  by (auto simp: Retire_def wf_ring_def wf_key_def split: if_splits)

lemma Close_wf: "OnionRing_Close g w = (g', w') \<Longrightarrow> wf_ring g'"
  by (auto simp: OnionRing_Close_def wf_ring_def wf_key_def Let_def)

section \<open>Opening a setup\<close>

text \<open>The ring after \<^verbatim>\<open>Open\<close> took a layer of one of its keys.\<close>

definition key_of :: "bool \<Rightarrow> OnionRing \<Rightarrow> onionKey option" where
  "key_of isPrev g = (if isPrev then rg_previous g else rg_current g)"

definition took :: "OnionRing \<Rightarrow> bool \<Rightarrow> onionKey \<Rightarrow> SetupTag \<Rightarrow> OnionRing \<Rightarrow> bool" where
  "took g isPrev k t g' \<longleftrightarrow>
     (\<exists>c. SetupCache_Add t (ok_setups k) = (Inr (), c)
        \<and> g' = (if isPrev then g\<lparr>rg_previous := Some (k\<lparr>ok_setups := c\<rparr>)\<rparr>
               else g\<lparr>rg_current := Some (k\<lparr>ok_setups := c\<rparr>)\<rparr>))"

lemma tryKey_slot:
  assumes "tryKey p cell b slot acc w = ((opened, refused), w')"
  shows "opened = fst acc \<or> (\<exists>k l. slot = Some k \<and> opened = Some (l, b) \<and> fst acc = None
            \<and> (\<exists>w1. OpenSetup p (ok_priv k) (ok_pub k) cell w = (Inr l, w1)))"
    "fst acc \<noteq> None \<Longrightarrow> opened = fst acc"
  using assms by (auto simp: tryKey_def split: option.splits prod.splits sum.splits if_splits)

lemma openTry_slot:
  assumes "openTry p cell g w = ((Some (l, b), refused), w')"
  obtains k w1 w2 where "key_of b g = Some k" "OpenSetup p (ok_priv k) (ok_pub k) cell w1 = (Inr l, w2)"
proof -
  obtain o1 f1 w1 where a1: "tryKey p cell False (rg_current g) (None, None) w = ((o1, f1), w1)"
    by (metis surj_pair)
  then have a2: "tryKey p cell True (rg_previous g) (o1, f1) w1 = ((Some (l, b), refused), w')"
    using assms by (simp add: openTry_def)
  show ?thesis
    using tryKey_slot(1) [OF a1] tryKey_slot(1) [OF a2] that by (cases b) (auto simp: key_of_def)
qed

lemma Open_Inr:
  assumes "Open p cell g w = (Inr l, g', w')"
  obtains b k w1 w2 refused where "\<not> rg_closed g" "key_of b g = Some k" "took g b k (sl_Tag l) g'"
    "OpenSetup p (ok_priv k) (ok_pub k) cell w1 = (Inr l, w2)"
    "openTry p cell g w = ((Some (l, b), refused), w')"
proof -
  obtain opened refused w2 where o: "openTry p cell g w = ((opened, refused), w2)"
    by (metis surj_pair)
  obtain b k c where b: "opened = Some (l, b)" "key_of b g = Some k" "w2 = w'"
    "SetupCache_Add (sl_Tag l) (ok_setups k) = (Inr (), c)"
    "g' = (if b then g\<lparr>rg_previous := Some (k\<lparr>ok_setups := c\<rparr>)\<rparr> else g\<lparr>rg_current := Some (k\<lparr>ok_setups := c\<rparr>)\<rparr>)"
    and nc: "\<not> rg_closed g"
    using assms o by (auto simp: Open_def key_of_def split: if_splits option.splits prod.splits sum.splits)
  obtain w3 w4 where "OpenSetup p (ok_priv k) (ok_pub k) cell w3 = (Inr l, w4)"
    using openTry_slot [OF o [unfolded b(1)]] b(2) by (metis option.inject)
  then show ?thesis
    using that nc b o unfolding took_def by blast
qed

lemma took_wf:
  assumes "wf_ring g" "key_of b g = Some k" "took g b k t g'"
  shows "wf_ring g'"
proof -
  obtain c where c: "SetupCache_Add t (ok_setups k) = (Inr (), c)"
    and g': "g' = (if b then g\<lparr>rg_previous := Some (k\<lparr>ok_setups := c\<rparr>)\<rparr>
               else g\<lparr>rg_current := Some (k\<lparr>ok_setups := c\<rparr>)\<rparr>)"
    using assms(3) by (auto simp: took_def)
  have "wf_cache (ok_setups k)"
    using assms(1,2) by (cases b) (simp_all add: key_of_def wf_ring_def wf_key_def)
  then have "wf_cache c" using SetupCache_Add_wf [OF c] by blast
  then show ?thesis
    using assms(1,2) unfolding g'
    by (cases b) (auto simp: key_of_def wf_ring_def wf_key_def simp del: succeeds_simps(3))
qed

lemma Open_err: "Open p cell g w = (Inl e, g', w') \<Longrightarrow> g' = g"
  by (auto simp: Open_def split: if_splits option.splits prod.splits sum.splits)

lemma Open_wf: "wf_ring g \<Longrightarrow> Open p cell g w = (r, g', w') \<Longrightarrow> wf_ring g'"
  by (cases r) (auto dest: Open_err elim!: Open_Inr intro: took_wf)

lemma live_tryKey:
  assumes "provider_ok p n ov" "tryKey p cell b slot acc w = ((opened, refused), w')"
  shows "live w' = live w + (if fst acc = None \<and> opened \<noteq> None then 1 else 0)"
  using assms(2)
  by (auto simp: tryKey_def dest!: live_OpenSetup [OF assms(1)] split: option.splits prod.splits sum.splits if_splits)

lemma live_Open:
  assumes "provider_ok p n ov" "wf_ring g" "Open p cell g w = (r, g', w')"
  shows "live w' = live w + (if isl r then 0 else 1)"
proof -
  obtain o1 f1 w1 where a1: "tryKey p cell False (rg_current g) (None, None) w = ((o1, f1), w1)"
    by (metis surj_pair)
  obtain o2 f2 w2 where a2: "tryKey p cell True (rg_previous g) (o1, f1) w1 = ((o2, f2), w2)"
    by (metis surj_pair)
  have o: "openTry p cell g w = ((o2, f2), w2)" using a1 a2 by (simp add: openTry_def)
  note l1 = live_tryKey [OF assms(1) a1] and l2 = live_tryKey [OF assms(1) a2] and s = tryKey_slot(2) [OF a2]
  have key: "(if b then rg_previous g else rg_current g) \<noteq> None" if "o2 = Some (l, b)" for l b
    using tryKey_slot(1) [OF a1] tryKey_slot(1) [OF a2] that by auto
  show ?thesis
  proof (cases "rg_closed g")
    case True
    then show ?thesis using assms(3) by (auto simp: Open_def)
  next
    case False
    show ?thesis
    proof (cases o2)
      case None
      then show ?thesis using False assms(3) o l1 l2 s by (auto simp: Open_def)
    next
      case (Some lb)
      then have "live w2 = live w + 1" using l1 l2 s by (cases o1) auto
      then show ?thesis
        using False assms(3) o Some key
        by (cases lb) (auto simp: Open_def split: option.splits prod.splits sum.splits)
    qed
  qed
qed

section \<open>Histories of a ring\<close>

text \<open>
  The calls a ring can get, in any order, each with the world it finds: \<^verbatim>\<open>Open\<close> from the handler
  of any link, \<^verbatim>\<open>Rotate\<close>, \<^verbatim>\<open>Retire\<close> and \<^verbatim>\<open>Close\<close> from the node.
\<close>

datatype ring_call = COpen Cell world | CRotate "bytes option" bytes world | CRetire world | CClose world

definition ring_step :: "provider \<Rightarrow> OnionRing \<Rightarrow> ring_call \<Rightarrow> OnionRing" where
  "ring_step p g call =
     (case call of
        COpen cell w \<Rightarrow> fst (snd (Open p cell g w))
      | CRotate priv pub w \<Rightarrow> fst (snd (Rotate p priv pub g w))
      | CRetire w \<Rightarrow> fst (Retire g w)
      | CClose w \<Rightarrow> fst (OnionRing_Close g w))"

text \<open>What a call accepts: the epoch of the key that opened a setup and the tag burned for it.\<close>

definition accepted :: "provider \<Rightarrow> OnionRing \<Rightarrow> ring_call \<Rightarrow> (u32 \<times> SetupTag) list" where
  "accepted p g call =
     (case call of
        COpen cell w \<Rightarrow>
          (case Open p cell g w of
             (Inl e, g', w') \<Rightarrow> []
           | (Inr l, g', w') \<Rightarrow>
               (case openTry p cell g w of
                  ((Some (layer, isPrev), refused), w) \<Rightarrow> [(ok_epoch (the (key_of isPrev g)), sl_Tag l)]
                | _ \<Rightarrow> []))
      | _ \<Rightarrow> [])"

fun history :: "provider \<Rightarrow> OnionRing \<Rightarrow> ring_call list \<Rightarrow> (u32 \<times> SetupTag) list" where
  "history p g [] = []"
| "history p g (call # calls) = accepted p g call @ history p (ring_step p g call) calls"

definition is_rotate :: "ring_call \<Rightarrow> bool" where
  "is_rotate call = (case call of CRotate _ _ _ \<Rightarrow> True | _ \<Rightarrow> False)"

text \<open>\<open>n\<close> is the newest epoch; the counter must not wrap while the history lasts.\<close>

definition numbered :: "nat \<Rightarrow> OnionRing \<Rightarrow> bool" where
  "numbered n g \<longleftrightarrow> (\<forall>k. rg_current g = Some k \<longrightarrow> unat (ok_epoch k) = n)
     \<and> (\<forall>k. rg_previous g = Some k \<longrightarrow> unat (ok_epoch k) < n)"

text \<open>Every tag accepted under a key that is still in the ring is in that key's cache.\<close>

definition burned :: "nat \<Rightarrow> (u32 \<times> SetupTag) set \<Rightarrow> OnionRing \<Rightarrow> bool" where
  "burned n past g \<longleftrightarrow> (\<forall>(e, t) \<in> past. unat e \<le> n
     \<and> (\<forall>k b. key_of b g = Some k \<longrightarrow> ok_epoch k = e \<longrightarrow> t \<in> set (cache_seen (ok_setups k))))"

lemma key_of_simps [simp]: "key_of True g = rg_previous g" "key_of False g = rg_current g"
  by (simp_all add: key_of_def)

lemma burnedD:
  assumes "burned n past g" "(e, t) \<in> past"
  shows "unat e \<le> n" "key_of b g = Some k \<Longrightarrow> ok_epoch k = e \<Longrightarrow> t \<in> set (cache_seen (ok_setups k))"
  using assms unfolding burned_def by blast+

lemma numbered_epochs:
  "numbered n g \<Longrightarrow> key_of b g = Some k \<Longrightarrow> key_of (\<not> b) g = Some q \<Longrightarrow> ok_epoch k \<noteq> ok_epoch q"
  by (cases b) (auto simp: numbered_def)

lemma took_keys:
  assumes "took g b k t g'" "key_of b g = Some k"
  obtains c where "key_of b g' = Some (k\<lparr>ok_setups := c\<rparr>)" "key_of (\<not> b) g' = key_of (\<not> b) g"
    "t \<notin> set (cache_seen (ok_setups k))" "set (cache_seen c) = insert t (set (cache_seen (ok_setups k)))"
  using assms by (cases b) (auto simp: took_def SetupCache_Add_def split: if_splits)

lemma took_burned:
  assumes "numbered n g" "burned n past g" "key_of b g = Some k" "took g b k t g'"
  shows "(ok_epoch k, t) \<notin> past" "numbered n g'" "burned n (insert (ok_epoch k, t) past) g'"
proof -
  obtain c where c: "key_of b g' = Some (k\<lparr>ok_setups := c\<rparr>)" "key_of (\<not> b) g' = key_of (\<not> b) g"
    "t \<notin> set (cache_seen (ok_setups k))" "set (cache_seen c) = insert t (set (cache_seen (ok_setups k)))"
    by (rule took_keys [OF assms(4,3)])
  show "(ok_epoch k, t) \<notin> past"
    using burnedD(2) [OF assms(2) _ assms(3)] c(3) by blast
  show "numbered n g'"
    using assms(1,3) c(1,2) by (cases b) (auto simp: numbered_def)
  have "unat (ok_epoch k) \<le> n"
    using assms(1,3) by (cases b) (auto simp: numbered_def)
  moreover have "t' \<in> set (cache_seen (ok_setups q))"
    if "(e, t') \<in> insert (ok_epoch k, t) past" "key_of d g' = Some q" "ok_epoch q = e" for e t' q d
  proof (cases "d = b")
    case True
    then show ?thesis using that c(1,4) burnedD(2) [OF assms(2) _ assms(3)] by auto
  next
    case False
    then have "key_of d g = Some q" "d = (\<not> b)" using that(2) c(2) by auto
    then show ?thesis using that numbered_epochs [OF assms(1,3), of q] burnedD(2) [OF assms(2)] by auto
  qed
  ultimately show "burned n (insert (ok_epoch k, t) past) g'"
    using assms(2) by (auto simp: burned_def)
qed

lemma Rotate_burned:
  assumes "wf_ring g" "numbered n g" "burned n past g" "Rotate p priv pub g w = (r, g', w')" "Suc n < 2 ^ 32"
  shows "\<exists>m \<le> Suc n. numbered m g' \<and> burned m past g'"
proof (cases r)
  case (Inl e)
  then show ?thesis using Rotate_wf(2) [OF assms(1,4)] assms(2,3) by (intro exI [of _ n]) simp
next
  case (Inr e)
  then obtain cur key where cur: "rg_current g = Some cur"
    and g': "g' = g\<lparr>rg_previous := Some cur, rg_current := Some (freshKey (ok_epoch cur + 1) key pub (rg_cacheSize g))\<rparr>"
    using assms(4) by (auto simp: Rotate_def split: option.splits if_splits prod.splits sum.splits)
  have n: "unat (ok_epoch cur) = n" using cur assms(2) by (simp add: numbered_def)
  then have up: "unat (ok_epoch cur + 1) = Suc n"
    using assms(5) by (simp add: unat_word_ariths)
  have "numbered (Suc n) g'"
    using up n by (simp add: g' numbered_def freshKey_def)
  moreover have "burned (Suc n) past g'"
  proof (unfold burned_def, intro ballI, clarify, intro conjI allI impI)
    fix e t assume et: "(e, t) \<in> past"
    then have le: "unat e \<le> n" using assms(3) by (auto simp: burned_def)
    then show "unat e \<le> Suc n" by simp
    fix k b assume k: "key_of b g' = Some k" "ok_epoch k = e"
    show "t \<in> set (cache_seen (ok_setups k))"
    proof (cases b)
      case True
      then have "k = cur" using k(1) by (simp add: g')
      then show ?thesis using burnedD(2) [OF assms(3) et, of False cur] cur k(2) by simp
    next
      case False
      then show ?thesis using k le up by (auto simp: g' freshKey_def)
    qed
  qed
  ultimately show ?thesis by blast
qed

lemma burned_mono:
  assumes "numbered n g" "burned n past g" "\<And>b k. key_of b g' = Some k \<Longrightarrow> key_of b g = Some k"
  shows "numbered n g' \<and> burned n past g'"
  using assms(1,2) assms(3) [of True] assms(3) [of False]
  by (auto simp: numbered_def burned_def dest!: assms(3)) blast+

lemma ring_step_burned:
  assumes "wf_ring g" "numbered n g" "burned n past g" "Suc n < 2 ^ 32"
  shows "wf_ring (ring_step p g call) \<and> distinct (accepted p g call) \<and> set (accepted p g call) \<inter> past = {}
    \<and> (\<exists>m \<le> (if is_rotate call then Suc n else n). numbered m (ring_step p g call)
          \<and> burned m (past \<union> set (accepted p g call)) (ring_step p g call))"
proof (cases call)
  case (COpen cell w)
  obtain r g' w' where o: "Open p cell g w = (r, g', w')" by (metis surj_pair)
  note wf' = Open_wf [OF assms(1) o]
  show ?thesis
  proof (cases r)
    case (Inl e)
    then show ?thesis
      using COpen o wf' Open_err [of p cell g w e g' w'] assms by (auto simp: ring_step_def accepted_def is_rotate_def)
  next
    case (Inr l)
    then obtain b k refused where k: "key_of b g = Some k" "took g b k (sl_Tag l) g'"
      "openTry p cell g w = ((Some (l, b), refused), w')"
      using Open_Inr o by metis
    then have "accepted p g call = [(ok_epoch k, sl_Tag l)]" "ring_step p g call = g'"
      using COpen o Inr by (simp_all add: accepted_def ring_step_def)
    then show ?thesis
      using took_burned [OF assms(2,3) k(1,2)] wf' COpen by (auto simp: is_rotate_def)
  qed
next
  case (CRotate priv pub w)
  obtain r g' w' where "Rotate p priv pub g w = (r, g', w')" by (metis surj_pair)
  then show ?thesis
    using CRotate Rotate_wf(1) Rotate_burned assms by (auto simp: ring_step_def accepted_def is_rotate_def)
next
  case (CRetire w)
  obtain g' w' where g': "Retire g w = (g', w')" by (metis surj_pair)
  then have "key_of b g' = Some k \<Longrightarrow> key_of b g = Some k" for b k
    by (cases b) (auto simp: Retire_def split: if_splits)
  then have "numbered n g' \<and> burned n past g'" by (rule burned_mono [OF assms(2,3)])
  moreover note Retire_wf [OF assms(1) g']
  ultimately show ?thesis
    using CRetire g' by (auto simp: ring_step_def accepted_def is_rotate_def)
next
  case (CClose w)
  obtain g' w' where g': "OnionRing_Close g w = (g', w')" by (metis surj_pair)
  then have "key_of b g' = Some k \<Longrightarrow> key_of b g = Some k" for b k
    by (cases b) (auto simp: OnionRing_Close_def Let_def)
  then have "numbered n g' \<and> burned n past g'" by (rule burned_mono [OF assms(2,3)])
  moreover note Close_wf [OF g']
  ultimately show ?thesis
    using CClose g' by (auto simp: ring_step_def accepted_def is_rotate_def)
qed

lemma history_distinct:
  assumes "wf_ring g" "numbered n g" "burned n past g" "n + length (filter is_rotate calls) + 1 < 2 ^ 32"
  shows "distinct (history p g calls) \<and> set (history p g calls) \<inter> past = {}"
  using assms
proof (induction calls arbitrary: g n past)
  case Nil
  then show ?case by simp
next
  case (Cons call calls)
  have "Suc n < 2 ^ 32" using Cons.prems(4) by simp
  note step = ring_step_burned [OF Cons.prems(1-3) this, of p call]
  then obtain m where m: "m \<le> (if is_rotate call then Suc n else n)" "numbered m (ring_step p g call)"
    "burned m (past \<union> set (accepted p g call)) (ring_step p g call)" by blast
  have "m + length (filter is_rotate calls) + 1 < 2 ^ 32"
    using Cons.prems(4) m(1) by (simp split: if_splits)
  then show ?case
    using Cons.IH [OF _ m(2,3)] step by auto
qed

section \<open>A copy of a setup opens the same way\<close>

lemma newBuffer_again: "newBuffer r w = (Inr k, w') \<Longrightarrow> live v < limit v \<Longrightarrow> newBuffer r v = (Inr k, allocate v)"
  by (auto simp: newBuffer_def split: sum.splits if_splits)

lemma DeriveKey_again:
  "DeriveKey p s pu ctx sz w = (Inr k, w') \<Longrightarrow> live v < limit v \<Longrightarrow> DeriveKey p s pu ctx sz v = (Inr k, allocate v)"
  by (simp add: DeriveKey_def newBuffer_again)

lemma openKeys_again:
  assumes "openKeys p secret sk sealed ctx circuit i w = (Inr l, w')" "live v + 2 \<le> limit v"
  shows "openKeys p secret sk sealed ctx circuit i v = (Inr l, v)"
proof -
  obtain tag w1 ck w2 off w3 where s: "setupTag p secret ctx w = (Inr tag, w1)"
    "DeriveKey p secret purposeCell ctx (pKeySize p) w1 = (Inr ck, w2)"
    "deriveOffsets p secret ctx w2 = (Inr off, w3)"
    "openLayer p sk sealed ck off tag circuit i (release w3) = (Inr l, w')"
    using assms(1) by (auto simp: openKeys_def split: sum.splits prod.splits)
  have lim: "live v < limit v" "live (allocate v) < limit (allocate v)" using assms(2) by simp_all
  have "setupTag p secret ctx v = (Inr tag, v)"
    using s(1) lim by (auto simp: setupTag_def DeriveKey_again split: sum.splits prod.splits)
  moreover have "deriveOffsets p secret ctx (allocate v) = (Inr off, allocate v)"
    using deriveOffsets_ok [OF deriveOffsets_Inr [OF s(3)] lim(2)] .
  moreover have "openLayer p sk sealed ck off tag circuit i v = (Inr l, v)"
    using s(4) by (auto simp: openLayer_def readLayer_def Let_def split: sum.splits if_splits)
  ultimately show ?thesis
    using DeriveKey_again [OF s(2) lim(1)] by (simp add: openKeys_def)
qed

lemma OpenSetup_again:
  assumes "OpenSetup p priv pub cell w = (Inr l, w')" "live v + 4 \<le> limit v"
    and sz: "sizeCache w (pSuite p) = Some sz" "sizeCache v (pSuite p) = Some sz"
  shows "OpenSetup p priv pub cell v = (Inr l, allocate v)"
proof -
  have lim: "live v < limit v" "live (allocate v) < limit (allocate v)"
    "live (allocate (allocate v)) + 2 \<le> limit (allocate (allocate v))" using assms(2) by simp_all
  show ?thesis
    using assms(1) lim
    by (auto simp: OpenSetup_def Let_def sizesOf_cached [OF sz(1)] sizesOf_cached [OF sz(2)] Agree_def newBuffer_again
        DeriveKey_again openKeys_again split: sum.splits prod.splits if_splits)
qed

lemma OpenSetup_cache:
  assumes "sizeCache w (pSuite p) = Some sz" "OpenSetup p priv pub cell w = (r, w')"
  shows "sizeCache w' = sizeCache w" "limit w' = limit w"
proof -
  have nb: "newBuffer x y = (z, y') \<Longrightarrow> sizeCache y' = sizeCache y \<and> limit y' = limit y" for x y z y'
    by (auto simp: newBuffer_def split: sum.splits if_splits)
  have od: "deriveOffset p s pu ctx y = (z, y') \<Longrightarrow> sizeCache y' = sizeCache y \<and> limit y' = limit y" for s pu ctx y z y'
    by (auto simp: deriveOffset_def DeriveKey_def dest!: nb split: sum.splits prod.splits)
  have ok: "openKeys p s sk sealed ctx circuit i y = (z, y') \<Longrightarrow> sizeCache y' = sizeCache y \<and> limit y' = limit y"
    for s sk sealed ctx circuit i y z y'
    by (auto simp: openKeys_def openLayer_def readLayer_def setupTag_def deriveOffsets_def DeriveKey_def Let_def
        dest!: nb od split: sum.splits prod.splits if_splits)
  have "sizeCache w' = sizeCache w \<and> limit w' = limit w"
    using assms(2) sizesOf_cached [OF assms(1)]
    by (auto simp: OpenSetup_def Let_def Agree_def DeriveKey_def dest!: nb ok split: sum.splits prod.splits if_splits)
  then show "sizeCache w' = sizeCache w" "limit w' = limit w" by auto
qed

lemma tryKey_first:
  assumes "tryKey p cell b slot (None, refused) w = ((opened, refused'), w')"
  shows "opened = (case slot of None \<Rightarrow> None
    | Some k \<Rightarrow> (case OpenSetup p (ok_priv k) (ok_pub k) cell w of (Inl e, _) \<Rightarrow> None | (Inr l, _) \<Rightarrow> Some (l, b)))"
    "opened = None \<Longrightarrow> slot = Some k \<Longrightarrow> snd (OpenSetup p (ok_priv k) (ok_pub k) cell w) = w'"
  using assms by (auto simp: tryKey_def split: option.splits prod.splits sum.splits)

lemma tryKey_world:
  assumes "provider_ok p n ov" "sizeCache w (pSuite p) = Some sz" "tryKey p cell b slot (None, refused) w = ((None, refused'), w')"
  shows "live w' = live w" "limit w' = limit w" "sizeCache w' (pSuite p) = Some sz"
  using live_tryKey [OF assms(1,3)] assms(2) tryKey_first(2) [OF assms(3)] OpenSetup_cache [OF assms(2)] assms(3)
  by (cases slot; fastforce simp: tryKey_def split: prod.splits sum.splits)+

lemma OpenSetup_same_side:
  assumes "sizeCache w (pSuite p) = Some sz" "sizeCache v (pSuite p) = Some sz" "live w + 4 \<le> limit w" "live v + 4 \<le> limit v"
  shows "fst (OpenSetup p priv pub cell v) = Inr l \<longleftrightarrow> fst (OpenSetup p priv pub cell w) = Inr l"
  using OpenSetup_again [OF _ assms(4,1,2)] OpenSetup_again [OF _ assms(3,2,1)] by (metis fst_conv surj_pair)

lemma tryKey_again:
  assumes "tryKey p cell b slot (None, x) w = ((o1, f1), w1)" "tryKey p cell b slot' (None, y) v = ((o2, f2), v1)"
    and "sizeCache w (pSuite p) = Some sz" "sizeCache v (pSuite p) = Some sz" "live w + 4 \<le> limit w" "live v + 4 \<le> limit v"
    and "map_option (\<lambda>k. (ok_priv k, ok_pub k)) slot' = map_option (\<lambda>k. (ok_priv k, ok_pub k)) slot"
  shows "o2 = o1"
proof (cases slot)
  case None
  then show ?thesis using assms(7) tryKey_first(1) [OF assms(1)] tryKey_first(1) [OF assms(2)] by simp
next
  case (Some k)
  then obtain k' where k': "slot' = Some k'" "ok_priv k' = ok_priv k" "ok_pub k' = ok_pub k"
    using assms(7) by auto
  obtain r wx r' vx where r: "OpenSetup p (ok_priv k) (ok_pub k) cell w = (r, wx)" "OpenSetup p (ok_priv k) (ok_pub k) cell v = (r', vx)"
    by (metis surj_pair)
  then have "r' = Inr l \<longleftrightarrow> r = Inr l" for l
    using OpenSetup_same_side [OF assms(3-6), of "ok_priv k" "ok_pub k" cell l] by simp
  then have "r = r' \<or> isl r \<and> isl r'" by (cases r; cases r') auto
  then show ?thesis
    using tryKey_first(1) [OF assms(1)] tryKey_first(1) [OF assms(2)] Some k' r by (cases r; cases r') auto
qed

lemma openTry_again:
  assumes ok: "provider_ok p n ov" and sz: "sizeCache w (pSuite p) = Some sz" "sizeCache v (pSuite p) = Some sz"
    and room: "live w + 4 \<le> limit w" "live v + 4 \<le> limit v"
    and o: "openTry p cell g w = ((Some (l, b), refused), w')"
    and same: "\<And>d. map_option (\<lambda>k. (ok_priv k, ok_pub k)) (key_of d g') = map_option (\<lambda>k. (ok_priv k, ok_pub k)) (key_of d g)"
  obtains refused2 v' where "openTry p cell g' v = ((Some (l, b), refused2), v')"
proof -
  obtain o1 f1 w1 where a: "tryKey p cell False (rg_current g) (None, None) w = ((o1, f1), w1)" by (metis surj_pair)
  obtain o2 f2 v1 where c: "tryKey p cell False (rg_current g') (None, None) v = ((o2, f2), v1)" by (metis surj_pair)
  have eq: "o2 = o1"
    using tryKey_again [OF a c sz room] same [of False] by simp
  have oW: "tryKey p cell True (rg_previous g) (o1, f1) w1 = ((Some (l, b), refused), w')"
    using o a by (simp add: openTry_def)
  show ?thesis
  proof (cases o1)
    case (Some lb)
    then have "o1 = Some (l, b)" using tryKey_slot(2) [OF oW] by simp
    moreover obtain o3 f3 v' where d: "tryKey p cell True (rg_previous g') (o2, f2) v1 = ((o3, f3), v')" by (metis surj_pair)
    ultimately have "o3 = Some (l, b)" using tryKey_slot(2) [OF d] eq by simp
    then show ?thesis using that c d by (simp add: openTry_def)
  next
    case None
    note w1 = tryKey_world [OF ok sz(1) a [unfolded None]] and v1 = tryKey_world [OF ok sz(2) c [unfolded eq None]]
    obtain k wx where k: "rg_previous g = Some k" "OpenSetup p (ok_priv k) (ok_pub k) cell w1 = (Inr l, wx)" "b"
      using tryKey_first(1) [OF oW [unfolded None]] by (auto split: option.splits prod.splits sum.splits)
    obtain k' where k': "rg_previous g' = Some k'" "ok_priv k' = ok_priv k" "ok_pub k' = ok_pub k"
      using same [of True] k(1) by auto
    have "OpenSetup p (ok_priv k) (ok_pub k) cell v1 = (Inr l, allocate v1)"
      using OpenSetup_again [OF k(2)] v1 w1(3) room by simp
    then have "tryKey p cell True (rg_previous g') (o2, f2) v1 = ((Some (l, b), f2), allocate v1)"
      using k(3) k' eq None by (simp add: tryKey_def)
    then show ?thesis using that c by (simp add: openTry_def)
  qed
qed

section \<open>The properties of the ring\<close>


lemma sample_keysize: "PublicKeySize sampleSuite sampleNode = (Inr 32, sampleNode)"
  by (simp add: PublicKeySize_def sizesOf_def sampleNode_def sampleSuite_def)

lemma sample_keypair:
  "checkKeyPair sampleSuite (replicate 32 4) (replicate 32 4) m sampleNode = (Inr (), sampleNode\<lparr>rnd := replicate 3968 7\<rparr>)"
proof -
  have eph: "GenerateEphemeral sampleSuite sampleNode =
      (Inr (replicate 32 7, replicate 32 7), allocate (sampleNode\<lparr>rnd := replicate 3968 7\<rparr>))"
    by (simp add: GenerateEphemeral_def sampleSuite_def sampleEphemeral_def readFull_def sampleNode_def)
  have "validName exchangeKeyCheck" by code_simp
  then obtain ctx where ctx: "newContext sampleSuite exchangeKeyCheck [replicate 32 4, replicate 32 7] = Inr ctx"
    by (simp add: newContext_def NewContext_def TranscriptBytes_def badPart_def maxParts_def maxPartSize_def
        knownSuite_def sampleSuite_def ContextSize_def)
  have agree: "pAgree sampleSuite a b ctx = Inr (samplePublic a b)" for a b
    by (simp add: sampleSuite_def)
  show ?thesis
    using eph ctx samplePublic_comm [of "replicate 32 7" "replicate 32 4"]
    by (simp add: checkKeyPair_def Agree_def agree newBuffer_def sampleNode_def)
qed

lemma sampleRing_built:
  "NewOnionRing sampleSuite (Some (replicate 32 4)) (replicate 32 4) 8 sampleNode =
     (Inr (staticRing (replicate 32 4) (replicate 32 4) 8), sampleNode\<lparr>rnd := replicate 3968 7\<rparr>)"
  using sample_keysize sample_keypair by (simp add: NewOnionRing_def staticRing_def MaxSetupCache_def)


text \<open>
  a recorded setup is of no use twice. The same cell, offered again to the ring that opened it,
  on a fresh link and at any later moment before a rotation, is refused as a replay and leaves the
  ring as it was, whichever of the two keys it was built for.
\<close>

theorem ring_refuses_copy:
  assumes "provider_ok p n ov" "Open p cell g w = (Inr l, g', w')"
    and "sizeCache w (pSuite p) = Some sz" "sizeCache v (pSuite p) = Some sz"
    and "live w + 4 \<le> limit w" "live v + 4 \<le> limit v"
  shows "\<exists>v'. Open p cell g' v = (Inl ErrSetupReplay, g', v')"
proof -
  obtain b k refused where k: "\<not> rg_closed g" "key_of b g = Some k" "took g b k (sl_Tag l) g'"
    "openTry p cell g w = ((Some (l, b), refused), w')"
    using Open_Inr [OF assms(2)] by metis
  obtain c where c: "key_of b g' = Some (k\<lparr>ok_setups := c\<rparr>)" "key_of (\<not> b) g' = key_of (\<not> b) g"
    "set (cache_seen c) = insert (sl_Tag l) (set (cache_seen (ok_setups k)))"
    by (rule took_keys [OF k(3,2)])
  have "map_option (\<lambda>k. (ok_priv k, ok_pub k)) (key_of d g') = map_option (\<lambda>k. (ok_priv k, ok_pub k)) (key_of d g)" for d
    using c(1,2) k(2) by (cases "d = b") auto
  then obtain refused2 v' where v: "openTry p cell g' v = ((Some (l, b), refused2), v')"
    by (rule openTry_again [OF assms(1,3,4,5,6) k(4)])
  have "\<not> rg_closed g'" using k(1,3) by (auto simp: took_def split: if_splits)
  moreover have "(if b then rg_previous g' else rg_current g') = Some (k\<lparr>ok_setups := c\<rparr>)"
    using c(1) by (simp add: key_of_def)
  moreover have "SetupCache_Add (sl_Tag l) c = (Inl ErrSetupReplay, c)"
    using c(3) by (simp add: SetupCache_Add_def)
  ultimately show ?thesis
    using v by (simp add: Open_def)
qed

lemma sample_setup_opens:
  obtains cell l where "OpenSetup sampleSuite (replicate 32 4) (replicate 32 4) cell sampleNode = (Inr l, allocate sampleNode)"
proof -
  have node: "sizeCache sampleNode (pSuite sampleSuite) = Some (32, 16)" "live sampleNode + 4 \<le> limit sampleNode"
    by (simp_all add: sampleNode_def sampleSuite_def)
  obtain cell cks offs sks pubs Ls w' where b: "built sampleSuite 32 16 sampleChain sks cks offs pubs Ls"
    "carries_setup cell (Link (sampleChain ! 0)) 0 (Ls 0)"
  proof (rule BuildSetup_built [OF sampleSuite_ok sampleSuite_total sampleChain_wf _ _ node(1)])
    show "int (length sampleChain) * perHopCost 32 16 \<le> int BodySize"
      by (simp add: sampleChain_def perHopCost_def setupHdr_def setupFlags_def AddrSize_def BodySize_val)
    show "\<forall>hop \<in> set sampleChain. length (NextAddr hop) \<le> AddrSize \<and> (\<exists>priv. is_pair sampleSuite priv (StaticPub hop))"
      using sampleSuite_pair [of "replicate 32 4"] sampleSuite_pair [of "replicate 32 5"]
        sampleSuite_pair [of "replicate 32 6"] by (auto simp: sampleChain_def AddrSize_def)
    show "live sampleNode + 2 * length sampleChain + 4 \<le> limit sampleNode"
      "length sampleChain * 32 + BodySize + 0 \<le> length (rnd sampleNode)"
      by (simp_all add: sampleNode_def sampleChain_def BodySize_val)
  qed blast
  have hop: "hop_keys sampleSuite 0 (sampleChain ! 0) (pubs ! 0) (sks ! 0) (cks ! 0) (offs ! 0)"
    "wraps sampleSuite sampleChain sks offs pubs 0 (Ls (Suc 0)) (Ls 0)"
    "int (length (Ls 0)) = setupLayerLen 0 (perHopCost 32 16)"
    using b(1) by (auto simp: built_def sampleChain_def)
  have c0: "StaticPub (sampleChain ! 0) = replicate 32 4" "length (StaticPub (sampleChain ! 0)) = 32"
    "is_pair sampleSuite (replicate 32 4) (StaticPub (sampleChain ! 0))" "no_trailing_zero (NextAddr (sampleChain ! 0))"
    by (simp_all add: sampleChain_def sampleSuite_pair no_trailing_zero_def)
  have zero: "0 < MaxHops" by (simp add: MaxHops_def)
  show ?thesis
    by (rule OpenSetup_ok [OF sampleSuite_ok node(1) hop(1) c0(2,3) hop(2,3) zero c0(4) b(2) node(2)])
      (use that c0(1) in simp)
qed

theorem ring_refuses_copy_witness:
  "\<exists>cell l g' w' v'. Open sampleSuite cell (staticRing (replicate 32 4) (replicate 32 4) 8) sampleNode = (Inr l, g', w')
    \<and> Open sampleSuite cell g' sampleNode = (Inl ErrSetupReplay, g', v')"
proof -
  obtain cell l where o: "OpenSetup sampleSuite (replicate 32 4) (replicate 32 4) cell sampleNode = (Inr l, allocate sampleNode)"
    by (rule sample_setup_opens)
  then obtain g' where g': "Open sampleSuite cell (staticRing (replicate 32 4) (replicate 32 4) 8) sampleNode
      = (Inr l, g', allocate sampleNode)"
    by (simp add: Open_def openTry_def tryKey_def staticRing_def freshKey_def SetupCache_Add_def NewSetupCache_def)
  have "sizeCache sampleNode (pSuite sampleSuite) = Some (32, 16)" "live sampleNode + 4 \<le> limit sampleNode"
    by (simp_all add: sampleNode_def sampleSuite_def)
  then show ?thesis
    using ring_refuses_copy [OF sampleSuite_ok g', of "(32, 16)" sampleNode] g' by blast
qed

text \<open>
  the ring loses no key and keeps none. The buffers alive outside the ring change only by what
  crosses its boundary: a rotation that succeeds takes over the caller's key, one that fails takes
  nothing, a retirement and the closing release exactly the keys they drop, and opening a setup
  leaves one cell key if it succeeds and nothing if it fails.
\<close>

theorem ring_keys_conserved:
  assumes "provider_ok p n ov" "wf_ring g" "ring_keys g \<le> live w"
  shows "(case Rotate p priv pub g w of (r, g', w') \<Rightarrow>
        int (live w') - int (ring_keys g') = int (live w) - int (ring_keys g) - (if isl r then 0 else 1))
    \<and> (case Retire g w of (g', w') \<Rightarrow> int (live w') - int (ring_keys g') = int (live w) - int (ring_keys g))
    \<and> (case OnionRing_Close g w of (g', w') \<Rightarrow>
        ring_keys g' = 0 \<and> int (live w') = int (live w) - int (ring_keys g))
    \<and> (case Open p cell g w of (r, g', w') \<Rightarrow>
        ring_keys g' = ring_keys g \<and> int (live w') = int (live w) + (if isl r then 0 else 1))"
proof (intro conjI)
  show "case Rotate p priv pub g w of (r, g', w') \<Rightarrow>
      int (live w') - int (ring_keys g') = int (live w) - int (ring_keys g) - (if isl r then 0 else 1)"
    using assms(3)
    by (auto simp: Rotate_def ring_keys_def dest!: growsD [OF grows_checkKeyPair [OF assms(1)]]
        split: option.splits prod.splits sum.splits if_splits)
  show "case Retire g w of (g', w') \<Rightarrow> int (live w') - int (ring_keys g') = int (live w) - int (ring_keys g)"
    using assms(3) by (auto simp: Retire_def ring_keys_def split: if_splits)
  show "case OnionRing_Close g w of (g', w') \<Rightarrow> ring_keys g' = 0 \<and> int (live w') = int (live w) - int (ring_keys g)"
    using assms(3) by (auto simp: OnionRing_Close_def Let_def ring_keys_def split: if_splits)
  obtain r g' w' where o: "Open p cell g w = (r, g', w')" by (metis surj_pair)
  have "ring_keys g' = ring_keys g"
  proof (cases r)
    case (Inl e)
    then show ?thesis using o Open_err [of p cell g w] by simp
  next
    case (Inr l)
    then obtain b k where "key_of b g = Some k" "took g b k (sl_Tag l) g'" using Open_Inr o by metis
    then show ?thesis by (cases b) (auto simp: took_def ring_keys_def)
  qed
  then show "case Open p cell g w of (r, g', w') \<Rightarrow>
      ring_keys g' = ring_keys g \<and> int (live w') = int (live w) + (if isl r then 0 else 1)"
    using live_Open [OF assms(1,2) o] o by simp
qed

theorem ring_keys_conserved_witness:
  "case OnionRing_Close (staticRing [1] [2] 3) (sampleNode\<lparr>live := 5\<rparr>) of (g', w') \<Rightarrow>
     ring_keys g' = 0 \<and> int (live w') = 5 - int (ring_keys (staticRing [1] [2] 3))"
proof -
  have "wf_ring (staticRing [1] [2] 3)"
    by (simp add: staticRing_def wf_ring_def wf_key_def freshKey_def wf_NewSetupCache)
  then show ?thesis
    using ring_keys_conserved [OF sampleSuite_ok, of "staticRing [1] [2] 3" "sampleNode\<lparr>live := 5\<rparr>"]
    by (auto simp: ring_keys_def staticRing_def)
qed

end
