(* ===== verification/Limiter.thy ===== *)
theory Limiter
  imports Ring Complex_Main
begin

text \<open>
  \<^verbatim>\<open>relay/limits.go\<close>: the effective limits, token buckets, the table of sources and the admission
  of connections. Times and durations are integers of nanoseconds. A \<^verbatim>\<open>float64\<close> is a rational, an
  infinity or a NaN: sums and products of tokens are exact here, where the program rounds them.
  The state is the part of \<^verbatim>\<open>Relay\<close> that \<^verbatim>\<open>mu\<close> guards for this file; the theory of the relay extends
  the record.
\<close>

section \<open>Configuration\<close>

datatype float64 = NaN | Infinite bool | Fin rat

definition DefaultHandshakeTimeout :: int where "DefaultHandshakeTimeout = 2 * Second"

definition DefaultSetupTimeout :: int where "DefaultSetupTimeout = 10 * Second"

definition DefaultIdleTimeout :: int where "DefaultIdleTimeout = 5 * Minute"

definition DefaultCircuitLifetime :: int where "DefaultCircuitLifetime = 24 * Hour"

definition DefaultMaxHandshakes :: int where "DefaultMaxHandshakes = 32"

definition DefaultMaxLinks :: int where "DefaultMaxLinks = 512"

definition DefaultMaxLinksPerSource :: int where "DefaultMaxLinksPerSource = 32"

definition DefaultSourceLinkRate :: rat where "DefaultSourceLinkRate = 10"

definition DefaultSourceLinkBurst :: int where "DefaultSourceLinkBurst = 50"

definition DefaultSourceSetupRate :: rat where "DefaultSourceSetupRate = 2 / 10"

definition DefaultSourceSetupBurst :: int where "DefaultSourceSetupBurst = 10"

definition sourceHandshakeShare :: int where "sourceHandshakeShare = 8"

definition unpacedWriteTimeout :: int where "unpacedWriteTimeout = 5 * Second"

definition pacedWritePeriods :: int where "pacedWritePeriods = 4"

definition minPacedWriteLimit :: int where "minPacedWriteLimit = Second"

definition maxSources :: nat where "maxSources = 2 ^ 14"

text \<open>
  The fields of \<^verbatim>\<open>relay.Config\<close> that hold plain values; \<open>cf_Deliver\<close> and \<open>cf_Peers\<close> are its callbacks,
  \<open>None\<close> for nil.
\<close>

record Config =
  cf_SetupCache :: int
  cf_Period :: int
  cf_QueueCells :: int
  cf_HandshakeTimeout :: int
  cf_SetupTimeout :: int
  cf_WriteTimeout :: int
  cf_IdleTimeout :: int
  cf_CircuitLifetime :: int
  cf_MaxHandshakes :: int
  cf_MaxHandshakesPerSource :: int
  cf_MaxLinks :: int
  cf_MaxLinksPerSource :: int
  cf_SourceLinkRate :: float64
  cf_SourceLinkBurst :: int
  cf_SourceSetupRate :: float64
  cf_SourceSetupBurst :: int
  cf_Deliver :: "(u64 \<Rightarrow> bytes \<Rightarrow> bytes option) option"
  cf_Peers :: "(bytes \<Rightarrow> bytes option) option"

record limits =
  lm_handshake :: int
  lm_setup :: int
  lm_write :: int
  lm_idle :: int
  lm_lifetime :: int
  lm_handshakes :: int
  lm_sourceHandshakes :: int
  lm_links :: int
  lm_perSource :: int
  lm_linkRate :: rat
  lm_setupRate :: rat
  lm_linkBurst :: rat
  lm_setupBurst :: rat

definition pick :: "'a::{zero, ord} \<Rightarrow> 'a \<Rightarrow> 'a" where
  "pick v def = (if v = 0 then def else if v < 0 then 0 else v)"

definition is_rate :: "float64 \<Rightarrow> bool" where
  "is_rate f = (case f of Fin _ \<Rightarrow> True | _ \<Rightarrow> False)"

definition fin :: "float64 \<Rightarrow> rat" where
  "fin f = (case f of Fin q \<Rightarrow> q | _ \<Rightarrow> 0)"

definition resolveLimits :: "Config \<Rightarrow> limits result" where
  "resolveLimits cfg =
     (if \<not> is_rate (cf_SourceLinkRate cfg) \<or> \<not> is_rate (cf_SourceSetupRate cfg) then Inl errRate
      else if cf_SourceLinkBurst cfg < 0 \<or> cf_SourceSetupBurst cfg < 0 then Inl errBurst
      else
        let handshakes = pick (cf_MaxHandshakes cfg) DefaultMaxHandshakes;
            shared = (if handshakes = 0 then DefaultMaxHandshakes else handshakes)
        in Inr
          \<lparr>lm_handshake = pick (cf_HandshakeTimeout cfg) DefaultHandshakeTimeout,
           lm_setup = pick (cf_SetupTimeout cfg) DefaultSetupTimeout,
           lm_write =
             (if cf_WriteTimeout cfg \<noteq> 0 then pick (cf_WriteTimeout cfg) 0
              else if cf_Period cfg > 0 then max (pacedWritePeriods * cf_Period cfg) minPacedWriteLimit
              else unpacedWriteTimeout),
           lm_idle = pick (cf_IdleTimeout cfg) DefaultIdleTimeout,
           lm_lifetime = pick (cf_CircuitLifetime cfg) DefaultCircuitLifetime,
           lm_handshakes = handshakes,
           lm_sourceHandshakes = pick (cf_MaxHandshakesPerSource cfg) (max 1 (shared div sourceHandshakeShare)),
           lm_links = pick (cf_MaxLinks cfg) DefaultMaxLinks,
           lm_perSource = pick (cf_MaxLinksPerSource cfg) DefaultMaxLinksPerSource,
           lm_linkRate = pick (fin (cf_SourceLinkRate cfg)) DefaultSourceLinkRate,
           lm_setupRate = pick (fin (cf_SourceSetupRate cfg)) DefaultSourceSetupRate,
           lm_linkBurst = of_int (pick (cf_SourceLinkBurst cfg) DefaultSourceLinkBurst),
           lm_setupBurst = of_int (pick (cf_SourceSetupBurst cfg) DefaultSourceSetupBurst)\<rparr>)"

definition perSourceOn :: "limits \<Rightarrow> bool" where
  "perSourceOn l \<longleftrightarrow> lm_perSource l > 0 \<or> lm_sourceHandshakes l > 0 \<or> lm_linkRate l > 0 \<or> lm_setupRate l > 0"

section \<open>Buckets\<close>

record bucket =
  bk_rate :: rat
  bk_burst :: rat
  bk_tokens :: rat
  bk_last :: int

definition seconds :: "int \<Rightarrow> rat" where
  "seconds d = of_int d / of_int Second"

definition newBucket :: "rat \<Rightarrow> rat \<Rightarrow> int \<Rightarrow> bucket" where
  "newBucket rate burst now = \<lparr>bk_rate = rate, bk_burst = burst, bk_tokens = burst, bk_last = now\<rparr>"

definition refill :: "int \<Rightarrow> bucket \<Rightarrow> bucket" where
  "refill now b =
     b\<lparr>bk_tokens := min (bk_burst b) (bk_tokens b + seconds (now - bk_last b) * bk_rate b), bk_last := now\<rparr>"

definition bucket_take :: "int \<Rightarrow> bucket \<Rightarrow> bool \<times> bucket" where
  "bucket_take now b =
     (if bk_rate b \<le> 0 then (True, b)
      else
        let b = refill now b in
        if bk_tokens b < 1 then (False, b) else (True, b\<lparr>bk_tokens := bk_tokens b - 1\<rparr>))"

definition bucket_full :: "int \<Rightarrow> bucket \<Rightarrow> bool \<times> bucket" where
  "bucket_full now b =
     (if bk_rate b \<le> 0 then (True, b)
      else let b = refill now b in (bk_tokens b \<ge> bk_burst b, b))"

definition refilledIn :: "int \<Rightarrow> bucket \<Rightarrow> int \<times> bucket" where
  "refilledIn now b =
     (if bk_rate b \<le> 0 then (0, b)
      else
        let b = refill now b;
            secs = min ((bk_burst b - bk_tokens b) / bk_rate b) (seconds Hour)
        in (\<lfloor>secs * of_int Second\<rfloor>, b))"

section \<open>Sources\<close>

record source =
  s_open :: int
  s_handshaking :: int
  s_links :: bucket
  s_setups :: bucket
  s_forgetting :: bool

text \<open>The two checks both refill their bucket; the second runs only when the first holds.\<close>

definition forgettable :: "int \<Rightarrow> source \<Rightarrow> bool \<times> source" where
  "forgettable now s =
     (if s_open s \<noteq> 0 then (False, s)
      else
        case bucket_full now (s_links s) of (okl, bl) \<Rightarrow>
          (let s = s\<lparr>s_links := bl\<rparr> in
           if \<not> okl then (False, s)
           else case bucket_full now (s_setups s) of (oks, bs) \<Rightarrow> (oks, s\<lparr>s_setups := bs\<rparr>)))"

text \<open>\<^verbatim>\<open>netip.Addr\<close>: the zero value, four bytes or sixteen.\<close>

datatype Addr = NoAddr | V4 bytes | V6 bytes

definition unmap :: "Addr \<Rightarrow> Addr" where
  "unmap a =
     (case a of V6 b \<Rightarrow> (if take 12 b = replicate 10 0 @ [0xFF, 0xFF] then V4 (drop 12 b) else V6 b) | a \<Rightarrow> a)"

text \<open>\<open>None\<close> is an address that is not a \<^verbatim>\<open>*net.TCPAddr\<close>.\<close>

definition sourceOf :: "Addr option \<Rightarrow> Addr" where
  "sourceOf addr =
     (case addr of
        None \<Rightarrow> NoAddr
      | Some a \<Rightarrow> (case unmap a of V6 b \<Rightarrow> V6 (take 8 b @ replicate 8 0) | ip \<Rightarrow> ip))"

section \<open>Admission\<close>

record Counters =
  Accepted :: nat
  Forwarded :: nat
  Delivered :: nat
  Dropped :: nat
  Padding :: nat
  Broken :: nat
  AcceptRetries :: nat
  RefusedLinks :: nat
  RefusedBusy :: nat
  RefusedSource :: nat
  RefusedRate :: nat
  RefusedSetups :: nat
  RefusedExtend :: nat
  FailedExtend :: nat
  TimedOut :: nat
  Expired :: nat

definition zeroCounters :: Counters where
  "zeroCounters =
     \<lparr>Accepted = 0, Forwarded = 0, Delivered = 0, Dropped = 0, Padding = 0, Broken = 0, AcceptRetries = 0,
      RefusedLinks = 0, RefusedBusy = 0, RefusedSource = 0, RefusedRate = 0, RefusedSetups = 0,
      RefusedExtend = 0, FailedExtend = 0, TimedOut = 0, Expired = 0\<rparr>"

text \<open>
  The timers that \<^verbatim>\<open>settle\<close> starts are part of the state: when they fire and for which source. A
  connection is a number; \<open>conns\<close> are those \<^verbatim>\<open>Close\<close> will close.
\<close>

record Admission =
  lim :: limits
  conns :: "nat set"
  inbound :: int
  handshaking :: int
  sources :: "Addr \<rightharpoonup> source"
  sourceCap :: nat
  isClosed :: bool
  timers :: "(int \<times> Addr) list"
  stats :: Counters

definition settle :: "Addr \<Rightarrow> int \<Rightarrow> 'a Admission_scheme \<Rightarrow> 'a Admission_scheme" where
  "settle src now r =
     (case sources r src of
        None \<Rightarrow> r
      | Some s \<Rightarrow>
          if s_open s > 0 \<or> s_forgetting s then r
          else
            case forgettable now s of (gone, s) \<Rightarrow>
              if gone then r\<lparr>sources := (sources r)(src := None)\<rparr>
              else
                case refilledIn now (s_links s) of (wl, bl) \<Rightarrow>
                  (case refilledIn now (s_setups s) of (ws, bs) \<Rightarrow>
                     r\<lparr>sources := (sources r)(src \<mapsto> s\<lparr>s_links := bl, s_setups := bs, s_forgetting := True\<rparr>),
                       timers := timers r @ [(now + (max wl ws + Millisecond), src)]\<rparr>))"

text \<open>The callback of a timer, fired at time \<open>now\<close>.\<close>

definition forget :: "Addr \<Rightarrow> int \<Rightarrow> 'a Admission_scheme \<Rightarrow> 'a Admission_scheme" where
  "forget src now r =
     (case sources r src of
        None \<Rightarrow> r
      | Some s \<Rightarrow> settle src now (r\<lparr>sources := (sources r)(src \<mapsto> s\<lparr>s_forgetting := False\<rparr>)\<rparr>))"

definition source_for :: "Addr \<Rightarrow> int \<Rightarrow> 'a Admission_scheme \<Rightarrow> source option \<times> 'a Admission_scheme" where
  "source_for src now r =
     (case sources r src of
        Some s \<Rightarrow> (Some s, r)
      | None \<Rightarrow>
          if card (dom (sources r)) \<ge> sourceCap r then (None, r)
          else
            let s = \<lparr>s_open = 0, s_handshaking = 0,
                     s_links = newBucket (lm_linkRate (lim r)) (lm_linkBurst (lim r)) now,
                     s_setups = newBucket (lm_setupRate (lim r)) (lm_setupBurst (lim r)) now,
                     s_forgetting = False\<rparr>
            in (Some s, r\<lparr>sources := (sources r)(src \<mapsto> s)\<rparr>))"

text \<open>The shared caps and the bookkeeping at the end of \<^verbatim>\<open>admit\<close>; \<open>s\<close> is the source, if any counts.\<close>

definition admitShared ::
  "nat \<Rightarrow> Addr \<Rightarrow> int \<Rightarrow> source option \<Rightarrow> 'a Admission_scheme \<Rightarrow> unit result \<times> 'a Admission_scheme" where
  "admitShared conn src now s r =
     (let settled = (\<lambda>r. if s = None then r else settle src now r) in
      if lm_links (lim r) > 0 \<and> inbound r \<ge> lm_links (lim r) then
        (Inl errRefused, settled (r\<lparr>stats := stats r\<lparr>RefusedLinks := RefusedLinks (stats r) + 1\<rparr>\<rparr>))
      else if lm_handshakes (lim r) > 0 \<and> handshaking r \<ge> lm_handshakes (lim r) then
        (Inl errRefused, settled (r\<lparr>stats := stats r\<lparr>RefusedBusy := RefusedBusy (stats r) + 1\<rparr>\<rparr>))
      else
        let r = (case s of
                   None \<Rightarrow> r
                 | Some s \<Rightarrow> r\<lparr>sources := (sources r)(src \<mapsto>
                     s\<lparr>s_open := s_open s + 1, s_handshaking := s_handshaking s + 1\<rparr>)\<rparr>)
        in (Inr (), r\<lparr>inbound := inbound r + 1, handshaking := handshaking r + 1, conns := insert conn (conns r)\<rparr>))"

definition admit :: "nat \<Rightarrow> Addr \<Rightarrow> int \<Rightarrow> 'a Admission_scheme \<Rightarrow> unit result \<times> 'a Admission_scheme" where
  "admit conn src now r =
     (if isClosed r then (Inl errRelayClosed, r)
      else if perSourceOn (lim r) then
        case source_for src now r of
          (None, r) \<Rightarrow> (Inl errRefused, r\<lparr>stats := stats r\<lparr>RefusedSource := RefusedSource (stats r) + 1\<rparr>\<rparr>)
        | (Some s, r) \<Rightarrow>
            (case bucket_take now (s_links s) of (ok, b) \<Rightarrow>
               (let s = s\<lparr>s_links := b\<rparr>; r = r\<lparr>sources := (sources r)(src \<mapsto> s)\<rparr> in
                if \<not> ok then
                  (Inl errRefused, settle src now (r\<lparr>stats := stats r\<lparr>RefusedRate := RefusedRate (stats r) + 1\<rparr>\<rparr>))
                else if lm_perSource (lim r) > 0 \<and> s_open s \<ge> lm_perSource (lim r)
                   \<or> lm_sourceHandshakes (lim r) > 0 \<and> s_handshaking s \<ge> lm_sourceHandshakes (lim r) then
                  (Inl errRefused, settle src now (r\<lparr>stats := stats r\<lparr>RefusedSource := RefusedSource (stats r) + 1\<rparr>\<rparr>))
                else admitShared conn src now (Some s) r))
      else admitShared conn src now None r)"

definition handshakeDone :: "Addr \<Rightarrow> 'a Admission_scheme \<Rightarrow> 'a Admission_scheme" where
  "handshakeDone src r =
     (let r = r\<lparr>handshaking := handshaking r - 1\<rparr> in
      case sources r src of
        None \<Rightarrow> r
      | Some s \<Rightarrow> r\<lparr>sources := (sources r)(src \<mapsto> s\<lparr>s_handshaking := s_handshaking s - 1\<rparr>)\<rparr>)"

definition leave :: "nat \<Rightarrow> Addr \<Rightarrow> int \<Rightarrow> 'a Admission_scheme \<Rightarrow> 'a Admission_scheme" where
  "leave conn src now r =
     (let r = r\<lparr>conns := conns r - {conn}, inbound := inbound r - 1\<rparr> in
      case sources r src of
        None \<Rightarrow> r
      | Some s \<Rightarrow> settle src now (r\<lparr>sources := (sources r)(src \<mapsto> s\<lparr>s_open := s_open s - 1\<rparr>)\<rparr>))"

definition allowSetup :: "Addr \<Rightarrow> int \<Rightarrow> 'a Admission_scheme \<Rightarrow> bool \<times> 'a Admission_scheme" where
  "allowSetup src now r =
     (if lm_setupRate (lim r) \<le> 0 then (True, r)
      else
        case sources r src of
          None \<Rightarrow> (True, r)
        | Some s \<Rightarrow>
            (case bucket_take now (s_setups s) of (ok, b) \<Rightarrow>
               (ok, r\<lparr>sources := (sources r)(src \<mapsto> s\<lparr>s_setups := b\<rparr>)\<rparr>)))"

definition acceptBackoff :: "int \<Rightarrow> int" where
  "acceptBackoff d = (if d = 0 then 5 * Millisecond else min (2 * d) Second)"

section \<open>What the table counts\<close>

definition opens_of :: "'a Admission_scheme \<Rightarrow> Addr \<Rightarrow> int" where
  "opens_of r x = (case sources r x of None \<Rightarrow> 0 | Some s \<Rightarrow> s_open s)"

definition hands_of :: "'a Admission_scheme \<Rightarrow> Addr \<Rightarrow> int" where
  "hands_of r x = (case sources r x of None \<Rightarrow> 0 | Some s \<Rightarrow> s_handshaking s)"

definition forgetting :: "'a Admission_scheme \<Rightarrow> Addr set" where
  "forgetting r = {x. \<exists>s. sources r x = Some s \<and> s_forgetting s}"

definition bucket_ok :: "rat \<Rightarrow> rat \<Rightarrow> bucket \<Rightarrow> bool" where
  "bucket_ok rate burst b \<longleftrightarrow> bk_rate b = rate \<and> bk_burst b = burst \<and> 0 \<le> bk_tokens b \<and> bk_tokens b \<le> burst"

definition source_ok :: "limits \<Rightarrow> source \<Rightarrow> bool" where
  "source_ok l s \<longleftrightarrow> 0 \<le> s_handshaking s \<and> s_handshaking s \<le> s_open s
     \<and> bucket_ok (lm_linkRate l) (lm_linkBurst l) (s_links s)
     \<and> bucket_ok (lm_setupRate l) (lm_setupBurst l) (s_setups s)"

text \<open>The table is finite, within its cap and well formed, and a timer waits for each source marked.\<close>

definition table_ok :: "'a Admission_scheme \<Rightarrow> bool" where
  "table_ok r \<longleftrightarrow> finite (dom (sources r)) \<and> card (dom (sources r)) \<le> sourceCap r
     \<and> (\<forall>x s. sources r x = Some s \<longrightarrow> source_ok (lim r) s)
     \<and> distinct (map snd (timers r)) \<and> set (map snd (timers r)) = forgetting r"

definition limits_ok :: "limits \<Rightarrow> bool" where
  "limits_ok l \<longleftrightarrow> 0 \<le> lm_linkBurst l \<and> 0 \<le> lm_setupBurst l \<and> 0 \<le> lm_linkRate l \<and> 0 \<le> lm_setupRate l"

lemma pick_nonneg: "0 \<le> d \<Longrightarrow> 0 \<le> pick v (d :: 'a::linordered_idom)"
  by (auto simp: pick_def)

lemma pick_rates_nonneg:
  "0 \<le> pick v DefaultSourceLinkRate" "0 \<le> pick v DefaultSourceSetupRate"
  "0 \<le> pick u DefaultSourceLinkBurst" "0 \<le> pick u DefaultSourceSetupBurst"
  by (simp_all add: pick_nonneg DefaultSourceLinkRate_def DefaultSourceSetupRate_def
      DefaultSourceLinkBurst_def DefaultSourceSetupBurst_def)

lemma resolveLimits_ok: "resolveLimits cfg = Inr l \<Longrightarrow> limits_ok l"
  by (auto simp: resolveLimits_def Let_def limits_ok_def pick_rates_nonneg split: if_split_asm)

lemma bucket_ok_newBucket: "0 \<le> burst \<Longrightarrow> bucket_ok rate burst (newBucket rate burst now)"
  by (simp add: bucket_ok_def newBucket_def)

section \<open>Buckets\<close>

text \<open>Time does not run backwards for a bucket.\<close>

lemma refill_ok:
  assumes "bucket_ok rate burst b" "0 \<le> rate" "bk_last b \<le> now"
  shows "bucket_ok rate burst (refill now b)"
proof -
  have "0 \<le> seconds (now - bk_last b) * bk_rate b"
    using assms by (simp add: bucket_ok_def seconds_def Second_def Millisecond_def)
  then show ?thesis
    using assms(1) by (auto simp: bucket_ok_def refill_def)
qed

lemma bk_last_refill [simp]: "bk_last (refill now b) = now"
  by (simp add: refill_def)

lemma bucket_take_ok:
  assumes "bucket_ok rate burst b" "0 \<le> rate" "bk_last b \<le> now" "bucket_take now b = (ok, b')"
  shows "bucket_ok rate burst b' \<and> bk_last b' \<le> now"
  using assms refill_ok [OF assms(1-3)] by (auto simp: bucket_take_def Let_def bucket_ok_def split: if_splits)

lemma bucket_full_ok:
  assumes "bucket_ok rate burst b" "0 \<le> rate" "bk_last b \<le> now" "bucket_full now b = (ok, b')"
  shows "bucket_ok rate burst b' \<and> bk_last b' \<le> now"
  using assms refill_ok [OF assms(1-3)] by (auto simp: bucket_full_def Let_def split: if_splits)

lemma refilledIn_ok:
  assumes "bucket_ok rate burst b" "0 \<le> rate" "bk_last b \<le> now" "refilledIn now b = (wait, b')"
  shows "bucket_ok rate burst b' \<and> bk_last b' \<le> now \<and> 0 \<le> wait \<and> wait \<le> Hour"
proof (cases "bk_rate b \<le> 0")
  case True
  then show ?thesis using assms by (simp add: refilledIn_def Hour_def Minute_def Second_def Millisecond_def)
next
  case False
  let ?b = "refill now b"
  have b: "bucket_ok rate burst ?b" by (rule refill_ok [OF assms(1-3)])
  let ?s = "min ((bk_burst ?b - bk_tokens ?b) / bk_rate ?b) (seconds Hour)"
  have eq: "wait = \<lfloor>?s * of_int Second\<rfloor>" "b' = ?b"
    using assms(4) False by (auto simp: refilledIn_def Let_def)
  have "0 \<le> ?s" using b assms(2) by (auto simp: bucket_ok_def seconds_def Hour_def Minute_def Second_def Millisecond_def)
  then have "0 \<le> wait" unfolding eq by (simp add: Second_def Millisecond_def)
  moreover have "?s * of_int Second \<le> seconds Hour * of_int Second"
    by (intro mult_right_mono) (simp_all add: Second_def Millisecond_def)
  then have "?s * of_int Second \<le> of_int Hour" by (simp add: seconds_def Second_def Millisecond_def)
  then have "wait \<le> Hour" unfolding eq by (simp add: floor_le_iff)
  ultimately show ?thesis using b eq by simp
qed

section \<open>Settling a source\<close>

text \<open>The clock of a node: no bucket was touched after \<open>now\<close>.\<close>

definition by_now :: "int \<Rightarrow> 'a Admission_scheme \<Rightarrow> bool" where
  "by_now now r \<longleftrightarrow> (\<forall>x s. sources r x = Some s \<longrightarrow> bk_last (s_links s) \<le> now \<and> bk_last (s_setups s) \<le> now)"

lemma forgettable_ok:
  assumes "source_ok l s" "limits_ok l" "bk_last (s_links s) \<le> now" "bk_last (s_setups s) \<le> now"
    "forgettable now s = (gone, s')"
  shows "source_ok l s'" "bk_last (s_links s') \<le> now" "bk_last (s_setups s') \<le> now"
    "s_open s' = s_open s" "s_handshaking s' = s_handshaking s" "s_forgetting s' = s_forgetting s" "gone \<Longrightarrow> s_open s = 0"
  using assms bucket_full_ok [of "lm_linkRate l" "lm_linkBurst l" "s_links s" now]
    bucket_full_ok [of "lm_setupRate l" "lm_setupBurst l" "s_setups s" now]
  by (auto simp: forgettable_def Let_def source_ok_def limits_ok_def split: if_splits prod.splits)

lemma settle_fields [simp]:
  "lim (settle x now r) = lim r" "inbound (settle x now r) = inbound r" "handshaking (settle x now r) = handshaking r"
  "isClosed (settle x now r) = isClosed r" "conns (settle x now r) = conns r" "sourceCap (settle x now r) = sourceCap r"
  "stats (settle x now r) = stats r"
  by (simp_all add: settle_def split: option.split prod.split)

lemma forgetting_upd:
  "forgetting (r\<lparr>sources := (sources r)(x \<mapsto> s)\<rparr>) = (if s_forgetting s then insert x (forgetting r) else forgetting r - {x})"
  by (auto simp: forgetting_def)

text \<open>Replacing one source by another of the same mark.\<close>

lemma table_ok_upd:
  assumes "table_ok r" "source_ok (lim r) s" "x \<in> dom (sources r) \<or> card (dom (sources r)) < sourceCap r"
    "s_forgetting s \<longleftrightarrow> x \<in> forgetting r"
  shows "table_ok (r\<lparr>sources := (sources r)(x \<mapsto> s)\<rparr>)"
proof -
  have "card (dom ((sources r)(x \<mapsto> s))) \<le> sourceCap r"
    using assms(1,3) by (auto simp: table_ok_def insert_absorb card_insert_if)
  then show ?thesis
    using assms(1,2,4) by (auto simp: table_ok_def forgetting_upd)
qed

lemma settle_cases:
  assumes "table_ok r" "limits_ok (lim r)" "by_now now r"
  obtains "settle x now r = r"
  | s where "sources r x = Some s" "s_open s = 0" "\<not> s_forgetting s" "settle x now r = r\<lparr>sources := (sources r)(x := None)\<rparr>"
  | s s' due where "sources r x = Some s" "\<not> s_forgetting s" "s_forgetting s'" "source_ok (lim r) s'"
      "s_open s' = s_open s" "s_handshaking s' = s_handshaking s"
      "bk_last (s_links s') \<le> now" "bk_last (s_setups s') \<le> now" "now < due" "due \<le> now + Hour + Millisecond"
      "settle x now r = r\<lparr>sources := (sources r)(x \<mapsto> s'), timers := timers r @ [(due, x)]\<rparr>"
proof (cases "sources r x")
  case None
  then show ?thesis using that(1) by (simp add: settle_def)
next
  case (Some s)
  show ?thesis
  proof (cases "s_open s > 0 \<or> s_forgetting s")
    case True
    then show ?thesis using that(1) Some by (simp add: settle_def)
  next
    case False
    obtain gone s1 where g: "forgettable now s = (gone, s1)" by fastforce
    have ok: "source_ok (lim r) s" and last: "bk_last (s_links s) \<le> now" "bk_last (s_setups s) \<le> now"
      using assms Some by (auto simp: table_ok_def by_now_def)
    note s1 = forgettable_ok [OF ok assms(2) last g]
    show ?thesis
    proof (cases gone)
      case True
      then show ?thesis using that(2) [OF Some] s1(7) False g Some by (simp add: settle_def)
    next
      case gone: False
      obtain wl bl where l: "refilledIn now (s_links s1) = (wl, bl)" by fastforce
      obtain ws bs where s: "refilledIn now (s_setups s1) = (ws, bs)" by fastforce
      have b: "bucket_ok (lm_linkRate (lim r)) (lm_linkBurst (lim r)) bl \<and> bk_last bl \<le> now \<and> 0 \<le> wl \<and> wl \<le> Hour"
        "bucket_ok (lm_setupRate (lim r)) (lm_setupBurst (lim r)) bs \<and> bk_last bs \<le> now \<and> 0 \<le> ws \<and> ws \<le> Hour"
        using refilledIn_ok [OF _ _ s1(2) l] refilledIn_ok [OF _ _ s1(3) s] s1(1) assms(2)
        by (auto simp: source_ok_def limits_ok_def)
      have due: "now < now + (max wl ws + Millisecond)" "now + (max wl ws + Millisecond) \<le> now + Hour + Millisecond"
        using b by (auto simp: Millisecond_def)
      let ?s = "s1\<lparr>s_links := bl, s_setups := bs, s_forgetting := True\<rparr>"
      have "settle x now r = r\<lparr>sources := (sources r)(x \<mapsto> ?s), timers := timers r @ [(now + (max wl ws + Millisecond), x)]\<rparr>"
        using Some False g gone l s by (simp add: settle_def)
      moreover have "source_ok (lim r) ?s"
        using b s1(1) by (simp add: source_ok_def)
      moreover have "s_open ?s = s_open s" "s_handshaking ?s = s_handshaking s" "s_forgetting ?s"
        "bk_last (s_links ?s) \<le> now" "bk_last (s_setups ?s) \<le> now"
        using b s1(4,5) by simp_all
      ultimately show ?thesis
        using that(3) [OF Some] False due by blast
    qed
  qed
qed

lemma settle_ok:
  assumes "table_ok r" "limits_ok (lim r)" "by_now now r"
  shows "table_ok (settle x now r)" "by_now now (settle x now r)"
    "opens_of (settle x now r) = opens_of r" "hands_of (settle x now r) = hands_of r"
proof -
  have "table_ok (settle x now r) \<and> by_now now (settle x now r) \<and> opens_of (settle x now r) = opens_of r
      \<and> hands_of (settle x now r) = hands_of r"
  proof (rule settle_cases [OF assms, of x])
    fix s assume s: "sources r x = Some s" "s_open s = 0" "\<not> s_forgetting s"
      "settle x now r = r\<lparr>sources := (sources r)(x := None)\<rparr>"
    have "card (dom (sources r) - {x}) \<le> sourceCap r"
      using assms(1) by (meson card_Diff1_le le_trans table_ok_def)
    moreover have "forgetting (r\<lparr>sources := (sources r)(x := None)\<rparr>) = forgetting r"
      using s(1,3) by (auto simp: forgetting_def)
    moreover have "s_handshaking s = 0"
      using assms(1) s(1,2) by (fastforce simp: table_ok_def source_ok_def)
    ultimately show ?thesis
      using assms s by (auto simp: table_ok_def by_now_def opens_of_def hands_of_def fun_eq_iff)
  next
    fix s s' due assume s: "sources r x = Some s" "\<not> s_forgetting s" "s_forgetting s'" "source_ok (lim r) s'"
      "s_open s' = s_open s" "s_handshaking s' = s_handshaking s"
      "bk_last (s_links s') \<le> now" "bk_last (s_setups s') \<le> now"
      "settle x now r = r\<lparr>sources := (sources r)(x \<mapsto> s'), timers := timers r @ [(due, x)]\<rparr>"
    have "forgetting (r\<lparr>sources := (sources r)(x \<mapsto> s'), timers := timers r @ [(due, x)]\<rparr>) = insert x (forgetting r)"
      using s(3) by (auto simp: forgetting_def)
    moreover have "x \<notin> forgetting r" using s(1,2) by (auto simp: forgetting_def)
    moreover have "insert x (dom (sources r)) = dom (sources r)" using s(1) by auto
    ultimately show ?thesis
      using assms s by (auto simp: table_ok_def by_now_def opens_of_def hands_of_def fun_eq_iff insert_absorb)
  qed (use assms in simp)
  then show "table_ok (settle x now r)" "by_now now (settle x now r)"
    "opens_of (settle x now r) = opens_of r" "hands_of (settle x now r) = hands_of r" by auto
qed

section \<open>Admission keeps the books\<close>

text \<open>What every operation keeps: the table is well formed and the fixed fields stay.\<close>

definition kept :: "int \<Rightarrow> 'a Admission_scheme \<Rightarrow> 'a Admission_scheme \<Rightarrow> bool" where
  "kept now r r' \<longleftrightarrow> table_ok r' \<and> by_now now r' \<and> lim r' = lim r \<and> sourceCap r' = sourceCap r \<and> isClosed r' = isClosed r"

definition same_books :: "'a Admission_scheme \<Rightarrow> 'a Admission_scheme \<Rightarrow> bool" where
  "same_books r r' \<longleftrightarrow> opens_of r' = opens_of r \<and> hands_of r' = hands_of r \<and> inbound r' = inbound r
     \<and> handshaking r' = handshaking r \<and> conns r' = conns r"

text \<open>A source as the table may hold it at time \<open>now\<close>.\<close>

definition fresh_by :: "int \<Rightarrow> limits \<Rightarrow> source \<Rightarrow> bool" where
  "fresh_by now l s \<longleftrightarrow> source_ok l s \<and> bk_last (s_links s) \<le> now \<and> bk_last (s_setups s) \<le> now"

lemma put_kept:
  assumes "kept now r0 r" "fresh_by now (lim r) s" "sources r x = Some s0" "s_forgetting s = s_forgetting s0"
  shows "kept now r0 (r\<lparr>sources := (sources r)(x \<mapsto> s)\<rparr>)"
  using assms table_ok_upd [of r s x] by (auto simp: kept_def by_now_def fresh_by_def forgetting_def)

lemma put_same_books:
  assumes "sources r x = Some s0" "s_open s = s_open s0" "s_handshaking s = s_handshaking s0"
  shows "same_books r (r\<lparr>sources := (sources r)(x \<mapsto> s)\<rparr>)"
  using assms by (auto simp: same_books_def opens_of_def hands_of_def fun_eq_iff)

lemma kept_counts [simp]:
  "kept now r (r'\<lparr>stats := c\<rparr>) = kept now r r'" "kept now r (r'\<lparr>inbound := i\<rparr>) = kept now r r'"
  "kept now r (r'\<lparr>handshaking := i\<rparr>) = kept now r r'" "kept now r (r'\<lparr>conns := d\<rparr>) = kept now r r'"
  by (simp_all add: kept_def table_ok_def by_now_def forgetting_def)

lemma stats_same_books [simp]:
  "same_books r (r'\<lparr>stats := c\<rparr>) = same_books r r'" "same_books (r\<lparr>stats := c\<rparr>) r' = same_books r r'"
  by (simp_all add: same_books_def opens_of_def hands_of_def fun_eq_iff)

lemma settle_kept:
  assumes "kept now r0 r" "limits_ok (lim r)"
  shows "kept now r0 (settle x now r)" "same_books r (settle x now r)"
  using assms settle_ok [of r now x] by (auto simp: kept_def same_books_def)

lemma same_books_refl: "same_books r r"
  by (simp add: same_books_def)

lemma same_books_trans: "same_books a b \<Longrightarrow> same_books b c \<Longrightarrow> same_books a c"
  by (simp add: same_books_def)

lemma kept_refl: "table_ok r \<Longrightarrow> by_now now r \<Longrightarrow> kept now r r"
  by (simp add: kept_def)

lemma source_for_ok:
  assumes "kept now r0 r" "limits_ok (lim r)" "source_for x now r = (got, r')"
  shows "kept now r0 r'" "same_books r r'" "lim r' = lim r"
    and "got = Some s \<Longrightarrow> sources r' x = Some s \<and> fresh_by now (lim r) s \<and> s_open s = opens_of r x
      \<and> s_handshaking s = hands_of r x"
proof -
  let ?new = "\<lparr>s_open = 0, s_handshaking = 0,
      s_links = newBucket (lm_linkRate (lim r)) (lm_linkBurst (lim r)) now,
      s_setups = newBucket (lm_setupRate (lim r)) (lm_setupBurst (lim r)) now, s_forgetting = False\<rparr>"
  have new: "fresh_by now (lim r) ?new"
    using assms(2) by (simp add: fresh_by_def source_ok_def limits_ok_def bucket_ok_newBucket) (simp add: newBucket_def)
  have "kept now r0 r' \<and> same_books r r' \<and> lim r' = lim r \<and> (got = Some s \<longrightarrow> sources r' x = Some s
      \<and> fresh_by now (lim r) s \<and> s_open s = opens_of r x \<and> s_handshaking s = hands_of r x)"
  proof (cases "sources r x")
    case (Some s0)
    then show ?thesis
      using assms by (auto simp: source_for_def same_books_def kept_def table_ok_def by_now_def fresh_by_def
          opens_of_def hands_of_def)
  next
    case None
    show ?thesis
    proof (cases "card (dom (sources r)) \<ge> sourceCap r")
      case True
      then show ?thesis using None assms by (auto simp: source_for_def same_books_def)
    next
      case False
      then have eq: "got = Some ?new" "r' = r\<lparr>sources := (sources r)(x \<mapsto> ?new)\<rparr>"
        using None assms(3) by (auto simp: source_for_def Let_def)
      have t: "table_ok (r\<lparr>sources := (sources r)(x \<mapsto> ?new)\<rparr>)"
        using False assms(1) new None
        by (intro table_ok_upd) (auto simp: kept_def fresh_by_def forgetting_def)
      then have "kept now r0 r'"
        using assms(1) new unfolding eq by (auto simp: kept_def by_now_def fresh_by_def)
      moreover have "same_books r r'"
        unfolding eq using None by (auto simp: same_books_def opens_of_def hands_of_def fun_eq_iff)
      ultimately show ?thesis
        using new None unfolding eq by (auto simp: opens_of_def hands_of_def)
    qed
  qed
  then show "kept now r0 r'" "same_books r r'" "lim r' = lim r"
    "got = Some s \<Longrightarrow> sources r' x = Some s \<and> fresh_by now (lim r) s \<and> s_open s = opens_of r x
      \<and> s_handshaking s = hands_of r x" by auto
qed

text \<open>The books after a connection of \<open>x\<close> came in.\<close>

definition booked :: "bool \<Rightarrow> nat \<Rightarrow> Addr \<Rightarrow> 'a Admission_scheme \<Rightarrow> 'a Admission_scheme \<Rightarrow> bool" where
  "booked counted conn x r r' \<longleftrightarrow> inbound r' = inbound r + 1 \<and> handshaking r' = handshaking r + 1
     \<and> conns r' = insert conn (conns r)
     \<and> opens_of r' = (if counted then (opens_of r)(x := opens_of r x + 1) else opens_of r)
     \<and> hands_of r' = (if counted then (hands_of r)(x := hands_of r x + 1) else hands_of r)"

definition within_caps :: "limits \<Rightarrow> int \<Rightarrow> int \<Rightarrow> bool" where
  "within_caps l n h \<longleftrightarrow> (lm_links l > 0 \<longrightarrow> n < lm_links l) \<and> (lm_handshakes l > 0 \<longrightarrow> h < lm_handshakes l)"

definition within_source :: "limits \<Rightarrow> int \<Rightarrow> int \<Rightarrow> bool" where
  "within_source l n h \<longleftrightarrow> (lm_perSource l > 0 \<longrightarrow> n < lm_perSource l)
     \<and> (lm_sourceHandshakes l > 0 \<longrightarrow> h < lm_sourceHandshakes l)"

lemma admitShared_ok:
  assumes k: "kept now r0 r" "limits_ok (lim r)"
    and s: "\<And>s1. s = Some s1 \<Longrightarrow> sources r x = Some s1 \<and> fresh_by now (lim r) s1"
    and a: "admitShared conn x now s r = (res, r')"
  shows "kept now r0 r' \<and> (if isl res then same_books r r'
    else booked (s \<noteq> None) conn x r r' \<and> within_caps (lim r) (inbound r) (handshaking r))"
proof (cases res)
  case (Inl e)
  then have "\<exists>c. r' = (if s = None then r\<lparr>stats := c\<rparr> else settle x now (r\<lparr>stats := c\<rparr>))"
    using a by (auto simp: admitShared_def Let_def split: if_splits)
  then obtain c where "r' = (if s = None then r\<lparr>stats := c\<rparr> else settle x now (r\<lparr>stats := c\<rparr>))" by blast
  moreover have "same_books r (r\<lparr>stats := c\<rparr>)" by (simp add: same_books_refl)
  ultimately show ?thesis
    using Inl k settle_kept [of now r0 "r\<lparr>stats := c\<rparr>" x] same_books_trans by (auto split: if_splits)
next
  case (Inr u)
  then have caps: "within_caps (lim r) (inbound r) (handshaking r)"
    using a by (auto simp: admitShared_def Let_def within_caps_def not_le split: if_splits)
  show ?thesis
  proof (cases s)
    case None
    then have "r' = r\<lparr>inbound := inbound r + 1, handshaking := handshaking r + 1, conns := insert conn (conns r)\<rparr>"
      using a Inr by (auto simp: admitShared_def Let_def split: if_splits)
    then show ?thesis
      using k caps Inr None by (auto simp: kept_def table_ok_def by_now_def forgetting_def booked_def opens_of_def
          hands_of_def fun_eq_iff)
  next
    case (Some s1)
    let ?s = "s1\<lparr>s_open := s_open s1 + 1, s_handshaking := s_handshaking s1 + 1\<rparr>"
    let ?r = "r\<lparr>sources := (sources r)(x \<mapsto> ?s)\<rparr>"
    have r': "r' = ?r\<lparr>inbound := inbound r + 1, handshaking := handshaking r + 1, conns := insert conn (conns r)\<rparr>"
      using a Inr Some by (auto simp: admitShared_def Let_def split: if_splits)
    have "kept now r0 ?r"
      using put_kept [OF k(1), of ?s x s1] s [OF Some] by (auto simp: fresh_by_def source_ok_def)
    then have "kept now r0 r'"
      unfolding r' by simp
    then show ?thesis
      using caps Inr Some s [OF Some] unfolding r' by (auto simp: booked_def opens_of_def hands_of_def fun_eq_iff)
  qed
qed

lemma booked_after: "same_books a b \<Longrightarrow> booked counted conn x b c \<Longrightarrow> booked counted conn x a c"
  by (simp add: same_books_def booked_def)

text \<open>The outcome of \<^verbatim>\<open>admit\<close>: the table stays in order, and either nothing is booked or one connection is.\<close>

definition admit_outcome :: "int \<Rightarrow> nat \<Rightarrow> Addr \<Rightarrow> 'a Admission_scheme \<Rightarrow> unit result \<Rightarrow> 'a Admission_scheme \<Rightarrow> bool" where
  "admit_outcome now conn x r res r' \<longleftrightarrow> kept now r r' \<and> (if isl res then same_books r r'
     else booked (perSourceOn (lim r)) conn x r r' \<and> within_caps (lim r) (inbound r) (handshaking r)
       \<and> (perSourceOn (lim r) \<longrightarrow> within_source (lim r) (opens_of r x) (hands_of r x)) \<and> \<not> isClosed r)"

lemma admit_counted:
  assumes k: "kept now r r1" "same_books r r1" "lim r1 = lim r" "limits_ok (lim r)" "\<not> isClosed r" "perSourceOn (lim r)"
    and s: "sources r1 x = Some s" "fresh_by now (lim r) s" "s_open s = opens_of r x" "s_handshaking s = hands_of r x"
    and g: "source_for x now r = (Some s, r1)" and a: "admit conn x now r = (res, r')"
  shows "admit_outcome now conn x r res r'"
proof -
  obtain ok b where t: "bucket_take now (s_links s) = (ok, b)" by fastforce
  let ?s = "s\<lparr>s_links := b\<rparr>"
  let ?r = "r1\<lparr>sources := (sources r1)(x \<mapsto> ?s)\<rparr>"
  have fs: "fresh_by now (lim r) ?s"
    using bucket_take_ok [OF _ _ _ t] s(2) k(4) by (auto simp: fresh_by_def source_ok_def limits_ok_def)
  have kr: "kept now r ?r" "same_books r ?r" "lim ?r = lim r" "inbound ?r = inbound r" "handshaking ?r = handshaking r"
    using put_kept [OF k(1) _ s(1), of ?s] fs k(2,3) same_books_trans [OF k(2) put_same_books [OF s(1), of ?s]]
    by (simp_all add: same_books_def)
  let ?over = "lm_perSource (lim r) > 0 \<and> s_open s \<ge> lm_perSource (lim r)
      \<or> lm_sourceHandshakes (lim r) > 0 \<and> s_handshaking s \<ge> lm_sourceHandshakes (lim r)"
  show ?thesis
  proof (cases "ok \<and> \<not> ?over")
    case True
    then have sh: "admitShared conn x now (Some ?s) ?r = (res, r')"
      using a k(3,5,6) g t by (auto simp: admit_def Let_def split: if_splits)
    have "limits_ok (lim ?r)" using k(3,4) by simp
    from admitShared_ok [OF kr(1) this _ sh] fs kr(3)
    have "kept now r r'" "isl res \<Longrightarrow> same_books ?r r'"
      "\<not> isl res \<Longrightarrow> booked True conn x ?r r' \<and> within_caps (lim r) (inbound r) (handshaking r)"
      unfolding kr(3,4,5) by (simp_all split: if_splits)
    then show ?thesis
      using True k(5,6) s same_books_trans [OF kr(2)] booked_after [OF kr(2)]
      by (auto simp: admit_outcome_def within_source_def not_le)
  next
    case False
    then obtain c e where "r' = settle x now (?r\<lparr>stats := c\<rparr>)" "res = Inl e"
      using a k(3,5,6) g t by (auto simp: admit_def Let_def split: if_splits)
    then show ?thesis
      using settle_kept [of now r "?r\<lparr>stats := c\<rparr>" x] kr(1-3) k(4) same_books_trans [OF kr(2)]
      by (simp add: admit_outcome_def)
  qed
qed

lemma admit_ok:
  assumes "table_ok r" "by_now now r" "limits_ok (lim r)" "admit conn x now r = (res, r')"
  shows "admit_outcome now conn x r res r'"
proof (cases "isClosed r \<or> \<not> perSourceOn (lim r)")
  case True
  then show ?thesis
    using assms(4) kept_refl [OF assms(1,2)] same_books_refl
      admitShared_ok [OF kept_refl [OF assms(1,2)] assms(3), of None x conn res r']
    by (auto simp: admit_def admit_outcome_def split: if_splits)
next
  case False
  obtain got r1 where g: "source_for x now r = (got, r1)" by fastforce
  note src = source_for_ok [OF kept_refl [OF assms(1,2)] assms(3) g]
  show ?thesis
  proof (cases got)
    case None
    then show ?thesis using assms(4) False g src by (auto simp: admit_def admit_outcome_def)
  next
    case (Some s)
    then show ?thesis
      using admit_counted [OF src(1-3) assms(3) _ _ _ _ _ _ g [unfolded Some] assms(4)] src(4) [OF Some] False by auto
  qed
qed

section \<open>The limiter as a state machine\<close>

text \<open>
  A state is the clock, the relay and the connections being handled: which connection, from which
  source, and whether its handshake is still running. A handler calls \<^verbatim>\<open>handshakeDone\<close> once and
  then \<^verbatim>\<open>leave\<close> once (\<^verbatim>\<open>relay.handle\<close>); timers fire at or after their time.
\<close>

type_synonym handler = "nat \<times> Addr \<times> bool"

inductive adm_step :: "int \<times> Admission \<times> handler list \<Rightarrow> int \<times> Admission \<times> handler list \<Rightarrow> bool" where
  tick: "now \<le> now' \<Longrightarrow> adm_step (now, r, act) (now', r, act)"
| admitted: "admit conn x now r = (Inr (), r') \<Longrightarrow> conn \<notin> fst ` set act \<Longrightarrow>
    adm_step (now, r, act) (now, r', (conn, x, True) # act)"
| refused: "admit conn x now r = (Inl e, r') \<Longrightarrow> adm_step (now, r, act) (now, r', act)"
| shook: "adm_step (now, r, as @ (conn, x, True) # bs) (now, handshakeDone x r, as @ (conn, x, False) # bs)"
| left: "adm_step (now, r, as @ (conn, x, False) # bs) (now, leave conn x now r, as @ bs)"
| asked: "allowSetup x now r = (ok, r') \<Longrightarrow> adm_step (now, r, act) (now, r', act)"
| fired: "timers r = as @ (due, x) # bs \<Longrightarrow> due \<le> now \<Longrightarrow>
    adm_step (now, r, act) (now, forget x now (r\<lparr>timers := as @ bs\<rparr>), act)"
| closes: "adm_step (now, r, act) (now, r\<lparr>isClosed := True\<rparr>, act)"

inductive_cases adm_stepE: "adm_step st st'"

definition count_of :: "(handler \<Rightarrow> bool) \<Rightarrow> handler list \<Rightarrow> int" where
  "count_of f act = int (length (filter f act))"

definition from_src :: "Addr \<Rightarrow> handler \<Rightarrow> bool" where
  "from_src x h \<longleftrightarrow> fst (snd h) = x"

definition shaking :: "handler \<Rightarrow> bool" where
  "shaking h \<longleftrightarrow> snd (snd h)"

definition books_ok :: "Admission \<Rightarrow> handler list \<Rightarrow> bool" where
  "books_ok r act \<longleftrightarrow> inbound r = count_of (\<lambda>_. True) act \<and> handshaking r = count_of shaking act
     \<and> (\<forall>x. opens_of r x = (if perSourceOn (lim r) then count_of (from_src x) act else 0)
          \<and> hands_of r x = (if perSourceOn (lim r) then count_of (\<lambda>h. from_src x h \<and> shaking h) act else 0))"

definition caps_ok :: "Admission \<Rightarrow> bool" where
  "caps_ok r \<longleftrightarrow> (lm_links (lim r) > 0 \<longrightarrow> inbound r \<le> lm_links (lim r))
     \<and> (lm_handshakes (lim r) > 0 \<longrightarrow> handshaking r \<le> lm_handshakes (lim r))
     \<and> (\<forall>x. (lm_perSource (lim r) > 0 \<longrightarrow> opens_of r x \<le> lm_perSource (lim r))
          \<and> (lm_sourceHandshakes (lim r) > 0 \<longrightarrow> hands_of r x \<le> lm_sourceHandshakes (lim r)))"

fun adm_inv :: "int \<times> Admission \<times> handler list \<Rightarrow> bool" where
  "adm_inv (now, r, act) \<longleftrightarrow> table_ok r \<and> by_now now r \<and> limits_ok (lim r)
     \<and> (\<not> perSourceOn (lim r) \<longrightarrow> sources r = Map.empty) \<and> books_ok r act \<and> caps_ok r"

lemma count_of_simps [simp]:
  "count_of f [] = 0" "count_of f (h # act) = (if f h then 1 else 0) + count_of f act"
  "count_of f (as @ bs) = count_of f as + count_of f bs" "0 \<le> count_of f act"
  by (simp_all add: count_of_def)

lemma count_of_le: "(\<And>h. f h \<Longrightarrow> g h) \<Longrightarrow> count_of f act \<le> count_of g act"
  by (induction act) auto

lemma caps_mono:
  assumes "caps_ok r" "lim r' = lim r" "inbound r' \<le> inbound r" "handshaking r' \<le> handshaking r"
    "\<And>x. opens_of r' x \<le> opens_of r x" "\<And>x. hands_of r' x \<le> hands_of r x"
  shows "caps_ok r'"
  using assms(1,3,4) unfolding caps_ok_def assms(2)
  by (meson assms(5,6) order_trans)

lemma books_cong:
  assumes "lim r' = lim r" "inbound r' = inbound r" "handshaking r' = handshaking r" "opens_of r' = opens_of r"
    "hands_of r' = hands_of r"
  shows "books_ok r' = books_ok r"
  by (rule ext) (simp only: books_ok_def assms)

text \<open>Steps that leave the books alone.\<close>

lemma inv_same_books:
  assumes "adm_inv (now, r, act)" "kept now r r'" "same_books r r'" "\<not> perSourceOn (lim r) \<longrightarrow> sources r' = Map.empty"
  shows "adm_inv (now, r', act)"
proof -
  have v: "lim r' = lim r" "inbound r' = inbound r" "handshaking r' = handshaking r" "opens_of r' = opens_of r"
    "hands_of r' = hands_of r"
    using assms(2,3) by (simp_all add: kept_def same_books_def)
  have "books_ok r' act" "caps_ok r'"
    using assms(1) books_cong [OF v] caps_mono [of r r'] v by simp_all
  then show ?thesis using assms v(1) by (simp add: kept_def)
qed

lemma inv_source: "adm_inv (now, r, act) \<Longrightarrow> sources r x = Some s \<Longrightarrow> fresh_by now (lim r) s"
  by (auto simp: table_ok_def by_now_def fresh_by_def)

lemma closed_views:
  "table_ok (r\<lparr>isClosed := b\<rparr>) = table_ok r" "by_now now (r\<lparr>isClosed := b\<rparr>) = by_now now r"
  "opens_of (r\<lparr>isClosed := b\<rparr>) = opens_of r" "hands_of (r\<lparr>isClosed := b\<rparr>) = hands_of r"
  by (simp_all add: table_ok_def by_now_def forgetting_def opens_of_def hands_of_def fun_eq_iff)

lemma admit_off: "\<not> perSourceOn (lim r) \<Longrightarrow> admit conn x now r = (res, r') \<Longrightarrow> sources r' = sources r"
  by (auto simp: admit_def admitShared_def Let_def split: if_splits)

lemma inv_admitted:
  assumes "adm_inv (now, r, act)" "admit conn x now r = (Inr (), r')"
  shows "adm_inv (now, r', (conn, x, True) # act)"
proof -
  have o: "kept now r r'" "booked (perSourceOn (lim r)) conn x r r'" "within_caps (lim r) (inbound r) (handshaking r)"
    "perSourceOn (lim r) \<longrightarrow> within_source (lim r) (opens_of r x) (hands_of r x)"
    using admit_ok [of r now conn x "Inr ()" r'] assms by (simp_all add: admit_outcome_def)
  have "books_ok r' ((conn, x, True) # act)"
    using assms(1) o(1,2) by (auto simp: books_ok_def booked_def kept_def from_src_def shaking_def)
  moreover have "caps_ok r'"
    using assms(1) o by (auto simp: caps_ok_def booked_def kept_def within_caps_def within_source_def)
  ultimately show ?thesis
    using assms(1) o(1) admit_off [OF _ assms(2)] by (simp add: kept_def)
qed

lemma inv_refused:
  assumes "adm_inv (now, r, act)" "admit conn x now r = (Inl e, r')"
  shows "adm_inv (now, r', act)"
  using inv_same_books [OF assms(1), of r'] admit_ok [of r now conn x "Inl e" r'] admit_off [OF _ assms(2)] assms
  by (simp add: admit_outcome_def)

lemma inv_setup:
  assumes "adm_inv (now, r, act)" "allowSetup x now r = (ok, r')"
  shows "adm_inv (now, r', act)"
proof (cases "lm_setupRate (lim r) \<le> 0 \<or> sources r x = None")
  case True
  then show ?thesis using assms by (auto simp: allowSetup_def split: if_splits)
next
  case False
  then obtain s b where s: "sources r x = Some s" "bucket_take now (s_setups s) = (ok, b)"
    "r' = r\<lparr>sources := (sources r)(x \<mapsto> s\<lparr>s_setups := b\<rparr>)\<rparr>"
    using assms(2) by (auto simp: allowSetup_def split: prod.splits)
  have "fresh_by now (lim r) (s\<lparr>s_setups := b\<rparr>)"
    using s assms(1) bucket_take_ok [OF _ _ _ s(2)]
    by (auto simp: fresh_by_def table_ok_def source_ok_def by_now_def limits_ok_def)
  then have "kept now r r'"
    using put_kept [of now r r "s\<lparr>s_setups := b\<rparr>" x s] kept_refl [of r now] assms(1) s by simp
  moreover have "same_books r r'"
    unfolding s(3) by (rule put_same_books [OF s(1)]) simp_all
  moreover have "perSourceOn (lim r)" using s(1) assms(1) by auto
  ultimately show ?thesis using inv_same_books [OF assms(1)] by blast
qed

lemma inv_shook:
  assumes "adm_inv (now, r, as @ (conn, x, True) # bs)"
  shows "adm_inv (now, handshakeDone x r, as @ (conn, x, False) # bs)"
proof (cases "perSourceOn (lim r)")
  case False
  then show ?thesis
    using assms by (auto simp: handshakeDone_def table_ok_def by_now_def forgetting_def books_ok_def caps_ok_def opens_of_def
        hands_of_def shaking_def)
next
  case True
  let ?act = "as @ (conn, x, True) # bs"
  have h: "hands_of r x = count_of (\<lambda>h. from_src x h \<and> shaking h) ?act" "1 \<le> hands_of r x"
    using assms True by (auto simp: books_ok_def from_src_def shaking_def)
  then obtain s where s: "sources r x = Some s" "1 \<le> s_handshaking s"
    by (auto simp: hands_of_def split: option.splits)
  let ?s = "s\<lparr>s_handshaking := s_handshaking s - 1\<rparr>"
  let ?r = "r\<lparr>handshaking := handshaking r - 1\<rparr>"
  have r': "handshakeDone x r = ?r\<lparr>sources := (sources ?r)(x \<mapsto> ?s)\<rparr>"
    using s by (simp add: handshakeDone_def)
  have "fresh_by now (lim ?r) ?s"
    using inv_source [OF assms s(1)] s(2) by (auto simp: fresh_by_def source_ok_def)
  then have k: "kept now r (handshakeDone x r)"
    unfolding r' using put_kept [of now r ?r ?s x s] s(1) assms kept_refl [of r now] by simp
  have opens: "opens_of (handshakeDone x r) = opens_of r"
    "hands_of (handshakeDone x r) = (hands_of r)(x := hands_of r x - 1)"
    using s unfolding r' by (auto simp: opens_of_def hands_of_def fun_eq_iff)
  have "books_ok (handshakeDone x r) (as @ (conn, x, False) # bs)"
    using assms True opens unfolding r' by (auto simp: books_ok_def from_src_def shaking_def)
  moreover have "caps_ok (handshakeDone x r)"
    by (rule caps_mono [of r]) (use assms opens in \<open>simp_all add: r'\<close>)
  ultimately show ?thesis using assms k True by (simp add: kept_def)
qed

lemma inv_left:
  assumes "adm_inv (now, r, as @ (conn, x, False) # bs)"
  shows "adm_inv (now, leave conn x now r, as @ bs)"
proof (cases "perSourceOn (lim r)")
  case False
  then show ?thesis
    using assms by (auto simp: leave_def table_ok_def by_now_def forgetting_def books_ok_def caps_ok_def opens_of_def
        hands_of_def shaking_def)
next
  case True
  let ?act = "as @ (conn, x, False) # bs"
  have "count_of (\<lambda>h. from_src x h \<and> shaking h) as \<le> count_of (from_src x) as"
    "count_of (\<lambda>h. from_src x h \<and> shaking h) bs \<le> count_of (from_src x) bs"
    by (auto intro: count_of_le)
  then have h: "hands_of r x \<le> opens_of r x - 1" "1 \<le> opens_of r x"
    using assms True by (auto simp: books_ok_def from_src_def shaking_def)
  then obtain s where s: "sources r x = Some s" "1 \<le> s_open s" "s_handshaking s \<le> s_open s - 1"
    by (auto simp: opens_of_def hands_of_def split: option.splits)
  let ?s = "s\<lparr>s_open := s_open s - 1\<rparr>"
  let ?r = "r\<lparr>conns := conns r - {conn}, inbound := inbound r - 1\<rparr>"
  let ?r1 = "?r\<lparr>sources := (sources ?r)(x \<mapsto> ?s)\<rparr>"
  have r': "leave conn x now r = settle x now ?r1"
    using s by (simp add: leave_def)
  have "fresh_by now (lim ?r) ?s"
    using inv_source [OF assms s(1)] s(2,3) by (auto simp: fresh_by_def source_ok_def)
  then have k1: "kept now r ?r1"
    using put_kept [of now r ?r ?s x s] s(1) assms kept_refl [of r now] by simp
  have k: "kept now r (leave conn x now r)" "same_books ?r1 (leave conn x now r)"
    unfolding r' using settle_kept [OF k1, of x] assms by simp_all
  have opens: "opens_of ?r1 = (opens_of r)(x := opens_of r x - 1)" "hands_of ?r1 = hands_of r"
    using s by (auto simp: opens_of_def hands_of_def fun_eq_iff)
  have v: "lim (leave conn x now r) = lim ?r1" "inbound (leave conn x now r) = inbound ?r1"
    "handshaking (leave conn x now r) = handshaking ?r1" "opens_of (leave conn x now r) = opens_of ?r1"
    "hands_of (leave conn x now r) = hands_of ?r1"
    using k by (simp_all add: kept_def same_books_def)
  have b: "books_ok r ?act" "caps_ok r" using assms by simp_all
  have "books_ok ?r1 (as @ bs)"
    using b(1) True opens by (simp add: books_ok_def from_src_def shaking_def)
  then have "books_ok (leave conn x now r) (as @ bs)"
    using books_cong [OF v] by simp
  moreover have "caps_ok (leave conn x now r)"
    by (rule caps_mono [OF b(2)]) (use opens in \<open>simp_all add: v\<close>)
  ultimately show ?thesis using assms k(1) True by (simp add: kept_def)
qed

lemma inv_fired:
  assumes "adm_inv (now, r, act)" "timers r = as @ (due, x) # bs"
  shows "adm_inv (now, forget x now (r\<lparr>timers := as @ bs\<rparr>), act)"
proof -
  have t: "distinct (map snd (as @ (due, x) # bs))" "set (map snd (as @ (due, x) # bs)) = forgetting r"
    using assms by (simp_all add: table_ok_def)
  then have "x \<in> forgetting r" by auto
  then obtain s where s: "sources r x = Some s" "s_forgetting s" by (auto simp: forgetting_def)
  let ?s = "s\<lparr>s_forgetting := False\<rparr>"
  let ?r = "r\<lparr>timers := as @ bs, sources := (sources r)(x \<mapsto> ?s)\<rparr>"
  have f: "forgetting ?r = forgetting r - {x}" by (auto simp: forgetting_def)
  have "set (map snd (as @ bs)) = forgetting r - {x}" using t by auto
  moreover have "insert x (dom (sources r)) = dom (sources r)" using s(1) by auto
  ultimately have "kept now r ?r"
    using assms(1) s t(1) f by (auto simp: kept_def table_ok_def by_now_def source_ok_def)
  moreover have "same_books r ?r"
    using s by (auto simp: same_books_def opens_of_def hands_of_def fun_eq_iff)
  moreover have "forget x now (r\<lparr>timers := as @ bs\<rparr>) = settle x now ?r"
    using s by (simp add: forget_def)
  moreover have "perSourceOn (lim r)" using s(1) assms(1) by auto
  ultimately show ?thesis
    using inv_same_books [OF assms(1)] settle_kept [of now r ?r x] same_books_trans [of r ?r] assms(1) by simp
qed

lemma adm_inv_step: "adm_step st st' \<Longrightarrow> adm_inv st \<Longrightarrow> adm_inv st'"
proof (induction rule: adm_step.induct)
  case (tick now now' r act)
  then show ?case by (fastforce simp: by_now_def)
next
  case (closes now r act)
  then have "books_ok (r\<lparr>isClosed := True\<rparr>) act" "caps_ok (r\<lparr>isClosed := True\<rparr>)"
    using books_cong [of "r\<lparr>isClosed := True\<rparr>" r] caps_mono [of r "r\<lparr>isClosed := True\<rparr>"]
    by (simp_all add: closed_views)
  then show ?case using closes by (simp add: closed_views)
qed (blast intro: inv_admitted inv_refused inv_shook inv_left inv_setup inv_fired)+

definition newAdmission :: "limits \<Rightarrow> Admission" where
  "newAdmission l =
     \<lparr>lim = l, conns = {}, inbound = 0, handshaking = 0, sources = Map.empty, sourceCap = maxSources, isClosed = False,
      timers = [], stats = zeroCounters\<rparr>"

lemma newAdmission_inv: "limits_ok l \<Longrightarrow> adm_inv (now, newAdmission l, [])"
  by (simp add: newAdmission_def table_ok_def by_now_def forgetting_def books_ok_def caps_ok_def opens_of_def hands_of_def)

lemma adm_inv_reachable: "adm_step\<^sup>*\<^sup>* st st' \<Longrightarrow> adm_inv st \<Longrightarrow> adm_inv st'"
  by (induction rule: rtranclp_induct) (blast intro: adm_inv_step)+

lemma adm_step_lim: "adm_step st st' \<Longrightarrow> adm_inv st \<Longrightarrow>
    lim (fst (snd st')) = lim (fst (snd st)) \<and> sourceCap (fst (snd st')) = sourceCap (fst (snd st))"
proof (induction rule: adm_step.induct)
  case (admitted conn x now r r' act)
  then show ?case using admit_ok [of r now conn x "Inr ()" r'] by (simp add: admit_outcome_def kept_def)
next
  case (refused conn x now r e r' act)
  then show ?case using admit_ok [of r now conn x "Inl e" r'] by (simp add: admit_outcome_def kept_def)
next
  case (shook now r as conn x bs)
  then show ?case by (simp add: handshakeDone_def Let_def split: option.splits)
next
  case (left now r as conn x bs)
  then show ?case by (simp add: leave_def Let_def settle_def split: option.splits prod.splits)
next
  case (asked x now r ok r' act)
  then show ?case by (auto simp: allowSetup_def split: option.splits prod.splits if_splits)
next
  case (fired r as due x bs now act)
  then show ?case by (simp add: forget_def settle_def split: option.splits prod.splits)
qed simp_all

lemma adm_reachable_lim:
  "adm_step\<^sup>*\<^sup>* st st' \<Longrightarrow> adm_inv st \<Longrightarrow>
    lim (fst (snd st')) = lim (fst (snd st)) \<and> sourceCap (fst (snd st')) = sourceCap (fst (snd st))"
proof (induction rule: rtranclp_induct)
  case (step y z)
  then show ?case using adm_step_lim [OF step(2)] adm_inv_reachable [OF step(1)] by simp
qed simp

text \<open>
  C15: in every state the limiter can reach, whatever connections arrive, in whatever order handshakes
  end, handlers return, setups are asked for and timers fire, \<^verbatim>\<open>inbound\<close> and \<^verbatim>\<open>handshaking\<close> are
  exactly the connections being handled and those still shaking hands, no shared cap and no cap of a
  source is exceeded, and the table holds at most \<^verbatim>\<open>maxSources\<close> sources.
\<close>

theorem limiter_keeps_caps:
  assumes "resolveLimits cfg = Inr l" "adm_step\<^sup>*\<^sup>* (t0, newAdmission l, []) (now, r, act)"
  shows "inbound r = int (length act) \<and> handshaking r = int (length (filter shaking act))
    \<and> (lm_links l > 0 \<longrightarrow> int (length act) \<le> lm_links l)
    \<and> (lm_handshakes l > 0 \<longrightarrow> int (length (filter shaking act)) \<le> lm_handshakes l)
    \<and> (lm_perSource l > 0 \<longrightarrow> int (length (filter (from_src x) act)) \<le> lm_perSource l)
    \<and> (lm_sourceHandshakes l > 0 \<longrightarrow>
         int (length (filter (\<lambda>h. from_src x h \<and> shaking h) act)) \<le> lm_sourceHandshakes l)
    \<and> card (dom (sources r)) \<le> maxSources"
proof -
  have inv: "adm_inv (now, r, act)" and l: "lim r = l" "sourceCap r = maxSources"
    using adm_inv_reachable [OF assms(2)] adm_reachable_lim [OF assms(2)] newAdmission_inv resolveLimits_ok [OF assms(1)]
    by (simp_all add: newAdmission_def)
  have b: "books_ok r act" "caps_ok r" "card (dom (sources r)) \<le> maxSources"
    using inv l by (simp_all add: table_ok_def)
  have shared: "inbound r = int (length act)" "handshaking r = int (length (filter shaking act))"
    using b(1) by (simp_all add: books_ok_def count_of_def)
  have own: "perSourceOn l \<Longrightarrow> opens_of r x = int (length (filter (from_src x) act))"
    "perSourceOn l \<Longrightarrow> hands_of r x = int (length (filter (\<lambda>h. from_src x h \<and> shaking h) act))"
    using b(1) l by (simp_all add: books_ok_def count_of_def)
  have on: "lm_perSource l > 0 \<Longrightarrow> perSourceOn l" "lm_sourceHandshakes l > 0 \<Longrightarrow> perSourceOn l"
    by (simp_all add: perSourceOn_def)
  have caps: "lm_links l > 0 \<longrightarrow> inbound r \<le> lm_links l" "lm_handshakes l > 0 \<longrightarrow> handshaking r \<le> lm_handshakes l"
    "lm_perSource l > 0 \<longrightarrow> opens_of r x \<le> lm_perSource l"
    "lm_sourceHandshakes l > 0 \<longrightarrow> hands_of r x \<le> lm_sourceHandshakes l"
    using b(2) l(1) unfolding caps_ok_def by blast+
  show ?thesis
    using shared b(3) caps own on by (metis (no_types, lifting))
qed

section \<open>What a source can take\<close>

fun takes :: "int list \<Rightarrow> bucket \<Rightarrow> nat \<times> bucket" where
  "takes [] b = (0, b)"
| "takes (now # ts) b =
     (case bucket_take now b of (ok, b) \<Rightarrow> (case takes ts b of (n, b) \<Rightarrow> ((if ok then n + 1 else n), b)))"

lemma takes_budget:
  assumes "sorted (bk_last b # ts)" "0 < bk_rate b"
  shows "of_nat (fst (takes ts b)) \<le> bk_tokens b - bk_tokens (snd (takes ts b))
    + bk_rate b * seconds (last (bk_last b # ts) - bk_last b)"
  using assms
proof (induction ts arbitrary: b)
  case Nil
  then show ?case by (simp add: seconds_def)
next
  case (Cons now ts)
  obtain ok b' where t: "bucket_take now b = (ok, b')" by (meson surj_pair)
  have b': "bk_last b' = now" "bk_rate b' = bk_rate b"
    "bk_tokens b' + (if ok then 1 else 0) \<le> bk_tokens b + seconds (now - bk_last b) * bk_rate b"
    using t Cons.prems by (auto simp: bucket_take_def refill_def Let_def split: if_splits)
  have ih: "of_nat (fst (takes ts b')) \<le> bk_tokens b' - bk_tokens (snd (takes ts b'))
    + bk_rate b * seconds (last (now # ts) - now)"
    using Cons.IH [of b'] Cons.prems b' by simp
  have split: "seconds (last (now # ts) - bk_last b) = seconds (last (now # ts) - now) + seconds (now - bk_last b)"
    by (simp add: seconds_def diff_divide_distrib)
  obtain n b2 where n: "takes ts b' = (n, b2)" by (meson surj_pair)
  then have "(if ok then 1 else 0) + of_nat n \<le> bk_tokens b + seconds (now - bk_last b) * bk_rate b - bk_tokens b2
    + bk_rate b * seconds (last (now # ts) - now)"
    using ih b'(3) by simp
  then show ?case
    using n t split by (auto simp: algebra_simps split: if_splits)
qed

lemma takes_ok:
  assumes "bucket_ok rate burst b" "0 \<le> rate" "sorted (bk_last b # ts)"
  shows "bucket_ok rate burst (snd (takes ts b))"
  using assms
proof (induction ts arbitrary: b)
  case (Cons now ts)
  obtain ok b' where t: "bucket_take now b = (ok, b')" by (meson surj_pair)
  then have "bucket_ok rate burst b'" "bk_last b' \<le> now"
    using bucket_take_ok [OF Cons.prems(1,2) _ t] Cons.prems(3) by simp_all
  moreover have "sorted (bk_last b' # ts)" using calculation(2) Cons.prems(3) by auto
  ultimately show ?case
    using Cons.IH [of b'] Cons.prems(2) t by (auto split: prod.splits)
qed simp



lemma full_is_fresh:
  assumes "bucket_ok rate burst b" "bk_last b \<le> now" "now \<le> now'" "fst (bucket_full now b)"
  shows "fst (bucket_take now' b) = fst (bucket_take now' (newBucket rate burst now'))
    \<and> (0 < rate \<longrightarrow> snd (bucket_take now' b) = snd (bucket_take now' (newBucket rate burst now')))"
proof (cases "0 < rate")
  case True
  have "seconds (now' - bk_last b) = seconds (now - bk_last b) + seconds (now' - now)"
    by (simp add: seconds_def diff_divide_distrib)
  moreover have "0 \<le> seconds (now' - now) * rate"
    using assms(3) True by (simp add: seconds_def Second_def Millisecond_def)
  ultimately have "burst \<le> bk_tokens b + seconds (now' - bk_last b) * rate"
    using assms True by (auto simp: bucket_full_def bucket_ok_def refill_def Let_def algebra_simps split: if_splits)
  then have "refill now' b = newBucket rate burst now'"
    using assms(1) by (simp add: refill_def newBucket_def bucket_ok_def)
  moreover have "refill now' (newBucket rate burst now') = newBucket rate burst now'"
    by (simp add: refill_def newBucket_def seconds_def)
  moreover have "bk_rate b = rate" "bk_rate (newBucket rate burst now') = rate"
    using assms(1) by (simp_all add: bucket_ok_def newBucket_def)
  ultimately show ?thesis using True by (simp add: bucket_take_def)
next
  case False
  then show ?thesis using assms(1) by (simp add: bucket_take_def bucket_ok_def newBucket_def)
qed

lemma forgettable_full:
  assumes "fst (forgettable now s)"
  shows "s_open s = 0" "fst (bucket_full now (s_links s))" "fst (bucket_full now (s_setups s))"
  using assms by (auto simp: forgettable_def Let_def split: if_splits prod.splits)

text \<open>
  forgetting a source is not observable: the table drops one only while it has no connection
  open, and from then on the buckets a newcomer gets grant and keep exactly what the dropped ones
  would have, at any later time.
\<close>

theorem forgetting_unobservable:
  assumes "table_ok r" "by_now now r" "sources r x = Some s" "sources (settle x now r) x = None" "now \<le> now'"
  shows "s_open s = 0
    \<and> fst (bucket_take now' (s_links s)) = fst (bucket_take now' (newBucket (lm_linkRate (lim r)) (lm_linkBurst (lim r)) now'))
    \<and> fst (bucket_take now' (s_setups s)) = fst (bucket_take now' (newBucket (lm_setupRate (lim r)) (lm_setupBurst (lim r)) now'))
    \<and> (0 < lm_linkRate (lim r) \<longrightarrow>
         snd (bucket_take now' (s_links s)) = snd (bucket_take now' (newBucket (lm_linkRate (lim r)) (lm_linkBurst (lim r)) now')))
    \<and> (0 < lm_setupRate (lim r) \<longrightarrow>
         snd (bucket_take now' (s_setups s)) = snd (bucket_take now' (newBucket (lm_setupRate (lim r)) (lm_setupBurst (lim r)) now')))"
proof -
  have gone: "fst (forgettable now s)"
    using assms(3,4) by (auto simp: settle_def split: if_splits prod.splits)
  have ok: "bucket_ok (lm_linkRate (lim r)) (lm_linkBurst (lim r)) (s_links s)"
    "bucket_ok (lm_setupRate (lim r)) (lm_setupBurst (lim r)) (s_setups s)"
    "bk_last (s_links s) \<le> now" "bk_last (s_setups s) \<le> now"
    using assms(1-3) by (auto simp: table_ok_def source_ok_def by_now_def)
  show ?thesis
    using full_is_fresh [OF ok(1,3) assms(5)] full_is_fresh [OF ok(2,4) assms(5)] forgettable_full [OF gone] by simp
qed

section \<open>Timers\<close>

text \<open>Waiting as long as \<^verbatim>\<open>refilledIn\<close> says, and the millisecond added, fills the bucket.\<close>

lemma refilledIn_suffices:
  assumes "bucket_ok rate burst b" "bk_last b \<le> now" "0 \<le> rate" "burst \<le> rate * seconds Hour \<or> rate = 0"
    "refilledIn now b = (wait, b')" "now + (wait + Millisecond) \<le> now'" "0 \<le> burst"
  shows "fst (bucket_full now' b')"
proof (cases "0 < rate")
  case False
  then show ?thesis using assms by (simp add: refilledIn_def bucket_full_def bucket_ok_def)
next
  case True
  have r: "bk_rate b = rate" "bk_burst b = burst" using assms(1) by (simp_all add: bucket_ok_def)
  have b': "b' = refill now b" "wait = \<lfloor>min ((burst - bk_tokens b') / rate) (seconds Hour) * of_int Second\<rfloor>"
    using assms(5) True r by (auto simp: refilledIn_def Let_def refill_def)
  have ok: "bucket_ok rate burst b'" unfolding b'(1) using assms refill_ok by simp
  have "burst - bk_tokens b' \<le> rate * seconds Hour" using assms(4) True ok by (auto simp: bucket_ok_def)
  then have "(burst - bk_tokens b') / rate \<le> seconds Hour" using True by (simp add: divide_le_eq mult.commute)
  then have "(burst - bk_tokens b') / rate * of_int Second < of_int wait + 1"
    using floor_correct [of "(burst - bk_tokens b') / rate * of_int Second"] unfolding b'(2) by (simp only: min_absorb1 of_int_add of_int_1)
  also have "\<dots> \<le> of_int (now' - now)"
  proof -
    have "wait + 1 \<le> now' - now" using assms(6) by (simp add: Millisecond_def)
    then show ?thesis by (metis of_int_1 of_int_add of_int_le_iff)
  qed
  finally have "(burst - bk_tokens b') / rate \<le> seconds (now' - now)"
    by (simp add: seconds_def le_divide_eq Second_def Millisecond_def)
  then have "burst \<le> bk_tokens b' + seconds (now' - now) * rate"
    using True by (simp add: divide_le_eq)
  then show ?thesis
    using b'(1) r True ok by (simp add: bucket_full_def refill_def Let_def bucket_ok_def)
qed

lemma refilledIn_full:
  assumes "bucket_full now b = (ok, b')" "refilledIn now b' = (wait, b'')"
  shows "refilledIn now b = (wait, b'')"
  using assms by (auto simp: bucket_full_def refilledIn_def refill_def Let_def seconds_def split: if_splits)

lemma forget_full:
  assumes "sources r x = Some s" "s_open s = 0" "fst (bucket_full now (s_links s))" "fst (bucket_full now (s_setups s))"
  shows "sources (forget x now r) x = None"
proof -
  obtain bl bs where "bucket_full now (s_links s) = (True, bl)" "bucket_full now (s_setups s) = (True, bs)"
    using assms(3,4) by (metis (full_types) prod.collapse)
  then show ?thesis using assms(1,2) by (simp add: forget_def settle_def forgettable_def Let_def)
qed

text \<open>A bucket that a source of the limits \<open>l\<close> can fill again within the hour the timers wait.\<close>

definition hourly :: "limits \<Rightarrow> bool" where
  "hourly l \<longleftrightarrow> (lm_linkBurst l \<le> lm_linkRate l * seconds Hour \<or> lm_linkRate l = 0)
     \<and> (lm_setupBurst l \<le> lm_setupRate l * seconds Hour \<or> lm_setupRate l = 0)"

text \<open>
  a source that has gone quiet is forgotten: once its last connection is closed, either
  \<^verbatim>\<open>settle\<close> drops it at once, or it starts one timer, due within an hour and a millisecond, and
  the timer drops it when it fires and nothing was taken in between, for limits that refill a
  bucket within the hour.
\<close>

theorem quiet_source_forgotten:
  assumes "table_ok r" "by_now now r" "limits_ok (lim r)" "hourly (lim r)" "sources r x = Some s" "s_open s = 0"
    "\<not> s_forgetting s"
  shows "sources (settle x now r) x = None \<and> timers (settle x now r) = timers r
    \<or> (\<exists>due. timers (settle x now r) = timers r @ [(due, x)] \<and> now < due \<and> due \<le> now + Hour + Millisecond
        \<and> (\<forall>now'. due \<le> now' \<longrightarrow> sources (forget x now' (settle x now r)) x = None))"
proof -
  obtain gone s1 where f: "forgettable now s = (gone, s1)" by (meson surj_pair)
  obtain wl bl ws bs where w: "refilledIn now (s_links s1) = (wl, bl)" "refilledIn now (s_setups s1) = (ws, bs)"
    by (meson surj_pair)
  let ?l = "lim r"
  have ok: "source_ok ?l s" "bk_last (s_links s) \<le> now" "bk_last (s_setups s) \<le> now"
    using assms(1,2,5) by (auto simp: table_ok_def by_now_def)
  note s1 = forgettable_ok [OF ok(1) assms(3) ok(2,3) f]
  have b1: "bucket_ok (lm_linkRate ?l) (lm_linkBurst ?l) (s_links s1)"
    "bucket_ok (lm_setupRate ?l) (lm_setupBurst ?l) (s_setups s1)"
    using s1(1) by (simp_all add: source_ok_def)
  have pos: "0 \<le> lm_linkRate ?l" "0 \<le> lm_setupRate ?l" "0 \<le> lm_linkBurst ?l" "0 \<le> lm_setupBurst ?l"
    using assms(3) by (simp_all add: limits_ok_def)
  have waits: "0 \<le> wl" "wl \<le> Hour" "0 \<le> ws" "ws \<le> Hour"
    using refilledIn_ok [OF b1(1) pos(1) s1(2) w(1)] refilledIn_ok [OF b1(2) pos(2) s1(3) w(2)] by simp_all
  show ?thesis
  proof (cases gone)
    case True
    then show ?thesis using assms(5-7) f by (simp add: settle_def)
  next
    case False
    let ?s = "s1\<lparr>s_links := bl, s_setups := bs, s_forgetting := True\<rparr>"
    let ?due = "now + (max wl ws + Millisecond)"
    have r': "settle x now r = r\<lparr>sources := (sources r)(x \<mapsto> ?s), timers := timers r @ [(?due, x)]\<rparr>"
      using assms(5-7) f w False by (simp add: settle_def)
    have "sources (forget x now' (settle x now r)) x = None" if "?due \<le> now'" for now'
    proof -
      have "fst (bucket_full now' bl)"
        by (rule refilledIn_suffices [OF b1(1) s1(2) pos(1) _ w(1)]) (use that assms(4) pos in \<open>auto simp: hourly_def\<close>)
      moreover have "fst (bucket_full now' bs)"
        by (rule refilledIn_suffices [OF b1(2) s1(3) pos(2) _ w(2)]) (use that assms(4) pos in \<open>auto simp: hourly_def\<close>)
      ultimately show ?thesis
        by (intro forget_full [of _ x ?s]) (use s1(4) assms(6) in \<open>simp_all add: r'\<close>)
    qed
    moreover have "now < ?due" "?due \<le> now + Hour + Millisecond"
      using waits by (auto simp: Millisecond_def)
    ultimately show ?thesis unfolding r' by auto
  qed
qed

section \<open>Instances\<close>

definition sampleConfig :: Config where
  "sampleConfig =
     \<lparr>cf_SetupCache = 0, cf_Period = 0, cf_QueueCells = 0, cf_HandshakeTimeout = 0, cf_SetupTimeout = 0, cf_WriteTimeout = 0,
      cf_IdleTimeout = 0, cf_CircuitLifetime = 0, cf_MaxHandshakes = 0, cf_MaxHandshakesPerSource = 0, cf_MaxLinks = 1,
      cf_MaxLinksPerSource = 0, cf_SourceLinkRate = Fin 0, cf_SourceLinkBurst = 0, cf_SourceSetupRate = Fin 0,
      cf_SourceSetupBurst = 0, cf_Deliver = None, cf_Peers = None\<rparr>"

definition sampleLimits :: limits where
  "sampleLimits =
     \<lparr>lm_handshake = 2 * Second, lm_setup = 10 * Second, lm_write = 5 * Second, lm_idle = 5 * Minute, lm_lifetime = 24 * Hour,
      lm_handshakes = 32, lm_sourceHandshakes = 4, lm_links = 1, lm_perSource = 32, lm_linkRate = 10, lm_setupRate = 2 / 10,
      lm_linkBurst = 50, lm_setupBurst = 10\<rparr>"

lemma sampleLimits_resolved: "resolveLimits sampleConfig = Inr sampleLimits"
  by (simp add: resolveLimits_def sampleConfig_def sampleLimits_def is_rate_def fin_def pick_def Let_def
      DefaultHandshakeTimeout_def DefaultSetupTimeout_def DefaultIdleTimeout_def DefaultCircuitLifetime_def
      DefaultMaxHandshakes_def DefaultMaxLinksPerSource_def DefaultSourceLinkRate_def DefaultSourceLinkBurst_def
      DefaultSourceSetupRate_def DefaultSourceSetupBurst_def sourceHandshakeShare_def unpacedWriteTimeout_def)

definition sampleSource :: "rat \<Rightarrow> source" where
  "sampleSource tokens =
     \<lparr>s_open = 0, s_handshaking = 0, s_links = (newBucket 10 50 0)\<lparr>bk_tokens := tokens\<rparr>, s_setups = newBucket (2 / 10) 10 0,
      s_forgetting = False\<rparr>"

definition sampleTable :: "rat \<Rightarrow> Admission" where
  "sampleTable tokens = (newAdmission sampleLimits)\<lparr>sources := [NoAddr \<mapsto> sampleSource tokens]\<rparr>"

lemma sampleTable_ok:
  "table_ok (sampleTable 0)" "by_now 0 (sampleTable 0)" "table_ok (sampleTable 50)" "by_now 0 (sampleTable 50)"
  "limits_ok sampleLimits" "hourly sampleLimits"
  by (auto simp: table_ok_def by_now_def forgetting_def sampleTable_def newAdmission_def source_ok_def bucket_ok_def
      sampleSource_def sampleLimits_def newBucket_def maxSources_def limits_ok_def hourly_def seconds_def Hour_def Minute_def
      Second_def Millisecond_def)

lemma sample_admitted:
  "adm_step\<^sup>*\<^sup>* (0, newAdmission sampleLimits, []) (0, snd (admit 0 NoAddr 0 (newAdmission sampleLimits)), [(0, NoAddr, True)])"
proof (rule r_into_rtranclp, rule adm_step.admitted)
  show "admit 0 NoAddr 0 (newAdmission sampleLimits) = (Inr (), snd (admit 0 NoAddr 0 (newAdmission sampleLimits)))"
    by (simp add: admit_def admitShared_def source_for_def newAdmission_def sampleLimits_def perSourceOn_def maxSources_def
        newBucket_def bucket_take_def refill_def seconds_def Let_def)
qed simp

theorem limiter_keeps_caps_witness:
  "inbound (snd (admit 0 NoAddr 0 (newAdmission sampleLimits))) = 1 \<and> lm_links sampleLimits = 1
   \<and> card (dom (sources (snd (admit 0 NoAddr 0 (newAdmission sampleLimits))))) \<le> maxSources"
  using limiter_keeps_caps [OF sampleLimits_resolved sample_admitted] by (simp add: sampleLimits_def)

theorem forgetting_unobservable_witness:
  "fst (bucket_take 7 (s_links (sampleSource 50))) = fst (bucket_take 7 (newBucket 10 50 7))
   \<and> snd (bucket_take 7 (s_links (sampleSource 50))) = snd (bucket_take 7 (newBucket 10 50 7))"
proof -
  have s: "sources (sampleTable 50) NoAddr = Some (sampleSource 50)" by (simp add: sampleTable_def)
  have gone: "sources (settle NoAddr 0 (sampleTable 50)) NoAddr = None"
    by (simp add: settle_def sampleTable_def sampleSource_def forgettable_def bucket_full_def refill_def newBucket_def
        seconds_def Let_def)
  show ?thesis
    using forgetting_unobservable [OF sampleTable_ok(3,4) s gone, of 7]
    by (simp add: sampleTable_def newAdmission_def sampleLimits_def)
qed

theorem quiet_source_forgotten_witness:
  "\<exists>due. timers (settle NoAddr 0 (sampleTable 0)) = [(due, NoAddr)]
     \<and> sources (forget NoAddr due (settle NoAddr 0 (sampleTable 0))) NoAddr = None"
proof -
  have s: "sources (sampleTable 0) NoAddr = Some (sampleSource 0)" "timers (sampleTable 0) = []" "lim (sampleTable 0) = sampleLimits"
    "s_open (sampleSource 0) = 0" "\<not> s_forgetting (sampleSource 0)"
    by (simp_all add: sampleTable_def newAdmission_def sampleSource_def)
  have "sources (settle NoAddr 0 (sampleTable 0)) NoAddr \<noteq> None"
    by (simp add: settle_def sampleTable_def sampleSource_def forgettable_def bucket_full_def refill_def newBucket_def
        seconds_def Let_def split: prod.splits)
  then show ?thesis
    using quiet_source_forgotten [OF sampleTable_ok(1,2) _ _ s(1,4,5)] sampleTable_ok(5,6) s by auto
qed

end
