(* ===== verification/Pacer.thy ===== *)
theory Pacer
  imports Chan Link Limiter
begin

text \<open>
  \<^verbatim>\<open>relay/pace.go\<close>: a pacer sends one frame per tick of its own clock, a queued cell or padding.
  The link it writes on is passed in and out. One turn of the loop of \<^verbatim>\<open>run\<close> is \<open>pacer_tick\<close>;
  when ticks happen is up to the clock. A turn that overlaps \<^verbatim>\<open>close\<close> only reads the queue and
  writes the link, neither of which \<^verbatim>\<open>close(p.stop)\<close> touches, so it is ordered before the close,
  which then waits for the loop to end and empties the queue.
\<close>

section \<open>State and operations\<close>

definition defaultQueueCells :: int where "defaultQueueCells = 64"

definition maxQueueCells :: int where "maxQueueCells = 4096"

record queued =
  q_cell :: Cell
  q_forwarded :: bool

record pacer =
  pc_out :: nat
  pc_period :: int
  pc_queue :: "queued chan"
  pc_stop :: bool
  pc_done :: bool
  pc_padding :: Cell

definition newPacer :: "nat \<Rightarrow> int \<Rightarrow> int \<Rightarrow> pacer" where
  "newPacer out period sz =
     \<lparr>pc_out = out, pc_period = period, pc_queue = make_chan (nat (if sz \<le> 0 then defaultQueueCells else sz)),
      pc_stop = False, pc_done = False, pc_padding = NewPadding\<rparr>"

definition push :: "Cell \<Rightarrow> bool \<Rightarrow> pacer \<Rightarrow> bool \<times> pacer" where
  "push cell forwarded p =
     (case try_send \<lparr>q_cell = cell, q_forwarded = forwarded\<rparr> (pc_queue p) of (ok, q) \<Rightarrow> (ok, p\<lparr>pc_queue := q\<rparr>))"

definition Stats_timeout :: "error \<Rightarrow> Counters \<Rightarrow> Counters" where
  "Stats_timeout e st = (if errors_Is e ErrDeadline then st\<lparr>TimedOut := TimedOut st + 1\<rparr> else st)"

definition lostToTeardown :: "error \<Rightarrow> bool" where
  "lostToTeardown e \<longleftrightarrow> errors_Is e ErrClosed"

definition pacer_send ::
  "pacer \<Rightarrow> Conn \<Rightarrow> Raw \<Rightarrow> Counters \<Rightarrow> unit result \<times> pacer \<times> Conn \<times> Raw \<times> Counters" where
  "pacer_send p c raw st =
     (case try_recv (pc_queue p) of
        (Some q, ch) \<Rightarrow>
          (case WriteCell (q_cell q) c raw of
             (Inl e, c, raw) \<Rightarrow> (Inl e, p\<lparr>pc_queue := ch\<rparr>, c, raw, st)
           | (Inr _, c, raw) \<Rightarrow>
               (Inr (), p\<lparr>pc_queue := ch\<rparr>, c, raw,
                if q_forwarded q then st\<lparr>Forwarded := Forwarded st + 1\<rparr> else st))
      | (None, ch) \<Rightarrow>
          (case WriteCell (pc_padding p) c raw of
             (Inl e, c, raw) \<Rightarrow> (Inl e, p, c, raw, st)
           | (Inr _, c, raw) \<Rightarrow> (Inr (), p, c, raw, st\<lparr>Padding := Padding st + 1\<rparr>)))"

definition pacer_tick :: "pacer \<Rightarrow> Conn \<Rightarrow> Raw \<Rightarrow> Counters \<Rightarrow> pacer \<times> Conn \<times> Raw \<times> Counters" where
  "pacer_tick p c raw st =
     (if pc_done p then (p, c, raw, st)
      else
        case pacer_send p c raw st of
          (Inl e, p, c, raw, st) \<Rightarrow>
            (let st = Stats_timeout e st;
                 st = (if lostToTeardown e then st else st\<lparr>Broken := Broken st + 1\<rparr>)
             in case Conn_Close c raw of (c, raw) \<Rightarrow> (p\<lparr>pc_done := True\<rparr>, c, raw, st))
        | (Inr _, p, c, raw, st) \<Rightarrow> (p, c, raw, st))"

primrec drain :: "queued list \<Rightarrow> Counters \<Rightarrow> Counters" where
  "drain [] st = st"
| "drain (q # qs) st = drain qs (st\<lparr>Dropped := Dropped st + 1\<rparr>)"

text \<open>\<^verbatim>\<open>close\<close> is safe on a nil pacer.\<close>

definition pacer_close :: "pacer option \<Rightarrow> Counters \<Rightarrow> pacer option \<times> Counters" where
  "pacer_close po st =
     (case po of
        None \<Rightarrow> (None, st)
      | Some p \<Rightarrow>
          (Some (p\<lparr>pc_stop := True, pc_done := True, pc_queue := (pc_queue p)\<lparr>ch_buf := []\<rparr>\<rparr>),
           drain (ch_buf (pc_queue p)) st))"

section \<open>One frame per tick\<close>

lemma drain_eq: "drain qs st = st\<lparr>Dropped := Dropped st + length qs\<rparr>"
  by (induction qs arbitrary: st) simp_all

lemma push_iff:
  "push cell fwd p = (ok, p') \<longleftrightarrow>
     ok = (length (ch_buf (pc_queue p)) < ch_cap (pc_queue p))
     \<and> p' = (if ok then p\<lparr>pc_queue := (pc_queue p)\<lparr>ch_buf := ch_buf (pc_queue p) @ [\<lparr>q_cell = cell, q_forwarded = fwd\<rparr>]\<rparr>\<rparr> else p)"
  by (auto simp: push_def try_send_def split: if_splits)

text \<open>The cell the next tick writes.\<close>

definition due_cell :: "pacer \<Rightarrow> Cell" where
  "due_cell p = (case ch_buf (pc_queue p) of [] \<Rightarrow> pc_padding p | q # _ \<Rightarrow> q_cell q)"

definition counted :: "pacer \<Rightarrow> Counters \<Rightarrow> Counters" where
  "counted p st =
     (case ch_buf (pc_queue p) of
        [] \<Rightarrow> st\<lparr>Padding := Padding st + 1\<rparr>
      | q # _ \<Rightarrow> if q_forwarded q then st\<lparr>Forwarded := Forwarded st + 1\<rparr> else st)"

lemma pacer_tick_sends:
  assumes "\<not> pc_done p" "sends c a s" "aead_ok a" "wf_cell (due_cell p)" "frame_len a \<le> room raw" "deadlineOK raw"
  shows "\<exists>c'. pacer_tick p c raw st =
      (p\<lparr>pc_queue := (pc_queue p)\<lparr>ch_buf := tl (ch_buf (pc_queue p))\<rparr>\<rparr>, c',
       raw\<lparr>outbox := outbox raw @ frames a s [due_cell p], room := room raw - frame_len a\<rparr>, counted p st)
    \<and> sends c' a (s + 1)"
proof -
  obtain c' where c: "WriteCell (due_cell p) c raw =
      (Inr (), c', raw\<lparr>outbox := outbox raw @ frames a s [due_cell p], room := room raw - frame_len a\<rparr>)" "sends c' a (s + 1)"
    using WriteCell_sends [OF assms(2-4)] assms(5,6) unfolding frame_len_def by blast
  then show ?thesis
    using assms(1)
    by (cases "ch_buf (pc_queue p)") (auto simp: pacer_tick_def pacer_send_def try_recv_def due_cell_def counted_def)
qed

section \<open>A run of pushes and ticks\<close>

fun pacer_run ::
  "queued option list \<Rightarrow> pacer \<Rightarrow> Conn \<Rightarrow> Raw \<Rightarrow> Counters \<Rightarrow> queued list \<times> pacer \<times> Conn \<times> Raw \<times> Counters" where
  "pacer_run [] p c raw st = ([], p, c, raw, st)"
| "pacer_run (Some q # es) p c raw st =
     (case push (q_cell q) (q_forwarded q) p of (ok, p) \<Rightarrow>
        (case pacer_run es p c raw st of (ins, r) \<Rightarrow> ((if ok then q # ins else ins), r)))"
| "pacer_run (None # es) p c raw st =
     (case pacer_tick p c raw st of (p, c, raw, st) \<Rightarrow> pacer_run es p c raw st)"

definition ticks :: "queued option list \<Rightarrow> nat" where
  "ticks es = length (filter (\<lambda>e. e = None) es)"

definition payload_cell :: "Cell \<Rightarrow> bool" where
  "payload_cell x \<longleftrightarrow> wf_cell x \<and> \<not> IsPadding x"

definition wf_pacer :: "pacer \<Rightarrow> bool" where
  "wf_pacer p \<longleftrightarrow> pc_padding p = NewPadding \<and> (\<forall>q \<in> set (ch_buf (pc_queue p)). payload_cell (q_cell q))
     \<and> length (ch_buf (pc_queue p)) \<le> ch_cap (pc_queue p)"

lemma wf_due: "wf_pacer p \<Longrightarrow> wf_cell (due_cell p)"
  by (cases "ch_buf (pc_queue p)") (auto simp: wf_pacer_def due_cell_def payload_cell_def wf_NewPadding)

lemma wf_newPacer: "wf_pacer (newPacer out period sz)"
  by (simp add: wf_pacer_def newPacer_def make_chan_def)

lemma wf_push: "wf_pacer p \<Longrightarrow> payload_cell (q_cell q) \<Longrightarrow> push (q_cell q) f p = (ok, p') \<Longrightarrow> wf_pacer p'"
  by (auto simp: wf_pacer_def push_iff split: if_splits)

lemma wf_tl: "wf_pacer p \<Longrightarrow> wf_pacer (p\<lparr>pc_queue := (pc_queue p)\<lparr>ch_buf := tl (ch_buf (pc_queue p))\<rparr>\<rparr>)"
  by (cases "ch_buf (pc_queue p)") (auto simp: wf_pacer_def)

text \<open>
  What a run of the pacer leaves on the link, and that its queue went through the run of the
  channel: the elements taken in and out are those of \<open>ch.run\<close>.
\<close>

lemma pacer_run_frames:
  assumes "wf_pacer p" "\<not> pc_done p" "sends c a s" "aead_ok a" "deadlineOK raw" "ticks es * frame_len a \<le> room raw"
    "\<forall>q. Some q \<in> set es \<longrightarrow> payload_cell (q_cell q)" "pacer_run es p c raw st = (ins, p', c', raw', st')"
  shows "\<exists>sent outs. ch.run es (pc_queue p) = (ins, outs, pc_queue p') \<and> length sent = ticks es
      \<and> outbox raw' = outbox raw @ frames a s sent \<and> filter (\<lambda>x. \<not> IsPadding x) sent = map q_cell outs
      \<and> (\<forall>x \<in> set sent. wf_cell x) \<and> \<not> pc_done p' \<and> wf_pacer p'"
  using assms
proof (induction es p c raw st arbitrary: s ins rule: pacer_run.induct)
  case (1 p c raw st)
  then show ?case by (simp add: ticks_def)
next
  case (2 q es p c raw st)
  obtain ok p1 where p1: "push (q_cell q) (q_forwarded q) p = (ok, p1)" by (meson surj_pair)
  obtain ins1 where ins1: "pacer_run es p1 c raw st = (ins1, p', c', raw', st')" "ins = (if ok then q # ins1 else ins1)"
    using 2(9) p1 by (auto split: prod.splits)
  have t: "try_send q (pc_queue p) = (ok, pc_queue p1)"
    using p1 by (auto simp: push_iff try_send_def split: if_splits)
  have "wf_pacer p1" "\<not> pc_done p1"
    using wf_push [OF 2(2) _ p1] 2(3,8) p1 by (auto simp: push_iff)
  then obtain sent outs where "ch.run es (pc_queue p1) = (ins1, outs, pc_queue p')" "length sent = ticks es"
    "outbox raw' = outbox raw @ frames a s sent" "filter (\<lambda>x. \<not> IsPadding x) sent = map q_cell outs"
    "\<forall>x \<in> set sent. wf_cell x" "\<not> pc_done p'" "wf_pacer p'"
    using 2(1) [OF p1 [symmetric] _ _ 2(4-6) _ _ ins1(1)] 2(7,8) by (auto simp: ticks_def)
  then show ?case using t ins1(2) by (intro exI [of _ sent] exI [of _ outs]) (simp add: ticks_def)
next
  case (3 es p c raw st)
  let ?p = "p\<lparr>pc_queue := (pc_queue p)\<lparr>ch_buf := tl (ch_buf (pc_queue p))\<rparr>\<rparr>"
  let ?x = "due_cell p"
  let ?raw = "raw\<lparr>outbox := outbox raw @ frames a s [?x], room := room raw - frame_len a\<rparr>"
  have le: "frame_len a \<le> room raw" "ticks es * frame_len a \<le> room ?raw" using 3(7) by (simp_all add: ticks_def)
  obtain c1 where c1: "pacer_tick p c raw st = (?p, c1, ?raw, counted p st)" "sends c1 a (s + 1)"
    using pacer_tick_sends [OF 3(3-5) wf_due [OF 3(2)] le(1) 3(6)] by blast
  have rest: "pacer_run es ?p c1 ?raw (counted p st) = (ins, p', c', raw', st')" using 3(9) c1(1) by simp
  obtain sent outs where ih: "ch.run es (pc_queue ?p) = (ins, outs, pc_queue p')" "length sent = ticks es"
    "outbox raw' = outbox ?raw @ frames a (s + 1) sent" "filter (\<lambda>x. \<not> IsPadding x) sent = map q_cell outs"
    "\<forall>x \<in> set sent. wf_cell x" "\<not> pc_done p'" "wf_pacer p'"
    using 3(1) [OF c1(1) [symmetric] refl refl wf_tl [OF 3(2)] _ c1(2) 3(5) _ le(2) _ rest] 3(3,6,8) by auto
  have "ch.run (None # es) (pc_queue p) =
      (ins, (case ch_buf (pc_queue p) of [] \<Rightarrow> outs | q # _ \<Rightarrow> q # outs), pc_queue p')"
  proof (cases "ch_buf (pc_queue p)")
    case Nil
    then have "ch.run es (pc_queue p) = (ins, outs, pc_queue p')" using ih(1) by (cases "pc_queue p") simp
    then show ?thesis using Nil by (simp add: try_recv_def)
  next
    case (Cons q qs)
    then show ?thesis using ih(1) by (simp add: try_recv_def)
  qed
  moreover have "filter (\<lambda>x. \<not> IsPadding x) (?x # sent) =
      map q_cell (case ch_buf (pc_queue p) of [] \<Rightarrow> outs | q # _ \<Rightarrow> q # outs)"
    using 3(2) ih(4) by (cases "ch_buf (pc_queue p)") (auto simp: due_cell_def wf_pacer_def payload_cell_def IsPadding_NewPadding)
  ultimately show ?case
    using ih(2,3,5-7) wf_due [OF 3(2)]
    by (intro exI [of _ "?x # sent"] exI [of _ "case ch_buf (pc_queue p) of [] \<Rightarrow> outs | q # _ \<Rightarrow> q # outs"])
      (simp add: ticks_def)
qed

text \<open>
  a pacer shows its link nothing but its clock: whatever is pushed and whenever, a run with \<open>k\<close>
  ticks writes exactly \<open>k\<close> frames of one size, and of the cells they carry those that are not
  padding are the cells pushed and taken, in order, with nothing lost but what still waits in the
  queue, which never exceeds its bound.
\<close>

theorem pacer_constant_rate:
  assumes "wf_pacer p" "\<not> pc_done p" "sends c a s" "aead_ok a" "deadlineOK raw" "ticks es * frame_len a \<le> room raw"
    "\<forall>q. Some q \<in> set es \<longrightarrow> payload_cell (q_cell q)" "pacer_run es p c raw st = (ins, p', c', raw', st')"
  shows "\<exists>sent. outbox raw' = outbox raw @ frames a s sent \<and> length sent = ticks es
    \<and> length (outbox raw') = length (outbox raw) + ticks es * frame_len a
    \<and> map q_cell (ch_buf (pc_queue p) @ ins) = filter (\<lambda>x. \<not> IsPadding x) sent @ map q_cell (ch_buf (pc_queue p'))
    \<and> length (ch_buf (pc_queue p')) \<le> ch_cap (pc_queue p)"
proof -
  obtain sent outs where r: "ch.run es (pc_queue p) = (ins, outs, pc_queue p')" "length sent = ticks es"
    "outbox raw' = outbox raw @ frames a s sent" "filter (\<lambda>x. \<not> IsPadding x) sent = map q_cell outs" "\<forall>x \<in> set sent. wf_cell x"
    using pacer_run_frames [OF assms] by blast
  have "ch_buf (pc_queue p) @ ins = outs @ ch_buf (pc_queue p')"
    using ch.run_in_order [OF r(1)] by simp
  moreover have "length (ch_buf (pc_queue p')) \<le> ch_cap (pc_queue p)"
    using ch.run_bounded [OF r(1)] assms(1) by (simp add: wf_pacer_def)
  moreover have "length (frames a s sent) = length sent * frame_len a"
    by (rule frames_length [OF assms(4) r(5)])
  ultimately show ?thesis
    using r(2-4) by (intro exI [of _ sent]) (metis (no_types, lifting) length_append map_append)
qed

text \<open>
  A cell that is queued is accounted for when the circuit goes: closing a pacer adds every cell
  that never left to the dropped ones, leaves nothing in the queue, and closing it again or closing
  none at all does nothing.
\<close>

theorem pacer_close_accounts:
  "pacer_close None st = (None, st)
   \<and> (\<forall>p. \<exists>p'. pacer_close (Some p) st = (Some p', st\<lparr>Dropped := Dropped st + length (ch_buf (pc_queue p))\<rparr>)
        \<and> ch_buf (pc_queue p') = [] \<and> pc_done p' \<and> (\<forall>st'. pacer_close (Some p') st' = (Some p', st')))"
  by (auto simp: pacer_close_def drain_eq)

theorem pacer_constant_rate_witness:
  "\<exists>p' c' raw' st' sent.
     pacer_run [Some \<lparr>q_cell = replicate 512 1, q_forwarded = True\<rparr>, None, None] (newPacer 0 1 1) sampleConn sampleRaw zeroCounters
       = ([\<lparr>q_cell = replicate 512 1, q_forwarded = True\<rparr>], p', c', raw', st')
     \<and> outbox raw' = frames sampleAEAD 5 sent \<and> length sent = 2 \<and> length (outbox raw') = 1056
     \<and> [replicate 512 1] = filter (\<lambda>x. \<not> IsPadding x) sent @ map q_cell (ch_buf (pc_queue p'))"
proof -
  let ?q = "\<lparr>q_cell = replicate 512 1, q_forwarded = True\<rparr>"
  let ?es = "[Some ?q, None, None]"
  have ok: "sends sampleConn sampleAEAD 5" "deadlineOK sampleRaw" "outbox sampleRaw = []"
    "ticks ?es = 2" "frame_len sampleAEAD = 528" "room sampleRaw = 2000" "payload_cell (replicate 512 1)"
    by (simp_all add: sends_def sampleConn_def sampleRaw_def ticks_def frame_len_def payload_cell_def wf_cell_def IsPadding_def
        Version_def) (simp_all add: sampleAEAD_def CellSize_def)
  obtain ins p' c' raw' st' where r: "pacer_run ?es (newPacer 0 1 1) sampleConn sampleRaw zeroCounters = (ins, p', c', raw', st')"
    by (metis surj_pair)
  have "ins = [?q]"
    using r by (auto simp: push_def try_send_def newPacer_def make_chan_def split: prod.splits)
  moreover have "\<not> pc_done (newPacer 0 1 1)" "ch_buf (pc_queue (newPacer 0 1 1)) = []"
    by (simp_all add: newPacer_def make_chan_def)
  ultimately show ?thesis
    using pacer_constant_rate [OF wf_newPacer _ ok(1) sampleAEAD_ok ok(2) _ _ r] r ok(3-7) by auto
qed

end
