(* ===== verification/Relay.thy ===== *)
theory Relay
  imports Pacer
begin

text \<open>
  \<^verbatim>\<open>relay/relay.go\<close>: the forwarding node. The record extends the limiter's with the tables that
  \<^verbatim>\<open>mu\<close> guards. Circuits are pointers of the source, so \<open>objs\<close> holds the objects and \<open>circuits\<close>
  the pointers by identifier; a circuit taken out of the table lives on in \<open>objs\<close> until the
  goroutines that hold it are done. A connection and the link over it share one handle, which
  \<open>r_links\<close> maps to the state of both. The random source and the locked memory are the world, the
  clock an argument, and what a dial reaches is \<open>r_dial\<close>, by address and handle.
\<close>

section \<open>State\<close>

record circuit =
  ci_hop :: Hop
  ci_fwdSeq :: Sequence
  ci_bwdSeq :: Sequence
  ci_next :: "nat option"
  ci_in :: nat
  ci_nextID :: u64
  ci_isExit :: bool
  ci_inbound :: u64
  ci_hopIndex :: int
  ci_replies :: u64
  ci_done :: bool
  ci_fwd :: "pacer option"
  ci_bwd :: "pacer option"
  ci_born :: int
  ci_active :: int
  ci_expiry :: "int option"
  ci_unwatched :: bool

record Relay = Admission +
  r_cfg :: Config
  r_provider :: provider
  r_static :: "bytes \<times> bytes"
  r_onion :: OnionRing
  r_onward :: int
  r_serving :: int
  circuits :: "u64 \<rightharpoonup> nat"
  objs :: "nat \<Rightarrow> circuit"
  nextObj :: nat
  owners :: "nat \<rightharpoonup> u64"
  r_links :: "nat \<Rightarrow> Conn \<times> Raw"
  nextLink :: nat
  r_pubSizes :: "suite \<rightharpoonup> nat"
  r_dial :: "bytes \<Rightarrow> nat \<Rightarrow> Raw result"

definition onwardTimeout :: int where "onwardTimeout = 5 * Second"

definition errOutOfTurn :: error where "errOutOfTurn = Errorf errBroken (Message ''counter out of turn'')"

definition errQueueFull :: error where "errQueueFull = Errorf errBroken (Message ''send queue full'')"

text \<open>A connection nobody has opened, and the object before any circuit is made.\<close>

definition noConn :: Conn where
  "noConn = \<lparr>cn_send = None, cn_recv = None, cn_frame = 0, cn_sendSeq = 0, cn_writeTimeout = 0, cn_werr = None, cn_recvSeq = 0\<rparr>"

definition noRaw :: Raw where
  "noRaw = \<lparr>inbox = [], outbox = [], room = 0, deadlineOK = False, rfail = ErrClosed, wfail = ErrClosed\<rparr>"

definition noHop :: Hop where
  "noHop = \<lparr>h_aead = None, h_index = 0, h_overhead = 0, h_offset = zeroOffsets\<rparr>"

definition newCircuitObj :: "Hop \<Rightarrow> u64 \<Rightarrow> bool \<Rightarrow> u64 \<Rightarrow> nat \<Rightarrow> int \<Rightarrow> int \<Rightarrow> circuit" where
  "newCircuitObj hop nextID isExit inb from index now =
     \<lparr>ci_hop = hop, ci_fwdSeq = newSequence, ci_bwdSeq = newSequence, ci_next = None, ci_in = from, ci_nextID = nextID,
      ci_isExit = isExit, ci_inbound = inb, ci_hopIndex = index, ci_replies = 0, ci_done = False, ci_fwd = None, ci_bwd = None,
      ci_born = now, ci_active = 0, ci_expiry = None, ci_unwatched = False\<rparr>"

text \<open>\<^verbatim>\<open>New\<close>; \<open>priv\<close> and \<open>ring\<close> are \<open>None\<close> for nil.\<close>

definition New ::
  "Config \<Rightarrow> provider \<Rightarrow> bytes option \<Rightarrow> bytes \<Rightarrow> OnionRing option \<Rightarrow> (bytes \<Rightarrow> nat \<Rightarrow> Raw result) \<Rightarrow> Relay io" where
  "New cfg p priv pub ring dial w =
     (case priv of
        None \<Rightarrow> (Inl errNoStatic, w)
      | Some k \<Rightarrow>
          (case PublicKeySize p w of
             (Inl e, w) \<Rightarrow> (Inl e, w)
           | (Inr sz, w) \<Rightarrow>
               if length pub \<noteq> sz then (Inl ErrStaticPubSize, w)
               else if cf_QueueCells cfg < 0 \<or> cf_QueueCells cfg > maxQueueCells then (Inl ErrQueueSize, w)
               else if cf_SetupCache cfg < 0 \<or> cf_SetupCache cfg > MaxSetupCache then (Inl ErrCacheSize, w)
               else
                 case resolveLimits cfg of
                   Inl e \<Rightarrow> (Inl e, w)
                 | Inr l \<Rightarrow>
                     (case checkKeyPair p k pub ErrStaticPair w of
                        (Inl e, w) \<Rightarrow> (Inl e, w)
                      | (Inr _, w) \<Rightarrow>
                          (Inr \<lparr>lim = l, conns = {}, inbound = 0, handshaking = 0, sources = Map.empty, sourceCap = maxSources,
                                isClosed = False, timers = [], stats = zeroCounters,
                                r_cfg = cfg, r_provider = p, r_static = (k, pub),
                                r_onion = (case ring of Some g \<Rightarrow> g | None \<Rightarrow> staticRing k pub (cf_SetupCache cfg)),
                                r_onward = onwardTimeout, r_serving = 0, circuits = Map.empty,
                                objs = (\<lambda>_. newCircuitObj noHop 0 False 0 0 0 0), nextObj = 0, owners = Map.empty,
                                r_links = (\<lambda>_. (noConn, noRaw)), nextLink = 0, r_pubSizes = Map.empty, r_dial = dial\<rparr>, w))))"

section \<open>Links and objects\<close>

definition count :: "(Counters \<Rightarrow> Counters) \<Rightarrow> Relay \<Rightarrow> Relay" where
  "count f r = r\<lparr>stats := f (stats r)\<rparr>"

definition setObj :: "nat \<Rightarrow> circuit \<Rightarrow> Relay \<Rightarrow> Relay" where
  "setObj i c r = r\<lparr>objs := (objs r)(i := c)\<rparr>"

definition setLink :: "nat \<Rightarrow> Conn \<times> Raw \<Rightarrow> Relay \<Rightarrow> Relay" where
  "setLink l cr r = r\<lparr>r_links := (r_links r)(l := cr)\<rparr>"

definition link_write :: "Cell \<Rightarrow> nat \<Rightarrow> Relay \<Rightarrow> unit result \<times> Relay" where
  "link_write cell l r =
     (case r_links r l of (c, raw) \<Rightarrow>
        (case WriteCell cell c raw of (res, cr) \<Rightarrow> (res, setLink l cr r)))"

definition link_close :: "nat \<Rightarrow> Relay \<Rightarrow> Relay" where
  "link_close l r = (case r_links r l of (c, raw) \<Rightarrow> setLink l (Conn_Close c raw) r)"

text \<open>\<^verbatim>\<open>conn.Close\<close> on the connection under a link leaves the link's keys alone.\<close>

definition conn_close :: "nat \<Rightarrow> Relay \<Rightarrow> Relay" where
  "conn_close l r = (case r_links r l of (c, raw) \<Rightarrow> setLink l (c, raw_Close raw) r)"

definition hold :: "nat \<Rightarrow> Relay \<Rightarrow> bool \<times> Relay" where
  "hold conn r = (if isClosed r then (False, r) else (True, r\<lparr>conns := insert conn (conns r)\<rparr>))"

definition drop_conn :: "nat \<Rightarrow> Relay \<Rightarrow> Relay" where
  "drop_conn conn r = r\<lparr>conns := conns r - {conn}\<rparr>"

definition owns :: "nat \<Rightarrow> Relay \<Rightarrow> bool" where
  "owns l r \<longleftrightarrow> owners r l \<noteq> None"

definition writeFailure :: "error \<Rightarrow> error" where
  "writeFailure e = (if lostToTeardown e then errFatal else errBroken)"

definition setupFailed :: "nat \<Rightarrow> error \<Rightarrow> Relay \<Rightarrow> error" where
  "setupFailed from e r = (if owns from r then e else errFatal)"

definition relay_newPacer :: "nat \<Rightarrow> Relay \<Rightarrow> pacer option" where
  "relay_newPacer out r =
     (if cf_Period (r_cfg r) \<le> 0 then None
      else Some (newPacer out (cf_Period (r_cfg r)) (cf_QueueCells (r_cfg r))))"

section \<open>Expiry\<close>

definition touch :: "int \<Rightarrow> circuit \<Rightarrow> circuit" where
  "touch now c = c\<lparr>ci_active := now - ci_born c\<rparr>"

text \<open>\<open>None\<close> is the zero time.\<close>

definition expiresAt :: "limits \<Rightarrow> circuit \<Rightarrow> int option" where
  "expiresAt l c =
     (let due = (if lm_idle l > 0 then Some (ci_born c + (ci_active c + lm_idle l)) else None) in
      if lm_lifetime l > 0 then
        let stop = ci_born c + lm_lifetime l in
        (case due of None \<Rightarrow> Some stop | Some t \<Rightarrow> if stop < t then Some stop else Some t)
      else due)"

definition watch :: "nat \<Rightarrow> int \<Rightarrow> Relay \<Rightarrow> Relay" where
  "watch i now r =
     (if lm_idle (lim r) \<le> 0 \<and> lm_lifetime (lim r) \<le> 0 then r
      else
        let c = touch now (objs r i) in
        setObj i (if ci_unwatched c then c else c\<lparr>ci_expiry := expiresAt (lim r) c\<rparr>) r)"

definition expire :: "nat \<Rightarrow> int \<Rightarrow> Relay \<Rightarrow> Relay" where
  "expire i now r =
     (let c = objs r i in
      if ci_unwatched c then r
      else
        case expiresAt (lim r) c of
          Some t \<Rightarrow>
            if t > now then setObj i (c\<lparr>ci_expiry := Some t\<rparr>) r
            else link_close (ci_in c) (count (\<lambda>s. s\<lparr>Expired := Expired s + 1\<rparr>) (setObj i (c\<lparr>ci_unwatched := True, ci_expiry := None\<rparr>) r))
        | None \<Rightarrow>
            link_close (ci_in c) (count (\<lambda>s. s\<lparr>Expired := Expired s + 1\<rparr>) (setObj i (c\<lparr>ci_unwatched := True, ci_expiry := None\<rparr>) r)))"

definition unwatch :: "circuit \<Rightarrow> circuit" where
  "unwatch c = c\<lparr>ci_unwatched := True, ci_expiry := None\<rparr>"

section \<open>Data cells\<close>

text \<open>The cell of a reply; a payload too long for a cell leaves as cover under the same number.\<close>

definition sealedReply :: "circuit \<Rightarrow> u64 \<Rightarrow> bytes option \<Rightarrow> Relay \<Rightarrow> world \<Rightarrow> Cell result \<times> Relay \<times> world" where
  "sealedReply c counter payload r w =
     (case payload of
        None \<Rightarrow> (case SealCoverReply (ci_hop c) (ci_inbound c) counter w of (res, w) \<Rightarrow> (res, r, w))
      | Some b \<Rightarrow>
          (case SealReply (ci_hop c) (ci_inbound c) counter b w of
             (Inr cell, w) \<Rightarrow> (Inr cell, r, w)
           | (Inl e, w) \<Rightarrow>
               if errors_Is e ErrPayloadSize then
                 case SealCoverReply (ci_hop c) (ci_inbound c) counter w of
                   (res, w) \<Rightarrow> (res, count (\<lambda>s. s\<lparr>Dropped := Dropped s + 1\<rparr>) r, w)
               else (Inl e, r, w)))"

definition reply :: "nat \<Rightarrow> bytes option \<Rightarrow> Relay \<Rightarrow> world \<Rightarrow> unit result \<times> Relay \<times> world" where
  "reply i payload r w =
     (let c = objs r i;
          counter = ci_replies c;
          c = c\<lparr>ci_replies := counter + 1\<rparr>;
          r = setObj i c r
      in case sealedReply c counter payload r w of
           (Inl e, r, w) \<Rightarrow> (Inl errBroken, r, w)
         | (Inr cell, r, w) \<Rightarrow>
             (case ci_bwd c of
                Some p \<Rightarrow>
                  (case push cell False p of (ok, p) \<Rightarrow>
                     (if ok then Inr () else Inl errQueueFull, setObj i (c\<lparr>ci_bwd := Some p\<rparr>) r, w))
              | None \<Rightarrow>
                  (case link_write cell (ci_in c) r of
                     (Inl e, r) \<Rightarrow> (Inl (writeFailure e), count (Stats_timeout e) r, w)
                   | (Inr _, r) \<Rightarrow> (Inr (), r, w))))"

definition routeExit :: "nat \<Rightarrow> Cell \<Rightarrow> Header \<Rightarrow> int \<Rightarrow> Relay \<Rightarrow> world \<Rightarrow> unit result \<times> Relay \<times> world" where
  "routeExit i cell hdr now r w =
     (let c = objs r i in
      case OpenLast (ci_hop c) cell w of
        (Inl e, w) \<Rightarrow> (Inl e, r, w)
      | (Inr (payload, cover), w) \<Rightarrow>
          (case Next (hCounter hdr) (ci_fwdSeq c) of (ok, sq) \<Rightarrow>
             (if \<not> ok then (Inl errOutOfTurn, r, w)
              else
                let r = count (\<lambda>s. s\<lparr>Delivered := Delivered s + 1\<rparr>) (setObj i (touch now (c\<lparr>ci_fwdSeq := sq\<rparr>)) r);
                    answer = (if cover then None
                              else case cf_Deliver (r_cfg r) of None \<Rightarrow> None | Some f \<Rightarrow> f (ci_inbound c) payload)
                in reply i answer r w)))"

definition routeOn :: "nat \<Rightarrow> Cell \<Rightarrow> Header \<Rightarrow> int \<Rightarrow> Relay \<Rightarrow> world \<Rightarrow> unit result \<times> Relay \<times> world" where
  "routeOn i cell hdr now r w =
     (let c = objs r i in
      case Peel (ci_hop c) cell w of
        (Inl e, w) \<Rightarrow> (Inl e, r, w)
      | (Inr out, w) \<Rightarrow>
          (case Next (hCounter hdr) (ci_fwdSeq c) of (ok, sq) \<Rightarrow>
             (if \<not> ok then (Inl errOutOfTurn, r, w)
              else
                let c = touch now (c\<lparr>ci_fwdSeq := sq\<rparr>);
                    out = SetCircuit (ci_nextID c) out;
                    r = setObj i c r
                in case ci_fwd c of
                     Some p \<Rightarrow>
                       (case push out True p of (ok, p) \<Rightarrow>
                          (if ok then Inr () else Inl errQueueFull, setObj i (c\<lparr>ci_fwd := Some p\<rparr>) r, w))
                   | None \<Rightarrow>
                       (case ci_next c of
                          None \<Rightarrow> (Inl Panic, r, w)
                        | Some l \<Rightarrow>
                            (case link_write out l r of
                               (Inl e, r) \<Rightarrow> (Inl (writeFailure e), count (Stats_timeout e) r, w)
                             | (Inr _, r) \<Rightarrow> (Inr (), count (\<lambda>s. s\<lparr>Forwarded := Forwarded s + 1\<rparr>) r, w))))))"

section \<open>Setup\<close>

text \<open>The cancelled context of a closed relay fails every dial.\<close>

definition relay_dial :: "bytes \<Rightarrow> Relay \<Rightarrow> nat result \<times> Relay" where
  "relay_dial addr r =
     (if isClosed r then (Inl errDial, r)
      else
        case r_dial r addr (nextLink r) of
          Inl e \<Rightarrow> (Inl e, r)
        | Inr raw \<Rightarrow> (Inr (nextLink r), setLink (nextLink r) (noConn, raw) r\<lparr>nextLink := nextLink r + 1\<rparr>))"

text \<open>The local function \<^verbatim>\<open>fail\<close> of \<^verbatim>\<open>extend\<close>.\<close>

definition extendFail :: "nat \<Rightarrow> error \<Rightarrow> Relay \<Rightarrow> Relay" where
  "extendFail raw e r = drop_conn raw (conn_close raw (count (Stats_timeout e) r))"

text \<open>The handshake with the next hop and the setup sent on, over the connection \<open>l\<close>.\<close>

definition extendOver :: "nat \<Rightarrow> nat \<Rightarrow> SetupLayer \<Rightarrow> nat \<Rightarrow> bytes option \<Rightarrow> Relay \<Rightarrow> world \<Rightarrow> unit result \<times> Relay \<times> world" where
  "extendOver i l layer index peerLink r w =
     (case Dial (r_provider r) peerLink (snd (r_links r l)) w of
        (Inl e, raw, w) \<Rightarrow>
          (let r = setLink l (noConn, raw) r;
               r = (if errors_Is e ErrHandshake then count (\<lambda>s. s\<lparr>FailedExtend := FailedExtend s + 1\<rparr>) r else r)
           in (Inl e, extendFail l e r, w))
      | (Inr conn, raw, w) \<Rightarrow>
          (let r = setLink l (SetWriteTimeout (lm_write (lim r)) conn, raw) r in
           case ForwardSetup layer index w of
             (Inl e, w) \<Rightarrow> (Inl e, extendFail l e (link_close l r), w)
           | (Inr fwd, w) \<Rightarrow>
               (case link_write fwd l r of
                  (Inl e, r) \<Rightarrow> (Inl e, extendFail l e (link_close l r), w)
                | (Inr _, r) \<Rightarrow>
                    (Inr (),
                     setObj i ((objs r i)\<lparr>ci_next := Some l, ci_fwd := relay_newPacer l r,
                                          ci_bwd := relay_newPacer (ci_in (objs r i)) r\<rparr>) r, w))))"

definition extend :: "nat \<Rightarrow> SetupLayer \<Rightarrow> nat \<Rightarrow> Relay \<Rightarrow> world \<Rightarrow> unit result \<times> Relay \<times> world" where
  "extend i layer index r w =
     (case (case cf_Peers (r_cfg r) of
              None \<Rightarrow> Inr None
            | Some peers \<Rightarrow>
                (case peers (sl_NextAddr layer) of
                   None \<Rightarrow> Inl errNotPeer
                 | Some key \<Rightarrow> if key = [] then Inl errNotPeer else Inr (Some key))) of
        Inl e \<Rightarrow> (Inl e, count (\<lambda>s. s\<lparr>RefusedExtend := RefusedExtend s + 1\<rparr>) r, w)
      | Inr peerLink \<Rightarrow>
          (case relay_dial (sl_NextAddr layer) r of
             (Inl e, r) \<Rightarrow> (Inl e, r, w)
           | (Inr l, r) \<Rightarrow>
               (case hold l r of
                  (False, r) \<Rightarrow> (Inl errFatal, conn_close l r, w)
                | (True, r) \<Rightarrow> extendOver i l layer index peerLink r w)))"

definition hop_close :: "nat \<Rightarrow> Relay \<Rightarrow> Relay" where
  "hop_close i r = setObj i ((objs r i)\<lparr>ci_hop := Hop_Close (ci_hop (objs r i))\<rparr>) r"

text \<open>The circuit registered under its identifier and its link, then extended, or started at the exit.\<close>

definition register ::
  "circuit \<Rightarrow> SetupLayer \<Rightarrow> Header \<Rightarrow> nat \<Rightarrow> int \<Rightarrow> Relay \<Rightarrow> world \<Rightarrow> unit result \<times> Relay \<times> world" where
  "register c layer hdr from now r w =
     (if isClosed r then (Inl errFatal, r, w)
      else if circuits r (hCircuit hdr) \<noteq> None then (Inl (setupFailed from errDuplicate r), r, w)
      else if owns from r then (Inl errLinkTaken, r, w)
      else
        let i = nextObj r;
            r = setObj i c r\<lparr>nextObj := i + 1\<rparr>;
            r = r\<lparr>circuits := (circuits r)(hCircuit hdr \<mapsto> i), owners := (owners r)(from \<mapsto> hCircuit hdr)\<rparr>
        in if ci_isExit c then
             (Inr (), watch i now (setObj i ((objs r i)\<lparr>ci_bwd := relay_newPacer from r\<rparr>) r), w)
           else
             case extend i layer (nat (ci_hopIndex c)) r w of
               (Inr _, r, w) \<Rightarrow> (Inr (), watch i now r, w)
             | (Inl e, r, w) \<Rightarrow>
                 (let r = r\<lparr>circuits := (circuits r)(hCircuit hdr := None), owners := (owners r)(from := None)\<rparr>;
                      r = hop_close i r
                  in (Inl (setupFailed from e r), r, w)))"

definition setup_circuit ::
  "Cell \<Rightarrow> Header \<Rightarrow> nat \<Rightarrow> Addr \<Rightarrow> int \<Rightarrow> Relay \<Rightarrow> world \<Rightarrow> unit result \<times> Relay \<times> world" where
  "setup_circuit cell hdr from src now r w =
     (if owns from r then (Inl errLinkTaken, r, w)
      else
        case allowSetup src now r of
          (False, r) \<Rightarrow>
            (let r = count (\<lambda>s. s\<lparr>RefusedSetups := RefusedSetups s + 1\<rparr>) r in (Inl (setupFailed from errSetupRate r), r, w))
        | (True, r) \<Rightarrow>
            (case Open (r_provider r) cell (r_onion r) w of
               (Inl e, g, w) \<Rightarrow> (let r = r\<lparr>r_onion := g\<rparr> in (Inl (setupFailed from e r), r, w))
             | (Inr layer, g, w) \<Rightarrow>
                 (let r = r\<lparr>r_onion := g\<rparr>;
                      index = sint (hCounter hdr);
                      w' = release w
                  in case NewHop (r_provider r) (sl_CellKey layer) (sl_Offsets layer) index of
                       Inl e \<Rightarrow> (Inl (setupFailed from e r), r, w')
                     | Inr hop \<Rightarrow>
                         (let c = newCircuitObj hop (sl_NextCircuit layer) (sl_NextAddr layer = []) (hCircuit hdr) from index now;
                              c = (if ci_isExit c then c\<lparr>ci_fwdSeq := Expect (sl_First layer) (ci_fwdSeq c)\<rparr> else c)
                          in register c layer hdr from now r w'))))"

definition route :: "Cell \<Rightarrow> nat \<Rightarrow> Addr \<Rightarrow> int \<Rightarrow> Relay \<Rightarrow> world \<Rightarrow> unit result \<times> Relay \<times> world" where
  "route cell from src now r w =
     (case Cell_Header cell of
        Inl e \<Rightarrow> (Inl e, r, w)
      | Inr hdr \<Rightarrow>
          (let r = count (\<lambda>s. s\<lparr>Accepted := Accepted s + 1\<rparr>) r in
           if hKind hdr = KindControl then setup_circuit cell hdr from src now r w
           else
             case circuits r (hCircuit hdr) of
               None \<Rightarrow> (Inl errUnknownCircuit, r, w)
             | Some i \<Rightarrow>
                 if ci_in (objs r i) \<noteq> from then (Inl errUnknownCircuit, r, w)
                 else if ci_isExit (objs r i) then routeExit i cell hdr now r w
                 else routeOn i cell hdr now r w))"

section \<open>Backward cells and teardown\<close>

text \<open>The deferred calls of \<^verbatim>\<open>backward\<close>.\<close>

definition backwardExit :: "nat \<Rightarrow> Relay \<Rightarrow> Relay" where
  "backwardExit i r = link_close (ci_in (objs r i)) (setObj i ((objs r i)\<lparr>ci_done := True\<rparr>) r)"

definition broken :: "Relay \<Rightarrow> Relay" where
  "broken r = count (\<lambda>s. s\<lparr>Broken := Broken s + 1\<rparr>) r"

text \<open>What \<^verbatim>\<open>backward\<close> does with one cell; the flag says whether its loop goes on.\<close>

definition backwardCell :: "nat \<Rightarrow> Cell \<Rightarrow> int \<Rightarrow> Relay \<Rightarrow> world \<Rightarrow> bool \<times> Relay \<times> world" where
  "backwardCell i cell now r w =
     (let c = objs r i in
      case Cell_Header cell of
        Inl e \<Rightarrow> (False, backwardExit i (broken r), w)
      | Inr hdr \<Rightarrow>
          if hKind hdr \<noteq> KindData then (False, backwardExit i (broken r), w)
          else
            case Next (hCounter hdr) (ci_bwdSeq c) of (ok, sq) \<Rightarrow>
              (if \<not> ok then (False, backwardExit i (broken r), w)
               else
                 let c = c\<lparr>ci_bwdSeq := sq\<rparr>; r = setObj i c r in
                 case Wrap (ci_hop c) cell (ci_inbound c) w of
                   (Inl e, w) \<Rightarrow> (False, backwardExit i (broken r), w)
                 | (Inr out, w) \<Rightarrow>
                     (let c = touch now c; r = setObj i c r in
                      case ci_bwd c of
                        Some p \<Rightarrow>
                          (case push out True p of (ok, p) \<Rightarrow>
                             (let r = setObj i (c\<lparr>ci_bwd := Some p\<rparr>) r in
                              if ok then (True, r, w) else (False, backwardExit i (broken r), w)))
                      | None \<Rightarrow>
                          (case link_write out (ci_in c) r of
                             (Inl e, r) \<Rightarrow>
                               (let r = count (Stats_timeout e) r;
                                    r = (if lostToTeardown e then r else broken r)
                                in (False, backwardExit i r, w))
                           | (Inr _, r) \<Rightarrow> (True, count (\<lambda>s. s\<lparr>Forwarded := Forwarded s + 1\<rparr>) r, w)))))"

text \<open>
  One turn of the loop, with the cell read from the next hop; \<open>None\<close> when the read does not return.
\<close>

definition backwardTurn :: "nat \<Rightarrow> int \<Rightarrow> Relay \<Rightarrow> world \<Rightarrow> (bool \<times> Relay \<times> world) option" where
  "backwardTurn i now r w =
     (case ci_next (objs r i) of
        None \<Rightarrow> None
      | Some l \<Rightarrow>
          (case r_links r l of (c, raw) \<Rightarrow>
             (case ReadCell (replicate CellSize 0) c raw of
                None \<Rightarrow> None
              | Some (res, cell, cr) \<Rightarrow>
                  (let r = setLink l cr r in
                   case res of
                     Inl e \<Rightarrow> Some (False, backwardExit i r, w)
                   | Inr _ \<Rightarrow> Some (backwardCell i cell now r w)))))"

text \<open>One tick of a pacer of circuit \<open>i\<close>: the turn of \<^verbatim>\<open>run\<close> on the state it shares with the relay.\<close>

definition pacerStep :: "nat \<Rightarrow> bool \<Rightarrow> Relay \<Rightarrow> Relay" where
  "pacerStep i forward r =
     (let c = objs r i in
      case (if forward then ci_fwd c else ci_bwd c) of
        None \<Rightarrow> r
      | Some p \<Rightarrow>
          (case r_links r (pc_out p) of (cn, raw) \<Rightarrow>
             (case pacer_tick p cn raw (stats r) of (p', cn, raw, st) \<Rightarrow>
                setObj i (if forward then c\<lparr>ci_fwd := Some p'\<rparr> else c\<lparr>ci_bwd := Some p'\<rparr>)
                  (setLink (pc_out p) (cn, raw) (r\<lparr>stats := st\<rparr>)))))"

definition closePacer :: "nat \<Rightarrow> bool \<Rightarrow> Relay \<Rightarrow> Relay" where
  "closePacer i forward r =
     (let c = objs r i in
      case pacer_close (if forward then ci_fwd c else ci_bwd c) (stats r) of (p, st) \<Rightarrow>
        setObj i (if forward then c\<lparr>ci_fwd := p\<rparr> else c\<lparr>ci_bwd := p\<rparr>) (r\<lparr>stats := st\<rparr>))"

text \<open>
  \<^verbatim>\<open>release\<close> waits for \<^verbatim>\<open>backward\<close>, whose read fails once the link onwards is closed.
\<close>

definition release_circuit :: "nat \<Rightarrow> Relay \<Rightarrow> Relay" where
  "release_circuit i r =
     (let r = setObj i (unwatch (objs r i)) r;
          r = (case ci_next (objs r i) of
                 None \<Rightarrow> r
               | Some l \<Rightarrow>
                   (let r = closePacer i True (link_close l r);
                        r = (if ci_done (objs r i) then r else backwardExit i r)
                    in drop_conn l r));
          r = closePacer i False r
      in hop_close i r)"

definition teardown :: "nat \<Rightarrow> Relay \<Rightarrow> Relay" where
  "teardown from r =
     (case owners r from of
        None \<Rightarrow> r
      | Some cid \<Rightarrow>
          (let c = circuits r cid;
               r = r\<lparr>owners := (owners r)(from := None), circuits := (circuits r)(cid := None)\<rparr>
           in case c of None \<Rightarrow> r | Some i \<Rightarrow> release_circuit i r))"

section \<open>Connections\<close>

text \<open>The deferred calls of \<^verbatim>\<open>handle\<close> once the link is up, and those from its start.\<close>

definition handleExit :: "nat \<Rightarrow> Addr \<Rightarrow> int \<Rightarrow> Relay \<Rightarrow> Relay" where
  "handleExit conn src now r = conn_close conn (leave conn src now r)"

definition handleEnd :: "nat \<Rightarrow> Addr \<Rightarrow> int \<Rightarrow> Relay \<Rightarrow> Relay" where
  "handleEnd conn src now r = handleExit conn src now (teardown conn (link_close conn r))"

text \<open>\<^verbatim>\<open>handle\<close> up to its loop; the flag says whether the loop starts.\<close>

definition handleStart :: "nat \<Rightarrow> Addr \<Rightarrow> int \<Rightarrow> Relay \<Rightarrow> world \<Rightarrow> bool \<times> Relay \<times> world" where
  "handleStart conn src now r w =
     (case Accept (r_provider r) (r_pubSizes r) (Some (r_static r)) (snd (r_links r conn)) w of
        (res, raw, sizes, w) \<Rightarrow>
          (let r = handshakeDone src (r\<lparr>r_pubSizes := sizes\<rparr>) in
           case res of
             Inl e \<Rightarrow> (False, handleExit conn src now (count (Stats_timeout e) (setLink conn (noConn, raw) r)), w)
           | Inr lc \<Rightarrow> (True, setLink conn (SetWriteTimeout (lm_write (lim r)) lc, raw) r, w)))"

text \<open>What the loop does with the outcome of \<^verbatim>\<open>route\<close>; the flag says whether it goes on.\<close>

definition handleRouted :: "nat \<Rightarrow> Addr \<Rightarrow> int \<Rightarrow> unit result \<Rightarrow> Relay \<Rightarrow> bool \<times> Relay" where
  "handleRouted conn src now res r =
     (case res of
        Inr _ \<Rightarrow> (True, r)
      | Inl e \<Rightarrow>
          if errors_Is e errBroken then (False, handleEnd conn src now (broken r))
          else
            let r = count (\<lambda>s. s\<lparr>Dropped := Dropped s + 1\<rparr>) r in
            if errors_Is e errFatal then (False, handleEnd conn src now r) else (True, r))"

definition handleTurn :: "nat \<Rightarrow> Addr \<Rightarrow> int \<Rightarrow> Relay \<Rightarrow> world \<Rightarrow> (bool \<times> Relay \<times> world) option" where
  "handleTurn conn src now r w =
     (case r_links r conn of (c, raw) \<Rightarrow>
        (case ReadCell (replicate CellSize 0) c raw of
           None \<Rightarrow> None
         | Some (res, cell, cr) \<Rightarrow>
             (let r = setLink conn cr r in
              case res of
                Inl e \<Rightarrow> Some (False, handleEnd conn src now (count (Stats_timeout e) r), w)
              | Inr _ \<Rightarrow>
                  (case route cell conn src now r w of (res, r, w) \<Rightarrow>
                     (case handleRouted conn src now res r of (goes, r) \<Rightarrow> Some (goes, r, w))))))"

text \<open>
  \<^verbatim>\<open>temporary\<close>: of the errors a listener returns, \<open>ErrTemporary\<close> stands for those that report
  themselves temporary. \<open>serveStart\<close> is the entry of \<^verbatim>\<open>Serve\<close> and \<open>serveReturn\<close> its deferred call; a
  turn of its loop takes what \<^verbatim>\<open>ln.Accept\<close> returned, and \<open>Some\<close> is what \<^verbatim>\<open>Serve\<close> returns.
\<close>

definition temporary :: "error \<Rightarrow> bool" where
  "temporary e \<longleftrightarrow> \<not> errors_Is e ErrClosed \<and> errors_Is e ErrTemporary"

definition serveStart :: "Relay \<Rightarrow> Relay" where
  "serveStart r = r\<lparr>r_serving := r_serving r + 1\<rparr>"

definition serveReturn :: "Relay \<Rightarrow> Relay" where
  "serveReturn r = r\<lparr>r_serving := r_serving r - 1\<rparr>"

definition Serving :: "Relay \<Rightarrow> bool" where
  "Serving r \<longleftrightarrow> r_serving r > 0"

definition serveTurn ::
  "(Addr option \<times> Raw) result \<Rightarrow> int \<Rightarrow> int \<Rightarrow> Relay \<Rightarrow> unit result option \<times> int \<times> Relay" where
  "serveTurn got now delay r =
     (case got of
        Inl e \<Rightarrow>
          if isClosed r then (Some (Inr ()), delay, serveReturn r)
          else if \<not> temporary e then (Some (Inl e), delay, serveReturn r)
          else (None, acceptBackoff delay, count (\<lambda>s. s\<lparr>AcceptRetries := AcceptRetries s + 1\<rparr>) r)
      | Inr (addr, raw) \<Rightarrow>
          (let conn = nextLink r;
               r = setLink conn (noConn, raw) r\<lparr>nextLink := conn + 1\<rparr>
           in case admit conn (sourceOf addr) now r of
                (Inr _, r) \<Rightarrow> (None, 0, r)
              | (Inl e, r) \<Rightarrow>
                  if errors_Is e errRelayClosed then (Some (Inr ()), 0, serveReturn (conn_close conn r))
                  else (None, 0, conn_close conn r)))"

text \<open>The wait after a temporary error: it ends with the timer or with the relay.\<close>

definition serveWait :: "Relay \<Rightarrow> unit result option \<times> Relay" where
  "serveWait r = (if isClosed r then (Some (Inr ()), serveReturn r) else (None, r))"

text \<open>\<^verbatim>\<open>Close\<close> up to its wait for the handlers.\<close>

definition Relay_Close :: "Relay \<Rightarrow> Relay" where
  "Relay_Close r =
     (if isClosed r then r
      else r\<lparr>isClosed := True,
             r_links := (\<lambda>l. case r_links r l of (c, raw) \<Rightarrow> if l \<in> conns r then (c, raw_Close raw) else (c, raw))\<rparr>)"

end
