(* ===== verification/RelayInv.thy ===== *)
theory RelayInv
  imports Relay
begin

text \<open>
  The tables of a relay: every owner has its circuit and every circuit its owner, no circuit is
  registered twice, and the layer key of an object is alive exactly while the object is registered,
  in every state any interleaving of handlers, backward loops, pacers, timers and \<^verbatim>\<open>Close\<close> reaches.
\<close>

section \<open>What the small operations leave alone\<close>

lemma count_sel [simp]:
  "objs (count f r) = objs r" "circuits (count f r) = circuits r" "owners (count f r) = owners r" "nextObj (count f r) = nextObj r"
  "r_links (count f r) = r_links r" "lim (count f r) = lim r" "r_cfg (count f r) = r_cfg r" "isClosed (count f r) = isClosed r"
  "stats (count f r) = f (stats r)" "conns (count f r) = conns r" "r_onion (count f r) = r_onion r"
  "r_provider (count f r) = r_provider r"
  by (simp_all add: count_def)

lemma setObj_sel [simp]:
  "objs (setObj i c r) = (objs r)(i := c)" "circuits (setObj i c r) = circuits r" "owners (setObj i c r) = owners r"
  "nextObj (setObj i c r) = nextObj r" "r_links (setObj i c r) = r_links r" "lim (setObj i c r) = lim r"
  "r_cfg (setObj i c r) = r_cfg r" "isClosed (setObj i c r) = isClosed r" "stats (setObj i c r) = stats r"
  "conns (setObj i c r) = conns r" "r_onion (setObj i c r) = r_onion r" "r_provider (setObj i c r) = r_provider r"
  by (simp_all add: setObj_def)

lemma setLink_sel [simp]:
  "objs (setLink l x r) = objs r" "circuits (setLink l x r) = circuits r" "owners (setLink l x r) = owners r"
  "nextObj (setLink l x r) = nextObj r" "r_links (setLink l x r) = (r_links r)(l := x)" "lim (setLink l x r) = lim r"
  "r_cfg (setLink l x r) = r_cfg r" "isClosed (setLink l x r) = isClosed r" "stats (setLink l x r) = stats r"
  "conns (setLink l x r) = conns r" "r_onion (setLink l x r) = r_onion r" "r_provider (setLink l x r) = r_provider r"
  by (simp_all add: setLink_def)

lemma drop_conn_sel [simp]:
  "objs (drop_conn l r) = objs r" "circuits (drop_conn l r) = circuits r" "owners (drop_conn l r) = owners r"
  "nextObj (drop_conn l r) = nextObj r" "r_links (drop_conn l r) = r_links r" "lim (drop_conn l r) = lim r"
  "r_cfg (drop_conn l r) = r_cfg r" "isClosed (drop_conn l r) = isClosed r" "stats (drop_conn l r) = stats r"
  by (simp_all add: drop_conn_def)

lemma link_close_sel [simp]:
  "objs (link_close l r) = objs r" "circuits (link_close l r) = circuits r" "owners (link_close l r) = owners r"
  "nextObj (link_close l r) = nextObj r" "lim (link_close l r) = lim r" "r_cfg (link_close l r) = r_cfg r"
  "isClosed (link_close l r) = isClosed r" "stats (link_close l r) = stats r" "conns (link_close l r) = conns r"
  by (simp_all add: link_close_def split: prod.split)

lemma conn_close_sel [simp]:
  "objs (conn_close l r) = objs r" "circuits (conn_close l r) = circuits r" "owners (conn_close l r) = owners r"
  "nextObj (conn_close l r) = nextObj r" "lim (conn_close l r) = lim r" "r_cfg (conn_close l r) = r_cfg r"
  "isClosed (conn_close l r) = isClosed r" "stats (conn_close l r) = stats r" "conns (conn_close l r) = conns r"
  by (simp_all add: conn_close_def split: prod.split)

text \<open>
  \<open>core\<close> is what the tables say of an object; \<open>same_tables r r'\<close> that an operation changed neither
  a table nor the core of an object.
\<close>

definition core :: "circuit \<Rightarrow> nat \<times> u64 \<times> Hop \<times> bool \<times> u64" where
  "core c = (ci_in c, ci_inbound c, ci_hop c, ci_isExit c, ci_nextID c)"

definition same_tables :: "Relay \<Rightarrow> Relay \<Rightarrow> bool" where
  "same_tables r r' \<longleftrightarrow> circuits r' = circuits r \<and> owners r' = owners r \<and> nextObj r' = nextObj r
     \<and> (\<forall>i. core (objs r' i) = core (objs r i)) \<and> lim r' = lim r \<and> r_cfg r' = r_cfg r"

lemma core_sel [simp]:
  "core (c\<lparr>ci_fwdSeq := a\<rparr>) = core c" "core (c\<lparr>ci_bwdSeq := b\<rparr>) = core c" "core (c\<lparr>ci_next := n\<rparr>) = core c"
  "core (c\<lparr>ci_replies := k\<rparr>) = core c" "core (c\<lparr>ci_done := d\<rparr>) = core c" "core (c\<lparr>ci_fwd := p\<rparr>) = core c"
  "core (c\<lparr>ci_bwd := q\<rparr>) = core c" "core (c\<lparr>ci_active := t\<rparr>) = core c" "core (c\<lparr>ci_expiry := e\<rparr>) = core c"
  "core (c\<lparr>ci_unwatched := u\<rparr>) = core c" "core (touch now c) = core c" "core (unwatch c) = core c"
  by (simp_all add: core_def touch_def unwatch_def)

lemma same_tables_refl [simp]: "same_tables r r"
  by (simp add: same_tables_def)

lemma same_tables_trans: "same_tables r r' \<Longrightarrow> same_tables r' r'' \<Longrightarrow> same_tables r r''"
  by (simp add: same_tables_def)

lemma same_tables_ops [simp]:
  "same_tables r (count f r') = same_tables r r'" "same_tables r (setLink l x r') = same_tables r r'"
  "same_tables r (drop_conn l r') = same_tables r r'" "same_tables r (link_close l r') = same_tables r r'"
  "same_tables r (conn_close l r') = same_tables r r'" "same_tables r (broken r') = same_tables r r'"
  by (simp_all add: same_tables_def broken_def)

lemma same_tables_setObj [simp]: "core c = core (objs r' i) \<Longrightarrow> same_tables r (setObj i c r') = same_tables r r'"
  by (auto simp: same_tables_def)

lemma same_tables_link_write: "link_write cell l r' = (res, r'') \<Longrightarrow> same_tables r r'' = same_tables r r'"
  by (auto simp: link_write_def split: prod.splits)

lemma link_write_objs: "link_write cell l r = (res, r') \<Longrightarrow> objs r' = objs r \<and> lim r' = lim r \<and> r_cfg r' = r_cfg r \<and> stats r' = stats r"
  by (auto simp: link_write_def split: prod.splits)

lemma same_tables_sealedReply:
  "sealedReply c n payload r' w = (res, r'', w') \<Longrightarrow> same_tables r r'' = same_tables r r' \<and> objs r'' = objs r'"
  by (auto simp: sealedReply_def split: option.splits prod.splits sum.splits if_splits)

lemma same_tables_reply:
  assumes "reply i payload r w = (res, r', w')"
  shows "same_tables r r'"
proof -
  let ?c = "(objs r i)\<lparr>ci_replies := ci_replies (objs r i) + 1\<rparr>"
  obtain s r1 w1 where s: "sealedReply ?c (ci_replies (objs r i)) payload (setObj i ?c r) w = (s, r1, w1)"
    by (metis surj_pair)
  have r1: "same_tables r r1" "objs r1 = (objs r)(i := ?c)"
    using same_tables_sealedReply [OF s, of r] by simp_all
  show ?thesis
    using assms s r1
    by (auto simp: reply_def Let_def same_tables_link_write link_write_objs split: sum.splits option.splits prod.splits)
qed

lemma same_tables_routeExit: "routeExit i cell hdr now r w = (res, r', w') \<Longrightarrow> same_tables r r'"
proof -
  assume a: "routeExit i cell hdr now r w = (res, r', w')"
  have "same_tables r r' \<or> (\<exists>r1 b w1. same_tables r r1 \<and> reply i b r1 w1 = (res, r', w'))"
    using a by (auto simp: routeExit_def Let_def split: prod.splits sum.splits if_splits)
  then show ?thesis using same_tables_reply same_tables_trans by blast
qed

lemma same_tables_routeOn: "routeOn i cell hdr now r w = (res, r', w') \<Longrightarrow> same_tables r r'"
  by (auto simp: routeOn_def Let_def same_tables_link_write split: prod.splits sum.splits if_splits option.splits)

lemma same_tables_backwardExit [simp]: "same_tables r (backwardExit i r') = same_tables r r'"
  by (simp add: backwardExit_def)

lemma same_tables_backwardCell: "backwardCell i cell now r w = (goes, r', w') \<Longrightarrow> same_tables r r'"
  by (auto simp: backwardCell_def Let_def same_tables_link_write split: prod.splits sum.splits if_splits option.splits)

lemma same_tables_backwardTurn: "backwardTurn i now r w = Some (goes, r', w') \<Longrightarrow> same_tables r r'"
proof -
  assume a: "backwardTurn i now r w = Some (goes, r', w')"
  have "same_tables r r' \<or> (\<exists>r1 cell. same_tables r r1 \<and> backwardCell i cell now r1 w = (goes, r', w'))"
    using a by (auto simp: backwardTurn_def Let_def split: option.splits prod.splits sum.splits)
  then show ?thesis using same_tables_backwardCell same_tables_trans by blast
qed

lemma same_tables_watch [simp]: "same_tables r (watch i now r') = same_tables r r'"
  by (simp add: watch_def Let_def)

lemma same_tables_expire [simp]: "same_tables r (expire i now r') = same_tables r r'"
  by (auto simp: expire_def Let_def split: option.splits)

lemma same_tables_closePacer [simp]: "same_tables r (closePacer i fw r') = same_tables r r'"
proof -
  obtain p st where "pacer_close (if fw then ci_fwd (objs r' i) else ci_bwd (objs r' i)) (stats r') = (p, st)"
    by (meson surj_pair)
  moreover have "same_tables r (r'\<lparr>stats := st\<rparr>) = same_tables r r'" for st by (simp add: same_tables_def)
  ultimately show ?thesis by (simp add: closePacer_def Let_def)
qed

lemma same_tables_admission [simp]:
  "same_tables r (handshakeDone src r') = same_tables r r'" "same_tables r (leave conn src now r') = same_tables r r'"
  "same_tables r (settle src now r') = same_tables r r'" "same_tables r (forget src now r') = same_tables r r'"
  by (simp_all add: same_tables_def handshakeDone_def leave_def settle_def forget_def Let_def split: option.splits prod.splits)

lemma same_tables_allowSetup: "allowSetup src now r' = (ok, r'') \<Longrightarrow> same_tables r r'' = same_tables r r'"
  by (auto simp: allowSetup_def same_tables_def split: option.splits prod.splits if_splits)

lemma same_tables_source_for: "source_for src now r' = (s, r'') \<Longrightarrow> same_tables r r'' = same_tables r r'"
  by (auto simp: source_for_def same_tables_def Let_def split: option.splits if_splits)

lemma same_tables_fields [simp]:
  "same_tables r (r'\<lparr>sources := x\<rparr>) = same_tables r r'" "same_tables r (r'\<lparr>stats := y\<rparr>) = same_tables r r'"
  "same_tables r (r'\<lparr>inbound := n\<rparr>) = same_tables r r'" "same_tables r (r'\<lparr>handshaking := m\<rparr>) = same_tables r r'"
  "same_tables r (r'\<lparr>conns := c\<rparr>) = same_tables r r'" "same_tables r (r'\<lparr>timers := t\<rparr>) = same_tables r r'"
  "same_tables r (r'\<lparr>nextLink := l\<rparr>) = same_tables r r'" "same_tables r (r'\<lparr>r_onion := g\<rparr>) = same_tables r r'"
  "same_tables r (r'\<lparr>r_pubSizes := z\<rparr>) = same_tables r r'" "same_tables r (r'\<lparr>isClosed := b\<rparr>) = same_tables r r'"
  "same_tables r (r'\<lparr>r_links := k\<rparr>) = same_tables r r'"
  by (simp_all add: same_tables_def)

lemma same_tables_admitShared: "admitShared conn src now s r' = (res, r'') \<Longrightarrow> same_tables r r'' = same_tables r r'"
  by (auto simp: admitShared_def Let_def split: if_splits option.splits)

lemma same_tables_admit: "admit conn src now r' = (res, r'') \<Longrightarrow> same_tables r r'' = same_tables r r'"
  by (auto simp: admit_def Let_def dest!: same_tables_source_for [of _ _ _ _ _ r] same_tables_admitShared [of _ _ _ _ _ _ _ r]
      split: if_splits option.splits prod.splits)

section \<open>Extending\<close>

lemma relay_dial_same: "relay_dial addr r' = (res, r'') \<Longrightarrow> same_tables r r'' = same_tables r r' \<and> objs r'' = objs r'"
  by (auto simp: relay_dial_def split: if_splits sum.splits)

lemma hold_same: "hold l r' = (ok, r'') \<Longrightarrow> same_tables r r'' = same_tables r r' \<and> objs r'' = objs r'"
  by (auto simp: hold_def split: if_splits)

lemma extendFail_same [simp]: "same_tables r (extendFail l e r') = same_tables r r'"
  by (simp add: extendFail_def)

lemma extendOver_same:
  "extendOver i l layer index peerLink r w = (res, r', w') \<Longrightarrow> same_tables r r'"
  by (auto simp: extendOver_def Let_def same_tables_link_write dest: link_write_objs split: prod.splits sum.splits if_splits)

lemma extend_same: "extend i layer index r w = (res, r', w') \<Longrightarrow> same_tables r r'"
proof -
  assume a: "extend i layer index r w = (res, r', w')"
  have "same_tables r r' \<or> (\<exists>r1 l peer. same_tables r r1 \<and> extendOver i l layer index peer r1 w = (res, r', w'))"
    using a by (auto simp: extend_def Let_def dest!: relay_dial_same [of _ _ _ _ r] hold_same [of _ _ _ _ r]
        split: prod.splits sum.splits if_splits option.splits bool.splits)
  then show ?thesis using extendOver_same same_tables_trans by blast
qed

section \<open>The invariant\<close>

definition tables_ok :: "Relay \<Rightarrow> bool" where
  "tables_ok r \<longleftrightarrow>
     (\<forall>l cid. owners r l = Some cid \<longrightarrow> (\<exists>i. circuits r cid = Some i \<and> ci_in (objs r i) = l))
     \<and> (\<forall>cid i. circuits r cid = Some i \<longrightarrow>
          i < nextObj r \<and> ci_inbound (objs r i) = cid \<and> owners r (ci_in (objs r i)) = Some cid)
     \<and> (\<forall>i. (h_aead (ci_hop (objs r i)) \<noteq> None) = (i \<in> ran (circuits r)))"

lemma tables_ok_same:
  assumes "same_tables r r'"
  shows "tables_ok r' = tables_ok r"
proof -
  have "ci_in (objs r' i) = ci_in (objs r i)" "ci_inbound (objs r' i) = ci_inbound (objs r i)" "ci_hop (objs r' i) = ci_hop (objs r i)" for i
    using assms by (simp_all add: same_tables_def core_def)
  then show ?thesis using assms by (simp add: tables_ok_def same_tables_def)
qed

lemma tables_owner: "tables_ok r \<Longrightarrow> owners r l = Some cid \<Longrightarrow> \<exists>i. circuits r cid = Some i \<and> ci_in (objs r i) = l"
  by (simp add: tables_ok_def)

lemma tables_circuit: "tables_ok r \<Longrightarrow> circuits r cid = Some i \<Longrightarrow>
    i < nextObj r \<and> ci_inbound (objs r i) = cid \<and> owners r (ci_in (objs r i)) = Some cid"
  by (simp add: tables_ok_def)

lemma tables_key: "tables_ok r \<Longrightarrow> (h_aead (ci_hop (objs r i)) \<noteq> None) = (i \<in> ran (circuits r))"
  unfolding tables_ok_def by blast

text \<open>A circuit put into the tables, and one taken out.\<close>

definition registered :: "u64 \<Rightarrow> nat \<Rightarrow> circuit \<Rightarrow> Relay \<Rightarrow> Relay" where
  "registered cid from c r =
     (let r = setObj (nextObj r) c r\<lparr>nextObj := nextObj r + 1\<rparr>
      in r\<lparr>circuits := (circuits r)(cid \<mapsto> nextObj r - 1), owners := (owners r)(from \<mapsto> cid)\<rparr>)"

lemma tables_ok_registered:
  assumes "tables_ok r" "circuits r cid = None" "owners r from = None" "ci_in c = from" "ci_inbound c = cid" "h_aead (ci_hop c) \<noteq> None"
  shows "tables_ok (registered cid from c r)"
proof -
  let ?i = "nextObj r"
  have fresh: "j < ?i" if "circuits r x = Some j" for x j using tables_circuit [OF assms(1) that] by simp
  have own: "x \<noteq> cid" if "owners r l = Some x" for l x using tables_owner [OF assms(1) that] assms(2) by auto
  have ran: "ran ((circuits r)(cid \<mapsto> ?i)) = insert ?i (ran (circuits r))" "?i \<notin> ran (circuits r)"
    using assms(2) fresh by (simp, fastforce simp: ran_def)
  let ?r = "registered cid from c r"
  have sel: "circuits ?r = (circuits r)(cid \<mapsto> ?i)" "owners ?r = (owners r)(from \<mapsto> cid)" "nextObj ?r = ?i + 1"
    "objs ?r = (objs r)(?i := c)"
    by (simp_all add: registered_def Let_def)
  have "\<exists>i. circuits ?r x = Some i \<and> ci_in (objs ?r i) = l" if "owners ?r l = Some x" for l x
  proof (cases "l = from")
    case True
    then show ?thesis using that assms(4) sel by auto
  next
    case False
    then have o: "owners r l = Some x" using that by (simp add: sel)
    then show ?thesis using tables_owner [OF assms(1) o] own [OF o] fresh [of x] by (fastforce simp: sel)
  qed
  moreover have "j < nextObj ?r \<and> ci_inbound (objs ?r j) = x \<and> owners ?r (ci_in (objs ?r j)) = Some x"
    if "circuits ?r x = Some j" for x j
  proof (cases "x = cid")
    case True
    then show ?thesis using that assms(4,5) sel by auto
  next
    case False
    then have o: "circuits r x = Some j" using that by (simp add: sel)
    then show ?thesis using tables_circuit [OF assms(1) o] fresh [OF o] assms(3) by (auto simp: sel)
  qed
  moreover have "(h_aead (ci_hop (objs ?r j)) \<noteq> None) = (j \<in> ran (circuits ?r))" for j
    using tables_key [OF assms(1), of j] ran assms(6) by (simp add: sel)
  ultimately show ?thesis unfolding tables_ok_def by blast
qed

definition unregistered :: "u64 \<Rightarrow> nat \<Rightarrow> nat \<Rightarrow> Relay \<Rightarrow> Relay" where
  "unregistered cid from i r = hop_close i (r\<lparr>circuits := (circuits r)(cid := None), owners := (owners r)(from := None)\<rparr>)"

lemma tables_ok_unregistered:
  assumes "tables_ok r" "circuits r cid = Some i" "owners r from = Some cid"
  shows "tables_ok (unregistered cid from i r)"
proof -
  have here: "ci_in (objs r i) = from" using tables_owner [OF assms(1,3)] assms(2) by simp
  have one: "x = cid" if "circuits r x = Some i" for x
    using tables_circuit [OF assms(1) that] tables_circuit [OF assms(1,2)] by simp
  have sole: "l = from" if "owners r l = Some cid" for l using tables_owner [OF assms(1) that] assms(2) here by auto
  let ?r = "unregistered cid from i r"
  have sel: "circuits ?r = (circuits r)(cid := None)" "owners ?r = (owners r)(from := None)" "nextObj ?r = nextObj r"
    "objs ?r = (objs r)(i := (objs r i)\<lparr>ci_hop := Hop_Close (ci_hop (objs r i))\<rparr>)"
    by (simp_all add: unregistered_def hop_close_def)
  have "\<exists>j. circuits ?r x = Some j \<and> ci_in (objs ?r j) = l" if "owners ?r l = Some x" for l x
  proof -
    have o: "owners r l = Some x" "l \<noteq> from" using that by (auto simp: sel split: if_splits)
    then have "x \<noteq> cid" using sole by auto
    then show ?thesis using tables_owner [OF assms(1) o(1)] by (auto simp: sel)
  qed
  moreover have "j < nextObj ?r \<and> ci_inbound (objs ?r j) = x \<and> owners ?r (ci_in (objs ?r j)) = Some x"
    if "circuits ?r x = Some j" for x j
  proof -
    have o: "circuits r x = Some j" "x \<noteq> cid" using that by (auto simp: sel split: if_splits)
    then have "ci_in (objs r j) \<noteq> from" using tables_circuit [OF assms(1) o(1)] assms(3) by auto
    then show ?thesis using tables_circuit [OF assms(1) o(1)] by (auto simp: sel)
  qed
  moreover have "(h_aead (ci_hop (objs ?r j)) \<noteq> None) = (j \<in> ran (circuits ?r))" for j
  proof -
    have "j \<in> ran (circuits ?r) \<longleftrightarrow> (\<exists>x. x \<noteq> cid \<and> circuits r x = Some j)" by (auto simp: sel ran_def)
    moreover have "(\<exists>x. x \<noteq> cid \<and> circuits r x = Some j) \<longleftrightarrow> (\<exists>x. circuits r x = Some j) \<and> j \<noteq> i"
      by (metis one assms(2) option.inject)
    moreover have "j \<in> ran (circuits r) \<longleftrightarrow> (\<exists>x. circuits r x = Some j)" by (simp add: ran_def)
    moreover have "h_aead (ci_hop (objs ?r j)) = (if j = i then None else h_aead (ci_hop (objs r j)))" by (simp add: sel Hop_Close_def)
    ultimately show ?thesis using tables_key [OF assms(1), of j] by simp
  qed
  ultimately show ?thesis unfolding tables_ok_def by blast
qed

section \<open>Setups and teardown\<close>

lemma NewHop_live: "NewHop p key off i = Inr h \<Longrightarrow> h_aead h \<noteq> None"
  by (auto simp: NewHop_def split: if_splits sum.splits)

lemma register_cases:
  assumes "register c layer hdr from now r w = (res, r', w')"
  shows "r' = r \<and> isl res
    \<or> circuits r (hCircuit hdr) = None \<and> owners r from = None \<and> \<not> isClosed r
      \<and> (\<exists>r1. same_tables (registered (hCircuit hdr) from c r) r1
          \<and> (res = Inr () \<and> r' = r1 \<or> isl res \<and> r' = unregistered (hCircuit hdr) from (nextObj r) r1))"
proof (cases "isClosed r \<or> circuits r (hCircuit hdr) \<noteq> None \<or> owns from r")
  case True
  then show ?thesis using assms by (auto simp: register_def split: if_splits)
next
  case False
  let ?r = "registered (hCircuit hdr) from c r"
  have reg: "?r = (let r = setObj (nextObj r) c r\<lparr>nextObj := nextObj r + 1\<rparr>
      in r\<lparr>circuits := (circuits r)(hCircuit hdr \<mapsto> nextObj r - 1), owners := (owners r)(from \<mapsto> hCircuit hdr)\<rparr>)"
    by (simp add: registered_def)
  have eq: "register c layer hdr from now r w =
      (if ci_isExit c then
         (Inr (), watch (nextObj r) now (setObj (nextObj r) ((objs ?r (nextObj r))\<lparr>ci_bwd := relay_newPacer from ?r\<rparr>) ?r), w)
       else case extend (nextObj r) layer (nat (ci_hopIndex c)) ?r w of
          (Inr _, r1, w) \<Rightarrow> (Inr (), watch (nextObj r) now r1, w)
        | (Inl e, r1, w) \<Rightarrow> (Inl (setupFailed from e (unregistered (hCircuit hdr) from (nextObj r) r1)),
            unregistered (hCircuit hdr) from (nextObj r) r1, w))"
    using False by (auto simp: register_def registered_def unregistered_def Let_def split: prod.splits sum.splits)
  show ?thesis
  proof (cases "ci_isExit c")
    case True
    then show ?thesis using assms False unfolding eq by (auto simp: owns_def)
  next
    case notExit: False
    obtain e r1 w1 where e: "extend (nextObj r) layer (nat (ci_hopIndex c)) ?r w = (e, r1, w1)" by (metis surj_pair)
    show ?thesis
      using assms False notExit e extend_same [OF e] unfolding eq by (auto simp: owns_def split: sum.splits)
  qed
qed

lemma tables_ok_register:
  assumes "tables_ok r" "ci_in c = from" "ci_inbound c = hCircuit hdr" "h_aead (ci_hop c) \<noteq> None"
    "register c layer hdr from now r w = (res, r', w')"
  shows "tables_ok r'"
  using register_cases [OF assms(5)]
proof (elim disjE conjE exE)
  assume "r' = r"
  then show ?thesis using assms(1) by simp
next
  fix r1
  assume free: "circuits r (hCircuit hdr) = None" "owners r from = None" and same: "same_tables (registered (hCircuit hdr) from c r) r1"
    and "r' = r1"
  then show ?thesis using tables_ok_registered [OF assms(1) free assms(2-4)] tables_ok_same by blast
next
  fix r1
  assume free: "circuits r (hCircuit hdr) = None" "owners r from = None" and same: "same_tables (registered (hCircuit hdr) from c r) r1"
    and r': "r' = unregistered (hCircuit hdr) from (nextObj r) r1"
  have "tables_ok r1" using tables_ok_registered [OF assms(1) free assms(2-4)] tables_ok_same [OF same] by blast
  moreover have "circuits r1 (hCircuit hdr) = Some (nextObj r)" "owners r1 from = Some (hCircuit hdr)"
    using same by (simp_all add: same_tables_def registered_def Let_def)
  ultimately show ?thesis unfolding r' by (rule tables_ok_unregistered)
qed

lemma setup_cases:
  assumes "setup_circuit cell hdr from src now r w = (res, r', w')"
  obtains (refused) "isl res" "same_tables r r'"
  | (reached) c layer r1 w1 where "same_tables r r1" "ci_in c = from" "ci_inbound c = hCircuit hdr" "h_aead (ci_hop c) \<noteq> None"
      "register c layer hdr from now r1 w1 = (res, r', w')"
proof -
  obtain ok r1 where ok: "allowSetup src now r = (ok, r1)" by (meson surj_pair)
  obtain res1 g w1 where g: "Open (r_provider r1) cell (r_onion r1) w = (res1, g, w1)" by (metis surj_pair)
  have r1: "same_tables r (r1\<lparr>r_onion := g\<rparr>)" "same_tables r r1"
    using same_tables_allowSetup [OF ok, of r] by simp_all
  show ?thesis
  proof (cases "owns from r \<or> \<not> ok")
    case True
    then show ?thesis
      using assms ok r1(2) refused by (auto simp: setup_circuit_def Let_def split: if_splits)
  next
    case False
    note eq = assms [unfolded setup_circuit_def Let_def] False ok g
    show ?thesis
    proof (cases res1)
      case (Inl e)
      then show ?thesis using eq r1(1) refused by auto
    next
      case (Inr layer)
      show ?thesis
      proof (cases "NewHop (r_provider r1) (sl_CellKey layer) (sl_Offsets layer) (sint (hCounter hdr))")
        case bad: (Inl e)
        then show ?thesis using eq Inr r1(1) refused by auto
      next
        case good: (Inr hop)
        let ?c0 = "newCircuitObj hop (sl_NextCircuit layer) (sl_NextAddr layer = []) (hCircuit hdr) from (sint (hCounter hdr)) now"
        let ?c = "if ci_isExit ?c0 then ?c0\<lparr>ci_fwdSeq := Expect (sl_First layer) (ci_fwdSeq ?c0)\<rparr> else ?c0"
        have "register ?c layer hdr from now (r1\<lparr>r_onion := g\<rparr>) (release w1) = (res, r', w')"
          "ci_in ?c = from" "ci_inbound ?c = hCircuit hdr" "ci_hop ?c = hop"
          using eq Inr good by simp_all (simp_all add: newCircuitObj_def)
        then show ?thesis using reached [OF r1(1)] NewHop_live [OF good] by metis
      qed
    qed
  qed
qed

lemma tables_ok_setup:
  assumes "tables_ok r" "setup_circuit cell hdr from src now r w = (res, r', w')"
  shows "tables_ok r'"
  using assms(2)
proof (cases rule: setup_cases)
  case refused
  then show ?thesis using assms(1) tables_ok_same by blast
next
  case (reached c layer r1 w1)
  then show ?thesis using tables_ok_register assms(1) tables_ok_same by metis
qed

lemma tables_ok_route:
  assumes "tables_ok r" "route cell from src now r w = (res, r', w')"
  shows "tables_ok r'"
proof (cases "Cell_Header cell")
  case (Inl e)
  then show ?thesis using assms by (simp add: route_def)
next
  case (Inr hdr)
  let ?r = "count (\<lambda>s. s\<lparr>Accepted := Accepted s + 1\<rparr>) r"
  have ok: "tables_ok ?r" using assms(1) tables_ok_same [of r ?r] by simp
  have "setup_circuit cell hdr from src now ?r w = (res, r', w') \<or> r' = ?r \<or> same_tables ?r r'"
    using assms(2) Inr same_tables_routeExit same_tables_routeOn
    by (auto simp: route_def Let_def split: if_splits option.splits)
  then show ?thesis using tables_ok_setup [OF ok] tables_ok_same ok by blast
qed

lemma tables_swap: "r\<lparr>owners := x, circuits := y\<rparr> = r\<lparr>circuits := y, owners := x\<rparr>" for r :: Relay
  by simp

lemma release_same:
  "\<exists>r1. same_tables r r1 \<and> release_circuit i r = hop_close i r1"
proof -
  let ?r = "setObj i (unwatch (objs r i)) r"
  define r1 where "r1 = (case ci_next (objs ?r i) of
                 None \<Rightarrow> ?r
               | Some l \<Rightarrow>
                   (let r = closePacer i True (link_close l ?r);
                        r = (if ci_done (objs r i) then r else backwardExit i r)
                    in drop_conn l r))"
  have "same_tables r r1" by (simp add: r1_def Let_def split: option.split)
  moreover have "release_circuit i r = hop_close i (closePacer i False r1)"
    by (simp add: release_circuit_def r1_def Let_def)
  ultimately show ?thesis by (metis same_tables_closePacer)
qed

lemma same_tables_unregistered:
  assumes "same_tables (r\<lparr>circuits := (circuits r)(cid := None), owners := (owners r)(from := None)\<rparr>) r1"
  shows "\<exists>r2. same_tables r r2 \<and> hop_close i r1 = unregistered cid from i r2"
proof -
  let ?r2 = "r1\<lparr>circuits := circuits r, owners := owners r\<rparr>"
  have "same_tables r ?r2" using assms by (simp add: same_tables_def)
  moreover have "r1 = ?r2\<lparr>circuits := (circuits ?r2)(cid := None), owners := (owners ?r2)(from := None)\<rparr>"
    using assms by (simp add: same_tables_def)
  ultimately show ?thesis unfolding unregistered_def by metis
qed

lemma teardown_cases:
  assumes "tables_ok r" "owners r from = Some cid"
  obtains i r2 where "circuits r cid = Some i" "ci_in (objs r i) = from" "same_tables r r2" "teardown from r = unregistered cid from i r2"
proof -
  obtain i where i: "circuits r cid = Some i" "ci_in (objs r i) = from" using tables_owner [OF assms] by blast
  let ?r = "r\<lparr>circuits := (circuits r)(cid := None), owners := (owners r)(from := None)\<rparr>"
  have eq: "teardown from r = release_circuit i ?r"
    using assms(2) i by (simp add: teardown_def Let_def tables_swap)
  obtain r1 where r1: "same_tables ?r r1" "release_circuit i ?r = hop_close i r1" using release_same by blast
  obtain r2 where "same_tables r r2" "hop_close i r1 = unregistered cid from i r2"
    using same_tables_unregistered [OF r1(1)] by blast
  then show ?thesis using that [OF i] eq r1(2) by simp
qed

lemma tables_ok_teardown: "tables_ok r \<Longrightarrow> tables_ok (teardown from r)"
proof (cases "owners r from")
  case None
  then show "tables_ok r \<Longrightarrow> ?thesis" by (simp add: teardown_def)
next
  case (Some cid)
  assume ok: "tables_ok r"
  obtain i r2 where t: "circuits r cid = Some i" "same_tables r r2" "teardown from r = unregistered cid from i r2"
    using teardown_cases [OF ok Some] by metis
  have "tables_ok r2" "circuits r2 cid = Some i" "owners r2 from = Some cid"
    using t(1,2) Some ok tables_ok_same [OF t(2)] by (simp_all add: same_tables_def)
  then show ?thesis unfolding t(3) by (rule tables_ok_unregistered)
qed

section \<open>Every interleaving\<close>

text \<open>
  A state is the clock, the relay and the world. The network may change a connection at any moment;
  the operator may rotate or retire the onion keys.
\<close>

inductive relay_step :: "int \<times> Relay \<times> world \<Rightarrow> int \<times> Relay \<times> world \<Rightarrow> bool" where
  tick: "now \<le> now' \<Longrightarrow> relay_step (now, r, w) (now', r, w)"
| network: "relay_step (now, r, w) (now, setLink l (fst (r_links r l), raw) r, w')"
| served: "serveTurn got now delay r = (ret, delay', r') \<Longrightarrow> relay_step (now, r, w) (now, r', w)"
| serving: "relay_step (now, r, w) (now, serveStart r, w)"
| waited: "serveWait r = (ret, r') \<Longrightarrow> relay_step (now, r, w) (now, r', w)"
| started: "handleStart conn src now r w = (goes, r', w') \<Longrightarrow> relay_step (now, r, w) (now, r', w')"
| turned: "handleTurn conn src now r w = Some (goes, r', w') \<Longrightarrow> relay_step (now, r, w) (now, r', w')"
| replied: "backwardTurn i now r w = Some (goes, r', w') \<Longrightarrow> relay_step (now, r, w) (now, r', w')"
| paced: "relay_step (now, r, w) (now, pacerStep i forward r, w)"
| aged: "relay_step (now, r, w) (now, expire i now r, w)"
| forgot: "relay_step (now, r, w) (now, forget src now r, w)"
| rekeyed: "relay_step (now, r, w) (now, r\<lparr>r_onion := g\<rparr>, w')"
| closed: "relay_step (now, r, w) (now, Relay_Close r, w)"

inductive_cases relay_stepE: "relay_step st st'"

lemma same_tables_pacerStep [simp]: "same_tables r (pacerStep i fw r') = same_tables r r'"
  by (auto simp: pacerStep_def Let_def split: option.splits prod.splits)

lemma same_tables_serving [simp]: "same_tables r (serveStart r') = same_tables r r'" "same_tables r (serveReturn r') = same_tables r r'"
  by (simp_all add: same_tables_def serveStart_def serveReturn_def)

lemma same_tables_served: "serveTurn got now delay r = (ret, delay', r') \<Longrightarrow> same_tables r r'"
  by (auto simp: serveTurn_def Let_def dest!: same_tables_admit [of _ _ _ _ _ _ r] split: sum.splits if_splits prod.splits)

lemma same_tables_started: "handleStart conn src now r w = (goes, r', w') \<Longrightarrow> same_tables r r'"
  by (auto simp: handleStart_def handleExit_def Let_def split: sum.splits prod.splits)

lemma tables_ok_ops:
  "tables_ok r \<Longrightarrow> tables_ok (handleEnd conn src now r)" "tables_ok r \<Longrightarrow> tables_ok (count f r)" "tables_ok r \<Longrightarrow> tables_ok (broken r)"
  "tables_ok r \<Longrightarrow> tables_ok (setLink l x r)"
proof -
  show "tables_ok r \<Longrightarrow> tables_ok (count f r)" "tables_ok r \<Longrightarrow> tables_ok (broken r)" "tables_ok r \<Longrightarrow> tables_ok (setLink l x r)"
    using tables_ok_same [of r "count f r"] tables_ok_same [of r "broken r"] tables_ok_same [of r "setLink l x r"] by simp_all
  assume "tables_ok r"
  then have "tables_ok (teardown conn (link_close conn r))"
    using tables_ok_teardown tables_ok_same [of r "link_close conn r"] by simp
  then show "tables_ok (handleEnd conn src now r)"
    using tables_ok_same [of "teardown conn (link_close conn r)" "handleEnd conn src now r"]
    by (simp add: handleEnd_def handleExit_def)
qed

lemma tables_ok_handleRouted: "handleRouted conn src now res r = (goes, r') \<Longrightarrow> tables_ok r \<Longrightarrow> tables_ok r'"
  by (auto simp: handleRouted_def Let_def tables_ok_ops split: sum.splits if_splits)

lemma tables_ok_handleTurn:
  assumes "tables_ok r" "handleTurn conn src now r w = Some (goes, r', w')"
  shows "tables_ok r'"
proof -
  obtain c raw where l: "r_links r conn = (c, raw)" by (meson surj_pair)
  obtain res cell cr where rd: "ReadCell (replicate CellSize 0) c raw = Some (res, cell, cr)"
    using assms(2) l by (auto simp: handleTurn_def split: option.splits)
  have ok: "tables_ok (setLink conn cr r)" using assms(1) by (rule tables_ok_ops)
  show ?thesis
  proof (cases res)
    case (Inl e)
    then show ?thesis using assms(2) l rd ok by (auto simp: handleTurn_def Let_def tables_ok_ops)
  next
    case (Inr u)
    obtain res1 r1 w1 where rt: "route cell conn src now (setLink conn cr r) w = (res1, r1, w1)" by (metis surj_pair)
    have "handleRouted conn src now res1 r1 = (goes, r')"
      using assms(2) l rd Inr rt by (auto simp: handleTurn_def Let_def split: prod.splits)
    then show ?thesis using tables_ok_handleRouted tables_ok_route [OF ok rt] by blast
  qed
qed

lemma tables_ok_keep: "same_tables r r' \<Longrightarrow> tables_ok r \<Longrightarrow> tables_ok r'"
  by (simp add: tables_ok_same)

lemma tables_ok_step: "relay_step st st' \<Longrightarrow> tables_ok (fst (snd st)) \<Longrightarrow> tables_ok (fst (snd st'))"
proof (induction rule: relay_step.induct)
  case (served got now delay r ret delay' r' w)
  then show ?case using tables_ok_keep [OF same_tables_served] by simp
next
  case (waited r ret r' now w)
  then have "same_tables r r'" by (auto simp: serveWait_def split: if_splits)
  then show ?case using waited(2) tables_ok_keep by simp
next
  case (started conn src now r w goes r' w')
  then show ?case using tables_ok_keep [OF same_tables_started] by simp
next
  case (turned conn src now r w goes r' w')
  then show ?case using tables_ok_handleTurn [OF _ turned(1)] by simp
next
  case (replied i now r w goes r' w')
  then show ?case using tables_ok_keep [OF same_tables_backwardTurn] by simp
next
  case (closed now r w)
  have "same_tables r (Relay_Close r)" by (simp add: Relay_Close_def)
  then show ?case using closed tables_ok_keep by simp
qed (simp_all, (erule tables_ok_keep [rotated], simp)+)

lemma New_tables: "New cfg p priv pub ring dial w = (Inr r, w') \<Longrightarrow> tables_ok r"
  by (auto simp: New_def tables_ok_def newCircuitObj_def noHop_def split: option.splits prod.splits sum.splits if_splits)

lemma tables_ok_reachable: "relay_step\<^sup>*\<^sup>* st st' \<Longrightarrow> tables_ok (fst (snd st)) \<Longrightarrow> tables_ok (fst (snd st'))"
  by (induction rule: rtranclp_induct) (blast intro: tables_ok_step)+


section \<open>What a teardown and a refusal leave behind\<close>

lemma closePacer_links [simp]: "r_links (closePacer i fw r) = r_links r"
  by (simp add: closePacer_def Let_def split: prod.split)

lemma link_close_closed [simp]: "cn_send (fst (r_links (link_close l r) l)) = None \<and> inbox (snd (r_links (link_close l r) l)) = []"
  by (simp add: link_close_def Conn_Close_def discard_def raw_Close_def split: prod.split)

lemma link_close_keeps_closed:
  "cn_send (fst (r_links r k)) = None \<Longrightarrow> cn_send (fst (r_links (link_close l r) k)) = None"
  by (auto simp: link_close_def Conn_Close_def discard_def split: prod.splits)

lemma closePacer_objs:
  "objs (closePacer i fw r) = (objs r)(i := (if fw then (objs r i)\<lparr>ci_fwd := fst (pacer_close (ci_fwd (objs r i)) (stats r))\<rparr>
      else (objs r i)\<lparr>ci_bwd := fst (pacer_close (ci_bwd (objs r i)) (stats r))\<rparr>))"
  by (simp add: closePacer_def Let_def split: prod.split)

definition pacer_gone :: "pacer option \<Rightarrow> bool" where
  "pacer_gone po = (case po of None \<Rightarrow> True | Some p \<Rightarrow> pc_done p \<and> ch_buf (pc_queue p) = [])"

lemma pacer_gone_close: "pacer_gone (fst (pacer_close po st))"
  by (simp add: pacer_gone_def pacer_close_def split: option.split)


text \<open>
  a data cell can do nothing to a circuit that is not of the link it came on: if its circuit is
  unknown or came in on another link, \<^verbatim>\<open>route\<close> refuses it and only counts it.
\<close>

theorem foreign_cell_refused:
  assumes "Cell_Header cell = Inr hdr" "hKind hdr \<noteq> KindControl"
    "case circuits r (hCircuit hdr) of None \<Rightarrow> True | Some i \<Rightarrow> ci_in (objs r i) \<noteq> from"
  shows "route cell from src now r w = (Inl errUnknownCircuit, count (\<lambda>s. s\<lparr>Accepted := Accepted s + 1\<rparr>) r, w)"
  using assms by (auto simp: route_def Let_def split: option.splits)


section \<open>What a cell does\<close>

text \<open>A cell of a circuit that is not paced, up to the frame written on the link onwards.\<close>

lemma route_writes:
  assumes "Cell_Header cell = Inr hdr" "hKind hdr \<noteq> KindControl" "circuits r (hCircuit hdr) = Some i"
    "ci_in (objs r i) = from" "\<not> ci_isExit (objs r i)" "Peel (ci_hop (objs r i)) cell w = (Inr out, w1)"
    "Next (hCounter hdr) (ci_fwdSeq (objs r i)) = (True, sq)" "ci_fwd (objs r i) = None" "ci_next (objs r i) = Some l"
    "r_links r l = (c, raw)" "WriteCell (SetCircuit (ci_nextID (objs r i)) out) c raw = (Inr (), c', raw')"
  shows "\<exists>r'. route cell from src now r w = (Inr (), r', w1)
    \<and> objs r' = (objs r)(i := (objs r i)\<lparr>ci_fwdSeq := sq, ci_active := now - ci_born (objs r i)\<rparr>)
    \<and> r_links r' = (r_links r)(l := (c', raw'))
    \<and> stats r' = (stats r)\<lparr>Accepted := Accepted (stats r) + 1, Forwarded := Forwarded (stats r) + 1\<rparr>
    \<and> circuits r' = circuits r \<and> owners r' = owners r"
proof -
  let ?c = "(objs r i)\<lparr>ci_fwdSeq := sq, ci_active := now - ci_born (objs r i)\<rparr>"
  let ?r = "count (\<lambda>s. s\<lparr>Forwarded := Forwarded s + 1\<rparr>) (setLink l (c', raw') (setObj i ?c (count (\<lambda>s. s\<lparr>Accepted := Accepted s + 1\<rparr>) r)))"
  have "route cell from src now r w = (Inr (), ?r, w1)"
    using assms by (simp add: route_def routeOn_def Let_def link_write_def touch_def)
  then show ?thesis by (intro exI conjI) (assumption | simp)+
qed

text \<open>
  C7: a relay that does not pace passes a cell on exactly as the onion says: a cell of a registered
  circuit whose layer opens and whose counter is due leaves on the link onwards as one frame, under
  the next identifier and with its layer stripped, the circuit expects the next counter and counts as
  active now, and nothing else of any circuit or link changes.
\<close>

theorem relay_forwards:
  assumes "Cell_Header cell = Inr hdr" "hKind hdr \<noteq> KindControl" "circuits r (hCircuit hdr) = Some i"
    "ci_in (objs r i) = from" "\<not> ci_isExit (objs r i)" "Peel (ci_hop (objs r i)) cell w = (Inr out, w1)" "wf_cell out"
    "Next (hCounter hdr) (ci_fwdSeq (objs r i)) = (True, sq)" "ci_fwd (objs r i) = None" "ci_next (objs r i) = Some l"
    "r_links r l = (c, raw)" "sends c a s" "aead_ok a" "frame_len a \<le> room raw" "deadlineOK raw"
  shows "\<exists>r' c'. route cell from src now r w = (Inr (), r', w1)
    \<and> objs r' = (objs r)(i := (objs r i)\<lparr>ci_fwdSeq := sq, ci_active := now - ci_born (objs r i)\<rparr>)
    \<and> r_links r' = (r_links r)(l := (c', raw\<lparr>outbox := outbox raw @ frames a s [SetCircuit (ci_nextID (objs r i)) out],
        room := room raw - frame_len a\<rparr>)) \<and> sends c' a (s + 1)
    \<and> stats r' = (stats r)\<lparr>Accepted := Accepted (stats r) + 1, Forwarded := Forwarded (stats r) + 1\<rparr>
    \<and> circuits r' = circuits r \<and> owners r' = owners r"
proof -
  let ?x = "SetCircuit (ci_nextID (objs r i)) out"
  have wf: "wf_cell ?x" using assms(7) by (simp add: SetCircuit_def wf_cell_def CellSize_def)
  obtain c' where "WriteCell ?x c raw = (Inr (), c', raw\<lparr>outbox := outbox raw @ frames a s [?x], room := room raw - frame_len a\<rparr>)"
    "sends c' a (s + 1)"
    using WriteCell_sends [OF assms(12,13) wf] assms(14,15) unfolding frame_len_def by blast
  then show ?thesis using route_writes [OF assms(1-6,8-11)] by blast
qed

text \<open>The queue of replies after one more cell.\<close>

definition queued_reply :: "pacer \<Rightarrow> Cell \<Rightarrow> pacer" where
  "queued_reply p x = p\<lparr>pc_queue := (pc_queue p)\<lparr>ch_buf := ch_buf (pc_queue p) @ [\<lparr>q_cell = x, q_forwarded = False\<rparr>]\<rparr>\<rparr>"

text \<open>
  the exit answers every data cell with one cell, whether it carried a message or cover, and
  whether \<^verbatim>\<open>Deliver\<close> answered or not: the reply takes the next reply number, and a cell that was cover
  or got no answer is answered with cover under that number.
\<close>

theorem exit_answers_once:
  assumes "Cell_Header cell = Inr hdr" "hKind hdr \<noteq> KindControl" "circuits r (hCircuit hdr) = Some i" "objs r i = c"
    "ci_in c = from" "ci_isExit c" "OpenLast (ci_hop c) cell w = (Inr (payload, cover), w1)"
    "Next (hCounter hdr) (ci_fwdSeq c) = (True, sq)" "ci_bwd c = Some p" "length (ch_buf (pc_queue p)) < ch_cap (pc_queue p)"
    "answer = (if cover then None else case cf_Deliver (r_cfg r) of None \<Rightarrow> None | Some f \<Rightarrow> f (ci_inbound c) payload)"
    "(case answer of None \<Rightarrow> SealCoverReply (ci_hop c) (ci_inbound c) (ci_replies c) w1
        | Some b \<Rightarrow> SealReply (ci_hop c) (ci_inbound c) (ci_replies c) b w1) = (Inr x, w2)"
  shows "\<exists>r'. route cell from src now r w = (Inr (), r', w2)
    \<and> objs r' = (objs r)(i := c\<lparr>ci_fwdSeq := sq, ci_active := now - ci_born c, ci_replies := ci_replies c + 1, ci_bwd := Some (queued_reply p x)\<rparr>)
    \<and> r_links r' = r_links r
    \<and> stats r' = (stats r)\<lparr>Accepted := Accepted (stats r) + 1, Delivered := Delivered (stats r) + 1\<rparr>"
proof -
  let ?c = "c\<lparr>ci_fwdSeq := sq, ci_active := now - ci_born c\<rparr>"
  let ?r = "count (\<lambda>s. s\<lparr>Delivered := Delivered s + 1\<rparr>) (setObj i ?c (count (\<lambda>s. s\<lparr>Accepted := Accepted s + 1\<rparr>) r))"
  have route: "route cell from src now r w = reply i answer ?r w1"
    using assms(1-8,11) by (simp add: route_def routeExit_def Let_def touch_def)
  have sealed: "sealedReply (?c\<lparr>ci_replies := ci_replies c + 1\<rparr>) (ci_replies c) answer r1 w1 = (Inr x, r1, w2)" for r1
    using assms(12) by (cases answer) (simp_all add: sealedReply_def)
  have pushed: "push x False p = (True, queued_reply p x)"
    using assms(10) by (simp add: push_def try_send_def queued_reply_def)
  show ?thesis
    unfolding route reply_def Let_def using sealed assms(9) pushed by simp
qed

lemma expiresAt_due:
  assumes "lm_idle l > 0 \<or> lm_lifetime l > 0"
  shows "\<exists>t. expiresAt l c = Some t
    \<and> ((lm_idle l > 0 \<and> now - (ci_born c + ci_active c) \<ge> lm_idle l \<or> lm_lifetime l > 0 \<and> now - ci_born c \<ge> lm_lifetime l) \<longleftrightarrow> t \<le> now)
    \<and> (lm_idle l > 0 \<longrightarrow> t \<le> ci_born c + ci_active c + lm_idle l) \<and> (lm_lifetime l > 0 \<longrightarrow> t \<le> ci_born c + lm_lifetime l)"
  using assms
  by (cases "lm_idle l > 0"; cases "lm_lifetime l > 0") (auto simp: expiresAt_def Let_def)

text \<open>
  a circuit is closed for idleness or age exactly when it is due: when the timer of a watched
  circuit fires, the link is closed and the circuit counted as expired if no cell passed for the idle
  limit or the circuit has reached its lifetime, and otherwise the timer is set for the moment one of
  the two is reached, which lies ahead.
\<close>

theorem expiry_exact:
  assumes "\<not> ci_unwatched (objs r i)" "lm_idle (lim r) > 0 \<or> lm_lifetime (lim r) > 0" "c = objs r i"
    "due \<longleftrightarrow> lm_idle (lim r) > 0 \<and> now - (ci_born c + ci_active c) \<ge> lm_idle (lim r)
         \<or> lm_lifetime (lim r) > 0 \<and> now - ci_born c \<ge> lm_lifetime (lim r)"
  shows "Expired (stats (expire i now r)) = Expired (stats r) + (if due then 1 else 0)
    \<and> (due \<longrightarrow> ci_unwatched (objs (expire i now r) i) \<and> cn_send (fst (r_links (expire i now r) (ci_in c))) = None)
    \<and> (\<not> due \<longrightarrow> r_links (expire i now r) = r_links r \<and> (\<exists>t. ci_expiry (objs (expire i now r) i) = Some t \<and> now < t
        \<and> (lm_idle (lim r) > 0 \<longrightarrow> t \<le> ci_born c + ci_active c + lm_idle (lim r))
        \<and> (lm_lifetime (lim r) > 0 \<longrightarrow> t \<le> ci_born c + lm_lifetime (lim r))))"
proof -
  have "expire i now r = (case expiresAt (lim r) c of
      Some t \<Rightarrow> if t > now then setObj i (c\<lparr>ci_expiry := Some t\<rparr>) r
        else link_close (ci_in c) (count (\<lambda>s. s\<lparr>Expired := Expired s + 1\<rparr>) (setObj i (c\<lparr>ci_unwatched := True, ci_expiry := None\<rparr>) r))
    | None \<Rightarrow> link_close (ci_in c) (count (\<lambda>s. s\<lparr>Expired := Expired s + 1\<rparr>) (setObj i (c\<lparr>ci_unwatched := True, ci_expiry := None\<rparr>) r)))"
    using assms(1) unfolding assms(3) by (simp add: expire_def Let_def)
  moreover obtain t where t: "expiresAt (lim r) c = Some t" "due \<longleftrightarrow> t \<le> now"
    "lm_idle (lim r) > 0 \<longrightarrow> t \<le> ci_born c + ci_active c + lm_idle (lim r)"
    "lm_lifetime (lim r) > 0 \<longrightarrow> t \<le> ci_born c + lm_lifetime (lim r)"
    using expiresAt_due [OF assms(2), of c now] assms(4) by blast
  ultimately show ?thesis by auto
qed

section \<open>Instances\<close>

definition sampleRelay :: Relay where
  "sampleRelay =
     \<lparr>lim = sampleLimits, conns = {}, inbound = 0, handshaking = 0, sources = Map.empty, sourceCap = maxSources, isClosed = False,
      timers = [], stats = zeroCounters, r_cfg = sampleConfig, r_provider = sampleSuite,
      r_static = (replicate 32 4, replicate 32 4), r_onion = staticRing (replicate 32 4) (replicate 32 4) 0, r_onward = onwardTimeout,
      r_serving = 0, circuits = Map.empty, objs = (\<lambda>_. newCircuitObj noHop 0 False 0 0 0 0), nextObj = 0, owners = Map.empty,
      r_links = (\<lambda>_. (noConn, noRaw)), nextLink = 0, r_pubSizes = Map.empty, r_dial = (\<lambda>_ _. Inl errDial)\<rparr>"

lemma sampleRelay_new:
  "New sampleConfig sampleSuite (Some (replicate 32 4)) (replicate 32 4) None (\<lambda>_ _. Inl errDial) sampleNode
     = (Inr sampleRelay, sampleNode\<lparr>rnd := replicate 3968 7\<rparr>)"
  using sample_keysize sample_keypair [of ErrStaticPair] sampleLimits_resolved
  by (simp add: New_def sampleRelay_def) (simp add: sampleConfig_def MaxSetupCache_def maxQueueCells_def)

lemma sampleRelay_tables: "tables_ok sampleRelay"
  using New_tables [OF sampleRelay_new] .

definition sampleExit :: circuit where
  "sampleExit =
     (newCircuitObj \<lparr>h_aead = Some sampleAEAD, h_index = 0, h_overhead = 16, h_offset = zeroOffsets\<rparr> 0 True 5 0 0 100)
       \<lparr>ci_bwd := Some (newPacer 0 1 4)\<rparr>"

definition sampleServing :: Relay where
  "sampleServing = registered 5 0 sampleExit sampleRelay"

lemma sampleServing_facts:
  "tables_ok sampleServing" "owners sampleServing 0 = Some 5" "circuits sampleServing 5 = Some 0" "objs sampleServing 0 = sampleExit"
  "owns 0 sampleServing" "r_cfg sampleServing = sampleConfig" "lim sampleServing = sampleLimits" "stats sampleServing = zeroCounters"
proof -
  show "tables_ok sampleServing" unfolding sampleServing_def
    by (rule tables_ok_registered [OF sampleRelay_tables])
      (simp_all add: sampleRelay_def sampleExit_def newCircuitObj_def)
qed (simp_all add: sampleServing_def registered_def sampleRelay_def owns_def Let_def)



definition sampleData :: Cell where
  "sampleData = [Version, KindData] @ PutUint64 5 @ PutUint64 0 @ replicate 478 0 @ replicate 16 0"

lemma sampleData_header: "Cell_Header sampleData = Inr \<lparr>hVersion = Version, hKind = KindData, hCircuit = 5, hCounter = 0\<rparr>"
  by (simp add: Cell_Header_def sampleData_def codec Kind_valid_def)

theorem foreign_cell_refused_witness:
  "fst (route sampleData 3 NoAddr 7 sampleServing sampleNode) = Inl errUnknownCircuit"
  using foreign_cell_refused [OF sampleData_header, of sampleServing 3 NoAddr 7 sampleNode] sampleServing_facts(3,4)
  by (simp add: sampleExit_def newCircuitObj_def KindData_def KindControl_def)


theorem expiry_exact_witness:
  "Expired (stats (expire 0 (100 + 5 * Minute) sampleServing)) = 1
   \<and> cn_send (fst (r_links (expire 0 (100 + 5 * Minute) sampleServing) 0)) = None"
  using expiry_exact [of sampleServing 0 sampleExit True "100 + 5 * Minute"] sampleServing_facts(4,7,8)
  by (simp add: sampleExit_def newCircuitObj_def sampleLimits_def Minute_def Second_def Millisecond_def zeroCounters_def)

lemma sample_peel:
  "Peel \<lparr>h_aead = Some sampleAEAD, h_index = 0, h_overhead = 16, h_offset = zeroOffsets\<rparr> sampleData sampleNode
     = (NewCell \<lparr>hVersion = Version, hKind = KindData, hCircuit = 5, hCounter = shift 0 0\<rparr> (replicate 478 0 @ replicate 16 7),
        sampleNode\<lparr>rnd := replicate 3984 7\<rparr>)"
proof -
  have body: "Cell_Body sampleData = replicate 478 0 @ replicate 16 0"
    by (simp add: Cell_Body_def sampleData_def headerSize_def)
  have nonce: "\<exists>n. nonceFor 24 Forward 5 0 = Inr n"
    by (simp add: nonceFor_def counterLimit_def Forward_def Backward_def Let_def)
  have slice: "slice_to (replicate 478 0 @ replicate 16 0) (layerLen 0 16) = Inr (replicate 478 0 @ replicate 16 0)"
    by (simp add: slice_to_def layerLen_def BodySize_def CellSize_def headerSize_def)
  show ?thesis
    using nonce slice
    by (auto simp: Peel_def sampleData_header body sampleAEAD_def readTail_def readFull_def BodySize_def CellSize_def headerSize_def
        sampleNode_def zeroOffsets_def)
qed

definition sampleMiddle :: Relay where
  "sampleMiddle = setLink 2 (sampleConn, sampleRaw)
     (registered 5 0 (sampleExit\<lparr>ci_isExit := False, ci_next := Some 2, ci_nextID := 6\<rparr>) sampleRelay)"

theorem relay_forwards_witness:
  "\<exists>out r' w1 c'. wf_cell out \<and> route sampleData 0 NoAddr 7 sampleMiddle sampleNode = (Inr (), r', w1)
     \<and> r_links r' 2 = (c', sampleRaw\<lparr>outbox := frames sampleAEAD 5 [SetCircuit 6 out], room := 1472\<rparr>)"
proof -
  let ?c = "sampleExit\<lparr>ci_isExit := False, ci_next := Some 2, ci_nextID := 6\<rparr>"
  obtain out where out: "Peel (ci_hop ?c) sampleData sampleNode = (Inr out, sampleNode\<lparr>rnd := replicate 3984 7\<rparr>)" "wf_cell out"
    using sample_peel by (auto simp: sampleExit_def newCircuitObj_def NewCell_def wf_cell_def BodySize_def CellSize_def headerSize_def
        Kind_valid_def)
  have m: "circuits sampleMiddle 5 = Some 0" "objs sampleMiddle 0 = ?c" "r_links sampleMiddle 2 = (sampleConn, sampleRaw)"
    by (simp_all add: sampleMiddle_def registered_def sampleRelay_def Let_def)
  have c: "ci_in ?c = 0" "\<not> ci_isExit ?c" "ci_fwd ?c = None" "ci_next ?c = Some 2" "ci_nextID ?c = 6"
    by (simp_all add: sampleExit_def newCircuitObj_def)
  have sq: "Next 0 (ci_fwdSeq ?c) = (True, snd (Next 0 (ci_fwdSeq ?c)))"
    by (simp add: sampleExit_def newCircuitObj_def newSequence_def Next_def counterLimit_def cellLimit_def)
  have l: "sends sampleConn sampleAEAD 5" "frame_len sampleAEAD \<le> room sampleRaw" "deadlineOK sampleRaw" "frame_len sampleAEAD = 528"
    "room sampleRaw = 2000" "outbox sampleRaw = []"
    by (simp_all add: sends_def sampleConn_def sampleRaw_def frame_len_def CellSize_def) (simp_all add: sampleAEAD_def)
  have "\<exists>r' c'. route sampleData 0 NoAddr 7 sampleMiddle sampleNode = (Inr (), r', sampleNode\<lparr>rnd := replicate 3984 7\<rparr>)
    \<and> r_links r' = (r_links sampleMiddle)(2 := (c', sampleRaw\<lparr>outbox := outbox sampleRaw @ frames sampleAEAD 5 [SetCircuit (ci_nextID ?c) out],
        room := room sampleRaw - frame_len sampleAEAD\<rparr>))"
    using relay_forwards [OF sampleData_header, of sampleMiddle 0 0 sampleNode out _ _ 2 sampleConn sampleRaw sampleAEAD 5 NoAddr 7]
      out sq l(1-3) sampleAEAD_ok m c by (simp add: KindData_def KindControl_def del: frames.simps) blast
  then show ?thesis using out(2) l(4-6) c(5) by (auto simp del: frames.simps)
qed

theorem exit_answers_once_witness:
  "\<exists>r' x w2. route sampleData 0 NoAddr 7 sampleServing sampleNode = (Inr (), r', w2)
     \<and> ci_replies (objs r' 0) = 1 \<and> ci_bwd (objs r' 0) = Some (queued_reply (newPacer 0 1 4) x)"
proof -
  obtain out where out: "Peel (ci_hop sampleExit) sampleData sampleNode = (Inr out, sampleNode\<lparr>rnd := replicate 3984 7\<rparr>)"
    "Cell_Body out = replicate 478 0 @ replicate 16 7"
    using sample_peel by (auto simp: sampleExit_def newCircuitObj_def NewCell_def Cell_Body_def BodySize_def CellSize_def headerSize_def
        Kind_valid_def copy_def)
  have "unframe (replicate 478 0 @ replicate 16 7) = Inr ([], False)"
    by (simp add: unframe_def lengthPrefix_def numeral_2_eq_2 Uint16_def nat_be_def Let_def)
  then have last: "OpenLast (ci_hop sampleExit) sampleData sampleNode = (Inr ([], False), sampleNode\<lparr>rnd := replicate 3984 7\<rparr>)"
    using out by (simp add: OpenLast_def)
  have sq: "Next 0 (ci_fwdSeq sampleExit) = (True, snd (Next 0 (ci_fwdSeq sampleExit)))"
    by (simp add: sampleExit_def newCircuitObj_def newSequence_def Next_def counterLimit_def cellLimit_def)
  have c: "ci_in sampleExit = 0" "ci_isExit sampleExit" "ci_bwd sampleExit = Some (newPacer 0 1 4)" "ci_replies sampleExit = 0"
    "ci_inbound sampleExit = 5" "length (ch_buf (pc_queue (newPacer 0 1 4))) < ch_cap (pc_queue (newPacer 0 1 4))"
    by (simp_all add: sampleExit_def newCircuitObj_def newPacer_def make_chan_def)
  have "\<exists>n. nonceFor 24 Backward 5 0 = Inr n"
    by (simp add: nonceFor_def counterLimit_def Forward_def Backward_def Let_def)
  then obtain x w2 where x: "SealCoverReply (ci_hop sampleExit) 5 0 (sampleNode\<lparr>rnd := replicate 3984 7\<rparr>) = (Inr x, w2)"
    by (auto simp: SealCoverReply_def Hop_sealReply_def Hop_seal_def frame_def sampleExit_def newCircuitObj_def sampleAEAD_def cellLimit_def
        layerLen_def BodySize_def CellSize_def headerSize_def lengthPrefix_def coverFlag_def Let_def readTail_def readFull_def sampleNode_def
        NewCell_def mkHeader_def Kind_valid_def shift_def zeroOffsets_def)
  have "cf_Deliver (r_cfg sampleServing) = None" using sampleServing_facts(6) by (simp add: sampleConfig_def)
  then show ?thesis
    using exit_answers_once [OF sampleData_header _ _ sampleServing_facts(4), of 0 sampleNode "[]" False _ _ _ None x w2 NoAddr 7]
      sampleServing_facts(3) last sq c x by (simp add: KindData_def KindControl_def) fastforce
qed

end
