(* ===== verification/Client.thy ===== *)
theory Client
  imports Chan Link
begin

text \<open>
  \<^verbatim>\<open>client/client.go\<close>: the client of a circuit. The record holds what the client's goroutines
  share: the circuit and its link, the two buffered channels, the number of cells sent, the number
  the next reply must carry, which goroutines still run (\<open>cl_receiving\<close>, \<open>cl_covering\<close>, and how many
  calls of \<^verbatim>\<open>send\<close> are between their first check and their return), and whether \<^verbatim>\<open>Close\<close> has
  released the keys. The two halves of \<^verbatim>\<open>send\<close>, before and after the random delay, are two
  operations, since other goroutines run in between. What a dial of the entry reaches is an argument.
\<close>

section \<open>Configuration and state\<close>

record Node =
  n_Addr :: bytes
  n_StaticPub :: bytes
  n_LinkPub :: bytes

definition linkKey :: "Node \<Rightarrow> bytes" where
  "linkKey n = (if n_LinkPub n = [] then n_StaticPub n else n_LinkPub n)"

type_synonym Mode = byte

definition Immediate :: Mode where "Immediate = 0"

definition ConstantRate :: Mode where "ConstantRate = 1"

record ClientConfig =
  cc_Provider :: provider
  cc_Chain :: "Node list"
  cc_Mode :: Mode
  cc_Rate :: int
  cc_CoverRate :: int
  cc_Jitter :: int

record Client =
  cl_cfg :: ClientConfig
  cl_conn :: Conn
  cl_raw :: Raw
  cl_circuit :: Circuit
  cl_keys :: "bytes list"
  cl_replies :: "bytes chan"
  cl_queue :: "bytes chan"
  cl_dropped :: u64
  cl_inbound :: u64
  cl_maxPayload :: int
  cl_closed :: bool
  cl_refused :: "error option"
  cl_sent :: u64
  cl_want :: u64
  cl_stopCover :: "bool option"
  cl_covering :: bool
  cl_receiving :: bool
  cl_senders :: nat
  cl_released :: bool

text \<open>The classes of a refused reply.\<close>

definition ErrReplyHeader :: error where "ErrReplyHeader = Errorf ErrReply (Message ''bad header'')"

definition ErrReplyNotOpened :: error where "ErrReplyNotOpened = Errorf ErrReply (Message ''did not open'')"

definition ErrReplyOutOfTurn :: error where "ErrReplyOutOfTurn = Errorf ErrReply (Message ''out of turn'')"

definition ErrReplyUnsolicited :: error where "ErrReplyUnsolicited = Errorf ErrReply (Message ''more replies than cells written'')"

section \<open>Sending\<close>

definition randomBelow :: "u64 \<Rightarrow> u64 io" where
  "randomBelow n w =
     (if sint n \<le> 0 then (Inr 0, w)
      else
        case readFull 8 w of
          (Inl e, w) \<Rightarrow> (Inl e, w)
        | (Inr b, w) \<Rightarrow> (Inr (drop_bit 1 (Uint64 b) mod n), w))"

text \<open>The length of the delay is what \<^verbatim>\<open>time.Sleep\<close> waits; it changes nothing else.\<close>

definition client_delay :: "Client \<Rightarrow> unit io" where
  "client_delay c w =
     (if cc_Jitter (cl_cfg c) \<le> 0 then (Inr (), w)
      else
        case randomBelow (word_of_int (cc_Jitter (cl_cfg c))) w of
          (Inl e, w) \<Rightarrow> (Inl e, w)
        | (Inr _, w) \<Rightarrow> (Inr (), w))"

text \<open>\<^verbatim>\<open>send\<close> up to the send lock.\<close>

definition sendEnter :: "Client \<Rightarrow> world \<Rightarrow> unit result \<times> Client \<times> world" where
  "sendEnter c w =
     (if cl_closed c then (Inl errClientClosed, c, w)
      else
        case client_delay c w of
          (Inl e, w) \<Rightarrow> (Inl e, c, w)
        | (Inr _, w) \<Rightarrow> (Inr (), c\<lparr>cl_senders := cl_senders c + 1\<rparr>, w))"

text \<open>\<^verbatim>\<open>send\<close> under the send lock, with its deferred \<^verbatim>\<open>busy.Done\<close>.\<close>

definition sendCell :: "bool \<Rightarrow> bytes \<Rightarrow> Client \<Rightarrow> world \<Rightarrow> unit result \<times> Client \<times> world" where
  "sendCell cover payload c w =
     (let c = c\<lparr>cl_senders := cl_senders c - 1\<rparr> in
      if cl_closed c then (Inl errClientClosed, c, w)
      else
        let n = cl_sent c in
        case (if cover then SealCover (cl_circuit c) n w else Seal (cl_circuit c) n payload w) of
          (Inl e, w) \<Rightarrow> (Inl e, c, w)
        | (Inr cell, w) \<Rightarrow>
            (case WriteCell cell (cl_conn c) (cl_raw c) of
               (res, cn, raw) \<Rightarrow> (res, c\<lparr>cl_sent := n + 1, cl_conn := cn, cl_raw := raw\<rparr>, w)))"

definition client_send :: "bool \<Rightarrow> bytes \<Rightarrow> Client \<Rightarrow> world \<Rightarrow> unit result \<times> Client \<times> world" where
  "client_send cover payload c w =
     (case sendEnter c w of
        (Inl e, c, w) \<Rightarrow> (Inl e, c, w)
      | (Inr _, c, w) \<Rightarrow> sendCell cover payload c w)"

definition scheduled :: "ClientConfig \<Rightarrow> bool" where
  "scheduled cfg \<longleftrightarrow> cc_Mode cfg = ConstantRate \<and> cc_Rate cfg > 0"

text \<open>\<^verbatim>\<open>Send\<close> in the constant-rate mode: the message goes to the schedule and nothing is written.\<close>

definition enqueue :: "bytes \<Rightarrow> Client \<Rightarrow> unit result \<times> Client" where
  "enqueue payload c =
     (if int (length payload) > cl_maxPayload c then (Inl ErrPayloadSize, c)
      else
        case try_send payload (cl_queue c) of
          (True, q) \<Rightarrow> (Inr (), c\<lparr>cl_queue := q\<rparr>)
        | (False, q) \<Rightarrow> (Inr (), c\<lparr>cl_dropped := cl_dropped c + 1\<rparr>))"

definition client_Send :: "bytes \<Rightarrow> Client \<Rightarrow> world \<Rightarrow> unit result \<times> Client \<times> world" where
  "client_Send payload c w =
     (if scheduled (cl_cfg c) then case enqueue payload c of (res, c) \<Rightarrow> (res, c, w)
      else client_send False payload c w)"

definition client_SendCover :: "Client \<Rightarrow> world \<Rightarrow> unit result \<times> Client \<times> world" where
  "client_SendCover c w = client_send True [] c w"

text \<open>One turn of the goroutines that \<^verbatim>\<open>startSchedule\<close> and \<^verbatim>\<open>startCover\<close> start; it ends with the first error.\<close>

definition scheduleTick :: "Client \<Rightarrow> world \<Rightarrow> Client \<times> world" where
  "scheduleTick c w =
     (case (case try_recv (cl_queue c) of
              (Some payload, q) \<Rightarrow> client_send False payload (c\<lparr>cl_queue := q\<rparr>) w
            | (None, q) \<Rightarrow> client_send True [] c w) of
        (Inl e, c, w) \<Rightarrow> (c\<lparr>cl_covering := False\<rparr>, w)
      | (Inr _, c, w) \<Rightarrow> (c, w))"

definition coverTick :: "Client \<Rightarrow> world \<Rightarrow> Client \<times> world" where
  "coverTick c w =
     (case client_SendCover c w of
        (Inl e, c, w) \<Rightarrow> (c\<lparr>cl_covering := False\<rparr>, w)
      | (Inr _, c, w) \<Rightarrow> (c, w))"

text \<open>A turn of the sending goroutine: it leaves when \<^verbatim>\<open>stopCover\<close> is closed.\<close>

definition coverTurn :: "bool \<Rightarrow> Client \<Rightarrow> world \<Rightarrow> Client \<times> world" where
  "coverTurn stopSeen c w =
     (if \<not> cl_covering c then (c, w)
      else if stopSeen \<and> cl_stopCover c = Some True then (c\<lparr>cl_covering := False\<rparr>, w)
      else if scheduled (cl_cfg c) then scheduleTick c w
      else coverTick c w)"

section \<open>Receiving\<close>

definition client_open :: "Client \<Rightarrow> Cell \<Rightarrow> u64 \<Rightarrow> (bytes \<times> bool) result" where
  "client_open c cell want =
     (case Cell_Header cell of
        Inl e \<Rightarrow> Inl ErrReplyHeader
      | Inr h \<Rightarrow>
          if hKind h \<noteq> KindData \<or> hCircuit h \<noteq> cl_inbound c then Inl ErrReplyHeader
          else
            case OpenExit (cl_circuit c) cell Backward of
              Inl e \<Rightarrow> Inl ErrReplyNotOpened
            | Inr (payload, cover) \<Rightarrow>
                if ReplyNumber (cl_circuit c) (hCounter h) \<noteq> want then Inl ErrReplyOutOfTurn
                else if want \<ge> cl_sent c then Inl ErrReplyUnsolicited
                else Inr (payload, cover))"

text \<open>What the loop of \<^verbatim>\<open>receive\<close> does with one cell.\<close>

definition receiveCell :: "Cell \<Rightarrow> Client \<Rightarrow> Client" where
  "receiveCell cell c =
     (case client_open c cell (cl_want c) of
        Inl e \<Rightarrow>
          (case Conn_Close (cl_conn c) (cl_raw c) of
             (cn, raw) \<Rightarrow> c\<lparr>cl_refused := Some e, cl_conn := cn, cl_raw := raw, cl_receiving := False\<rparr>)
      | Inr (payload, cover) \<Rightarrow>
          c\<lparr>cl_want := cl_want c + 1,
            cl_replies := (if cover then cl_replies c else snd (try_send payload (cl_replies c)))\<rparr>)"

text \<open>One turn of \<^verbatim>\<open>receive\<close>; \<open>None\<close> when the read does not return.\<close>

definition receiveTurn :: "Client \<Rightarrow> Client option" where
  "receiveTurn c =
     (if \<not> cl_receiving c then Some c
      else
        case ReadCell (replicate CellSize 0) (cl_conn c) (cl_raw c) of
          None \<Rightarrow> None
        | Some (res, cell, cn, raw) \<Rightarrow>
            (let c = c\<lparr>cl_conn := cn, cl_raw := raw\<rparr> in
             case res of
               Inl e \<Rightarrow> Some (c\<lparr>cl_receiving := False\<rparr>)
             | Inr _ \<Rightarrow> Some (receiveCell cell c)))"

section \<open>Opening and closing\<close>

definition randomCircuitID :: "u64 io" where
  "randomCircuitID w =
     (case readFull 8 w of
        (Inl e, w) \<Rightarrow> (Inl (Errorf (Message ''client: random circuit id'') e), w)
      | (Inr b, w) \<Rightarrow> (Inr (Uint64 b), w))"

fun drawLinks :: "nat \<Rightarrow> u64 list io" where
  "drawLinks 0 w = (Inr [], w)"
| "drawLinks (Suc n) w =
     (case randomCircuitID w of
        (Inl e, w) \<Rightarrow> (Inl e, w)
      | (Inr i, w) \<Rightarrow>
          (case drawLinks n w of
             (Inl e, w) \<Rightarrow> (Inl e, w)
           | (Inr is, w) \<Rightarrow> (Inr (i # is), w)))"

fun setupChain :: "Node list \<Rightarrow> u64 list \<Rightarrow> SetupHop list" where
  "setupChain (n # m # ns) (l # k # ls) =
     \<lparr>StaticPub = n_StaticPub n, NextAddr = n_Addr m, NextCircuit = k, Link = l\<rparr> # setupChain (m # ns) (k # ls)"
| "setupChain [n] (l # ls) = [\<lparr>StaticPub = n_StaticPub n, NextAddr = [], NextCircuit = 0, Link = l\<rparr>]"
| "setupChain _ _ = []"

definition releaseAll :: "bytes list \<Rightarrow> world \<Rightarrow> world" where
  "releaseAll ks w = (release ^^ length ks) w"

definition startSchedule :: "Client \<Rightarrow> Client" where
  "startSchedule c = c\<lparr>cl_stopCover := Some False, cl_covering := True\<rparr>"

definition startCover :: "Client \<Rightarrow> Client" where
  "startCover c = c\<lparr>cl_stopCover := Some False, cl_covering := True\<rparr>"

definition newClient :: "ClientConfig \<Rightarrow> Conn \<Rightarrow> Raw \<Rightarrow> Circuit \<Rightarrow> bytes list \<Rightarrow> u64 \<Rightarrow> Client" where
  "newClient cfg cn raw circ ks inb =
     \<lparr>cl_cfg = cfg, cl_conn = cn, cl_raw = raw, cl_circuit = circ, cl_keys = ks, cl_replies = make_chan 64,
      cl_queue = make_chan 256, cl_dropped = 0, cl_inbound = inb, cl_maxPayload = MaxPayload circ, cl_closed = False,
      cl_refused = None, cl_sent = 0, cl_want = 0, cl_stopCover = None, cl_covering = False, cl_receiving = True,
      cl_senders = 0, cl_released = False\<rparr>"

text \<open>\<^verbatim>\<open>Dial\<close> once the setup is built: the circuit, the entry link, the setup cell.\<close>

definition dialCircuit :: "ClientConfig \<Rightarrow> (bytes \<Rightarrow> Raw result) \<Rightarrow> u64 list \<Rightarrow> SetupResult \<Rightarrow> Client io" where
  "dialCircuit cfg dial links setup w =
     (let p = cc_Provider cfg; ks = sr_CellKeys setup in
      case NewCircuit p ks (sr_Offsets setup) links of
        Inl e \<Rightarrow> (Inl e, releaseAll ks w)
      | Inr circ \<Rightarrow>
          (case dial (n_Addr (hd (cc_Chain cfg))) of
             Inl e \<Rightarrow> (Inl e, releaseAll ks w)
           | Inr raw \<Rightarrow>
               (case Dial p (Some (linkKey (hd (cc_Chain cfg)))) raw w of
                  (Inl e, raw, w) \<Rightarrow> (Inl e, releaseAll ks w)
                | (Inr cn, raw, w) \<Rightarrow>
                    (case WriteCell (sr_Cell setup) cn raw of
                       (Inl e, cn, raw) \<Rightarrow> (Inl e, releaseAll ks w)
                     | (Inr _, cn, raw) \<Rightarrow>
                         (let c = newClient cfg cn raw circ ks (hd links) in
                          (Inr (if scheduled cfg then startSchedule c
                                else if cc_CoverRate cfg > 0 then startCover c else c), w))))))"

definition client_Dial :: "ClientConfig \<Rightarrow> (bytes \<Rightarrow> Raw result) \<Rightarrow> Client io" where
  "client_Dial cfg dial w =
     (if cc_Chain cfg = [] then (Inl (Message ''client: empty chain''), w)
      else
        case PublicKeySize (cc_Provider cfg) w of
          (Inl e, w) \<Rightarrow> (Inl e, w)
        | (Inr sz, w) \<Rightarrow>
            if \<not> list_all (\<lambda>n. length (n_StaticPub n) = sz \<and> length (linkKey n) = sz) (cc_Chain cfg) then (Inl ErrNodeKey, w)
            else
              case drawLinks (length (cc_Chain cfg)) w of
                (Inl e, w) \<Rightarrow> (Inl e, w)
              | (Inr links, w) \<Rightarrow>
                  (case BuildSetup (cc_Provider cfg) (setupChain (cc_Chain cfg) links) w of
                     (Inl e, w) \<Rightarrow> (Inl e, w)
                   | (Inr setup, w) \<Rightarrow> dialCircuit cfg dial links setup w))"

text \<open>\<^verbatim>\<open>Close\<close> up to its waits, and after them; the second call changes nothing.\<close>

definition closeStart :: "Client \<Rightarrow> Client" where
  "closeStart c =
     (if cl_closed c then c
      else
        case Conn_Close (cl_conn c) (cl_raw c) of
          (cn, raw) \<Rightarrow> c\<lparr>cl_closed := True, cl_conn := cn, cl_raw := raw, cl_stopCover := map_option (\<lambda>_. True) (cl_stopCover c)\<rparr>)"

definition closeWaits :: "Client \<Rightarrow> bool" where
  "closeWaits c \<longleftrightarrow> cl_covering c \<or> cl_receiving c \<or> cl_senders c > 0"

definition closeFinish :: "Client \<Rightarrow> world \<Rightarrow> Client \<times> world" where
  "closeFinish c w =
     (if \<not> cl_closed c \<or> cl_released c \<or> closeWaits c then (c, w)
      else (c\<lparr>cl_circuit := Circuit_Close (cl_circuit c), cl_released := True\<rparr>, releaseAll (cl_keys c) w))"

end
