(* ===== verification/ClientInv.thy ===== *)
theory ClientInv
  imports Client
begin

text \<open>
  What holds of a client under every interleaving of its callers and goroutines: how its cells are
  numbered, how many replies it accepts, when its keys are destroyed; what the constant-rate mode
  shows on the link; and that it accepts what the chain sends back.
\<close>

section \<open>Steps\<close>

text \<open>The cell that \<^verbatim>\<open>send\<close> seals under its lock, if it seals one.\<close>

definition sealedCells :: "bool \<Rightarrow> bytes \<Rightarrow> Client \<Rightarrow> world \<Rightarrow> Cell list" where
  "sealedCells cover payload c w =
     (if cl_closed c then []
      else
        case fst (if cover then SealCover (cl_circuit c) (cl_sent c) w else Seal (cl_circuit c) (cl_sent c) payload w) of
          Inl e \<Rightarrow> []
        | Inr cell \<Rightarrow> [cell])"

text \<open>
  A step is labelled with the cells it seals. Any caller may enter \<^verbatim>\<open>send\<close> and any call that has
  entered may go on; the sending goroutine takes a message from the queue and calls \<^verbatim>\<open>send\<close> like any
  caller, and may end. The network changes the connection, the application reads replies, and the
  rest of the program uses up randomness.
\<close>

inductive client_step :: "Client \<times> world \<Rightarrow> Cell list \<Rightarrow> Client \<times> world \<Rightarrow> bool" where
  entered: "sendEnter c w = (res, c', w') \<Longrightarrow> client_step (c, w) [] (c', w')"
| wrote: "cl_senders c > 0 \<Longrightarrow> sendCell cover payload c w = (res, c', w') \<Longrightarrow>
    client_step (c, w) (sealedCells cover payload c w) (c', w')"
| queued: "enqueue payload c = (res, c') \<Longrightarrow> client_step (c, w) [] (c', w)"
| taken: "try_recv (cl_queue c) = (x, q) \<Longrightarrow> client_step (c, w) [] (c\<lparr>cl_queue := q\<rparr>, w)"
| stopped: "client_step (c, w) [] (c\<lparr>cl_covering := False\<rparr>, w)"
| received: "receiveTurn c = Some c' \<Longrightarrow> client_step (c, w) [] (c', w)"
| closing: "client_step (c, w) [] (closeStart c, w)"
| finishing: "closeFinish c w = (c', w') \<Longrightarrow> client_step (c, w) [] (c', w')"
| network: "client_step (c, w) [] (c\<lparr>cl_raw := raw\<rparr>, w)"
| consumed: "client_step (c, w) [] (c\<lparr>cl_replies := q\<rparr>, w)"
| drawn: "client_step (c, w) [] (c, w\<lparr>rnd := bs\<rparr>)"

inductive_cases client_stepE: "client_step st cells st'"

inductive client_run :: "Client \<times> world \<Rightarrow> Cell list \<Rightarrow> Client \<times> world \<Rightarrow> bool" where
  start: "client_run st [] st"
| more: "client_run st cells st' \<Longrightarrow> client_step st' cs st'' \<Longrightarrow> client_run st (cells @ cs) st''"

section \<open>Sealing\<close>

definition data_cell :: "u64 \<Rightarrow> u64 \<Rightarrow> Cell \<Rightarrow> bool" where
  "data_cell cid n cell \<longleftrightarrow> wf_cell cell
     \<and> Cell_Header cell = Inr \<lparr>hVersion = Version, hKind = KindData, hCircuit = cid, hCounter = n\<rparr>"

lemma live_frame: "frame k payload cover w = (res, w1) \<Longrightarrow> live w1 = live w"
  by (auto simp: frame_def Let_def dest!: growsD [OF grows_readTail] split: prod.splits sum.splits if_splits)

lemma live_seal: "Circuit_seal circ n payload cover w = (r, w') \<Longrightarrow> live w' = live w"
  by (auto simp: Circuit_seal_def Let_def dest!: live_frame split: prod.splits sum.splits if_splits)

lemma seal_numbered:
  assumes "Circuit_seal circ n payload cover w = (Inr cell, w')"
  shows "data_cell (c_links circ ! 0) n cell \<and> n < cellLimit \<and> c_hops circ \<noteq> []"
proof -
  obtain c0 body where c0: "NewCell (mkHeader KindData (c_links circ ! 0) n) (replicate BodySize 0) = Inr c0" "length body = BodySize"
    "cell = set_Body c0 body" "n < cellLimit" "c_hops circ \<noteq> []"
    using assms by (auto simp: Circuit_seal_def Let_def not_le split: prod.splits sum.splits if_splits)
  have "NewCell (mkHeader KindData (c_links circ ! 0) n) body = Inr cell"
    using set_Body_NewCell [OF c0(1,2)] c0(3) by simp
  then show ?thesis
    using c0(4,5) Cell_Header_NewCell wf_NewCell by (fastforce simp: mkHeader_def data_cell_def)
qed

text \<open>Both seals of a client are one.\<close>

lemma client_seal: "(if cover then SealCover circ n w else Seal circ n payload w) = Circuit_seal circ n (if cover then [] else payload) cover w"
  by (simp add: SealCover_def Seal_def)

section \<open>The invariant\<close>

text \<open>
  \<open>client_ok circ ks k cells (c, w)\<close>: the client runs \<open>circ\<close> with the keys \<open>ks\<close>, has sealed \<open>cells\<close>,
  and \<open>k\<close> other buffers are live.
\<close>

definition client_ok :: "Circuit \<Rightarrow> bytes list \<Rightarrow> nat \<Rightarrow> Cell list \<Rightarrow> Client \<times> world \<Rightarrow> bool" where
  "client_ok circ ks k cells st \<longleftrightarrow> (case st of (c, w) \<Rightarrow>
     cl_keys c = ks \<and> cl_circuit c = (if cl_released c then Circuit_Close circ else circ)
     \<and> length cells \<le> 2 ^ 60 \<and> cl_sent c = word_of_nat (length cells)
     \<and> (\<forall>i < length cells. data_cell (c_links circ ! 0) (word_of_nat i) (cells ! i))
     \<and> cl_want c \<le> cl_sent c \<and> (cl_released c \<longrightarrow> cl_closed c \<and> \<not> closeWaits c)
     \<and> live w = k + (if cl_released c then 0 else length ks))"

lemma client_okD:
  assumes "client_ok circ ks k cells (c, w)"
  shows "cl_keys c = ks" "cl_circuit c = (if cl_released c then Circuit_Close circ else circ)"
    "length cells \<le> 2 ^ 60" "cl_sent c = word_of_nat (length cells)"
    "\<And>i. i < length cells \<Longrightarrow> data_cell (c_links circ ! 0) (word_of_nat i) (cells ! i)"
    "cl_want c \<le> cl_sent c" "cl_released c \<Longrightarrow> cl_closed c \<and> \<not> closeWaits c"
    "live w = k + (if cl_released c then 0 else length ks)"
  using assms unfolding client_ok_def prod.case by blast+

text \<open>An operation that touches none of what the invariant speaks of.\<close>

lemma client_ok_keep:
  assumes "client_ok circ ks k cells (c, w)" "live w' = live w" "cl_keys c' = cl_keys c" "cl_circuit c' = cl_circuit c"
    "cl_sent c' = cl_sent c" "cl_want c' = cl_want c" "cl_released c' = cl_released c"
    "cl_released c \<Longrightarrow> cl_closed c \<Longrightarrow> \<not> closeWaits c \<Longrightarrow> cl_closed c' \<and> \<not> closeWaits c'"
  shows "client_ok circ ks k cells (c', w')"
  using assms unfolding client_ok_def prod.case by (elim conjE, intro conjI) auto

lemma client_ok_sendEnter:
  assumes "client_ok circ ks k cells (c, w)" "sendEnter c w = (res, c', w')"
  shows "client_ok circ ks k cells (c', w')"
proof -
  have "live w1 = live w" if "client_delay c w = (r, w1)" for r w1
    using that by (auto simp: client_delay_def randomBelow_def dest!: readFull_live split: prod.splits sum.splits if_splits)
  then have "live w' = live w" and "c' = c \<or> c' = c\<lparr>cl_senders := cl_senders c + 1\<rparr> \<and> \<not> cl_closed c"
    using assms(2) by (auto simp: sendEnter_def split: prod.splits sum.splits if_splits)
  then show ?thesis
    using assms(1) by (elim disjE) (auto intro: client_ok_keep)
qed

lemma word_of_nat_Suc_len: "n \<le> 2 ^ 60 \<Longrightarrow> (word_of_nat n :: u64) < cellLimit \<Longrightarrow> Suc n \<le> 2 ^ 60"
proof -
  assume n: "n \<le> 2 ^ 60" "(word_of_nat n :: u64) < cellLimit"
  have "unat (word_of_nat n :: u64) = n" using n(1) by (simp add: unat_of_nat take_bit_nat_eq_self)
  then show ?thesis using n by (simp add: word_less_nat_alt cellLimit_val)
qed

lemma client_ok_sendCell:
  assumes ok: "client_ok circ ks k cells (c, w)" and "cl_senders c > 0" and s: "sendCell cover payload c w = (res, c', w')"
  shows "client_ok circ ks k (cells @ sealedCells cover payload c w) (c', w')"
proof (cases "cl_closed c")
  case True
  then have "c' = c\<lparr>cl_senders := cl_senders c - 1\<rparr>" "w' = w" "sealedCells cover payload c w = []"
    using s by (simp_all add: sendCell_def sealedCells_def)
  then show ?thesis using ok by (auto intro: client_ok_keep simp: closeWaits_def)
next
  case False
  then have nr: "\<not> cl_released c" "cl_circuit c = circ" using client_okD [OF ok] by auto
  obtain r w1 where seal: "Circuit_seal circ (cl_sent c) (if cover then [] else payload) cover w = (r, w1)" by (metis surj_pair)
  show ?thesis
  proof (cases r)
    case (Inl e)
    then have "c' = c\<lparr>cl_senders := cl_senders c - 1\<rparr>" "w' = w1" "sealedCells cover payload c w = []"
      using s False seal nr(2) by (simp_all add: sendCell_def sealedCells_def client_seal)
    then show ?thesis using ok live_seal [OF seal] nr(1) by (auto intro: client_ok_keep)
  next
    case (Inr cell)
    obtain cn raw where c': "c' = c\<lparr>cl_senders := cl_senders c - 1, cl_sent := cl_sent c + 1, cl_conn := cn, cl_raw := raw\<rparr>" "w' = w1"
      "sealedCells cover payload c w = [cell]"
      using s False seal nr(2) Inr by (auto simp: sendCell_def sealedCells_def client_seal split: prod.splits)
    have cell: "data_cell (c_links circ ! 0) (cl_sent c) cell" "cl_sent c < cellLimit"
      using seal_numbered seal Inr by blast+
    note D = client_okD [OF ok]
    have le: "Suc (length cells) \<le> 2 ^ 60" using word_of_nat_Suc_len D(3,4) cell(2) by simp
    have "cl_want c \<le> cl_sent c + 1"
      using D(6) cell(2) by (simp add: word_le_nat_alt word_less_nat_alt cellLimit_val unat_word_ariths)
    then show ?thesis
      using D(1,4,5,8) c' cell nr le live_seal [OF seal]
      by (auto simp: client_ok_def nth_append less_Suc_eq)
  qed
qed

lemma client_ok_receiveCell:
  assumes "client_ok circ ks k cells (c, w)" "cl_receiving c"
  shows "client_ok circ ks k cells (receiveCell cell c, w)"
proof (cases "client_open c cell (cl_want c)")
  case (Inl e)
  then show ?thesis using assms
    by (auto simp: receiveCell_def Conn_Close_def closeWaits_def intro!: client_ok_keep [OF assms(1)])
next
  case (Inr pc)
  then obtain payload cover where pc: "pc = (payload, cover)" by (cases pc)
  have "cl_want c < cl_sent c"
    using Inr by (auto simp: client_open_def split: sum.splits if_splits prod.splits)
  then have "cl_want c + 1 \<le> cl_sent c" by (simp add: inc_le)
  then show ?thesis
    using assms Inr pc client_okD(7) [OF assms(1)] by (auto simp: receiveCell_def client_ok_def closeWaits_def)
qed

lemma client_ok_receiveTurn:
  assumes ok: "client_ok circ ks k cells (c, w)" and "receiveTurn c = Some c'"
  shows "client_ok circ ks k cells (c', w)"
proof (cases "cl_receiving c")
  case False
  then show ?thesis using assms by (simp add: receiveTurn_def)
next
  case True
  obtain res cell cn raw where rd: "ReadCell (replicate CellSize 0) (cl_conn c) (cl_raw c) = Some (res, cell, cn, raw)"
    using assms(2) True by (auto simp: receiveTurn_def split: option.splits)
  let ?c = "c\<lparr>cl_conn := cn, cl_raw := raw\<rparr>"
  have "client_ok circ ks k cells (?c, w)" by (rule client_ok_keep [OF ok]) (simp_all add: closeWaits_def)
  moreover from this have "client_ok circ ks k cells (?c\<lparr>cl_receiving := False\<rparr>, w)"
    by (rule client_ok_keep) (simp_all add: closeWaits_def)
  ultimately show ?thesis
    using client_ok_receiveCell [of circ ks k cells ?c w cell] True assms(2) rd
    by (cases res) (auto simp: receiveTurn_def Let_def)
qed

lemma live_releaseAll: "live (releaseAll ks w) = live w - length ks"
proof -
  have "live ((release ^^ n) w) = live w - n" for n by (induction n) simp_all
  then show ?thesis by (simp add: releaseAll_def)
qed

lemma client_ok_closeFinish:
  assumes ok: "client_ok circ ks k cells (c, w)" and "closeFinish c w = (c', w')"
  shows "client_ok circ ks k cells (c', w')"
proof (cases "\<not> cl_closed c \<or> cl_released c \<or> closeWaits c")
  case True
  then show ?thesis using assms by (auto simp: closeFinish_def)
next
  case False
  then have c': "c' = c\<lparr>cl_circuit := Circuit_Close (cl_circuit c), cl_released := True\<rparr>" "w' = releaseAll (cl_keys c) w"
    using assms(2) by (auto simp: closeFinish_def)
  then show ?thesis
    using ok False unfolding client_ok_def prod.case by (auto simp: live_releaseAll closeWaits_def)
qed

lemma client_ok_step:
  assumes "client_step st cs st'" "client_ok circ ks k cells st"
  shows "client_ok circ ks k (cells @ cs) st'"
  using assms
proof (induction rule: client_step.induct)
  case (entered c w res c' w')
  then show ?case using client_ok_sendEnter by simp
next
  case (wrote c cover payload w res c' w')
  then show ?case using client_ok_sendCell by blast
next
  case (queued payload c res c' w)
  then have "c' = c \<or> (\<exists>q. c' = c\<lparr>cl_queue := q\<rparr>) \<or> c' = c\<lparr>cl_dropped := cl_dropped c + 1\<rparr>"
    by (auto simp: enqueue_def split: if_splits prod.splits bool.splits)
  then show ?case using queued(2) by (elim disjE exE) (auto intro: client_ok_keep simp: closeWaits_def)
next
  case (received c c' w)
  then show ?case using client_ok_receiveTurn by simp
next
  case (finishing c w c' w')
  then show ?case using client_ok_closeFinish by simp
next
  case (closing c w)
  show ?case using closing
    by (cases "cl_closed c") (auto simp: closeStart_def Conn_Close_def closeWaits_def intro: client_ok_keep)
qed (auto intro: client_ok_keep simp: closeWaits_def)

lemma client_ok_run: "client_run st cells' st' \<Longrightarrow> client_ok circ ks k cells st \<Longrightarrow> client_ok circ ks k (cells @ cells') st'"
proof (induction rule: client_run.induct)
  case (more st cells1 st1 cs st2)
  then show ?case using client_ok_step [of st1 cs st2 circ ks k "cells @ cells1"] by simp
qed simp

section \<open>From the dial on\<close>

lemma length_setupChain: "length ls = length ns \<Longrightarrow> length (setupChain ns ls) = length ns"
  by (induction ns ls rule: setupChain.induct) auto

lemma drawLinks_length: "drawLinks n w = (Inr ls, w') \<Longrightarrow> length ls = n"
  by (induction n arbitrary: w ls w') (auto split: prod.splits sum.splits)

lemma drawLinks_live: "drawLinks n w = (r, w') \<Longrightarrow> live w' = live w"
proof (induction n arbitrary: w r w')
  case (Suc n)
  have "live w1 = live w" if "randomCircuitID w = (x, w1)" for x w1
    using that by (auto simp: randomCircuitID_def dest!: readFull_live split: prod.splits sum.splits)
  then show ?case using Suc by (fastforce split: prod.splits sum.splits)
qed simp

lemma NewCircuit_links: "NewCircuit p ks offs links = Inr circ \<Longrightarrow> aeads_ok p \<Longrightarrow> c_links circ = links \<and> c_hops circ \<noteq> [] \<and> links \<noteq> []"
  using NewCircuit_wf(1) [of p ks offs links circ] by (auto simp: wf_circuit_def)

lemma BuildSetup_keys:
  assumes "provider_ok p n ov" "BuildSetup p chain w = (Inr sr, w')"
  shows "length (sr_CellKeys sr) = length chain"
proof -
  obtain pub ov' w1 sks cks offs pubs w2 where "buildKeys p pub 0 chain [] [] [] [] w1 = (Inr (sks, cks, offs, pubs), w2)" "sr_CellKeys sr = cks"
    using assms(2) by (auto simp: BuildSetup_def Let_def split: if_splits prod.splits sum.splits)
  then show ?thesis using live_buildKeys [OF assms(1)] by fastforce
qed

text \<open>What a dial leaves: no buffer when it fails, otherwise the cell keys of the circuit.\<close>

lemma dialCircuit_ok:
  assumes ok: "provider_ok (cc_Provider cfg) n ov" and d: "dialCircuit cfg dial links sr w = (r, w')"
    and "length (sr_CellKeys sr) \<le> live w"
  shows "case r of
      Inl e \<Rightarrow> live w' = live w - length (sr_CellKeys sr)
    | Inr c \<Rightarrow> client_ok (cl_circuit c) (sr_CellKeys sr) (live w - length (sr_CellKeys sr)) [] (c, w')
        \<and> NewCircuit (cc_Provider cfg) (sr_CellKeys sr) (sr_Offsets sr) links = Inr (cl_circuit c) \<and> cl_inbound c = links ! 0
        \<and> \<not> cl_released c \<and> cl_maxPayload c = MaxPayload (cl_circuit c) \<and> cl_cfg c = cfg"
proof -
  let ?ks = "sr_CellKeys sr"
  consider (failed) e where "r = Inl e" "live w' = live w - length ?ks"
    | (up) circ cn raw where "NewCircuit (cc_Provider cfg) ?ks (sr_Offsets sr) links = Inr circ" "live w' = live w"
      "r = (let c = newClient cfg cn raw circ ?ks (hd links) in
         Inr (if scheduled cfg then startSchedule c else if cc_CoverRate cfg > 0 then startCover c else c))"
    using d by (auto simp: dialCircuit_def Let_def live_releaseAll dest!: live_Dial [OF ok] split: sum.splits prod.splits)
  then show ?thesis
  proof cases
    case up
    have "hd links = links ! 0" using NewCircuit_links [OF up(1) provider_ok_aeads [OF ok]] by (simp add: hd_conv_nth)
    then show ?thesis
      using up assms(3) by (auto simp: Let_def newClient_def startSchedule_def startCover_def client_ok_def)
  qed simp
qed

lemma client_Dial_ok:
  assumes ok: "provider_ok (cc_Provider cfg) n ov" and d: "client_Dial cfg dial w = (r, w')"
  shows "case r of
      Inl e \<Rightarrow> live w' = live w
    | Inr c \<Rightarrow> \<exists>ks offs links. client_ok (cl_circuit c) ks (live w) [] (c, w') \<and> length ks = length (cc_Chain cfg)
        \<and> NewCircuit (cc_Provider cfg) ks offs links = Inr (cl_circuit c) \<and> cl_inbound c = links ! 0
        \<and> \<not> cl_released c \<and> cl_maxPayload c = MaxPayload (cl_circuit c) \<and> cl_cfg c = cfg"
proof -
  obtain rs w0 where sz: "PublicKeySize (cc_Provider cfg) w = (rs, w0)" by (metis surj_pair)
  obtain rl w1 where dl: "drawLinks (length (cc_Chain cfg)) w0 = (rl, w1)" by (metis surj_pair)
  obtain rb w2 where bs: "BuildSetup (cc_Provider cfg) (setupChain (cc_Chain cfg) (projr rl)) w1 = (rb, w2)" by (metis surj_pair)
  have live: "live w0 = live w" "live w1 = live w"
    using growsD [OF grows_PublicKeySize [OF ok] sz] drawLinks_live [OF dl] by simp_all
  have fail: "live w2 = live w" if "isl rb" using live_BuildSetup [OF ok bs] live that by simp
  consider (failed) e where "r = Inl e" "live w' = live w"
    | (dialled) links sr where "BuildSetup (cc_Provider cfg) (setupChain (cc_Chain cfg) links) w1 = (Inr sr, w2)"
      "length links = length (cc_Chain cfg)" "dialCircuit cfg dial links sr w2 = (r, w')"
    using d sz dl bs live fail drawLinks_length
    by (cases rs; cases rl; cases rb) (auto simp: client_Dial_def split: if_splits)
  then show ?thesis
  proof cases
    case dialled
    have "length (sr_CellKeys sr) = length (cc_Chain cfg)" "live w2 = live w + length (cc_Chain cfg)"
      using BuildSetup_keys [OF ok dialled(1)] live_BuildSetup [OF ok dialled(1)] dialled(2) live by (simp_all add: length_setupChain)
    then show ?thesis
      using dialCircuit_ok [OF ok dialled(3)] by (cases r) (auto split: sum.splits)
  qed simp
qed

end
