(* ===== verification/ClientChain.thy ===== *)
theory ClientChain
  imports ClientInv
begin

text \<open>
  The client and its chain together: a dial that succeeds, what it leaves on the entry link, and that
  every relay of the chain learns its part from it.
\<close>

section \<open>The chain of a setup\<close>

lemma setupChain_maps:
  assumes "length ls = length ns" "ns \<noteq> []"
  shows "map StaticPub (setupChain ns ls) = map n_StaticPub ns" "map Link (setupChain ns ls) = ls"
    "map NextAddr (setupChain ns ls) = map n_Addr (tl ns) @ [[]]" "map NextCircuit (setupChain ns ls) = tl ls @ [0]"
  using assms by (induction ns ls rule: setupChain.induct) auto

lemma setupChain_nth:
  assumes "length ls = length ns" "i < length ns"
  shows "StaticPub (setupChain ns ls ! i) = n_StaticPub (ns ! i)" "Link (setupChain ns ls ! i) = ls ! i"
    "NextAddr (setupChain ns ls ! i) = (map n_Addr (tl ns) @ [[]]) ! i" "NextCircuit (setupChain ns ls ! i) = (tl ls @ [0]) ! i"
proof -
  have l: "i < length (setupChain ns ls)" using assms by (simp add: length_setupChain)
  have "ns \<noteq> []" using assms(2) by auto
  from setupChain_maps [OF assms(1) this] show "StaticPub (setupChain ns ls ! i) = n_StaticPub (ns ! i)" "Link (setupChain ns ls ! i) = ls ! i"
    "NextAddr (setupChain ns ls ! i) = (map n_Addr (tl ns) @ [[]]) ! i" "NextCircuit (setupChain ns ls ! i) = (tl ls @ [0]) ! i"
    using l assms(2) by (metis nth_map)+
qed

definition addr_ok :: "bytes \<Rightarrow> bool" where
  "addr_ok a \<longleftrightarrow> a \<noteq> [] \<and> length a \<le> AddrSize \<and> no_trailing_zero a"

lemma wf_setupChain:
  assumes "length ls = length ns" "ns \<noteq> []" "\<forall>node \<in> set (tl ns). addr_ok (n_Addr node)"
  shows "wf_chain (setupChain ns ls)" "\<forall>hop \<in> set (setupChain ns ls). length (NextAddr hop) \<le> AddrSize"
proof -
  let ?c = "setupChain ns ls"
  have len: "length ?c = length ns" using assms(1) by (rule length_setupChain)
  then have ne: "?c \<noteq> []" using assms(2) by auto
  have "NextAddr (last ?c) = last (map NextAddr ?c)" using ne by (simp add: last_map)
  then have "NextAddr (last ?c) = []" using setupChain_maps(3) [OF assms(1,2)] by simp
  moreover have "NextAddr (?c ! i) \<noteq> [] \<and> no_trailing_zero (NextAddr (?c ! i)) \<and> NextCircuit (?c ! i) = Link (?c ! Suc i)"
    if "Suc i < length ?c" for i
  proof -
    have i: "i < length ns" "i < length (tl ns)" "Suc i < length ns" "i < length (tl ls)" using that len assms(1) by simp_all
    then have "addr_ok (n_Addr (tl ns ! i))" using assms(3) by simp
    then show ?thesis
      using setupChain_nth [OF assms(1) i(1)] setupChain_nth(2) [OF assms(1) i(3)] i(2,4) by (simp add: nth_append addr_ok_def nth_tl)
  qed
  ultimately show "wf_chain ?c" using ne by (simp add: wf_chain_def)
  have "set (map NextAddr ?c) = n_Addr ` set (tl ns) \<union> {[]}" using setupChain_maps(3) [OF assms(1,2)] by simp
  moreover have "\<forall>a \<in> n_Addr ` set (tl ns) \<union> {[]}. length a \<le> AddrSize" using assms(3) by (auto simp: addr_ok_def)
  ultimately show "\<forall>hop \<in> set ?c. length (NextAddr hop) \<le> AddrSize" by (metis image_eqI set_map)
qed

section \<open>A dial that succeeds\<close>

lemma drawLinks_ok:
  "8 * n \<le> length (rnd w) \<Longrightarrow> \<exists>ls. drawLinks n w = (Inr ls, w\<lparr>rnd := drop (8 * n) (rnd w)\<rparr>) \<and> length ls = n"
proof (induction n arbitrary: w)
  case (Suc n)
  let ?w = "w\<lparr>rnd := drop 8 (rnd w)\<rparr>"
  have "randomCircuitID w = (Inr (Uint64 (take 8 (rnd w))), ?w)" using Suc.prems by (simp add: randomCircuitID_def readFull_def)
  moreover obtain ls where "drawLinks n ?w = (Inr ls, ?w\<lparr>rnd := drop (8 * n) (rnd ?w)\<rparr>)" "length ls = n"
    using Suc.IH [of ?w] Suc.prems by fastforce
  ultimately show ?case by (simp add: add.commute)
qed simp

lemma newCircuit_loop_ok:
  assumes ok: "provider_ok p n ov" "provider_total p eb" and "\<forall>k \<in> set ks. int (length k) = pKeySize p"
    "c_overhead c = 0 \<or> c_overhead c = ov" "length offs = length ks"
  shows "\<exists>r. newCircuit_loop p ks offs c acc = Inr r"
  using assms(3-)
proof (induction ks arbitrary: offs c acc)
  case (Cons k ks)
  obtain off os where o: "offs = off # os" using Cons.prems(3) by (cases offs) auto
  have "\<not> isl (pNewAEAD p k)" using provider_totalD(4) [OF ok(2)] Cons.prems(1) by simp
  then obtain a where a: "pNewAEAD p k = Inr a" by (cases "pNewAEAD p k") auto
  then have ov: "Overhead a = ov" using provider_okD(8) [OF ok(1)] by blast
  let ?c = "c\<lparr>c_overhead := (if c_overhead c = 0 then Overhead a else c_overhead c), c_hops := c_hops c @ [a], c_before := c_before c @ [acc]\<rparr>"
  have "c_overhead ?c = 0 \<or> c_overhead ?c = ov" using ov Cons.prems(2) by auto
  then have "\<exists>r. newCircuit_loop p ks os ?c (addOffsets acc off) = Inr r"
    using Cons.IH [of ?c os] Cons.prems(1,3) o by simp
  then show ?case using a ov o Cons.prems(2) by auto
qed simp

lemma NewCircuit_ok:
  assumes "provider_ok p n ov" "provider_total p eb" "\<forall>k \<in> set ks. int (length k) = pKeySize p"
    "length offs = length ks" "length links = length ks" "ks \<noteq> []"
  shows "\<exists>circ. NewCircuit p ks offs links = Inr circ"
proof -
  let ?c = "\<lparr>c_hops = [], c_links = links, c_before = [], c_total = zeroOffsets, c_overhead = 0\<rparr>"
  obtain r where "newCircuit_loop p ks offs ?c zeroOffsets = Inr r"
    using newCircuit_loop_ok [OF assms(1-3) _ assms(4), of ?c zeroOffsets] by auto
  then show ?thesis using assms(4-6) by (cases r) (simp add: NewCircuit_def)
qed

lemma built_keys:
  assumes "built p n ov chain sks cks offs pubs Ls"
  shows "\<forall>k \<in> set cks. int (length k) = pKeySize p" "length offs = length cks" "length cks = length chain"
proof -
  have "provider_ok p n ov" and l: "length cks = length chain" "length offs = length chain"
    and h: "\<forall>i < length chain. hop_keys p i (chain ! i) (pubs ! i) (sks ! i) (cks ! i) (offs ! i)"
    using assms by (auto simp: built_def)
  then show "\<forall>k \<in> set cks. int (length k) = pKeySize p"
    using provider_okD(7) [of p n ov] by (fastforce simp: hop_keys_def in_set_conv_nth)
  show "length offs = length cks" "length cks = length chain" using l by simp_all
qed

text \<open>
  Everything a dial needs: honest keys along the chain, addresses that fit, a chain that fits a
  cell, room for the keys, randomness.
\<close>

definition dialable :: "ClientConfig \<Rightarrow> nat \<Rightarrow> int \<Rightarrow> nat \<Rightarrow> world \<Rightarrow> bool" where
  "dialable cfg n ov eb w \<longleftrightarrow>
     provider_ok (cc_Provider cfg) n ov \<and> provider_total (cc_Provider cfg) eb \<and> cc_Chain cfg \<noteq> []
     \<and> (\<forall>node \<in> set (cc_Chain cfg). length (linkKey node) = n \<and> (\<exists>priv. is_pair (cc_Provider cfg) priv (n_StaticPub node)))
     \<and> (\<forall>node \<in> set (tl (cc_Chain cfg)). addr_ok (n_Addr node))
     \<and> int (length (cc_Chain cfg)) * perHopCost n ov \<le> int BodySize
     \<and> sizeCache w (pSuite (cc_Provider cfg)) = Some (n, ov) \<and> live w + 3 * length (cc_Chain cfg) + 4 \<le> limit w
     \<and> 8 * length (cc_Chain cfg) + length (cc_Chain cfg) * eb + BodySize + eb \<le> length (rnd w)"

lemma dial_builds:
  assumes d: "dialable cfg n ov eb w"
  obtains links cell cks offs sks pubs Ls w1 circ where
    "\<forall>dial. client_Dial cfg dial w = dialCircuit cfg dial links \<lparr>sr_Cell = cell, sr_CellKeys = cks, sr_Offsets = offs\<rparr> w1"
    "built (cc_Provider cfg) n ov (setupChain (cc_Chain cfg) links) sks cks offs pubs Ls"
    "carries_setup cell (links ! 0) 0 (Ls 0)" "NewCircuit (cc_Provider cfg) cks offs links = Inr circ"
    "length links = length (cc_Chain cfg)" "eb \<le> length (rnd w1)" "live w1 + 4 \<le> limit w1"
proof -
  let ?p = "cc_Provider cfg" and ?ns = "cc_Chain cfg"
  have ok: "provider_ok ?p n ov" "provider_total ?p eb" and ne: "?ns \<noteq> []"
    and fits: "int (length ?ns) * perHopCost n ov \<le> int BodySize"
    and sizes: "sizeCache w (pSuite ?p) = Some (n, ov)"
    and nodes: "\<forall>node \<in> set ?ns. length (linkKey node) = n \<and> (\<exists>priv. is_pair ?p priv (n_StaticPub node))"
    using d by (auto simp: dialable_def)
  let ?w = "w\<lparr>rnd := drop (8 * length ?ns) (rnd w)\<rparr>"
  have rnd: "8 * length ?ns \<le> length (rnd w)" "length ?ns * eb + BodySize + eb \<le> length (rnd ?w)"
    and lim: "live ?w + 2 * length ?ns + 4 \<le> limit ?w" "live ?w + length ?ns + 4 \<le> limit ?w"
    using d by (auto simp: dialable_def)
  obtain links where links: "drawLinks (length ?ns) w = (Inr links, ?w)" "length links = length ?ns"
    using drawLinks_ok [OF rnd(1)] by blast
  let ?chain = "setupChain ?ns links"
  have wf: "wf_chain ?chain" "\<forall>hop \<in> set ?chain. length (NextAddr hop) \<le> AddrSize"
    using wf_setupChain [OF links(2) ne] d by (auto simp: dialable_def)
  have len: "length ?chain = length ?ns" using links(2) by (rule length_setupChain)
  have "StaticPub ` set ?chain = n_StaticPub ` set ?ns"
    using setupChain_maps(1) [OF links(2) ne] by (metis set_map)
  then have hops: "\<forall>hop \<in> set ?chain. length (NextAddr hop) \<le> AddrSize \<and> (\<exists>priv. is_pair ?p priv (StaticPub hop))"
    using nodes wf(2) by (metis (no_types, lifting) imageE imageI)
  obtain cell cks offs sks pubs Ls w1 where b:
    "BuildSetup ?p ?chain ?w = (Inr \<lparr>sr_Cell = cell, sr_CellKeys = cks, sr_Offsets = offs\<rparr>, w1)"
    "built ?p n ov ?chain sks cks offs pubs Ls" "carries_setup cell (Link (?chain ! 0)) 0 (Ls 0)"
    "eb \<le> length (rnd w1)" "limit w1 = limit ?w" "length cks = length ?chain"
    by (rule BuildSetup_built [OF ok wf(1) _ hops, of ?w eb]) (use fits sizes rnd(2) lim(1) len in simp_all)
  have "live w1 = live ?w + length ?chain" using live_BuildSetup [OF ok(1) b(1)] by simp
  then have lw: "live w1 + 4 \<le> limit w1" using lim(2) len b(5) by simp
  obtain circ where circ: "NewCircuit ?p cks offs links = Inr circ"
    using NewCircuit_ok [OF ok built_keys(1,2) [OF b(2)]] b(6) len links(2) ne by force
  have "PublicKeySize ?p w = (Inr n, w)" using sizesOf_cached [OF sizes] by (simp add: PublicKeySize_def)
  moreover have "list_all (\<lambda>node. length (n_StaticPub node) = n \<and> length (linkKey node) = n) ?ns"
    using nodes provider_okD(5) [OF ok(1)] by (fastforce simp: list_all_iff)
  ultimately have dials: "\<forall>dial. client_Dial cfg dial w = dialCircuit cfg dial links \<lparr>sr_Cell = cell, sr_CellKeys = cks, sr_Offsets = offs\<rparr> w1"
    using ne links(1) b(1) by (simp add: client_Dial_def)
  have "Link (?chain ! 0) = links ! 0" using setupChain_nth(2) [OF links(2), of 0] ne by simp
  then have "carries_setup cell (links ! 0) 0 (Ls 0)" using b(3) by simp
  then show ?thesis using that [OF dials b(2) _ circ links(2) b(4) lw] by blast
qed

text \<open>The handshake with the entry and the frame that follows it.\<close>

lemma dial_succeeds:
  assumes "dialable cfg n ov eb w" "sizes (pSuite (cc_Provider cfg)) = Some n"
    and "is_pair (cc_Provider cfg) entryKey (linkKey (hd (cc_Chain cfg)))"
    and "live wE + 4 \<le> limit wE" "eb \<le> length (rnd wE)" "outbox rawE = []" "deadlineOK rawE"
    and "n + nat (int CellSize + ov) \<le> room rawE" "n + 1 + nat (int CellSize + ov) \<le> room raw" "deadlineOK raw"
  obtains A lc rawE' wE' c w' x cell links cks offs sks pubs Ls where
    "Accept (cc_Provider cfg) sizes (Some (entryKey, linkKey (hd (cc_Chain cfg)))) (rawE\<lparr>inbox := modeAuthenticated # A\<rparr>) wE
        = (Inr lc, rawE', sizes, wE')"
    "client_Dial cfg (\<lambda>_. Inr (raw\<lparr>inbox := outbox rawE'\<rparr>)) w = (Inr c, w')"
    "outbox (cl_raw c) = outbox raw @ (modeAuthenticated # A) @ frames x 0 [cell]" "receives lc x 0"
    "built (cc_Provider cfg) n ov (setupChain (cc_Chain cfg) links) sks cks offs pubs Ls" "carries_setup cell (links ! 0) 0 (Ls 0)"
    "NewCircuit (cc_Provider cfg) cks offs links = Inr (cl_circuit c)" "length links = length (cc_Chain cfg)"
proof -
  let ?p = "cc_Provider cfg" and ?key = "linkKey (hd (cc_Chain cfg))"
  have ok: "provider_ok ?p n ov" "provider_total ?p eb" using assms(1) by (auto simp: dialable_def)
  obtain links cell cks offs sks pubs Ls w1 circ where b:
    "\<forall>dial. client_Dial cfg dial w = dialCircuit cfg dial links \<lparr>sr_Cell = cell, sr_CellKeys = cks, sr_Offsets = offs\<rparr> w1"
    "built ?p n ov (setupChain (cc_Chain cfg) links) sks cks offs pubs Ls" "carries_setup cell (links ! 0) 0 (Ls 0)"
    "NewCircuit ?p cks offs links = Inr circ" "length links = length (cc_Chain cfg)" "eb \<le> length (rnd w1)" "live w1 + 4 \<le> limit w1"
    by (rule dial_builds [OF assms(1)])
  obtain a A w2 where eph: "GenerateEphemeral ?p w1 = (Inr (a, A), w2)"
    using provider_totalD(1) [OF ok(2) _ b(6)] b(7) by (fastforce simp: GenerateEphemeral_def)
  let ?rawE = "rawE\<lparr>inbox := modeAuthenticated # A\<rparr>"
  obtain lc rawE' wE' cI rawI wI x y where hs:
    "Accept ?p sizes (Some (entryKey, ?key)) ?rawE wE = (Inr lc, rawE', sizes, wE')"
    "Dial ?p (Some ?key) (raw\<lparr>inbox := outbox rawE'\<rparr>) w1 = (Inr cI, rawI, wI)"
    "outbox rawI = outbox raw @ modeAuthenticated # A" "sends cI x 0" "receives lc x 0" "aead_ok x"
    "room rawI = room raw - (n + 1)" "deadlineOK rawI" "Overhead x = ov"
    using handshake_agrees [of ?p n ov eb sizes "Some (entryKey, ?key)" True w1 a A w2 wE ?rawE "[]" raw]
      ok assms(2-10) eph b(7) by (auto simp: static_pub_def)
  have wfc: "wf_cell cell" using b(3) by (auto simp: carries_setup_def wf_cell_def Cell_Body_def cell_sizes)
  have "nat (int CellSize + Overhead x) \<le> room rawI" using hs(7,9) assms(9) by simp
  then obtain cn rawW where wr: "WriteCell cell cI rawI = (Inr (), cn, rawW)" "outbox rawW = outbox rawI @ frames x 0 [cell]"
    using WriteCell_sends [OF hs(4,6) wfc, of rawI] hs(8) by auto
  let ?c = "newClient cfg cn rawW circ cks (hd links)"
  let ?c' = "if scheduled cfg then startSchedule ?c else if cc_CoverRate cfg > 0 then startCover ?c else ?c"
  have dial: "client_Dial cfg (\<lambda>_. Inr (raw\<lparr>inbox := outbox rawE'\<rparr>)) w = (Inr ?c', wI)"
    using b(1,4) hs(2) wr(1) by (simp add: dialCircuit_def Let_def)
  have c': "cl_raw ?c' = rawW" "cl_circuit ?c' = circ" by (simp_all add: newClient_def startSchedule_def startCover_def)
  have out: "outbox (cl_raw ?c') = outbox raw @ (modeAuthenticated # A) @ frames x 0 [cell]"
    "NewCircuit ?p cks offs links = Inr (cl_circuit ?c')" using c' wr(2) hs(3) b(4) by simp_all
  show ?thesis by (rule that [OF hs(1) dial out(1) hs(5) b(2,3) out(2) b(5)])
qed

section \<open>The dial and the chain\<close>

text \<open>
  C5: a client that dials a chain of honest nodes sets it up. The entry answers the link handshake
  with the key the client was given for it; on that link the client then writes one frame, which the
  entry can open, with a setup cell in it; that cell, opened and passed on from relay to relay, gives
  every relay the address of its successor and exactly the cell key and offsets from which the
  client's own circuit was made.
\<close>

theorem client_sets_up_chain:
  assumes "dialable cfg n ov eb w" "sizes (pSuite (cc_Provider cfg)) = Some n"
    and "is_pair (cc_Provider cfg) entryKey (linkKey (hd (cc_Chain cfg)))"
    and "live wE + 4 \<le> limit wE" "eb \<le> length (rnd wE)" "outbox rawE = []" "deadlineOK rawE"
    and "n + nat (int CellSize + ov) \<le> room rawE" "n + 1 + nat (int CellSize + ov) \<le> room raw" "deadlineOK raw"
    and "map snd ks = map n_StaticPub (cc_Chain cfg)" "\<forall>(priv, pub) \<in> set ks. is_pair (cc_Provider cfg) priv pub"
    and "sizeCache wR (pSuite (cc_Provider cfg)) = Some (n, ov)" "live wR + length (cc_Chain cfg) + 4 \<le> limit wR"
    and "length (cc_Chain cfg) * BodySize \<le> length (rnd wR)"
  shows "\<exists>A lc rawE' wE' c w' x cell ls links wR'.
      Accept (cc_Provider cfg) sizes (Some (entryKey, linkKey (hd (cc_Chain cfg)))) (rawE\<lparr>inbox := modeAuthenticated # A\<rparr>) wE
        = (Inr lc, rawE', sizes, wE')
    \<and> client_Dial cfg (\<lambda>_. Inr (raw\<lparr>inbox := outbox rawE'\<rparr>)) w = (Inr c, w')
    \<and> outbox (cl_raw c) = outbox raw @ (modeAuthenticated # A) @ frames x 0 [cell] \<and> receives lc x 0
    \<and> open_chain (cc_Provider cfg) ks 0 cell wR = (Inr ls, wR')
    \<and> map sl_NextAddr ls = map n_Addr (tl (cc_Chain cfg)) @ [[]]
    \<and> NewCircuit (cc_Provider cfg) (map sl_CellKey ls) (map sl_Offsets ls) links = Inr (cl_circuit c)"
proof -
  let ?p = "cc_Provider cfg" and ?ns = "cc_Chain cfg"
  have ne: "?ns \<noteq> []" using assms(1) by (auto simp: dialable_def)
  obtain A lc rawE' wE' c w' x cell links cks offs sks pubs Ls where d:
    "Accept ?p sizes (Some (entryKey, linkKey (hd ?ns))) (rawE\<lparr>inbox := modeAuthenticated # A\<rparr>) wE = (Inr lc, rawE', sizes, wE')"
    "client_Dial cfg (\<lambda>_. Inr (raw\<lparr>inbox := outbox rawE'\<rparr>)) w = (Inr c, w')"
    "outbox (cl_raw c) = outbox raw @ (modeAuthenticated # A) @ frames x 0 [cell]" "receives lc x 0"
    "built ?p n ov (setupChain ?ns links) sks cks offs pubs Ls" "carries_setup cell (links ! 0) 0 (Ls 0)"
    "NewCircuit ?p cks offs links = Inr (cl_circuit c)" "length links = length ?ns"
    by (rule dial_succeeds [where sizes = sizes, OF assms(1-10)])
  have wf: "wf_chain (setupChain ?ns links)"
    using wf_setupChain(1) [OF d(8) ne] assms(1) by (simp add: dialable_def)
  note maps = setupChain_maps [OF d(8) ne]
  have len: "length (setupChain ?ns links) = length ?ns" using d(8) by (rule length_setupChain)
  have l0: "Link (setupChain ?ns links ! 0) = links ! 0" using setupChain_nth(2) [OF d(8), of 0] ne by simp
  obtain ls wR' where ls: "open_chain ?p ks 0 cell wR = (Inr ls, wR')" "map sl_CellKey ls = cks" "map sl_Offsets ls = offs"
    "map sl_NextAddr ls = map NextAddr (setupChain ?ns links)"
    using built_reaches [OF d(5) d(6) [folded l0] wf _ assms(12,13)] assms(11,14,15) maps(1) len by auto
  then show ?thesis
    using d(1-4,7) maps(3) by (intro exI conjI) (assumption | simp)+
qed

definition sampleClientConfig :: ClientConfig where
  "sampleClientConfig =
     \<lparr>cc_Provider = sampleSuite,
      cc_Chain = [\<lparr>n_Addr = [1], n_StaticPub = replicate 32 4, n_LinkPub = replicate 32 9\<rparr>,
                  \<lparr>n_Addr = [2], n_StaticPub = replicate 32 5, n_LinkPub = []\<rparr>],
      cc_Mode = ConstantRate, cc_Rate = 5, cc_CoverRate = 0, cc_Jitter = 0\<rparr>"

lemma sample_dialable: "dialable sampleClientConfig 32 16 32 sampleNode"
  using sampleSuite_ok sampleSuite_total sampleSuite_pair [of "replicate 32 4"] sampleSuite_pair [of "replicate 32 5"]
  by (auto simp: dialable_def sampleClientConfig_def linkKey_def addr_ok_def AddrSize_def no_trailing_zero_def perHopCost_def
      setupHdr_def setupFlags_def BodySize_val sampleNode_def sampleSuite_def)

theorem client_sets_up_chain_witness:
  "\<exists>A lc rawE' wE' c w' x cell ls links wR'.
      Accept sampleSuite [SuiteC25519 \<mapsto> 32] (Some (replicate 32 9, replicate 32 9)) (sampleRaw\<lparr>inbox := modeAuthenticated # A\<rparr>) sampleNode
        = (Inr lc, rawE', [SuiteC25519 \<mapsto> 32], wE')
    \<and> client_Dial sampleClientConfig (\<lambda>_. Inr (sampleRaw\<lparr>inbox := outbox rawE'\<rparr>)) sampleNode = (Inr c, w')
    \<and> outbox (cl_raw c) = outbox sampleRaw @ (modeAuthenticated # A) @ frames x 0 [cell] \<and> receives lc x 0
    \<and> open_chain sampleSuite [(replicate 32 4, replicate 32 4), (replicate 32 5, replicate 32 5)] 0 cell sampleNode = (Inr ls, wR')
    \<and> map sl_NextAddr ls = [[2], []]
    \<and> NewCircuit sampleSuite (map sl_CellKey ls) (map sl_Offsets ls) links = Inr (cl_circuit c)"
proof -
  have "pSuite sampleSuite = SuiteC25519" by (simp add: sampleSuite_def)
  then show ?thesis
  using client_sets_up_chain [OF sample_dialable, of "[SuiteC25519 \<mapsto> 32]" "replicate 32 9" sampleNode sampleRaw sampleRaw
      "[(replicate 32 4, replicate 32 4), (replicate 32 5, replicate 32 5)]" sampleNode]
    sampleSuite_pair [of "replicate 32 9"] sampleSuite_pair [of "replicate 32 4"] sampleSuite_pair [of "replicate 32 5"]
  by (simp add: sampleClientConfig_def linkKey_def sampleNode_def sampleRaw_def CellSize_def BodySize_val)
qed

section \<open>From the dial to the close\<close>



section \<open>Replies\<close>



end
