(* ===== verification/ClientRate.thy ===== *)
theory ClientRate
  imports ClientChain "HOL-Library.Sublist"
begin

text \<open>
  The constant-rate mode of the client: what its link shows, and what becomes of the messages.
\<close>

section \<open>The sending goroutine is made of steps\<close>

lemma client_send_run:
  assumes "client_send cover payload c w = (res, c', w')"
  shows "\<exists>cells. client_run (c, w) cells (c', w')"
proof -
  obtain r c1 w1 where e: "sendEnter c w = (r, c1, w1)" by (metis surj_pair)
  have run: "client_run (c, w) [] (c1, w1)" using client_run.more [OF client_run.start client_step.entered [OF e]] by simp
  show ?thesis
  proof (cases r)
    case (Inl x)
    then show ?thesis using assms e run by (auto simp: client_send_def)
  next
    case (Inr u)
    have "cl_senders c1 > 0" using e Inr by (auto simp: sendEnter_def split: if_splits prod.splits sum.splits)
    moreover have "sendCell cover payload c1 w1 = (res, c', w')" using assms e Inr by (simp add: client_send_def)
    ultimately show ?thesis using client_run.more [OF run client_step.wrote] by blast
  qed
qed

lemma client_run_trans: "client_run st' cs st'' \<Longrightarrow> client_run st cells st' \<Longrightarrow> \<exists>xs. client_run st xs st''"
  by (induction rule: client_run.induct) (blast intro: client_run.more)+

lemma coverTurn_run: "\<exists>cells. client_run (c, w) cells (coverTurn stopSeen c w)"
proof -
  have stop: "client_run (c, w) [] (c\<lparr>cl_covering := False\<rparr>, w)" for c w
    using client_run.more [OF client_run.start client_step.stopped] by simp
  have send: "\<exists>cells. client_run (c, w) cells (case client_send cover payload c w of
      (Inl e, c, w) \<Rightarrow> (c\<lparr>cl_covering := False\<rparr>, w) | (Inr _, c, w) \<Rightarrow> (c, w))" for c w cover payload
  proof -
    obtain r c1 w1 where s: "client_send cover payload c w = (r, c1, w1)" by (metis surj_pair)
    then obtain cells where run: "client_run (c, w) cells (c1, w1)" using client_send_run by blast
    show ?thesis using s run client_run_trans [OF stop run] by (cases r) auto
  qed
  have take: "client_run (c, w) [] (c\<lparr>cl_queue := snd (try_recv (cl_queue c))\<rparr>, w)" for c w
    using client_run.more [OF client_run.start client_step.taken] by (metis append_Nil prod.collapse)
  have "\<exists>cells. client_run (c, w) cells (scheduleTick c w)"
  proof (cases "ch_buf (cl_queue c)")
    case Nil
    then show ?thesis using send [of c w True "[]"] by (simp add: scheduleTick_def try_recv_def)
  next
    case (Cons m ms)
    let ?c = "c\<lparr>cl_queue := (cl_queue c)\<lparr>ch_buf := ms\<rparr>\<rparr>"
    have "client_run (c, w) [] (?c, w)" using take [of c w] Cons by (simp add: try_recv_def)
    then show ?thesis using send [of ?c w False m] client_run_trans Cons by (fastforce simp: scheduleTick_def try_recv_def)
  qed
  moreover have "\<exists>cells. client_run (c, w) cells (coverTick c w)"
    using send [of c w True "[]"] by (simp add: coverTick_def client_SendCover_def)
  ultimately show ?thesis using stop client_run.start by (auto simp: coverTurn_def intro: exI [of _ "[]"])
qed

section \<open>A tick\<close>

text \<open>The cell that carries a message, or cover for \<open>None\<close>, under a number.\<close>

definition sealed_as :: "Circuit \<Rightarrow> u64 \<Rightarrow> bytes option \<Rightarrow> Cell \<Rightarrow> bool" where
  "sealed_as circ n m cell \<longleftrightarrow>
     (\<exists>w w'. Circuit_seal circ n (case m of None \<Rightarrow> [] | Some b \<Rightarrow> b) (m = None) w = (Inr cell, w'))"

text \<open>A client in constant-rate mode that can send \<open>k\<close> more cells over the link \<open>a\<close>.\<close>

definition rate_ready :: "AEAD \<Rightarrow> u64 \<Rightarrow> nat \<Rightarrow> Client \<Rightarrow> world \<Rightarrow> bool" where
  "rate_ready a s k c w \<longleftrightarrow>
     scheduled (cl_cfg c) \<and> cl_covering c \<and> \<not> cl_closed c \<and> (\<exists>offs links. wf_circuit (cl_circuit c) offs links)
     \<and> cl_maxPayload c = MaxPayload (cl_circuit c) \<and> 0 \<le> cl_maxPayload c
     \<and> (\<forall>m \<in> set (ch_buf (cl_queue c)). int (length m) \<le> cl_maxPayload c)
     \<and> sends (cl_conn c) a s \<and> aead_ok a \<and> deadlineOK (cl_raw c) \<and> k * frame_len a \<le> room (cl_raw c)
     \<and> unat (cl_sent c) + k \<le> 2 ^ 60 \<and> k * (BodySize + 8) \<le> length (rnd w)"

lemma frame_rnd: "frame k payload cover w = (Inr inner, w1) \<Longrightarrow> length (rnd w) \<le> k + length (rnd w1)"
  by (auto simp: frame_def Let_def readTail_def readFull_def split: if_splits prod.splits sum.splits)

lemma Circuit_seal_rnd:
  assumes "Circuit_seal circ n payload cover w = (Inr cell, w')" "wf_circuit circ offs links"
  shows "length (rnd w) \<le> BodySize + length (rnd w')"
proof -
  obtain inner k where f: "frame k payload cover w = (Inr inner, w')" "k = nat (int BodySize - int (length (c_hops circ)) * c_overhead circ)"
    using assms(1) by (auto simp: Circuit_seal_def split: if_splits prod.splits sum.splits)
  have "0 < c_overhead circ" using assms(2) aead_overhead unfolding wf_circuit_def by (metis list.set_sel(1))
  then have "0 \<le> int (length (c_hops circ)) * c_overhead circ" by simp
  then have "k \<le> BodySize" using f(2) by linarith
  then show ?thesis using frame_rnd [OF f(1)] by linarith
qed

lemma client_delay_ok:
  assumes "BodySize + 8 + m \<le> length (rnd w)"
  obtains w1 where "client_delay c w = (Inr (), w1)" "BodySize + m \<le> length (rnd w1)"
  using that assms
  by (cases "cc_Jitter (cl_cfg c) \<le> 0"; cases "sint (word_of_int (cc_Jitter (cl_cfg c)) :: u64) \<le> 0")
    (auto simp: client_delay_def randomBelow_def readFull_def)

lemma client_delay_queue: "client_delay (c\<lparr>cl_queue := q\<rparr>) w = client_delay c w"
  by (simp add: client_delay_def)

lemma rate_readyD:
  assumes "rate_ready a s k c w"
  shows "scheduled (cl_cfg c)" "cl_covering c" "\<not> cl_closed c" "\<exists>offs links. wf_circuit (cl_circuit c) offs links"
    "cl_maxPayload c = MaxPayload (cl_circuit c)" "0 \<le> cl_maxPayload c" "\<forall>m \<in> set (ch_buf (cl_queue c)). int (length m) \<le> cl_maxPayload c"
    "sends (cl_conn c) a s" "aead_ok a" "deadlineOK (cl_raw c)" "k * frame_len a \<le> room (cl_raw c)"
    "unat (cl_sent c) + k \<le> 2 ^ 60" "k * (BodySize + 8) \<le> length (rnd w)"
  using assms unfolding rate_ready_def by blast+

text \<open>What a tick sends: the oldest message, or cover.\<close>

definition due :: "Client \<Rightarrow> bytes option" where
  "due c = (case ch_buf (cl_queue c) of [] \<Rightarrow> None | m # _ \<Rightarrow> Some m)"

definition after_tick :: "Conn \<Rightarrow> Raw \<Rightarrow> Client \<Rightarrow> Client" where
  "after_tick cn raw c =
     c\<lparr>cl_queue := (cl_queue c)\<lparr>ch_buf := tl (ch_buf (cl_queue c))\<rparr>, cl_sent := cl_sent c + 1, cl_conn := cn, cl_raw := raw\<rparr>"

lemma coverTurn_tick:
  assumes r: "rate_ready a s (Suc k) c w"
  obtains cell cn w' where
    "coverTurn False c w = (after_tick cn ((cl_raw c)\<lparr>outbox := outbox (cl_raw c) @ frames a s [cell], room := room (cl_raw c) - frame_len a\<rparr>) c, w')"
    "sealed_as (cl_circuit c) (cl_sent c) (due c) cell" "wf_cell cell" "sends cn a (s + 1)" "k * (BodySize + 8) \<le> length (rnd w')"
proof -
  note R = rate_readyD [OF r]
  obtain offs links where wf: "wf_circuit (cl_circuit c) offs links" using R(4) by blast
  obtain w1 where w1: "client_delay c w = (Inr (), w1)" "BodySize + k * (BodySize + 8) \<le> length (rnd w1)"
    by (rule client_delay_ok [of "k * (BodySize + 8)"]) (use R(13) in simp)
  let ?m = "case due c of None \<Rightarrow> [] | Some b \<Rightarrow> b"
  have len: "int (length ?m) \<le> MaxPayload (cl_circuit c)" using R(5,6,7) by (cases "ch_buf (cl_queue c)") (auto simp: due_def)
  have lim: "cl_sent c < cellLimit" using R(12) by (simp add: word_less_nat_alt cellLimit_val)
  obtain cell w2 where seal: "Circuit_seal (cl_circuit c) (cl_sent c) ?m (due c = None) w1 = (Inr cell, w2)"
    using Circuit_seal_ok [OF wf len lim] w1(2) by (meson add_leD1)
  have cell: "wf_cell cell" using seal_numbered [OF seal] by (simp add: data_cell_def)
  let ?raw = "(cl_raw c)\<lparr>outbox := outbox (cl_raw c) @ frames a s [cell], room := room (cl_raw c) - frame_len a\<rparr>"
  have "frame_len a \<le> room (cl_raw c)" using R(11) by simp
  then obtain cn where wr: "WriteCell cell (cl_conn c) (cl_raw c) = (Inr (), cn, ?raw)" "sends cn a (s + 1)"
    using WriteCell_sends [OF R(8,9) cell _ R(10)] unfolding frame_len_def by blast
  have send: "client_send (due c = None) ?m (c\<lparr>cl_queue := q\<rparr>) w = (Inr (), c\<lparr>cl_queue := q, cl_sent := cl_sent c + 1, cl_conn := cn, cl_raw := ?raw\<rparr>, w2)" for q
    using R(3) w1(1) seal wr(1)
    by (cases "due c") (simp_all add: client_send_def sendEnter_def sendCell_def client_delay_queue Let_def Seal_def SealCover_def)
  have same: "c\<lparr>cl_queue := cl_queue c\<rparr> = c" by (cases c) simp
  have "scheduleTick c w = (after_tick cn ?raw c, w2)"
  proof (cases "ch_buf (cl_queue c)")
    case Nil
    then have "(cl_queue c)\<lparr>ch_buf := []\<rparr> = cl_queue c" by (cases "cl_queue c") simp
    then show ?thesis using send [of "cl_queue c"] Nil same by (simp add: scheduleTick_def try_recv_def after_tick_def due_def)
  next
    case (Cons m ms)
    then show ?thesis using send [of "(cl_queue c)\<lparr>ch_buf := ms\<rparr>"] by (simp add: scheduleTick_def try_recv_def after_tick_def due_def)
  qed
  moreover have "sealed_as (cl_circuit c) (cl_sent c) (due c) cell" using seal by (auto simp: sealed_as_def)
  moreover have "k * (BodySize + 8) \<le> length (rnd w2)" using Circuit_seal_rnd [OF seal wf] w1(2) by simp
  ultimately show ?thesis using that R(1,2) cell wr(2) by (simp add: coverTurn_def)
qed

lemma rate_ready_tick:
  assumes "rate_ready a s (Suc k) c w" "sends cn a (s + 1)" "k * (BodySize + 8) \<le> length (rnd w')"
  shows "rate_ready a (s + 1) k (after_tick cn ((cl_raw c)\<lparr>outbox := out, room := room (cl_raw c) - frame_len a\<rparr>) c) w'"
proof -
  note R = rate_readyD [OF assms(1)]
  have "unat (cl_sent c + 1) = Suc (unat (cl_sent c))"
    using R(12) by (simp add: unat_word_ariths)
  moreover have "\<forall>m \<in> set (tl (ch_buf (cl_queue c))). int (length m) \<le> cl_maxPayload c"
    using R(7) by (cases "ch_buf (cl_queue c)") auto
  ultimately show ?thesis using R assms(2,3) by (simp add: rate_ready_def after_tick_def)
qed

section \<open>A run of sends and ticks\<close>

text \<open>\<open>Some m\<close> is a call \<^verbatim>\<open>Send(m)\<close>, \<open>None\<close> a tick of the schedule.\<close>

fun client_script :: "bytes option list \<Rightarrow> Client \<Rightarrow> world \<Rightarrow> Client \<times> world" where
  "client_script [] c w = (c, w)"
| "client_script (Some m # es) c w = (case client_Send m c w of (r, c, w) \<Rightarrow> client_script es c w)"
| "client_script (None # es) c w = (case coverTurn False c w of (c, w) \<Rightarrow> client_script es c w)"

definition tick_count :: "'a option list \<Rightarrow> nat" where
  "tick_count es = length (filter (\<lambda>e. e = None) es)"

primrec messages :: "'a option list \<Rightarrow> 'a list" where
  "messages [] = []"
| "messages (e # es) = (case e of None \<Rightarrow> messages es | Some m \<Rightarrow> m # messages es)"

lemma run_takes: "ch.run es q = (ins, outs, q') \<Longrightarrow> subseq ins (messages es)"
  by (induction es arbitrary: q ins outs) (fastforce intro: list_emb_Cons split: option.splits prod.splits if_splits)+

lemma client_Send_queued:
  assumes "rate_ready a s k c w" "int (length m) \<le> cl_maxPayload c" "try_send m (cl_queue c) = (ok, q)"
  obtains c' where "client_Send m c w = (Inr (), c', w)" "cl_queue c' = q" "rate_ready a s k c' w" "cl_sent c' = cl_sent c"
    "cl_circuit c' = cl_circuit c" "cl_raw c' = cl_raw c" "cl_maxPayload c' = cl_maxPayload c"
proof -
  note R = rate_readyD [OF assms(1)]
  have q: "set (ch_buf q) \<subseteq> insert m (set (ch_buf (cl_queue c)))" "\<not> ok \<longrightarrow> q = cl_queue c"
    using assms(3) by (auto simp: try_send_def split: if_splits)
  let ?c = "if ok then c\<lparr>cl_queue := q\<rparr> else c\<lparr>cl_dropped := cl_dropped c + 1\<rparr>"
  have "client_Send m c w = (Inr (), ?c, w)"
    using assms(2,3) R(1) by (simp add: client_Send_def enqueue_def)
  moreover have "rate_ready a s k ?c w" using assms(1,2) q(1) by (auto simp: rate_ready_def)
  ultimately show ?thesis using that [of ?c] q(2) by simp
qed

text \<open>The messages of the cells, per tick, numbered on from \<open>n\<close>.\<close>

fun sealed_run :: "Circuit \<Rightarrow> u64 \<Rightarrow> bytes option list \<Rightarrow> Cell list \<Rightarrow> bool" where
  "sealed_run circ n [] [] \<longleftrightarrow> True"
| "sealed_run circ n (m # ms) (x # xs) \<longleftrightarrow> sealed_as circ n m x \<and> wf_cell x \<and> sealed_run circ (n + 1) ms xs"
| "sealed_run circ n _ _ \<longleftrightarrow> False"

lemma sealed_run_length: "sealed_run circ n ms xs \<Longrightarrow> length ms = length xs \<and> (\<forall>x \<in> set xs. wf_cell x)"
  by (induction circ n ms xs rule: sealed_run.induct) auto

lemma client_script_frames:
  assumes "rate_ready a s (tick_count es) c w" "\<forall>m. Some m \<in> set es \<longrightarrow> int (length m) \<le> cl_maxPayload c"
  shows "\<exists>c' w' ms cells ins outs. client_script es c w = (c', w') \<and> ch.run es (cl_queue c) = (ins, outs, cl_queue c')
    \<and> sealed_run (cl_circuit c) (cl_sent c) ms cells \<and> length cells = tick_count es
    \<and> outbox (cl_raw c') = outbox (cl_raw c) @ frames a s cells \<and> messages ms = outs"
  using assms
proof (induction es arbitrary: c w s)
  case Nil
  show ?case by (intro exI [of _ c] exI [of _ w] exI [of _ "[]"]) (simp add: tick_count_def)
next
  case (Cons e es)
  show ?case
  proof (cases e)
    case (Some m)
    obtain ok q where t: "try_send m (cl_queue c) = (ok, q)" by (meson surj_pair)
    have k: "tick_count (e # es) = tick_count es" and m: "int (length m) \<le> cl_maxPayload c"
      using Cons.prems(2) Some by (simp_all add: tick_count_def)
    obtain c1 where c1: "client_Send m c w = (Inr (), c1, w)" "cl_queue c1 = q" "rate_ready a s (tick_count es) c1 w"
      "cl_sent c1 = cl_sent c" "cl_circuit c1 = cl_circuit c" "cl_raw c1 = cl_raw c" "cl_maxPayload c1 = cl_maxPayload c"
      by (rule client_Send_queued [OF Cons.prems(1) [unfolded k] m t])
    obtain c' w' ms cells ins outs where ih: "client_script es c1 w = (c', w')" "ch.run es q = (ins, outs, cl_queue c')"
      "sealed_run (cl_circuit c) (cl_sent c) ms cells" "length cells = tick_count es"
      "outbox (cl_raw c') = outbox (cl_raw c) @ frames a s cells" "messages ms = outs"
      using Cons.IH [OF c1(3)] Cons.prems(2) c1 by auto
    have "client_script (e # es) c w = (c', w')" "ch.run (e # es) (cl_queue c) = (if ok then m # ins else ins, outs, cl_queue c')"
      using c1(1) ih(1,2) Some t by simp_all
    then show ?thesis using ih(3-6) k by metis
  next
    case None
    have k: "tick_count (e # es) = Suc (tick_count es)" using None by (simp add: tick_count_def)
    obtain cell cn w1 where tk:
      "coverTurn False c w = (after_tick cn ((cl_raw c)\<lparr>outbox := outbox (cl_raw c) @ frames a s [cell], room := room (cl_raw c) - frame_len a\<rparr>) c, w1)"
      "sealed_as (cl_circuit c) (cl_sent c) (due c) cell" "wf_cell cell" "sends cn a (s + 1)" "tick_count es * (BodySize + 8) \<le> length (rnd w1)"
      by (rule coverTurn_tick [OF Cons.prems(1) [unfolded k]])
    let ?c = "after_tick cn ((cl_raw c)\<lparr>outbox := outbox (cl_raw c) @ frames a s [cell], room := room (cl_raw c) - frame_len a\<rparr>) c"
    have ready: "rate_ready a (s + 1) (tick_count es) ?c w1"
      by (rule rate_ready_tick [OF Cons.prems(1) [unfolded k] tk(4,5)])
    have c: "cl_circuit ?c = cl_circuit c" "cl_sent ?c = cl_sent c + 1" "cl_maxPayload ?c = cl_maxPayload c"
      "cl_queue ?c = (cl_queue c)\<lparr>ch_buf := tl (ch_buf (cl_queue c))\<rparr>" "outbox (cl_raw ?c) = outbox (cl_raw c) @ frames a s [cell]"
      by (simp_all add: after_tick_def)
    obtain c' w' ms cells ins outs where ih: "client_script es ?c w1 = (c', w')" "ch.run es (cl_queue ?c) = (ins, outs, cl_queue c')"
      "sealed_run (cl_circuit c) (cl_sent c + 1) ms cells" "length cells = tick_count es"
      "outbox (cl_raw c') = outbox (cl_raw ?c) @ frames a (s + 1) cells" "messages ms = outs"
      using Cons.IH [OF ready] Cons.prems(2) c(1-3) by auto
    have "client_script (e # es) c w = (c', w')" using tk(1) ih(1) None by simp
    moreover have "ch.run (e # es) (cl_queue c) = (ins, (case due c of None \<Rightarrow> outs | Some m \<Rightarrow> m # outs), cl_queue c')"
    proof (cases "ch_buf (cl_queue c)")
      case Nil
      then have "cl_queue ?c = cl_queue c" using c(4) by (cases "cl_queue c") simp
      then show ?thesis using ih(2) Nil None by (simp add: try_recv_def due_def)
    next
      case (Cons m ms')
      then show ?thesis using ih(2) None c(4) by (simp add: try_recv_def due_def)
    qed
    moreover have "sealed_run (cl_circuit c) (cl_sent c) (due c # ms) (cell # cells)" using tk(2,3) ih(3) by simp
    moreover have "outbox (cl_raw c') = outbox (cl_raw c) @ frames a s (cell # cells)" using ih(5) c(5) by simp
    moreover have "messages (due c # ms) = (case due c of None \<Rightarrow> outs | Some m \<Rightarrow> m # outs)"
      using ih(6) by (cases "due c") (simp_all)
    ultimately show ?thesis using ih(4) k by (metis length_Cons)
  qed
qed

text \<open>
  C18: in the constant-rate mode the entry link shows the clock and nothing of the conversation:
  whatever messages are handed to \<^verbatim>\<open>Send\<close> and whenever, a run with \<open>k\<close> ticks writes exactly \<open>k\<close> frames
  of one size, each a data cell under the next number. The messages taken are sent in order, one per
  cell, with cover in the other cells; what was not sent yet waits in the queue, which keeps its bound.
\<close>

theorem client_constant_rate:
  assumes "rate_ready a s (tick_count es) c w" "\<forall>m. Some m \<in> set es \<longrightarrow> int (length m) \<le> cl_maxPayload c"
    and "length (ch_buf (cl_queue c)) \<le> ch_cap (cl_queue c)"
  shows "\<exists>c' w' ms cells ins. client_script es c w = (c', w')
    \<and> sealed_run (cl_circuit c) (cl_sent c) ms cells \<and> length cells = tick_count es
    \<and> outbox (cl_raw c') = outbox (cl_raw c) @ frames a s cells
    \<and> length (outbox (cl_raw c')) = length (outbox (cl_raw c)) + tick_count es * frame_len a
    \<and> ch_buf (cl_queue c) @ ins = messages ms @ ch_buf (cl_queue c') \<and> subseq ins (messages es)
    \<and> length (ch_buf (cl_queue c')) \<le> ch_cap (cl_queue c)"
proof -
  obtain c' w' ms cells ins outs where r: "client_script es c w = (c', w')" "ch.run es (cl_queue c) = (ins, outs, cl_queue c')"
    "sealed_run (cl_circuit c) (cl_sent c) ms cells" "length cells = tick_count es"
    "outbox (cl_raw c') = outbox (cl_raw c) @ frames a s cells" "messages ms = outs"
    using client_script_frames [OF assms(1,2)] by blast
  have "length (frames a s cells) = tick_count es * frame_len a"
    using frames_length [OF rate_readyD(9) [OF assms(1)]] sealed_run_length [OF r(3)] r(4) by metis
  then show ?thesis
    using r ch.run_in_order [OF r(2)] ch.run_bounded [OF r(2) assms(3)] run_takes [OF r(2)]
    by (intro exI [of _ c'] exI [of _ w'] exI [of _ ms] exI [of _ cells] exI [of _ ins]) simp
qed

definition sampleClient :: Client where
  "sampleClient = startSchedule (newClient sampleClientConfig sampleConn sampleRaw sampleCircuit sampleKeys 11)"

lemma sample_rate_ready: "rate_ready sampleAEAD 5 2 sampleClient sampleWorld"
proof -
  have "wf_circuit sampleCircuit sampleOffsets sampleLinks"
    using NewCircuit_wf(1) [OF sampleCircuit_ok(1) sampleSuite_aeads] .
  moreover have "sends sampleConn sampleAEAD 5" "deadlineOK sampleRaw" "2 * frame_len sampleAEAD \<le> room sampleRaw"
    by (simp_all add: sends_def sampleConn_def sampleRaw_def frame_len_def CellSize_def) (simp_all add: sampleAEAD_def)
  ultimately show ?thesis
    using sampleAEAD_ok sampleCircuit_ok(2)
    by (auto simp: rate_ready_def sampleClient_def startSchedule_def newClient_def make_chan_def scheduled_def sampleClientConfig_def
        BodySize_val sampleWorld_def)
qed

theorem client_constant_rate_witness:
  "\<exists>c' w' ms cells. client_script [Some [1, 2], None, Some [3], None] sampleClient sampleWorld = (c', w')
    \<and> sealed_run (cl_circuit sampleClient) 0 ms cells \<and> length cells = 2
    \<and> length (outbox (cl_raw c')) = 2 * frame_len sampleAEAD"
proof -
  have s: "cl_sent sampleClient = 0" "outbox (cl_raw sampleClient) = []" "cl_maxPayload sampleClient = MaxPayload sampleCircuit" "ch_buf (cl_queue sampleClient) = []"
    by (simp_all add: sampleClient_def startSchedule_def newClient_def sampleRaw_def make_chan_def)
  let ?es = "[Some [1, 2], None, Some [3], None] :: bytes option list"
  have t: "tick_count ?es = 2" by (simp add: tick_count_def)
  have "\<exists>c' w' ms cells ins. client_script ?es sampleClient sampleWorld = (c', w')
    \<and> sealed_run (cl_circuit sampleClient) (cl_sent sampleClient) ms cells \<and> length cells = tick_count ?es
    \<and> outbox (cl_raw c') = outbox (cl_raw sampleClient) @ frames sampleAEAD 5 cells
    \<and> length (outbox (cl_raw c')) = length (outbox (cl_raw sampleClient)) + tick_count ?es * frame_len sampleAEAD
    \<and> ch_buf (cl_queue sampleClient) @ ins = messages ms @ ch_buf (cl_queue c') \<and> subseq ins (messages ?es)
    \<and> length (ch_buf (cl_queue c')) \<le> ch_cap (cl_queue sampleClient)"
    by (rule client_constant_rate) (use sample_rate_ready t s sampleCircuit_ok(2) in auto)
  then show ?thesis unfolding s t by (elim exE conjE, intro exI conjI) (assumption | simp only: list.size add_0)+
qed

end
