(* ===== verification/Choose.thy ===== *)
theory Choose
  imports Prelude
begin

text \<open>
  \<^verbatim>\<open>client/choose.go\<close>: the draw of a path, entry first, and the verdict on the mirror of an entry.
  The random source is the bytes it still gives. \<open>fyStep\<close> is the loop of \<^verbatim>\<open>ChooseRest\<close> on numbers
  already drawn; the theorems show that a draw is unbiased and that the numbers drawn and the
  ordered paths correspond one to one, so every path is equally likely when the source is uniform.
\<close>

section \<open>Drawing a number\<close>

definition maxDraws :: nat where "maxDraws = 128"

definition readBytes :: "nat \<Rightarrow> bytes \<Rightarrow> bytes result \<times> bytes" where
  "readBytes n rd = (if n \<le> length rd then (Inr (take n rd), drop n rd) else (Inl ErrRandom, []))"

fun drawLoop :: "nat \<Rightarrow> u64 \<Rightarrow> u64 \<Rightarrow> bytes \<Rightarrow> int result \<times> bytes" where
  "drawLoop 0 bound reject rd = (Inl ErrChoice, rd)"
| "drawLoop (Suc k) bound reject rd =
     (case readBytes 8 rd of
        (Inl e, rd) \<Rightarrow> (Inl e, rd)
      | (Inr b, rd) \<Rightarrow>
          (let v = Uint64 b in
           if v \<ge> reject then (Inr (sint (v mod bound)), rd) else drawLoop k bound reject rd))"

definition below :: "bytes \<Rightarrow> int \<Rightarrow> int result \<times> bytes" where
  "below rd m =
     (let bound = (word_of_int m :: u64); reject = (- bound) mod bound in drawLoop maxDraws bound reject rd)"

section \<open>Paths\<close>

definition ChooseEntry :: "int \<Rightarrow> bytes \<Rightarrow> int result \<times> bytes" where
  "ChooseEntry n rd = (if n < 1 then (Inl ErrChoice, rd) else below rd n)"

definition swap :: "nat \<Rightarrow> nat \<Rightarrow> int list \<Rightarrow> int list" where
  "swap i j xs = xs[i := xs ! j, j := xs ! i]"

text \<open>The loop of \<^verbatim>\<open>ChooseRest\<close> from step \<open>i\<close>, with \<open>k\<close> steps to go.\<close>

fun restLoop :: "nat \<Rightarrow> nat \<Rightarrow> int list \<Rightarrow> int list \<Rightarrow> bytes \<Rightarrow> int list result \<times> bytes" where
  "restLoop 0 i others path rd = (Inr path, rd)"
| "restLoop (Suc k) i others path rd =
     (case below rd (int (length others) - int i) of
        (Inl e, rd) \<Rightarrow> (Inl e, rd)
      | (Inr j, rd) \<Rightarrow>
          (let others = swap i (i + nat j) others in restLoop k (i + 1) others (path @ [others ! i]) rd))"

definition ChooseRest :: "int \<Rightarrow> int \<Rightarrow> int \<Rightarrow> bytes \<Rightarrow> int list result \<times> bytes" where
  "ChooseRest entry n hops rd =
     (if hops < 1 \<or> hops > n \<or> entry < 0 \<or> entry \<ge> n then (Inl ErrChoice, rd)
      else restLoop (nat (hops - 1)) 0 (filter (\<lambda>i. i \<noteq> entry) [0..n - 1]) [entry] rd)"

definition Choose :: "int \<Rightarrow> int \<Rightarrow> bytes \<Rightarrow> int list result \<times> bytes" where
  "Choose n hops rd =
     (if hops < 1 \<or> hops > n then (Inl ErrChoice, rd)
      else
        case ChooseEntry n rd of
          (Inl e, rd) \<Rightarrow> (Inl e, rd)
        | (Inr entry, rd) \<Rightarrow> ChooseRest entry n hops rd)"

section \<open>Mirrors\<close>

definition MaxAbsent :: "int \<Rightarrow> int \<Rightarrow> int \<Rightarrow> int" where
  "MaxAbsent n hops missing = min missing (n - hops)"

datatype MirrorVerdict = MirrorTaken | MirrorLacksEntry | MirrorLacksTooMany

definition JudgeMirror :: "bool list \<Rightarrow> int \<Rightarrow> int \<Rightarrow> int \<Rightarrow> MirrorVerdict \<times> int \<times> int" where
  "JudgeMirror served entry hops missing =
     (let absent = int (length (filter Not served));
          allowed = MaxAbsent (int (length served)) hops missing
      in if entry < 0 \<or> entry \<ge> int (length served) \<or> \<not> served ! nat entry then (MirrorLacksEntry, absent, allowed)
         else if absent > allowed then (MirrorLacksTooMany, absent, allowed)
         else (MirrorTaken, absent, allowed))"

section \<open>A draw is unbiased\<close>

text \<open>The threshold as a number: the first \<open>2 ^ 64 mod m\<close> values are thrown away.\<close>

definition rejected :: "nat \<Rightarrow> nat" where
  "rejected m = (2 ^ 64 - m) mod m"

lemma rejected_eq: "0 < m \<Longrightarrow> m \<le> 2 ^ 64 \<Longrightarrow> rejected m = 2 ^ 64 mod m"
  by (simp add: rejected_def le_mod_geq)

lemma unat_bound: "0 < m \<Longrightarrow> m < 2 ^ 63 \<Longrightarrow> unat (word_of_int m :: u64) = nat m"
  by (simp add: unat_eq_nat_uint uint_word_of_int)

lemma unat_reject:
  assumes "0 < m" "m < 2 ^ 63"
  shows "unat ((- word_of_int m) mod (word_of_int m :: u64)) = rejected (nat m)"
proof -
  have "uint (- (word_of_int m :: u64)) = (- m) mod 2 ^ 64"
    using assms by (simp add: uint_word_ariths uint_word_of_int mod_minus_eq)
  also have "\<dots> = 2 ^ 64 - m" using assms by (simp add: zmod_zminus1_eq_if)
  finally have "unat (- (word_of_int m :: u64)) = 2 ^ 64 - nat m"
    using assms by (simp add: unat_eq_nat_uint nat_diff_distrib)
  then show ?thesis using unat_bound [OF assms] by (simp add: unat_mod_distrib rejected_def)
qed

lemma sint_small:
  assumes "unat (w :: u64) < 2 ^ 63"
  shows "sint w = int (unat w)"
proof -
  have "int (unat w) < int (2 ^ 63)" using assms by (simp only: of_nat_less_iff)
  then have u: "uint w < 2 ^ 63" by (simp only: of_nat_unat of_nat_power of_nat_numeral)
  have "- (2 ^ 63) \<le> uint w" by (rule order_trans [of _ 0]) simp_all
  then have "signed_take_bit 63 (uint w) = uint w" using u by (intro signed_take_bit_int_eq_self)
  then show ?thesis by (simp add: sint_uint)
qed

lemma card_residues:
  assumes "v < (m :: nat)"
  shows "card {x. x < q * m \<and> x mod m = v} = q"
proof -
  have "{x. x < q * m \<and> x mod m = v} = (\<lambda>k. k * m + v) ` {..<q}"
  proof (intro equalityI subsetI)
    fix x assume "x \<in> {x. x < q * m \<and> x mod m = v}"
    then have "x = (x div m) * m + v" "x div m < q" by (auto simp: less_mult_imp_div_less)
    then show "x \<in> (\<lambda>k. k * m + v) ` {..<q}" by blast
  next
    fix x assume "x \<in> (\<lambda>k. k * m + v) ` {..<q}"
    then obtain k where k: "k < q" "x = k * m + v" by auto
    have "k * m + v < (k + 1) * m" using assms by simp
    also have "\<dots> \<le> q * m" using k(1) by (intro mult_le_mono1) simp
    finally show "x \<in> {x. x < q * m \<and> x mod m = v}" using k(2) assms by simp
  qed
  moreover have "inj_on (\<lambda>k. k * m + v) {..<q}" using assms by (auto simp: inj_on_def)
  ultimately show ?thesis by (simp add: card_image)
qed

lemma shifted_residue:
  assumes "v < (m :: nat)" "r < m"
  shows "(y + r) mod m = v \<longleftrightarrow> y mod m = (v + m - r) mod m"
proof
  assume "(y + r) mod m = v"
  then have "(y + r + (m - r)) mod m = (v + (m - r)) mod m" by (metis mod_add_left_eq)
  then show "y mod m = (v + m - r) mod m" using assms by simp
next
  assume "y mod m = (v + m - r) mod m"
  then have "(y + r) mod m = (v + m - r + r) mod m" by (metis mod_add_left_eq)
  then show "(y + r) mod m = v" using assms by simp
qed

lemma card_accepted:
  assumes "v < m" "0 < m" "m < 2 ^ 63"
  shows "card {x. rejected m \<le> x \<and> x < (2 ^ 64 :: nat) \<and> x mod m = v} = 2 ^ 64 div m"
proof -
  let ?r = "rejected m" and ?q = "2 ^ 64 div m :: nat"
  have r: "?r < m" using assms(2) by (simp add: rejected_def)
  have total: "?q * m + ?r = 2 ^ 64" using rejected_eq [OF assms(2)] assms(3) by simp
  have "{x. ?r \<le> x \<and> x < 2 ^ 64 \<and> x mod m = v} = (\<lambda>y. y + ?r) ` {y. y < ?q * m \<and> y mod m = (v + m - ?r) mod m}"
  proof (intro equalityI subsetI)
    fix x assume "x \<in> {x. ?r \<le> x \<and> x < 2 ^ 64 \<and> x mod m = v}"
    then have "?r \<le> x" "x < 2 ^ 64" "x mod m = v" by simp_all
    then have "x = (x - ?r) + ?r" "x - ?r < ?q * m" "(x - ?r) mod m = (v + m - ?r) mod m"
      using total shifted_residue [OF assms(1) r, of "x - ?r"] by (simp_all del: rejected_eq)
    then show "x \<in> (\<lambda>y. y + ?r) ` {y. y < ?q * m \<and> y mod m = (v + m - ?r) mod m}" by blast
  next
    fix x assume "x \<in> (\<lambda>y. y + ?r) ` {y. y < ?q * m \<and> y mod m = (v + m - ?r) mod m}"
    then obtain y where y: "y < ?q * m" "y mod m = (v + m - ?r) mod m" "x = y + ?r" by blast
    then show "x \<in> {x. ?r \<le> x \<and> x < 2 ^ 64 \<and> x mod m = v}"
      using total shifted_residue [OF assms(1) r, of y] by simp
  qed
  moreover have "card ((\<lambda>y. y + ?r) ` {y. y < ?q * m \<and> y mod m = (v + m - ?r) mod m}) = ?q"
    using card_residues [of "(v + m - ?r) mod m" m ?q] assms(2) by (subst card_image) simp_all
  ultimately show ?thesis by simp
qed

text \<open>
  A draw below \<open>m\<close> is unbiased: among the 64-bit values that are not thrown away, each result
  from 0 to \<open>m - 1\<close> is given by the same number of values, \<open>2 ^ 64\<close> divided by \<open>m\<close>, rounded down.
\<close>

theorem draw_unbiased:
  assumes "0 < m" "m < 2 ^ 63" "0 \<le> v" "v < m"
  shows "card {x :: u64. x \<ge> (- word_of_int m) mod word_of_int m \<and> sint (x mod word_of_int m) = v} = 2 ^ 64 div nat m"
proof -
  let ?A = "{x :: u64. x \<ge> (- word_of_int m) mod word_of_int m \<and> sint (x mod word_of_int m) = v}"
  have val: "sint (x mod word_of_int m) = v \<longleftrightarrow> unat x mod nat m = nat v" for x :: u64
  proof -
    have u: "unat (x mod word_of_int m) = unat x mod nat m" using unat_bound [OF assms(1,2)] by (simp add: unat_mod_distrib)
    then have "unat (x mod word_of_int m) < nat m" using assms(1) by simp
    then have "unat (x mod word_of_int m) < 2 ^ 63" using assms(2) by simp
    then have "sint (x mod word_of_int m) = int (unat (x mod word_of_int m))"
      by (rule sint_small)
    then show ?thesis using u assms(3) by auto
  qed
  have "unat ` ?A = {x. rejected (nat m) \<le> x \<and> x < 2 ^ 64 \<and> x mod nat m = nat v}"
  proof (intro equalityI subsetI)
    fix y assume "y \<in> unat ` ?A"
    then show "y \<in> {x. rejected (nat m) \<le> x \<and> x < 2 ^ 64 \<and> x mod nat m = nat v}"
      using val unat_reject [OF assms(1,2)] unat_lt [where 'a = 64] by (auto simp: word_le_nat_alt)
  next
    fix y assume y: "y \<in> {x. rejected (nat m) \<le> x \<and> x < 2 ^ 64 \<and> x mod nat m = nat v}"
    then have "unat (word_of_nat y :: u64) = y" by (simp add: unat_of_nat)
    then show "y \<in> unat ` ?A"
      using y val [of "word_of_nat y"] unat_reject [OF assms(1,2)] by (intro image_eqI [of _ _ "word_of_nat y"]) (simp_all add: word_le_nat_alt)
  qed
  moreover have "inj_on unat ?A" by (rule inj_onI) (simp add: word_unat_eq_iff)
  moreover have "nat v < nat m" "0 < nat m" "nat m < 2 ^ 63" using assms by simp_all
  ultimately have "card ?A = card {x. rejected (nat m) \<le> x \<and> x < (2 ^ 64 :: nat) \<and> x mod nat m = nat v}"
    using card_image [of unat ?A] by simp
  also have "\<dots> = 2 ^ 64 div nat m" by (rule card_accepted) (use assms in simp_all)
  finally show ?thesis .
qed

theorem draw_unbiased_witness:
  "card {x :: u64. x \<ge> (- word_of_int 3) mod word_of_int 3 \<and> sint (x mod word_of_int 3) = 2} = 6148914691236517205"
  using draw_unbiased [of 3 2] by simp

section \<open>Paths and draws correspond\<close>

text \<open>The loop of \<^verbatim>\<open>ChooseRest\<close> on the numbers \<open>js\<close>, and which numbers it can be given.\<close>

fun fyStep :: "nat \<Rightarrow> int list \<Rightarrow> nat list \<Rightarrow> int list" where
  "fyStep i others [] = []"
| "fyStep i others (j # js) = (let others = swap i (i + j) others in others ! i # fyStep (i + 1) others js)"

fun draws_ok :: "nat \<Rightarrow> nat list \<Rightarrow> bool" where
  "draws_ok n [] = True"
| "draws_ok n (j # js) \<longleftrightarrow> j < n \<and> draws_ok (n - 1) js"

text \<open>The elements still to be drawn after the one at position \<open>j\<close> was taken.\<close>

definition rest_of :: "nat \<Rightarrow> int list \<Rightarrow> int list" where
  "rest_of j ys = tl (swap 0 j ys)"

fun fy :: "int list \<Rightarrow> nat list \<Rightarrow> int list" where
  "fy ys [] = []"
| "fy ys (j # js) = ys ! j # fy (rest_of j ys) js"

lemma length_rest [simp]: "length (rest_of j ys) = length ys - 1"
  by (simp add: rest_of_def swap_def)

lemma set_tl_distinct: "distinct xs \<Longrightarrow> xs \<noteq> [] \<Longrightarrow> set (tl xs) = set xs - {hd xs}"
  by (cases xs) auto

lemma swap_distinct:
  assumes "j < length ys" "distinct ys"
  shows "distinct (swap 0 j ys)" "set (swap 0 j ys) = set ys" "hd (swap 0 j ys) = ys ! j" "swap 0 j ys \<noteq> []"
proof -
  have pos: "0 < length ys" using assms(1) by (rule le_less_trans [OF le0])
  then show "distinct (swap 0 j ys)" "set (swap 0 j ys) = set ys"
    unfolding swap_def using assms by (simp_all add: distinct_swap set_swap)
  show ne: "swap 0 j ys \<noteq> []" using assms(1) by (auto simp: swap_def)
  show "hd (swap 0 j ys) = ys ! j"
    using assms(1) pos unfolding hd_conv_nth [OF ne] by (cases "j = 0") (simp_all add: swap_def nth_list_update)
qed

lemma rest_of_distinct:
  assumes "j < length ys" "distinct ys"
  shows "distinct (rest_of j ys)" "set (rest_of j ys) = set ys - {ys ! j}"
  using swap_distinct [OF assms] set_tl_distinct [of "swap 0 j ys"] by (simp_all add: rest_of_def distinct_tl)

lemma drop_swap:
  assumes "i + j < length xs"
  shows "drop (Suc i) (swap i (i + j) xs) = rest_of j (drop i xs)" "swap i (i + j) xs ! i = drop i xs ! j"
proof -
  show "drop (Suc i) (swap i (i + j) xs) = rest_of j (drop i xs)"
    using assms by (intro nth_equalityI) (auto simp: rest_of_def swap_def nth_tl nth_list_update)
  show "swap i (i + j) xs ! i = drop i xs ! j"
    using assms by (simp add: swap_def nth_list_update)
qed

lemma fyStep_fy: "i + length js \<le> length others \<Longrightarrow> draws_ok (length others - i) js \<Longrightarrow> fyStep i others js = fy (drop i others) js"
proof (induction js arbitrary: i others)
  case (Cons j js)
  have j: "i + j < length others" using Cons.prems by auto
  have "fyStep (i + 1) (swap i (i + j) others) js = fy (drop (i + 1) (swap i (i + j) others)) js"
    using Cons.prems by (intro Cons.IH) (simp_all add: swap_def)
  then show ?case using drop_swap [OF j] by (simp add: Let_def)
qed simp

lemma fy_sound:
  assumes "distinct ys" "draws_ok (length ys) js"
  shows "distinct (fy ys js) \<and> set (fy ys js) \<subseteq> set ys \<and> length (fy ys js) = length js"
  using assms
proof (induction js arbitrary: ys)
  case (Cons j js)
  have j: "j < length ys" using Cons.prems by simp
  have "distinct (fy (rest_of j ys) js) \<and> set (fy (rest_of j ys) js) \<subseteq> set (rest_of j ys) \<and> length (fy (rest_of j ys) js) = length js"
    using Cons.IH [of "rest_of j ys"] rest_of_distinct [OF j Cons.prems(1)] Cons.prems by simp
  then show ?case using rest_of_distinct [OF j Cons.prems(1)] j by auto
qed simp

lemma fy_bijective:
  assumes "distinct ys" "distinct path" "set path \<subseteq> set ys"
  shows "\<exists>!js. draws_ok (length ys) js \<and> fy ys js = path"
  using assms
proof (induction path arbitrary: ys)
  case Nil
  have "fy ys js = [] \<Longrightarrow> js = []" for js by (cases js) simp_all
  then show ?case by (intro ex1I [of _ "[]"]) auto
next
  case (Cons p ps)
  obtain j where j: "j < length ys" "ys ! j = p" using Cons.prems(3) by (auto simp: in_set_conv_nth)
  have only: "k = j" if "k < length ys" "ys ! k = p" for k
    using that j Cons.prems(1) nth_eq_iff_index_eq by metis
  have "set ps \<subseteq> set (rest_of j ys)"
    using rest_of_distinct [OF j(1) Cons.prems(1)] Cons.prems(2,3) j(2) by auto
  then have "\<exists>!js. draws_ok (length (rest_of j ys)) js \<and> fy (rest_of j ys) js = ps"
    using rest_of_distinct [OF j(1) Cons.prems(1)] Cons.prems(2) by (intro Cons.IH) simp_all
  then obtain js where ex: "draws_ok (length (rest_of j ys)) js \<and> fy (rest_of j ys) js = ps"
    "\<forall>ks. draws_ok (length (rest_of j ys)) ks \<and> fy (rest_of j ys) ks = ps \<longrightarrow> ks = js"
    by (rule ex1E)
  have js: "draws_ok (length ys - 1) js" "fy (rest_of j ys) js = ps" using ex(1) by simp_all
  have uniq: "ks = js" if "draws_ok (length ys - 1) ks" "fy (rest_of j ys) ks = ps" for ks
    using ex(2) that by simp
  show ?case
  proof (intro ex1I [of _ "j # js"])
    show "draws_ok (length ys) (j # js) \<and> fy ys (j # js) = p # ps" using j js by simp
  next
    fix ks assume ks: "draws_ok (length ys) ks \<and> fy ys ks = p # ps"
    then obtain k ks' where k: "ks = k # ks'" by (cases ks) auto
    then show "ks = j # js" using ks only [of k] uniq [of ks'] by auto
  qed
qed

lemma drawLoop_range:
  assumes "drawLoop k bound reject rd = (Inr j, rd')" "0 < unat bound" "unat bound < 2 ^ 63"
  shows "0 \<le> j \<and> j < int (unat bound)"
  using assms
proof (induction k arbitrary: rd)
  case (Suc k)
  have "0 \<le> sint (v mod bound) \<and> sint (v mod bound) < int (unat bound)" for v
  proof -
    have "unat (v mod bound) < unat bound" using Suc.prems(2) by (simp add: unat_mod_distrib)
    moreover from this have "sint (v mod bound) = int (unat (v mod bound))" using Suc.prems(3) by (intro sint_small) simp
    ultimately show ?thesis by (simp only: of_nat_less_iff of_nat_0_le_iff simp_thms)
  qed
  then show ?case using Suc by (auto simp: Let_def split: prod.splits sum.splits if_splits)
qed simp

lemma below_range:
  assumes "below rd m = (Inr j, rd')" "0 < m" "m < 2 ^ 63"
  shows "0 \<le> j \<and> j < m"
  using drawLoop_range [of maxDraws "word_of_int m"] unat_bound [OF assms(2,3)] assms by (simp add: below_def Let_def)

lemma ChooseEntry_range: "ChooseEntry n rd = (Inr entry, rd') \<Longrightarrow> n < 2 ^ 63 \<Longrightarrow> 0 \<le> entry \<and> entry < n"
  using below_range by (auto simp: ChooseEntry_def split: if_splits)

lemma restLoop_draws:
  assumes "restLoop k i others path rd = (Inr out, rd')" "i + k \<le> length others" "length others < 2 ^ 63"
  shows "\<exists>js. length js = k \<and> draws_ok (length others - i) js \<and> out = path @ fyStep i others js"
  using assms
proof (induction k arbitrary: i others path rd)
  case (Suc k)
  let ?m = "int (length others) - int i"
  obtain j rd1 where j: "below rd ?m = (Inr j, rd1)"
    "restLoop k (i + 1) (swap i (i + nat j) others) (path @ [swap i (i + nat j) others ! i]) rd1 = (Inr out, rd')"
    using Suc.prems(1) by (auto simp: Let_def split: prod.splits sum.splits)
  have "0 < ?m" "?m < 2 ^ 63" using Suc.prems(2,3) by simp_all
  then have range: "0 \<le> j" "j < ?m" using below_range [OF j(1)] by simp_all
  obtain js where js: "length js = k" "draws_ok (length others - (i + 1)) js"
    "out = (path @ [swap i (i + nat j) others ! i]) @ fyStep (i + 1) (swap i (i + nat j) others) js"
    using Suc.IH [OF j(2)] Suc.prems(2,3) by (auto simp: swap_def)
  then have "draws_ok (length others - i) (nat j # js)" "out = path @ fyStep i others (nat j # js)"
    using range by (auto simp: Let_def)
  then show ?case using js(1) by (intro exI [of _ "nat j # js"]) simp
qed simp

lemma others_facts:
  assumes "0 \<le> entry" "entry < n"
  shows "distinct (filter (\<lambda>i. i \<noteq> entry) [0..n - 1])" "set (filter (\<lambda>i. i \<noteq> entry) [0..n - 1]) = {0..<n} - {entry}"
    "length (filter (\<lambda>i. i \<noteq> entry) [0..n - 1]) = nat n - 1"
proof -
  let ?o = "filter (\<lambda>i. i \<noteq> entry) [0..n - 1]"
  show d: "distinct ?o" and s: "set ?o = {0..<n} - {entry}" by auto
  have "card ({0..<n} - {entry}) = nat n - 1" using assms by simp
  then show "length ?o = nat n - 1" using distinct_card [OF d] s by simp
qed

lemma ChooseRest_path:
  assumes "ChooseRest entry n hops rd = (Inr path, rd')" "n < 2 ^ 63"
  shows "int (length path) = hops \<and> distinct path \<and> set path \<subseteq> {0..<n} \<and> hd path = entry"
proof -
  let ?o = "filter (\<lambda>i. i \<noteq> entry) [0..n - 1]"
  have g: "1 \<le> hops" "hops \<le> n" "0 \<le> entry" "entry < n"
    and l: "restLoop (nat (hops - 1)) 0 ?o [entry] rd = (Inr path, rd')"
    using assms(1) by (auto simp: ChooseRest_def split: if_splits)
  note o = others_facts [OF g(3,4)]
  have "0 + nat (hops - 1) \<le> length ?o" "length ?o < 2 ^ 63" using o(3) g assms(2) by auto
  then obtain js where js: "length js = nat (hops - 1)" "draws_ok (length ?o) js" "path = [entry] @ fyStep 0 ?o js"
    using restLoop_draws [OF l] by auto
  have "fyStep 0 ?o js = fy ?o js" using fyStep_fy [of 0 js ?o] js(1,2) o(3) g by simp
  then show ?thesis using fy_sound [OF o(1) js(2)] o(2) js g by auto
qed

text \<open>
  a path drawn has the length asked for, names only listed nodes and no node twice, for any
  number of nodes and hops and whatever the random source gives.
\<close>

theorem choose_path:
  assumes "Choose n hops rd = (Inr path, rd')" "n < 2 ^ 63"
  shows "int (length path) = hops \<and> distinct path \<and> set path \<subseteq> {0..<n}"
proof -
  obtain entry rd1 where "ChooseRest entry n hops rd1 = (Inr path, rd')"
    using assms(1) by (auto simp: Choose_def split: if_splits prod.splits sum.splits)
  then show ?thesis using ChooseRest_path assms(2) by blast
qed

text \<open>
  every ordered path is drawn by exactly one sequence of numbers: for a given entry, the numbers
  below \<open>n - 1\<close>, \<open>n - 2\<close>, and so on correspond one to one to the paths that start at the entry and
  name no node twice, so with unbiased draws all of them are equally likely.
\<close>

theorem paths_equally_likely:
  assumes "0 \<le> entry" "entry < n" "distinct path" "set path \<subseteq> {0..<n}" "path \<noteq> []" "hd path = entry"
  shows "\<exists>!js. draws_ok (nat n - 1) js \<and> length js = length path - 1
    \<and> entry # fyStep 0 (filter (\<lambda>i. i \<noteq> entry) [0..n - 1]) js = path"
proof -
  let ?o = "filter (\<lambda>i. i \<noteq> entry) [0..n - 1]"
  obtain ps where ps: "path = entry # ps" using assms(5,6) by (cases path) auto
  note o = others_facts [OF assms(1,2)]
  have "distinct ps" "set ps \<subseteq> set ?o" using assms(3,4) ps o(2) by auto
  then have ex: "\<exists>!js. draws_ok (length ?o) js \<and> fy ?o js = ps" using fy_bijective [OF o(1)] by blast
  have le: "length ps \<le> length ?o" using \<open>distinct ps\<close> \<open>set ps \<subseteq> set ?o\<close> distinct_card o(1) by (metis card_mono List.finite_set)
  have eq: "draws_ok (length ?o) js \<Longrightarrow> length js = length ps \<Longrightarrow> fyStep 0 ?o js = fy ?o js" for js
    using fyStep_fy [of 0 js ?o] le by simp
  have len: "draws_ok (length ?o) js \<Longrightarrow> fy ?o js = ps \<Longrightarrow> length js = length ps" for js
    using fy_sound [OF o(1)] by metis
  show ?thesis
    using ex eq len o(3) unfolding ps by (metis diff_Suc_1 length_Cons list.inject)
qed

theorem paths_equally_likely_witness:
  "\<exists>!js. draws_ok 3 js \<and> length js = 2 \<and> 1 # fyStep 0 (filter (\<lambda>i. i \<noteq> 1) [0..3]) js = [1, 3, 0]"
  using paths_equally_likely [of 1 4 "[1, 3, 0]"] by (simp add: numeral_2_eq_2)

lemma sample_choice: "Choose 3 2 [0, 0, 0, 0, 0, 0, 0, 5, 0, 0, 0, 0, 0, 0, 0, 1] = (Inr [2, 1], [])"
  by code_simp

theorem choose_path_witness:
  "Choose 3 2 [0, 0, 0, 0, 0, 0, 0, 5, 0, 0, 0, 0, 0, 0, 0, 1] = (Inr [2, 1], []) \<and> distinct [2, 1 :: int]"
  using choose_path [OF sample_choice] sample_choice by simp

section \<open>The verdict on a mirror\<close>

text \<open>
  A mirror a client takes holds the entry that served it and enough of the listed nodes to draw
  the rest: at most \<open>missing\<close> are absent and at least \<open>hops\<close> are there; and a mirror with these
  two properties is never refused.
\<close>

theorem mirror_verdict:
  assumes "0 \<le> entry" "entry < int (length served)"
  shows "fst (JudgeMirror served entry hops missing) = MirrorTaken \<longleftrightarrow>
    served ! nat entry \<and> int (length (filter Not served)) \<le> missing \<and> hops \<le> int (length (filter id served))"
proof -
  have "length served = length (filter id served) + length (filter Not served)"
    using sum_length_filter_compl [of id served] by (simp add: comp_def)
  then show ?thesis using assms by (auto simp: JudgeMirror_def MaxAbsent_def Let_def)
qed

theorem mirror_verdict_witness:
  "fst (JudgeMirror [True, False, True] 2 2 1) = MirrorTaken \<and> fst (JudgeMirror [True, False, True] 1 2 1) \<noteq> MirrorTaken"
  using mirror_verdict [of 2 "[True, False, True]" 2 1] mirror_verdict [of 1 "[True, False, True]" 2 1] by simp

end
