(* ===== verification/Lab.thy ===== *)
theory Lab
  imports Choose
begin

text \<open>
  \<^verbatim>\<open>lab/seed.go\<close>, \<^verbatim>\<open>lab/paths.go\<close> and \<^verbatim>\<open>lab/tap.go\<close>: the streams derived from a seed, the sampling of
  paths with the client's own draw and its rule for mirrors, the paths that survive nodes that do not
  extend, and the observer that counts frames on a link. The generator \<^verbatim>\<open>math/rand\<close> makes of a seed is
  the argument \<open>gen\<close>, the bytes it gives for as long as the run reads; the byte counts of \<^verbatim>\<open>Write\<close> and
  \<^verbatim>\<open>Read\<close>, which are never negative, are natural numbers.
\<close>

unbundle bit_operations_syntax

section \<open>Seeds\<close>

definition streamPhases :: u64 where "streamPhases = 1"

definition streamGaps :: u64 where "streamGaps = 2"

definition streamPaths :: u64 where "streamPaths = 3"

definition splitmix64 :: "u64 \<Rightarrow> u64" where
  "splitmix64 x =
     (let x = x + 0x9e3779b97f4a7c15;
          x = (x XOR drop_bit 30 x) * 0xbf58476d1ce4e5b9;
          x = (x XOR drop_bit 27 x) * 0x94d049bb133111eb
      in x XOR drop_bit 31 x)"

definition Derive :: "u64 \<Rightarrow> u64 list \<Rightarrow> u64" where
  "Derive seed parts = drop_bit 1 (splitmix64 (fold (\<lambda>p x. splitmix64 (x XOR splitmix64 p)) parts seed))"

section \<open>Sampling paths\<close>

fun sampleLoop :: "int \<Rightarrow> int \<Rightarrow> nat \<Rightarrow> bytes \<Rightarrow> int list list result \<times> bytes" where
  "sampleLoop nodes hops 0 rd = (Inr [], rd)"
| "sampleLoop nodes hops (Suc k) rd =
     (case Choose nodes hops rd of
        (Inl e, rd) \<Rightarrow> (Inl e, rd)
      | (Inr path, rd) \<Rightarrow>
          (case sampleLoop nodes hops k rd of
             (Inl e, rd) \<Rightarrow> (Inl e, rd)
           | (Inr paths, rd) \<Rightarrow> (Inr (path # paths), rd)))"

definition SamplePaths :: "(u64 \<Rightarrow> bytes) \<Rightarrow> int \<Rightarrow> int \<Rightarrow> int \<Rightarrow> u64 \<Rightarrow> int list list result" where
  "SamplePaths gen nodes hops samples seed =
     (if samples < 0 then Inl Panic else fst (sampleLoop nodes hops (nat samples) (gen (Derive seed [streamPaths]))))"

text \<open>What the first loop of \<^verbatim>\<open>SampleMirrorPaths\<close> keeps of the mirror of one entry.\<close>

definition heldNodes :: "bool list \<Rightarrow> int list" where
  "heldNodes mirror = map int (filter (\<lambda>i. mirror ! i) [0..<length mirror])"

definition placeOf :: "bool list \<Rightarrow> nat \<Rightarrow> nat" where
  "placeOf mirror entry = (if entry < length mirror \<and> mirror ! entry then length (filter (\<lambda>i. mirror ! i) [0..<entry]) else 0)"

definition mirrorTaken :: "int \<Rightarrow> int \<Rightarrow> bool list \<Rightarrow> nat \<Rightarrow> bool" where
  "mirrorTaken hops missing mirror entry \<longleftrightarrow> fst (JudgeMirror mirror (int entry) hops missing) = MirrorTaken"

text \<open>The loop over the samples; an index into \<^verbatim>\<open>held[entry]\<close> out of range panics.\<close>

fun pickAll :: "int list \<Rightarrow> int list \<Rightarrow> int list result" where
  "pickAll held [] = Inr []"
| "pickAll held (i # is) =
     (if i < 0 \<or> i \<ge> int (length held) then Inl Panic
      else case pickAll held is of Inl e \<Rightarrow> Inl e | Inr ns \<Rightarrow> Inr (held ! nat i # ns))"

fun mirrorLoop :: "bool list list \<Rightarrow> int \<Rightarrow> int \<Rightarrow> nat \<Rightarrow> bytes \<Rightarrow> (int list list \<times> nat) result \<times> bytes" where
  "mirrorLoop mirrors hops missing 0 rd = (Inr ([], 0), rd)"
| "mirrorLoop mirrors hops missing (Suc k) rd =
     (case ChooseEntry (int (length mirrors)) rd of
        (Inl e, rd) \<Rightarrow> (Inl e, rd)
      | (Inr entry, rd) \<Rightarrow>
          let mirror = mirrors ! nat entry; held = heldNodes mirror in
          if \<not> mirrorTaken hops missing mirror (nat entry) then
            (case mirrorLoop mirrors hops missing k rd of
               (Inl e, rd) \<Rightarrow> (Inl e, rd)
             | (Inr (paths, refused), rd) \<Rightarrow> (Inr (paths, refused + 1), rd))
          else
            (case ChooseRest (int (placeOf mirror (nat entry))) (int (length held)) hops rd of
               (Inl e, rd) \<Rightarrow> (Inl e, rd)
             | (Inr path, rd) \<Rightarrow>
                 (case pickAll held path of
                    Inl e \<Rightarrow> (Inl e, rd)
                  | Inr path \<Rightarrow>
                      (case mirrorLoop mirrors hops missing k rd of
                         (Inl e, rd) \<Rightarrow> (Inl e, rd)
                       | (Inr (paths, refused), rd) \<Rightarrow> (Inr (path # paths, refused), rd)))))"

definition SampleMirrorPaths ::
  "(u64 \<Rightarrow> bytes) \<Rightarrow> bool list list \<Rightarrow> int \<Rightarrow> int \<Rightarrow> int \<Rightarrow> u64 \<Rightarrow> (int list list \<times> nat) result" where
  "SampleMirrorPaths gen mirrors hops missing samples seed =
     (if hops < 1 \<or> hops > int (length mirrors) then Inl ErrChoice
      else if missing < 0 \<or> samples < 0 then Inl (Message ''must not be negative'')
      else if list_ex (\<lambda>m. length m \<noteq> length mirrors) mirrors then Inl (Message ''the mirror of a node covers another number of nodes'')
      else fst (mirrorLoop mirrors hops missing (nat samples) (gen (Derive seed [streamPaths]))))"

text \<open>\<^verbatim>\<open>SurvivingPaths\<close>: a node out of range is an error even on a path that already failed.\<close>

fun survives :: "bool list list \<Rightarrow> int option \<Rightarrow> int list \<Rightarrow> bool result" where
  "survives extends prev [] = Inr True"
| "survives extends prev (n # ns) =
     (if n < 0 \<or> n \<ge> int (length extends) then Inl (Message ''node on a path'')
      else
        case survives extends (Some n) ns of
          Inl e \<Rightarrow> Inl e
        | Inr b \<Rightarrow> Inr (b \<and> (case prev of None \<Rightarrow> True | Some m \<Rightarrow> extends ! nat m ! nat n)))"

fun survivors :: "bool list list \<Rightarrow> int list list \<Rightarrow> (int list list \<times> nat) result" where
  "survivors extends [] = Inr ([], 0)"
| "survivors extends (path # paths) =
     (case survives extends None path of
        Inl e \<Rightarrow> Inl e
      | Inr b \<Rightarrow>
          (case survivors extends paths of
             Inl e \<Rightarrow> Inl e
           | Inr (up, failed) \<Rightarrow> Inr (if b then (path # up, failed) else (up, failed + 1))))"

definition SurvivingPaths :: "int list list \<Rightarrow> bool list list \<Rightarrow> (int list list \<times> nat) result" where
  "SurvivingPaths paths extends =
     (if list_ex (\<lambda>row. length row \<noteq> length extends) extends then Inl (Message ''a row of another length'')
      else survivors extends paths)"

section \<open>The observer of a link\<close>

record Trace =
  t_start :: int
  t_events :: "int list"

definition NewTrace :: "int \<Rightarrow> Trace" where
  "NewTrace start = \<lparr>t_start = start, t_events = []\<rparr>"

definition Mark :: "int \<Rightarrow> Trace \<Rightarrow> Trace" where
  "Mark at t = t\<lparr>t_events := t_events t @ [at - t_start t]\<rparr>"

definition Trace_Len :: "Trace \<Rightarrow> nat" where
  "Trace_Len t = length (t_events t)"

record tap =
  tp_trace :: Trace
  tp_skip :: nat
  tp_frame :: nat
  tp_pending :: nat

text \<open>The loop of \<^verbatim>\<open>counter.count\<close>; it would not end for a frame of no bytes.\<close>

partial_function (option) markFrames :: "int \<Rightarrow> tap \<Rightarrow> tap option" where
  "markFrames now c =
     (if tp_pending c \<ge> tp_frame c
      then markFrames now (c\<lparr>tp_pending := tp_pending c - tp_frame c, tp_trace := Mark now (tp_trace c)\<rparr>)
      else Some c)"

definition tap_count :: "int \<Rightarrow> nat \<Rightarrow> tap \<Rightarrow> tap option" where
  "tap_count now n c =
     (let used = min n (tp_skip c) in
      markFrames now (c\<lparr>tp_skip := tp_skip c - used, tp_pending := tp_pending c + (n - used)\<rparr>))"

section \<open>Seeds do not collide\<close>

lemma xorshift_inj:
  fixes x y :: u64
  assumes "0 < k" "x XOR drop_bit k x = y XOR drop_bit k y"
  shows "x = y"
proof (rule bit_eqI)
  fix n
  have b: "(bit x n \<noteq> bit x (k + n)) = (bit y n \<noteq> bit y (k + n))" for n
    using arg_cong [OF assms(2), of "\<lambda>w. bit w n"] by (simp add: bit_xor_iff bit_drop_bit_eq)
  have "n \<le> 64 \<Longrightarrow> bit x m = bit y m" if "64 - n \<le> m" for m n
    using that
  proof (induction n arbitrary: m)
    case 0
    then show ?case by (auto dest!: bit_imp_le_length)
  next
    case (Suc n)
    show ?case
    proof (cases "64 - n \<le> m")
      case True
      then show ?thesis using Suc by simp
    next
      case False
      then have "64 - n \<le> k + m" using assms(1) Suc.prems by simp
      then have "bit x (k + m) = bit y (k + m)" using Suc by simp
      then show ?thesis using b [of m] by blast
    qed
  qed
  from this [of 64 n] show "bit x n \<longleftrightarrow> bit y n" by simp
qed

lemma mult_unit_inj: "a * b = 1 \<Longrightarrow> x * a = y * a \<Longrightarrow> x = (y :: u64)"
proof -
  assume u: "a * b = 1" and e: "x * a = y * a"
  have "x * (a * b) = y * (a * b)" unfolding mult.assoc [symmetric] e ..
  then show "x = y" by (simp only: u mult_1_right)
qed

lemma splitmix64_inj: "splitmix64 x = splitmix64 y \<Longrightarrow> x = y"
proof -
  assume e: "splitmix64 x = splitmix64 y"
  have u: "(0xbf58476d1ce4e5b9 :: u64) * 0x96de1b173f119089 = 1" "(0x94d049bb133111eb :: u64) * 0x319642b2d24d8ec3 = 1" by simp_all
  show "x = y"
    using e unfolding splitmix64_def Let_def
    by (auto dest!: xorshift_inj [rotated] mult_unit_inj [OF u(1)] mult_unit_inj [OF u(2)])
qed

section \<open>Full mirrors\<close>

lemma heldNodes_full: "heldNodes (replicate n True) = map int [0..<n]"
proof -
  have "filter (\<lambda>i. replicate n True ! i) [0..<n] = [0..<n]" by (rule filter_True) simp
  then show ?thesis by (simp add: heldNodes_def)
qed

lemma placeOf_full: "entry < n \<Longrightarrow> placeOf (replicate n True) entry = entry"
proof -
  assume "entry < n"
  then have "filter (\<lambda>i. replicate n True ! i) [0..<entry] = [0..<entry]" by (intro filter_True) auto
  then show ?thesis using \<open>entry < n\<close> by (simp add: placeOf_def)
qed

lemma mirrorTaken_full: "entry < n \<Longrightarrow> hops \<le> int n \<Longrightarrow> 0 \<le> missing \<Longrightarrow> mirrorTaken hops missing (replicate n True) entry"
  by (simp add: mirrorTaken_def JudgeMirror_def MaxAbsent_def Let_def)

lemma pickAll_full: "set path \<subseteq> {0..<int n} \<Longrightarrow> pickAll (map int [0..<n]) path = Inr path"
  by (induction path) auto

lemma mirrorLoop_full:
  assumes n: "int n < 2 ^ 63" and h: "1 \<le> hops" "hops \<le> int n" "0 \<le> missing"
  shows "mirrorLoop (replicate n (replicate n True)) hops missing k rd =
    (case sampleLoop (int n) hops k rd of (Inl e, rd) \<Rightarrow> (Inl e, rd) | (Inr paths, rd) \<Rightarrow> (Inr (paths, 0), rd))"
proof (induction k arbitrary: rd)
  case (Suc k)
  show ?case
  proof (cases "ChooseEntry (int n) rd")
    case e: (Pair r rd1)
    show ?thesis
    proof (cases r)
      case (Inl e')
      then show ?thesis using e h by (simp add: Choose_def)
    next
      case (Inr entry)
      have b: "0 \<le> entry" "entry < int n" using ChooseEntry_range [OF _ n] e Inr by auto
      then have m: "replicate n (replicate n True) ! nat entry = replicate n True" "nat entry < n" by auto
      have c: "Choose (int n) hops rd = ChooseRest entry (int n) hops rd1" using e Inr h by (simp add: Choose_def)
      have "pickAll (map int [0..<n]) path = Inr path" if "ChooseRest entry (int n) hops rd1 = (Inr path, rd2)" for path rd2
        using ChooseRest_path [OF that n] by (intro pickAll_full) blast
      then show ?thesis
        using e Inr b m c mirrorTaken_full [OF m(2) h(2,3)] Suc
        by (auto simp: heldNodes_full placeOf_full split: sum.splits prod.splits)
    qed
  qed
qed simp

text \<open>
  with full mirrors the sampling that judges mirrors draws exactly the paths of the sampling that
  knows no mirrors, for every seed, and refuses none.
\<close>

theorem full_mirrors_sample_alike:
  assumes "int n < 2 ^ 63" "1 \<le> hops" "hops \<le> int n" "0 \<le> missing" "0 \<le> samples"
  shows "SampleMirrorPaths gen (replicate n (replicate n True)) hops missing samples seed =
    (case SamplePaths gen (int n) hops samples seed of Inl e \<Rightarrow> Inl e | Inr paths \<Rightarrow> Inr (paths, 0))"
proof -
  have "\<not> list_ex (\<lambda>m. length m \<noteq> n) (replicate n (replicate n True))" by (auto simp: list_ex_iff)
  then show ?thesis
    using assms mirrorLoop_full [OF assms(1-4)] by (auto simp: SampleMirrorPaths_def SamplePaths_def split: sum.splits prod.splits)
qed

theorem full_mirrors_sample_alike_witness:
  "SampleMirrorPaths (\<lambda>_. [0, 0, 0, 0, 0, 0, 0, 5, 0, 0, 0, 0, 0, 0, 0, 1]) (replicate 3 (replicate 3 True)) 2 0 1 7 = Inr ([[2, 1]], 0)"
proof -
  have "SamplePaths (\<lambda>_. [0, 0, 0, 0, 0, 0, 0, 5, 0, 0, 0, 0, 0, 0, 0, 1]) 3 2 1 7 = Inr [[2, 1]]"
    by (simp add: SamplePaths_def sample_choice)
  then show ?thesis using full_mirrors_sample_alike [of 3 2 0 1 "\<lambda>_. [0, 0, 0, 0, 0, 0, 0, 5, 0, 0, 0, 0, 0, 0, 0, 1]" 7] by simp
qed

section \<open>The observer counts cells\<close>

lemma markFrames_counts:
  assumes "0 < tp_frame c"
  shows "\<exists>es. markFrames now c = Some (c\<lparr>tp_pending := tp_pending c mod tp_frame c,
      tp_trace := (tp_trace c)\<lparr>t_events := t_events (tp_trace c) @ es\<rparr>\<rparr>)
    \<and> es = replicate (tp_pending c div tp_frame c) (now - t_start (tp_trace c))"
  using assms
proof (induction "tp_pending c" arbitrary: c rule: less_induct)
  case less
  show ?case
  proof (cases "tp_pending c < tp_frame c")
    case True
    then show ?thesis by (subst markFrames.simps) (cases c, simp)
  next
    case False
    let ?c = "c\<lparr>tp_pending := tp_pending c - tp_frame c, tp_trace := Mark now (tp_trace c)\<rparr>"
    have "tp_pending ?c < tp_pending c" "0 < tp_frame ?c" using False less.prems by simp_all
    from less.hyps [OF this]
    have "markFrames now ?c = Some (?c\<lparr>tp_pending := tp_pending ?c mod tp_frame ?c, tp_trace := (tp_trace ?c)\<lparr>t_events := t_events (tp_trace ?c)
        @ replicate (tp_pending ?c div tp_frame ?c) (now - t_start (tp_trace ?c))\<rparr>\<rparr>)" by blast
    moreover have "markFrames now c = markFrames now ?c" using False by (subst markFrames.simps) simp
    moreover have "tp_pending c div tp_frame c = Suc (tp_pending ?c div tp_frame c)" "tp_pending c mod tp_frame c = tp_pending ?c mod tp_frame c"
      using False less.prems by (simp_all add: le_div_geq le_mod_geq)
    ultimately show ?thesis by (simp add: Mark_def)
  qed
qed

text \<open>A run of the observer: at each time so many bytes pass.\<close>

fun tapRun :: "(int \<times> nat) list \<Rightarrow> tap \<Rightarrow> tap option" where
  "tapRun [] c = Some c"
| "tapRun ((now, n) # ns) c = (case tap_count now n c of None \<Rightarrow> None | Some c \<Rightarrow> tapRun ns c)"

definition tap_saw :: "nat \<Rightarrow> nat \<Rightarrow> tap \<Rightarrow> bool" where
  "tap_saw skip seen c \<longleftrightarrow> tp_skip c = skip - seen \<and> tp_pending c < tp_frame c
     \<and> Trace_Len (tp_trace c) * tp_frame c + tp_pending c = seen - skip"

lemma tap_count_saw:
  assumes "tap_saw skip seen c"
  shows "\<exists>c'. tap_count now n c = Some c' \<and> tap_saw skip (seen + n) c' \<and> tp_frame c' = tp_frame c"
proof -
  let ?used = "min n (tp_skip c)"
  let ?p = "tp_pending c + (n - ?used)"
  have f: "0 < tp_frame c" using assms by (simp add: tap_saw_def)
  obtain c' where c': "tap_count now n c = Some c'" "tp_pending c' = ?p mod tp_frame c" "tp_frame c' = tp_frame c" "tp_skip c' = tp_skip c - ?used"
    "Trace_Len (tp_trace c') = Trace_Len (tp_trace c) + ?p div tp_frame c"
    using markFrames_counts [of "c\<lparr>tp_skip := tp_skip c - ?used, tp_pending := ?p\<rparr>" now] f
    by (simp add: tap_count_def Let_def Trace_Len_def)
  have "Trace_Len (tp_trace c') * tp_frame c' + tp_pending c' = Trace_Len (tp_trace c) * tp_frame c + (?p div tp_frame c * tp_frame c + ?p mod tp_frame c)"
    by (simp add: c' distrib_right)
  also have "\<dots> = Trace_Len (tp_trace c) * tp_frame c + ?p" by simp
  also have "\<dots> = seen + n - skip"
  proof -
    have arith: "q + pe = seen - skip \<Longrightarrow> sk = skip - seen \<Longrightarrow> q + (pe + (n - min n sk)) = seen + n - skip" for q pe sk by linarith
    show ?thesis by (rule arith) (use assms in \<open>simp_all add: tap_saw_def\<close>)
  qed
  finally have whole: "Trace_Len (tp_trace c') * tp_frame c' + tp_pending c' = seen + n - skip" .
  have "tp_skip c = skip - seen" using assms by (simp add: tap_saw_def)
  then have "tp_skip c' = skip - (seen + n)" unfolding c'(4) by linarith
  moreover have "tp_pending c' < tp_frame c'" using f by (simp add: c'(2,3))
  ultimately have "tap_saw skip (seen + n) c'" using whole unfolding tap_saw_def by (intro conjI)
  then show ?thesis using c'(1,3) by blast
qed

text \<open>
  what the observer of a link records. Whatever the sizes in which bytes pass, the count always
  ends, and after any number of them it has marked exactly the whole frames that followed the
  handshake: as many events as the bytes beyond it divided by the size of a frame.
\<close>

theorem tap_counts_frames:
  assumes "0 < frame"
  shows "\<exists>c. tapRun ns \<lparr>tp_trace = NewTrace start, tp_skip = handshake, tp_frame = frame, tp_pending = 0\<rparr> = Some c
    \<and> Trace_Len (tp_trace c) = (sum_list (map snd ns) - handshake) div frame"
proof -
  have run: "\<exists>c'. tapRun ns c = Some c' \<and> tap_saw skip (seen + sum_list (map snd ns)) c' \<and> tp_frame c' = tp_frame c" if "tap_saw skip seen c" for ns c skip seen
    using that
  proof (induction ns arbitrary: c seen)
    case (Cons p ns)
    obtain now n where p: "p = (now, n)" by force
    show ?case using tap_count_saw [OF Cons.prems, of now n] Cons.IH unfolding p by (fastforce simp: add.assoc)
  qed auto
  have "tap_saw handshake 0 \<lparr>tp_trace = NewTrace start, tp_skip = handshake, tp_frame = frame, tp_pending = 0\<rparr>"
    using assms by (simp add: tap_saw_def NewTrace_def Trace_Len_def)
  from run [OF this, of ns] obtain c where "tapRun ns \<lparr>tp_trace = NewTrace start, tp_skip = handshake, tp_frame = frame, tp_pending = 0\<rparr> = Some c"
    "Trace_Len (tp_trace c) * frame + tp_pending c = sum_list (map snd ns) - handshake" "tp_pending c < frame"
    by (auto simp: tap_saw_def)
  moreover from this(2,3) have "Trace_Len (tp_trace c) = (sum_list (map snd ns) - handshake) div frame"
    by (metis div_mult_self3 div_less add_0_right assms mult.commute neq0_conv)
  ultimately show ?thesis by blast
qed

theorem tap_counts_frames_witness:
  "\<exists>c. tapRun [(1, 40), (2, 500), (3, 1000)] \<lparr>tp_trace = NewTrace 0, tp_skip = 33, tp_frame = 528, tp_pending = 0\<rparr> = Some c \<and> Trace_Len (tp_trace c) = 2"
  using tap_counts_frames [of 528 "[(1, 40), (2, 500), (3, 1000)]" 0 33] by simp

end
