(* ===== verification/Secmem.thy ===== *)
theory Secmem
  imports Prelude
begin

text \<open>
  \<^verbatim>\<open>crypto/secmem\<close>: the buffers that hold keys, on Linux. The memory of the process is a map from
  addresses to pages; a mapped page goes away when it is unmapped, a page of the Go heap stays with
  whatever was last written on it. The answers of \<^verbatim>\<open>mmap\<close>, \<^verbatim>\<open>madvise\<close> and \<^verbatim>\<open>mlock\<close> are a list of what
  the system will say next. A buffer is known by its index in the store, and the mutexes make every
  operation one step. Flag values are taken as ASCII text.
\<close>

section \<open>Policies\<close>

record MemPolicy =
  m_OffHeap :: bool
  m_Lock :: bool
  m_DontDump :: bool
  m_Zero :: bool

definition Protected :: MemPolicy where
  "Protected = \<lparr>m_OffHeap = True, m_Lock = True, m_DontDump = True, m_Zero = True\<rparr>"

definition Baseline :: MemPolicy where
  "Baseline = \<lparr>m_OffHeap = False, m_Lock = False, m_DontDump = False, m_Zero = False\<rparr>"

definition policyOk :: "MemPolicy \<Rightarrow> bool" where
  "policyOk p \<longleftrightarrow> \<not> ((m_Lock p \<or> m_DontDump p) \<and> \<not> m_OffHeap p)"

definition space :: "char \<Rightarrow> bool" where
  "space c \<longleftrightarrow> c \<in> {CHR '' '', CHR 0x09, CHR 0x0A, CHR 0x0B, CHR 0x0C, CHR 0x0D}"

definition TrimSpace :: "string \<Rightarrow> string" where
  "TrimSpace s = rev (dropWhile space (rev (dropWhile space s)))"

fun parseMeasures :: "string list \<Rightarrow> MemPolicy \<Rightarrow> MemPolicy result" where
  "parseMeasures [] p = Inr p"
| "parseMeasures (f # fs) p =
     (let m = TrimSpace f in
      if m = ''offheap'' then parseMeasures fs (p\<lparr>m_OffHeap := True\<rparr>)
      else if m = ''lock'' then parseMeasures fs (p\<lparr>m_Lock := True\<rparr>)
      else if m = ''dontdump'' then parseMeasures fs (p\<lparr>m_DontDump := True\<rparr>)
      else if m = ''zero'' then parseMeasures fs (p\<lparr>m_Zero := True\<rparr>)
      else Inl (Message ''unknown measure''))"

definition ParsePolicy :: "string \<Rightarrow> MemPolicy result" where
  "ParsePolicy s =
     (if TrimSpace s = ''all'' then Inr Protected
      else if TrimSpace s = ''none'' then Inr Baseline
      else
        case parseMeasures (splitOn (CHR '','') s) Baseline of
          Inl e \<Rightarrow> Inl e
        | Inr p \<Rightarrow> if policyOk p then Inr p else Inl ErrPolicy)"

definition joinStrings :: "string \<Rightarrow> string list \<Rightarrow> string" where
  "joinStrings sep fs = (case fs of [] \<Rightarrow> [] | f # fs \<Rightarrow> f @ concat (map (\<lambda>g. sep @ g) fs))"

definition MemPolicy_String :: "MemPolicy \<Rightarrow> string" where
  "MemPolicy_String p =
     (if p = Protected then ''all''
      else if p = Baseline then ''none''
      else joinStrings '',''
        (map fst (filter snd [(''offheap'', m_OffHeap p), (''lock'', m_Lock p), (''dontdump'', m_DontDump p), (''zero'', m_Zero p)])))"

section \<open>Pages\<close>

record page =
  pg_bytes :: bytes
  pg_heap :: bool
  pg_locked :: bool
  pg_dump :: bool

record Buffer =
  bf_mem :: "nat option"
  bf_locked :: bool
  bf_released :: bool
  bf_policy :: MemPolicy
  bf_seq :: u64

record Store =
  pages :: "nat \<Rightarrow> page option"
  nextPage :: nat
  answers :: "bool list"
  policy :: MemPolicy
  created :: u64
  buffers :: "Buffer list"

definition newStore :: "bool list \<Rightarrow> Store" where
  "newStore as = \<lparr>pages = \<lambda>_. None, nextPage = 0, answers = as, policy = Protected, created = 0, buffers = []\<rparr>"

text \<open>The next answer of the system; with none left every call fails.\<close>

definition syscall :: "Store \<Rightarrow> bool \<times> Store" where
  "syscall s = (case answers s of [] \<Rightarrow> (False, s) | a # as \<Rightarrow> (a, s\<lparr>answers := as\<rparr>))"

definition mapPage :: "page \<Rightarrow> Store \<Rightarrow> nat \<times> Store" where
  "mapPage pg s = (nextPage s, s\<lparr>pages := (pages s)(nextPage s \<mapsto> pg), nextPage := nextPage s + 1\<rparr>)"

definition munmap :: "nat \<Rightarrow> Store \<Rightarrow> Store" where
  "munmap a s = s\<lparr>pages := (pages s)(a := None)\<rparr>"

definition setPage :: "nat \<Rightarrow> (page \<Rightarrow> page) \<Rightarrow> Store \<Rightarrow> Store" where
  "setPage a f s = s\<lparr>pages := (pages s)(a := map_option f (pages s a))\<rparr>"

text \<open>The system calls of \<^verbatim>\<open>alloc\<close> after the mapping, each undone by \<^verbatim>\<open>munmap\<close> when it fails.\<close>

definition lockPage :: "nat \<Rightarrow> MemPolicy \<Rightarrow> Store \<Rightarrow> (nat \<times> bool) result \<times> Store" where
  "lockPage a p s =
     (if \<not> m_Lock p then (Inr (a, False), s)
      else
        case syscall s of
          (False, s) \<Rightarrow> (Inl ErrMemory, munmap a s)
        | (True, s) \<Rightarrow> (Inr (a, True), setPage a (\<lambda>pg. pg\<lparr>pg_locked := True\<rparr>) s))"

definition alloc :: "nat \<Rightarrow> MemPolicy \<Rightarrow> Store \<Rightarrow> (nat \<times> bool) result \<times> Store" where
  "alloc n p s =
     (if \<not> m_OffHeap p then
        (case mapPage \<lparr>pg_bytes = replicate n 0, pg_heap = True, pg_locked = False, pg_dump = True\<rparr> s of (a, s) \<Rightarrow> (Inr (a, False), s))
      else
        case syscall s of
          (False, s) \<Rightarrow> (Inl ErrMemory, s)
        | (True, s) \<Rightarrow>
            (case mapPage \<lparr>pg_bytes = replicate n 0, pg_heap = False, pg_locked = False, pg_dump = True\<rparr> s of (a, s) \<Rightarrow>
               if m_DontDump p then
                 (case syscall s of
                    (False, s) \<Rightarrow> (Inl ErrMemory, munmap a s)
                  | (True, s) \<Rightarrow> lockPage a p (setPage a (\<lambda>pg. pg\<lparr>pg_dump := False\<rparr>) s))
               else lockPage a p s))"

definition zeroPage :: "nat \<Rightarrow> Store \<Rightarrow> Store" where
  "zeroPage a = setPage a (\<lambda>pg. pg\<lparr>pg_bytes := replicate (length (pg_bytes pg)) 0\<rparr>)"

definition free :: "nat option \<Rightarrow> MemPolicy \<Rightarrow> Store \<Rightarrow> Store" where
  "free mem p s =
     (case mem of
        None \<Rightarrow> s
      | Some a \<Rightarrow>
          let s = (if m_Zero p then zeroPage a s else s) in
          if \<not> m_OffHeap p then s else munmap a s)"

section \<open>Buffers\<close>

definition SetPolicy :: "MemPolicy \<Rightarrow> Store \<Rightarrow> unit result \<times> Store" where
  "SetPolicy p s = (if policyOk p then (Inr (), s\<lparr>policy := p\<rparr>) else (Inl ErrPolicy, s))"

definition newBuf :: "int \<Rightarrow> Store \<Rightarrow> nat result \<times> Store" where
  "newBuf n s =
     (if n \<le> 0 then (Inl ErrBadSize, s)
      else
        let p = policy s in
        case alloc (nat n) p s of
          (Inl e, s) \<Rightarrow> (Inl e, s)
        | (Inr (a, l), s) \<Rightarrow>
            let q = created s + 1 in
            (Inr (length (buffers s)),
             s\<lparr>created := q,
               buffers := buffers s @ [\<lparr>bf_mem = Some a, bf_locked = l, bf_released = False, bf_policy = p, bf_seq = q\<rparr>]\<rparr>))"

definition memOf :: "Store \<Rightarrow> nat \<Rightarrow> bytes" where
  "memOf s i = (case bf_mem (buffers s ! i) of None \<Rightarrow> [] | Some a \<Rightarrow> (case pages s a of None \<Rightarrow> [] | Some pg \<Rightarrow> pg_bytes pg))"

definition writeBuf :: "nat \<Rightarrow> bytes \<Rightarrow> Store \<Rightarrow> Store" where
  "writeBuf i src s =
     (case bf_mem (buffers s ! i) of None \<Rightarrow> s | Some a \<Rightarrow> setPage a (\<lambda>pg. pg\<lparr>pg_bytes := copy (pg_bytes pg) src\<rparr>) s)"

text \<open>\<^verbatim>\<open>NewFrom\<close> also gives back what is left in the slice it was given.\<close>

definition NewFrom :: "bytes \<Rightarrow> Store \<Rightarrow> nat result \<times> bytes \<times> Store" where
  "NewFrom src s =
     (case newBuf (int (length src)) s of
        (Inl e, s) \<Rightarrow> (Inl e, src, s)
      | (Inr i, s) \<Rightarrow>
          (Inr i, if m_Zero (bf_policy (buffers s ! i)) then replicate (length src) 0 else src, writeBuf i src s))"

definition Buffer_Bytes :: "Store \<Rightarrow> nat \<Rightarrow> bytes option" where
  "Buffer_Bytes s i = (if bf_released (buffers s ! i) then None else Some (memOf s i))"

definition Buffer_Len :: "Store \<Rightarrow> nat \<Rightarrow> nat" where
  "Buffer_Len s i = length (memOf s i)"

definition Buffer_Locked :: "Store \<Rightarrow> nat \<Rightarrow> bool" where
  "Buffer_Locked s i \<longleftrightarrow> bf_locked (buffers s ! i) \<and> \<not> bf_released (buffers s ! i)"

definition Buffer_Clone :: "nat \<Rightarrow> Store \<Rightarrow> nat result \<times> Store" where
  "Buffer_Clone i s =
     (if bf_released (buffers s ! i) then (Inl ErrReleased, s)
      else
        let b = memOf s i in
        case newBuf (int (length b)) s of
          (Inl e, s) \<Rightarrow> (Inl e, s)
        | (Inr j, s) \<Rightarrow> (Inr j, writeBuf j b s))"

definition Buffer_Equal :: "Store \<Rightarrow> nat \<Rightarrow> nat option \<Rightarrow> bool" where
  "Buffer_Equal s i other =
     (case other of
        None \<Rightarrow> False
      | Some j \<Rightarrow>
          if i = j then \<not> bf_released (buffers s ! i)
          else if bf_released (buffers s ! i) \<or> bf_released (buffers s ! j) then False
          else memOf s i = memOf s j)"

definition Release :: "nat \<Rightarrow> Store \<Rightarrow> Store" where
  "Release i s =
     (let b = buffers s ! i in
      if bf_released b then s
      else (free (bf_mem b) (bf_policy b) s)\<lparr>buffers := (buffers s)[i := b\<lparr>bf_released := True, bf_mem := None\<rparr>]\<rparr>)"

definition Zero :: "Store \<Rightarrow> bytes \<Rightarrow> bytes" where
  "Zero s b = (if m_Zero (policy s) then replicate (length b) 0 else b)"

section \<open>Policies have one spelling each\<close>

lemma splitOn_join: "fs \<noteq> [] \<Longrightarrow> \<forall>f \<in> set fs. d \<notin> set f \<Longrightarrow> splitOn d (joinStrings [d] fs) = fs"
proof (induction fs)
  case (Cons f fs)
  then show ?case
    by (cases fs) (simp_all add: joinStrings_def splitOn_last splitOn_append)
qed simp

lemma trim_words:
  "TrimSpace ''all'' = ''all''" "TrimSpace ''none'' = ''none''" "TrimSpace ''offheap'' = ''offheap''" "TrimSpace ''lock'' = ''lock''"
  "TrimSpace ''dontdump'' = ''dontdump''" "TrimSpace ''zero'' = ''zero''"
  by (simp_all add: TrimSpace_def space_def)

definition measures :: "MemPolicy \<Rightarrow> string list" where
  "measures p = map fst (filter snd [(''offheap'', m_OffHeap p), (''lock'', m_Lock p), (''dontdump'', m_DontDump p), (''zero'', m_Zero p)])"

lemma parse_measures: "parseMeasures (measures p) Baseline = Inr p"
proof -
  have w: "''lock'' \<noteq> ''offheap''" "''dontdump'' \<noteq> ''offheap''" "''dontdump'' \<noteq> ''lock''" "''zero'' \<noteq> ''offheap''" "''zero'' \<noteq> ''lock''"
    "''zero'' \<noteq> ''dontdump''" by simp_all
  show ?thesis
    by (cases p, rename_tac a b c d, case_tac a; case_tac b; case_tac c; case_tac d)
      (simp_all only: measures_def filter.simps list.map snd_conv fst_conv if_True if_False parseMeasures.simps trim_words Let_def w
        MemPolicy.simps MemPolicy.update_convs Baseline_def simp_thms)
qed

lemma measures_plain: "\<forall>f \<in> set (measures p). CHR '','' \<notin> set f" "p \<noteq> Baseline \<Longrightarrow> measures p \<noteq> []"
  by (auto simp: measures_def) (cases p, auto simp: measures_def Baseline_def)

lemma policy_parts:
  "parseMeasures (splitOn (CHR '','') (MemPolicy_String p)) Baseline = Inr p" if "p \<noteq> Protected" "p \<noteq> Baseline"
proof -
  have "MemPolicy_String p = joinStrings '','' (measures p)" using that by (simp only: MemPolicy_String_def measures_def if_False)
  then show ?thesis using splitOn_join [OF measures_plain(2) [OF that(2)] measures_plain(1)] parse_measures by simp
qed

lemma trim_hd: "s \<noteq> [] \<Longrightarrow> \<not> space (hd s) \<Longrightarrow> \<exists>t. TrimSpace s = hd s # t"
proof -
  assume s: "s \<noteq> []" "\<not> space (hd s)"
  then have d: "dropWhile space s = s" by (cases s) auto
  have "\<exists>u. dropWhile space (rev s) = u @ [hd s]"
    using s by (cases s) (auto simp: dropWhile_append)
  then obtain u where "dropWhile space (rev s) = u @ [hd s]" ..
  then show ?thesis unfolding TrimSpace_def d by (intro exI [of _ "rev u"]) simp
qed

lemma policy_words: "p \<noteq> Protected \<Longrightarrow> p \<noteq> Baseline \<Longrightarrow> TrimSpace (MemPolicy_String p) \<noteq> ''all'' \<and> TrimSpace (MemPolicy_String p) \<noteq> ''none''"
proof -
  assume nb: "p \<noteq> Protected" "p \<noteq> Baseline"
  have "set (measures p) \<subseteq> {''offheap'', ''lock'', ''dontdump'', ''zero''}" by (auto simp: measures_def)
  then obtain f fs where f: "measures p = f # fs" "f \<in> {''offheap'', ''lock'', ''dontdump'', ''zero''}"
    using measures_plain(2) [OF nb(2)] by (cases "measures p") auto
  have e: "MemPolicy_String p = joinStrings '','' (f # fs)" using nb f(1) by (simp only: MemPolicy_String_def measures_def [symmetric] if_False)
  have "hd (joinStrings '','' (f # fs)) = hd f" "joinStrings '','' (f # fs) \<noteq> []" using f(2) by (auto simp: joinStrings_def)
  moreover have "\<not> space (hd f)" "hd f \<noteq> CHR ''a''" "hd f \<noteq> CHR ''n''" using f(2) by (auto simp: space_def)
  ultimately show ?thesis using trim_hd [of "joinStrings '','' (f # fs)"] unfolding e by auto
qed

text \<open>What \<^verbatim>\<open>String\<close> writes of a policy that can be set, \<^verbatim>\<open>ParsePolicy\<close> reads back.\<close>

lemma ParsePolicy_String: "policyOk p \<Longrightarrow> ParsePolicy (MemPolicy_String p) = Inr p"
proof -
  assume ok: "policyOk p"
  consider "p = Protected" | "p = Baseline" | "p \<noteq> Protected" "p \<noteq> Baseline" by blast
  then show ?thesis
  proof cases
    case 1
    then show ?thesis by (simp add: ParsePolicy_def MemPolicy_String_def trim_words)
  next
    case 2
    then show ?thesis by (simp add: ParsePolicy_def MemPolicy_String_def trim_words)
  next
    case 3
    then show ?thesis using ok policy_parts [OF 3] policy_words [OF 3] by (simp add: ParsePolicy_def)
  qed
qed

section \<open>The invariant of the store\<close>

definition owned :: "Store \<Rightarrow> nat \<Rightarrow> bool" where
  "owned s a \<longleftrightarrow> (\<exists>i < length (buffers s). bf_mem (buffers s ! i) = Some a)"

definition holds :: "Store \<Rightarrow> Buffer \<Rightarrow> bool" where
  "holds s b \<longleftrightarrow>
     (case bf_mem b of
        None \<Rightarrow> bf_released b
      | Some a \<Rightarrow> \<not> bf_released b \<and> (\<exists>pg. pages s a = Some pg \<and> pg_heap pg = (\<not> m_OffHeap (bf_policy b)) \<and> pg_bytes pg \<noteq> []
            \<and> bf_locked b = m_Lock (bf_policy b) \<and> pg_locked pg = bf_locked b \<and> pg_dump pg = (\<not> m_DontDump (bf_policy b))))"

definition mem_ok :: "bool \<Rightarrow> Store \<Rightarrow> bool" where
  "mem_ok z s \<longleftrightarrow>
     (\<forall>i < length (buffers s). holds s (buffers s ! i) \<and> policyOk (bf_policy (buffers s ! i)) \<and> (z \<longrightarrow> m_Zero (bf_policy (buffers s ! i))))
     \<and> (\<forall>i j a. i < length (buffers s) \<longrightarrow> j < length (buffers s) \<longrightarrow> bf_mem (buffers s ! i) = Some a \<longrightarrow> bf_mem (buffers s ! j) = Some a \<longrightarrow> i = j)
     \<and> (\<forall>a pg. pages s a = Some pg \<longrightarrow> a < nextPage s \<and> (owned s a \<or> pg_heap pg \<and> (z \<longrightarrow> set (pg_bytes pg) \<subseteq> {0})))
     \<and> policyOk (policy s) \<and> (z \<longrightarrow> m_Zero (policy s))"

lemma mem_ok_new: "mem_ok z (newStore as)"
  by (simp add: mem_ok_def newStore_def policyOk_def Protected_def)

lemma alloc_cases:
  assumes "alloc n p s = (r, s')" "pages s (nextPage s) = None" "policyOk p"
  shows "buffers s' = buffers s \<and> policy s' = policy s \<and> created s' = created s \<and>
    (case r of
       Inl e \<Rightarrow> pages s' = pages s \<and> nextPage s \<le> nextPage s'
     | Inr (a, l) \<Rightarrow> a = nextPage s \<and> nextPage s' = a + 1 \<and> l = m_Lock p \<and>
         pages s' = (pages s)(a \<mapsto> \<lparr>pg_bytes = replicate n 0, pg_heap = (\<not> m_OffHeap p), pg_locked = m_Lock p, pg_dump = (\<not> m_DontDump p)\<rparr>))"
  using assms
  by (auto simp: alloc_def lockPage_def syscall_def mapPage_def munmap_def setPage_def policyOk_def fun_upd_idem
      split: if_splits list.splits bool.splits)

text \<open>What a buffer holds, as its user sees it: nothing once it is released.\<close>

definition contents :: "Store \<Rightarrow> nat \<Rightarrow> bytes option" where
  "contents s i = (if i < length (buffers s) then Buffer_Bytes s i else None)"

lemma mem_okD:
  assumes "mem_ok z s"
  shows "i < length (buffers s) \<Longrightarrow> holds s (buffers s ! i)" "i < length (buffers s) \<Longrightarrow> policyOk (bf_policy (buffers s ! i))"
    "i < length (buffers s) \<Longrightarrow> z \<Longrightarrow> m_Zero (bf_policy (buffers s ! i))"
    "i < length (buffers s) \<Longrightarrow> j < length (buffers s) \<Longrightarrow> bf_mem (buffers s ! i) = Some a \<Longrightarrow> bf_mem (buffers s ! j) = Some a \<Longrightarrow> i = j"
    "pages s a = Some pg \<Longrightarrow> a < nextPage s" "pages s a = Some pg \<Longrightarrow> \<not> owned s a \<Longrightarrow> pg_heap pg \<and> (z \<longrightarrow> set (pg_bytes pg) \<subseteq> {0})"
    "policyOk (policy s)" "z \<Longrightarrow> m_Zero (policy s)" "pages s (nextPage s) = None"
proof -
  show "pages s (nextPage s) = None" using assms unfolding mem_ok_def by (cases "pages s (nextPage s)") auto
qed (use assms in \<open>unfold mem_ok_def, blast\<close>)+

text \<open>A fresh page and a buffer on it.\<close>

definition addBuf :: "nat \<Rightarrow> page \<Rightarrow> MemPolicy \<Rightarrow> u64 \<Rightarrow> Store \<Rightarrow> Store" where
  "addBuf a pg p q s = s\<lparr>pages := (pages s)(a \<mapsto> pg), nextPage := a + 1,
     buffers := buffers s @ [\<lparr>bf_mem = Some a, bf_locked = m_Lock p, bf_released = False, bf_policy = p, bf_seq = q\<rparr>]\<rparr>"

lemma owned_lt: "mem_ok z s \<Longrightarrow> owned s a \<Longrightarrow> a < nextPage s"
  using mem_okD(1,5) unfolding owned_def holds_def by (fastforce split: option.splits)

lemma addBuf_ok:
  assumes ok: "mem_ok z s" and pg: "pg_heap pg = (\<not> m_OffHeap p)" "pg_locked pg = m_Lock p" "pg_dump pg = (\<not> m_DontDump p)" "pg_bytes pg \<noteq> []"
    and p: "policyOk p" "z \<Longrightarrow> m_Zero p"
  shows "mem_ok z (addBuf (nextPage s) pg p q s)"
proof -
  let ?s = "addBuf (nextPage s) pg p q s" and ?n = "length (buffers s)"
  have len: "length (buffers ?s) = Suc ?n" by (simp add: addBuf_def)
  have old: "buffers ?s ! i = buffers s ! i" if "i < ?n" for i using that by (simp add: addBuf_def nth_append)
  have new: "buffers ?s ! ?n = \<lparr>bf_mem = Some (nextPage s), bf_locked = m_Lock p, bf_released = False, bf_policy = p, bf_seq = q\<rparr>"
    by (simp add: addBuf_def)
  have lt: "bf_mem (buffers s ! i) = Some a \<Longrightarrow> i < ?n \<Longrightarrow> a < nextPage s" for i a
    using owned_lt [OF ok] unfolding owned_def by blast
  have "holds ?s (buffers ?s ! i) \<and> policyOk (bf_policy (buffers ?s ! i)) \<and> (z \<longrightarrow> m_Zero (bf_policy (buffers ?s ! i)))" if "i < Suc ?n" for i
  proof (cases "i = ?n")
    case True
    then show ?thesis unfolding True new using pg p by (simp add: holds_def addBuf_def)
  next
    case False
    then have i: "i < ?n" using that by simp
    have "holds ?s (buffers s ! i)"
      using mem_okD(1) [OF ok i] lt [OF _ i] by (auto simp: holds_def addBuf_def split: option.splits)
    then show ?thesis unfolding old [OF i] using mem_okD(2,3) [OF ok i] by blast
  qed
  moreover have "i = j" if "i < Suc ?n" "j < Suc ?n" "bf_mem (buffers ?s ! i) = Some a" "bf_mem (buffers ?s ! j) = Some a" for i j a
    using that old new lt mem_okD(4) [OF ok] by (cases "i = ?n"; cases "j = ?n") (auto simp: less_Suc_eq)
  moreover have "a < nextPage ?s \<and> (owned ?s a \<or> pg_heap pg' \<and> (z \<longrightarrow> set (pg_bytes pg') \<subseteq> {0}))" if "pages ?s a = Some pg'" for a pg'
  proof (cases "a = nextPage s")
    case True
    then have "owned ?s a" unfolding owned_def len using new by (intro exI [of _ ?n]) simp
    then show ?thesis using True by (simp add: addBuf_def)
  next
    case False
    then have "pages s a = Some pg'" using that by (simp add: addBuf_def)
    moreover have "owned ?s a" if "owned s a" using that old unfolding owned_def len by (metis less_Suc_eq)
    ultimately show ?thesis using mem_okD(5,6) [OF ok] by (fastforce simp: addBuf_def)
  qed
  ultimately show ?thesis
    using mem_okD(7,8) [OF ok] unfolding mem_ok_def len by (simp add: addBuf_def)
qed

lemma contents_addBuf:
  assumes "mem_ok z s"
  shows "contents (addBuf (nextPage s) pg p q s) = (contents s)(length (buffers s) \<mapsto> pg_bytes pg)"
proof
  fix i
  let ?n = "length (buffers s)"
  have "bf_mem (buffers s ! i) = Some a \<Longrightarrow> i < ?n \<Longrightarrow> a < nextPage s" for a
    using owned_lt [OF assms] unfolding owned_def by blast
  then show "contents (addBuf (nextPage s) pg p q s) i = ((contents s)(?n \<mapsto> pg_bytes pg)) i"
    by (auto simp: contents_def addBuf_def Buffer_Bytes_def memOf_def nth_append less_Suc_eq split: option.splits)
qed

lemma mem_ok_aside [simp]:
  "mem_ok z (s\<lparr>answers := x\<rparr>) = mem_ok z s" "mem_ok z (s\<lparr>created := y\<rparr>) = mem_ok z s"
  "contents (s\<lparr>answers := x\<rparr>) = contents s" "contents (s\<lparr>created := y\<rparr>) = contents s"
  by (simp_all add: mem_ok_def owned_def holds_def contents_def Buffer_Bytes_def memOf_def fun_eq_iff cong: option.case_cong)

lemma mem_ok_same:
  assumes "mem_ok z s" "buffers s1 = buffers s" "pages s1 = pages s" "policy s1 = policy s" "nextPage s \<le> nextPage s1"
  shows "mem_ok z s1" "contents s1 = contents s"
proof -
  have e: "holds s1 = holds s" "owned s1 = owned s" by (intro ext, simp only: holds_def owned_def assms(2,3))+
  show "mem_ok z s1" using assms(1) less_le_trans [OF _ assms(5)] unfolding mem_ok_def e assms(2-4) by blast
  show "contents s1 = contents s" by (intro ext) (simp only: contents_def Buffer_Bytes_def memOf_def assms(2,3))
qed

definition pageOf :: "bytes \<Rightarrow> MemPolicy \<Rightarrow> page" where
  "pageOf b p = \<lparr>pg_bytes = b, pg_heap = (\<not> m_OffHeap p), pg_locked = m_Lock p, pg_dump = (\<not> m_DontDump p)\<rparr>"

lemma newBuf_cases:
  assumes ok: "mem_ok z s" and r: "newBuf n s = (r, s')"
  shows "case r of
      Inl e \<Rightarrow> mem_ok z s' \<and> contents s' = contents s
    | Inr i \<Rightarrow> i = length (buffers s) \<and> 0 < n
        \<and> (\<exists>x y q. s' = (addBuf (nextPage s) (pageOf (replicate (nat n) 0) (policy s)) (policy s) q s)\<lparr>answers := x, created := y\<rparr>)"
proof (cases "n \<le> 0")
  case True
  then show ?thesis using ok r by (auto simp: newBuf_def)
next
  case False
  obtain ra s1 where a: "alloc (nat n) (policy s) s = (ra, s1)" by force
  note c = alloc_cases [OF a mem_okD(9,7) [OF ok]]
  show ?thesis
  proof (cases ra)
    case (Inl e)
    have e: "buffers s1 = buffers s" "pages s1 = pages s" "policy s1 = policy s" "nextPage s \<le> nextPage s1" using c Inl by simp_all
    have "r = Inl e" "s' = s1" using False a Inl r by (simp_all add: newBuf_def Let_def)
    then show ?thesis using mem_ok_same [OF ok e] by simp
  next
    case (Inr al)
    let ?pg = "pageOf (replicate (nat n) 0) (policy s)"
    have al: "al = (nextPage s, m_Lock (policy s))" using c Inr by (cases al) simp
    have s1: "s1 = s\<lparr>pages := (pages s)(nextPage s \<mapsto> ?pg), nextPage := nextPage s + 1, answers := answers s1\<rparr>"
      using c Inr al by (intro Store.equality) (simp_all add: pageOf_def)
    have "r = Inr (length (buffers s))"
      and "s' = s1\<lparr>created := created s + 1, buffers := buffers s @ [\<lparr>bf_mem = Some (nextPage s), bf_locked = m_Lock (policy s),
        bf_released = False, bf_policy = policy s, bf_seq = created s + 1\<rparr>]\<rparr>"
      using False a r Inr al c by (simp_all add: newBuf_def Let_def)
    moreover from this(2) have "s' = (addBuf (nextPage s) ?pg (policy s) (created s + 1) s)\<lparr>answers := answers s1, created := created s + 1\<rparr>"
      by (subst (asm) s1) (simp add: addBuf_def)
    ultimately have "r = Inr (length (buffers s)) \<and> (\<exists>x y q. s' = (addBuf (nextPage s) ?pg (policy s) q s)\<lparr>answers := x, created := y\<rparr>)"
      by blast
    then show ?thesis using False by simp
  qed
qed

lemma write_fresh:
  "length b = length (pg_bytes pg) \<Longrightarrow>
     writeBuf (length (buffers s)) b ((addBuf a pg p q s)\<lparr>answers := x, created := y\<rparr>) = (addBuf a (pg\<lparr>pg_bytes := b\<rparr>) p q s)\<lparr>answers := x, created := y\<rparr>"
  by (simp add: writeBuf_def addBuf_def setPage_def copy_same)

text \<open>The step of every operation, on the invariant and on what its users see.\<close>

lemma fresh_ok:
  assumes "mem_ok z s" "b \<noteq> []"
  shows "mem_ok z ((addBuf (nextPage s) (pageOf b (policy s)) (policy s) q s)\<lparr>answers := x, created := y\<rparr>)"
    "contents ((addBuf (nextPage s) (pageOf b (policy s)) (policy s) q s)\<lparr>answers := x, created := y\<rparr>) = (contents s)(length (buffers s) \<mapsto> b)"
  using addBuf_ok [OF assms(1), of "pageOf b (policy s)" "policy s"] contents_addBuf [OF assms(1), of "pageOf b (policy s)"] assms(2)
    mem_okD(7,8) [OF assms(1)] by (simp_all add: pageOf_def)

lemma newBuf_step:
  assumes "mem_ok z s" "newBuf n s = (r, s')"
  shows "mem_ok z s' \<and> (case r of Inl e \<Rightarrow> contents s' = contents s
    | Inr i \<Rightarrow> i = length (buffers s) \<and> contents s' = (contents s)(i \<mapsto> replicate (nat n) 0))"
  using newBuf_cases [OF assms] fresh_ok [OF assms(1), of "replicate (nat n) 0"] by (auto split: sum.splits)

lemma fill_step:
  assumes ok: "mem_ok z s" and n: "newBuf (int (length b)) s = (Inr i, s1)"
  shows "mem_ok z (writeBuf i b s1) \<and> i = length (buffers s) \<and> contents (writeBuf i b s1) = (contents s)(i \<mapsto> b)
    \<and> bf_policy (buffers s1 ! i) = policy s \<and> b \<noteq> []"
proof -
  obtain x y q where s1: "i = length (buffers s)" "b \<noteq> []"
    "s1 = (addBuf (nextPage s) (pageOf (replicate (length b) 0) (policy s)) (policy s) q s)\<lparr>answers := x, created := y\<rparr>"
    using newBuf_cases [OF ok n] by auto
  have "writeBuf i b s1 = (addBuf (nextPage s) (pageOf b (policy s)) (policy s) q s)\<lparr>answers := x, created := y\<rparr>"
    unfolding s1(1,3) by (subst write_fresh) (simp_all add: pageOf_def)
  then show ?thesis using fresh_ok [OF ok s1(2)] s1 by (simp add: addBuf_def)
qed

lemma NewFrom_step:
  assumes "mem_ok z s" "NewFrom src s = (r, left, s')"
  shows "mem_ok z s' \<and> (case r of Inl e \<Rightarrow> contents s' = contents s \<and> left = src
    | Inr i \<Rightarrow> i = length (buffers s) \<and> contents s' = (contents s)(i \<mapsto> src) \<and> (m_Zero (policy s) \<longrightarrow> set left \<subseteq> {0}))"
proof (cases "newBuf (int (length src)) s")
  case (Pair r1 s1)
  then show ?thesis
    using assms newBuf_step [OF assms(1) Pair] fill_step [OF assms(1), of src _ s1] by (auto simp: NewFrom_def split: sum.splits)
qed

lemma Clone_step:
  assumes "mem_ok z s" "Buffer_Clone i s = (r, s')" "i < length (buffers s)"
  shows "mem_ok z s' \<and> (case r of Inl e \<Rightarrow> contents s' = contents s
    | Inr j \<Rightarrow> j = length (buffers s) \<and> contents s i \<noteq> None \<and> contents s' = (contents s)(j := contents s i))"
proof (cases "bf_released (buffers s ! i)")
  case True
  then show ?thesis using assms by (auto simp: Buffer_Clone_def)
next
  case False
  obtain r1 s1 where n: "newBuf (int (length (memOf s i))) s = (r1, s1)" by force
  have "contents s i = Some (memOf s i)" using False assms(3) by (simp add: contents_def Buffer_Bytes_def)
  then show ?thesis
    using assms False n newBuf_step [OF assms(1) n] fill_step [OF assms(1), of "memOf s i" _ s1] by (auto simp: Buffer_Clone_def Let_def split: sum.splits)
qed

lemma Release_step:
  assumes ok: "mem_ok z s" and i: "i < length (buffers s)"
  shows "mem_ok z (Release i s) \<and> contents (Release i s) = (contents s)(i := None)"
proof (cases "bf_mem (buffers s ! i)")
  case None
  then have "bf_released (buffers s ! i)" using mem_okD(1) [OF ok i] by (simp add: holds_def)
  then show ?thesis using ok by (auto simp: Release_def contents_def Buffer_Bytes_def fun_eq_iff)
next
  case (Some a)
  let ?b = "buffers s ! i" and ?s = "Release i s"
  have nr: "\<not> bf_released ?b" using mem_okD(1) [OF ok i] Some by (simp add: holds_def)
  obtain pg where pg: "pages s a = Some pg" "pg_heap pg = (\<not> m_OffHeap (bf_policy ?b))"
    using mem_okD(1) [OF ok i] Some by (auto simp: holds_def)
  let ?z = "pg\<lparr>pg_bytes := if m_Zero (bf_policy ?b) then replicate (length (pg_bytes pg)) 0 else pg_bytes pg\<rparr>"
  have s: "?s = s\<lparr>pages := (pages s)(a := if m_OffHeap (bf_policy ?b) then None else Some ?z),
      buffers := (buffers s)[i := ?b\<lparr>bf_released := True, bf_mem := None\<rparr>]\<rparr>"
    using nr Some pg(1) by (simp add: Release_def free_def zeroPage_def setPage_def munmap_def Let_def fun_upd_idem)
  have bs: "buffers ?s ! j = (if j = i then ?b\<lparr>bf_released := True, bf_mem := None\<rparr> else buffers s ! j)" if "j < length (buffers s)" for j
    using that by (simp add: s)
  have len: "length (buffers ?s) = length (buffers s)" by (simp add: s)
  have other: "bf_mem (buffers s ! j) \<noteq> Some a" if "j < length (buffers s)" "j \<noteq> i" for j
    using mem_okD(4) [OF ok that(1) i] Some that(2) by blast
  have keep: "holds ?s (buffers s ! j)" if "j < length (buffers s)" "j \<noteq> i" for j
    using mem_okD(1) [OF ok that(1)] other [OF that] by (auto simp: holds_def s split: option.splits)
  have "holds ?s (buffers ?s ! j) \<and> policyOk (bf_policy (buffers ?s ! j)) \<and> (z \<longrightarrow> m_Zero (bf_policy (buffers ?s ! j)))" if "j < length (buffers s)" for j
    using mem_okD(2,3) [OF ok that] keep [OF that] unfolding bs [OF that] by (cases "j = i") (simp_all add: holds_def)
  moreover have "j = k" if "j < length (buffers s)" "k < length (buffers s)" "bf_mem (buffers ?s ! j) = Some c" "bf_mem (buffers ?s ! k) = Some c" for j k c
    using that mem_okD(4) [OF ok that(1,2)] unfolding bs [OF that(1)] bs [OF that(2)] by (auto split: if_splits)
  moreover have "c < nextPage ?s \<and> (owned ?s c \<or> pg_heap q \<and> (z \<longrightarrow> set (pg_bytes q) \<subseteq> {0}))" if q: "pages ?s c = Some q" for c q
  proof (cases "c = a")
    case True
    then have "q = ?z" "\<not> m_OffHeap (bf_policy ?b)" using q by (simp_all add: s split: if_splits)
    then show ?thesis using True pg mem_okD(5) [OF ok pg(1)] mem_okD(3) [OF ok i] by (auto simp: s)
  next
    case False
    then have p: "pages s c = Some q" using q by (simp add: s)
    have "owned ?s c" if "owned s c" using that False Some bs unfolding owned_def len by (metis option.inject)
    moreover have "nextPage ?s = nextPage s" by (simp add: s)
    ultimately show ?thesis using mem_okD(5,6) [OF ok p] by auto
  qed
  ultimately have "mem_ok z ?s" using mem_okD(7,8) [OF ok] unfolding mem_ok_def len by (simp add: s)
  moreover have "contents ?s = (contents s)(i := None)"
  proof
    fix j
    show "contents ?s j = ((contents s)(i := None)) j"
      using i other [of j] by (auto simp: contents_def Buffer_Bytes_def memOf_def s nth_list_update split: option.splits)
  qed
  ultimately show ?thesis ..
qed

lemma newBuf_granted:
  assumes "answers s = True # True # True # rest" "0 < n"
  shows "\<exists>i s'. newBuf n s = (Inr i, s')"
  using assms by (auto simp: newBuf_def alloc_def lockPage_def syscall_def mapPage_def setPage_def Let_def)

section \<open>What the store promises\<close>

datatype memOp = OpNew int | OpFrom bytes | OpClone nat | OpRelease nat | OpPolicy MemPolicy

text \<open>One call by a user of the package, on a buffer that was handed out before.\<close>

fun memExec :: "memOp \<Rightarrow> Store \<Rightarrow> Store" where
  "memExec (OpNew n) s = snd (newBuf n s)"
| "memExec (OpFrom b) s = snd (snd (NewFrom b s))"
| "memExec (OpClone i) s = (if i < length (buffers s) then snd (Buffer_Clone i s) else s)"
| "memExec (OpRelease i) s = (if i < length (buffers s) then Release i s else s)"
| "memExec (OpPolicy p) s = snd (SetPolicy p s)"

text \<open>The abstract store: a map from handles to bytes. A call does what it says or, when memory is short, nothing.\<close>

fun memSpec :: "memOp \<Rightarrow> (nat \<rightharpoonup> bytes) \<Rightarrow> (nat \<rightharpoonup> bytes) set" where
  "memSpec (OpNew n) m = {m} \<union> {m(i \<mapsto> replicate (nat n) 0) | i. m i = None \<and> 0 < n}"
| "memSpec (OpFrom b) m = {m} \<union> {m(i \<mapsto> b) | i. m i = None \<and> b \<noteq> []}"
| "memSpec (OpClone j) m = {m} \<union> {m(i := m j) | i. m i = None \<and> m j \<noteq> None}"
| "memSpec (OpRelease i) m = {m(i := None)}"
| "memSpec (OpPolicy p) m = {m}"

fun zeroing :: "memOp \<Rightarrow> bool" where
  "zeroing (OpPolicy p) = m_Zero p"
| "zeroing _ = True"

lemma contents_fresh: "contents s (length (buffers s)) = None"
  by (simp add: contents_def)

lemma memExec_step:
  assumes ok: "mem_ok z s" and zo: "z \<longrightarrow> zeroing opn"
  shows "mem_ok z (memExec opn s) \<and> contents (memExec opn s) \<in> memSpec opn (contents s)"
proof (cases opn)
  case (OpNew n)
  obtain r s' where r: "newBuf n s = (r, s')" by force
  show ?thesis using newBuf_step [OF ok r] newBuf_cases [OF ok r] contents_fresh [of s] r OpNew by (auto split: sum.splits)
next
  case (OpFrom b)
  obtain r l s' where r: "NewFrom b s = (r, l, s')" by (metis prod_cases3)
  have "b \<noteq> []" if "r = Inr i" for i
    using r that fill_step [OF ok, of b] by (auto simp: NewFrom_def split: prod.splits sum.splits)
  then show ?thesis using NewFrom_step [OF ok r] contents_fresh [of s] r OpFrom by (auto split: sum.splits)
next
  case (OpClone i)
  obtain r s' where r: "Buffer_Clone i s = (r, s')" by force
  show ?thesis
    using Clone_step [OF ok r] contents_fresh [of s] r OpClone ok by (auto split: sum.splits)
next
  case (OpRelease i)
  then show ?thesis using Release_step [OF ok, of i] ok by (auto simp: contents_def)
next
  case (OpPolicy p)
  show ?thesis
  proof (cases "policyOk p")
    case True
    then have "mem_ok z (s\<lparr>policy := p\<rparr>)" using ok zo OpPolicy by (simp add: mem_ok_def owned_def holds_def cong: option.case_cong)
    moreover have "contents (s\<lparr>policy := p\<rparr>) = contents s" by (simp add: fun_eq_iff contents_def Buffer_Bytes_def memOf_def cong: option.case_cong)
    ultimately show ?thesis using True OpPolicy by (simp add: SetPolicy_def)
  qed (use ok OpPolicy in \<open>simp add: SetPolicy_def\<close>)
qed

definition run_mem :: "memOp list \<Rightarrow> Store \<Rightarrow> Store" where
  "run_mem = fold memExec"

lemma run_mem_ok: "mem_ok z s \<Longrightarrow> list_all zeroing ops \<or> \<not> z \<Longrightarrow> mem_ok z (run_mem ops s)"
  unfolding run_mem_def by (induction ops arbitrary: s) (auto simp: memExec_step)

text \<open>
  C19: whatever calls were made and however the system answered them, a further call on the store of
  key buffers does to what its users see exactly what the abstract store says, a map from handles
  to bytes: a new buffer comes under a fresh handle with the bytes it was given, a clone with those
  of the original, a release takes one handle's bytes away, and no call changes any other buffer. A
  buffer for a key is refused only when the system refuses one of its calls.
\<close>

theorem secmem_refines:
  assumes "s = run_mem ops (newStore as)"
  shows "contents (memExec opn s) \<in> memSpec opn (contents s)
    \<and> (answers s = True # True # True # rest \<and> b \<noteq> [] \<longrightarrow> contents (memExec (OpFrom b) s) = (contents s)(length (buffers s) \<mapsto> b))"
proof -
  have ok: "mem_ok False s" unfolding assms using run_mem_ok mem_ok_new by blast
  have "contents (memExec (OpFrom b) s) = (contents s)(length (buffers s) \<mapsto> b)" if g: "answers s = True # True # True # rest" and ne: "b \<noteq> []"
  proof -
    obtain r l s' where r: "NewFrom b s = (r, l, s')" by (metis prod_cases3)
    obtain i s1 where "newBuf (int (length b)) s = (Inr i, s1)" using newBuf_granted [OF g] ne by fastforce
    then have "r = Inr i" using r by (simp add: NewFrom_def)
    then show ?thesis using NewFrom_step [OF ok r] r by auto
  qed
  then show ?thesis using memExec_step [OF ok, of opn] by blast
qed

theorem secmem_refines_witness:
  "contents (memExec (OpFrom [5]) (run_mem [OpFrom [1, 2], OpRelease 0] (newStore (replicate 6 True)))) 1 = Some [5]"
proof -
  let ?s = "run_mem [OpFrom [1, 2], OpRelease 0] (newStore (replicate 6 True))"
  have "answers ?s = True # True # True # []" "length (buffers ?s) = 1" by code_simp+
  then show ?thesis using secmem_refines [OF refl, of "OpFrom [5]" "[OpFrom [1, 2], OpRelease 0]" "replicate 6 True" "[]" "[5]"] by simp
qed

text \<open>
  C20: no key outlives its buffer. In every state the store can reach, a mapped page belongs to exactly
  one buffer that is not released, and is locked and kept out of dumps as the policy that buffer was
  made under says; and as long as zeroing is not switched off, every other page, left on the heap
  by a released buffer, holds zeros only.
\<close>

theorem secmem_no_residue:
  assumes "list_all zeroing ops" "s = run_mem ops (newStore as)" "pages s a = Some pg"
  shows "(\<exists>!i. i < length (buffers s) \<and> bf_mem (buffers s ! i) = Some a)
      \<and> (\<exists>i < length (buffers s). bf_mem (buffers s ! i) = Some a \<and> \<not> bf_released (buffers s ! i)
           \<and> pg_locked pg = m_Lock (bf_policy (buffers s ! i)) \<and> Buffer_Locked s i = pg_locked pg
           \<and> pg_dump pg = (\<not> m_DontDump (bf_policy (buffers s ! i))))
    \<or> pg_heap pg \<and> set (pg_bytes pg) \<subseteq> {0}"
proof -
  have ok: "mem_ok True s" unfolding assms(2) using run_mem_ok [OF mem_ok_new] assms(1) by blast
  show ?thesis
  proof (cases "owned s a")
    case True
    then obtain i where i: "i < length (buffers s)" "bf_mem (buffers s ! i) = Some a" unfolding owned_def by blast
    have "\<exists>!i. i < length (buffers s) \<and> bf_mem (buffers s ! i) = Some a" using i mem_okD(4) [OF ok] by blast
    then show ?thesis using i mem_okD(1) [OF ok i(1)] assms(3) by (auto simp: holds_def Buffer_Locked_def intro!: exI [of _ i])
  next
    case False
    then show ?thesis using mem_okD(6) [OF ok assms(3)] by blast
  qed
qed

theorem secmem_no_residue_witness:
  "pages (run_mem [OpFrom [1, 2], OpPolicy (Baseline\<lparr>m_Zero := True\<rparr>), OpFrom [3], OpRelease 1] (newStore [True, True, True])) 1
     = Some \<lparr>pg_bytes = [0], pg_heap = True, pg_locked = False, pg_dump = True\<rparr>
   \<and> set [0 :: byte] \<subseteq> {0}"
proof -
  let ?s = "run_mem [OpFrom [1, 2], OpPolicy (Baseline\<lparr>m_Zero := True\<rparr>), OpFrom [3], OpRelease 1] (newStore [True, True, True])"
  have p: "pages ?s 1 = Some \<lparr>pg_bytes = [0], pg_heap = True, pg_locked = False, pg_dump = True\<rparr>" by code_simp
  have "list_all zeroing [OpFrom [1, 2], OpPolicy (Baseline\<lparr>m_Zero := True\<rparr>), OpFrom [3], OpRelease 1]" by simp
  from secmem_no_residue [OF this refl p] p show ?thesis by simp
qed

end
