(* ===== verification/Cert.thy ===== *)
theory Cert
  imports Setup
begin

text \<open>
  \<^verbatim>\<open>pki/cert.go\<close>, \<^verbatim>\<open>descriptor.go\<close> and \<^verbatim>\<open>request.go\<close>: the three signed objects, their encodings and
  parsers, and the checks on names and addresses. Go strings are byte lists, an \<^verbatim>\<open>int64\<close> is the
  word of its bits, read with \<open>sint\<close>. \<^verbatim>\<open>netip.ParseAddr\<close> is an argument, \<open>ip\<close>: \<open>Some (zone, s)\<close>
  when it parses, with the zone and the canonical spelling that \<^verbatim>\<open>String\<close> gives, and \<open>None\<close> when
  it does not; nothing is assumed of it.
\<close>

section \<open>Constants\<close>

definition pkiVersion :: byte where "pkiVersion = 1"

definition SerialSize :: nat where "SerialSize = 16"

definition IDSize :: nat where "IDSize = 8"

definition pkiNonceSize :: nat where "pkiNonceSize = 16"

definition HashSize :: nat where "HashSize = 32"

definition maxName :: nat where "maxName = 32"

definition maxKey :: nat where "maxKey = 128"

definition maxSig :: nat where "maxSig = 128"

definition ascii :: "string \<Rightarrow> bytes" where
  "ascii s = map (\<lambda>c. word_of_nat (of_char c)) s"

definition certDomain :: bytes where "certDomain = ascii ''jimichi/cert/v1'' @ [0]"

definition descriptorDomain :: bytes where "descriptorDomain = ascii ''jimichi/descriptor/v1'' @ [0]"

definition requestDomain :: bytes where "requestDomain = ascii ''jimichi/csr/v1'' @ [0]"

definition signed_msg :: "bytes \<Rightarrow> bytes \<Rightarrow> bytes" where
  "signed_msg domain body = domain @ body"

section \<open>Names and addresses\<close>

definition byte_of :: "char \<Rightarrow> byte" where
  "byte_of c = word_of_nat (of_char c)"

definition is_digit :: "byte \<Rightarrow> bool" where
  "is_digit c \<longleftrightarrow> byte_of (CHR ''0'') \<le> c \<and> c \<le> byte_of (CHR ''9'')"

definition is_lower :: "byte \<Rightarrow> bool" where
  "is_lower c \<longleftrightarrow> byte_of (CHR ''a'') \<le> c \<and> c \<le> byte_of (CHR ''z'')"

definition name_char :: "byte \<Rightarrow> bool" where
  "name_char c \<longleftrightarrow> is_lower c \<or> is_digit c \<or> c = byte_of (CHR ''-'')"

definition ValidName :: "bytes \<Rightarrow> bool" where
  "ValidName s \<longleftrightarrow> s \<noteq> [] \<and> length s \<le> maxName \<and> list_all name_char s"

definition numeric :: "bytes \<Rightarrow> bool" where
  "numeric l \<longleftrightarrow> take 2 l = [byte_of (CHR ''0''), byte_of (CHR ''x'')] \<or> list_all is_digit l"

definition validLabel :: "bytes \<Rightarrow> bool" where
  "validLabel l \<longleftrightarrow> l \<noteq> [] \<and> hd l \<noteq> byte_of (CHR ''-'') \<and> last l \<noteq> byte_of (CHR ''-'') \<and> list_all name_char l"

definition validHost :: "(bytes \<Rightarrow> (bytes \<times> bytes) option) \<Rightarrow> bytes \<Rightarrow> bool" where
  "validHost ip h =
     (case ip h of
        Some (zone, spelled) \<Rightarrow> zone = [] \<and> spelled = h
      | None \<Rightarrow>
          (let labels = splitOn (byte_of (CHR ''.'')) h in list_all validLabel labels \<and> \<not> numeric (last labels)))"

fun portValue :: "nat \<Rightarrow> bytes \<Rightarrow> nat" where
  "portValue n [] = n"
| "portValue n (c # s) = portValue (n * 10 + unat (c - byte_of (CHR ''0''))) s"

definition validPort :: "bytes \<Rightarrow> bool" where
  "validPort s \<longleftrightarrow> s \<noteq> [] \<and> length s \<le> 5 \<and> hd s \<noteq> byte_of (CHR ''0'') \<and> list_all is_digit s \<and> portValue 0 s \<le> 65535"

text \<open>Positions of a byte, for \<^verbatim>\<open>net.SplitHostPort\<close>: the first and the last.\<close>

definition indexByte :: "byte \<Rightarrow> bytes \<Rightarrow> nat option" where
  "indexByte d s = (if d \<in> set s then Some (length (takeWhile (\<lambda>c. c \<noteq> d) s)) else None)"

definition lastIndexByte :: "byte \<Rightarrow> bytes \<Rightarrow> nat option" where
  "lastIndexByte d s = (case indexByte d (rev s) of None \<Rightarrow> None | Some k \<Rightarrow> Some (length s - 1 - k))"

definition SplitHostPort :: "bytes \<Rightarrow> (bytes \<times> bytes) option" where
  "SplitHostPort s =
     (case lastIndexByte (byte_of (CHR '':'')) s of
        None \<Rightarrow> None
      | Some i \<Rightarrow>
          (if hd s = byte_of (CHR ''['') then
             case indexByte (byte_of (CHR '']'')) s of
               None \<Rightarrow> None
             | Some e \<Rightarrow>
                 if e + 1 \<noteq> i then None
                 else if byte_of (CHR ''['') \<in> set (drop 1 s) \<or> byte_of (CHR '']'') \<in> set (drop (e + 1) s) then None
                 else Some (drop 1 (take e s), drop (i + 1) s)
           else if byte_of (CHR '':'') \<in> set (take i s) then None
           else if byte_of (CHR ''['') \<in> set s \<or> byte_of (CHR '']'') \<in> set s then None
           else Some (take i s, drop (i + 1) s)))"

definition ValidAddr :: "(bytes \<Rightarrow> (bytes \<times> bytes) option) \<Rightarrow> bytes \<Rightarrow> bool" where
  "ValidAddr ip s \<longleftrightarrow>
     s \<noteq> [] \<and> length s \<le> AddrSize \<and> list_all (\<lambda>c. 0x21 \<le> c \<and> c \<le> 0x7e) s
     \<and> (case SplitHostPort s of None \<Rightarrow> False | Some (host, port) \<Rightarrow> validHost ip host \<and> validPort port)"

section \<open>Writing\<close>

definition w_header :: "suite \<Rightarrow> bytes" where "w_header s = [pkiVersion, s]"

definition w_field :: "bytes \<Rightarrow> bytes" where "w_field p = word_of_nat (length p) # p"

section \<open>Reading\<close>

record reader =
  rd_b :: bytes
  rd_bad :: bool

definition rd_take :: "nat \<Rightarrow> reader \<Rightarrow> bytes option \<times> reader" where
  "rd_take n r =
     (if rd_bad r \<or> n > length (rd_b r) then (None, r\<lparr>rd_bad := True\<rparr>)
      else (Some (take n (rd_b r)), r\<lparr>rd_b := drop n (rd_b r)\<rparr>))"

definition suiteByName :: "string \<Rightarrow> suite option" where
  "suiteByName name =
     (if suite_String SuiteGOST = name then Some SuiteGOST
      else if suite_String SuiteC25519 = name then Some SuiteC25519 else None)"

definition pki_knownSuite :: "suite \<Rightarrow> bool" where
  "pki_knownSuite s \<longleftrightarrow> suiteByName (suite_String s) \<noteq> None"

definition rd_header :: "reader \<Rightarrow> suite result \<times> reader" where
  "rd_header r =
     (case rd_take 1 r of (v, r) \<Rightarrow>
        (case rd_take 1 r of (s, r) \<Rightarrow>
           (case (v, s) of
              (Some v, Some s) \<Rightarrow>
                if hd v \<noteq> pkiVersion then (Inl ErrPkiVersion, r)
                else if \<not> pki_knownSuite (hd s) then (Inl ErrSuite, r)
                else (Inr (hd s), r)
            | _ \<Rightarrow> (Inl ErrFormat, r))))"

definition rd_fixed :: "nat \<Rightarrow> reader \<Rightarrow> bytes \<times> reader" where
  "rd_fixed n r = (case rd_take n r of (b, r) \<Rightarrow> (case b of None \<Rightarrow> replicate n 0 | Some b \<Rightarrow> b, r))"

definition rd_u32 :: "reader \<Rightarrow> u32 \<times> reader" where
  "rd_u32 r = (case rd_take 4 r of (b, r) \<Rightarrow> (case b of None \<Rightarrow> 0 | Some b \<Rightarrow> Uint32 b, r))"

definition rd_i64 :: "reader \<Rightarrow> u64 \<times> reader" where
  "rd_i64 r = (case rd_take 8 r of (b, r) \<Rightarrow> (case b of None \<Rightarrow> 0 | Some b \<Rightarrow> Uint64 b, r))"

definition rd_field :: "nat \<Rightarrow> nat \<Rightarrow> reader \<Rightarrow> bytes \<times> reader" where
  "rd_field minLen maxLen r =
     (case rd_take 1 r of
        (None, r) \<Rightarrow> ([], r)
      | (Some n, r) \<Rightarrow>
          if unat (hd n) < minLen \<or> unat (hd n) > maxLen then ([], r\<lparr>rd_bad := True\<rparr>)
          else (case rd_take (unat (hd n)) r of (b, r) \<Rightarrow> (case b of None \<Rightarrow> [] | Some b \<Rightarrow> b, r)))"

definition rd_end :: "reader \<Rightarrow> unit result" where
  "rd_end r = (if rd_bad r \<or> rd_b r \<noteq> [] then Inl ErrFormat else Inr ())"

section \<open>Certificates\<close>

record Cert =
  c_Suite :: suite
  c_Serial :: bytes
  c_CAID :: bytes
  c_NotBefore :: u64
  c_NotAfter :: u64
  c_Name :: bytes
  c_Addr :: bytes
  c_Identity :: bytes
  c_Sig :: bytes

definition Cert_body :: "Cert \<Rightarrow> bytes" where
  "Cert_body c =
     w_header (c_Suite c) @ c_Serial c @ c_CAID c @ PutUint64 (c_NotBefore c) @ PutUint64 (c_NotAfter c)
       @ w_field (c_Name c) @ w_field (c_Addr c) @ w_field (c_Identity c)"

definition Cert_Marshal :: "Cert \<Rightarrow> bytes" where
  "Cert_Marshal c = Cert_body c @ w_field (c_Sig c)"

definition decodeCert :: "(bytes \<Rightarrow> (bytes \<times> bytes) option) \<Rightarrow> bytes \<Rightarrow> Cert result" where
  "decodeCert ip b =
     (case rd_header \<lparr>rd_b = b, rd_bad = False\<rparr> of
        (Inl e, r) \<Rightarrow> Inl e
      | (Inr s, r) \<Rightarrow>
          (case rd_fixed SerialSize r of (serial, r) \<Rightarrow>
          (case rd_fixed IDSize r of (caid, r) \<Rightarrow>
          (case rd_i64 r of (nb, r) \<Rightarrow>
          (case rd_i64 r of (na, r) \<Rightarrow>
          (case rd_field 1 maxName r of (name, r) \<Rightarrow>
          (case rd_field 1 AddrSize r of (addr, r) \<Rightarrow>
          (case rd_field 1 maxKey r of (identity, r) \<Rightarrow>
          (case rd_field 0 maxSig r of (sig, r) \<Rightarrow>
             (case rd_end r of
                Inl e \<Rightarrow> Inl e
              | Inr _ \<Rightarrow>
                  if \<not> ValidName name \<or> \<not> ValidAddr ip addr then Inl ErrFormat
                  else Inr \<lparr>c_Suite = s, c_Serial = serial, c_CAID = caid, c_NotBefore = nb, c_NotAfter = na,
                            c_Name = name, c_Addr = addr, c_Identity = identity, c_Sig = sig\<rparr>))))))))))"

definition ParseCert :: "(bytes \<Rightarrow> (bytes \<times> bytes) option) \<Rightarrow> bytes \<Rightarrow> Cert result" where
  "ParseCert ip b =
     (case decodeCert ip b of
        Inl e \<Rightarrow> Inl e
      | Inr c \<Rightarrow> if Cert_Marshal c \<noteq> b then Inl ErrFormat else Inr c)"

section \<open>Descriptors\<close>

record Descriptor =
  d_Suite :: suite
  d_Epoch :: u32
  d_Published :: u64
  d_Expires :: u64
  d_CertHash :: bytes
  d_LinkPub :: bytes
  d_OnionPub :: bytes
  d_Sig :: bytes

definition Descriptor_body :: "Descriptor \<Rightarrow> bytes" where
  "Descriptor_body d =
     w_header (d_Suite d) @ PutUint32 (d_Epoch d) @ PutUint64 (d_Published d) @ PutUint64 (d_Expires d)
       @ d_CertHash d @ w_field (d_LinkPub d) @ w_field (d_OnionPub d)"

definition Descriptor_Marshal :: "Descriptor \<Rightarrow> bytes" where
  "Descriptor_Marshal d = Descriptor_body d @ w_field (d_Sig d)"

definition decodeDescriptor :: "bytes \<Rightarrow> Descriptor result" where
  "decodeDescriptor b =
     (case rd_header \<lparr>rd_b = b, rd_bad = False\<rparr> of
        (Inl e, r) \<Rightarrow> Inl e
      | (Inr s, r) \<Rightarrow>
          (case rd_u32 r of (epoch, r) \<Rightarrow>
          (case rd_i64 r of (published, r) \<Rightarrow>
          (case rd_i64 r of (expires, r) \<Rightarrow>
          (case rd_fixed HashSize r of (hash, r) \<Rightarrow>
          (case rd_field 1 maxKey r of (link, r) \<Rightarrow>
          (case rd_field 1 maxKey r of (onion, r) \<Rightarrow>
          (case rd_field 0 maxSig r of (sig, r) \<Rightarrow>
             (case rd_end r of
                Inl e \<Rightarrow> Inl e
              | Inr _ \<Rightarrow>
                  Inr \<lparr>d_Suite = s, d_Epoch = epoch, d_Published = published, d_Expires = expires, d_CertHash = hash,
                       d_LinkPub = link, d_OnionPub = onion, d_Sig = sig\<rparr>)))))))))"

definition ParseDescriptor :: "bytes \<Rightarrow> Descriptor result" where
  "ParseDescriptor b =
     (case decodeDescriptor b of
        Inl e \<Rightarrow> Inl e
      | Inr d \<Rightarrow> if Descriptor_Marshal d \<noteq> b then Inl ErrFormat else Inr d)"

section \<open>Requests\<close>

record Request =
  q_Suite :: suite
  q_Nonce :: bytes
  q_Name :: bytes
  q_Addr :: bytes
  q_Identity :: bytes
  q_Sig :: bytes

definition Request_body :: "Request \<Rightarrow> bytes" where
  "Request_body r =
     w_header (q_Suite r) @ q_Nonce r @ w_field (q_Name r) @ w_field (q_Addr r) @ w_field (q_Identity r)"

definition Request_Marshal :: "Request \<Rightarrow> bytes" where
  "Request_Marshal r = Request_body r @ w_field (q_Sig r)"

definition decodeRequest :: "(bytes \<Rightarrow> (bytes \<times> bytes) option) \<Rightarrow> bytes \<Rightarrow> Request result" where
  "decodeRequest ip b =
     (case rd_header \<lparr>rd_b = b, rd_bad = False\<rparr> of
        (Inl e, r) \<Rightarrow> Inl e
      | (Inr s, r) \<Rightarrow>
          (case rd_fixed pkiNonceSize r of (nonce, r) \<Rightarrow>
          (case rd_field 1 maxName r of (name, r) \<Rightarrow>
          (case rd_field 1 AddrSize r of (addr, r) \<Rightarrow>
          (case rd_field 1 maxKey r of (identity, r) \<Rightarrow>
          (case rd_field 0 maxSig r of (sig, r) \<Rightarrow>
             (case rd_end r of
                Inl e \<Rightarrow> Inl e
              | Inr _ \<Rightarrow>
                  if \<not> ValidName name \<or> \<not> ValidAddr ip addr then Inl ErrFormat
                  else Inr \<lparr>q_Suite = s, q_Nonce = nonce, q_Name = name, q_Addr = addr, q_Identity = identity, q_Sig = sig\<rparr>)))))))"

definition ParseRequest :: "(bytes \<Rightarrow> (bytes \<times> bytes) option) \<Rightarrow> bytes \<Rightarrow> Request result" where
  "ParseRequest ip b =
     (case decodeRequest ip b of
        Inl e \<Rightarrow> Inl e
      | Inr r \<Rightarrow> if Request_Marshal r \<noteq> b then Inl ErrFormat else Inr r)"

definition Request_verify :: "provider \<Rightarrow> Request \<Rightarrow> unit result" where
  "Request_verify p r =
     (if \<not> pVerify p (q_Identity r) (signed_msg requestDomain (Request_body r)) (q_Sig r) then Inl ErrRequestSignature else Inr ())"

definition Request_Check :: "provider \<Rightarrow> bytes \<Rightarrow> bytes \<Rightarrow> bytes \<Rightarrow> Request \<Rightarrow> unit result" where
  "Request_Check p nonce name addr r =
     (if q_Suite r \<noteq> pSuite p then Inl ErrSuite
      else if q_Nonce r \<noteq> nonce then Inl ErrPkiNonce
      else if q_Name r \<noteq> name \<or> q_Addr r \<noteq> addr then Inl ErrRoster
      else Request_verify p r)"

section \<open>Readers undo writers\<close>

text \<open>
  A strict codec: the parser accepts exactly the encodings of well-formed values, so a value has one
  spelling.
\<close>

locale strict_codec =
  fixes enc :: "'a \<Rightarrow> 'b" and parse :: "'b \<Rightarrow> 'a result" and wf :: "'a \<Rightarrow> bool"
  assumes parse_iff: "parse b = Inr x \<longleftrightarrow> wf x \<and> b = enc x"
begin

lemma parse_enc: "wf x \<Longrightarrow> parse (enc x) = Inr x"
  by (simp add: parse_iff)

lemma one_spelling: "parse b = Inr x \<Longrightarrow> parse b' = Inr x \<Longrightarrow> b = b'"
  by (simp add: parse_iff)

lemma enc_inj: "wf x \<Longrightarrow> wf y \<Longrightarrow> enc x = enc y \<longleftrightarrow> x = y"
  by (metis parse_enc sum.inject(2))

end

lemma rd_take_ok:
  "rd_take n r = (x, r') \<Longrightarrow> \<not> rd_bad r' \<Longrightarrow> \<not> rd_bad r \<and> (\<exists>b. x = Some b \<and> length b = n \<and> rd_b r = b @ rd_b r')"
  by (auto simp: rd_take_def split: if_splits)

lemma rd_take_append: "length x = n \<Longrightarrow> rd_take n \<lparr>rd_b = x @ rest, rd_bad = False\<rparr> = (Some x, \<lparr>rd_b = rest, rd_bad = False\<rparr>)"
  by (simp add: rd_take_def)

lemma rd_fixed_ok: "rd_fixed n r = (x, r') \<Longrightarrow> \<not> rd_bad r' \<Longrightarrow> \<not> rd_bad r \<and> length x = n \<and> rd_b r = x @ rd_b r'"
  by (auto simp: rd_fixed_def dest: rd_take_ok split: prod.splits)

lemma rd_fixed_append [codec]:
  "length x = n \<Longrightarrow> rd_fixed n \<lparr>rd_b = x @ rest, rd_bad = False\<rparr> = (x, \<lparr>rd_b = rest, rd_bad = False\<rparr>)"
  by (simp add: rd_fixed_def rd_take_append)

lemma rd_i64_ok: "rd_i64 r = (x, r') \<Longrightarrow> \<not> rd_bad r' \<Longrightarrow> \<not> rd_bad r \<and> rd_b r = PutUint64 x @ rd_b r'"
  by (auto simp: rd_i64_def codec dest!: rd_take_ok split: prod.splits)

lemma rd_i64_append [codec]: "rd_i64 \<lparr>rd_b = PutUint64 x @ rest, rd_bad = False\<rparr> = (x, \<lparr>rd_b = rest, rd_bad = False\<rparr>)"
  by (simp add: rd_i64_def rd_take_append codec)

lemma rd_u32_ok: "rd_u32 r = (x, r') \<Longrightarrow> \<not> rd_bad r' \<Longrightarrow> \<not> rd_bad r \<and> rd_b r = PutUint32 x @ rd_b r'"
  by (auto simp: rd_u32_def codec dest!: rd_take_ok split: prod.splits)

lemma rd_u32_append [codec]: "rd_u32 \<lparr>rd_b = PutUint32 x @ rest, rd_bad = False\<rparr> = (x, \<lparr>rd_b = rest, rd_bad = False\<rparr>)"
  by (simp add: rd_u32_def rd_take_append codec)

lemma rd_field_ok:
  assumes "rd_field lo hi r = (x, r')" "\<not> rd_bad r'"
  shows "\<not> rd_bad r \<and> lo \<le> length x \<and> length x \<le> hi \<and> rd_b r = w_field x @ rd_b r'"
proof -
  obtain n r1 where n: "rd_take 1 r = (n, r1)" by (meson surj_pair)
  have "\<not> rd_bad r1" using assms n by (auto simp: rd_field_def rd_take_def split: option.splits if_splits prod.splits)
  then obtain b where b: "\<not> rd_bad r" "n = Some [b]" "rd_b r = b # rd_b r1"
    using rd_take_ok [OF n] by (auto simp: length_Suc_conv)
  then obtain y where y: "rd_take (unat b) r1 = (y, r')" "x = (case y of None \<Rightarrow> [] | Some z \<Rightarrow> z)" "lo \<le> unat b" "unat b \<le> hi"
    using assms n by (auto simp: rd_field_def split: if_splits prod.splits)
  show ?thesis using rd_take_ok [OF y(1) assms(2)] y(2-4) b by (auto simp: w_field_def)
qed

lemma rd_field_append [codec]:
  assumes "lo \<le> length x" "length x \<le> hi" "hi \<le> 255"
  shows "rd_field lo hi \<lparr>rd_b = w_field x @ rest, rd_bad = False\<rparr> = (x, \<lparr>rd_b = rest, rd_bad = False\<rparr>)"
proof -
  have "unat (word_of_nat (length x) :: byte) = length x" using assms by (simp add: unat_of_nat)
  then show ?thesis using assms by (simp add: rd_field_def w_field_def rd_take_def)
qed

lemma rd_header_ok:
  "rd_header \<lparr>rd_b = b, rd_bad = False\<rparr> = (Inr s, r) \<Longrightarrow> pki_knownSuite s \<and> (\<not> rd_bad r \<longrightarrow> b = w_header s @ rd_b r)"
  by (cases b rule: list.exhaust; cases "tl b") (auto simp: rd_header_def rd_take_def w_header_def split: if_splits)

lemma rd_header_append [codec]:
  "pki_knownSuite s \<Longrightarrow> rd_header \<lparr>rd_b = w_header s @ rest, rd_bad = False\<rparr> = (Inr s, \<lparr>rd_b = rest, rd_bad = False\<rparr>)"
  by (simp add: rd_header_def rd_take_def w_header_def)

lemma rd_end_ok: "rd_end r = Inr u \<longleftrightarrow> \<not> rd_bad r \<and> rd_b r = []"
  by (auto simp: rd_end_def)

lemma maxima: "maxName \<le> 255" "AddrSize \<le> 255" "maxKey \<le> 255" "maxSig \<le> 255"
  by (simp_all add: maxName_def AddrSize_def maxKey_def maxSig_def)

lemma knownSuite_eq: "pki_knownSuite s \<longleftrightarrow> knownSuite s"
  by (auto simp: pki_knownSuite_def suiteByName_def suite_String_def knownSuite_def)

section \<open>The three codecs\<close>

definition wf_cert :: "(bytes \<Rightarrow> (bytes \<times> bytes) option) \<Rightarrow> Cert \<Rightarrow> bool" where
  "wf_cert ip c \<longleftrightarrow> knownSuite (c_Suite c) \<and> length (c_Serial c) = SerialSize \<and> length (c_CAID c) = IDSize
     \<and> ValidName (c_Name c) \<and> ValidAddr ip (c_Addr c) \<and> 1 \<le> length (c_Identity c) \<and> length (c_Identity c) \<le> maxKey
     \<and> length (c_Sig c) \<le> maxSig"

lemma ValidName_size: "ValidName s \<Longrightarrow> 1 \<le> length s \<and> length s \<le> maxName"
  by (cases s) (auto simp: ValidName_def)

lemma ValidAddr_size: "ValidAddr ip s \<Longrightarrow> 1 \<le> length s \<and> length s \<le> AddrSize"
  by (cases s) (auto simp: ValidAddr_def)

lemma decodeCert_Marshal: "wf_cert ip c \<Longrightarrow> decodeCert ip (Cert_Marshal c) = Inr c"
  using ValidName_size [of "c_Name c"] ValidAddr_size [of ip "c_Addr c"] rd_field_append [of 0 "c_Sig c" maxSig "[]"]
  by (simp add: wf_cert_def decodeCert_def Cert_Marshal_def Cert_body_def codec knownSuite_eq maxima rd_end_def)

lemma decodeCert_Inr:
  assumes "decodeCert ip b = Inr c"
  shows "wf_cert ip c \<and> b = Cert_Marshal c"
proof -
  obtain s r0 serial r1 caid r2 nb r3 na r4 name r5 addr r6 ident r7 sig r8 where
    h: "rd_header \<lparr>rd_b = b, rd_bad = False\<rparr> = (Inr s, r0)" and
    r: "rd_fixed SerialSize r0 = (serial, r1)" "rd_fixed IDSize r1 = (caid, r2)" "rd_i64 r2 = (nb, r3)" "rd_i64 r3 = (na, r4)"
      "rd_field 1 maxName r4 = (name, r5)" "rd_field 1 AddrSize r5 = (addr, r6)" "rd_field 1 maxKey r6 = (ident, r7)"
      "rd_field 0 maxSig r7 = (sig, r8)" and
    e: "\<not> rd_bad r8" "rd_b r8 = []" and v: "ValidName name" "ValidAddr ip addr" and
    c: "c = \<lparr>c_Suite = s, c_Serial = serial, c_CAID = caid, c_NotBefore = nb, c_NotAfter = na,
                            c_Name = name, c_Addr = addr, c_Identity = ident, c_Sig = sig\<rparr>"
    using assms by (auto simp: decodeCert_def rd_end_ok split: prod.splits sum.splits if_splits)
  note k8 = rd_field_ok [OF r(8) e(1)]
  note k7 = rd_field_ok [OF r(7) conjunct1 [OF k8]]
  note k6 = rd_field_ok [OF r(6) conjunct1 [OF k7]]
  note k5 = rd_field_ok [OF r(5) conjunct1 [OF k6]]
  note k4 = rd_i64_ok [OF r(4) conjunct1 [OF k5]]
  note k3 = rd_i64_ok [OF r(3) conjunct1 [OF k4]]
  note k2 = rd_fixed_ok [OF r(2) conjunct1 [OF k3]]
  note k1 = rd_fixed_ok [OF r(1) conjunct1 [OF k2]]
  show ?thesis
    using rd_header_ok [OF h] k1 k2 k3 k4 k5 k6 k7 k8 e v by (simp add: c wf_cert_def Cert_Marshal_def Cert_body_def knownSuite_eq)
qed

interpretation cert: strict_codec Cert_Marshal "ParseCert ip" "wf_cert ip" for ip
  by unfold_locales (auto simp: ParseCert_def decodeCert_Marshal dest: decodeCert_Inr split: sum.splits if_splits)

definition wf_descriptor :: "Descriptor \<Rightarrow> bool" where
  "wf_descriptor d \<longleftrightarrow> knownSuite (d_Suite d) \<and> length (d_CertHash d) = HashSize
     \<and> 1 \<le> length (d_LinkPub d) \<and> length (d_LinkPub d) \<le> maxKey \<and> 1 \<le> length (d_OnionPub d) \<and> length (d_OnionPub d) \<le> maxKey
     \<and> length (d_Sig d) \<le> maxSig"

lemma decodeDescriptor_Marshal: "wf_descriptor d \<Longrightarrow> decodeDescriptor (Descriptor_Marshal d) = Inr d"
  using rd_field_append [of 0 "d_Sig d" maxSig "[]"]
  by (simp add: wf_descriptor_def decodeDescriptor_def Descriptor_Marshal_def Descriptor_body_def codec knownSuite_eq maxima rd_end_def)

lemma decodeDescriptor_Inr:
  assumes "decodeDescriptor b = Inr d"
  shows "wf_descriptor d \<and> b = Descriptor_Marshal d"
proof -
  obtain s r0 epoch r1 pb r2 ex r3 hash r4 lk r5 on r6 sig r7 where
    h: "rd_header \<lparr>rd_b = b, rd_bad = False\<rparr> = (Inr s, r0)" and
    r: "rd_u32 r0 = (epoch, r1)" "rd_i64 r1 = (pb, r2)" "rd_i64 r2 = (ex, r3)" "rd_fixed HashSize r3 = (hash, r4)"
      "rd_field 1 maxKey r4 = (lk, r5)" "rd_field 1 maxKey r5 = (on, r6)" "rd_field 0 maxSig r6 = (sig, r7)" and
    e: "\<not> rd_bad r7" "rd_b r7 = []" and
    d: "d = \<lparr>d_Suite = s, d_Epoch = epoch, d_Published = pb, d_Expires = ex, d_CertHash = hash,
                       d_LinkPub = lk, d_OnionPub = on, d_Sig = sig\<rparr>"
    using assms by (auto simp: decodeDescriptor_def rd_end_ok split: prod.splits sum.splits if_splits)
  note k7 = rd_field_ok [OF r(7) e(1)]
  note k6 = rd_field_ok [OF r(6) conjunct1 [OF k7]]
  note k5 = rd_field_ok [OF r(5) conjunct1 [OF k6]]
  note k4 = rd_fixed_ok [OF r(4) conjunct1 [OF k5]]
  note k3 = rd_i64_ok [OF r(3) conjunct1 [OF k4]]
  note k2 = rd_i64_ok [OF r(2) conjunct1 [OF k3]]
  note k1 = rd_u32_ok [OF r(1) conjunct1 [OF k2]]
  show ?thesis
    using rd_header_ok [OF h] k1 k2 k3 k4 k5 k6 k7 e by (simp add: d wf_descriptor_def Descriptor_Marshal_def Descriptor_body_def knownSuite_eq)
qed

interpretation descriptor: strict_codec Descriptor_Marshal ParseDescriptor wf_descriptor
  by unfold_locales (auto simp: ParseDescriptor_def decodeDescriptor_Marshal dest: decodeDescriptor_Inr split: sum.splits if_splits)

definition wf_request :: "(bytes \<Rightarrow> (bytes \<times> bytes) option) \<Rightarrow> Request \<Rightarrow> bool" where
  "wf_request ip r \<longleftrightarrow> knownSuite (q_Suite r) \<and> length (q_Nonce r) = pkiNonceSize
     \<and> ValidName (q_Name r) \<and> ValidAddr ip (q_Addr r) \<and> 1 \<le> length (q_Identity r) \<and> length (q_Identity r) \<le> maxKey
     \<and> length (q_Sig r) \<le> maxSig"

lemma decodeRequest_Marshal: "wf_request ip r \<Longrightarrow> decodeRequest ip (Request_Marshal r) = Inr r"
  using ValidName_size [of "q_Name r"] ValidAddr_size [of ip "q_Addr r"] rd_field_append [of 0 "q_Sig r" maxSig "[]"]
  by (simp add: wf_request_def decodeRequest_def Request_Marshal_def Request_body_def codec knownSuite_eq maxima rd_end_def)

lemma decodeRequest_Inr:
  assumes "decodeRequest ip b = Inr q"
  shows "wf_request ip q \<and> b = Request_Marshal q"
proof -
  obtain s r0 nonce r1 name r2 addr r3 ident r4 sig r5 where
    h: "rd_header \<lparr>rd_b = b, rd_bad = False\<rparr> = (Inr s, r0)" and
    r: "rd_fixed pkiNonceSize r0 = (nonce, r1)" "rd_field 1 maxName r1 = (name, r2)" "rd_field 1 AddrSize r2 = (addr, r3)"
      "rd_field 1 maxKey r3 = (ident, r4)" "rd_field 0 maxSig r4 = (sig, r5)" and
    e: "\<not> rd_bad r5" "rd_b r5 = []" and v: "ValidName name" "ValidAddr ip addr" and
    q: "q = \<lparr>q_Suite = s, q_Nonce = nonce, q_Name = name, q_Addr = addr, q_Identity = ident, q_Sig = sig\<rparr>"
    using assms by (auto simp: decodeRequest_def rd_end_ok split: prod.splits sum.splits if_splits)
  note k5 = rd_field_ok [OF r(5) e(1)]
  note k4 = rd_field_ok [OF r(4) conjunct1 [OF k5]]
  note k3 = rd_field_ok [OF r(3) conjunct1 [OF k4]]
  note k2 = rd_field_ok [OF r(2) conjunct1 [OF k3]]
  note k1 = rd_fixed_ok [OF r(1) conjunct1 [OF k2]]
  show ?thesis
    using rd_header_ok [OF h] k1 k2 k3 k4 k5 e v by (simp add: q wf_request_def Request_Marshal_def Request_body_def knownSuite_eq)
qed

interpretation request: strict_codec Request_Marshal "ParseRequest ip" "wf_request ip" for ip
  by unfold_locales (auto simp: ParseRequest_def decodeRequest_Marshal dest: decodeRequest_Inr split: sum.splits if_splits)

section \<open>What the encodings promise\<close>

text \<open>C34: the three signed objects have strict encodings: a byte string is accepted exactly when it
  is what marshalling writes for a value within the bounds of the format, and it is then read back as
  that value, so that the bytes that are hashed and signed have one spelling.\<close>

theorem pki_codecs_strict:
  "(ParseCert ip b = Inr c \<longleftrightarrow> wf_cert ip c \<and> b = Cert_Marshal c)
   \<and> (ParseDescriptor b = Inr d \<longleftrightarrow> wf_descriptor d \<and> b = Descriptor_Marshal d)
   \<and> (ParseRequest ip b = Inr r \<longleftrightarrow> wf_request ip r \<and> b = Request_Marshal r)"
  by (simp add: cert.parse_iff descriptor.parse_iff request.parse_iff)

lemma domain_start:
  assumes "d \<in> {certDomain, descriptorDomain, requestDomain}" "d' \<in> {certDomain, descriptorDomain, requestDomain}"
    and "take 10 (d @ b) = take 10 (d' @ b')"
  shows "d = d'"
  using assms by (auto simp: certDomain_def descriptorDomain_def requestDomain_def ascii_def)

text \<open>a signature never moves from one kind of object to another: the byte strings signed for a
  certificate, a descriptor and a request differ whatever their bodies are.\<close>

theorem signatures_separate:
  assumes "d \<in> {certDomain, descriptorDomain, requestDomain}" "d' \<in> {certDomain, descriptorDomain, requestDomain}"
    and "signed_msg d b = signed_msg d' b'"
  shows "d = d' \<and> b = b'"
proof -
  have "d @ b = d' @ b'" using assms(3) by (simp add: signed_msg_def)
  moreover from this have "d = d'" using domain_start [OF assms(1,2), of b b'] by (simp only:)
  ultimately show ?thesis by simp
qed

theorem signatures_separate_witness:
  "signed_msg certDomain [1] \<noteq> signed_msg requestDomain [2]"
  using signatures_separate [of certDomain requestDomain "[1]" "[2]"] by auto

text \<open>An address that the certificate format accepts passes through the padded address field of
  a setup layer unchanged, so the relay dials the address that was certified.\<close>

lemma valid_addr_survives_setup:
  assumes "ValidAddr ip a"
  shows "\<exists>field. putAddr (replicate AddrSize 0) a = Inr field \<and> length field = AddrSize \<and> takeAddr field = a"
proof -
  have "0x21 \<le> last a" if "a \<noteq> []"
    using assms last_in_set [OF that] by (auto simp: ValidAddr_def list_all_iff)
  then have "no_trailing_zero a" by (auto simp: no_trailing_zero_def)
  then show ?thesis
    using ValidAddr_size [OF assms] takeAddr_pad [of a] by (simp add: putAddr_def copy_def)
qed

lemma sample_addr: "ValidAddr (\<lambda>_. None) (ascii ''relay-1:9001'')" "ValidName (ascii ''relay-1'')"
  by (simp_all add: ValidAddr_def ascii_def AddrSize_def SplitHostPort_def lastIndexByte_def indexByte_def byte_of_def validHost_def
      validPort_def is_digit_def is_lower_def name_char_def validLabel_def numeric_def ValidName_def maxName_def)

end
