(* ===== verification/Anchor.thy ===== *)
theory Anchor
  imports Cert
begin

text \<open>
  \<^verbatim>\<open>pki/anchor.go\<close>: the trust anchor and its text form, with the strict base64 of
  \<^verbatim>\<open>encoding/base64\<close> that it and the bundles use. Text is \<open>string\<close>, a list of 8-bit characters.
\<close>

section \<open>Base64\<close>

definition alphabet :: string where
  "alphabet = ''ABCDEFGHIJKLMNOPQRSTUVWXYZabcdefghijklmnopqrstuvwxyz0123456789+/''"

definition b64char :: "nat \<Rightarrow> char" where
  "b64char n = alphabet ! n"

fun position :: "'a \<Rightarrow> 'a list \<Rightarrow> nat option" where
  "position x [] = None"
| "position x (y # ys) = (if x = y then Some 0 else map_option Suc (position x ys))"

definition b64value :: "char \<Rightarrow> nat option" where
  "b64value c = position c alphabet"

text \<open>\<^verbatim>\<open>StdEncoding.EncodeToString\<close>.\<close>

fun EncodeToString :: "bytes \<Rightarrow> string" where
  "EncodeToString (a # b # c # rest) =
     [b64char (unat a div 4), b64char (unat a mod 4 * 16 + unat b div 16), b64char (unat b mod 16 * 4 + unat c div 64),
      b64char (unat c mod 64)] @ EncodeToString rest"
| "EncodeToString [a, b] =
     [b64char (unat a div 4), b64char (unat a mod 4 * 16 + unat b div 16), b64char (unat b mod 16 * 4), CHR ''='']"
| "EncodeToString [a] = [b64char (unat a div 4), b64char (unat a mod 4 * 16), CHR ''='', CHR ''='']"
| "EncodeToString [] = ''''"

text \<open>
  \<^verbatim>\<open>StdEncoding.Strict().DecodeString\<close>: line breaks are skipped, padding only ends the text, and
  the bits that padding leaves over must be zero.
\<close>

fun decodeQuanta :: "string \<Rightarrow> bytes option" where
  "decodeQuanta [] = Some []"
| "decodeQuanta (a # b # c # d # rest) =
     (case (b64value a, b64value b) of
        (Some x, Some y) \<Rightarrow>
          if c = CHR ''='' then
            (if d = CHR ''='' \<and> rest = [] \<and> y mod 16 = 0 then Some [word_of_nat (x * 4 + y div 16)] else None)
          else
            (case b64value c of
               None \<Rightarrow> None
             | Some z \<Rightarrow>
                 if d = CHR ''='' then
                   (if rest = [] \<and> z mod 4 = 0
                    then Some [word_of_nat (x * 4 + y div 16), word_of_nat (y mod 16 * 16 + z div 4)] else None)
                 else
                   (case (b64value d, decodeQuanta rest) of
                      (Some u, Some bs) \<Rightarrow>
                        Some ([word_of_nat (x * 4 + y div 16), word_of_nat (y mod 16 * 16 + z div 4),
                               word_of_nat (z mod 4 * 64 + u)] @ bs)
                    | _ \<Rightarrow> None))
      | _ \<Rightarrow> None)"
| "decodeQuanta _ = None"

definition DecodeString :: "string \<Rightarrow> bytes option" where
  "DecodeString s = decodeQuanta (filter (\<lambda>c. c \<noteq> CHR 0x0A \<and> c \<noteq> CHR 0x0D) s)"

section \<open>Anchors\<close>

record Anchor =
  an_Suite :: suite
  an_Pub :: bytes

definition Anchor_String :: "Anchor \<Rightarrow> string" where
  "Anchor_String a = suite_String (an_Suite a) @ '':'' @ EncodeToString (an_Pub a)"

text \<open>\<^verbatim>\<open>strings.Cut\<close> at the first colon.\<close>

definition Cut :: "string \<Rightarrow> (string \<times> string) option" where
  "Cut s = (if CHR '':'' \<in> set s then Some (takeWhile (\<lambda>c. c \<noteq> CHR '':'') s, tl (dropWhile (\<lambda>c. c \<noteq> CHR '':'') s)) else None)"

definition ParseAnchor :: "string \<Rightarrow> Anchor result" where
  "ParseAnchor s =
     (case Cut s of
        None \<Rightarrow> Inl ErrFormat
      | Some (name, enc) \<Rightarrow>
          (case suiteByName name of
             None \<Rightarrow> Inl ErrSuite
           | Some suite \<Rightarrow>
               (case DecodeString enc of
                  None \<Rightarrow> Inl ErrFormat
                | Some pub \<Rightarrow>
                    if pub = [] \<or> length pub > maxKey then Inl ErrFormat
                    else
                      let a = \<lparr>an_Suite = suite, an_Pub = pub\<rparr> in
                      if Anchor_String a \<noteq> s then Inl ErrFormat else Inr a)))"

definition keyID :: "provider \<Rightarrow> bytes \<Rightarrow> bytes" where
  "keyID p pub = copy (replicate IDSize 0) (pHash p pub)"

definition Anchor_ID :: "provider \<Rightarrow> Anchor \<Rightarrow> bytes" where
  "Anchor_ID p a = keyID p (an_Pub a)"

definition hexDigits :: string where "hexDigits = ''0123456789abcdef''"

definition hexEncode :: "bytes \<Rightarrow> string" where
  "hexEncode bs = concat (map (\<lambda>b. [hexDigits ! (unat b div 16), hexDigits ! (unat b mod 16)]) bs)"

definition Fingerprint :: "provider \<Rightarrow> bytes \<Rightarrow> string" where
  "Fingerprint p pub = hexEncode (keyID p pub)"

definition KeyHash :: "provider \<Rightarrow> bytes \<Rightarrow> string" where
  "KeyHash p pub = hexEncode (pHash p pub)"

section \<open>Decoding what was encoded\<close>

lemma position_nth: "distinct xs \<Longrightarrow> i < length xs \<Longrightarrow> position (xs ! i) xs = Some i"
proof (induction xs arbitrary: i)
  case (Cons x xs)
  then show ?case by (cases i) (auto simp: nth_Cons)
qed simp

lemma alphabet_ok: "distinct alphabet" "length alphabet = 64"
  by (simp_all add: alphabet_def)

lemma b64value_char [codec]: "n < 64 \<Longrightarrow> b64value (b64char n) = Some n"
  using position_nth [OF alphabet_ok(1)] alphabet_ok(2) by (simp add: b64value_def b64char_def)

lemma b64char_plain: "n < 64 \<Longrightarrow> b64char n \<notin> {CHR ''='', CHR 0x0A, CHR 0x0D}"
proof -
  assume "n < 64"
  then have "b64char n \<in> set alphabet" using alphabet_ok(2) by (simp add: b64char_def)
  then show ?thesis by (auto simp: alphabet_def)
qed

lemma byte_parts:
  fixes b :: byte
  shows "unat b div 4 < 64" "unat b div 16 < 16" "unat b div 64 < 4"
proof -
  have "unat b < 256" using unsigned_less [of b] by simp
  then show "unat b div 4 < 64" "unat b div 16 < 16" "unat b div 64 < 4" by (simp_all add: div_less_iff_less_mult)
qed

lemma sextet:
  "q < 16 \<Longrightarrow> r mod 4 * 16 + q < (64 :: nat)" "q < 4 \<Longrightarrow> r mod 16 * 4 + q < (64 :: nat)"
proof -
  show "q < 16 \<Longrightarrow> r mod 4 * 16 + q < (64 :: nat)" using mod_less_divisor [of 4 r] by linarith
  show "q < 4 \<Longrightarrow> r mod 16 * 4 + q < (64 :: nat)" using mod_less_divisor [of 16 r] by linarith
qed

lemma join_bytes:
  fixes a :: byte
  shows "q < 16 \<Longrightarrow> word_of_nat (unat a div 4 * 4 + (unat a mod 4 * 16 + q) div 16) = a"
    and "q < 16 \<Longrightarrow> t < 4 \<Longrightarrow> q = unat a div 16 \<Longrightarrow> word_of_nat ((r * 16 + q) mod 16 * 16 + (unat a mod 16 * 4 + t) div 4) = a"
    and "t < 4 \<Longrightarrow> t = unat a div 64 \<Longrightarrow> word_of_nat ((r * 4 + t) mod 4 * 64 + unat a mod 64) = a"
proof -
  assume q: "q < 16"
  then have "(unat a mod 4 * 16 + q) div 16 = unat a mod 4" by simp
  then show "word_of_nat (unat a div 4 * 4 + (unat a mod 4 * 16 + q) div 16) = a" by (simp only: div_mult_mod_eq) simp
next
  assume q: "q < 16" "t < 4" "q = unat a div 16"
  then have "(r * 16 + q) mod 16 = unat a div 16" "(unat a mod 16 * 4 + t) div 4 = unat a mod 16" by simp_all
  then show "word_of_nat ((r * 16 + q) mod 16 * 16 + (unat a mod 16 * 4 + t) div 4) = a" by (simp only: div_mult_mod_eq) simp
next
  assume t: "t < 4" "t = unat a div 64"
  then have "(r * 4 + t) mod 4 = unat a div 64" by simp
  then show "word_of_nat ((r * 4 + t) mod 4 * 64 + unat a mod 64) = a" by (simp only: div_mult_mod_eq) simp
qed

lemma quantum3:
  assumes "b64value p = Some x" "b64value q = Some y" "b64value r = Some z" "b64value s = Some u" "r \<noteq> CHR ''=''" "s \<noteq> CHR ''=''"
    "decodeQuanta rest = Some bs"
  shows "decodeQuanta (p # q # r # s # rest) =
    Some (word_of_nat (x * 4 + y div 16) # word_of_nat (y mod 16 * 16 + z div 4) # word_of_nat (z mod 4 * 64 + u) # bs)"
  using assms by simp

lemma quantum2:
  assumes "b64value p = Some x" "b64value q = Some y" "b64value r = Some z" "r \<noteq> CHR ''=''" "z mod 4 = 0"
  shows "decodeQuanta [p, q, r, CHR ''=''] = Some [word_of_nat (x * 4 + y div 16), word_of_nat (y mod 16 * 16 + z div 4)]"
  using assms by simp

lemma quantum1:
  assumes "b64value p = Some x" "b64value q = Some y" "y mod 16 = 0"
  shows "decodeQuanta [p, q, CHR ''='', CHR ''=''] = Some [word_of_nat (x * 4 + y div 16)]"
  using assms by simp

lemma decodeQuanta_Encode [codec]: "decodeQuanta (EncodeToString bs) = Some bs"
proof (induction bs rule: EncodeToString.induct)
  case (1 a b c rest)
  note p = byte_parts(1) [of a] byte_parts(2) [of b] byte_parts(3) [of c]
  have m: "unat c mod 64 < 64" by simp
  note lt = p(1) sextet(1) [OF p(2), of "unat a"] sextet(2) [OF p(3), of "unat b"] m
  have ne: "b64char (unat b mod 16 * 4 + unat c div 64) \<noteq> CHR ''=''" "b64char (unat c mod 64) \<noteq> CHR ''=''"
    using b64char_plain [OF lt(3)] b64char_plain [OF m] by simp_all
  have "decodeQuanta (EncodeToString (a # b # c # rest)) =
      Some (word_of_nat (unat a div 4 * 4 + (unat a mod 4 * 16 + unat b div 16) div 16)
        # word_of_nat ((unat a mod 4 * 16 + unat b div 16) mod 16 * 16 + (unat b mod 16 * 4 + unat c div 64) div 4)
        # word_of_nat ((unat b mod 16 * 4 + unat c div 64) mod 4 * 64 + unat c mod 64) # rest)"
    unfolding EncodeToString.simps append_Cons append_Nil
    by (rule quantum3 [OF b64value_char [OF lt(1)] b64value_char [OF lt(2)] b64value_char [OF lt(3)] b64value_char [OF lt(4)] ne 1])
  then show ?case
    unfolding join_bytes(1) [OF p(2)] join_bytes(2) [OF p(2,3) refl] join_bytes(3) [OF p(3) refl] .
next
  case (2 a b)
  note p = byte_parts(1) [of a] byte_parts(2) [of b]
  have z: "unat b mod 16 * 4 + 0 < 64" "unat b mod 16 * 4 mod 4 = 0" using sextet(2) [of 0 "unat b"] by simp_all
  then have lt: "unat b mod 16 * 4 < 64" by simp
  have ne: "b64char (unat b mod 16 * 4) \<noteq> CHR ''=''" using b64char_plain [OF lt] by simp
  have "decodeQuanta (EncodeToString [a, b]) =
      Some [word_of_nat (unat a div 4 * 4 + (unat a mod 4 * 16 + unat b div 16) div 16),
        word_of_nat ((unat a mod 4 * 16 + unat b div 16) mod 16 * 16 + unat b mod 16 * 4 div 4)]"
    unfolding EncodeToString.simps
    by (rule quantum2 [OF b64value_char [OF p(1)] b64value_char [OF sextet(1) [OF p(2)]] b64value_char [OF lt] ne z(2)])
  then show ?case
    using join_bytes(2) [OF p(2) _ refl, of 0 "unat a mod 4"] unfolding join_bytes(1) [OF p(2)] by simp
next
  case (3 a)
  have z: "unat a mod 4 * 16 + 0 < 64" "unat a mod 4 * 16 mod 16 = 0" using sextet(1) [of 0 "unat a"] by simp_all
  then have lt: "unat a mod 4 * 16 < 64" by simp
  have "decodeQuanta (EncodeToString [a]) = Some [word_of_nat (unat a div 4 * 4 + unat a mod 4 * 16 div 16)]"
    unfolding EncodeToString.simps by (rule quantum1 [OF b64value_char [OF byte_parts(1)] b64value_char [OF lt] z(2)])
  then show ?case using join_bytes(1) [of 0 a] by simp
qed simp

lemma b64char_set: "n < 64 \<Longrightarrow> b64char n \<in> set alphabet"
  using alphabet_ok(2) by (simp add: b64char_def)

lemma Encode_set: "set (EncodeToString bs) \<subseteq> set alphabet \<union> {CHR ''=''}"
proof (induction bs rule: EncodeToString.induct)
  case (1 a b c rest)
  then show ?case
    using b64char_set [OF byte_parts(1)] b64char_set [OF sextet(1) [OF byte_parts(2)]] b64char_set [OF sextet(2) [OF byte_parts(3)]]
      b64char_set [of "unat c mod 64"] by auto
next
  case (2 a b)
  then show ?case
    using b64char_set [OF byte_parts(1)] b64char_set [OF sextet(1) [OF byte_parts(2)]] b64char_set [OF sextet(2) [of 0 "unat b"]] by auto
next
  case (3 a)
  then show ?case using b64char_set [OF byte_parts(1)] b64char_set [OF sextet(1) [of 0 "unat a"]] by auto
qed simp

lemma DecodeString_Encode [codec]: "DecodeString (EncodeToString bs) = Some bs"
proof -
  have "c \<noteq> CHR 0x0A \<and> c \<noteq> CHR 0x0D" if "c \<in> set (EncodeToString bs)" for c
    using Encode_set [of bs] that by (auto simp: alphabet_def)
  then have "filter (\<lambda>c. c \<noteq> CHR 0x0A \<and> c \<noteq> CHR 0x0D) (EncodeToString bs) = EncodeToString bs" by (simp add: filter_id_conv)
  then show ?thesis by (simp add: DecodeString_def decodeQuanta_Encode)
qed

lemma Cut_append: "CHR '':'' \<notin> set x \<Longrightarrow> Cut (x @ CHR '':'' # y) = Some (x, y)"
  by (simp add: Cut_def takeWhile_tail dropWhile_append)

lemma suiteByName_String: "knownSuite s \<Longrightarrow> suiteByName (suite_String s) = Some s"
  by (auto simp: knownSuite_def suiteByName_def suite_String_def SuiteGOST_def SuiteC25519_def)

lemma suiteByName_known: "suiteByName n = Some s \<Longrightarrow> knownSuite s"
  by (auto simp: knownSuite_def suiteByName_def split: if_splits)

definition wf_anchor :: "Anchor \<Rightarrow> bool" where
  "wf_anchor a \<longleftrightarrow> knownSuite (an_Suite a) \<and> an_Pub a \<noteq> [] \<and> length (an_Pub a) \<le> maxKey"

interpretation anchor: strict_codec Anchor_String ParseAnchor wf_anchor
proof
  fix s and a :: Anchor
  have "CHR '':'' \<notin> set (suite_String (an_Suite a))" by (simp add: suite_String_def)
  then have "Cut (Anchor_String a) = Some (suite_String (an_Suite a), EncodeToString (an_Pub a))"
    using Cut_append by (simp add: Anchor_String_def)
  then have "wf_anchor a \<Longrightarrow> ParseAnchor (Anchor_String a) = Inr a"
    by (cases a) (simp add: ParseAnchor_def Let_def suiteByName_String codec wf_anchor_def)
  moreover have "ParseAnchor s = Inr a \<Longrightarrow> wf_anchor a \<and> s = Anchor_String a"
    using suiteByName_known by (auto simp: ParseAnchor_def Let_def wf_anchor_def split: option.splits if_splits)
  ultimately show "ParseAnchor s = Inr a \<longleftrightarrow> wf_anchor a \<and> s = Anchor_String a" by blast
qed

end
