(* ===== verification/Verify.thy ===== *)
theory Verify
  imports Anchor
begin

text \<open>
  \<^verbatim>\<open>pki/verify.go\<close>: the bundle a node serves and the checks a reader makes of it. Instants are
  nanoseconds, \<open>unix\<close> is \<^verbatim>\<open>time.Time.Unix\<close>; the \<^verbatim>\<open>int64\<close> fields of certificates and descriptors are
  words read with \<open>sint\<close>. \<^verbatim>\<open>encoding/json\<close> on the envelope is an argument, the pair \<open>js\<close> of what
  \<^verbatim>\<open>Marshal\<close> writes and what the decoder reads; the theorems assume of it only that the decoder reads
  back what was written for plain text.
\<close>

section \<open>Bundles\<close>

definition Skew :: int where "Skew = 2 * Minute"

definition MaxDescriptorLife :: int where "MaxDescriptorLife = 24 * Hour"

definition InstallWindow :: int where "InstallWindow = Minute"

definition unix :: "int \<Rightarrow> int" where "unix t = t div Second"

text \<open>The zero \<^verbatim>\<open>time.Time\<close>, the first second of the year 1.\<close>

definition zeroTime :: int where "zeroTime = - 62135596800 * Second"

record envelope =
  e_V :: int
  e_Suite :: string
  e_Cert :: string
  e_Descriptor :: string

type_synonym json = "(envelope \<Rightarrow> bytes) \<times> (bytes \<Rightarrow> envelope option)"

record Bundle =
  b_V :: int
  b_Suite :: string
  b_Cert :: bytes
  b_Descriptor :: bytes

definition bundleEnvelope :: "Bundle \<Rightarrow> envelope" where
  "bundleEnvelope b =
     \<lparr>e_V = b_V b, e_Suite = b_Suite b, e_Cert = EncodeToString (b_Cert b), e_Descriptor = EncodeToString (b_Descriptor b)\<rparr>"

definition Bundle_Marshal :: "json \<Rightarrow> Bundle \<Rightarrow> bytes" where
  "Bundle_Marshal js b = fst js (bundleEnvelope b)"

definition ParseBundle :: "json \<Rightarrow> bytes \<Rightarrow> Bundle result" where
  "ParseBundle js raw =
     (case snd js raw of
        None \<Rightarrow> Inl ErrFormat
      | Some e \<Rightarrow>
          if e_V e \<noteq> int (unat pkiVersion) then Inl ErrPkiVersion
          else
            case (DecodeString (e_Cert e), DecodeString (e_Descriptor e)) of
              (Some cert, Some desc) \<Rightarrow>
                if e_Suite e = [] \<or> desc = [] then Inl ErrFormat
                else
                  let b = \<lparr>b_V = e_V e, b_Suite = e_Suite e, b_Cert = cert, b_Descriptor = desc\<rparr> in
                  if Bundle_Marshal js b \<noteq> raw then Inl ErrFormat else Inr b
            | _ \<Rightarrow> Inl ErrFormat)"

section \<open>The checks\<close>

record Policy =
  po_Anchor :: Anchor
  po_Skew :: int
  po_MaxLife :: int

definition maxLife :: "Policy \<Rightarrow> int" where
  "maxLife pol = (if po_MaxLife pol \<le> 0 \<or> po_MaxLife pol > MaxDescriptorLife then MaxDescriptorLife else po_MaxLife pol)"

record Verified =
  v_Addr :: bytes
  v_Name :: bytes
  v_Identity :: bytes
  v_LinkPub :: bytes
  v_OnionPub :: bytes
  v_Epoch :: u32
  v_CertUntil :: int
  v_DescUntil :: int

definition certWindow :: "Cert \<Rightarrow> int \<Rightarrow> int \<Rightarrow> unit result" where
  "certWindow c now skew =
     (if sint (c_NotAfter c) \<le> sint (c_NotBefore c) \<or> unix (now + skew) < sint (c_NotBefore c) \<or> unix now \<ge> sint (c_NotAfter c)
      then Inl ErrCertTime else Inr ())"

text \<open>The difference of the two instants is taken unsigned, as the source does.\<close>

definition descWindow :: "Descriptor \<Rightarrow> Cert \<Rightarrow> int \<Rightarrow> int \<Rightarrow> int \<Rightarrow> unit result" where
  "descWindow d c now skew life =
     (if sint (d_Expires d) \<le> sint (d_Published d) \<or> sint (d_Expires d) > sint (c_NotAfter c) then Inl ErrDescTime
      else if d_Expires d - d_Published d > word_of_int (life div Second) then Inl ErrDescTime
      else if unix (now + skew) < sint (d_Published d) \<or> unix now \<ge> sint (d_Expires d) then Inl ErrDescTime
      else Inr ())"

definition keySizes :: "provider \<Rightarrow> Descriptor \<Rightarrow> unit io" where
  "keySizes p d w =
     (case PublicKeySize p w of
        (Inl e, w) \<Rightarrow> (Inl e, w)
      | (Inr sz, w) \<Rightarrow>
          (if length (d_LinkPub d) \<noteq> sz \<or> length (d_OnionPub d) \<noteq> sz then Inl ErrKeySize else Inr (), w))"

text \<open>The certificate half of \<^verbatim>\<open>Verify\<close>, then the descriptor half.\<close>

definition verifyCert ::
  "(bytes \<Rightarrow> (bytes \<times> bytes) option) \<Rightarrow> provider \<Rightarrow> Policy \<Rightarrow> bytes \<Rightarrow> Bundle \<Rightarrow> int \<Rightarrow> Cert result" where
  "verifyCert ip p pol addr b now =
     (case ParseCert ip (b_Cert b) of
        Inl e \<Rightarrow> Inl e
      | Inr c \<Rightarrow>
          if c_Suite c \<noteq> pSuite p then Inl ErrSuite
          else if c_CAID c \<noteq> Anchor_ID p (po_Anchor pol) then Inl ErrUnknownCA
          else if \<not> pVerify p (an_Pub (po_Anchor pol)) (signed_msg certDomain (Cert_body c)) (c_Sig c) then Inl ErrCertSignature
          else
            case certWindow c now (max (po_Skew pol) 0) of
              Inl e \<Rightarrow> Inl e
            | Inr _ \<Rightarrow> if c_Addr c \<noteq> addr then Inl ErrWrongAddr else Inr c)"

definition verifyDesc :: "provider \<Rightarrow> Policy \<Rightarrow> Bundle \<Rightarrow> Cert \<Rightarrow> int \<Rightarrow> Descriptor io" where
  "verifyDesc p pol b c now w =
     (case ParseDescriptor (b_Descriptor b) of
        Inl e \<Rightarrow> (Inl e, w)
      | Inr d \<Rightarrow>
          if d_Suite d \<noteq> pSuite p then (Inl ErrSuite, w)
          else if d_CertHash d \<noteq> pHash p (b_Cert b) then (Inl ErrCertMismatch, w)
          else if \<not> pVerify p (c_Identity c) (signed_msg descriptorDomain (Descriptor_body d)) (d_Sig d) then (Inl ErrDescSignature, w)
          else
            case descWindow d c now (max (po_Skew pol) 0) (maxLife pol) of
              Inl e \<Rightarrow> (Inl e, w)
            | Inr _ \<Rightarrow> (case keySizes p d w of (Inl e, w) \<Rightarrow> (Inl e, w) | (Inr _, w) \<Rightarrow> (Inr d, w)))"

definition Verify ::
  "json \<Rightarrow> (bytes \<Rightarrow> (bytes \<times> bytes) option) \<Rightarrow> provider \<Rightarrow> Policy \<Rightarrow> bytes \<Rightarrow> bytes \<Rightarrow> int \<Rightarrow> Verified io" where
  "Verify js ip p pol addr bundle now w =
     (if an_Suite (po_Anchor pol) \<noteq> pSuite p then (Inl ErrSuite, w)
      else
        case ParseBundle js bundle of
          Inl e \<Rightarrow> (Inl e, w)
        | Inr b \<Rightarrow>
            if b_Suite b \<noteq> suite_String (pSuite p) then (Inl ErrSuite, w)
            else
              case verifyCert ip p pol addr b now of
                Inl e \<Rightarrow> (Inl e, w)
              | Inr c \<Rightarrow>
                  (case verifyDesc p pol b c now w of
                     (Inl e, w) \<Rightarrow> (Inl e, w)
                   | (Inr d, w) \<Rightarrow>
                       (Inr \<lparr>v_Addr = c_Addr c, v_Name = c_Name c, v_Identity = c_Identity c, v_LinkPub = d_LinkPub d,
                             v_OnionPub = d_OnionPub d, v_Epoch = d_Epoch d, v_CertUntil = sint (c_NotAfter c) * Second,
                             v_DescUntil = sint (d_Expires d) * Second\<rparr>, w)))"

section \<open>Chains\<close>

text \<open>The two loops of \<^verbatim>\<open>eachNode\<close>; an error names the node, which the model leaves out.\<close>

fun readNodes :: "(bytes \<Rightarrow> bytes \<Rightarrow> Verified io) \<Rightarrow> bytes list \<Rightarrow> bytes list \<Rightarrow> Verified list io" where
  "readNodes rd (a # as) (b # bs) w =
     (case rd a b w of
        (Inl e, w) \<Rightarrow> (Inl (Errorf (Message ''node'') e), w)
      | (Inr v, w) \<Rightarrow>
          (case readNodes rd as bs w of
             (Inl e, w) \<Rightarrow> (Inl e, w)
           | (Inr vs, w) \<Rightarrow> (Inr (v # vs), w)))"
| "readNodes rd _ _ w = (Inr [], w)"

definition sameNode :: "Verified \<Rightarrow> Verified \<Rightarrow> bool" where
  "sameNode a b \<longleftrightarrow> v_Addr a = v_Addr b \<or> v_OnionPub a = v_OnionPub b \<or> (v_Identity a \<noteq> [] \<and> v_Identity a = v_Identity b)"

definition repeatsNode :: "Verified list \<Rightarrow> bool" where
  "repeatsNode vs \<longleftrightarrow> list_ex (\<lambda>i. list_ex (\<lambda>j. sameNode (vs ! j) (vs ! i)) [0..<i]) [0..<length vs]"

definition eachNode :: "bytes list \<Rightarrow> bytes list \<Rightarrow> (bytes \<Rightarrow> bytes \<Rightarrow> Verified io) \<Rightarrow> Verified list io" where
  "eachNode addrs bundles rd w =
     (if length addrs \<noteq> length bundles then (Inl errNodeCount, w)
      else
        case readNodes rd addrs bundles w of
          (Inl e, w) \<Rightarrow> (Inl e, w)
        | (Inr vs, w) \<Rightarrow> (if repeatsNode vs then Inl (Errorf (Message ''nodes'') ErrDuplicateNode) else Inr vs, w))"

definition VerifyChain ::
  "json \<Rightarrow> (bytes \<Rightarrow> (bytes \<times> bytes) option) \<Rightarrow> provider \<Rightarrow> Policy \<Rightarrow> bytes list \<Rightarrow> bytes list \<Rightarrow> int \<Rightarrow> Verified list io" where
  "VerifyChain js ip p pol addrs bundles now = eachNode addrs bundles (\<lambda>addr bundle. Verify js ip p pol addr bundle now)"

text \<open>The baseline: the same bundles with nothing but their form checked.\<close>

definition readUnverified :: "json \<Rightarrow> provider \<Rightarrow> bytes \<Rightarrow> bytes \<Rightarrow> Verified io" where
  "readUnverified js p addr bundle w =
     (case ParseBundle js bundle of
        Inl e \<Rightarrow> (Inl e, w)
      | Inr b \<Rightarrow>
          if b_Suite b \<noteq> suite_String (pSuite p) then (Inl ErrSuite, w)
          else
            case ParseDescriptor (b_Descriptor b) of
              Inl e \<Rightarrow> (Inl e, w)
            | Inr d \<Rightarrow>
                if d_Suite d \<noteq> pSuite p then (Inl ErrSuite, w)
                else
                  case keySizes p d w of
                    (Inl e, w) \<Rightarrow> (Inl e, w)
                  | (Inr _, w) \<Rightarrow>
                      (Inr \<lparr>v_Addr = addr, v_Name = [], v_Identity = [], v_LinkPub = d_LinkPub d, v_OnionPub = d_OnionPub d,
                            v_Epoch = d_Epoch d, v_CertUntil = zeroTime, v_DescUntil = zeroTime\<rparr>, w))"

definition Unverified :: "json \<Rightarrow> provider \<Rightarrow> bytes list \<Rightarrow> bytes list \<Rightarrow> Verified list io" where
  "Unverified js p addrs bundles = eachNode addrs bundles (readUnverified js p)"

section \<open>Soundness\<close>

text \<open>The unsigned difference is the true one once the first instant is known to be the later.\<close>

lemma unsigned_gap:
  fixes e p :: u64
  assumes "sint p < sint e"
  shows "uint (e - p) = sint e - sint p"
proof -
  have "uint (e - p) = uint (word_of_int (sint e - sint p) :: u64)" by simp
  also have "\<dots> = (sint e - sint p) mod 2 ^ 64" by (subst uint_word_of_int) simp
  finally have "uint (e - p) = (sint e - sint p) mod 2 ^ 64" .
  moreover have "- (2 ^ 63) \<le> sint p" "sint e < 2 ^ 63" using sint_ge [of p] sint_lt [of e] by simp_all
  ultimately show ?thesis using assms by simp
qed

lemma maxLife_bounds: "0 < maxLife pol \<and> maxLife pol \<le> MaxDescriptorLife"
  by (simp add: maxLife_def MaxDescriptorLife_def Hour_def Minute_def Second_def Millisecond_def)

lemma descWindow_Inr:
  assumes "0 < life" "life \<le> MaxDescriptorLife"
  shows "descWindow d c now skew life = Inr () \<longleftrightarrow>
    sint (d_Published d) < sint (d_Expires d) \<and> sint (d_Expires d) \<le> sint (c_NotAfter c)
    \<and> sint (d_Expires d) - sint (d_Published d) \<le> life div Second
    \<and> sint (d_Published d) \<le> unix (now + skew) \<and> unix now < sint (d_Expires d)"
proof -
  have "0 \<le> life div Second" "life div Second < 2 ^ 64"
    using assms by (auto simp: MaxDescriptorLife_def Hour_def Minute_def Second_def Millisecond_def)
  then have "uint (word_of_int (life div Second) :: u64) = life div Second" by (simp add: uint_word_of_int)
  then have "(d_Expires d - d_Published d > word_of_int (life div Second)) \<longleftrightarrow> sint (d_Expires d) - sint (d_Published d) > life div Second"
    if "sint (d_Published d) < sint (d_Expires d)"
    using unsigned_gap [OF that] by (simp add: word_less_def)
  then show ?thesis by (auto simp: descWindow_def)
qed

lemma ParseBundle_Inr:
  "ParseBundle js raw = Inr b \<Longrightarrow> raw = Bundle_Marshal js b \<and> b_V b = 1 \<and> b_Suite b \<noteq> [] \<and> b_Descriptor b \<noteq> []"
  by (auto simp: ParseBundle_def Let_def pkiVersion_def split: option.splits if_splits)

definition cert_accepted :: "provider \<Rightarrow> Policy \<Rightarrow> bytes \<Rightarrow> int \<Rightarrow> Cert \<Rightarrow> bool" where
  "cert_accepted p pol addr now c \<longleftrightarrow>
     c_Suite c = pSuite p \<and> c_CAID c = Anchor_ID p (po_Anchor pol)
     \<and> pVerify p (an_Pub (po_Anchor pol)) (signed_msg certDomain (Cert_body c)) (c_Sig c)
     \<and> sint (c_NotBefore c) < sint (c_NotAfter c) \<and> sint (c_NotBefore c) \<le> unix (now + max (po_Skew pol) 0)
     \<and> unix now < sint (c_NotAfter c) \<and> c_Addr c = addr"

definition desc_accepted :: "provider \<Rightarrow> Policy \<Rightarrow> int \<Rightarrow> Cert \<Rightarrow> Descriptor \<Rightarrow> bool" where
  "desc_accepted p pol now c d \<longleftrightarrow>
     d_Suite d = pSuite p \<and> d_CertHash d = pHash p (Cert_Marshal c)
     \<and> pVerify p (c_Identity c) (signed_msg descriptorDomain (Descriptor_body d)) (d_Sig d)
     \<and> sint (d_Published d) < sint (d_Expires d) \<and> sint (d_Expires d) \<le> sint (c_NotAfter c)
     \<and> sint (d_Expires d) - sint (d_Published d) \<le> maxLife pol div Second
     \<and> sint (d_Published d) \<le> unix (now + max (po_Skew pol) 0) \<and> unix now < sint (d_Expires d)"

lemma verifyCert_Inr:
  "verifyCert ip p pol addr b now = Inr c \<longleftrightarrow> wf_cert ip c \<and> b_Cert b = Cert_Marshal c \<and> cert_accepted p pol addr now c"
proof -
  have "verifyCert ip p pol addr b now = Inr c \<longleftrightarrow> ParseCert ip (b_Cert b) = Inr c \<and> cert_accepted p pol addr now c"
    by (auto simp: verifyCert_def certWindow_def cert_accepted_def split: sum.splits if_splits)
  then show ?thesis by (simp add: cert.parse_iff)
qed

lemma verifyDesc_Inr:
  "verifyDesc p pol b c now w = (Inr d, w') \<longleftrightarrow> wf_descriptor d \<and> b_Descriptor b = Descriptor_Marshal d \<and> d_Suite d = pSuite p
     \<and> d_CertHash d = pHash p (b_Cert b) \<and> pVerify p (c_Identity c) (signed_msg descriptorDomain (Descriptor_body d)) (d_Sig d)
     \<and> descWindow d c now (max (po_Skew pol) 0) (maxLife pol) = Inr () \<and> keySizes p d w = (Inr (), w')"
proof -
  have "verifyDesc p pol b c now w = (Inr d, w') \<longleftrightarrow> ParseDescriptor (b_Descriptor b) = Inr d \<and> d_Suite d = pSuite p
     \<and> d_CertHash d = pHash p (b_Cert b) \<and> pVerify p (c_Identity c) (signed_msg descriptorDomain (Descriptor_body d)) (d_Sig d)
     \<and> descWindow d c now (max (po_Skew pol) 0) (maxLife pol) = Inr () \<and> keySizes p d w = (Inr (), w')"
    by (auto simp: verifyDesc_def split: sum.splits if_splits prod.splits)
  then show ?thesis by (simp add: descriptor.parse_iff)
qed

definition verified_of :: "Cert \<Rightarrow> Descriptor \<Rightarrow> Verified" where
  "verified_of c d =
     \<lparr>v_Addr = c_Addr c, v_Name = c_Name c, v_Identity = c_Identity c, v_LinkPub = d_LinkPub d, v_OnionPub = d_OnionPub d,
      v_Epoch = d_Epoch d, v_CertUntil = sint (c_NotAfter c) * Second, v_DescUntil = sint (d_Expires d) * Second\<rparr>"

lemma Verify_Inr:
  "Verify js ip p pol addr bundle now w = (Inr v, w') \<longleftrightarrow>
     an_Suite (po_Anchor pol) = pSuite p
     \<and> (\<exists>c d. ParseBundle js bundle = Inr \<lparr>b_V = 1, b_Suite = suite_String (pSuite p), b_Cert = Cert_Marshal c, b_Descriptor = Descriptor_Marshal d\<rparr>
          \<and> wf_cert ip c \<and> wf_descriptor d \<and> cert_accepted p pol addr now c \<and> desc_accepted p pol now c d
          \<and> keySizes p d w = (Inr (), w') \<and> v = verified_of c d)" (is "?L \<longleftrightarrow> ?R")
proof
  assume ?L
  then obtain b c d where b: "ParseBundle js bundle = Inr b" "b_Suite b = suite_String (pSuite p)" "verifyCert ip p pol addr b now = Inr c"
    "verifyDesc p pol b c now w = (Inr d, w')" "v = verified_of c d" and s: "an_Suite (po_Anchor pol) = pSuite p"
    by (auto simp: Verify_def verified_of_def split: if_splits sum.splits prod.splits)
  have "b = \<lparr>b_V = 1, b_Suite = suite_String (pSuite p), b_Cert = Cert_Marshal c, b_Descriptor = Descriptor_Marshal d\<rparr>"
    using ParseBundle_Inr [OF b(1)] b(2-4) by (cases b) (auto simp: verifyCert_Inr verifyDesc_Inr)
  then show ?R
    using s b descWindow_Inr [OF conjunct1 [OF maxLife_bounds] conjunct2 [OF maxLife_bounds], of d c now _ pol]
    by (auto simp: verifyCert_Inr verifyDesc_Inr desc_accepted_def)
next
  assume ?R
  then obtain c d where r: "an_Suite (po_Anchor pol) = pSuite p"
    "ParseBundle js bundle = Inr \<lparr>b_V = 1, b_Suite = suite_String (pSuite p), b_Cert = Cert_Marshal c, b_Descriptor = Descriptor_Marshal d\<rparr>"
    (is "_ = Inr ?b") "wf_cert ip c" "wf_descriptor d" "cert_accepted p pol addr now c" "desc_accepted p pol now c d"
    "keySizes p d w = (Inr (), w')" "v = verified_of c d" by blast
  have "verifyCert ip p pol addr ?b now = Inr c" using r(3,5) by (simp add: verifyCert_Inr)
  moreover have "verifyDesc p pol ?b c now w = (Inr d, w')"
    using r(4,6,7) descWindow_Inr [OF conjunct1 [OF maxLife_bounds] conjunct2 [OF maxLife_bounds], of d c now _ pol]
    by (simp add: verifyDesc_Inr desc_accepted_def)
  ultimately show ?L using r(1,2,8) by (simp add: Verify_def verified_of_def)
qed

lemma unix_le: "unix t * Second \<le> t"
  by (simp add: unix_def Second_def Millisecond_def)

lemma unix_less: "unix t < n \<Longrightarrow> t < n * Second"
  by (simp add: unix_def Second_def Millisecond_def)

lemma desc_fresh:
  assumes "desc_accepted p pol now c d"
  shows "now < sint (d_Expires d) * Second" "sint (d_Expires d) * Second \<le> now + max (po_Skew pol) 0 + MaxDescriptorLife"
proof -
  have s: "0 < Second" by (simp add: Second_def Millisecond_def)
  show "now < sint (d_Expires d) * Second" using assms by (simp add: desc_accepted_def unix_less)
  let ?t = "now + max (po_Skew pol) 0"
  have "sint (d_Expires d) \<le> unix ?t + maxLife pol div Second" using assms unfolding desc_accepted_def by linarith
  then have "sint (d_Expires d) * Second \<le> (unix ?t + maxLife pol div Second) * Second" using s by simp
  also have "\<dots> \<le> ?t + maxLife pol"
    using unix_le [of ?t] by (simp add: distrib_right Second_def Millisecond_def)
  finally show "sint (d_Expires d) * Second \<le> ?t + MaxDescriptorLife" using maxLife_bounds [of pol] by simp
qed

text \<open>
  C10: what a reader accepts was said by those it trusts. An accepted bundle is, byte for byte, the
  encoding of one certificate and one descriptor: the certificate names the address the reader
  asked for and carries the anchor's signature, the descriptor names that certificate by its hash
  and carries the signature of the identity key in it, and the keys the reader goes on with are the
  descriptor's. They are good now, not beyond the certificate, and for no longer than a day and the
  reader's own skew, whatever the 64-bit instants in the bundle are.
\<close>

theorem verify_sound:
  assumes "Verify js ip p pol addr bundle now w = (Inr v, w')"
  shows "\<exists>c d. bundle = Bundle_Marshal js \<lparr>b_V = 1, b_Suite = suite_String (pSuite p), b_Cert = Cert_Marshal c, b_Descriptor = Descriptor_Marshal d\<rparr>
    \<and> pVerify p (an_Pub (po_Anchor pol)) (signed_msg certDomain (Cert_body c)) (c_Sig c)
    \<and> pVerify p (v_Identity v) (signed_msg descriptorDomain (Descriptor_body d)) (d_Sig d)
    \<and> d_CertHash d = pHash p (Cert_Marshal c) \<and> c_Identity c = v_Identity v
    \<and> c_Addr c = addr \<and> v_Addr v = addr \<and> ValidAddr ip addr \<and> c_Name c = v_Name v
    \<and> v_LinkPub v = d_LinkPub d \<and> v_OnionPub v = d_OnionPub d \<and> v_Epoch v = d_Epoch d
    \<and> now < v_DescUntil v \<and> v_DescUntil v \<le> v_CertUntil v \<and> v_DescUntil v \<le> now + max (po_Skew pol) 0 + MaxDescriptorLife"
proof -
  obtain c d where r: "ParseBundle js bundle = Inr \<lparr>b_V = 1, b_Suite = suite_String (pSuite p), b_Cert = Cert_Marshal c, b_Descriptor = Descriptor_Marshal d\<rparr>"
    "wf_cert ip c" "cert_accepted p pol addr now c" "desc_accepted p pol now c d" "v = verified_of c d"
    using assms by (auto simp: Verify_Inr)
  have "sint (d_Expires d) * Second \<le> sint (c_NotAfter c) * Second"
    using r(4) by (simp add: desc_accepted_def Second_def Millisecond_def)
  then show ?thesis
    using r ParseBundle_Inr [OF r(1)] desc_fresh [OF r(4)]
    by (intro exI [of _ c] exI [of _ d]) (simp add: verified_of_def cert_accepted_def desc_accepted_def wf_cert_def)
qed

section \<open>Chains of nodes\<close>

lemma readNodes_Inr:
  "readNodes rd as bs w = (Inr vs, w') \<Longrightarrow> length as = length bs \<Longrightarrow>
     list_all2 (\<lambda>a v. \<exists>b w w'. b \<in> set bs \<and> rd a b w = (Inr v, w')) as vs"
proof (induction rd as bs w arbitrary: vs w' rule: readNodes.induct)
  case (1 rd a as b bs w)
  obtain v w1 where v: "rd a b w = (Inr v, w1)" using 1(2) by (auto split: prod.splits sum.splits)
  obtain vs' where vs: "readNodes rd as bs w1 = (Inr vs', w')" "vs = v # vs'" using 1(2) v by (auto split: prod.splits sum.splits)
  have "list_all2 (\<lambda>a v. \<exists>b w w'. b \<in> set bs \<and> rd a b w = (Inr v, w')) as vs'"
    using 1(1) [OF v [symmetric] refl vs(1)] 1(3) by simp
  then show ?case using v vs(2) by (auto elim!: list_all2_mono)
qed auto

lemma Verify_addr: "Verify js ip p pol addr bundle now w = (Inr v, w') \<Longrightarrow> v_Addr v = addr \<and> v_Identity v \<noteq> []"
  by (auto simp: Verify_Inr verified_of_def cert_accepted_def wf_cert_def)

lemma repeatsNode_iff: "repeatsNode vs \<longleftrightarrow> (\<exists>i j. j < i \<and> i < length vs \<and> sameNode (vs ! j) (vs ! i))"
proof
  assume "repeatsNode vs"
  then obtain i j where "i \<in> set [0..<length vs]" "j \<in> set [0..<i]" "sameNode (vs ! j) (vs ! i)"
    unfolding repeatsNode_def list_ex_iff by blast
  then show "\<exists>i j. j < i \<and> i < length vs \<and> sameNode (vs ! j) (vs ! i)" by (intro exI [of _ i] exI [of _ j]) simp
next
  assume "\<exists>i j. j < i \<and> i < length vs \<and> sameNode (vs ! j) (vs ! i)"
  then obtain i j where "i \<in> set [0..<length vs]" "j \<in> set [0..<i]" "sameNode (vs ! j) (vs ! i)" by auto
  then show "repeatsNode vs" unfolding repeatsNode_def list_ex_iff by blast
qed

lemma no_repeat_distinct:
  assumes "\<not> repeatsNode vs" "\<And>x y. f x = f y \<Longrightarrow> x \<in> set vs \<Longrightarrow> y \<in> set vs \<Longrightarrow> sameNode x y"
  shows "distinct (map f vs)"
proof -
  have "f (vs ! i) \<noteq> f (vs ! j)" if "i < length vs" "j < i" for i j
  proof
    assume "f (vs ! i) = f (vs ! j)"
    moreover have "vs ! i \<in> set vs" "vs ! j \<in> set vs" using that by simp_all
    ultimately have "sameNode (vs ! j) (vs ! i)" using assms(2) by metis
    then show False using assms(1) that unfolding repeatsNode_iff by blast
  qed
  then show ?thesis unfolding distinct_conv_nth length_map
    by (metis linorder_neqE_nat nth_map)
qed

text \<open>
  a verified chain has no node twice: it has one entry per address asked for, in that order, and
  its addresses, onion keys and identity keys are all different.
\<close>

theorem verified_chain_distinct:
  assumes "VerifyChain js ip p pol addrs bundles now w = (Inr vs, w')"
  shows "map v_Addr vs = addrs \<and> distinct addrs \<and> distinct (map v_OnionPub vs) \<and> distinct (map v_Identity vs)"
proof -
  obtain w1 where r: "length addrs = length bundles" "\<not> repeatsNode vs"
    "readNodes (\<lambda>addr bundle. Verify js ip p pol addr bundle now) addrs bundles w = (Inr vs, w1)"
    using assms by (auto simp: VerifyChain_def eachNode_def split: if_splits prod.splits sum.splits)
  have all: "list_all2 (\<lambda>a v. v_Addr v = a \<and> v_Identity v \<noteq> []) addrs vs"
    using readNodes_Inr [OF r(3,1)] by (rule list_all2_mono) (use Verify_addr in blast)
  have len: "length addrs = length vs" using all by (rule list_all2_lengthD)
  have each: "v_Addr (vs ! i) = addrs ! i \<and> v_Identity (vs ! i) \<noteq> []" if "i < length vs" for i
    using that all by (auto simp: list_all2_conv_all_nth)
  have addrs: "map v_Addr vs = addrs" using len each by (auto intro!: nth_equalityI)
  have ident: "v_Identity v \<noteq> []" if "v \<in> set vs" for v
    using that each by (metis in_set_conv_nth)
  have "distinct (map v_Addr vs)" "distinct (map v_OnionPub vs)" "distinct (map v_Identity vs)"
    using ident by (auto intro!: no_repeat_distinct [OF r(2)] simp: sameNode_def)
  then show ?thesis using addrs by simp
qed

section \<open>A bundle that verifies\<close>

text \<open>A stand-in for the JSON codec that keeps its contract: the strings in turn, closed by a zero byte.\<close>

definition sampleJson :: json where
  "sampleJson =
     (\<lambda>e. ascii (e_Suite e) @ 0 # ascii (e_Cert e) @ 0 # ascii (e_Descriptor e),
      \<lambda>raw. case splitOn 0 raw of
               [s, c, d] \<Rightarrow> Some \<lparr>e_V = 1, e_Suite = map (\<lambda>b. char_of (unat b)) s, e_Cert = map (\<lambda>b. char_of (unat b)) c,
                                  e_Descriptor = map (\<lambda>b. char_of (unat b)) d\<rparr>
             | _ \<Rightarrow> None)"

lemma unascii: "map (\<lambda>b. char_of (unat b)) (ascii s) = s"
proof -
  have "char_of (unat (word_of_nat (of_char c) :: byte)) = c" for c
    by (simp add: unat_of_nat)
  then show ?thesis by (simp add: ascii_def comp_def)
qed

definition plain :: "string \<Rightarrow> bool" where
  "plain s \<longleftrightarrow> set s \<subseteq> set alphabet \<union> {CHR ''=''}"

text \<open>The decoder reads back an envelope whose strings need no escapes.\<close>

definition json_ok :: "json \<Rightarrow> bool" where
  "json_ok js \<longleftrightarrow>
     (\<forall>e. e_V e = 1 \<longrightarrow> plain (e_Suite e) \<longrightarrow> plain (e_Cert e) \<longrightarrow> plain (e_Descriptor e) \<longrightarrow> snd js (fst js e) = Some e)"

lemma plain_ascii: "plain s \<Longrightarrow> 0 \<notin> set (ascii s)"
proof -
  assume "plain s"
  moreover have "CHR 0x00 \<notin> set alphabet \<union> {CHR ''=''}" by (simp add: alphabet_def)
  ultimately have "CHR 0x00 \<notin> set s" unfolding plain_def by blast
  then have "CHR 0x00 \<notin> set (map (\<lambda>b. char_of (unat b)) (ascii s))" by (simp only: unascii not_False_eq_True)
  moreover have "char_of (unat (0 :: byte)) = CHR 0x00" by (simp add: char_of_def)
  ultimately show ?thesis by (metis image_eqI list.set_map)
qed

lemma ParseBundle_Marshal:
  assumes "json_ok js" "b_V b = 1" "knownSuite s" "b_Suite b = suite_String s" "b_Descriptor b \<noteq> []"
  shows "ParseBundle js (Bundle_Marshal js b) = Inr b"
proof -
  have "plain (suite_String s)" "suite_String s \<noteq> []"
    using assms(3) by (auto simp: plain_def suite_String_def alphabet_def knownSuite_def)
  then have "snd js (fst js (bundleEnvelope b)) = Some (bundleEnvelope b)"
    using assms(1,2,4) Encode_set unfolding json_ok_def by (simp add: bundleEnvelope_def plain_def)
  then show ?thesis
    using assms(2,4,5) \<open>suite_String s \<noteq> []\<close>
    by (cases b) (simp add: ParseBundle_def Bundle_Marshal_def bundleEnvelope_def codec pkiVersion_def Let_def)
qed


lemma sampleJson_ok: "json_ok sampleJson"
proof -
  have "snd sampleJson (fst sampleJson e) = Some e"
    if e: "e_V e = 1" "plain (e_Suite e)" "plain (e_Cert e)" "plain (e_Descriptor e)" for e
  proof -
    note nz = plain_ascii [OF e(2)] plain_ascii [OF e(3)] plain_ascii [OF e(4)]
    have "splitOn 0 (ascii (e_Suite e) @ 0 # ascii (e_Cert e) @ 0 # ascii (e_Descriptor e))
        = [ascii (e_Suite e), ascii (e_Cert e), ascii (e_Descriptor e)]"
      using nz by (simp add: splitOn_append splitOn_last)
    then show ?thesis using e(1) by (simp add: sampleJson_def unascii)
  qed
  then show ?thesis by (simp add: json_ok_def)
qed

definition sampleAnchor :: Anchor where
  "sampleAnchor = \<lparr>an_Suite = SuiteC25519, an_Pub = replicate 32 7\<rparr>"

definition samplePolicy :: Policy where
  "samplePolicy = \<lparr>po_Anchor = sampleAnchor, po_Skew = Skew, po_MaxLife = 0\<rparr>"

definition sampleUnsigned :: Cert where
  "sampleUnsigned =
     \<lparr>c_Suite = SuiteC25519, c_Serial = replicate SerialSize 0, c_CAID = Anchor_ID sampleSuite sampleAnchor, c_NotBefore = 0,
      c_NotAfter = 1000, c_Name = ascii ''relay-1'', c_Addr = ascii ''relay-1:9001'', c_Identity = replicate 32 8, c_Sig = []\<rparr>"

definition sampleCert :: Cert where
  "sampleCert = sampleUnsigned\<lparr>c_Sig := fit 64 (replicate 32 7 @ signed_msg certDomain (Cert_body sampleUnsigned))\<rparr>"

definition sampleDraft :: Descriptor where
  "sampleDraft =
     \<lparr>d_Suite = SuiteC25519, d_Epoch = 1, d_Published = 10, d_Expires = 500, d_CertHash = fit 32 (Cert_Marshal sampleCert),
      d_LinkPub = replicate 32 3, d_OnionPub = replicate 32 4, d_Sig = []\<rparr>"

definition sampleDesc :: Descriptor where
  "sampleDesc = sampleDraft\<lparr>d_Sig := fit 64 (replicate 32 8 @ signed_msg descriptorDomain (Descriptor_body sampleDraft))\<rparr>"

definition sampleBundle :: bytes where
  "sampleBundle = Bundle_Marshal sampleJson
     \<lparr>b_V = 1, b_Suite = suite_String SuiteC25519, b_Cert = Cert_Marshal sampleCert, b_Descriptor = Descriptor_Marshal sampleDesc\<rparr>"

definition sampleReader :: world where
  "sampleReader = \<lparr>rnd = [], live = 0, limit = 1, sizeCache = [SuiteC25519 \<mapsto> (32, 16)]\<rparr>"

lemma length_ID [simp]: "length (keyID p pub) = IDSize"
  by (simp add: keyID_def)

lemma sampleCert_wf: "wf_cert (\<lambda>_. None) sampleCert"
  by (simp add: wf_cert_def sampleCert_def sampleUnsigned_def knownSuite_def sample_addr Anchor_ID_def maxKey_def maxSig_def)

lemma sampleDesc_wf: "wf_descriptor sampleDesc"
  by (simp add: wf_descriptor_def sampleDesc_def sampleDraft_def knownSuite_def HashSize_def maxKey_def maxSig_def)

lemma sampleCert_accepted: "cert_accepted sampleSuite samplePolicy (ascii ''relay-1:9001'') (20 * Second) sampleCert"
  by (simp add: cert_accepted_def sampleCert_def sampleUnsigned_def samplePolicy_def sampleAnchor_def sampleSuite_def unix_def
      Skew_def Minute_def Second_def Millisecond_def Cert_body_def)

lemma sampleDesc_accepted: "desc_accepted sampleSuite samplePolicy (20 * Second) sampleCert sampleDesc"
  by (simp add: desc_accepted_def sampleDesc_def sampleDraft_def sampleSuite_def samplePolicy_def maxLife_def MaxDescriptorLife_def Hour_def
      Skew_def Minute_def unix_def Second_def Millisecond_def Descriptor_body_def) (simp add: sampleCert_def sampleUnsigned_def)

lemma sampleBundle_parses:
  "ParseBundle sampleJson sampleBundle = Inr \<lparr>b_V = 1, b_Suite = suite_String SuiteC25519, b_Cert = Cert_Marshal sampleCert,
     b_Descriptor = Descriptor_Marshal sampleDesc\<rparr>"
  unfolding sampleBundle_def by (rule ParseBundle_Marshal [OF sampleJson_ok, where s = SuiteC25519])
    (simp_all add: knownSuite_def Descriptor_Marshal_def w_field_def)

lemma sampleBundle_verifies:
  "Verify sampleJson (\<lambda>_. None) sampleSuite samplePolicy (ascii ''relay-1:9001'') sampleBundle (20 * Second) sampleReader
     = (Inr (verified_of sampleCert sampleDesc), sampleReader)"
proof -
  have "keySizes sampleSuite sampleDesc sampleReader = (Inr (), sampleReader)"
    using sizesOf_cached [of sampleReader sampleSuite "(32, 16)"]
    by (simp add: keySizes_def PublicKeySize_def sampleReader_def sampleDesc_def sampleDraft_def sampleSuite_def)
  then show ?thesis
    using sampleBundle_parses sampleCert_wf sampleDesc_wf sampleCert_accepted sampleDesc_accepted unfolding Verify_Inr
    by (intro conjI exI [of _ sampleCert] exI [of _ sampleDesc]) (simp_all add: samplePolicy_def sampleAnchor_def sampleSuite_def)
qed

theorem verify_sound_witness:
  "\<exists>v. Verify sampleJson (\<lambda>_. None) sampleSuite samplePolicy (ascii ''relay-1:9001'') sampleBundle (20 * Second) sampleReader = (Inr v, sampleReader)
     \<and> 20 * Second < v_DescUntil v \<and> v_DescUntil v \<le> v_CertUntil v"
  using sampleBundle_verifies verify_sound [OF sampleBundle_verifies] by blast

lemma VerifyChain_one:
  "Verify js ip p pol addr bundle now w = (Inr v, w') \<Longrightarrow> VerifyChain js ip p pol [addr] [bundle] now w = (Inr [v], w')"
  by (simp add: VerifyChain_def eachNode_def repeatsNode_def)

theorem verified_chain_distinct_witness:
  "\<exists>vs. VerifyChain sampleJson (\<lambda>_. None) sampleSuite samplePolicy [ascii ''relay-1:9001''] [sampleBundle] (20 * Second) sampleReader
       = (Inr vs, sampleReader) \<and> map v_Addr vs = [ascii ''relay-1:9001'']"
proof -
  note c = VerifyChain_one [OF sampleBundle_verifies]
  show ?thesis using c conjunct1 [OF verified_chain_distinct [OF c]] by (intro exI conjI)
qed

end
