(* ===== verification/Identity.thy ===== *)
theory Identity
  imports Verify
begin

text \<open>
  \<^verbatim>\<open>pki/identity.go\<close> and \<^verbatim>\<open>pki/ca.go\<close>: the identity of a node, which asks for a certificate, installs it
  and signs its descriptors, and the authority that issues it. A private key is \<open>None\<close> once it is
  released; the released buffer is counted in the world. The mutexes make every operation one step.
\<close>

section \<open>The identity of a node\<close>

record Identity =
  id_p :: provider
  id_name :: bytes
  id_addr :: bytes
  id_pub :: bytes
  id_priv :: "bytes option"
  id_cert :: "(Cert \<times> bytes) option"
  id_link :: bytes
  id_onion :: bytes
  id_epoch :: u32
  id_bundle :: "bytes option"

definition NewIdentity :: "(bytes \<Rightarrow> (bytes \<times> bytes) option) \<Rightarrow> provider \<Rightarrow> bytes \<Rightarrow> bytes \<Rightarrow> Identity io" where
  "NewIdentity ip p name addr w =
     (if \<not> ValidName name \<or> \<not> ValidAddr ip addr then (Inl ErrFormat, w)
      else
        case pSigning p w of
          (Inl e, w) \<Rightarrow> (Inl e, w)
        | (Inr (priv, pub), w) \<Rightarrow>
            (Inr \<lparr>id_p = p, id_name = name, id_addr = addr, id_pub = pub, id_priv = Some priv, id_cert = None,
                  id_link = [], id_onion = [], id_epoch = 0, id_bundle = None\<rparr>, w))"

definition Identity_sign :: "Identity \<Rightarrow> bytes \<Rightarrow> bytes \<Rightarrow> bytes io" where
  "Identity_sign i domain body w =
     (case id_priv i of None \<Rightarrow> (Inl ErrReleased, w) | Some k \<Rightarrow> pSign (id_p i) k (signed_msg domain body) w)"

definition Identity_Request :: "Identity \<Rightarrow> bytes \<Rightarrow> bytes io" where
  "Identity_Request i nonce w =
     (let r = \<lparr>q_Suite = pSuite (id_p i), q_Nonce = nonce, q_Name = id_name i, q_Addr = id_addr i, q_Identity = id_pub i, q_Sig = []\<rparr> in
      case Identity_sign i requestDomain (Request_body r) w of
        (Inl e, w) \<Rightarrow> (Inl e, w)
      | (Inr sig, w) \<Rightarrow> (Inr (Request_Marshal (r\<lparr>q_Sig := sig\<rparr>)), w))"

definition Install :: "(bytes \<Rightarrow> (bytes \<times> bytes) option) \<Rightarrow> bytes \<Rightarrow> int \<Rightarrow> Identity \<Rightarrow> unit result \<times> Identity" where
  "Install ip raw now i =
     (case ParseCert ip raw of
        Inl e \<Rightarrow> (Inl e, i)
      | Inr c \<Rightarrow>
          if c_Suite c \<noteq> pSuite (id_p i) then (Inl ErrSuite, i)
          else if c_Identity c \<noteq> id_pub i then (Inl ErrCertMismatch, i)
          else if c_Name c \<noteq> id_name i \<or> c_Addr c \<noteq> id_addr i then (Inl ErrRoster, i)
          else
            case certWindow c now Skew of
              Inl e \<Rightarrow> (Inl e, i)
            | Inr _ \<Rightarrow>
                if id_priv i = None then (Inl ErrReleased, i)
                else (Inr (), i\<lparr>id_cert := Some (c, raw), id_bundle := None\<rparr>))"

definition SetKeys :: "bytes \<Rightarrow> bytes \<Rightarrow> u32 \<Rightarrow> Identity \<Rightarrow> Identity" where
  "SetKeys link onion epoch i = i\<lparr>id_link := link, id_onion := onion, id_epoch := epoch\<rparr>"

text \<open>The descriptor that \<^verbatim>\<open>Refresh\<close> signs, and the bundle it makes of it.\<close>

definition refreshed :: "json \<Rightarrow> Cert \<Rightarrow> bytes \<Rightarrow> u64 \<Rightarrow> u64 \<Rightarrow> Identity \<Rightarrow> world \<Rightarrow> unit result \<times> Identity \<times> world" where
  "refreshed js c raw published expires i w =
     (let h = pHash (id_p i) raw;
          d = \<lparr>d_Suite = pSuite (id_p i), d_Epoch = id_epoch i, d_Published = published, d_Expires = expires,
               d_CertHash = copy (replicate HashSize 0) h, d_LinkPub = id_link i, d_OnionPub = id_onion i, d_Sig = []\<rparr>
      in if length h \<noteq> HashSize then (Inl errHashSize, i, w)
         else
           case Identity_sign i descriptorDomain (Descriptor_body d) w of
             (Inl e, w) \<Rightarrow> (Inl e, i, w)
           | (Inr sig, w) \<Rightarrow>
               (Inr (), i\<lparr>id_bundle := Some (Bundle_Marshal js
                  \<lparr>b_V = int (unat pkiVersion), b_Suite = suite_String (pSuite (id_p i)), b_Cert = raw,
                   b_Descriptor = Descriptor_Marshal (d\<lparr>d_Sig := sig\<rparr>)\<rparr>)\<rparr>, w))"

definition Refresh :: "json \<Rightarrow> int \<Rightarrow> int \<Rightarrow> Identity \<Rightarrow> world \<Rightarrow> unit result \<times> Identity \<times> world" where
  "Refresh js now ttl i w =
     (if ttl \<le> 0 \<or> ttl > MaxDescriptorLife then (Inl ErrDescTime, i, w)
      else if id_priv i = None then (Inl ErrReleased, i, w)
      else
        case id_cert i of
          None \<Rightarrow> (Inl ErrNoCert, i, w)
        | Some (c, raw) \<Rightarrow>
            (case PublicKeySize (id_p i) w of
               (Inl e, w) \<Rightarrow> (Inl e, i, w)
             | (Inr sz, w) \<Rightarrow>
                 if length (id_link i) \<noteq> sz \<or> length (id_onion i) \<noteq> sz then (Inl ErrKeySize, i, w)
                 else if unix now \<ge> sint (c_NotAfter c) then (Inl ErrCertTime, i\<lparr>id_bundle := None\<rparr>, w)
                 else
                   let expires = min (unix (now + ttl)) (sint (c_NotAfter c)) in
                   if expires \<le> unix now then (Inl ErrDescTime, i, w)
                   else refreshed js c raw (word_of_int (unix now)) (word_of_int expires) i w))"

definition Identity_Bundle :: "Identity \<Rightarrow> bytes option" where
  "Identity_Bundle i = id_bundle i"

definition Identity_Close :: "Identity \<Rightarrow> world \<Rightarrow> Identity \<times> world" where
  "Identity_Close i w =
     (case id_priv i of
        None \<Rightarrow> (i\<lparr>id_bundle := None\<rparr>, w)
      | Some k \<Rightarrow> (i\<lparr>id_priv := None, id_bundle := None\<rparr>, release w))"

definition Identity_Fingerprint :: "Identity \<Rightarrow> string" where
  "Identity_Fingerprint i = Fingerprint (id_p i) (id_pub i)"

definition Identity_KeyHash :: "Identity \<Rightarrow> string" where
  "Identity_KeyHash i = KeyHash (id_p i) (id_pub i)"

text \<open>The bundle of a node without a certificate.\<close>

definition UnsignedEpoch :: "json \<Rightarrow> provider \<Rightarrow> bytes \<Rightarrow> bytes \<Rightarrow> u32 \<Rightarrow> bytes io" where
  "UnsignedEpoch js p link onion epoch w =
     (case PublicKeySize p w of
        (Inl e, w) \<Rightarrow> (Inl e, w)
      | (Inr sz, w) \<Rightarrow>
          if length link \<noteq> sz \<or> length onion \<noteq> sz then (Inl ErrKeySize, w)
          else
            (let d = \<lparr>d_Suite = pSuite p, d_Epoch = epoch, d_Published = 0, d_Expires = 0, d_CertHash = replicate HashSize 0,
                      d_LinkPub = link, d_OnionPub = onion, d_Sig = []\<rparr>
             in (Inr (Bundle_Marshal js \<lparr>b_V = int (unat pkiVersion), b_Suite = suite_String (pSuite p), b_Cert = [],
                                         b_Descriptor = Descriptor_Marshal d\<rparr>), w)))"

definition Unsigned :: "json \<Rightarrow> provider \<Rightarrow> bytes \<Rightarrow> bytes \<Rightarrow> bytes io" where
  "Unsigned js p link onion = UnsignedEpoch js p link onion 0"

section \<open>The authority\<close>

record CA =
  ca_p :: provider
  ca_anchor :: Anchor
  ca_id :: bytes
  ca_priv :: "bytes option"

definition NewCA :: "provider \<Rightarrow> CA io" where
  "NewCA p w =
     (case pSigning p w of
        (Inl e, w) \<Rightarrow> (Inl e, w)
      | (Inr (priv, pub), w) \<Rightarrow>
          (let a = \<lparr>an_Suite = pSuite p, an_Pub = pub\<rparr> in
           (Inr \<lparr>ca_p = p, ca_anchor = a, ca_id = Anchor_ID p a, ca_priv = Some priv\<rparr>, w)))"

definition CA_sign :: "CA \<Rightarrow> bytes \<Rightarrow> bytes \<Rightarrow> bytes io" where
  "CA_sign ca domain body w =
     (case ca_priv ca of None \<Rightarrow> (Inl ErrReleased, w) | Some k \<Rightarrow> pSign (ca_p ca) k (signed_msg domain body) w)"

definition Issue :: "(bytes \<Rightarrow> (bytes \<times> bytes) option) \<Rightarrow> CA \<Rightarrow> Request \<Rightarrow> int \<Rightarrow> int \<Rightarrow> Cert io" where
  "Issue ip ca r notBefore notAfter w =
     (if q_Suite r \<noteq> pSuite (ca_p ca) then (Inl ErrSuite, w)
      else if \<not> ValidName (q_Name r) \<or> \<not> ValidAddr ip (q_Addr r) \<or> q_Identity r = [] \<or> length (q_Identity r) > maxKey
      then (Inl ErrFormat, w)
      else
        case Request_verify (ca_p ca) r of
          Inl e \<Rightarrow> (Inl e, w)
        | Inr _ \<Rightarrow>
            if unix notAfter \<le> unix notBefore then (Inl ErrCertTime, w)
            else
              case readFull SerialSize w of
                (Inl e, w) \<Rightarrow> (Inl e, w)
              | (Inr serial, w) \<Rightarrow>
                  (let c = \<lparr>c_Suite = pSuite (ca_p ca), c_Serial = serial, c_CAID = ca_id ca,
                            c_NotBefore = word_of_int (unix notBefore), c_NotAfter = word_of_int (unix notAfter),
                            c_Name = q_Name r, c_Addr = q_Addr r, c_Identity = q_Identity r, c_Sig = []\<rparr>
                   in case CA_sign ca certDomain (Cert_body c) w of
                        (Inl e, w) \<Rightarrow> (Inl e, w)
                      | (Inr sig, w) \<Rightarrow> (Inr (c\<lparr>c_Sig := sig\<rparr>), w)))"

definition CA_Close :: "CA \<Rightarrow> world \<Rightarrow> CA \<times> world" where
  "CA_Close ca w =
     (case ca_priv ca of None \<Rightarrow> (ca, w) | Some k \<Rightarrow> (ca\<lparr>ca_priv := None\<rparr>, release w))"

section \<open>What is relied on\<close>

text \<open>
  A key pair of the provider signs what its public key verifies, and both fit their fields.
\<close>

definition signing_ok :: "provider \<Rightarrow> bool" where
  "signing_ok p \<longleftrightarrow>
     (\<forall>w priv pub w'. pSigning p w = (Inr (priv, pub), w') \<longrightarrow> 1 \<le> length pub \<and> length pub \<le> maxKey
        \<and> (\<forall>m w1 sig w2. pSign p priv m w1 = (Inr sig, w2) \<longrightarrow> length sig \<le> maxSig \<and> pVerify p pub m sig))"

lemma signing_okD:
  assumes "signing_ok p" "pSigning p w = (Inr (priv, pub), w')"
  shows "1 \<le> length pub" "length pub \<le> maxKey" "pSign p priv m w1 = (Inr sig, w2) \<Longrightarrow> length sig \<le> maxSig \<and> pVerify p pub m sig"
  using assms unfolding signing_ok_def by blast+

section \<open>Enrollment\<close>

lemma Identity_Request_parses:
  assumes "signing_ok p" "knownSuite (pSuite p)" "NewIdentity ip p name addr w = (Inr i, w')" "length nonce = pkiNonceSize"
    "Identity_Request i nonce w1 = (Inr raw, w2)"
  obtains r where "ParseRequest ip raw = Inr r" "Request_Check p nonce name addr r = Inr ()" "q_Suite r = pSuite p"
    "q_Name r = name" "q_Addr r = addr" "q_Identity r = id_pub i"
proof -
  obtain priv pub w0 where k: "pSigning p w = (Inr (priv, pub), w0)" "ValidName name" "ValidAddr ip addr"
    "i = \<lparr>id_p = p, id_name = name, id_addr = addr, id_pub = pub, id_priv = Some priv, id_cert = None,
                  id_link = [], id_onion = [], id_epoch = 0, id_bundle = None\<rparr>"
    using assms(3) by (auto simp: NewIdentity_def split: if_splits prod.splits sum.splits)
  let ?r = "\<lparr>q_Suite = pSuite p, q_Nonce = nonce, q_Name = name, q_Addr = addr, q_Identity = pub, q_Sig = []\<rparr>"
  obtain sig where s: "pSign p priv (signed_msg requestDomain (Request_body ?r)) w1 = (Inr sig, w2)" "raw = Request_Marshal (?r\<lparr>q_Sig := sig\<rparr>)"
    using assms(5) k(4) by (auto simp: Identity_Request_def Identity_sign_def Let_def split: prod.splits sum.splits)
  note sk = signing_okD [OF assms(1) k(1)]
  have "wf_request ip (?r\<lparr>q_Sig := sig\<rparr>)"
    using assms(2,4) k(2,3) sk(1,2) sk(3) [OF s(1)] by (simp add: wf_request_def)
  then have "ParseRequest ip raw = Inr (?r\<lparr>q_Sig := sig\<rparr>)" using s(2) by (simp add: request.parse_iff)
  moreover have "Request_body (?r\<lparr>q_Sig := sig\<rparr>) = Request_body ?r" by (simp add: Request_body_def)
  ultimately show ?thesis
    using that sk(3) [OF s(1)] k(4) by (simp add: Request_Check_def Request_verify_def)
qed

lemma sint_instant: "0 \<le> k \<Longrightarrow> k < 2 ^ 63 \<Longrightarrow> sint (word_of_int k :: u64) = k"
  by (simp add: sint_uint signed_take_bit_int_eq_self uint_word_of_int)

lemma Issue_Inr:
  assumes "signing_ok p" "knownSuite (pSuite p)" "NewCA p w = (Inr ca, w')" "Issue ip ca r nb na w1 = (Inr c, w2)"
    "length (pHash p (an_Pub (ca_anchor ca))) = HashSize"
  shows "wf_cert ip c" "c_Suite c = pSuite p" "c_Name c = q_Name r" "c_Addr c = q_Addr r" "c_Identity c = q_Identity r"
    "c_NotBefore c = word_of_int (unix nb)" "c_NotAfter c = word_of_int (unix na)" "unix nb < unix na"
    "an_Suite (ca_anchor ca) = pSuite p" "c_CAID c = Anchor_ID p (ca_anchor ca)"
    "pVerify p (an_Pub (ca_anchor ca)) (signed_msg certDomain (Cert_body c)) (c_Sig c)"
proof -
  obtain priv pub w0 where k: "pSigning p w = (Inr (priv, pub), w0)"
    "ca = \<lparr>ca_p = p, ca_anchor = \<lparr>an_Suite = pSuite p, an_Pub = pub\<rparr>, ca_id = Anchor_ID p \<lparr>an_Suite = pSuite p, an_Pub = pub\<rparr>, ca_priv = Some priv\<rparr>"
    using assms(3) by (auto simp: NewCA_def Let_def split: prod.splits sum.splits)
  let ?c = "\<lambda>serial. \<lparr>c_Suite = pSuite p, c_Serial = serial, c_CAID = ca_id ca,
                            c_NotBefore = word_of_int (unix nb), c_NotAfter = word_of_int (unix na),
                            c_Name = q_Name r, c_Addr = q_Addr r, c_Identity = q_Identity r, c_Sig = []\<rparr>"
  have cap: "ca_p ca = p" "ca_priv ca = Some priv" "ca_anchor ca = \<lparr>an_Suite = pSuite p, an_Pub = pub\<rparr>" "ca_id ca = Anchor_ID p (ca_anchor ca)"
    using k(2) by simp_all
  obtain serial w3 sig where s: "readFull SerialSize w1 = (Inr serial, w3)" "pSign p priv (signed_msg certDomain (Cert_body (?c serial))) w3 = (Inr sig, w2)"
    "c = (?c serial)\<lparr>c_Sig := sig\<rparr>" and v: "ValidName (q_Name r)" "ValidAddr ip (q_Addr r)" "q_Identity r \<noteq> []" "length (q_Identity r) \<le> maxKey"
    "unix nb < unix na"
    using assms(4) cap(1,2) by (auto simp: Issue_def CA_sign_def Let_def split: if_splits prod.splits sum.splits)
  note sk = signing_okD(3) [OF assms(1) k(1) s(2)]
  have len: "length serial = SerialSize" "length (ca_id ca) = IDSize"
    using readFull_length [OF s(1)] by (simp_all add: cap(4) Anchor_ID_def keyID_def)
  show "wf_cert ip c" using s(3) v len sk assms(2) by (cases "q_Identity r") (auto simp: wf_cert_def)
  have "Cert_body c = Cert_body (?c serial)" by (simp add: s(3) Cert_body_def)
  then show "pVerify p (an_Pub (ca_anchor ca)) (signed_msg certDomain (Cert_body c)) (c_Sig c)" using sk s(3) cap(3) by simp
  show "c_Suite c = pSuite p" "c_Name c = q_Name r" "c_Addr c = q_Addr r" "c_Identity c = q_Identity r"
    "c_NotBefore c = word_of_int (unix nb)" "c_NotAfter c = word_of_int (unix na)" "unix nb < unix na"
    "an_Suite (ca_anchor ca) = pSuite p" "c_CAID c = Anchor_ID p (ca_anchor ca)"
    using s(3) v(5) cap by simp_all
qed

lemma unix_mono: "s \<le> t \<Longrightarrow> unix s \<le> unix t"
  by (simp add: unix_def Second_def Millisecond_def zdiv_mono1)

lemma unix_add_life: "Second dvd life \<Longrightarrow> unix (now + life) = unix now + life div Second"
  by (auto simp: unix_def Second_def Millisecond_def)

lemma Install_issued:
  assumes "wf_cert ip c" "c_Suite c = pSuite (id_p i)" "c_Identity c = id_pub i" "c_Name c = id_name i" "c_Addr c = id_addr i"
    "certWindow c t Skew = Inr ()" "id_priv i = Some k"
  shows "Install ip (Cert_Marshal c) t i = (Inr (), i\<lparr>id_cert := Some (c, Cert_Marshal c), id_bundle := None\<rparr>)"
  using assms cert.parse_iff [of ip "Cert_Marshal c" c] by (simp add: Install_def)

text \<open>A node whose certificate is installed: what a refresh makes of its keys.\<close>

lemma Refresh_Inr:
  assumes p: "provider_ok p n ov" "n \<le> maxKey" and key: "pSigning p w0 = (Inr (priv, pub), w1)" "signing_ok p"
    and i: "id_p i = p" "id_priv i = Some priv" "id_cert i = Some (c, raw)"
    and r: "Refresh js now ttl i w = (Inr (), i', w')" and t: "0 \<le> now" and size: "sizeCache w (pSuite p) = Some (n, ov)"
  obtains d where "id_bundle i' = Some (Bundle_Marshal js \<lparr>b_V = 1, b_Suite = suite_String (pSuite p), b_Cert = raw, b_Descriptor = Descriptor_Marshal d\<rparr>)"
    "wf_descriptor d" "d_Suite d = pSuite p" "d_CertHash d = pHash p raw" "pVerify p pub (signed_msg descriptorDomain (Descriptor_body d)) (d_Sig d)"
    "sint (d_Published d) = unix now" "sint (d_Expires d) = min (unix (now + ttl)) (sint (c_NotAfter c))"
    "d_LinkPub d = id_link i" "d_OnionPub d = id_onion i" "d_Epoch d = id_epoch i" "length (id_link i) = n" "length (id_onion i) = n"
    "unix now < sint (d_Expires d)" "ttl \<le> MaxDescriptorLife"
proof -
  let ?x = "min (unix (now + ttl)) (sint (c_NotAfter c))"
  have "PublicKeySize p w = (Inr n, w)" using sizesOf_cached [OF size] by (simp add: PublicKeySize_def)
  then have g: "ttl \<le> MaxDescriptorLife" "length (id_link i) = n" "length (id_onion i) = n" "unix now < ?x"
    "refreshed js c raw (word_of_int (unix now)) (word_of_int ?x) i w = (Inr (), i', w')"
    using r i by (auto simp: Refresh_def Let_def split: if_splits)
  let ?d = "\<lparr>d_Suite = pSuite p, d_Epoch = id_epoch i, d_Published = word_of_int (unix now), d_Expires = word_of_int ?x,
      d_CertHash = pHash p raw, d_LinkPub = id_link i, d_OnionPub = id_onion i, d_Sig = []\<rparr>"
  have h: "length (pHash p raw) = HashSize" using provider_okD(4) [OF p(1)] by (simp add: ContextSize_def HashSize_def)
  then have hc: "copy (replicate HashSize 0) (pHash p raw) = pHash p raw" by (simp add: copy_same)
  obtain sig where s: "pSign p priv (signed_msg descriptorDomain (Descriptor_body ?d)) w = (Inr sig, w')"
    "id_bundle i' = Some (Bundle_Marshal js \<lparr>b_V = 1, b_Suite = suite_String (pSuite p), b_Cert = raw, b_Descriptor = Descriptor_Marshal (?d\<lparr>d_Sig := sig\<rparr>)\<rparr>)"
    using g(5) i h hc by (auto simp: refreshed_def Identity_sign_def Let_def pkiVersion_def split: prod.splits sum.splits)
  note sk = signing_okD(3) [OF key(2,1) s(1)]
  have b: "0 \<le> unix now" using t by (simp add: unix_def Second_def Millisecond_def)
  have x: "0 \<le> ?x" "?x < 2 ^ 63" using b g(4) sint_lt [of "c_NotAfter c"] by auto
  have "unix now < 2 ^ 63" using x(2) g(4) by linarith
  then have "sint (word_of_int (unix now) :: u64) = unix now" using b sint_instant by blast
  moreover have "sint (word_of_int ?x :: u64) = ?x" using x by (rule sint_instant)
  moreover have "wf_descriptor (?d\<lparr>d_Sig := sig\<rparr>)"
    using p h g(2,3) sk provider_okD(1,2) [OF p(1)] by (simp add: wf_descriptor_def)
  moreover have "Descriptor_body (?d\<lparr>d_Sig := sig\<rparr>) = Descriptor_body ?d" by (simp add: Descriptor_body_def)
  ultimately show ?thesis using that [of "?d\<lparr>d_Sig := sig\<rparr>"] s(2) sk g by simp
qed

text \<open>
  C11: a node that was enrolled is accepted. The request its identity signs is parsed by the authority
  and passes the check of nonce and roster; the certificate issued for it is installed by the node
  while it is valid; and the bundle the node then serves verifies under the authority's anchor at
  every instant at which both are valid, for the address of the request and with exactly the keys
  the node published.
\<close>

theorem enrolled_node_verifies:
  assumes p: "provider_ok p n ov" "n \<le> maxKey" "signing_ok p" "json_ok js"
    and ca: "NewCA p w1 = (Inr ca, w2)" and i: "NewIdentity ip p name addr w3 = (Inr i, w4)"
    and req: "length nonce = pkiNonceSize" "Identity_Request i nonce w5 = (Inr raw, w6)" "ParseRequest ip raw = Inr r"
    and iss: "Issue ip ca r nb na w7 = (Inr c, w8)" "0 \<le> nb" "unix na < 2 ^ 63"
    and inst: "Install ip (Cert_Marshal c) t i = (res, i1)" "unix nb \<le> unix (t + Skew)" "unix t < unix na"
    and ref: "Refresh js now ttl (SetKeys link onion epoch i1) w9 = (Inr (), i2, w10)" "0 \<le> now" "sizeCache w9 (pSuite p) = Some (n, ov)"
    and pol: "po_Anchor pol = ca_anchor ca" "ttl \<le> maxLife pol" "Second dvd maxLife pol"
    and now: "unix nb \<le> unix (t2 + max (po_Skew pol) 0)" "unix now \<le> unix (t2 + max (po_Skew pol) 0)"
      "unix t2 < unix na" "unix t2 < unix (now + ttl)" and w: "sizeCache w11 (pSuite p) = Some (n, ov)"
  shows "Request_Check p nonce name addr r = Inr () \<and> res = Inr ()
    \<and> (\<exists>bundle v. Identity_Bundle i2 = Some bundle \<and> Verify js ip p pol addr bundle t2 w11 = (Inr v, w11)
        \<and> v_Name v = name \<and> v_Identity v = id_pub i \<and> v_LinkPub v = link \<and> v_OnionPub v = onion \<and> v_Epoch v = epoch)"
proof -
  have ks: "knownSuite (pSuite p)" using provider_okD(1) [OF p(1)] .
  have hash: "length (pHash p x) = HashSize" for x using provider_okD(4) [OF p(1)] by (simp add: ContextSize_def HashSize_def)
  obtain r' where "ParseRequest ip raw = Inr r'" and rr: "Request_Check p nonce name addr r' = Inr ()" "q_Suite r' = pSuite p"
    "q_Name r' = name" "q_Addr r' = addr" "q_Identity r' = id_pub i"
    by (rule Identity_Request_parses [OF p(3) ks i req(1,2)])
  then have r: "r' = r" using req(3) by simp
  obtain priv wi where k: "pSigning p w3 = (Inr (priv, id_pub i), wi)" "id_priv i = Some priv" "id_p i = p" "id_name i = name" "id_addr i = addr"
    using i by (auto simp: NewIdentity_def split: if_splits prod.splits sum.splits)
  note C = Issue_Inr [OF p(3) ks ca iss(1) hash]
  have nonneg: "0 \<le> unix nb" using iss(2) by (simp add: unix_def Second_def Millisecond_def)
  have sn: "sint (c_NotBefore c) = unix nb" "sint (c_NotAfter c) = unix na"
    using C(6,7,8) nonneg iss(3) sint_instant [of "unix nb"] sint_instant [of "unix na"] by simp_all
  have cw: "certWindow c t Skew = Inr ()" using sn C(8) inst(2,3) by (simp add: certWindow_def)
  have i1: "res = Inr ()" "i1 = i\<lparr>id_cert := Some (c, Cert_Marshal c), id_bundle := None\<rparr>"
    using inst(1) Install_issued [OF C(1) _ _ _ _ cw, of i priv] C(2-5) rr(3-5) k r by simp_all
  let ?i = "SetKeys link onion epoch i1"
  have i3: "id_p ?i = p" "id_priv ?i = Some priv" "id_cert ?i = Some (c, Cert_Marshal c)" "id_link ?i = link" "id_onion ?i = onion" "id_epoch ?i = epoch"
    using i1(2) k by (simp_all add: SetKeys_def)
  obtain d where d: "id_bundle i2 = Some (Bundle_Marshal js \<lparr>b_V = 1, b_Suite = suite_String (pSuite p), b_Cert = Cert_Marshal c, b_Descriptor = Descriptor_Marshal d\<rparr>)"
    "wf_descriptor d" "d_Suite d = pSuite p" "d_CertHash d = pHash p (Cert_Marshal c)"
    "pVerify p (id_pub i) (signed_msg descriptorDomain (Descriptor_body d)) (d_Sig d)"
    "sint (d_Published d) = unix now" "sint (d_Expires d) = min (unix (now + ttl)) (sint (c_NotAfter c))"
    "d_LinkPub d = link" "d_OnionPub d = onion" "d_Epoch d = epoch" "length link = n" "length onion = n" "unix now < sint (d_Expires d)"
    by (rule Refresh_Inr [OF p(1,2) k(1) p(3) i3(1-3) ref, unfolded i3(4-6)])
  let ?b = "\<lparr>b_V = 1, b_Suite = suite_String (pSuite p), b_Cert = Cert_Marshal c, b_Descriptor = Descriptor_Marshal d\<rparr>"
  have "ParseBundle js (Bundle_Marshal js ?b) = Inr ?b"
    by (rule ParseBundle_Marshal [OF p(4) _ ks]) (simp_all add: Descriptor_Marshal_def w_field_def)
  moreover have "cert_accepted p pol addr t2 c"
    using C(2,4,8,10,11) pol(1) sn now(1,3) rr(4) r by (simp add: cert_accepted_def)
  moreover have "unix (now + ttl) \<le> unix now + maxLife pol div Second"
    using unix_mono [of "now + ttl" "now + maxLife pol"] unix_add_life [OF pol(3), of now] pol(2) by simp
  then have "desc_accepted p pol t2 c d"
    using d(3-7,13) C(5) rr(5) r sn now(2,3,4) by (auto simp: desc_accepted_def)
  moreover have "keySizes p d w11 = (Inr (), w11)"
    using d(8,9,11,12) sizesOf_cached [OF w] by (simp add: keySizes_def PublicKeySize_def)
  ultimately have "Verify js ip p pol addr (Bundle_Marshal js ?b) t2 w11 = (Inr (verified_of c d), w11)"
    using C(1,9) d(2) pol(1) unfolding Verify_Inr by (intro conjI exI [of _ c] exI [of _ d]) simp_all
  then show ?thesis
    using rr(1) r i1(1) d(1,8-10) C(3,5) rr(3,5) by (auto simp: Identity_Bundle_def verified_of_def)
qed

section \<open>An enrollment that succeeds\<close>

definition randomWorld :: "byte \<Rightarrow> world" where
  "randomWorld x = \<lparr>rnd = replicate 64 x, live = 0, limit = 1, sizeCache = [SuiteC25519 \<mapsto> (32, 16)]\<rparr>"

lemma sampleSuite_signing: "signing_ok sampleSuite"
  by (auto simp: signing_ok_def sampleSuite_def sampleEphemeral_def readFull_def maxKey_def maxSig_def
      split: if_splits prod.splits sum.splits)

lemma sample_keys:
  "pSigning sampleSuite (randomWorld x) = (Inr (replicate 32 x, replicate 32 x), (randomWorld x)\<lparr>rnd := replicate 32 x, live := 1\<rparr>)"
  by (simp add: sampleSuite_def sampleEphemeral_def randomWorld_def readFull_def allocate_def)

definition sampleCA :: CA where
  "sampleCA = \<lparr>ca_p = sampleSuite, ca_anchor = sampleAnchor, ca_id = Anchor_ID sampleSuite sampleAnchor, ca_priv = Some (replicate 32 7)\<rparr>"

definition sampleIdentity :: Identity where
  "sampleIdentity =
     \<lparr>id_p = sampleSuite, id_name = ascii ''relay-1'', id_addr = ascii ''relay-1:9001'', id_pub = replicate 32 8, id_priv = Some (replicate 32 8),
      id_cert = None, id_link = [], id_onion = [], id_epoch = 0, id_bundle = None\<rparr>"

lemma sampleCA_new: "\<exists>w. NewCA sampleSuite (randomWorld 7) = (Inr sampleCA, w)"
  by (simp add: NewCA_def sample_keys sampleCA_def sampleAnchor_def Let_def) (simp add: sampleSuite_def)

lemma sampleIdentity_new:
  "\<exists>w. NewIdentity (\<lambda>_. None) sampleSuite (ascii ''relay-1'') (ascii ''relay-1:9001'') (randomWorld 8) = (Inr sampleIdentity, w)"
  by (simp add: NewIdentity_def sample_keys sampleIdentity_def sample_addr)

lemma sample_sign: "pSign sampleSuite k m w = (Inr (fit 64 (k @ m)), w)" "pSuite sampleSuite = SuiteC25519" "pHash sampleSuite = fit 32"
  "pVerify sampleSuite k m s \<longleftrightarrow> s = fit 64 (k @ m)"
  by (simp_all add: sampleSuite_def)

lemma sampleRequest_signed: "\<exists>raw. Identity_Request sampleIdentity (replicate pkiNonceSize 1) w = (Inr raw, w)"
  by (simp add: Identity_Request_def Identity_sign_def sampleIdentity_def sample_sign Let_def)

lemma sampleCert_issued:
  assumes "Request_Check sampleSuite nonce name addr r = Inr ()" "q_Suite r = pSuite sampleSuite" "q_Name r = ascii ''relay-1''"
    "q_Addr r = ascii ''relay-1:9001''" "q_Identity r = replicate 32 8"
  shows "\<exists>c w. Issue (\<lambda>_. None) sampleCA r 0 (1000 * Second) (randomWorld 0) = (Inr c, w)"
proof -
  have "Request_verify sampleSuite r = Inr ()" using assms(1) by (auto simp: Request_Check_def split: if_splits)
  then show ?thesis
    using assms(2-5)
    by (simp add: Issue_def CA_sign_def sampleCA_def sample_addr maxKey_def sample_sign unix_def Second_def Millisecond_def readFull_def
        randomWorld_def SerialSize_def Let_def)
qed

lemma sampleRefresh_signed:
  assumes "c_NotAfter c = word_of_int 1000" "id_cert i = Some (c, raw)" "id_p i = sampleSuite" "id_priv i = Some k"
    "length (id_link i) = 32" "length (id_onion i) = 32"
  shows "\<exists>i' w. Refresh sampleJson (10 * Second) (490 * Second) i sampleReader = (Inr (), i', w)"
proof -
  have "PublicKeySize sampleSuite sampleReader = (Inr 32, sampleReader)"
    using sizesOf_cached [of sampleReader sampleSuite "(32, 16)"] by (simp add: PublicKeySize_def sampleReader_def sample_sign)
  moreover have "sint (c_NotAfter c) = 1000" using assms(1) sint_instant [of 1000] by simp
  ultimately show ?thesis
    using assms(2-6)
    by (simp add: Refresh_def refreshed_def Identity_sign_def sample_sign MaxDescriptorLife_def Hour_def Minute_def unix_def Second_def
        Millisecond_def HashSize_def Let_def)
qed

theorem enrolled_node_verifies_witness:
  "\<exists>bundle v. Verify sampleJson (\<lambda>_. None) sampleSuite samplePolicy (ascii ''relay-1:9001'') bundle (20 * Second) sampleReader = (Inr v, sampleReader)
     \<and> v_Name v = ascii ''relay-1'' \<and> v_LinkPub v = replicate 32 3 \<and> v_OnionPub v = replicate 32 4 \<and> v_Epoch v = 1"
proof -
  obtain wa wi where new: "NewCA sampleSuite (randomWorld 7) = (Inr sampleCA, wa)"
    "NewIdentity (\<lambda>_. None) sampleSuite (ascii ''relay-1'') (ascii ''relay-1:9001'') (randomWorld 8) = (Inr sampleIdentity, wi)"
    using sampleCA_new sampleIdentity_new by blast
  obtain raw where req: "Identity_Request sampleIdentity (replicate pkiNonceSize 1) wi = (Inr raw, wi)" using sampleRequest_signed by blast
  have ks: "knownSuite (pSuite sampleSuite)" by (simp add: sampleSuite_def knownSuite_def)
  have n: "length (replicate pkiNonceSize 1 :: bytes) = pkiNonceSize" by simp
  obtain r where r: "ParseRequest (\<lambda>_. None) raw = Inr r"
    "Request_Check sampleSuite (replicate pkiNonceSize 1) (ascii ''relay-1'') (ascii ''relay-1:9001'') r = Inr ()" "q_Suite r = pSuite sampleSuite"
    "q_Name r = ascii ''relay-1''" "q_Addr r = ascii ''relay-1:9001''" "q_Identity r = id_pub sampleIdentity"
    by (rule Identity_Request_parses [OF sampleSuite_signing ks new(2) n req])
  have pub: "id_pub sampleIdentity = replicate 32 8" by (simp add: sampleIdentity_def)
  obtain c wc where c: "Issue (\<lambda>_. None) sampleCA r 0 (1000 * Second) (randomWorld 0) = (Inr c, wc)"
    using sampleCert_issued [OF r(2-5)] r(6) pub by auto
  have "length (pHash sampleSuite x) = HashSize" for x by (simp add: sample_sign HashSize_def)
  note C = Issue_Inr [OF sampleSuite_signing ks new(1) c this]
  have na: "c_NotAfter c = word_of_int 1000" using C(7) by (simp add: unix_def Second_def Millisecond_def)
  have nb: "c_NotBefore c = 0" using C(6) by (simp add: unix_def)
  let ?i = "sampleIdentity\<lparr>id_cert := Some (c, Cert_Marshal c), id_bundle := None\<rparr>"
  have cw: "certWindow c 0 Skew = Inr ()"
    using na nb sint_instant [of 1000] by (simp add: certWindow_def unix_def Skew_def Minute_def Second_def Millisecond_def)
  have inst: "Install (\<lambda>_. None) (Cert_Marshal c) 0 sampleIdentity = (Inr (), ?i)"
    by (rule Install_issued [OF C(1)]) (simp_all add: C(2-5) r cw, simp_all add: sampleIdentity_def)
  obtain i2 w2 where ref: "Refresh sampleJson (10 * Second) (490 * Second) (SetKeys (replicate 32 3) (replicate 32 4) 1 ?i) sampleReader = (Inr (), i2, w2)"
    using sampleRefresh_signed [OF na, of "SetKeys (replicate 32 3) (replicate 32 4) 1 ?i" "Cert_Marshal c" "replicate 32 8"]
    by (auto simp: SetKeys_def sampleIdentity_def)
  show ?thesis
    using enrolled_node_verifies [OF sampleSuite_ok _ sampleSuite_signing sampleJson_ok new n req r(1) c _ _ inst _ _ ref, of samplePolicy "20 * Second" sampleReader]
    by (auto simp: maxKey_def unix_def Skew_def Second_def Millisecond_def Minute_def sampleReader_def samplePolicy_def sampleCA_def sampleAnchor_def
        maxLife_def MaxDescriptorLife_def Hour_def sample_sign)
qed

end
