(* ===== verification/Roster.thy ===== *)
theory Roster
  imports Identity "HOL-Library.List_Lexorder" "HOL-Library.Multiset"
begin

text \<open>
  \<^verbatim>\<open>pki/roster.go\<close>: the roster every node of an enrollment receives, and the mirror of bundles a node
  serves. \<^verbatim>\<open>encoding/json\<close> is an argument again, for rosters and for mirrors a pair of what
  \<^verbatim>\<open>Marshal\<close> writes and what \<^verbatim>\<open>Unmarshal\<close> reads; \<^verbatim>\<open>Marshal\<close> of a mirror can fail, because it checks the
  raw messages in it.
\<close>

section \<open>Rosters\<close>

definition MaxRoster :: nat where "MaxRoster = 4 * 1024"

record RosterNode =
  rn_Name :: bytes
  rn_Addr :: bytes

record Roster =
  ro_Anchor :: Anchor
  ro_Nodes :: "RosterNode list"

record rosterEnvelope =
  re_Anchor :: string
  re_Nodes :: "RosterNode list"

type_synonym rosterJson = "(rosterEnvelope \<Rightarrow> bytes) \<times> (bytes \<Rightarrow> rosterEnvelope option)"

definition Roster_Marshal :: "rosterJson \<Rightarrow> Roster \<Rightarrow> bytes" where
  "Roster_Marshal js r = fst js \<lparr>re_Anchor = Anchor_String (ro_Anchor r), re_Nodes = ro_Nodes r\<rparr>"

text \<open>The loop of \<^verbatim>\<open>ParseRoster\<close>, with the names and addresses seen so far in one set.\<close>

fun rosterScan :: "(bytes \<Rightarrow> (bytes \<times> bytes) option) \<Rightarrow> RosterNode list \<Rightarrow> bytes list \<Rightarrow> unit result" where
  "rosterScan ip [] seen = Inr ()"
| "rosterScan ip (n # ns) seen =
     (if \<not> ValidName (rn_Name n) \<or> \<not> ValidAddr ip (rn_Addr n) then Inl ErrFormat
      else if rn_Name n \<in> set seen \<or> rn_Addr n \<in> set seen then Inl ErrDuplicateNode
      else rosterScan ip ns (rn_Name n # rn_Addr n # seen))"

definition ParseRoster :: "rosterJson \<Rightarrow> (bytes \<Rightarrow> (bytes \<times> bytes) option) \<Rightarrow> bytes \<Rightarrow> Roster result" where
  "ParseRoster js ip raw =
     (if length raw > MaxRoster then Inl ErrFormat
      else
        case snd js raw of
          None \<Rightarrow> Inl ErrFormat
        | Some e \<Rightarrow>
            (case ParseAnchor (re_Anchor e) of
               Inl err \<Rightarrow> Inl err
             | Inr anchor \<Rightarrow>
                 if re_Nodes e = [] then Inl ErrFormat
                 else
                   case rosterScan ip (re_Nodes e) [] of
                     Inl err \<Rightarrow> Inl err
                   | Inr _ \<Rightarrow>
                       let r = \<lparr>ro_Anchor = anchor, ro_Nodes = re_Nodes e\<rparr> in
                       if Roster_Marshal js r \<noteq> raw then Inl ErrFormat else Inr r))"

definition Roster_Has :: "Roster \<Rightarrow> bytes \<Rightarrow> bytes \<Rightarrow> bool" where
  "Roster_Has r name addr \<longleftrightarrow> list_ex (\<lambda>n. rn_Name n = name \<and> rn_Addr n = addr) (ro_Nodes r)"

section \<open>Mirrors\<close>

record MirrorEntry =
  me_Addr :: bytes
  me_Bundle :: bytes

type_synonym mirrorJson = "(MirrorEntry list \<Rightarrow> bytes option) \<times> (bytes \<Rightarrow> MirrorEntry list option)"

text \<open>
  The loop of \<^verbatim>\<open>checkMirror\<close>, with the address of the item before. Items and entries have the same two
  fields and are one type here.
\<close>

fun checkItems :: "json \<Rightarrow> (bytes \<Rightarrow> (bytes \<times> bytes) option) \<Rightarrow> bytes option \<Rightarrow> MirrorEntry list \<Rightarrow> unit result" where
  "checkItems js ip prev [] = Inr ()"
| "checkItems js ip prev (it # items) =
     (if \<not> ValidAddr ip (me_Addr it) then Inl ErrFormat
      else if prev = Some (me_Addr it) then Inl ErrDuplicateNode
      else if (case prev of None \<Rightarrow> False | Some a \<Rightarrow> a > me_Addr it) then Inl ErrFormat
      else
        case ParseBundle js (me_Bundle it) of
          Inl e \<Rightarrow> Inl e
        | Inr _ \<Rightarrow> checkItems js ip (Some (me_Addr it)) items)"

definition checkMirror :: "json \<Rightarrow> (bytes \<Rightarrow> (bytes \<times> bytes) option) \<Rightarrow> MirrorEntry list \<Rightarrow> unit result" where
  "checkMirror js ip items = (if items = [] then Inl ErrFormat else checkItems js ip None items)"

definition MarshalMirror ::
  "mirrorJson \<Rightarrow> json \<Rightarrow> (bytes \<Rightarrow> (bytes \<times> bytes) option) \<Rightarrow> MirrorEntry list \<Rightarrow> bytes result" where
  "MarshalMirror mj js ip entries =
     (let items = sort_key me_Addr entries in
      case checkMirror js ip items of
        Inl e \<Rightarrow> Inl e
      | Inr _ \<Rightarrow> (case fst mj items of None \<Rightarrow> Inl (Message ''json'') | Some raw \<Rightarrow> Inr raw))"

definition ParseMirror ::
  "mirrorJson \<Rightarrow> json \<Rightarrow> (bytes \<Rightarrow> (bytes \<times> bytes) option) \<Rightarrow> bytes \<Rightarrow> MirrorEntry list result" where
  "ParseMirror mj js ip raw =
     (case snd mj raw of
        None \<Rightarrow> Inl ErrFormat
      | Some items \<Rightarrow>
          (case checkMirror js ip items of
             Inl e \<Rightarrow> Inl e
           | Inr _ \<Rightarrow> if fst mj items \<noteq> Some raw then Inl ErrFormat else Inr items))"

section \<open>A roster has one spelling and no node twice\<close>

lemma name_no_colon: "ValidName s \<Longrightarrow> byte_of (CHR '':'') \<notin> set s"
  by (auto simp: ValidName_def list_all_iff name_char_def byte_of_def is_lower_def is_digit_def)

lemma addr_colon: "ValidAddr ip s \<Longrightarrow> byte_of (CHR '':'') \<in> set s"
  by (auto simp: ValidAddr_def SplitHostPort_def lastIndexByte_def indexByte_def split: if_splits option.splits)

lemma name_not_addr: "ValidName s \<Longrightarrow> ValidAddr ip t \<Longrightarrow> s \<noteq> t"
  using name_no_colon addr_colon by metis

definition wf_nodes :: "(bytes \<Rightarrow> (bytes \<times> bytes) option) \<Rightarrow> RosterNode list \<Rightarrow> bool" where
  "wf_nodes ip ns \<longleftrightarrow> (\<forall>n \<in> set ns. ValidName (rn_Name n) \<and> ValidAddr ip (rn_Addr n)) \<and> distinct (map rn_Name ns) \<and> distinct (map rn_Addr ns)"

lemma rosterScan_iff:
  "rosterScan ip ns seen = Inr () \<longleftrightarrow> wf_nodes ip ns \<and> (\<forall>n \<in> set ns. rn_Name n \<notin> set seen \<and> rn_Addr n \<notin> set seen)"
proof (induction ns arbitrary: seen)
  case (Cons n ns)
  have wf: "wf_nodes ip (n # ns) \<longleftrightarrow> ValidName (rn_Name n) \<and> ValidAddr ip (rn_Addr n) \<and> wf_nodes ip ns
      \<and> (\<forall>m \<in> set ns. rn_Name m \<noteq> rn_Name n \<and> rn_Addr m \<noteq> rn_Addr n)"
    by (auto simp: wf_nodes_def image_iff)
  show ?case
  proof (cases "ValidName (rn_Name n) \<and> ValidAddr ip (rn_Addr n) \<and> wf_nodes ip ns")
    case True
    then have "rn_Addr m \<noteq> rn_Name n \<and> rn_Name m \<noteq> rn_Addr n" if "m \<in> set ns" for m
      using that name_not_addr [of "rn_Name n" ip "rn_Addr m"] name_not_addr [of "rn_Name m" ip "rn_Addr n"] by (auto simp: wf_nodes_def)
    then show ?thesis unfolding wf using Cons.IH True by auto
  qed (use Cons.IH wf in auto)
qed (simp add: wf_nodes_def)

text \<open>What the decoders are relied on for: they read back what was written for valid contents.\<close>

definition roster_json_ok :: "rosterJson \<Rightarrow> (bytes \<Rightarrow> (bytes \<times> bytes) option) \<Rightarrow> bool" where
  "roster_json_ok js ip \<longleftrightarrow>
     (\<forall>a ns. wf_nodes ip ns \<longrightarrow> snd js (fst js \<lparr>re_Anchor = Anchor_String a, re_Nodes = ns\<rparr>) = Some \<lparr>re_Anchor = Anchor_String a, re_Nodes = ns\<rparr>)"

definition mirror_ok :: "json \<Rightarrow> (bytes \<Rightarrow> (bytes \<times> bytes) option) \<Rightarrow> MirrorEntry list \<Rightarrow> bool" where
  "mirror_ok js ip items \<longleftrightarrow> items \<noteq> [] \<and> sorted (map me_Addr items) \<and> distinct (map me_Addr items)
     \<and> (\<forall>it \<in> set items. ValidAddr ip (me_Addr it) \<and> (\<exists>b. ParseBundle js (me_Bundle it) = Inr b))"

definition mirror_json_ok :: "mirrorJson \<Rightarrow> json \<Rightarrow> (bytes \<Rightarrow> (bytes \<times> bytes) option) \<Rightarrow> bool" where
  "mirror_json_ok mj js ip \<longleftrightarrow> (\<forall>items. mirror_ok js ip items \<longrightarrow> (\<exists>raw. fst mj items = Some raw \<and> snd mj raw = Some items))"

lemma ParseRoster_Inr:
  "ParseRoster js ip raw = Inr r \<Longrightarrow> raw = Roster_Marshal js r \<and> length raw \<le> MaxRoster \<and> ro_Nodes r \<noteq> [] \<and> wf_nodes ip (ro_Nodes r)"
  by (auto simp: ParseRoster_def rosterScan_iff Let_def split: if_splits option.splits sum.splits)

lemma ParseRoster_Marshal:
  assumes "roster_json_ok js ip" "wf_nodes ip (ro_Nodes r)" "ro_Nodes r \<noteq> []" "ParseAnchor (Anchor_String (ro_Anchor r)) = Inr (ro_Anchor r)"
    "length (Roster_Marshal js r) \<le> MaxRoster"
  shows "ParseRoster js ip (Roster_Marshal js r) = Inr r"
proof -
  have "rosterScan ip (ro_Nodes r) [] = Inr ()" using assms(2) by (simp add: rosterScan_iff)
  then show ?thesis using assms by (cases r) (simp add: ParseRoster_def roster_json_ok_def Roster_Marshal_def Let_def)
qed

section \<open>A mirror has one encoding\<close>

lemma checkItems_iff:
  "checkItems js ip prev items = Inr () \<longleftrightarrow>
     (\<forall>it \<in> set items. ValidAddr ip (me_Addr it) \<and> (\<exists>b. ParseBundle js (me_Bundle it) = Inr b))
     \<and> sorted_wrt (<) ((case prev of None \<Rightarrow> [] | Some a \<Rightarrow> [a]) @ map me_Addr items)"
proof (induction items arbitrary: prev)
  case (Cons it items)
  have lt: "(case prev of None \<Rightarrow> False | Some a \<Rightarrow> a > me_Addr it) \<or> prev = Some (me_Addr it) \<longleftrightarrow> \<not> (case prev of None \<Rightarrow> True | Some a \<Rightarrow> a < me_Addr it)"
    by (cases prev) auto
  have chain: "sorted_wrt (<) ((case prev of None \<Rightarrow> [] | Some a \<Rightarrow> [a]) @ map me_Addr (it # items)) \<longleftrightarrow>
      (case prev of None \<Rightarrow> True | Some a \<Rightarrow> a < me_Addr it) \<and> sorted_wrt (<) (me_Addr it # map me_Addr items)"
    by (cases prev) (auto dest: less_trans)
  show ?case using Cons.IH [of "Some (me_Addr it)"] lt unfolding chain by (auto split: sum.splits)
qed (simp split: option.splits)

lemma checkMirror_iff: "checkMirror js ip items = Inr () \<longleftrightarrow> mirror_ok js ip items"
  using strict_sorted_iff [of "map me_Addr items"] by (auto simp: checkMirror_def checkItems_iff mirror_ok_def)

lemma mirror_sort:
  assumes "distinct (map me_Addr es)" "mset es' = mset es"
  shows "sort_key me_Addr es' = sort_key me_Addr es"
proof (rule properties_for_sort_key)
  show "mset (sort_key me_Addr es) = mset es'" using assms(2) by simp
  show "sorted (map me_Addr (sort_key me_Addr es))" by simp
  fix k assume "k \<in> set (sort_key me_Addr es)"
  then have k: "k \<in> set es" by simp
  have one: "filter (\<lambda>x. me_Addr k = me_Addr x) xs = [k]" if "mset xs = mset es" for xs
  proof -
    have d: "distinct (map me_Addr xs)" using assms(1) that by (metis distinct_map mset_eq_imp_distinct_iff mset_eq_setD)
    have "k \<in> set xs" using k that mset_eq_setD by blast
    then show ?thesis using d
    proof (induction xs)
      case (Cons x xs)
      then show ?case by (cases "k = x") (force simp: filter_empty_conv image_iff)+
    qed simp
  qed
  show "filter (\<lambda>x. me_Addr k = me_Addr x) (sort_key me_Addr es) = filter (\<lambda>x. me_Addr k = me_Addr x) es'"
    using one [of "sort_key me_Addr es"] one [OF assms(2)] by simp
qed

lemma MarshalMirror_parses:
  assumes "mirror_json_ok mj js ip" "MarshalMirror mj js ip es = Inr raw"
  shows "ParseMirror mj js ip raw = Inr (sort_key me_Addr es)" "mirror_ok js ip (sort_key me_Addr es)"
proof -
  let ?s = "sort_key me_Addr es"
  show ok: "mirror_ok js ip ?s"
    using assms(2) by (auto simp: MarshalMirror_def Let_def simp flip: checkMirror_iff split: option.splits sum.splits)
  have "fst mj ?s = Some raw" using assms(2) by (auto simp: MarshalMirror_def Let_def split: option.splits sum.splits)
  then have "snd mj raw = Some ?s" "fst mj ?s = Some raw" using assms(1) ok by (auto simp: mirror_json_ok_def)
  then show "ParseMirror mj js ip raw = Inr ?s" using ok checkMirror_iff [of js ip ?s] by (simp add: ParseMirror_def)
qed

text \<open>
  a mirror has one encoding. Entries that name no address twice are written as the same bytes
  in whatever order they are given, and reading them gives them back, ordered by address; and
  whatever bytes are read as a mirror are exactly the bytes its entries are written as.
\<close>

theorem mirror_canonical:
  assumes "mirror_json_ok mj js ip"
  shows "(MarshalMirror mj js ip es = Inr raw \<and> mset es' = mset es \<longrightarrow>
      MarshalMirror mj js ip es' = Inr raw \<and> ParseMirror mj js ip raw = Inr (sort_key me_Addr es) \<and> distinct (map me_Addr es))
    \<and> (ParseMirror mj js ip raw = Inr es \<longrightarrow> MarshalMirror mj js ip es = Inr raw \<and> sorted (map me_Addr es) \<and> distinct (map me_Addr es))"
proof (intro conjI impI)
  assume "ParseMirror mj js ip raw = Inr es"
  then have p: "mirror_ok js ip es" "fst mj es = Some raw"
    by (auto simp: ParseMirror_def simp flip: checkMirror_iff split: option.splits sum.splits if_splits)
  then have s: "sort_key me_Addr es = es" by (simp add: mirror_ok_def sort_key_id_if_sorted)
  show "MarshalMirror mj js ip es = Inr raw"
    using p checkMirror_iff [of js ip es] by (simp add: MarshalMirror_def s)
  show "sorted (map me_Addr es)" "distinct (map me_Addr es)" using p(1) by (simp_all add: mirror_ok_def)
next
  assume m: "MarshalMirror mj js ip es = Inr raw \<and> mset es' = mset es"
  let ?s = "sort_key me_Addr es"
  note ok = MarshalMirror_parses [OF assms conjunct1 [OF m]]
  have "mset (map me_Addr ?s) = mset (map me_Addr es)" by simp
  then show d: "distinct (map me_Addr es)" using ok(2) by (metis mirror_ok_def mset_eq_imp_distinct_iff)
  have "sort_key me_Addr es' = ?s" using mirror_sort [OF d] m by blast
  then show "MarshalMirror mj js ip es' = Inr raw" using m by (simp add: MarshalMirror_def)
  show "ParseMirror mj js ip raw = Inr ?s" using ok(1) .
qed

section \<open>A mirror that is read back\<close>

text \<open>A stand-in for the JSON codec of mirrors: every byte behind a one, every field closed by a zero.\<close>

definition esc :: "bytes \<Rightarrow> bytes" where
  "esc f = concat (map (\<lambda>b. [1, b]) f) @ [0]"

fun unesc :: "bytes \<Rightarrow> bytes \<times> bytes" where
  "unesc (c # b # s) = (if c = 0 then ([], b # s) else (b # fst (unesc s), snd (unesc s)))"
| "unesc _ = ([], [])"

fun readFields :: "nat \<Rightarrow> bytes \<Rightarrow> bytes list" where
  "readFields (Suc n) (c # s) = (case unesc (c # s) of (f, s) \<Rightarrow> f # readFields n s)"
| "readFields _ _ = []"

fun pairUp :: "bytes list \<Rightarrow> MirrorEntry list" where
  "pairUp (a # b # fs) = \<lparr>me_Addr = a, me_Bundle = b\<rparr> # pairUp fs"
| "pairUp _ = []"

definition sampleMirrorJson :: mirrorJson where
  "sampleMirrorJson =
     (\<lambda>items. Some (concat (map (\<lambda>it. esc (me_Addr it) @ esc (me_Bundle it)) items)),
      \<lambda>raw. Some (pairUp (readFields (length raw) raw)))"

lemma unesc_esc: "unesc (esc f @ s) = (f, s)"
  by (induction f) (simp_all add: esc_def, cases s, simp_all)

lemma readFields_esc: "length fs \<le> n \<Longrightarrow> readFields n (concat (map esc fs)) = fs"
proof (induction fs arbitrary: n)
  case (Cons f fs)
  obtain m where "n = Suc m" using Cons.prems by (cases n) auto
  moreover obtain c s where "esc f @ concat (map esc fs) = c # s" by (cases f) (auto simp: esc_def)
  ultimately show ?case using Cons unesc_esc [of f "concat (map esc fs)"] by simp
qed (cases n; simp)

lemma esc_length: "length fs \<le> length (concat (map esc fs))"
  by (induction fs) (auto simp: esc_def)

lemma pairUp_flat: "pairUp (concat (map (\<lambda>it. [me_Addr it, me_Bundle it]) items)) = items"
  by (induction items) simp_all

lemma sampleMirrorJson_ok: "mirror_json_ok sampleMirrorJson js ip"
proof -
  have "concat (map (\<lambda>it. esc (me_Addr it) @ esc (me_Bundle it)) items) = concat (map esc (concat (map (\<lambda>it. [me_Addr it, me_Bundle it]) items)))"
    for items :: "MirrorEntry list" by (induction items) simp_all
  then show ?thesis
    unfolding mirror_json_ok_def sampleMirrorJson_def by (simp add: readFields_esc [OF esc_length] pairUp_flat)
qed

definition sampleEntry :: "string \<Rightarrow> MirrorEntry" where
  "sampleEntry addr = \<lparr>me_Addr = ascii addr, me_Bundle = sampleBundle\<rparr>"

lemma sampleMirror:
  "mirror_ok sampleJson (\<lambda>_. None) [sampleEntry ''relay-1:9001'', sampleEntry ''relay-2:9001'']"
  "sort_key me_Addr [sampleEntry ''relay-2:9001'', sampleEntry ''relay-1:9001''] = [sampleEntry ''relay-1:9001'', sampleEntry ''relay-2:9001'']"
proof -
  have lt: "ascii ''relay-1:9001'' < ascii ''relay-2:9001''" "ValidAddr (\<lambda>_. None) (ascii ''relay-2:9001'')"
    by (simp_all add: ValidAddr_def ascii_def AddrSize_def SplitHostPort_def lastIndexByte_def indexByte_def byte_of_def validHost_def
        validPort_def is_digit_def is_lower_def name_char_def validLabel_def numeric_def)
  then show "mirror_ok sampleJson (\<lambda>_. None) [sampleEntry ''relay-1:9001'', sampleEntry ''relay-2:9001'']"
    using sample_addr(1) sampleBundle_parses by (simp add: mirror_ok_def sampleEntry_def less_imp_neq)
  show "sort_key me_Addr [sampleEntry ''relay-2:9001'', sampleEntry ''relay-1:9001''] = [sampleEntry ''relay-1:9001'', sampleEntry ''relay-2:9001'']"
    using leD [of "ascii ''relay-2:9001''" "ascii ''relay-1:9001''"] lt(1) by (auto simp: sampleEntry_def)
qed

theorem mirror_canonical_witness:
  "\<exists>raw. MarshalMirror sampleMirrorJson sampleJson (\<lambda>_. None) [sampleEntry ''relay-2:9001'', sampleEntry ''relay-1:9001''] = Inr raw
     \<and> ParseMirror sampleMirrorJson sampleJson (\<lambda>_. None) raw = Inr [sampleEntry ''relay-1:9001'', sampleEntry ''relay-2:9001'']"
proof -
  let ?es = "[sampleEntry ''relay-2:9001'', sampleEntry ''relay-1:9001'']"
  obtain raw where raw: "MarshalMirror sampleMirrorJson sampleJson (\<lambda>_. None) ?es = Inr raw"
    using sampleMirror(1) unfolding MarshalMirror_def sampleMirror(2) by (simp add: checkMirror_iff [symmetric] sampleMirrorJson_def)
  from mirror_canonical [OF sampleMirrorJson_ok, of sampleJson "\<lambda>_. None" ?es raw ?es] raw
  show ?thesis unfolding sampleMirror(2) by blast
qed

end
