(* ===== verification/Fetch.thy ===== *)
theory Fetch
  imports Roster
begin

text \<open>
  \<^verbatim>\<open>internal/fetch/fetch.go\<close>: reading a bundle or a mirror from an info port. What \<^verbatim>\<open>net/http\<close> makes of a
  request is an argument: the answer to the attempt with a given number. \<^verbatim>\<open>URL\<close> and the settings of
  the HTTP client belong to \<^verbatim>\<open>net/url\<close> and \<^verbatim>\<open>net/http\<close> and are not modelled.
\<close>

definition MaxBundle :: nat where "MaxBundle = 16 * 1024"

definition MaxMirror :: nat where "MaxMirror = 256 * 1024"

text \<open>
  An answer: none at all, or a status with the bytes of the body that arrive and whether the body
  ends there or breaks off.
\<close>

datatype httpAnswer = NoAnswer error | Answer int bytes bool

datatype fetchError = StatusError int string | TooLarge | Failed error

definition get :: "nat \<Rightarrow> string \<Rightarrow> (bytes \<Rightarrow> 'a result) \<Rightarrow> httpAnswer \<Rightarrow> (fetchError + bytes \<times> 'a) \<times> bool" where
  "get most unpublished parse ans =
     (case ans of
        NoAnswer e \<Rightarrow> (Inl (Failed e), True)
      | Answer code body whole \<Rightarrow>
          if code = 503 then (Inl (StatusError code unpublished), True)
          else if code \<noteq> 200 then (Inl (StatusError code ''''), False)
          else if length body \<le> most \<and> \<not> whole then (Inl (Failed ErrEOF), True)
          else
            let body = take (most + 1) body in
            if length body > most then (Inl TooLarge, False)
            else case parse body of Inl e \<Rightarrow> (Inl (Failed e), False) | Inr x \<Rightarrow> (Inr (body, x), False))"

text \<open>The loop of \<^verbatim>\<open>retried\<close> from attempt \<open>i\<close>, \<open>k\<close> attempts to go; with none at all it returns neither a body nor an error.\<close>

fun retryLoop :: "(httpAnswer \<Rightarrow> (fetchError + 'a) \<times> bool) \<Rightarrow> (nat \<Rightarrow> httpAnswer) \<Rightarrow> nat \<Rightarrow> nat \<Rightarrow> fetchError option \<Rightarrow> fetchError + 'a option" where
  "retryLoop once net 0 i lastErr = (case lastErr of None \<Rightarrow> Inr None | Some e \<Rightarrow> Inl e)"
| "retryLoop once net (Suc k) i lastErr =
     (case once (net i) of
        (Inr x, _) \<Rightarrow> Inr (Some x)
      | (Inl e, retry) \<Rightarrow> if \<not> retry then Inl e else retryLoop once net k (i + 1) (Some e))"

definition retried :: "int \<Rightarrow> (nat \<Rightarrow> httpAnswer) \<Rightarrow> (httpAnswer \<Rightarrow> (fetchError + 'a) \<times> bool) \<Rightarrow> fetchError + 'a option" where
  "retried attempts net once = retryLoop once net (nat attempts) 0 None"

definition fetchBundle :: "json \<Rightarrow> (nat \<Rightarrow> httpAnswer) \<Rightarrow> int \<Rightarrow> fetchError + (bytes \<times> Bundle) option" where
  "fetchBundle js net attempts =
     retried attempts net (get MaxBundle ''no descriptor published, the node has no valid certificate'' (ParseBundle js))"

definition fetchMirror ::
  "mirrorJson \<Rightarrow> json \<Rightarrow> (bytes \<Rightarrow> (bytes \<times> bytes) option) \<Rightarrow> (nat \<Rightarrow> httpAnswer) \<Rightarrow> int \<Rightarrow> fetchError + (bytes \<times> MirrorEntry list) option" where
  "fetchMirror mj js ip net attempts =
     retried attempts net
       (get MaxMirror ''no descriptors published, the node has no descriptor of its own in service'' (ParseMirror mj js ip))"

section \<open>What is fetched\<close>

lemma get_Inr: "get most u parse ans = (Inr (body, x), r) \<Longrightarrow> ans = Answer 200 body True \<and> length body \<le> most \<and> parse body = Inr x"
  by (auto simp: get_def Let_def split: httpAnswer.splits if_splits sum.splits)

text \<open>Only a failed connection, a body that breaks off or a node with nothing to publish is asked again.\<close>

lemma get_retry: "get most u parse ans = (Inl e, True) \<Longrightarrow>
    (\<exists>er. ans = NoAnswer er) \<or> (\<exists>body whole. ans = Answer 503 body whole) \<or> (\<exists>body. ans = Answer 200 body False)"
  by (auto simp: get_def Let_def split: httpAnswer.splits if_splits sum.splits)

lemma retryLoop_Inr:
  "retryLoop once net k i lastErr = Inr (Some x) \<Longrightarrow>
     \<exists>j < k. fst (once (net (i + j))) = Inr x \<and> (\<forall>m < j. \<exists>e. once (net (i + m)) = (Inl e, True))"
proof (induction k arbitrary: i lastErr)
  case (Suc k)
  obtain r b where o: "once (net i) = (r, b)" by force
  show ?case
  proof (cases r)
    case (Inr y)
    then show ?thesis using Suc.prems o by (intro exI [of _ 0]) simp
  next
    case (Inl e)
    then have b: "b" "retryLoop once net k (i + 1) (Some e) = Inr (Some x)" using Suc.prems o by (auto split: if_splits)
    obtain j where j: "j < k" "fst (once (net (i + 1 + j))) = Inr x" "\<forall>m < j. \<exists>e. once (net (i + 1 + m)) = (Inl e, True)"
      using Suc.IH [OF b(2)] by blast
    have "\<exists>e. once (net (i + m)) = (Inl e, True)" if "m < Suc j" for m
      using that o Inl b(1) j(3) by (cases m) auto
    then show ?thesis using j(1,2) by (intro exI [of _ "Suc j"]) simp
  qed
qed (auto split: option.splits)

text \<open>
  What a client or a node takes from an info port is one whole answer of status 200, within the
  size limit and parsed as a bundle, given at the first attempt that does not call for another: every
  attempt before it met a failed connection, a broken body or a node with nothing to publish.
\<close>

lemma fetched_bundle_whole:
  assumes "fetchBundle js net attempts = Inr (Some (body, b))"
  shows "\<exists>j. int j < attempts \<and> net j = Answer 200 body True \<and> length body \<le> MaxBundle \<and> ParseBundle js body = Inr b
    \<and> (\<forall>m < j. (\<exists>e. net m = NoAnswer e) \<or> (\<exists>x whole. net m = Answer 503 x whole) \<or> (\<exists>x. net m = Answer 200 x False))"
proof -
  let ?once = "get MaxBundle ''no descriptor published, the node has no valid certificate'' (ParseBundle js)"
  obtain j where j: "j < nat attempts" "fst (?once (net j)) = Inr (body, b)" "\<forall>m < j. \<exists>e. ?once (net m) = (Inl e, True)"
    using assms retryLoop_Inr [of ?once net "nat attempts" 0 None "(body, b)"] by (auto simp: fetchBundle_def retried_def)
  obtain r where r: "?once (net j) = (Inr (body, b), r)" using j(2) by (metis prod.collapse)
  have before: "(\<exists>e. net m = NoAnswer e) \<or> (\<exists>x whole. net m = Answer 503 x whole) \<or> (\<exists>x. net m = Answer 200 x False)" if m: "m < j" for m
  proof -
    obtain e where "?once (net m) = (Inl e, True)" using j(3) m by blast
    then show ?thesis by (rule get_retry)
  qed
  have "int j < attempts" using j(1) by simp
  then show ?thesis using get_Inr [OF r] before by (intro exI [of _ j] conjI allI impI) simp_all
qed

lemma Encode_length: "length (EncodeToString b) \<le> 4 * length b"
  by (induction b rule: EncodeToString.induct) simp_all

lemma sampleBundle_size: "length sampleBundle \<le> MaxBundle"
proof -
  have "length (Cert_Marshal sampleCert) \<le> 500" "length (Descriptor_Marshal sampleDesc) \<le> 500"
    by (simp_all add: Cert_Marshal_def Cert_body_def w_field_def w_header_def sampleCert_def sampleUnsigned_def SerialSize_def IDSize_def
        Anchor_ID_def ascii_def Descriptor_Marshal_def Descriptor_body_def sampleDesc_def sampleDraft_def)
  moreover have "length sampleBundle = length (ascii (suite_String SuiteC25519)) + length (EncodeToString (Cert_Marshal sampleCert))
      + length (EncodeToString (Descriptor_Marshal sampleDesc)) + 2"
    by (simp add: sampleBundle_def Bundle_Marshal_def bundleEnvelope_def sampleJson_def ascii_def)
  moreover have "length (ascii (suite_String SuiteC25519)) \<le> 10" by (simp add: suite_String_def ascii_def SuiteC25519_def SuiteGOST_def)
  ultimately show ?thesis
    using Encode_length [of "Cert_Marshal sampleCert"] Encode_length [of "Descriptor_Marshal sampleDesc"] by (simp add: MaxBundle_def)
qed

end
