(* ===== verification/Peers.thy ===== *)
theory Peers
  imports Fetch
begin

text \<open>
  The peer cache of \<^verbatim>\<open>cmd/relay/peers.go\<close>: the bundles of the other nodes of a roster, fetched and
  checked by this node, and the mirror it serves of them. Times are Unix seconds where the source
  has them so, else nanoseconds. The clock and the bundle this node serves itself, which the source
  gets by a callback, are arguments of each operation; the function that reads a bundle is kept as
  the anchor it verifies under, none for the reading without authentication. Log lines are left out.
\<close>

record codecs =
  k_json :: json
  k_roster :: rosterJson
  k_mirror :: mirrorJson
  k_ip :: "bytes \<Rightarrow> (bytes \<times> bytes) option"

definition MaxInt64 :: int where "MaxInt64 = 2 ^ 63 - 1"

definition maxCheckEvery :: int where "maxCheckEvery = Minute"

definition peerRetry :: int where "peerRetry = 5 * Second"

section \<open>Failures\<close>

definition pkiFailures :: "error list" where
  "pkiFailures =
     [ErrFormat, ErrPkiVersion, ErrSuite, ErrUnknownCA, ErrCertSignature, ErrCertTime, ErrWrongAddr, ErrCertMismatch,
      ErrDescSignature, ErrDescTime, ErrKeySize, ErrDuplicateNode]"

datatype failClass = AnsweredStatus int | OverSize | PkiFailure error | OtherFailure string

definition failureClass :: "fetchError \<Rightarrow> string \<Rightarrow> failClass" where
  "failureClass err otherwise =
     (case err of
        StatusError code _ \<Rightarrow> AnsweredStatus code
      | TooLarge \<Rightarrow> OverSize
      | Failed e \<Rightarrow> (case find (errors_Is e) pkiFailures of Some k \<Rightarrow> PkiFailure k | None \<Rightarrow> OtherFailure otherwise))"

section \<open>The bundle a node serves\<close>

record served =
  sv_bundle :: bytes
  sv_notAfter :: int
  sv_published :: int
  sv_expires :: int

definition servedFrom :: "codecs \<Rightarrow> bytes \<Rightarrow> served result" where
  "servedFrom k b =
     (case ParseBundle (k_json k) b of
        Inl e \<Rightarrow> Inl e
      | Inr bundle \<Rightarrow>
          (case ParseCert (k_ip k) (b_Cert bundle) of
             Inl e \<Rightarrow> Inl e
           | Inr c \<Rightarrow>
               (case ParseDescriptor (b_Descriptor bundle) of
                  Inl e \<Rightarrow> Inl e
                | Inr d \<Rightarrow>
                    Inr \<lparr>sv_bundle = b, sv_notAfter = sint (c_NotAfter c), sv_published = sint (d_Published d), sv_expires = sint (d_Expires d)\<rparr>)))"

section \<open>The cache\<close>

record peerEntry =
  pe_bundle :: bytes
  pe_linkPub :: bytes
  pe_due :: int
  pe_expires :: int

record mirror =
  mi_body :: bytes
  mi_until :: int

record peerCache =
  pc_self :: bytes
  pc_addrs :: "bytes list"
  pc_anchor :: "Anchor option"
  pc_retry :: int
  pc_entries :: "bytes \<rightharpoonup> peerEntry"
  pc_failed :: "bytes \<rightharpoonup> failClass"
  pc_mirror :: "mirror option"

definition newPeerCache :: "bytes \<Rightarrow> int \<Rightarrow> bytes list \<Rightarrow> Anchor option \<Rightarrow> peerCache" where
  "newPeerCache self retry addrs anchor =
     \<lparr>pc_self = self, pc_addrs = addrs, pc_anchor = anchor, pc_retry = if retry \<le> 0 then peerRetry else retry,
      pc_entries = Map.empty, pc_failed = Map.empty, pc_mirror = None\<rparr>"

text \<open>\<^verbatim>\<open>x / 2\<close> on \<^verbatim>\<open>int64\<close>: the difference of the two times may wrap, the quotient is cut towards zero.\<close>

definition halfway :: "int \<Rightarrow> int \<Rightarrow> int" where
  "halfway published expires =
     (let diff = sint (word_of_int (expires - published) :: u64) in
      sint (word_of_int (published + (if diff < 0 then - ((- diff) div 2) else diff div 2)) :: u64))"

definition verifiedPeer :: "codecs \<Rightarrow> provider \<Rightarrow> Anchor \<Rightarrow> bytes \<Rightarrow> bytes \<Rightarrow> int \<Rightarrow> peerEntry io" where
  "verifiedPeer k p anchor addr bundle now w =
     (case Verify (k_json k) (k_ip k) p \<lparr>po_Anchor = anchor, po_Skew = Skew, po_MaxLife = 0\<rparr> addr bundle now w of
        (Inl e, w) \<Rightarrow> (Inl e, w)
      | (Inr v, w) \<Rightarrow>
          (case servedFrom k bundle of
             Inl e \<Rightarrow> (Inl e, w)
           | Inr s \<Rightarrow>
               (Inr \<lparr>pe_bundle = bundle, pe_linkPub = v_LinkPub v, pe_due = halfway (sv_published s) (sv_expires s), pe_expires = sv_expires s\<rparr>, w)))"

definition unverifiedPeer :: "codecs \<Rightarrow> provider \<Rightarrow> bytes \<Rightarrow> bytes \<Rightarrow> int \<Rightarrow> peerEntry io" where
  "unverifiedPeer k p addr bundle now w =
     (case Unverified (k_json k) p [addr] [bundle] w of
        (Inl e, w) \<Rightarrow> (Inl e, w)
      | (Inr nodes, w) \<Rightarrow>
          (case nodes of
             [] \<Rightarrow> (Inl Panic, w)
           | v # _ \<Rightarrow>
               (Inr \<lparr>pe_bundle = bundle, pe_linkPub = v_LinkPub v, pe_due = unix (now + maxCheckEvery), pe_expires = MaxInt64\<rparr>, w)))"

definition readPeer :: "codecs \<Rightarrow> provider \<Rightarrow> peerCache \<Rightarrow> bytes \<Rightarrow> bytes \<Rightarrow> int \<Rightarrow> peerEntry io" where
  "readPeer k p c addr bundle now =
     (case pc_anchor c of Some a \<Rightarrow> verifiedPeer k p a addr bundle now | None \<Rightarrow> unverifiedPeer k p addr bundle now)"

text \<open>One turn of the loop of \<^verbatim>\<open>refresh\<close>; \<open>net\<close> is what the peer's info port would answer.\<close>

definition askPeer :: "codecs \<Rightarrow> provider \<Rightarrow> int \<Rightarrow> (nat \<Rightarrow> httpAnswer) \<Rightarrow> bytes \<Rightarrow> peerCache \<Rightarrow> world \<Rightarrow> peerCache \<times> world" where
  "askPeer k p now net addr c w =
     (case fetchBundle (k_json k) net 1 of
        Inl err \<Rightarrow> (c\<lparr>pc_failed := (pc_failed c)(addr \<mapsto> failureClass err ''no answer'')\<rparr>, w)
      | Inr b \<Rightarrow>
          (case readPeer k p c addr (case b of None \<Rightarrow> [] | Some (body, _) \<Rightarrow> body) now w of
             (Inl err, w) \<Rightarrow> (c\<lparr>pc_failed := (pc_failed c)(addr \<mapsto> failureClass (Failed err) ''not verified'')\<rparr>, w)
           | (Inr fresh, w) \<Rightarrow> (c\<lparr>pc_failed := (pc_failed c)(addr := None), pc_entries := (pc_entries c)(addr \<mapsto> fresh)\<rparr>, w)))"

definition refreshPeer :: "codecs \<Rightarrow> provider \<Rightarrow> int \<Rightarrow> (nat \<Rightarrow> httpAnswer) \<Rightarrow> bytes \<Rightarrow> peerCache \<Rightarrow> world \<Rightarrow> peerCache \<times> world" where
  "refreshPeer k p now net addr c w =
     (if (case pc_entries c addr of None \<Rightarrow> False | Some e \<Rightarrow> unix now < pe_due e) then (c, w) else askPeer k p now net addr c w)"

text \<open>The clock is read anew for every peer, so it is a function of the turn; so is the network.\<close>

fun refreshLoop ::
  "codecs \<Rightarrow> provider \<Rightarrow> (nat \<Rightarrow> int) \<Rightarrow> (nat \<Rightarrow> nat \<Rightarrow> httpAnswer) \<Rightarrow> nat \<Rightarrow> bytes list \<Rightarrow> peerCache \<Rightarrow> world \<Rightarrow> peerCache \<times> world" where
  "refreshLoop k p clock net i [] c w = (c, w)"
| "refreshLoop k p clock net i (addr # addrs) c w =
     (case refreshPeer k p (clock i) (net i) addr c w of (c, w) \<Rightarrow> refreshLoop k p clock net (i + 1) addrs c w)"

definition heldEntry :: "int \<Rightarrow> peerCache \<Rightarrow> bytes \<Rightarrow> peerEntry option" where
  "heldEntry now c addr =
     (case pc_entries c addr of None \<Rightarrow> None | Some e \<Rightarrow> if unix now \<ge> pe_expires e then None else Some e)"

text \<open>The entries of the mirror besides the node's own, and the first moment one of them runs out.\<close>

fun peerEntries :: "int \<Rightarrow> peerCache \<Rightarrow> bytes list \<Rightarrow> int \<Rightarrow> MirrorEntry list \<times> int" where
  "peerEntries now c [] until = ([], until)"
| "peerEntries now c (addr # addrs) until =
     (case heldEntry now c addr of
        None \<Rightarrow> peerEntries now c addrs until
      | Some e \<Rightarrow>
          (case peerEntries now c addrs (min until (pe_expires e)) of
             (es, until) \<Rightarrow> (\<lparr>me_Addr = addr, me_Bundle = pe_bundle e\<rparr> # es, until)))"

definition publish :: "codecs \<Rightarrow> int \<Rightarrow> (bytes \<times> int) option \<Rightarrow> peerCache \<Rightarrow> peerCache" where
  "publish k now own c =
     (case own of
        None \<Rightarrow> c\<lparr>pc_mirror := None\<rparr>
      | Some (b, until) \<Rightarrow>
          (case peerEntries now c (pc_addrs c) until of
             (es, until) \<Rightarrow>
               (case MarshalMirror (k_mirror k) (k_json k) (k_ip k) (\<lparr>me_Addr = pc_self c, me_Bundle = b\<rparr> # es) of
                  Inl _ \<Rightarrow> c\<lparr>pc_mirror := None\<rparr>
                | Inr body \<Rightarrow> c\<lparr>pc_mirror := Some \<lparr>mi_body = body, mi_until = until\<rparr>\<rparr>)))"

text \<open>\<^verbatim>\<open>held\<close> counts the map's entries; they are entered under the addresses of the roster only.\<close>

definition held :: "int \<Rightarrow> peerCache \<Rightarrow> nat" where
  "held now c = length (filter (\<lambda>addr. heldEntry now c addr \<noteq> None) (remdups (pc_addrs c)))"

definition refresh ::
  "codecs \<Rightarrow> provider \<Rightarrow> (nat \<Rightarrow> int) \<Rightarrow> (nat \<Rightarrow> nat \<Rightarrow> httpAnswer) \<Rightarrow> (bytes \<times> int) option \<Rightarrow> peerCache \<Rightarrow> world \<Rightarrow> bool \<times> peerCache \<times> world" where
  "refresh k p clock net own c w =
     (case refreshLoop k p clock net 0 (pc_addrs c) c w of
        (c, w) \<Rightarrow>
          let now = clock (length (pc_addrs c)); c = publish k now own c in
          (held now c = length (pc_addrs c), c, w))"

text \<open>The loop of \<^verbatim>\<open>wait\<close>; the result is in nanoseconds.\<close>

fun waitLoop :: "int \<Rightarrow> peerCache \<Rightarrow> bytes list \<Rightarrow> int \<Rightarrow> int option" where
  "waitLoop now c [] wait = Some wait"
| "waitLoop now c (addr # addrs) wait =
     (case pc_entries c addr of
        None \<Rightarrow> None
      | Some e \<Rightarrow>
          if now \<ge> pe_expires e \<or> pe_due e \<le> now then None
          else waitLoop now c addrs (if pe_due e - now < wait div Second then (pe_due e - now) * Second else wait))"

definition peer_wait :: "int \<Rightarrow> peerCache \<Rightarrow> int" where
  "peer_wait now c =
     (case waitLoop (unix now) c (pc_addrs c) maxCheckEvery of None \<Rightarrow> pc_retry c | Some wait \<Rightarrow> max wait (pc_retry c))"

definition peer_linkKey :: "int \<Rightarrow> peerCache \<Rightarrow> bytes \<Rightarrow> bytes option" where
  "peer_linkKey now c addr = map_option pe_linkPub (heldEntry now c addr)"

definition descriptors :: "codecs \<Rightarrow> int \<Rightarrow> (bytes \<times> int) option \<Rightarrow> peerCache \<Rightarrow> bytes option \<times> peerCache" where
  "descriptors k now own c =
     (let c = (case pc_mirror c of None \<Rightarrow> c | Some m \<Rightarrow> if unix now \<ge> mi_until m then publish k now own c else c) in
      (case pc_mirror c of None \<Rightarrow> None | Some m \<Rightarrow> if unix now \<ge> mi_until m then None else Some (mi_body m), c))"

section \<open>What the cache holds was verified\<close>

text \<open>The entries of a cache that verifies, and the mirror made of them.\<close>

definition entry_ok :: "codecs \<Rightarrow> provider \<Rightarrow> Anchor \<Rightarrow> bytes \<Rightarrow> peerEntry \<Rightarrow> bool" where
  "entry_ok k p a addr e \<longleftrightarrow>
     (\<exists>now w v w'. Verify (k_json k) (k_ip k) p \<lparr>po_Anchor = a, po_Skew = Skew, po_MaxLife = 0\<rparr> addr (pe_bundle e) now w = (Inr v, w')
        \<and> pe_linkPub e = v_LinkPub v \<and> pe_expires e * Second = v_DescUntil v)"

definition cache_ok :: "codecs \<Rightarrow> provider \<Rightarrow> Anchor \<Rightarrow> peerCache \<Rightarrow> bool" where
  "cache_ok k p a c \<longleftrightarrow> pc_anchor c = Some a
     \<and> (\<forall>addr e. pc_entries c addr = Some e \<longrightarrow> addr \<in> set (pc_addrs c) \<and> entry_ok k p a addr e)"

lemma servedFrom_verified:
  assumes "Verify (k_json k) (k_ip k) p pol addr bundle now w = (Inr v, w')"
  shows "\<exists>s. servedFrom k bundle = Inr s \<and> sv_bundle s = bundle \<and> sv_expires s * Second = v_DescUntil v \<and> sv_notAfter s * Second = v_CertUntil v"
proof -
  obtain c d where r: "ParseBundle (k_json k) bundle = Inr \<lparr>b_V = 1, b_Suite = suite_String (pSuite p), b_Cert = Cert_Marshal c,
      b_Descriptor = Descriptor_Marshal d\<rparr>" "wf_cert (k_ip k) c" "wf_descriptor d" "v = verified_of c d"
    using assms by (auto simp: Verify_Inr)
  have "ParseCert (k_ip k) (Cert_Marshal c) = Inr c" "ParseDescriptor (Descriptor_Marshal d) = Inr d"
    using r(2,3) by (simp_all add: cert.parse_iff descriptor.parse_iff)
  then show ?thesis using r(1,4) by (simp add: servedFrom_def verified_of_def)
qed

lemma verifiedPeer_ok: "verifiedPeer k p a addr bundle now w = (Inr e, w') \<Longrightarrow> entry_ok k p a addr e"
  using servedFrom_verified [of k p "\<lparr>po_Anchor = a, po_Skew = Skew, po_MaxLife = 0\<rparr>" addr "bundle" now w]
  unfolding verifiedPeer_def entry_ok_def
  by (auto split: prod.splits sum.splits intro!: exI [of _ now] exI [of _ w])

lemma refreshPeer_ok:
  assumes "cache_ok k p a c" "addr \<in> set (pc_addrs c)" "refreshPeer k p now net addr c w = (c', w')"
  shows "cache_ok k p a c' \<and> pc_addrs c' = pc_addrs c \<and> pc_self c' = pc_self c \<and> pc_retry c' = pc_retry c"
  using assms verifiedPeer_ok
  by (auto simp: refreshPeer_def askPeer_def readPeer_def cache_ok_def split: if_splits sum.splits prod.splits option.splits)

lemma refreshLoop_ok:
  assumes "cache_ok k p a c" "set addrs \<subseteq> set (pc_addrs c)" "refreshLoop k p clock net i addrs c w = (c', w')"
  shows "cache_ok k p a c' \<and> pc_addrs c' = pc_addrs c \<and> pc_self c' = pc_self c \<and> pc_retry c' = pc_retry c"
  using assms
proof (induction addrs arbitrary: c w i)
  case (Cons addr addrs)
  obtain c1 w1 where c1: "refreshPeer k p (clock i) (net i) addr c w = (c1, w1)" by force
  have "addr \<in> set (pc_addrs c)" using Cons.prems(2) by simp
  note step = refreshPeer_ok [OF Cons.prems(1) this c1]
  have "set addrs \<subseteq> set (pc_addrs c1)" "refreshLoop k p clock net (i + 1) addrs c1 w1 = (c', w')" using Cons.prems(2,3) step c1 by simp_all
  with Cons.IH [OF conjunct1 [OF step]] step show ?case by simp
qed auto

lemma publish_keeps:
  "pc_entries (publish k now own c) = pc_entries c" "pc_addrs (publish k now own c) = pc_addrs c" "pc_anchor (publish k now own c) = pc_anchor c"
  "pc_self (publish k now own c) = pc_self c" "pc_retry (publish k now own c) = pc_retry c"
  by (simp_all add: publish_def split: option.splits prod.splits sum.splits)

section \<open>What the mirror carries\<close>

lemma peerEntries_held:
  "peerEntries now c addrs until = (es, u) \<Longrightarrow> u \<le> until \<and>
     (\<forall>x \<in> set es. me_Addr x \<in> set addrs \<and> (\<exists>e. heldEntry now c (me_Addr x) = Some e \<and> me_Bundle x = pe_bundle e \<and> u \<le> pe_expires e))"
proof (induction addrs arbitrary: until es)
  case (Cons addr addrs)
  show ?case
  proof (cases "heldEntry now c addr")
    case None
    then show ?thesis using Cons by fastforce
  next
    case (Some e)
    then obtain es' where es: "peerEntries now c addrs (min until (pe_expires e)) = (es', u)" "es = \<lparr>me_Addr = addr, me_Bundle = pe_bundle e\<rparr> # es'"
      using Cons.prems by (auto split: prod.splits)
    show ?thesis using Cons.IH [OF es(1)] Some unfolding es(2) by auto
  qed
qed auto

text \<open>Every peer that is held is in the mirror, whatever the others withhold.\<close>

lemma peerEntries_all:
  "peerEntries now c addrs until = (es, u) \<Longrightarrow> addr \<in> set addrs \<Longrightarrow> heldEntry now c addr = Some e \<Longrightarrow>
     \<lparr>me_Addr = addr, me_Bundle = pe_bundle e\<rparr> \<in> set es"
  by (induction addrs arbitrary: until es) (auto split: option.splits prod.splits)

definition mirror_made :: "codecs \<Rightarrow> provider \<Rightarrow> Anchor \<Rightarrow> peerCache \<Rightarrow> mirror \<Rightarrow> bool" where
  "mirror_made k p a c m \<longleftrightarrow>
     (\<exists>b es. MarshalMirror (k_mirror k) (k_json k) (k_ip k) (\<lparr>me_Addr = pc_self c, me_Bundle = b\<rparr> # es) = Inr (mi_body m)
        \<and> (\<forall>x \<in> set es. me_Addr x \<in> set (pc_addrs c) \<and> (\<exists>e. entry_ok k p a (me_Addr x) e \<and> me_Bundle x = pe_bundle e \<and> mi_until m \<le> pe_expires e)))"

definition peers_ok :: "codecs \<Rightarrow> provider \<Rightarrow> Anchor \<Rightarrow> peerCache \<Rightarrow> bool" where
  "peers_ok k p a c \<longleftrightarrow> cache_ok k p a c \<and> (\<forall>m. pc_mirror c = Some m \<longrightarrow> mirror_made k p a c m)"

lemma publish_ok:
  assumes "cache_ok k p a c"
  shows "peers_ok k p a (publish k now own c)"
proof -
  let ?c = "publish k now own c"
  have "mirror_made k p a ?c m" if m: "pc_mirror ?c = Some m" for m
  proof -
    obtain b until es u where own: "own = Some (b, until)" "peerEntries now c (pc_addrs c) until = (es, u)"
      "MarshalMirror (k_mirror k) (k_json k) (k_ip k) (\<lparr>me_Addr = pc_self c, me_Bundle = b\<rparr> # es) = Inr (mi_body m)" "u = mi_until m"
      using m by (auto simp: publish_def split: option.splits prod.splits sum.splits)
    have "entry_ok k p a addr e" if "heldEntry now c addr = Some e" for addr e
      using that assms by (auto simp: heldEntry_def cache_ok_def split: option.splits if_splits)
    then show ?thesis unfolding mirror_made_def publish_keeps using own(3) peerEntries_held [OF own(2)] own(4) by blast
  qed
  then show ?thesis using assms unfolding peers_ok_def cache_ok_def publish_keeps by blast
qed

text \<open>The calls on a cache: the timer that refreshes it, a signing of this node and a request for the descriptors.\<close>

inductive peer_run :: "codecs \<Rightarrow> provider \<Rightarrow> bytes \<Rightarrow> int \<Rightarrow> bytes list \<Rightarrow> Anchor \<Rightarrow> peerCache \<Rightarrow> bool" for k p self retry addrs a where
  new: "peer_run k p self retry addrs a (newPeerCache self retry addrs (Some a))"
| ask: "peer_run k p self retry addrs a c \<Longrightarrow> addr \<in> set (pc_addrs c) \<Longrightarrow> peer_run k p self retry addrs a (fst (refreshPeer k p now net addr c w))"
| publish: "peer_run k p self retry addrs a c \<Longrightarrow> peer_run k p self retry addrs a (publish k now own c)"
| serve: "peer_run k p self retry addrs a c \<Longrightarrow> peer_run k p self retry addrs a (snd (descriptors k now own c))"

lemma descriptors_ok:
  assumes "peers_ok k p a c"
  shows "peers_ok k p a (snd (descriptors k now own c))" "pc_addrs (snd (descriptors k now own c)) = pc_addrs c" "pc_self (snd (descriptors k now own c)) = pc_self c"
  using assms publish_ok [of k p a c now own] publish_keeps(2,4) [of k now own c]
  by (auto simp: descriptors_def Let_def peers_ok_def split: option.splits)

lemma refreshPeer_mirror: "pc_mirror (fst (refreshPeer k p now net addr c w)) = pc_mirror c"
  by (auto simp: refreshPeer_def askPeer_def split: sum.splits prod.splits)

lemma peer_run_ok: "peer_run k p self retry addrs a c \<Longrightarrow> peers_ok k p a c \<and> pc_addrs c = addrs \<and> pc_self c = self"
proof (induction rule: peer_run.induct)
  case new
  show ?case by (simp add: peers_ok_def cache_ok_def newPeerCache_def)
next
  case (ask c addr now net w)
  obtain c' w' where c': "refreshPeer k p now net addr c w = (c', w')" by force
  then have "pc_mirror c' = pc_mirror c" using refreshPeer_mirror [of k p now net addr c w] by simp
  moreover have "cache_ok k p a c" using ask.IH by (simp add: peers_ok_def)
  ultimately show ?case using refreshPeer_ok [OF _ ask.hyps(2) c'] ask.IH unfolding c' fst_conv peers_ok_def mirror_made_def by metis
next
  case (publish c now own)
  then show ?case using publish_ok publish_keeps by (auto simp: peers_ok_def)
next
  case (serve c now own)
  then show ?case using descriptors_ok by metis
qed

lemma refreshLoop_run:
  "peer_run k p self retry addrs a c \<Longrightarrow> set as \<subseteq> set (pc_addrs c) \<Longrightarrow> peer_run k p self retry addrs a (fst (refreshLoop k p clock net i as c w))"
proof (induction "as" arbitrary: c w i)
  case (Cons addr "as")
  have run: "peer_run k p self retry addrs a (fst (refreshPeer k p (clock i) (net i) addr c w))" using Cons.prems by (intro peer_run.ask) simp_all
  then have "pc_addrs (fst (refreshPeer k p (clock i) (net i) addr c w)) = pc_addrs c" using peer_run_ok Cons.prems(1) by metis
  then have "peer_run k p self retry addrs a (fst (refreshLoop k p clock net (Suc i) as (fst (refreshPeer k p (clock i) (net i) addr c w))
      (snd (refreshPeer k p (clock i) (net i) addr c w))))" using Cons.IH [OF run] Cons.prems(2) by simp
  then show ?case by (cases "refreshPeer k p (clock i) (net i) addr c w") simp
qed simp

text \<open>A whole refresh, as the timer runs it, is such a run.\<close>

lemma refresh_run:
  "peer_run k p self retry addrs a c \<Longrightarrow> peer_run k p self retry addrs a (fst (snd (refresh k p clock net own c w)))"
  using refreshLoop_run [of k p self retry addrs a c "pc_addrs c" clock net 0 w]
  by (auto simp: refresh_def Let_def intro: peer_run.publish split: prod.splits)

lemma linkKey_verified:
  assumes "peer_run k p self retry addrs a c" "peer_linkKey now c addr = Some key"
  shows "addr \<in> set addrs \<and> (\<exists>bundle t w v w'. Verify (k_json k) (k_ip k) p \<lparr>po_Anchor = a, po_Skew = Skew, po_MaxLife = 0\<rparr> addr bundle t w = (Inr v, w')
    \<and> key = v_LinkPub v \<and> now < v_DescUntil v)"
proof -
  obtain e where e: "pc_entries c addr = Some e" "unix now < pe_expires e" "key = pe_linkPub e"
    using assms(2) by (auto simp: peer_linkKey_def heldEntry_def split: option.splits if_splits)
  have ok: "addr \<in> set addrs" "entry_ok k p a addr e"
    using peer_run_ok [OF assms(1)] e(1) by (auto simp: peers_ok_def cache_ok_def)
  then show ?thesis using e(3) unix_less [OF e(2)] unfolding entry_ok_def by metis
qed

text \<open>
  C25: a node extends only to peers it verified. Over every run of the cache, and whatever the peers
  and the network answer, a link key that is handed out for an address belongs to the roster, and
  comes from a bundle that verified for that address under the roster's anchor and has not run out.
\<close>

theorem peer_keys_verified:
  assumes "peer_run k p self retry addrs a c" "peer_linkKey now c addr = Some key"
  shows "addr \<in> set addrs \<and> (\<exists>bundle t w v w'. Verify (k_json k) (k_ip k) p \<lparr>po_Anchor = a, po_Skew = Skew, po_MaxLife = 0\<rparr> addr bundle t w = (Inr v, w')
    \<and> key = v_LinkPub v \<and> now < v_DescUntil v)"
  by (rule linkKey_verified [OF assms])


section \<open>A cache that holds a peer\<close>

definition sampleCodecs :: codecs where
  "sampleCodecs = \<lparr>k_json = sampleJson, k_roster = (\<lambda>_. [], \<lambda>_. None), k_mirror = sampleMirrorJson, k_ip = \<lambda>_. None\<rparr>"

definition sampleCache :: peerCache where
  "sampleCache = fst (refreshPeer sampleCodecs sampleSuite (20 * Second) (\<lambda>_. Answer 200 sampleBundle True) (ascii ''relay-1:9001'')
     (newPeerCache (ascii ''relay-2:9001'') 0 [ascii ''relay-1:9001''] (Some sampleAnchor)) sampleReader)"

lemma sampleCache_run: "peer_run sampleCodecs sampleSuite (ascii ''relay-2:9001'') 0 [ascii ''relay-1:9001''] sampleAnchor sampleCache"
  unfolding sampleCache_def by (intro peer_run.ask peer_run.new) (simp add: newPeerCache_def)

lemma halfway_sample: "halfway 10 500 = 255"
  by (simp add: halfway_def)

lemma sampleServed: "servedFrom sampleCodecs sampleBundle = Inr \<lparr>sv_bundle = sampleBundle, sv_notAfter = 1000, sv_published = 10, sv_expires = 500\<rparr>"
proof -
  have "ParseCert (\<lambda>_. None) (Cert_Marshal sampleCert) = Inr sampleCert" "ParseDescriptor (Descriptor_Marshal sampleDesc) = Inr sampleDesc"
    using sampleCert_wf sampleDesc_wf by (simp_all add: cert.parse_iff descriptor.parse_iff)
  then show ?thesis
    by (simp add: servedFrom_def sampleCodecs_def sampleBundle_parses) (simp add: sampleCert_def sampleUnsigned_def sampleDesc_def sampleDraft_def)
qed

lemma sampleFetched: "\<exists>b. fetchBundle sampleJson (\<lambda>_. Answer 200 sampleBundle True) 1 = Inr (Some (sampleBundle, b))"
  using sampleBundle_size sampleBundle_parses by (simp add: fetchBundle_def retried_def get_def Let_def numeral_eq_Suc)

lemma sampleCache_entry:
  "pc_entries sampleCache (ascii ''relay-1:9001'') = Some \<lparr>pe_bundle = sampleBundle, pe_linkPub = replicate 32 3, pe_due = 255, pe_expires = 500\<rparr>"
  "pc_addrs sampleCache = [ascii ''relay-1:9001'']" "pc_self sampleCache = ascii ''relay-2:9001''" "pc_mirror sampleCache = None"
proof -
  obtain b where b: "fetchBundle sampleJson (\<lambda>_. Answer 200 sampleBundle True) 1 = Inr (Some (sampleBundle, b))" using sampleFetched by blast
  have k: "k_json sampleCodecs = sampleJson" "k_ip sampleCodecs = (\<lambda>_. None)" by (simp_all add: sampleCodecs_def)
  have "verifiedPeer sampleCodecs sampleSuite sampleAnchor (ascii ''relay-1:9001'') sampleBundle (20 * Second) sampleReader
      = (Inr \<lparr>pe_bundle = sampleBundle, pe_linkPub = replicate 32 3, pe_due = 255, pe_expires = 500\<rparr>, sampleReader)"
    using sampleBundle_verifies [unfolded samplePolicy_def]
    by (simp add: verifiedPeer_def k sampleServed halfway_sample verified_of_def sampleDesc_def sampleDraft_def)
  then show "pc_entries sampleCache (ascii ''relay-1:9001'') = Some \<lparr>pe_bundle = sampleBundle, pe_linkPub = replicate 32 3, pe_due = 255, pe_expires = 500\<rparr>"
    "pc_addrs sampleCache = [ascii ''relay-1:9001'']" "pc_self sampleCache = ascii ''relay-2:9001''" "pc_mirror sampleCache = None"
    by (simp_all add: sampleCache_def refreshPeer_def newPeerCache_def askPeer_def readPeer_def k b)
qed

theorem peer_keys_verified_witness:
  "peer_linkKey (100 * Second) sampleCache (ascii ''relay-1:9001'') = Some (replicate 32 3)
   \<and> (\<exists>bundle t w v w'. Verify sampleJson (\<lambda>_. None) sampleSuite \<lparr>po_Anchor = sampleAnchor, po_Skew = Skew, po_MaxLife = 0\<rparr> (ascii ''relay-1:9001'') bundle t w = (Inr v, w')
        \<and> replicate 32 3 = v_LinkPub v \<and> 100 * Second < v_DescUntil v)"
proof -
  have l: "peer_linkKey (100 * Second) sampleCache (ascii ''relay-1:9001'') = Some (replicate 32 3)"
    by (simp add: peer_linkKey_def heldEntry_def sampleCache_entry unix_def Second_def Millisecond_def)
  have k: "k_json sampleCodecs = sampleJson" "k_ip sampleCodecs = (\<lambda>_. None)" by (simp_all add: sampleCodecs_def)
  show ?thesis using l conjunct2 [OF peer_keys_verified [OF sampleCache_run l], unfolded k] by (intro conjI)
qed

lemma sampleMirror_served:
  "\<exists>body c'. descriptors sampleCodecs (100 * Second) None (publish sampleCodecs (20 * Second) (Some (sampleBundle, 1000)) sampleCache) = (Some body, c')"
proof -
  have k: "k_json sampleCodecs = sampleJson" "k_ip sampleCodecs = (\<lambda>_. None)" "k_mirror sampleCodecs = sampleMirrorJson" by (simp_all add: sampleCodecs_def)
  let ?es = "[sampleEntry ''relay-2:9001'', sampleEntry ''relay-1:9001'']"
  obtain raw where raw: "MarshalMirror sampleMirrorJson sampleJson (\<lambda>_. None) ?es = Inr raw"
    using sampleMirror(1) unfolding MarshalMirror_def sampleMirror(2) by (simp add: checkMirror_iff [symmetric] sampleMirrorJson_def)
  have "peerEntries (20 * Second) sampleCache [ascii ''relay-1:9001''] 1000 = ([sampleEntry ''relay-1:9001''], 500)"
    by (simp add: heldEntry_def sampleCache_entry unix_def Second_def Millisecond_def sampleEntry_def)
  then have "pc_mirror (publish sampleCodecs (20 * Second) (Some (sampleBundle, 1000)) sampleCache) = Some \<lparr>mi_body = raw, mi_until = 500\<rparr>"
    using raw by (simp add: publish_def sampleCache_entry k sampleEntry_def)
  then show ?thesis by (simp add: descriptors_def Let_def unix_def Second_def Millisecond_def)
qed


end
