(* ===== verification/Node.thy ===== *)
theory Node
  imports Peers Ring
begin

text \<open>
  \<^verbatim>\<open>cmd/relay/admin.go\<close>, \<^verbatim>\<open>cmd/relay/onion.go\<close> and the roster of \<^verbatim>\<open>cmd/relay/peers.go\<close>: what a node
  publishes about itself, the one certificate and the one roster it takes, the signing of its
  descriptor and the rotation of its onion key. The node's mutex makes every handler and every timer
  one step, which reads the clock once; the routes of enrollment exist only where there is an identity. A reading of the clock has the wall time and the running
  time, in nanoseconds; \<^verbatim>\<open>time.Time.Sub\<close> and \<^verbatim>\<open>Before\<close> go by the running time and \<^verbatim>\<open>Unix\<close> by the wall
  time. A handler gives a status and a body; log lines and the texts of refusals are left out, and
  whether a new key's memory was locked is an argument.
\<close>

section \<open>Times\<close>

record Time =
  tm_wall :: int
  tm_run :: int

definition Time_Add :: "int \<Rightarrow> Time \<Rightarrow> Time" where
  "Time_Add d t = \<lparr>tm_wall = tm_wall t + d, tm_run = tm_run t + d\<rparr>"

definition Time_Sub :: "Time \<Rightarrow> Time \<Rightarrow> int" where
  "Time_Sub t u = tm_run t - tm_run u"

definition Unix :: "Time \<Rightarrow> int" where
  "Unix t = unix (tm_wall t)"

text \<open>A \<^verbatim>\<open>deadline\<close> is the two readings of the moment; one that is not pending is \<open>None\<close>.\<close>

definition after :: "Time \<Rightarrow> int \<Rightarrow> Time" where
  "after now d = Time_Add d now"

definition deadline_passed :: "Time \<Rightarrow> Time \<Rightarrow> bool" where
  "deadline_passed d now \<longleftrightarrow> tm_wall now \<ge> tm_wall d \<or> tm_run now \<ge> tm_run d"

section \<open>The state of a node\<close>

record onionKeys =
  on_ring :: OnionRing
  on_every :: int
  on_grace :: int
  on_lock :: bool
  on_rotateAt :: Time
  on_retireAt :: "Time option"
  on_reserve :: bool
  on_closed :: bool
  on_failed :: "error option"
  on_failures :: nat

datatype certState = certNone | certValid | certExpired

record node =
  n_p :: provider
  n_name :: bytes
  n_addr :: bytes
  n_id :: "Identity option"
  n_unsigned :: "bytes option"
  n_ttl :: int
  n_peerRetry :: int
  n_peers :: "peerCache option"
  n_wake :: "bool option"
  n_out :: "served option"
  n_notAfter :: int
  n_requestAt :: "Time option"
  n_installed :: "bytes option"
  n_installedAt :: Time
  n_roster :: "bytes option"
  n_signedState :: "certState option"
  n_link :: bytes
  n_onion :: "onionKeys option"
  n_descriptorRequests :: nat
  n_mirrorRequests :: nat

definition checkTTL :: "int \<Rightarrow> bool" where
  "checkTTL ttl \<longleftrightarrow> \<not> (ttl < Minute \<or> ttl > MaxDescriptorLife)"

definition checkRotateFlags :: "int \<Rightarrow> int \<Rightarrow> bool" where
  "checkRotateFlags every ttl \<longleftrightarrow> every = 0 \<or> \<not> (every < 0 \<or> every < ttl)"

text \<open>
  The checks of the flags; \<open>loopback\<close> says of a host that it is the text of an IP address
  (\<^verbatim>\<open>netip.ParseAddr\<close>) and a loopback one.
\<close>

definition checkAuthFlags :: "(bytes \<Rightarrow> (bytes \<times> bytes) option) \<Rightarrow> (bytes \<Rightarrow> bool) \<Rightarrow> bytes \<Rightarrow> bytes \<Rightarrow> bytes \<Rightarrow> int \<Rightarrow> bool" where
  "checkAuthFlags ip loopback stats name advertise ttl \<longleftrightarrow>
     (case SplitHostPort stats of
        None \<Rightarrow> False
      | Some (host, _) \<Rightarrow> loopback host \<and> ValidName name \<and> ValidAddr ip advertise \<and> checkTTL ttl)"

fun repeatedPeer :: "bytes list \<Rightarrow> bytes list \<Rightarrow> bool" where
  "repeatedPeer seen [] = False"
| "repeatedPeer seen (addr # addrs) = (addr \<in> set seen \<or> repeatedPeer (addr # seen) addrs)"

definition checkPeerFlags :: "(bytes \<Rightarrow> (bytes \<times> bytes) option) \<Rightarrow> bool \<Rightarrow> bytes \<Rightarrow> bytes \<Rightarrow> bytes list \<Rightarrow> bool" where
  "checkPeerFlags ip auth advertise peerInfoPort peers \<longleftrightarrow>
     ValidAddr ip (ascii ''node:'' @ peerInfoPort)
     \<and> (if auth then peers = []
        else if advertise = [] then peers = []
        else list_all (ValidAddr ip) (advertise # peers) \<and> \<not> repeatedPeer [advertise] peers)"

definition certStateOf :: "node \<Rightarrow> Time \<Rightarrow> certState" where
  "certStateOf n now = (if n_notAfter n = 0 then certNone else if Unix now \<ge> n_notAfter n then certExpired else certValid)"

definition node_current :: "node \<Rightarrow> Time \<Rightarrow> (bytes \<times> int) option" where
  "node_current n now =
     (if n_id n = None then
        (case (case n_out n of Some s \<Rightarrow> Some (sv_bundle s) | None \<Rightarrow> n_unsigned n) of None \<Rightarrow> None | Some b \<Rightarrow> Some (b, MaxInt64))
      else
        case n_out n of
          None \<Rightarrow> None
        | Some s \<Rightarrow>
            (let until = min (sv_notAfter s) (sv_expires s) in if Unix now \<ge> until then None else Some (sv_bundle s, until)))"

definition node_descriptor :: "node \<Rightarrow> Time \<Rightarrow> bytes option" where
  "node_descriptor n now = map_option fst (node_current n now)"

text \<open>\<^verbatim>\<open>publish\<close> on the node's cache, once it has one.\<close>

definition republish :: "codecs \<Rightarrow> Time \<Rightarrow> node \<Rightarrow> node" where
  "republish k now n =
     (case n_peers n of None \<Rightarrow> n | Some c \<Rightarrow> n\<lparr>n_peers := Some (publish k (tm_wall now) (node_current n now) c)\<rparr>)"

section \<open>Signing\<close>

definition node_sign :: "codecs \<Rightarrow> Time \<Rightarrow> node \<Rightarrow> world \<Rightarrow> unit result \<times> node \<times> world" where
  "node_sign k now n w =
     (case n_id n of
        None \<Rightarrow> (Inl Panic, n, w)
      | Some i \<Rightarrow>
          let n = n\<lparr>n_signedState := Some (certStateOf n now)\<rparr>;
              i = (case n_onion n of
                     None \<Rightarrow> i
                   | Some q \<Rightarrow> (case Current (on_ring q) of (epoch, pub) \<Rightarrow> SetKeys (n_link n) (case pub of None \<Rightarrow> [] | Some b \<Rightarrow> b) epoch i))
          in
          case Refresh (k_json k) (tm_wall now) (n_ttl n) i w of
            (Inl e, i, w) \<Rightarrow> (Inl e, n\<lparr>n_id := Some i\<rparr>, w)
          | (Inr _, i, w) \<Rightarrow>
              (let n = n\<lparr>n_id := Some i\<rparr> in
               case Identity_Bundle i of
                 None \<Rightarrow> (Inl ErrNoCert, n, w)
               | Some b \<Rightarrow>
                   (case servedFrom k b of
                      Inl e \<Rightarrow> (Inl e, n, w)
                    | Inr s \<Rightarrow> (Inr (), republish k now (n\<lparr>n_out := Some s\<rparr>), w))))"

definition checkEvery :: "int \<Rightarrow> int" where
  "checkEvery ttl = max (min (ttl div 4) maxCheckEvery) Second"

definition refreshIfDue :: "codecs \<Rightarrow> Time \<Rightarrow> node \<Rightarrow> world \<Rightarrow> node \<times> world" where
  "refreshIfDue k now n w =
     (let state = certStateOf n now in
      if state = certNone \<or> state = certExpired \<and> n_signedState n = Some certExpired then (n, w)
      else
        let due = (case n_out n of None \<Rightarrow> True | Some s \<Rightarrow> Unix now - sv_published s \<ge> n_ttl n div 2 div Second) in
        if \<not> due \<and> n_signedState n = Some state then (n, w)
        else case node_sign k now n w of (_, n, w) \<Rightarrow> (n, w))"

section \<open>Enrollment\<close>

definition maxAdminBody :: nat where "maxAdminBody = MaxRoster"

text \<open>The body of a request: the bytes that arrive, and whether it ends there.\<close>

definition readBody :: "bytes \<Rightarrow> bool \<Rightarrow> int + bytes" where
  "readBody body whole = (if length body > maxAdminBody then Inl 413 else if \<not> whole then Inl 400 else Inr body)"

definition handleRequest :: "bytes \<Rightarrow> bool \<Rightarrow> Time \<Rightarrow> node \<Rightarrow> world \<Rightarrow> (int \<times> bytes) \<times> node \<times> world" where
  "handleRequest body whole now n w =
     (case readBody body whole of
        Inl code \<Rightarrow> ((code, []), n, w)
      | Inr nonce \<Rightarrow>
          if length nonce \<noteq> pkiNonceSize then ((400, []), n, w)
          else if n_installed n \<noteq> None then ((409, []), n, w)
          else
            case n_id n of
              None \<Rightarrow> ((404, []), n, w)
            | Some i \<Rightarrow>
                (case Identity_Request i nonce w of
                   (Inl e, w) \<Rightarrow> ((500, []), n, w)
                 | (Inr req, w) \<Rightarrow> ((200, req), n\<lparr>n_requestAt := Some now\<rparr>, w)))"

definition installCert :: "codecs \<Rightarrow> bytes \<Rightarrow> Cert \<Rightarrow> Time \<Rightarrow> node \<Rightarrow> world \<Rightarrow> int \<times> node \<times> world" where
  "installCert k raw c now n w =
     (case n_id n of
        None \<Rightarrow> (404, n, w)
      | Some i \<Rightarrow>
          (case Install (k_ip k) raw (tm_wall now) i of
             (Inl e, i) \<Rightarrow> (400, n\<lparr>n_id := Some i\<rparr>, w)
           | (Inr _, i) \<Rightarrow>
               (case node_sign k now
                  (n\<lparr>n_id := Some i, n_requestAt := None, n_installed := Some raw, n_installedAt := now, n_notAfter := sint (c_NotAfter c)\<rparr>) w of
                  (Inl e, n, w) \<Rightarrow> (500, n, w)
                | (Inr _, n, w) \<Rightarrow> (204, n, w))))"

definition handleCert :: "codecs \<Rightarrow> bytes \<Rightarrow> bool \<Rightarrow> Time \<Rightarrow> node \<Rightarrow> world \<Rightarrow> int \<times> node \<times> world" where
  "handleCert k body whole now n w =
     (case readBody body whole of
        Inl code \<Rightarrow> (code, n, w)
      | Inr raw \<Rightarrow>
          (case ParseCert (k_ip k) raw of
             Inl e \<Rightarrow> (400, n, w)
           | Inr c \<Rightarrow>
               if n_installed n = Some raw \<and> certStateOf n now = certValid then (204, n, w)
               else if n_installed n \<noteq> None then (409, n, w)
               else
                 case n_requestAt n of
                   None \<Rightarrow> (409, n, w)
                 | Some req \<Rightarrow>
                     if Time_Sub now req > InstallWindow then (409, n, w)
                     else if sint (c_NotBefore c) < Unix (Time_Add (- Skew) req) then (409, n, w)
                     else installCert k raw c now n w))"

definition setPeers :: "codecs \<Rightarrow> Time \<Rightarrow> bytes list \<Rightarrow> Anchor option \<Rightarrow> node \<Rightarrow> unit result \<times> node" where
  "setPeers k now addrs anchor n =
     (let c = publish k (tm_wall now) (node_current n now) (newPeerCache (n_addr n) (n_peerRetry n) addrs anchor);
          n = n\<lparr>n_peers := Some c\<rparr>
      in case n_wake n of
           None \<Rightarrow> (Inr (), n)
         | Some closed \<Rightarrow> if closed then (Inl Panic, n) else (Inr (), n\<lparr>n_wake := Some True\<rparr>))"

text \<open>The end of \<^verbatim>\<open>handleRoster\<close>, once the roster may be taken.\<close>

definition takeRoster :: "codecs \<Rightarrow> bytes \<Rightarrow> Roster \<Rightarrow> Time \<Rightarrow> node \<Rightarrow> world \<Rightarrow> int result \<times> node \<times> world" where
  "takeRoster k raw r now n w =
     (case node_descriptor n now of
        None \<Rightarrow> (Inr 409, n, w)
      | Some b \<Rightarrow>
          if \<not> Roster_Has r (n_name n) (n_addr n) then (Inr 400, n, w)
          else
            case Verify (k_json k) (k_ip k) (n_p n) \<lparr>po_Anchor = ro_Anchor r, po_Skew = Skew, po_MaxLife = 0\<rparr> (n_addr n) b (tm_wall now) w of
              (Inl e, w) \<Rightarrow> (Inr 400, n, w)
            | (Inr _, w) \<Rightarrow>
                (case setPeers k now (filter (\<lambda>a. a \<noteq> n_addr n) (map rn_Addr (ro_Nodes r))) (Some (ro_Anchor r)) (n\<lparr>n_roster := Some raw\<rparr>) of
                   (Inl e, n) \<Rightarrow> (Inl e, n, w)
                 | (Inr _, n) \<Rightarrow> (Inr 204, n, w)))"

definition handleRoster :: "codecs \<Rightarrow> bytes \<Rightarrow> bool \<Rightarrow> Time \<Rightarrow> node \<Rightarrow> world \<Rightarrow> int result \<times> node \<times> world" where
  "handleRoster k body whole now n w =
     (case readBody body whole of
        Inl code \<Rightarrow> (Inr code, n, w)
      | Inr raw \<Rightarrow>
          (case ParseRoster (k_roster k) (k_ip k) raw of
             Inl e \<Rightarrow> (Inr 400, n, w)
           | Inr r \<Rightarrow>
               if n_roster n = Some raw then (Inr 204, n, w)
               else if n_roster n \<noteq> None then (Inr 409, n, w)
               else if n_installed n = None then (Inr 409, n, w)
               else if Time_Sub now (n_installedAt n) > InstallWindow then (Inr 409, n, w)
               else takeRoster k raw r now n w))"

definition peerKey :: "Time \<Rightarrow> node \<Rightarrow> bytes \<Rightarrow> bytes option" where
  "peerKey now n addr = (case n_peers n of None \<Rightarrow> None | Some c \<Rightarrow> peer_linkKey (tm_wall now) c addr)"

definition peerState :: "Time \<Rightarrow> node \<Rightarrow> nat \<times> nat" where
  "peerState now n = (case n_peers n of None \<Rightarrow> (0, 0) | Some c \<Rightarrow> (length (pc_addrs c) + 1, held (tm_wall now) c))"

section \<open>The info port\<close>

text \<open>
  The handlers of \<^verbatim>\<open>infoMux\<close>: a status and a body. \<open>serving\<close> is what the relay says of itself, none
  where the node was given no such function.
\<close>

definition infoHealth :: "bool option \<Rightarrow> int" where
  "infoHealth serving = (if serving = Some False then 503 else 200)"

definition infoDescriptor :: "Time \<Rightarrow> node \<Rightarrow> (int \<times> bytes) \<times> node" where
  "infoDescriptor now n =
     (case node_descriptor n now of None \<Rightarrow> (503, []) | Some b \<Rightarrow> (200, b),
      n\<lparr>n_descriptorRequests := n_descriptorRequests n + 1\<rparr>)"

definition infoDescriptors :: "codecs \<Rightarrow> Time \<Rightarrow> node \<Rightarrow> (int \<times> bytes) \<times> node" where
  "infoDescriptors k now n =
     (let n = n\<lparr>n_mirrorRequests := n_mirrorRequests n + 1\<rparr> in
      case n_peers n of
        None \<Rightarrow> ((503, []), n)
      | Some c \<Rightarrow>
          (case descriptors k (tm_wall now) (node_current n now) c of
             (body, c) \<Rightarrow> (case body of None \<Rightarrow> (503, []) | Some b \<Rightarrow> (200, b), n\<lparr>n_peers := Some c\<rparr>)))"

section \<open>Rotation of the onion key\<close>

definition hold_pages :: "onionKeys \<Rightarrow> world \<Rightarrow> onionKeys \<times> world" where
  "hold_pages q w = (if live w < limit w then (q\<lparr>on_reserve := True\<rparr>, allocate w) else (q, w))"

definition letGo :: "onionKeys \<Rightarrow> world \<Rightarrow> onionKeys \<times> world" where
  "letGo q w = (if on_reserve q then (q\<lparr>on_reserve := False\<rparr>, release w) else (q, w))"

definition newOnionKeys :: "OnionRing \<Rightarrow> int \<Rightarrow> int \<Rightarrow> bool \<Rightarrow> Time \<Rightarrow> world \<Rightarrow> onionKeys \<times> world" where
  "newOnionKeys ring every ttl lock now =
     hold_pages \<lparr>on_ring = ring, on_every = every, on_grace = ttl + Skew, on_lock = lock, on_rotateAt = after now every, on_retireAt = None,
                 on_reserve = False, on_closed = False, on_failed = None, on_failures = 0\<rparr>"

definition errOnionUnlocked :: error where "errOnionUnlocked = Message ''key memory is not locked''"

definition rotateKey :: "provider \<Rightarrow> bool \<Rightarrow> onionKeys \<Rightarrow> world \<Rightarrow> u32 result \<times> onionKeys \<times> world" where
  "rotateKey p locked q w =
     (case GenerateEphemeral p w of
        (Inl e, w) \<Rightarrow> (Inl e, q, w)
      | (Inr (priv, pub), w) \<Rightarrow>
          if on_lock q \<and> \<not> locked then (Inl errOnionUnlocked, q, release w)
          else
            case Rotate p (Some priv) pub (on_ring q) w of
              (Inl e, ring, w) \<Rightarrow> (Inl e, q\<lparr>on_ring := ring\<rparr>, release w)
            | (Inr epoch, ring, w) \<Rightarrow> (Inr epoch, q\<lparr>on_ring := ring\<rparr>, w))"

definition node_rotate :: "provider \<Rightarrow> bool \<Rightarrow> onionKeys \<Rightarrow> world \<Rightarrow> u32 result \<times> onionKeys \<times> world" where
  "node_rotate p locked q w =
     (case letGo q w of (q, w) \<Rightarrow>
      case rotateKey p locked q w of (r, q, w) \<Rightarrow>
      case hold_pages q w of (q, w) \<Rightarrow> (r, q, w))"

text \<open>The release half of \<^verbatim>\<open>rotateIfDue\<close>.\<close>

definition retireIfDue :: "Time \<Rightarrow> onionKeys \<Rightarrow> world \<Rightarrow> onionKeys \<times> world" where
  "retireIfDue now q w =
     (if (case on_retireAt q of None \<Rightarrow> False | Some d \<Rightarrow> deadline_passed d now) then
        (case Retire (on_ring q) w of (ring, w) \<Rightarrow>
         let q = q\<lparr>on_ring := ring, on_retireAt := None\<rparr> in if on_reserve q then (q, w) else hold_pages q w)
      else (q, w))"

definition publishOnion :: "codecs \<Rightarrow> Time \<Rightarrow> node \<Rightarrow> world \<Rightarrow> unit result \<times> node \<times> world" where
  "publishOnion k now n w =
     (if n_id n \<noteq> None then
        (if certStateOf n now \<noteq> certValid then (Inr (), n, w) else node_sign k now n w)
      else
        case n_onion n of
          None \<Rightarrow> (Inl Panic, n, w)
        | Some q \<Rightarrow>
            (case Current (on_ring q) of (epoch, pub) \<Rightarrow>
             case UnsignedEpoch (k_json k) (n_p n) (n_link n) (case pub of None \<Rightarrow> [] | Some b \<Rightarrow> b) epoch w of
               (Inl e, w) \<Rightarrow> (Inl e, n, w)
             | (Inr b, w) \<Rightarrow>
                 (Inr (), republish k now (n\<lparr>n_out := Some \<lparr>sv_bundle = b, sv_notAfter = 0, sv_published = 0, sv_expires = 0\<rparr>\<rparr>), w)))"

definition rotateIfDue :: "codecs \<Rightarrow> bool \<Rightarrow> Time \<Rightarrow> node \<Rightarrow> world \<Rightarrow> node \<times> world" where
  "rotateIfDue k locked now n w =
     (case n_onion n of
        None \<Rightarrow> (n, w)
      | Some q \<Rightarrow>
          if on_closed q then (n, w)
          else
            case retireIfDue now q w of (q, w) \<Rightarrow>
            if \<not> deadline_passed (on_rotateAt q) now \<or> on_retireAt q \<noteq> None then (n\<lparr>n_onion := Some q\<rparr>, w)
            else
              case node_rotate (n_p n) locked q w of
                (Inl e, q, w) \<Rightarrow> (n\<lparr>n_onion := Some (q\<lparr>on_failures := on_failures q + 1, on_failed := Some e\<rparr>)\<rparr>, w)
              | (Inr epoch, q, w) \<Rightarrow>
                  (case publishOnion k now
                     (n\<lparr>n_onion := Some (q\<lparr>on_failed := None, on_rotateAt := after now (on_every q), on_retireAt := Some (after now (on_grace q))\<rparr>)\<rparr>) w of
                     (_, n, w) \<Rightarrow> (n, w)))"

definition closeOnion :: "node \<Rightarrow> world \<Rightarrow> node \<times> world" where
  "closeOnion n w =
     (case n_onion n of
        None \<Rightarrow> (n, w)
      | Some q \<Rightarrow>
          (case letGo (q\<lparr>on_closed := True\<rparr>) w of (q, w) \<Rightarrow>
           case OnionRing_Close (on_ring q) w of (ring, w) \<Rightarrow> (n\<lparr>n_onion := Some (q\<lparr>on_ring := ring\<rparr>)\<rparr>, w)))"

definition onionEpoch :: "node \<Rightarrow> u32" where
  "onionEpoch n = (case n_onion n of None \<Rightarrow> 0 | Some q \<Rightarrow> fst (Current (on_ring q)))"

end
