(* ===== verification/NodeInv.thy ===== *)
theory NodeInv
  imports Node
begin

text \<open>
  What holds of a node over every sequence of its handlers and timers: it takes one certificate and
  one roster, it extends only to nodes of that roster that it verified, and it keeps a replaced onion
  key for as long as a descriptor that names it is accepted anywhere.
\<close>

section \<open>What a step leaves alone\<close>

definition same_id :: "Identity \<Rightarrow> Identity \<Rightarrow> bool" where
  "same_id i i' \<longleftrightarrow> id_p i' = id_p i \<and> id_name i' = id_name i \<and> id_addr i' = id_addr i \<and> id_pub i' = id_pub i \<and> id_priv i' = id_priv i \<and> id_cert i' = id_cert i"

lemma same_id_trans: "same_id i j \<Longrightarrow> same_id j l \<Longrightarrow> same_id i l"
  by (simp add: same_id_def)

lemma Refresh_same: "Refresh js now ttl i w = (r, i', w') \<Longrightarrow> same_id i i'"
  by (auto simp: Refresh_def refreshed_def same_id_def Let_def split: if_splits option.splits prod.splits sum.splits)

lemma SetKeys_same: "same_id i (SetKeys l q e i)"
  by (simp add: SetKeys_def same_id_def)

text \<open>A step that signs or publishes: the identity keeps its keys and its certificate, the cache is at most published anew.\<close>

definition node_keeps :: "codecs \<Rightarrow> node \<Rightarrow> node \<Rightarrow> bool" where
  "node_keeps k n n' \<longleftrightarrow>
     n_p n' = n_p n \<and> n_name n' = n_name n \<and> n_addr n' = n_addr n \<and> n_peerRetry n' = n_peerRetry n \<and> n_wake n' = n_wake n
     \<and> n_installed n' = n_installed n \<and> n_roster n' = n_roster n \<and> rel_option same_id (n_id n) (n_id n')
     \<and> (n_peers n' = n_peers n \<or> (\<exists>c now own. n_peers n = Some c \<and> n_peers n' = Some (publish k now own c)))"

lemma node_keeps_refl [simp]: "node_keeps k n n"
  by (simp add: node_keeps_def same_id_def option.rel_refl)

lemma republish_keeps: "node_keeps k n (republish k now n)"
  by (auto simp: republish_def node_keeps_def same_id_def option.rel_refl split: option.splits)

lemma node_keeps_aside:
  "node_keeps k (n\<lparr>n_signedState := s\<rparr>) n' = node_keeps k n n'" "node_keeps k (n\<lparr>n_out := u\<rparr>) n' = node_keeps k n n'"
  "node_keeps k (n\<lparr>n_onion := q\<rparr>) n' = node_keeps k n n'"
  by (simp_all add: node_keeps_def)

lemma node_keeps_id:
  "n_id n = Some i \<Longrightarrow> same_id i i' \<Longrightarrow> node_keeps k (n\<lparr>n_id := Some i'\<rparr>) n' \<Longrightarrow> node_keeps k n n'"
  by (auto simp: node_keeps_def option_rel_Some1 intro: same_id_trans)

lemma node_sign_keeps:
  assumes "node_sign k now n w = (r, n', w')"
  shows "node_keeps k n n' \<and> n_onion n' = n_onion n \<and> n_notAfter n' = n_notAfter n \<and> n_ttl n' = n_ttl n \<and> n_link n' = n_link n"
proof (cases "n_id n")
  case None
  then show ?thesis using assms by (simp add: node_sign_def)
next
  case (Some i)
  let ?n = "n\<lparr>n_signedState := Some (certStateOf n now)\<rparr>"
  let ?i = "case n_onion n of None \<Rightarrow> i
    | Some q \<Rightarrow> (case Current (on_ring q) of (epoch, pub) \<Rightarrow> SetKeys (n_link n) (case pub of None \<Rightarrow> [] | Some b \<Rightarrow> b) epoch i)"
  have i: "same_id i ?i" using SetKeys_same by (auto simp: same_id_def split: option.splits prod.splits)
  obtain rr i' w1 where R: "Refresh (k_json k) (tm_wall now) (n_ttl n) ?i w = (rr, i', w1)" by (metis prod_cases3)
  have s: "same_id i i'" using same_id_trans [OF i Refresh_same [OF R]] .
  let ?m = "?n\<lparr>n_id := Some i'\<rparr>"
  have m: "node_keeps k n n'" if "n' = ?m \<or> (\<exists>sv. n' = republish k now (?m\<lparr>n_out := Some sv\<rparr>))"
  proof -
    have "node_keeps k ?m (republish k now (?m\<lparr>n_out := Some sv\<rparr>))" for sv
      using republish_keeps [of k "?m\<lparr>n_out := Some sv\<rparr>" now] unfolding node_keeps_aside(2) .
    then have "node_keeps k ?m n'" using that by auto
    then show ?thesis using node_keeps_id [OF _ s, of ?n k n'] Some by (simp add: node_keeps_aside)
  qed
  have "n' = ?m \<or> (\<exists>sv. n' = republish k now (?m\<lparr>n_out := Some sv\<rparr>))"
    using assms Some R by (auto simp: node_sign_def Let_def split: sum.splits option.splits)
  then show ?thesis using m by (auto simp: republish_def split: option.splits)
qed

lemma node_keeps_counters:
  "node_keeps k n n' \<Longrightarrow> node_keeps k n (n'\<lparr>n_descriptorRequests := i\<rparr>)" "node_keeps k n n' \<Longrightarrow> node_keeps k n (n'\<lparr>n_mirrorRequests := i\<rparr>)"
  by (simp_all add: node_keeps_def)

lemma infoDescriptor_keeps: "infoDescriptor now n = (r, n') \<Longrightarrow> node_keeps k n n'"
  by (auto simp: infoDescriptor_def intro: node_keeps_counters(1))

lemma descriptors_published: "snd (descriptors k now own c) = c \<or> snd (descriptors k now own c) = publish k now own c"
  by (simp add: descriptors_def Let_def split: option.splits)

lemma infoDescriptors_keeps: "infoDescriptors k now n = (r, n') \<Longrightarrow> node_keeps k n n'"
proof -
  assume a: "infoDescriptors k now n = (r, n')"
  let ?m = "n\<lparr>n_mirrorRequests := n_mirrorRequests n + 1\<rparr>"
  have "n' = ?m \<or> (\<exists>c own. n_peers n = Some c \<and> (n' = ?m\<lparr>n_peers := Some c\<rparr> \<or> n' = ?m\<lparr>n_peers := Some (publish k (tm_wall now) own c)\<rparr>))"
    using a descriptors_published [of k "tm_wall now" "node_current ?m now"]
    by (auto simp: infoDescriptors_def Let_def split: option.splits prod.splits) (metis snd_conv)+
  then show ?thesis unfolding node_keeps_def by (elim disjE exE conjE) (auto simp: same_id_def option.rel_refl)
qed

section \<open>One certificate, one roster\<close>

definition otherAddrs :: "node \<Rightarrow> Roster \<Rightarrow> bytes list" where
  "otherAddrs n r = filter (\<lambda>a. a \<noteq> n_addr n) (map rn_Addr (ro_Nodes r))"

text \<open>
  The invariant: the cache, the roster and the closed channel come together, after the certificate;
  the identity holds exactly the certificate installed, which is its own; and the cache is one of
  the roster's.
\<close>

definition cert_held :: "codecs \<Rightarrow> node \<Rightarrow> Identity \<Rightarrow> bool" where
  "cert_held k n i \<longleftrightarrow> id_p i = n_p n \<and> id_name i = n_name n \<and> id_addr i = n_addr n
     \<and> (case n_installed n of
          None \<Rightarrow> id_cert i = None
        | Some raw \<Rightarrow> (\<exists>c. id_cert i = Some (c, raw) \<and> ParseCert (k_ip k) raw = Inr c \<and> c_Identity c = id_pub i \<and> c_Name c = n_name n \<and> c_Addr c = n_addr n))"

definition self_verified :: "codecs \<Rightarrow> node \<Rightarrow> Anchor \<Rightarrow> bool" where
  "self_verified k n a \<longleftrightarrow>
     (\<exists>b t w v w'. Verify (k_json k) (k_ip k) (n_p n) \<lparr>po_Anchor = a, po_Skew = Skew, po_MaxLife = 0\<rparr> (n_addr n) b t w = (Inr v, w'))"

definition roster_held :: "codecs \<Rightarrow> node \<Rightarrow> bool" where
  "roster_held k n \<longleftrightarrow>
     (case n_roster n of
        None \<Rightarrow> n_peers n = None
      | Some raw \<Rightarrow> n_installed n \<noteq> None \<and> (\<exists>r c. ParseRoster (k_roster k) (k_ip k) raw = Inr r \<and> Roster_Has r (n_name n) (n_addr n) \<and> n_peers n = Some c
            \<and> peer_run k (n_p n) (n_addr n) (n_peerRetry n) (otherAddrs n r) (ro_Anchor r) c
            \<and> self_verified k n (ro_Anchor r)))"

definition node_inv :: "codecs \<Rightarrow> node \<Rightarrow> bool" where
  "node_inv k n \<longleftrightarrow> (\<exists>i. n_id n = Some i \<and> cert_held k n i) \<and> roster_held k n \<and> n_wake n = Some (n_roster n \<noteq> None)"

lemma node_inv_keeps:
  assumes "node_keeps k n n'" "node_inv k n"
  shows "node_inv k n'"
proof -
  obtain i where i: "n_id n = Some i" "cert_held k n i" using assms(2) unfolding node_inv_def by blast
  obtain i' where i': "n_id n' = Some i'" "same_id i i'" using assms(1) i(1) by (auto simp: node_keeps_def option_rel_Some1)
  have e: "n_p n' = n_p n" "n_name n' = n_name n" "n_addr n' = n_addr n" "n_peerRetry n' = n_peerRetry n" "n_wake n' = n_wake n"
    "n_installed n' = n_installed n" "n_roster n' = n_roster n"
    and peers: "n_peers n' = n_peers n \<or> (\<exists>c now own. n_peers n = Some c \<and> n_peers n' = Some (publish k now own c))"
    using assms(1) by (simp_all add: node_keeps_def)
  have "cert_held k n' i'" using i(2) i'(2) unfolding cert_held_def same_id_def e by (simp split: option.splits)
  moreover have "roster_held k n'"
  proof (cases "n_roster n")
    case None
    then show ?thesis using assms(2) peers by (auto simp: node_inv_def roster_held_def e)
  next
    case (Some raw)
    then obtain r c where r: "n_installed n \<noteq> None" "ParseRoster (k_roster k) (k_ip k) raw = Inr r" "Roster_Has r (n_name n) (n_addr n)" "n_peers n = Some c"
      "peer_run k (n_p n) (n_addr n) (n_peerRetry n) (otherAddrs n r) (ro_Anchor r) c"
      "self_verified k n (ro_Anchor r)"
      using assms(2) by (auto simp: node_inv_def roster_held_def)
    have "otherAddrs n' r = otherAddrs n r" "self_verified k n' (ro_Anchor r)" using r(6) by (simp_all add: otherAddrs_def self_verified_def e)
    moreover obtain c' where "n_peers n' = Some c'" "peer_run k (n_p n) (n_addr n) (n_peerRetry n) (otherAddrs n r) (ro_Anchor r) c'"
      using peers r(4,5) peer_run.publish [OF r(5)] by auto
    ultimately show ?thesis unfolding roster_held_def e Some using r(1-3) by auto
  qed
  ultimately show ?thesis using i'(1) assms(2) unfolding node_inv_def e by blast
qed

lemma handleRequest_keeps: "handleRequest body whole now n w = (r, n', w') \<Longrightarrow> node_keeps k n n'"
  by (auto simp: handleRequest_def node_keeps_def same_id_def option.rel_refl split: sum.splits if_splits option.splits prod.splits)

lemma refreshIfDue_keeps: "refreshIfDue k now n w = (n', w') \<Longrightarrow> node_keeps k n n'"
  using node_sign_keeps [of k now n w] by (auto simp: refreshIfDue_def Let_def split: if_splits prod.splits)

lemma publishOnion_keeps: "publishOnion k now n w = (r, n', w') \<Longrightarrow> node_keeps k n n' \<and> n_onion n' = n_onion n"
proof (cases "n_id n")
  case None
  assume p: "publishOnion k now n w = (r, n', w')"
  have "node_keeps k n (republish k now (n\<lparr>n_out := Some sv\<rparr>))" for sv
    using republish_keeps [of k "n\<lparr>n_out := Some sv\<rparr>" now] unfolding node_keeps_aside .
  moreover have "n_onion (republish k now m) = n_onion m" for m by (simp add: republish_def split: option.splits)
  ultimately show ?thesis using p None by (auto simp: publishOnion_def split: option.splits prod.splits sum.splits)
next
  case (Some i)
  assume p: "publishOnion k now n w = (r, n', w')"
  show ?thesis using p Some node_sign_keeps [of k now n w] by (auto simp: publishOnion_def split: if_splits)
qed

lemma rotateIfDue_keeps: "rotateIfDue k locked now n w = (n', w') \<Longrightarrow> node_keeps k n n'"
proof -
  assume r: "rotateIfDue k locked now n w = (n', w')"
  have o: "node_keeps k n (n\<lparr>n_onion := q\<rparr>)" for q by (simp add: node_keeps_def same_id_def option.rel_refl)
  have p: "node_keeps k n m" if "publishOnion k now (n\<lparr>n_onion := q\<rparr>) u = (x, m, u')" for q u x m u'
    using publishOnion_keeps [OF that] unfolding node_keeps_aside by blast
  show ?thesis using r o p by (auto simp: rotateIfDue_def split: option.splits if_splits prod.splits sum.splits)
qed

lemma Install_cases:
  assumes "Install ip raw now i = (r, i')"
  shows "r = Inr () \<and> (\<exists>c. ParseCert ip raw = Inr c \<and> c_Identity c = id_pub i \<and> c_Name c = id_name i \<and> c_Addr c = id_addr i
      \<and> i' = i\<lparr>id_cert := Some (c, raw), id_bundle := None\<rparr>) \<or> isl r \<and> i' = i"
  using assms by (auto simp: Install_def certWindow_def split: sum.splits if_splits)

text \<open>A request for a certificate or a roster: it is refused and changes nothing that matters here, or it is the first.\<close>

lemma handleCert_step:
  assumes "handleCert k body whole now n w = (code, n', w')" "node_inv k n"
  shows "node_inv k n' \<and> n_roster n' = n_roster n \<and> n_peerRetry n' = n_peerRetry n \<and> n_p n' = n_p n
    \<and> (n_installed n' = n_installed n \<or> n_installed n = None \<and> n_installed n' = Some body \<and> (\<exists>req. n_requestAt n = Some req \<and> Time_Sub now req \<le> InstallWindow))
    \<and> (code = 204 \<longrightarrow> n_installed n' = Some body)"
proof (cases "n_installed n = None \<and> (\<exists>c req. ParseCert (k_ip k) body = Inr c \<and> n_requestAt n = Some req \<and> Time_Sub now req \<le> InstallWindow
      \<and> handleCert k body whole now n w = installCert k body c now n w)")
  case False
  then have "n' = n \<and> (code = 204 \<longrightarrow> n_installed n = Some body)"
    using assms(1) by (auto simp: handleCert_def readBody_def split: sum.splits if_splits option.splits)
  then show ?thesis using assms(2) by simp
next
  case True
  then obtain c req where c: "ParseCert (k_ip k) body = Inr c" "n_installed n = None" "n_requestAt n = Some req" "Time_Sub now req \<le> InstallWindow"
    "installCert k body c now n w = (code, n', w')" using assms(1) by auto
  obtain i where i: "n_id n = Some i" "cert_held k n i" using assms(2) unfolding node_inv_def by blast
  obtain r i' where I: "Install (k_ip k) body (tm_wall now) i = (r, i')" by force
  show ?thesis
  proof (cases "isl r")
    case True
    then have n': "code = 400" "n' = n\<lparr>n_id := Some i\<rparr>" using c(5) i(1) I Install_cases [OF I] by (auto simp: installCert_def isl_def)
    have "node_keeps k n n'" unfolding n' using i(1) by (simp add: node_keeps_def same_id_def)
    then show ?thesis using node_inv_keeps [OF _ assms(2)] n' by simp
  next
    case False
    let ?m = "n\<lparr>n_id := Some i', n_requestAt := None, n_installed := Some body, n_installedAt := now, n_notAfter := sint (c_NotAfter c)\<rparr>"
    have "cert_held k ?m i'" using False Install_cases [OF I] i(2) by (auto simp: cert_held_def)
    moreover have "n_roster n = None" using assms(2) c(2) by (auto simp: node_inv_def roster_held_def split: option.splits)
    then have "roster_held k ?m" using assms(2) by (simp add: node_inv_def roster_held_def)
    ultimately have "node_inv k ?m" using assms(2) by (simp add: node_inv_def)
    moreover obtain rs where "node_sign k now ?m w = (rs, n', w')" "code \<in> {204, 500}"
      using False c(5) i(1) I Install_cases [OF I] by (auto simp: installCert_def isl_def split: prod.splits sum.splits)
    ultimately have "node_inv k n'" "node_keeps k ?m n'" using node_sign_keeps [of k now ?m w rs n' w'] node_inv_keeps by blast+
    then show ?thesis using c(2-4) by (simp add: node_keeps_def)
  qed
qed

lemma handleRoster_step:
  assumes "handleRoster k body whole now n w = (res, n', w')" "node_inv k n"
  shows "node_inv k n' \<and> n_installed n' = n_installed n \<and> res \<noteq> Inl Panic \<and> n_peerRetry n' = n_peerRetry n \<and> n_p n' = n_p n
    \<and> (n_roster n' = n_roster n \<and> n_peers n' = n_peers n
        \<or> n_roster n = None \<and> n_roster n' = Some body \<and> Time_Sub now (n_installedAt n) \<le> InstallWindow)
    \<and> (res = Inr 204 \<longrightarrow> n_roster n' = Some body)"
proof (cases "n_roster n = None \<and> n_installed n \<noteq> None \<and> Time_Sub now (n_installedAt n) \<le> InstallWindow
    \<and> (\<exists>r. ParseRoster (k_roster k) (k_ip k) body = Inr r \<and> handleRoster k body whole now n w = takeRoster k body r now n w)")
  case False
  then have "n' = n \<and> res \<noteq> Inl Panic \<and> (res = Inr 204 \<longrightarrow> n_roster n = Some body)"
    using assms(1) by (auto simp: handleRoster_def readBody_def split: sum.splits if_splits option.splits)
  then show ?thesis using assms(2) by simp
next
  case True
  then obtain r where r: "n_roster n = None" "n_installed n \<noteq> None" "ParseRoster (k_roster k) (k_ip k) body = Inr r" "Time_Sub now (n_installedAt n) \<le> InstallWindow"
    "takeRoster k body r now n w = (res, n', w')" using assms(1) by auto
  let ?pol = "\<lparr>po_Anchor = ro_Anchor r, po_Skew = Skew, po_MaxLife = 0\<rparr>"
  have wake: "n_wake n = Some False" using assms(2) r(1) by (simp add: node_inv_def)
  show ?thesis
  proof (cases "\<exists>b v w1. Roster_Has r (n_name n) (n_addr n) \<and> Verify (k_json k) (k_ip k) (n_p n) ?pol (n_addr n) b (tm_wall now) w = (Inr v, w1) \<and> res = Inr 204")
    case False
    then have "n' = n \<and> (res = Inr 400 \<or> res = Inr 409)"
      using r(5) wake by (auto simp: takeRoster_def setPeers_def Let_def split: option.splits if_splits prod.splits sum.splits)
    then show ?thesis using assms(2) by auto
  next
    case True
    then obtain b v w1 where v: "Roster_Has r (n_name n) (n_addr n)" "Verify (k_json k) (k_ip k) (n_p n) ?pol (n_addr n) b (tm_wall now) w = (Inr v, w1)" "res = Inr 204"
      by blast
    let ?c = "publish k (tm_wall now) (node_current (n\<lparr>n_roster := Some body\<rparr>) now) (newPeerCache (n_addr n) (n_peerRetry n) (otherAddrs n r) (Some (ro_Anchor r)))"
    have n': "n' = n\<lparr>n_roster := Some body, n_peers := Some ?c, n_wake := Some True\<rparr>"
      using r(5) v wake by (auto simp: takeRoster_def setPeers_def otherAddrs_def Let_def split: option.splits if_splits prod.splits sum.splits)
    have "peer_run k (n_p n) (n_addr n) (n_peerRetry n) (otherAddrs n r) (ro_Anchor r) ?c" by (intro peer_run.publish peer_run.new)
    moreover have "self_verified k n' (ro_Anchor r)" using v(2) unfolding self_verified_def by (simp add: n') blast
    ultimately have "roster_held k n'" using r v(1) by (auto simp: roster_held_def n' otherAddrs_def)
    then have "node_inv k n'" using assms(2) by (auto simp: node_inv_def n' cert_held_def cong: option.case_cong)
    then show ?thesis using r v n' by simp
  qed
qed

text \<open>The handlers and timers of a node that authenticates; the cache's own timer asks and publishes.\<close>

inductive node_step :: "codecs \<Rightarrow> node \<Rightarrow> node \<Rightarrow> bool" for k where
  csr: "handleRequest body whole now n w = (r, n', w') \<Longrightarrow> node_step k n n'"
| cert: "handleCert k body whole now n w = (code, n', w') \<Longrightarrow> node_step k n n'"
| roster: "handleRoster k body whole now n w = (res, n', w') \<Longrightarrow> node_step k n n'"
| fresh: "refreshIfDue k now n w = (n', w') \<Longrightarrow> node_step k n n'"
| rotated: "rotateIfDue k locked now n w = (n', w') \<Longrightarrow> node_step k n n'"
| asked: "n_peers n = Some c \<Longrightarrow> addr \<in> set (pc_addrs c) \<Longrightarrow> node_step k n (n\<lparr>n_peers := Some (fst (refreshPeer k (n_p n) now net addr c w))\<rparr>)"
| published: "n_peers n = Some c \<Longrightarrow> node_step k n (n\<lparr>n_peers := Some (publish k (tm_wall now) (node_current n now) c)\<rparr>)"
| info: "infoDescriptor now n = (r, n') \<Longrightarrow> node_step k n n'"
| served: "infoDescriptors k now n = (r, n') \<Longrightarrow> node_step k n n'"

lemma node_inv_peers:
  assumes "node_inv k n" "n_peers n = Some c"
    "\<And>self retry addrs a. peer_run k (n_p n) self retry addrs a c \<Longrightarrow> peer_run k (n_p n) self retry addrs a c'"
  shows "node_inv k (n\<lparr>n_peers := Some c'\<rparr>)"
proof -
  have "self_verified k (n\<lparr>n_peers := Some c'\<rparr>) a = self_verified k n a" for a by (simp add: self_verified_def)
  then have "roster_held k (n\<lparr>n_peers := Some c'\<rparr>)" using assms by (auto simp: node_inv_def roster_held_def otherAddrs_def split: option.splits)
  then show ?thesis using assms(1) by (auto simp: node_inv_def cert_held_def cong: option.case_cong)
qed

definition settled :: "node \<Rightarrow> node \<Rightarrow> bool" where
  "settled n n' \<longleftrightarrow> (n_installed n \<noteq> None \<longrightarrow> n_installed n' = n_installed n) \<and> (n_roster n \<noteq> None \<longrightarrow> n_roster n' = n_roster n)
     \<and> n_p n' = n_p n \<and> n_addr n' = n_addr n"

lemma settled_trans: "settled n m \<Longrightarrow> settled m l \<Longrightarrow> settled n l"
  by (auto simp: settled_def)

lemma node_keeps_settled: "node_keeps k n n' \<Longrightarrow> settled n n'"
  by (simp add: node_keeps_def settled_def)

lemma handle_addr:
  "handleCert k body whole now n w = (code, n', w') \<Longrightarrow> n_addr n' = n_addr n"
  "handleRoster k body whole now n w = (res, n', w') \<Longrightarrow> n_addr n' = n_addr n"
  using node_sign_keeps
  by (fastforce simp: handleCert_def installCert_def node_keeps_def split: sum.splits if_splits option.splits prod.splits)
    (auto simp: handleRoster_def takeRoster_def setPeers_def Let_def split: sum.splits if_splits option.splits prod.splits)

lemma node_step_inv:
  assumes "node_step k n n'" "node_inv k n"
  shows "node_inv k n' \<and> settled n n'"
  using assms
proof cases
  case csr
  then show ?thesis using handleRequest_keeps node_inv_keeps [OF _ assms(2)] node_keeps_settled by blast
next
  case (cert body whole now w code w')
  then show ?thesis using handleCert_step [OF _ assms(2)] handle_addr(1) by (fastforce simp: settled_def)
next
  case (roster body whole now w res w')
  then show ?thesis using handleRoster_step [OF _ assms(2)] handle_addr(2) by (fastforce simp: settled_def)
next
  case fresh
  then show ?thesis using refreshIfDue_keeps node_inv_keeps [OF _ assms(2)] node_keeps_settled by blast
next
  case rotated
  then show ?thesis using rotateIfDue_keeps node_inv_keeps [OF _ assms(2)] node_keeps_settled by blast
next
  case (asked c addr now net w)
  have "peer_run k (n_p n) self retry addrs a c \<Longrightarrow> peer_run k (n_p n) self retry addrs a (fst (refreshPeer k (n_p n) now net addr c w))" for self retry addrs a
    using asked(3) by (intro peer_run.ask)
  then show ?thesis unfolding asked(1) using node_inv_peers [OF assms(2) asked(2)] by (simp add: settled_def)
next
  case (published c now)
  then show ?thesis using node_inv_peers [OF assms(2) published(2)] peer_run.publish by (simp add: settled_def)
next
  case info
  then show ?thesis using infoDescriptor_keeps node_inv_keeps [OF _ assms(2)] node_keeps_settled by blast
next
  case served
  then show ?thesis using infoDescriptors_keeps node_inv_keeps [OF _ assms(2)] node_keeps_settled by blast
qed

lemma node_run_inv: "(node_step k)\<^sup>*\<^sup>* n n' \<Longrightarrow> node_inv k n \<Longrightarrow> node_inv k n' \<and> settled n n'"
proof (induction rule: rtranclp_induct)
  case base
  then show ?case by (simp add: settled_def)
next
  case (step m l)
  then show ?case using node_step_inv settled_trans by blast
qed

text \<open>What \<^verbatim>\<open>relay.Config.Peers\<close> is answered: the composition of the node with its cache.\<close>

lemma node_extends_to_roster:
  assumes "node_inv k n0" "(node_step k)\<^sup>*\<^sup>* n0 n" "peerKey now n addr = Some key"
  shows "\<exists>raw r. n_roster n = Some raw \<and> ParseRoster (k_roster k) (k_ip k) raw = Inr r \<and> addr \<in> rn_Addr ` set (ro_Nodes r) \<and> addr \<noteq> n_addr n
    \<and> (\<exists>b t w v w'. Verify (k_json k) (k_ip k) (n_p n) \<lparr>po_Anchor = ro_Anchor r, po_Skew = Skew, po_MaxLife = 0\<rparr> addr b t w = (Inr v, w')
         \<and> key = v_LinkPub v \<and> tm_wall now < v_DescUntil v)"
proof -
  have inv: "node_inv k n" using node_run_inv [OF assms(2,1)] by blast
  obtain c where c: "n_peers n = Some c" "peer_linkKey (tm_wall now) c addr = Some key"
    using assms(3) by (auto simp: peerKey_def split: option.splits)
  obtain raw r where r: "n_roster n = Some raw" "ParseRoster (k_roster k) (k_ip k) raw = Inr r"
    "peer_run k (n_p n) (n_addr n) (n_peerRetry n) (otherAddrs n r) (ro_Anchor r) c"
    using inv c(1) by (auto simp: node_inv_def roster_held_def split: option.splits)
  show ?thesis using linkKey_verified [OF r(3) c(2)] r(1,2) by (intro exI [of _ raw] exI [of _ r]) (auto simp: otherAddrs_def)
qed

text \<open>A node as it starts, with its identity and nothing else.\<close>

definition fresh_node :: "node \<Rightarrow> bool" where
  "fresh_node n \<longleftrightarrow> (\<exists>i. n_id n = Some i \<and> id_p i = n_p n \<and> id_name i = n_name n \<and> id_addr i = n_addr n \<and> id_cert i = None)
     \<and> n_installed n = None \<and> n_roster n = None \<and> n_peers n = None \<and> n_wake n = Some False"

lemma fresh_node_inv: "fresh_node n \<Longrightarrow> node_inv k n"
  by (auto simp: fresh_node_def node_inv_def cert_held_def roster_held_def)

text \<open>
  C21: a process takes one certificate and one roster. Over every sequence of requests, timers and
  answers of peers, from the start of a node: a certificate once installed is the node's own and stays
  until the process ends, whatever is sent later, and so does a roster; a roster is only taken after
  a certificate; and no request for a roster ever panics.
\<close>

theorem node_enrolls_once:
  assumes "fresh_node n0" "(node_step k)\<^sup>*\<^sup>* n0 n" "(node_step k)\<^sup>*\<^sup>* n n'"
  shows "(\<forall>raw. n_installed n = Some raw \<longrightarrow> n_installed n' = Some raw
        \<and> (\<exists>c i. n_id n' = Some i \<and> id_cert i = Some (c, raw) \<and> ParseCert (k_ip k) raw = Inr c \<and> c_Identity c = id_pub i \<and> c_Addr c = n_addr n0))
    \<and> (\<forall>raw. n_roster n = Some raw \<longrightarrow> n_roster n' = Some raw \<and> n_installed n' \<noteq> None)
    \<and> fst (handleRoster k body whole now n' w) \<noteq> Inl Panic"
proof -
  have i: "node_inv k n0" using assms(1) by (rule fresh_node_inv)
  note a = node_run_inv [OF assms(2) i]
  note b = node_run_inv [OF assms(3) conjunct1 [OF a]]
  have addr: "n_addr n' = n_addr n0" using a b by (simp add: settled_def)
  obtain j where j: "n_id n' = Some j" "cert_held k n' j" using b unfolding node_inv_def by blast
  have "fst (handleRoster k body whole now n' w) \<noteq> Inl Panic"
    using handleRoster_step [OF _ conjunct1 [OF b]] by (cases "handleRoster k body whole now n' w") simp
  moreover have "n_installed n' = Some raw \<and> (\<exists>c i. n_id n' = Some i \<and> id_cert i = Some (c, raw) \<and> ParseCert (k_ip k) raw = Inr c
      \<and> c_Identity c = id_pub i \<and> c_Addr c = n_addr n0)" if "n_installed n = Some raw" for raw
    using that b j addr by (auto simp: settled_def cert_held_def)
  moreover have "n_roster n' = Some raw \<and> n_installed n' \<noteq> None" if "n_roster n = Some raw" for raw
  proof -
    have r: "n_roster n' = Some raw" using that b by (simp add: settled_def)
    then show ?thesis using b by (auto simp: node_inv_def roster_held_def)
  qed
  ultimately show ?thesis by blast
qed

text \<open>A call sent again because its answer was lost is answered as before and changes nothing.\<close>

lemma handleCert_taken: "handleCert k body whole now n w = (204, n', w') \<Longrightarrow> n_installed n' = Some body"
  using node_sign_keeps
  by (fastforce simp: handleCert_def installCert_def readBody_def node_keeps_def split: sum.splits if_splits option.splits prod.splits)

lemma handleCert_again:
  assumes "handleCert k body whole now n w = (204, n', w')" "certStateOf n' now2 = certValid"
  shows "handleCert k body whole now2 n' w2 = (204, n', w2)"
proof -
  have "\<exists>c. ParseCert (k_ip k) body = Inr c" "readBody body whole = Inr body"
    using assms(1) by (auto simp: handleCert_def readBody_def split: sum.splits if_splits)
  then show ?thesis using handleCert_taken [OF assms(1)] assms(2) by (auto simp: handleCert_def)
qed

lemma handleRoster_again:
  assumes "handleRoster k body whole now n w = (Inr 204, n', w')"
  shows "handleRoster k body whole now2 n' w2 = (Inr 204, n', w2)"
proof -
  have "\<exists>r. ParseRoster (k_roster k) (k_ip k) body = Inr r" "readBody body whole = Inr body"
    using assms by (auto simp: handleRoster_def readBody_def split: sum.splits if_splits)
  moreover have "n_roster n' = Some body"
    using assms by (auto simp: handleRoster_def takeRoster_def setPeers_def readBody_def Let_def split: sum.splits if_splits option.splits prod.splits)
  ultimately show ?thesis by (auto simp: handleRoster_def)
qed

definition sampleStart :: node where
  "sampleStart = \<lparr>n_p = sampleSuite, n_name = ascii ''relay-1'', n_addr = ascii ''relay-1:9001'', n_id = Some sampleIdentity, n_unsigned = None,
     n_ttl = Hour, n_peerRetry = 0, n_peers = None, n_wake = Some False, n_out = None, n_notAfter = 0, n_requestAt = None, n_installed = None,
     n_installedAt = \<lparr>tm_wall = 0, tm_run = 0\<rparr>, n_roster = None, n_signedState = None, n_link = replicate 32 3, n_onion = None,
     n_descriptorRequests = 0, n_mirrorRequests = 0\<rparr>"

definition sampleAsked :: node where
  "sampleAsked = sampleStart\<lparr>n_requestAt := Some \<lparr>tm_wall = 0, tm_run = 0\<rparr>\<rparr>"

lemma sampleStart_fresh: "fresh_node sampleStart"
  by (simp add: fresh_node_def sampleStart_def) (simp add: sampleIdentity_def)

lemma sampleAsked_step: "node_step sampleCodecs sampleStart sampleAsked"
proof -
  obtain raw where "Identity_Request sampleIdentity (replicate pkiNonceSize 1) sampleReader = (Inr raw, sampleReader)" using sampleRequest_signed by blast
  then have "handleRequest (replicate pkiNonceSize 1) True \<lparr>tm_wall = 0, tm_run = 0\<rparr> sampleStart sampleReader = ((200, raw), sampleAsked, sampleReader)"
    by (simp add: handleRequest_def readBody_def maxAdminBody_def MaxRoster_def pkiNonceSize_def sampleStart_def sampleAsked_def)
  then show ?thesis by (rule node_step.csr)
qed

lemma sampleInstalled_step:
  "\<exists>n. node_step sampleCodecs sampleAsked n \<and> n_installed n = Some (Cert_Marshal sampleCert)"
proof -
  let ?now = "\<lparr>tm_wall = 10 * Second, tm_run = 10 * Second\<rparr>" and ?raw = "Cert_Marshal sampleCert"
  have p: "ParseCert (\<lambda>_. None) ?raw = Inr sampleCert" using sampleCert_wf by (simp add: cert.parse_iff)
  have size: "length ?raw \<le> maxAdminBody"
    by (simp add: Cert_Marshal_def Cert_body_def w_field_def w_header_def sampleCert_def sampleUnsigned_def SerialSize_def IDSize_def
        Anchor_ID_def ascii_def maxAdminBody_def MaxRoster_def)
  have f: "c_NotBefore sampleCert = 0" "c_NotAfter sampleCert = 1000" "c_Suite sampleCert = SuiteC25519" "c_Identity sampleCert = replicate 32 8"
    "c_Name sampleCert = ascii ''relay-1''" "c_Addr sampleCert = ascii ''relay-1:9001''"
    by (simp_all add: sampleCert_def sampleUnsigned_def)
  have "certWindow sampleCert (10 * Second) Skew = Inr ()"
    by (simp add: certWindow_def f unix_def Skew_def Minute_def Second_def Millisecond_def)
  then have i: "Install (\<lambda>_. None) ?raw (10 * Second) sampleIdentity = (Inr (), sampleIdentity\<lparr>id_cert := Some (sampleCert, ?raw), id_bundle := None\<rparr>)"
    by (intro Install_issued [OF sampleCert_wf]) (simp_all add: f sampleIdentity_def sample_sign)
  let ?m = "sampleAsked\<lparr>n_id := Some (sampleIdentity\<lparr>id_cert := Some (sampleCert, ?raw), id_bundle := None\<rparr>), n_requestAt := None, n_installed := Some ?raw,
      n_installedAt := ?now, n_notAfter := sint (c_NotAfter sampleCert)\<rparr>"
  obtain r n w where s: "node_sign sampleCodecs ?now ?m sampleReader = (r, n, w)" by (metis prod_cases3)
  have "installCert sampleCodecs ?raw sampleCert ?now sampleAsked sampleReader = (case r of Inl _ \<Rightarrow> 500 | Inr _ \<Rightarrow> 204, n, w)"
  proof -
    have "n_id sampleAsked = Some sampleIdentity" by (simp add: sampleAsked_def sampleStart_def)
    then show ?thesis using i s by (simp add: installCert_def sampleCodecs_def split: sum.splits)
  qed
  moreover have "handleCert sampleCodecs ?raw True ?now sampleAsked sampleReader = installCert sampleCodecs ?raw sampleCert ?now sampleAsked sampleReader"
    using p size by (simp add: handleCert_def readBody_def sampleCodecs_def sampleAsked_def sampleStart_def Time_Sub_def Time_Add_def Unix_def unix_def f
        InstallWindow_def Skew_def Minute_def Second_def Millisecond_def)
  ultimately have "node_step sampleCodecs sampleAsked n" by (intro node_step.cert) simp
  moreover have "n_installed n = Some ?raw" using node_sign_keeps [OF s] by (simp add: node_keeps_def)
  ultimately show ?thesis by blast
qed

theorem node_enrolls_once_witness:
  "\<exists>n. (node_step sampleCodecs)\<^sup>*\<^sup>* sampleStart n \<and> n_installed n = Some (Cert_Marshal sampleCert)
     \<and> fst (handleRoster sampleCodecs [] True \<lparr>tm_wall = 0, tm_run = 0\<rparr> n sampleReader) \<noteq> Inl Panic"
proof -
  obtain n where n: "node_step sampleCodecs sampleAsked n" "n_installed n = Some (Cert_Marshal sampleCert)" using sampleInstalled_step by blast
  have run: "(node_step sampleCodecs)\<^sup>*\<^sup>* sampleStart n" using sampleAsked_step n(1) by (meson converse_rtranclp_into_rtranclp r_into_rtranclp)
  from node_enrolls_once [OF sampleStart_fresh run rtranclp.rtrancl_refl, of "[]" True "\<lparr>tm_wall = 0, tm_run = 0\<rparr>" sampleReader]
  show ?thesis using run n(2) by blast
qed

end
