(* ===== verification/Rotation.thy ===== *)
theory Rotation
  imports NodeInv
begin

text \<open>
  The rotation of the onion key over any sequence of ticks of its timer (\<^verbatim>\<open>rotateIfDue\<close>), with
  whatever the provider and the memory do in between: a key that was published is held until the
  descriptors that name it have run out everywhere.
\<close>

section \<open>One tick\<close>

definition curPub :: "onionKeys \<Rightarrow> bytes option" where
  "curPub q = map_option ok_pub (rg_current (on_ring q))"

definition prevPub :: "onionKeys \<Rightarrow> bytes option" where
  "prevPub q = map_option ok_pub (rg_previous (on_ring q))"

text \<open>
  What a tick does to the keys, seen from outside: nothing; or the replaced key is released, its
  moment having come; and then, when none is held, the current key may be replaced.
\<close>

definition released_to :: "Time \<Rightarrow> onionKeys \<Rightarrow> onionKeys \<Rightarrow> bool" where
  "released_to now q q' \<longleftrightarrow> curPub q' = curPub q \<and> on_grace q' = on_grace q \<and> on_rotateAt q' = on_rotateAt q
     \<and> (prevPub q' = prevPub q \<and> on_retireAt q' = on_retireAt q
        \<or> prevPub q' = None \<and> on_retireAt q' = None \<and> (\<exists>d. on_retireAt q = Some d \<and> deadline_passed d now))"

definition replaced_to :: "Time \<Rightarrow> onionKeys \<Rightarrow> onionKeys \<Rightarrow> bool" where
  "replaced_to now q q' \<longleftrightarrow> on_grace q' = on_grace q \<and> deadline_passed (on_rotateAt q) now \<and> on_retireAt q = None
     \<and> prevPub q' = curPub q \<and> curPub q' \<noteq> None \<and> on_retireAt q' = Some (after now (on_grace q)) \<and> on_rotateAt q' = after now (on_every q')"

definition onion_tick :: "Time \<Rightarrow> onionKeys \<Rightarrow> onionKeys \<Rightarrow> bool" where
  "onion_tick now q q' \<longleftrightarrow> (\<exists>m. released_to now q m \<and> (released_to now m q' \<and> prevPub q' = prevPub m \<and> on_retireAt q' = on_retireAt m \<or> replaced_to now m q'))"

text \<open>The reserve of pages comes and goes without touching the keys.\<close>

definition same_keys :: "onionKeys \<Rightarrow> onionKeys \<Rightarrow> bool" where
  "same_keys q q' \<longleftrightarrow> on_ring q' = on_ring q \<and> on_grace q' = on_grace q \<and> on_every q' = on_every q \<and> on_rotateAt q' = on_rotateAt q
     \<and> on_retireAt q' = on_retireAt q \<and> on_closed q' = on_closed q"

lemma hold_letGo_keys:
  "hold_pages q w = (q', w') \<Longrightarrow> same_keys q q'" "letGo q w = (q', w') \<Longrightarrow> same_keys q q'"
  by (auto simp: hold_pages_def letGo_def same_keys_def split: if_splits)

lemma retireIfDue_keys: "retireIfDue now q w = (q', w') \<Longrightarrow> released_to now q q' \<and> on_every q' = on_every q \<and> on_closed q' = on_closed q"
  using hold_letGo_keys(1) [of "q\<lparr>on_ring := fst (Retire (on_ring q) w), on_retireAt := None\<rparr>" "snd (Retire (on_ring q) w)" q' w']
  by (auto simp: retireIfDue_def released_to_def curPub_def prevPub_def Retire_def same_keys_def Let_def split: if_splits option.splits prod.splits)

lemma Rotate_keys:
  assumes "Rotate p priv pub g w = (r, g', w')"
  shows "isl r \<and> g' = g \<or> (\<exists>cur k. rg_current g = Some cur \<and> rg_previous g' = Some cur \<and> rg_current g' = Some k \<and> \<not> isl r)"
  using assms by (auto simp: Rotate_def split: option.splits if_splits prod.splits sum.splits)

lemma node_rotate_keys:
  assumes "node_rotate p locked q w = (r, q', w')"
  shows "on_grace q' = on_grace q \<and> on_every q' = on_every q \<and> on_rotateAt q' = on_rotateAt q \<and> on_retireAt q' = on_retireAt q \<and> on_closed q' = on_closed q
    \<and> (if isl r then on_ring q' = on_ring q else prevPub q' = curPub q \<and> curPub q' \<noteq> None)"
proof -
  obtain q1 w1 where l: "letGo q w = (q1, w1)" by force
  obtain r2 q2 w2 where k: "rotateKey p locked q1 w1 = (r2, q2, w2)" by (metis prod_cases3)
  have b1: "same_keys q q1" using hold_letGo_keys(2) [OF l] .
  have h: "hold_pages q2 w2 = (q', w')" "r2 = r" using assms l k by (auto simp: node_rotate_def split: prod.splits)
  have b2: "same_keys q2 q'" using hold_letGo_keys(1) [OF h(1)] .
  have g: "isl x \<and> g' = on_ring q1 \<or> (\<exists>cur kk. rg_current (on_ring q1) = Some cur \<and> rg_previous g' = Some cur \<and> rg_current g' = Some kk \<and> \<not> isl x)"
    if "Rotate p (Some priv) pub (on_ring q1) w = (x, g', w')" for priv pub w x g' w'
    using Rotate_keys [OF that] .
  have "on_grace q2 = on_grace q1 \<and> on_every q2 = on_every q1 \<and> on_rotateAt q2 = on_rotateAt q1 \<and> on_retireAt q2 = on_retireAt q1 \<and> on_closed q2 = on_closed q1
      \<and> (if isl r then on_ring q2 = on_ring q1 else prevPub q2 = curPub q1 \<and> curPub q2 \<noteq> None)"
    using k h(2) g by (fastforce simp: rotateKey_def curPub_def prevPub_def split: prod.splits sum.splits if_splits)
  then show ?thesis using b1 b2 by (cases "isl r") (simp_all add: same_keys_def curPub_def prevPub_def)
qed

lemma released_refl: "released_to now q q"
  by (simp add: released_to_def)

lemma rotateIfDue_onion:
  assumes "rotateIfDue k locked now n w = (n', w')" "n_onion n = Some q"
  shows "\<exists>q'. n_onion n' = Some q' \<and> on_closed q' = on_closed q \<and> onion_tick now q q'"
proof (cases "on_closed q")
  case True
  then show ?thesis using assms released_refl by (auto simp: rotateIfDue_def onion_tick_def)
next
  case False
  obtain q1 w1 where q1: "retireIfDue now q w = (q1, w1)" by force
  note rel = retireIfDue_keys [OF q1]
  show ?thesis
  proof (cases "\<not> deadline_passed (on_rotateAt q1) now \<or> on_retireAt q1 \<noteq> None")
    case True
    then have "n_onion n' = Some q1" using assms False q1 by (auto simp: rotateIfDue_def)
    then show ?thesis using rel released_refl unfolding onion_tick_def by blast
  next
    case due: False
    obtain r q2 w2 where q2: "node_rotate (n_p n) locked q1 w1 = (r, q2, w2)" by (metis prod_cases3)
    note rot = node_rotate_keys [OF q2]
    show ?thesis
    proof (cases r)
      case (Inl e)
      let ?q = "q2\<lparr>on_failures := on_failures q2 + 1, on_failed := Some e\<rparr>"
      have "n_onion n' = Some ?q" using assms False q1 q2 due Inl by (auto simp: rotateIfDue_def)
      moreover have "released_to now q1 ?q \<and> prevPub ?q = prevPub q1 \<and> on_retireAt ?q = on_retireAt q1"
        using rot Inl by (simp add: released_to_def curPub_def prevPub_def)
      ultimately show ?thesis using rel rot unfolding onion_tick_def by (intro exI [of _ ?q]) auto
    next
      case (Inr epoch)
      let ?q = "q2\<lparr>on_failed := None, on_rotateAt := after now (on_every q2), on_retireAt := Some (after now (on_grace q2))\<rparr>"
      obtain x w3 where "publishOnion k now (n\<lparr>n_onion := Some ?q\<rparr>) w2 = (x, n', w3)"
        using assms False q1 q2 due Inr by (auto simp: rotateIfDue_def split: prod.splits)
      then have "n_onion n' = Some ?q" using publishOnion_keeps by fastforce
      moreover have "replaced_to now q1 ?q"
        using rot Inr due by (simp add: replaced_to_def curPub_def prevPub_def)
      ultimately show ?thesis using rel rot unfolding onion_tick_def by (intro exI [of _ ?q]) auto
    qed
  qed
qed

section \<open>Any number of ticks\<close>

definition onionOf :: "node \<Rightarrow> onionKeys" where
  "onionOf n = the (n_onion n)"

text \<open>
  The ticks of the timer, at the times listed, with anything in between that leaves the keys and
  their moments alone: setups that are opened, signings, requests.
\<close>

inductive node_ticks :: "codecs \<Rightarrow> node \<Rightarrow> Time list \<Rightarrow> node \<Rightarrow> bool" for k where
  stay: "n_onion n \<noteq> None \<Longrightarrow> node_ticks k n [] n"
| tick: "n_onion n \<noteq> None \<Longrightarrow> rotateIfDue k locked now n w = (m, w') \<Longrightarrow> node_ticks k m ts n' \<Longrightarrow> node_ticks k n (now # ts) n'"
| other: "n_onion n = Some q \<Longrightarrow> n_onion m = Some q' \<Longrightarrow> curPub q' = curPub q \<Longrightarrow> prevPub q' = prevPub q \<Longrightarrow> on_retireAt q' = on_retireAt q \<Longrightarrow>
     on_grace q' = on_grace q \<Longrightarrow> node_ticks k m ts n' \<Longrightarrow> node_ticks k n ts n'"

definition retire_inv :: "onionKeys \<Rightarrow> bool" where
  "retire_inv q \<longleftrightarrow> (on_retireAt q = None \<longrightarrow> prevPub q = None)"

definition key_held :: "onionKeys \<Rightarrow> bytes \<Rightarrow> bool" where
  "key_held q pub \<longleftrightarrow> curPub q = Some pub \<or> prevPub q = Some pub"

lemma tick_inv: "onion_tick now q q' \<Longrightarrow> retire_inv q \<Longrightarrow> retire_inv q' \<and> on_grace q' = on_grace q"
  by (auto simp: onion_tick_def released_to_def replaced_to_def retire_inv_def)

text \<open>A replaced key stays until its moment has come.\<close>

lemma tick_prev:
  assumes "onion_tick now q q'" "retire_inv q" "prevPub q = Some pub" "on_retireAt q = Some d"
  shows "prevPub q' = Some pub \<and> on_retireAt q' = Some d \<or> deadline_passed d now"
  using assms by (auto simp: onion_tick_def released_to_def replaced_to_def retire_inv_def)

text \<open>The current key stays current or becomes the replaced one, to be kept for the whole grace.\<close>

lemma tick_cur:
  assumes "onion_tick now q q'" "curPub q = Some pub"
  shows "curPub q' = Some pub \<or> prevPub q' = Some pub \<and> on_retireAt q' = Some (after now (on_grace q))"
  using assms by (auto simp: onion_tick_def released_to_def replaced_to_def)

lemma ticks_prev:
  "node_ticks k n ts n' \<Longrightarrow> retire_inv (onionOf n) \<Longrightarrow> prevPub (onionOf n) = Some pub \<Longrightarrow> on_retireAt (onionOf n) = Some d \<Longrightarrow>
     \<not> key_held (onionOf n') pub \<Longrightarrow> \<exists>u \<in> set ts. deadline_passed d u"
proof (induction rule: node_ticks.induct)
  case (tick n locked now w m w' ts n')
  obtain q q' where q: "n_onion n = Some q" "n_onion m = Some q'" "onion_tick now q q'"
    using rotateIfDue_onion [OF tick.hyps(2)] tick.hyps(1) by blast
  show ?case
    using tick_prev [OF q(3)] tick_inv [OF q(3)] tick.IH tick.prems q(1,2) by (auto simp: onionOf_def)
next
  case (other n q m q' ts n')
  then show ?case by (simp add: onionOf_def retire_inv_def)
qed (simp add: key_held_def)

definition replaced_at :: "codecs \<Rightarrow> bytes \<Rightarrow> node \<Rightarrow> Time list \<Rightarrow> Time \<Rightarrow> bool" where
  "replaced_at k pub n xs t \<longleftrightarrow>
     (\<exists>a b. node_ticks k n xs a \<and> curPub (onionOf a) = Some pub \<and> node_ticks k a [t] b \<and> prevPub (onionOf b) = Some pub)"

lemma ticks_cur:
  "node_ticks k n ts n' \<Longrightarrow> retire_inv (onionOf n) \<Longrightarrow> curPub (onionOf n) = Some pub \<Longrightarrow> \<not> key_held (onionOf n') pub \<Longrightarrow>
     \<exists>xs t ys. ts = xs @ t # ys \<and> replaced_at k pub n xs t \<and> (\<exists>u \<in> set ys. deadline_passed (after t (on_grace (onionOf n))) u)"
proof (induction rule: node_ticks.induct)
  case (stay n)
  then show ?case by (simp add: key_held_def)
next
  case (tick n locked now w m w' ts n')
  obtain q q' where q: "n_onion n = Some q" "n_onion m = Some q'" "onion_tick now q q'"
    using rotateIfDue_onion [OF tick.hyps(2)] tick.hyps(1) by blast
  have inv: "retire_inv (onionOf m)" "on_grace (onionOf m) = on_grace (onionOf n)"
    using tick_inv [OF q(3)] tick.prems(1) q(1,2) by (simp_all add: onionOf_def)
  have one: "node_ticks k n [now] m" using node_ticks.tick [OF tick.hyps(1,2) node_ticks.stay] q(2) by simp
  consider "curPub (onionOf m) = Some pub" | "prevPub (onionOf m) = Some pub" "on_retireAt (onionOf m) = Some (after now (on_grace (onionOf n)))"
    using tick_cur [OF q(3)] tick.prems(2) q(1,2) by (auto simp: onionOf_def)
  then show ?case
  proof cases
    case 1
    obtain xs t ys where i: "ts = xs @ t # ys" "replaced_at k pub m xs t" "\<exists>u \<in> set ys. deadline_passed (after t (on_grace (onionOf n))) u"
      using tick.IH [OF inv(1) 1 tick.prems(3)] inv(2) by auto
    have "replaced_at k pub n (now # xs) t"
      using i(2) node_ticks.tick [OF tick.hyps(1,2)] unfolding replaced_at_def by blast
    then show ?thesis using i(1,3) by (intro exI [of _ "now # xs"] exI [of _ t] exI [of _ ys]) simp
  next
    case 2
    have "replaced_at k pub n [] now" unfolding replaced_at_def using one 2(1) tick.prems(2) node_ticks.stay [OF tick.hyps(1)] by blast
    then show ?thesis using ticks_prev [OF tick.hyps(3) inv(1) 2 tick.prems(3)] by blast
  qed
next
  case (other n q m q' ts n')
  obtain xs t ys where i: "ts = xs @ t # ys" "replaced_at k pub m xs t" "\<exists>u \<in> set ys. deadline_passed (after t (on_grace q)) u"
    using other by (auto simp: onionOf_def retire_inv_def)
  have "replaced_at k pub n xs t" using i(2) node_ticks.other [OF other.hyps(1-6)] unfolding replaced_at_def by blast
  then show ?case using i(1,3) other.hyps(1) by (auto simp: onionOf_def)
qed


section \<open>A rotation that runs\<close>

definition sampleOnion :: onionKeys where
  "sampleOnion = \<lparr>on_ring = staticRing (replicate 32 4) (replicate 32 4) 8, on_every = 10 * Hour, on_grace = Hour + Skew, on_lock = False,
     on_rotateAt = \<lparr>tm_wall = 10 * Hour, tm_run = 10 * Hour\<rparr>, on_retireAt = None, on_reserve = False, on_closed = False, on_failed = None, on_failures = 0\<rparr>"

definition sampleTurning :: node where
  "sampleTurning = sampleStart\<lparr>n_onion := Some sampleOnion\<rparr>"

definition tickAt :: "int \<Rightarrow> Time" where
  "tickAt t = \<lparr>tm_wall = t, tm_run = t\<rparr>"

lemma sample_pair_any:
  assumes "length key = 32" "live w + 3 \<le> limit w" "32 \<le> length (rnd w)"
  shows "checkKeyPair sampleSuite key key m w = (Inr (), w\<lparr>rnd := drop 32 (rnd w)\<rparr>)"
proof -
  let ?e = "take 32 (rnd w)" and ?w = "w\<lparr>rnd := drop 32 (rnd w)\<rparr>"
  have eph: "GenerateEphemeral sampleSuite w = (Inr (?e, ?e), allocate ?w)"
    using assms by (simp add: GenerateEphemeral_def sampleSuite_def sampleEphemeral_def readFull_def)
  have "validName exchangeKeyCheck" by code_simp
  then obtain ctx where ctx: "newContext sampleSuite exchangeKeyCheck [key, ?e] = Inr ctx"
    using assms by (simp add: newContext_def NewContext_def TranscriptBytes_def badPart_def maxParts_def maxPartSize_def
        knownSuite_def sampleSuite_def ContextSize_def)
  have agree: "pAgree sampleSuite a b ctx = Inr (samplePublic a b)" for a b by (simp add: sampleSuite_def)
  show ?thesis
    using eph ctx samplePublic_comm [of ?e key] assms by (simp add: checkKeyPair_def Agree_def agree newBuffer_def)
qed

lemma sampleRotate:
  "\<exists>q w. node_rotate sampleSuite True sampleOnion sampleNode = (Inr 1, q, w) \<and> curPub q = Some (replicate 32 7) \<and> prevPub q = Some (replicate 32 4)
     \<and> on_every q = 10 * Hour \<and> on_grace q = Hour + Skew \<and> \<not> on_closed q"
proof -
  let ?w = "allocate (sampleNode\<lparr>rnd := replicate 3968 7\<rparr>)"
  have eph: "GenerateEphemeral sampleSuite sampleNode = (Inr (replicate 32 7, replicate 32 7), ?w)"
    by (simp add: GenerateEphemeral_def sampleSuite_def sampleEphemeral_def readFull_def sampleNode_def)
  have check: "checkKeyPair sampleSuite (replicate 32 7) (replicate 32 7) m ?w = (Inr (), ?w\<lparr>rnd := drop 32 (rnd ?w)\<rparr>)" for m
    by (rule sample_pair_any) (simp_all add: sampleNode_def)
  have ne: "(replicate 32 7 :: bytes) \<noteq> replicate 32 4" by (simp add: replicate_eq_replicate)
  have "\<exists>g w'. Rotate sampleSuite (Some (replicate 32 7)) (replicate 32 7) (staticRing (replicate 32 4) (replicate 32 4) 8) ?w = (Inr 1, g, w')
      \<and> map_option ok_pub (rg_current g) = Some (replicate 32 7) \<and> map_option ok_pub (rg_previous g) = Some (replicate 32 4)"
    using check ne by (simp add: Rotate_def staticRing_def freshKey_def)
  then obtain g w' where g: "Rotate sampleSuite (Some (replicate 32 7)) (replicate 32 7) (staticRing (replicate 32 4) (replicate 32 4) 8) ?w = (Inr 1, g, w')"
    "map_option ok_pub (rg_current g) = Some (replicate 32 7)" "map_option ok_pub (rg_previous g) = Some (replicate 32 4)" by blast
  have "rotateKey sampleSuite True sampleOnion sampleNode = (Inr 1, sampleOnion\<lparr>on_ring := g\<rparr>, w')"
    using eph g(1) by (simp add: rotateKey_def sampleOnion_def)
  then show ?thesis
    using g(2,3) by (cases "live w' < limit w'") (simp_all add: node_rotate_def letGo_def hold_pages_def sampleOnion_def curPub_def prevPub_def)
qed

lemma sampleTurn:
  "\<exists>n w. rotateIfDue sampleCodecs True (tickAt (11 * Hour)) sampleTurning sampleNode = (n, w) \<and> n_onion n \<noteq> None \<and> curPub (onionOf n) = Some (replicate 32 7)
     \<and> prevPub (onionOf n) = Some (replicate 32 4) \<and> on_retireAt (onionOf n) = Some (tickAt (12 * Hour + Skew)) \<and> on_rotateAt (onionOf n) = tickAt (21 * Hour)
     \<and> \<not> on_closed (onionOf n)"
proof -
  obtain q w where q: "node_rotate sampleSuite True sampleOnion sampleNode = (Inr 1, q, w)" "curPub q = Some (replicate 32 7)" "prevPub q = Some (replicate 32 4)"
    "on_every q = 10 * Hour" "on_grace q = Hour + Skew" "\<not> on_closed q" using sampleRotate by blast
  have s: "n_onion sampleTurning = Some sampleOnion" "n_p sampleTurning = sampleSuite" "n_id sampleTurning = Some sampleIdentity" "n_notAfter sampleTurning = 0"
    by (simp_all add: sampleTurning_def sampleStart_def)
  have o: "\<not> on_closed sampleOnion" "on_retireAt sampleOnion = None" "on_rotateAt sampleOnion = tickAt (10 * Hour)" by (simp_all add: sampleOnion_def tickAt_def)
  have r: "retireIfDue (tickAt (11 * Hour)) sampleOnion sampleNode = (sampleOnion, sampleNode)" by (simp add: retireIfDue_def o)
  have due: "deadline_passed (tickAt (10 * Hour)) (tickAt (11 * Hour))" by (simp add: deadline_passed_def tickAt_def Hour_def Minute_def Second_def Millisecond_def)
  let ?q = "q\<lparr>on_failed := None, on_rotateAt := after (tickAt (11 * Hour)) (on_every q), on_retireAt := Some (after (tickAt (11 * Hour)) (on_grace q))\<rparr>"
  have "rotateIfDue sampleCodecs True (tickAt (11 * Hour)) sampleTurning sampleNode = (sampleTurning\<lparr>n_onion := Some ?q\<rparr>, w)"
    using q(1) r due by (simp add: rotateIfDue_def s o publishOnion_def certStateOf_def)
  then show ?thesis using q(2-6) by (simp add: onionOf_def curPub_def prevPub_def after_def Time_Add_def tickAt_def)
qed


end
