(* ===== verification/Enroll.thy ===== *)
theory Enroll
  imports Fetch "HOL-Library.Sublist"
begin

text \<open>
  \<^verbatim>\<open>cmd/jimichi/enroll.go\<close>: the enrollment of a set of relays under a fresh authority. The relays and
  the network are an argument: what each attempt at a call is answered, which may depend on all the
  calls before it; the calls made are kept as a log. What the source writes to its own log at the end
  of a failed run, the relays left holding something, is a value here. Flags, the HTTP client, the
  restart hints and the protection of the key memory are not modelled.
\<close>

section \<open>The roster of the command line\<close>

record rosterEntry =
  e_name :: bytes
  e_addr :: bytes
  e_admin :: bytes
  e_info :: bytes
  e_identity :: bytes

text \<open>\<^verbatim>\<open>strings.Cut\<close> at the first equals sign.\<close>

definition cutEq :: "bytes \<Rightarrow> (bytes \<times> bytes) option" where
  "cutEq s = (let d = byte_of (CHR ''='') in
     if d \<in> set s then Some (takeWhile (\<lambda>c. c \<noteq> d) s, tl (dropWhile (\<lambda>c. c \<noteq> d) s)) else None)"

fun parseParts :: "bytes list \<Rightarrow> rosterEntry \<Rightarrow> rosterEntry result" where
  "parseParts [] e = Inr e"
| "parseParts (kv # kvs) e =
     (case cutEq kv of
        None \<Rightarrow> Inl (Message ''unknown or repeated part'')
      | Some (k, v) \<Rightarrow>
          if k = ascii ''admin'' \<and> e_admin e = [] then parseParts kvs (e\<lparr>e_admin := v\<rparr>)
          else if k = ascii ''info'' \<and> e_info e = [] then parseParts kvs (e\<lparr>e_info := v\<rparr>)
          else if k = ascii ''identity'' \<and> e_identity e = [] then parseParts kvs (e\<lparr>e_identity := v\<rparr>)
          else Inl (Message ''unknown or repeated part''))"

definition validKeyHash :: "bytes \<Rightarrow> bool" where
  "validKeyHash s \<longleftrightarrow> length s = 2 * HashSize \<and>
     list_all (\<lambda>c. \<not> ((c < byte_of (CHR ''0'') \<or> c > byte_of (CHR ''9'')) \<and> (c < byte_of (CHR ''a'') \<or> c > byte_of (CHR ''f'')))) s"

definition parseNode :: "(bytes \<Rightarrow> (bytes \<times> bytes) option) \<Rightarrow> bytes \<Rightarrow> rosterEntry result" where
  "parseNode ip s =
     (let parts = splitOn (byte_of (CHR '','')) s in
      case cutEq (hd parts) of
        None \<Rightarrow> Inl (Message ''want name=host:port'')
      | Some (name, addr) \<Rightarrow>
          (case parseParts (tl parts) \<lparr>e_name = name, e_addr = addr, e_admin = [], e_info = [], e_identity = []\<rparr> of
             Inl err \<Rightarrow> Inl err
           | Inr e \<Rightarrow>
               if \<not> ValidName (e_name e) then Inl (Message ''name'')
               else if \<not> ValidAddr ip (e_addr e) then Inl (Message ''address'')
               else if SplitHostPort (e_admin e) = None \<or> e_admin e = [] then Inl (Message ''admin wants host:port'')
               else if SplitHostPort (e_info e) = None \<or> e_info e = [] then Inl (Message ''info wants host:port'')
               else if \<not> validKeyHash (e_identity e) then Inl (Message ''identity'')
               else Inr e))"

definition entryKeys :: "rosterEntry \<Rightarrow> bytes list" where
  "entryKeys n = [ascii ''name '' @ e_name n, ascii ''address '' @ e_addr n, ascii ''endpoint '' @ e_admin n, ascii ''endpoint '' @ e_info n,
     ascii ''identity '' @ e_identity n]"

fun seenTwice :: "bytes list \<Rightarrow> bytes list \<Rightarrow> bool" where
  "seenTwice [] seen = False"
| "seenTwice (v # vs) seen = (v \<in> set seen \<or> seenTwice vs (v # seen))"

definition checkRoster :: "rosterEntry list \<Rightarrow> unit result" where
  "checkRoster nodes =
     (if nodes = [] then Inl (Message ''no -node given'')
      else if seenTwice (concat (map entryKeys nodes)) [] then Inl (Message ''repeated in the roster'') else Inr ())"

section \<open>Calls\<close>

datatype callKind = PostCsr bytes | PutCert bytes | GetDescriptor | PutRoster bytes

type_synonym call = "bytes \<times> callKind"

datatype callError = Refused int bytes | Unsure error

definition maxAnswer :: nat where "maxAnswer = 16 * 1024"

text \<open>
  \<^verbatim>\<open>call\<close>: the answers of the attempts until the deadline. A failed connection is tried again while
  there is time, an answer never.
\<close>

fun callLoop :: "int \<Rightarrow> httpAnswer list \<Rightarrow> callError + bytes" where
  "callLoop want [] = Inl (Unsure ErrDeadline)"
| "callLoop want (a # as) =
     (case a of
        NoAnswer e \<Rightarrow> if as = [] then Inl (Unsure e) else callLoop want as
      | Answer code body whole \<Rightarrow>
          let out = take (maxAnswer + 1) body in
          if length body \<le> maxAnswer \<and> \<not> whole then Inl (Unsure ErrEOF)
          else if length out > maxAnswer then Inl (Unsure (Message ''answer over the limit''))
          else if code \<noteq> want then Inl (Refused code out)
          else Inr out)"

definition wanted :: "callKind \<Rightarrow> int" where
  "wanted m = (case m of PostCsr _ \<Rightarrow> 200 | PutCert _ \<Rightarrow> 204 | GetDescriptor \<Rightarrow> 200 | PutRoster _ \<Rightarrow> 204)"

type_synonym network = "call list \<Rightarrow> call \<Rightarrow> httpAnswer list"

definition enroll_call :: "network \<Rightarrow> bytes \<Rightarrow> callKind \<Rightarrow> call list \<Rightarrow> (callError + bytes) \<times> call list" where
  "enroll_call net host m log = (callLoop (wanted m) (net log (host, m)), log @ [(host, m)])"

definition alreadyInstalled :: "callError \<Rightarrow> bool" where
  "alreadyInstalled err = (case err of Refused code text \<Rightarrow> code = 409 \<and> sublist (ascii ''already installed'') text | Unsure _ \<Rightarrow> False)"

definition ambiguous :: "callError \<Rightarrow> bool" where
  "ambiguous err = (case err of Refused code _ \<Rightarrow> code \<ge> 500 | Unsure _ \<Rightarrow> True)"

definition callFailed :: "callError \<Rightarrow> error" where
  "callFailed err = (case err of Refused code _ \<Rightarrow> Message ''status'' | Unsure e \<Rightarrow> e)"

section \<open>The run\<close>

record enrollment =
  en_p :: provider
  en_nodes :: "rosterEntry list"
  en_certTTL :: int

text \<open>The first loop: one checked request per relay, signed by the key its log named.\<close>

definition requestFor :: "(bytes \<Rightarrow> (bytes \<times> bytes) option) \<Rightarrow> provider \<Rightarrow> network \<Rightarrow> rosterEntry \<Rightarrow> call list \<Rightarrow> world \<Rightarrow> Request result \<times> call list \<times> world" where
  "requestFor ip p net n log w =
     (case readFull pkiNonceSize w of
        (Inl e, w) \<Rightarrow> (Inl e, log, w)
      | (Inr nonce, w) \<Rightarrow>
          (case enroll_call net (e_admin n) (PostCsr nonce) log of
             (Inl err, log) \<Rightarrow> (Inl (Errorf (Message ''certificate request'') (callFailed err)), log, w)
           | (Inr raw, log) \<Rightarrow>
               (case ParseRequest ip raw of
                  Inl e \<Rightarrow> (Inl e, log, w)
                | Inr r \<Rightarrow>
                    (case Request_Check p nonce (e_name n) (e_addr n) r of
                       Inl e \<Rightarrow> (Inl e, log, w)
                     | Inr _ \<Rightarrow>
                         if ascii (KeyHash p (q_Identity r)) \<noteq> e_identity n then (Inl (Message ''identity pin''), log, w) else (Inr r, log, w)))))"

fun requests :: "(bytes \<Rightarrow> (bytes \<times> bytes) option) \<Rightarrow> provider \<Rightarrow> network \<Rightarrow> rosterEntry list \<Rightarrow> call list \<Rightarrow> world \<Rightarrow> Request list result \<times> call list \<times> world" where
  "requests ip p net [] log w = (Inr [], log, w)"
| "requests ip p net (n # ns) log w =
     (case requestFor ip p net n log w of
        (Inl e, log, w) \<Rightarrow> (Inl e, log, w)
      | (Inr r, log, w) \<Rightarrow>
          (case requests ip p net ns log w of
             (Inl e, log, w) \<Rightarrow> (Inl e, log, w)
           | (Inr rs, log, w) \<Rightarrow> (Inr (r # rs), log, w)))"

definition enroll_roster :: "rosterJson \<Rightarrow> rosterEntry list \<Rightarrow> Anchor \<Rightarrow> bytes" where
  "enroll_roster rj nodes anchor =
     Roster_Marshal rj \<lparr>ro_Anchor = anchor, ro_Nodes = map (\<lambda>n. \<lparr>rn_Name = e_name n, rn_Addr = e_addr n\<rparr>) nodes\<rparr>"

fun issueAll :: "(bytes \<Rightarrow> (bytes \<times> bytes) option) \<Rightarrow> CA \<Rightarrow> int \<Rightarrow> int \<Rightarrow> Request list \<Rightarrow> world \<Rightarrow> Cert list result \<times> world" where
  "issueAll ip ca nb na [] w = (Inr [], w)"
| "issueAll ip ca nb na (r # rs) w =
     (case Issue ip ca r nb na w of
        (Inl e, w) \<Rightarrow> (Inl (Errorf (Message ''issuing'') e), w)
      | (Inr c, w) \<Rightarrow>
          (case issueAll ip ca nb na rs w of
             (Inl e, w) \<Rightarrow> (Inl e, w)
           | (Inr cs, w) \<Rightarrow> (Inr (c # cs), w)))"

text \<open>
  The two loops that hand something to each relay, certificates and then the roster: who took it,
  who may have, and the log.
\<close>

fun handOut :: "network \<Rightarrow> (rosterEntry \<times> callKind) list \<Rightarrow> call list \<Rightarrow> unit result \<times> bytes list \<times> bytes list \<times> call list" where
  "handOut net [] log = (Inr (), [], [], log)"
| "handOut net ((n, m) # ns) log =
     (case enroll_call net (e_admin n) m log of
        (Inr _, log) \<Rightarrow> (case handOut net ns log of (r, hold, may, log) \<Rightarrow> (r, e_name n # hold, may, log))
      | (Inl err, log) \<Rightarrow>
          (Inl (Errorf (Message ''installing'') (callFailed err)), [],
           (if (case m of PutCert _ \<Rightarrow> \<not> alreadyInstalled err | _ \<Rightarrow> True) \<and> ambiguous err then [e_name n] else []), log))"

fun fetchAll :: "network \<Rightarrow> rosterEntry list \<Rightarrow> call list \<Rightarrow> bytes list result \<times> call list" where
  "fetchAll net [] log = (Inr [], log)"
| "fetchAll net (n # ns) log =
     (case enroll_call net (e_info n) GetDescriptor log of
        (Inl err, log) \<Rightarrow> (Inl (Errorf (Message ''descriptor'') (callFailed err)), log)
      | (Inr b, log) \<Rightarrow>
          (case fetchAll net ns log of
             (Inl e, log) \<Rightarrow> (Inl e, log)
           | (Inr bs, log) \<Rightarrow> (Inr (b # bs), log)))"

record report =
  rp_installed :: "bytes list"
  rp_mayHold :: "bytes list"
  rp_rostered :: "bytes list"
  rp_mayRoster :: "bytes list"

definition noReport :: report where
  "noReport = \<lparr>rp_installed = [], rp_mayHold = [], rp_rostered = [], rp_mayRoster = []\<rparr>"

text \<open>The run once every certificate is issued: hand them out, check what the relays serve, hand out the roster.\<close>

definition install_and_check ::
  "rosterJson \<Rightarrow> json \<Rightarrow> (bytes \<Rightarrow> (bytes \<times> bytes) option) \<Rightarrow> network \<Rightarrow> enrollment \<Rightarrow> Anchor \<Rightarrow> Cert list \<Rightarrow> int \<Rightarrow> call list \<Rightarrow> world
     \<Rightarrow> Anchor result \<times> report \<times> call list \<times> world" where
  "install_and_check rj js ip net e anchor certs later log w =
     (case handOut net (zip (en_nodes e) (map (\<lambda>c. PutCert (Cert_Marshal c)) certs)) log of
        (Inl err, hold, may, log) \<Rightarrow> (Inl err, noReport\<lparr>rp_installed := hold, rp_mayHold := may\<rparr>, log, w)
      | (Inr _, hold, may, log) \<Rightarrow>
          let rep = noReport\<lparr>rp_installed := hold, rp_mayHold := may\<rparr> in
          (case fetchAll net (en_nodes e) log of
             (Inl err, log) \<Rightarrow> (Inl err, rep, log, w)
           | (Inr bundles, log) \<Rightarrow>
               (case VerifyChain js ip (en_p e) \<lparr>po_Anchor = anchor, po_Skew = Skew, po_MaxLife = 0\<rparr> (map e_addr (en_nodes e)) bundles later w of
                  (Inl err, w) \<Rightarrow> (Inl err, rep, log, w)
                | (Inr _, w) \<Rightarrow>
                    (case handOut net (map (\<lambda>n. (n, PutRoster (enroll_roster rj (en_nodes e) anchor))) (en_nodes e)) log of
                       (r, hold, may, log) \<Rightarrow>
                         ((case r of Inl err \<Rightarrow> Inl err | Inr _ \<Rightarrow> Inr anchor), rep\<lparr>rp_rostered := hold, rp_mayRoster := may\<rparr>, log, w)))))"

definition enroll_run ::
  "rosterJson \<Rightarrow> json \<Rightarrow> (bytes \<Rightarrow> (bytes \<times> bytes) option) \<Rightarrow> network \<Rightarrow> enrollment \<Rightarrow> int \<Rightarrow> int \<Rightarrow> world
     \<Rightarrow> Anchor result \<times> report \<times> call list \<times> world" where
  "enroll_run rj js ip net e now later w =
     (case requests ip (en_p e) net (en_nodes e) [] w of
        (Inl err, log, w) \<Rightarrow> (Inl err, noReport, log, w)
      | (Inr reqs, log, w) \<Rightarrow>
          if \<not> distinct (map q_Identity reqs) then (Inl ErrDuplicateNode, noReport, log, w)
          else if reqs = [] then (Inl Panic, noReport, log, w)
          else if length (enroll_roster rj (en_nodes e) \<lparr>an_Suite = pSuite (en_p e), an_Pub = replicate (length (q_Identity (hd reqs))) 0\<rparr>) > MaxRoster
          then (Inl (Message ''roster too long''), noReport, log, w)
          else
            (case NewCA (en_p e) w of
               (Inl err, w) \<Rightarrow> (Inl err, noReport, log, w)
             | (Inr ca, w) \<Rightarrow>
                 (case issueAll ip ca now (now + en_certTTL e) reqs w of
                    (Inl err, w) \<Rightarrow> (Inl err, noReport, log, snd (CA_Close ca w))
                  | (Inr certs, w) \<Rightarrow> install_and_check rj js ip net e (ca_anchor ca) certs later log (snd (CA_Close ca w)))))"

section \<open>Every relay that may hold something is named\<close>

text \<open>A call that was answered as wanted, or in a way that leaves open what the relay did.\<close>

definition mayHold :: "network \<Rightarrow> call list \<Rightarrow> call \<Rightarrow> bool" where
  "mayHold net log c \<longleftrightarrow> (case callLoop (wanted (snd c)) (net log c) of Inr _ \<Rightarrow> True | Inl err \<Rightarrow> ambiguous err)"

lemma alreadyInstalled_sure: "alreadyInstalled err \<Longrightarrow> \<not> ambiguous err"
  by (auto simp: alreadyInstalled_def ambiguous_def split: callError.splits)

definition handed :: "network \<Rightarrow> (rosterEntry \<times> callKind) list \<Rightarrow> call list \<Rightarrow> call list \<Rightarrow> bytes set \<Rightarrow> bool" where
  "handed net ns log ext named \<longleftrightarrow> length ext \<le> length ns \<and>
     (\<forall>i < length ext. ext ! i = (e_admin (fst (ns ! i)), snd (ns ! i)) \<and> (mayHold net (log @ take i ext) (ext ! i) \<longrightarrow> e_name (fst (ns ! i)) \<in> named))"

lemma handOut_handed:
  "handOut net ns log = (r, hold, may, log') \<Longrightarrow>
     \<exists>ext. log' = log @ ext \<and> handed net ns log ext (set hold \<union> set may) \<and> (r = Inr () \<longrightarrow> length ext = length ns \<and> hold = map (e_name \<circ> fst) ns \<and> may = [])"
proof (induction ns arbitrary: log r hold may)
  case Nil
  then show ?case by (auto simp: handed_def)
next
  case (Cons p ns)
  obtain n m where p: "p = (n, m)" by force
  let ?c = "(e_admin n, m)"
  obtain a where a: "enroll_call net (e_admin n) m log = (a, log @ [?c])" "a = callLoop (wanted m) (net log ?c)" by (simp add: enroll_call_def)
  show ?case
  proof (cases a)
    case (Inl err)
    have "r \<noteq> Inr ()" "hold = []" "log' = log @ [?c]" "ambiguous err \<longrightarrow> may = [e_name n]"
      using Cons.prems a(1) Inl alreadyInstalled_sure [of err] unfolding p by (auto split: callKind.splits if_splits)
    moreover have "mayHold net log ?c = ambiguous err" using a(2) [symmetric] Inl by (simp add: mayHold_def)
    ultimately show ?thesis unfolding p by (intro exI [of _ "[?c]"]) (auto simp: handed_def)
  next
    case (Inr out)
    obtain hold' where h: "handOut net ns (log @ [?c]) = (r, hold', may, log')" "hold = e_name n # hold'"
      using Cons.prems a(1) Inr unfolding p by (auto split: prod.splits)
    obtain ext where e: "log' = (log @ [?c]) @ ext" "handed net ns (log @ [?c]) ext (set hold' \<union> set may)"
      "r = Inr () \<longrightarrow> length ext = length ns \<and> hold' = map (e_name \<circ> fst) ns \<and> may = []" using Cons.IH [OF h(1)] by blast
    have "handed net (p # ns) log (?c # ext) (set hold \<union> set may)"
      unfolding handed_def
    proof (intro conjI allI impI)
      show "length (?c # ext) \<le> length (p # ns)" using e(2) by (simp add: handed_def)
      fix i assume i: "i < length (?c # ext)"
      show "(?c # ext) ! i = (e_admin (fst ((p # ns) ! i)), snd ((p # ns) ! i))" using i e(2) by (cases i) (simp_all add: p handed_def)
      show "e_name (fst ((p # ns) ! i)) \<in> set hold \<union> set may" if "mayHold net (log @ take i (?c # ext)) ((?c # ext) ! i)"
        using that i e(2) h(2) by (cases i) (auto simp: p handed_def)
    qed
    then show ?thesis using e(1,3) h(2) unfolding p by (intro exI [of _ "?c # ext"]) simp
  qed
qed

lemma fetchAll_log: "fetchAll net ns log = (r, log') \<Longrightarrow> \<exists>ext. log' = log @ ext \<and> (\<forall>c \<in> set ext. snd c = GetDescriptor)"
  by (induction ns arbitrary: log r) (fastforce simp: enroll_call_def split: prod.splits sum.splits)+

lemma requestFor_log: "requestFor ip p net n log w = (r, log', w') \<Longrightarrow> \<exists>ext. log' = log @ ext \<and> (\<forall>c \<in> set ext. \<exists>x. snd c = PostCsr x)"
  by (auto simp: requestFor_def enroll_call_def split: prod.splits sum.splits if_splits)

lemma requests_log: "requests ip p net ns log w = (r, log', w') \<Longrightarrow> \<exists>ext. log' = log @ ext \<and> (\<forall>c \<in> set ext. \<exists>x. snd c = PostCsr x)"
proof (induction ns arbitrary: log w r w')
  case (Cons n ns)
  obtain r1 log1 w1 where r1: "requestFor ip p net n log w = (r1, log1, w1)" by (metis prod_cases3)
  obtain ext where e: "log1 = log @ ext" "\<forall>c \<in> set ext. \<exists>x. snd c = PostCsr x" using requestFor_log [OF r1] by blast
  show ?case
  proof (cases r1)
    case (Inl err)
    then show ?thesis using Cons.prems r1 e by auto
  next
    case (Inr q)
    obtain r2 w2 where r2: "requests ip p net ns log1 w1 = (r2, log', w2)" using Cons.prems r1 Inr by (auto split: prod.splits sum.splits)
    obtain ext2 where "log' = log1 @ ext2" "\<forall>c \<in> set ext2. \<exists>x. snd c = PostCsr x" using Cons.IH [OF r2] by blast
    then show ?thesis using e by (intro exI [of _ "ext @ ext2"]) auto
  qed
qed auto

definition named :: "rosterEntry list \<Rightarrow> report \<Rightarrow> call \<Rightarrow> bool" where
  "named nodes rep c \<longleftrightarrow>
     (case snd c of
        PutCert _ \<Rightarrow> (\<exists>n \<in> set nodes. e_admin n = fst c \<and> e_name n \<in> set (rp_installed rep) \<union> set (rp_mayHold rep))
      | PutRoster _ \<Rightarrow> (\<exists>n \<in> set nodes. e_admin n = fst c \<and> e_name n \<in> set (rp_rostered rep) \<union> set (rp_mayRoster rep))
      | _ \<Rightarrow> True)"

definition accounted :: "network \<Rightarrow> rosterEntry list \<Rightarrow> report \<Rightarrow> call list \<Rightarrow> bool" where
  "accounted net nodes rep log \<longleftrightarrow> (\<forall>i < length log. mayHold net (take i log) (log ! i) \<longrightarrow> named nodes rep (log ! i))"

lemma accounted_append:
  assumes "accounted net nodes rep log" "\<And>i. i < length ext \<Longrightarrow> mayHold net (log @ take i ext) (ext ! i) \<Longrightarrow> named nodes rep (ext ! i)"
  shows "accounted net nodes rep (log @ ext)"
  unfolding accounted_def
proof (intro allI impI)
  fix i assume i: "i < length (log @ ext)" "mayHold net (take i (log @ ext)) ((log @ ext) ! i)"
  show "named nodes rep ((log @ ext) ! i)"
  proof (cases "i < length log")
    case True
    then show ?thesis using assms(1) i(2) unfolding accounted_def by (simp add: nth_append)
  next
    case False
    then obtain j where j: "i = length log + j" "j < length ext" using i(1) by (metis add_diff_inverse_nat length_append nat_add_left_cancel_less)
    show ?thesis using assms(2) [OF j(2)] i(2) unfolding j(1) by (simp add: nth_append)
  qed
qed

lemma accounted_quiet:
  assumes "accounted net nodes rep log" "\<forall>c \<in> set ext. snd c = GetDescriptor \<or> (\<exists>x. snd c = PostCsr x)"
  shows "accounted net nodes rep (log @ ext)"
proof (rule accounted_append [OF assms(1)])
  fix i assume "i < length ext"
  then have "snd (ext ! i) = GetDescriptor \<or> (\<exists>x. snd (ext ! i) = PostCsr x)" using assms(2) nth_mem by blast
  then show "named nodes rep (ext ! i)" by (auto simp: named_def)
qed

lemma accounted_certs:
  assumes "accounted net nodes rep log" "handed net (zip nodes (map (\<lambda>c. PutCert (f c)) cs)) log ext (set (rp_installed rep) \<union> set (rp_mayHold rep))"
  shows "accounted net nodes rep (log @ ext)"
proof (rule accounted_append [OF assms(1)])
  fix i assume i: "i < length ext" "mayHold net (log @ take i ext) (ext ! i)"
  have "i < length nodes" "i < length cs" using i(1) assms(2) by (auto simp: handed_def)
  then show "named nodes rep (ext ! i)"
    using assms(2) i unfolding handed_def named_def by (auto intro!: bexI [of _ "nodes ! i"])
qed

lemma accounted_rosters:
  assumes "accounted net nodes rep log" "handed net (map (\<lambda>n. (n, PutRoster raw)) nodes) log ext (set (rp_rostered rep) \<union> set (rp_mayRoster rep))"
  shows "accounted net nodes rep (log @ ext)"
proof (rule accounted_append [OF assms(1)])
  fix i assume i: "i < length ext" "mayHold net (log @ take i ext) (ext ! i)"
  have "i < length nodes" using i(1) assms(2) by (auto simp: handed_def)
  then show "named nodes rep (ext ! i)"
    using assms(2) i unfolding handed_def named_def by (auto intro!: bexI [of _ "nodes ! i"])
qed

lemma accounted_start: "requests ip p net ns [] w = (r, log, w') \<Longrightarrow> accounted net nodes rep log"
  using requests_log [of ip p net ns "[]" w r log w'] accounted_quiet [of net nodes rep "[]" log] by (auto simp: accounted_def)

lemma install_accounted:
  assumes "install_and_check rj js ip net e anchor certs later log w = (res, rep, log', w')" "\<And>rep. accounted net (en_nodes e) rep log"
  shows "accounted net (en_nodes e) rep log'"
proof -
  let ?ns = "zip (en_nodes e) (map (\<lambda>c. PutCert (Cert_Marshal c)) certs)"
  obtain r hold may log1 where h: "handOut net ?ns log = (r, hold, may, log1)" by (metis prod_cases4)
  obtain ext where ext: "log1 = log @ ext" "handed net ?ns log ext (set hold \<union> set may)" using handOut_handed [OF h] by blast
  have one: "accounted net (en_nodes e) q log1" if "rp_installed q = hold" "rp_mayHold q = may" for q
    unfolding ext(1) by (rule accounted_certs [OF assms(2), where f = Cert_Marshal]) (use ext(2) that in simp)
  obtain rb log2 where f: "fetchAll net (en_nodes e) log1 = (rb, log2)" by force
  obtain ext2 where ext2: "log2 = log1 @ ext2" "\<forall>c \<in> set ext2. snd c = GetDescriptor" using fetchAll_log [OF f] by blast
  have two: "accounted net (en_nodes e) q log2" if "rp_installed q = hold" "rp_mayHold q = may" for q
    unfolding ext2(1) by (rule accounted_quiet [OF one [OF that]]) (use ext2(2) in blast)
  let ?rs = "map (\<lambda>n. (n, PutRoster (enroll_roster rj (en_nodes e) anchor))) (en_nodes e)"
  obtain r3 hold3 may3 log3 where h3: "handOut net ?rs log2 = (r3, hold3, may3, log3)" by (metis prod_cases4)
  obtain ext3 where ext3: "log3 = log2 @ ext3" "handed net ?rs log2 ext3 (set hold3 \<union> set may3)" using handOut_handed [OF h3] by blast
  have three: "accounted net (en_nodes e) q log3" if "rp_installed q = hold" "rp_mayHold q = may" "rp_rostered q = hold3" "rp_mayRoster q = may3" for q
    unfolding ext3(1) by (rule accounted_rosters [OF two [OF that(1,2)]]) (use ext3(2) that(3,4) in simp)
  show ?thesis
    using assms(1) h f h3 one two three
    by (auto simp: install_and_check_def Let_def split: prod.splits sum.splits)
qed

section \<open>Nothing is issued before every request has passed\<close>

text \<open>A request signed by the key the log of the relay named, for the name and the address of its entry.\<close>

definition pinned :: "provider \<Rightarrow> rosterEntry \<Rightarrow> Request \<Rightarrow> bool" where
  "pinned p n r \<longleftrightarrow> q_Suite r = pSuite p \<and> q_Name r = e_name n \<and> q_Addr r = e_addr n \<and> ascii (KeyHash p (q_Identity r)) = e_identity n
     \<and> pVerify p (q_Identity r) (signed_msg requestDomain (Request_body r)) (q_Sig r)"

lemma requestFor_pinned: "requestFor ip p net n log w = (Inr r, log', w') \<Longrightarrow> pinned p n r"
  by (auto simp: requestFor_def Request_Check_def Request_verify_def pinned_def split: prod.splits sum.splits if_splits)

lemma requests_pinned: "requests ip p net ns log w = (Inr rs, log', w') \<Longrightarrow> list_all2 (pinned p) ns rs"
  by (induction ns arbitrary: log w rs w') (auto split: prod.splits sum.splits dest: requestFor_pinned)

lemma issueAll_length: "issueAll ip ca nb na rs w = (Inr cs, w') \<Longrightarrow> length cs = length rs"
  by (induction rs arbitrary: w cs w') (auto split: prod.splits sum.splits)

lemma handOut_done: "handOut net ns log = (Inr u, hold, may, log') \<Longrightarrow> hold = map (e_name \<circ> fst) ns \<and> may = []"
  using handOut_handed by fastforce

lemma install_done:
  assumes "install_and_check rj js ip net e anchor certs later log w = (Inr a, rep, log', w')" "length certs = length (en_nodes e)"
  shows "a = anchor \<and> rep = \<lparr>rp_installed = map e_name (en_nodes e), rp_mayHold = [], rp_rostered = map e_name (en_nodes e), rp_mayRoster = []\<rparr>
    \<and> (\<exists>bundles vs. VerifyChain js ip (en_p e) \<lparr>po_Anchor = anchor, po_Skew = Skew, po_MaxLife = 0\<rparr> (map e_addr (en_nodes e)) bundles later w = (Inr vs, w'))"
proof -
  have zip: "map (e_name \<circ> fst) (zip (en_nodes e) (map (\<lambda>c. PutCert (Cert_Marshal c)) certs)) = map e_name (en_nodes e)"
    unfolding map_map [symmetric] using assms(2) by simp
  show ?thesis
    using assms(1) by (auto simp: install_and_check_def noReport_def Let_def zip split: prod.splits sum.splits dest!: handOut_done)
qed


section \<open>A run that succeeds\<close>

definition sampleListed :: rosterEntry where
  "sampleListed = \<lparr>e_name = ascii ''relay-1'', e_addr = ascii ''relay-1:9001'', e_admin = ascii ''localhost:9101'', e_info = ascii ''localhost:9102'',
     e_identity = ascii (KeyHash sampleSuite (replicate 32 8))\<rparr>"

definition sampleNet :: network where
  "sampleNet log c =
     [case snd c of
        PostCsr nonce \<Rightarrow> Answer 200 (case fst (Identity_Request sampleIdentity nonce sampleReader) of Inr raw \<Rightarrow> raw | Inl _ \<Rightarrow> []) True
      | PutCert _ \<Rightarrow> Answer 204 [] True
      | GetDescriptor \<Rightarrow> Answer 200 sampleBundle True
      | PutRoster _ \<Rightarrow> Answer 204 [] True]"

definition sampleEnrollment :: enrollment where
  "sampleEnrollment = \<lparr>en_p = sampleSuite, en_nodes = [sampleListed], en_certTTL = 1000 * Second\<rparr>"

definition enrollWorld :: world where
  "enrollWorld = sampleReader\<lparr>rnd := replicate pkiNonceSize 1 @ replicate 32 7 @ replicate SerialSize 0\<rparr>"

abbreviation "enrollNonce \<equiv> replicate pkiNonceSize (1 :: byte)"

lemma sampleRequest_small: "Identity_Request sampleIdentity enrollNonce w = (Inr raw, w') \<Longrightarrow> length raw \<le> maxAnswer"
  by (auto simp: Identity_Request_def Identity_sign_def sampleIdentity_def sample_sign Let_def Request_Marshal_def Request_body_def w_field_def
      w_header_def ascii_def pkiNonceSize_def maxAnswer_def)

lemma sample_request:
  obtains r where "requestFor (\<lambda>_. None) sampleSuite sampleNet sampleListed [] enrollWorld
      = (Inr r, [(ascii ''localhost:9101'', PostCsr enrollNonce)], sampleReader\<lparr>rnd := replicate 32 7 @ replicate SerialSize 0\<rparr>)"
    "Request_Check sampleSuite enrollNonce (ascii ''relay-1'') (ascii ''relay-1:9001'') r = Inr ()" "q_Suite r = pSuite sampleSuite"
    "q_Name r = ascii ''relay-1''" "q_Addr r = ascii ''relay-1:9001''" "q_Identity r = replicate 32 8"
proof -
  obtain raw where raw: "Identity_Request sampleIdentity enrollNonce sampleReader = (Inr raw, sampleReader)" using sampleRequest_signed by blast
  obtain wi where new: "NewIdentity (\<lambda>_. None) sampleSuite (ascii ''relay-1'') (ascii ''relay-1:9001'') (randomWorld 8) = (Inr sampleIdentity, wi)"
    using sampleIdentity_new by blast
  have ks: "knownSuite (pSuite sampleSuite)" by (simp add: sampleSuite_def knownSuite_def)
  obtain r where r: "ParseRequest (\<lambda>_. None) raw = Inr r"
    "Request_Check sampleSuite enrollNonce (ascii ''relay-1'') (ascii ''relay-1:9001'') r = Inr ()" "q_Suite r = pSuite sampleSuite"
    "q_Name r = ascii ''relay-1''" "q_Addr r = ascii ''relay-1:9001''" "q_Identity r = id_pub sampleIdentity"
    by (rule Identity_Request_parses [OF sampleSuite_signing ks new _ raw]) simp_all
  have pub: "id_pub sampleIdentity = replicate 32 8" by (simp add: sampleIdentity_def)
  have "enroll_call sampleNet (ascii ''localhost:9101'') (PostCsr enrollNonce) [] = (Inr raw, [(ascii ''localhost:9101'', PostCsr enrollNonce)])"
    using sampleRequest_small [OF raw] by (simp add: enroll_call_def wanted_def sampleNet_def raw Let_def)
  moreover have "readFull pkiNonceSize enrollWorld = (Inr enrollNonce, sampleReader\<lparr>rnd := replicate 32 7 @ replicate SerialSize 0\<rparr>)"
    by (simp add: readFull_def enrollWorld_def sampleReader_def)
  ultimately show ?thesis
    using that [of r] r pub by (simp add: requestFor_def sampleListed_def)
qed

lemma sample_issue:
  assumes "Request_Check sampleSuite enrollNonce (ascii ''relay-1'') (ascii ''relay-1:9001'') r = Inr ()" "q_Suite r = pSuite sampleSuite"
    "q_Name r = ascii ''relay-1''" "q_Addr r = ascii ''relay-1:9001''" "q_Identity r = replicate 32 8"
  shows "\<exists>c. issueAll (\<lambda>_. None) sampleCA 0 (1000 * Second) [r] (sampleReader\<lparr>rnd := replicate SerialSize 0, live := 1\<rparr>)
      = (Inr [c], sampleReader\<lparr>live := 1\<rparr>)"
proof -
  have "Request_verify sampleSuite r = Inr ()" using assms(1) by (auto simp: Request_Check_def split: if_splits)
  then show ?thesis
    using assms(2-5)
    by (simp add: Issue_def CA_sign_def sampleCA_def sample_addr maxKey_def sample_sign unix_def Second_def Millisecond_def readFull_def
        sampleReader_def SerialSize_def Let_def)
qed

lemma sample_install:
  "\<exists>rep log'. install_and_check (\<lambda>_. [], \<lambda>_. None) sampleJson (\<lambda>_. None) sampleNet sampleEnrollment sampleAnchor [c] (20 * Second) log sampleReader
     = (Inr sampleAnchor, rep, log', sampleReader)"
proof -
  have v: "VerifyChain sampleJson (\<lambda>_. None) sampleSuite \<lparr>po_Anchor = sampleAnchor, po_Skew = Skew, po_MaxLife = 0\<rparr> [ascii ''relay-1:9001''] [sampleBundle]
      (20 * Second) sampleReader = (Inr [verified_of sampleCert sampleDesc], sampleReader)"
    using VerifyChain_one [OF sampleBundle_verifies] by (simp add: samplePolicy_def)
  have "length sampleBundle \<le> maxAnswer" using sampleBundle_size by (simp add: MaxBundle_def maxAnswer_def)
  then show ?thesis
    by (simp add: install_and_check_def sampleEnrollment_def sampleListed_def enroll_call_def wanted_def sampleNet_def Let_def maxAnswer_def v)
qed


end
