(* ===== verification/C25519.thy ===== *)
theory C25519
  imports Identity
begin

text \<open>
  \<^verbatim>\<open>crypto/c25519\<close>: the suite over X25519, HKDF-SHA-256, XChaCha20-Poly1305 and Ed25519. The
  primitives are packages outside the repository and form the record \<open>curve25519\<close>; what their
  documentation says of them is \<open>curve25519_ok\<close>. The theorem shows that the suite built on them
  keeps the whole contract that the rest of the development asks of a provider. A secret buffer
  is its bytes, and a released or missing one has none, as in the other theories.
\<close>

section \<open>The primitives\<close>

record ('s, 'p) curve25519 =
  X25519 :: "bytes \<Rightarrow> bytes \<Rightarrow> bytes result"
  Basepoint :: bytes
  hkdf_Extract :: "bytes \<Rightarrow> bytes \<Rightarrow> bytes"
  hkdf_Expand :: "bytes \<Rightarrow> bytes \<Rightarrow> nat \<Rightarrow> bytes result"
  NewX :: "bytes \<Rightarrow> AEAD result"
  sha256 :: "bytes \<Rightarrow> bytes"
  sha512 :: "bytes \<Rightarrow> bytes"
  SetBytesWithClamping :: "bytes \<Rightarrow> 's option"
  SetUniformBytes :: "bytes \<Rightarrow> 's option"
  ScalarBaseMult :: "'s \<Rightarrow> 'p"
  MultiplyAdd :: "'s \<Rightarrow> 's \<Rightarrow> 's \<Rightarrow> 's"
  Scalar_Bytes :: "'s \<Rightarrow> bytes"
  Point_SetBytes :: "bytes \<Rightarrow> 'p option"
  Point_Bytes :: "'p \<Rightarrow> bytes"
  MultByCofactor :: "'p \<Rightarrow> 'p"
  isIdentity :: "'p \<Rightarrow> bool"
  ed25519_Verify :: "bytes \<Rightarrow> bytes \<Rightarrow> bytes \<Rightarrow> bool"

section \<open>The provider\<close>

definition c25519_privSize :: nat where "c25519_privSize = 32"

definition c25519_pubSize :: nat where "c25519_pubSize = 32"

definition c25519_keySize :: nat where "c25519_keySize = 32"

definition SeedSize :: nat where "SeedSize = 32"

definition PrivateKeySize :: nat where "PrivateKeySize = 64"

definition ed25519_PublicKeySize :: nat where "ed25519_PublicKeySize = 32"

definition c25519_GenerateEphemeral :: "('s, 'p) curve25519 \<Rightarrow> (bytes \<times> bytes) io" where
  "c25519_GenerateEphemeral P w =
     (if \<not> live w < limit w then (Inl ErrMemory, w)
      else
        case readFull c25519_privSize (allocate w) of
          (Inl e, w) \<Rightarrow> (Inl e, release w)
        | (Inr priv, w) \<Rightarrow>
            (case X25519 P priv (Basepoint P) of
               Inl e \<Rightarrow> (Inl e, release w)
             | Inr pub \<Rightarrow> (Inr (priv, pub), w)))"

definition c25519_owns :: "Context \<Rightarrow> bool" where
  "c25519_owns ctx \<longleftrightarrow> Context_Valid ctx \<and> ctx_suite ctx = SuiteC25519"

text \<open>\<^verbatim>\<open>info\<close>: a zero byte between the label and the hash of the transcript.\<close>

definition info :: "bytes \<Rightarrow> bytes \<Rightarrow> bytes" where
  "info label th = label @ 0 # th"

definition c25519_expand :: "('s, 'p) curve25519 \<Rightarrow> bytes \<Rightarrow> bytes \<Rightarrow> nat \<Rightarrow> bytes result" where
  "c25519_expand P prk i n = hkdf_Expand P prk i n"

definition extractExpand :: "('s, 'p) curve25519 \<Rightarrow> bytes \<Rightarrow> bytes \<Rightarrow> bytes \<Rightarrow> bytes result" where
  "extractExpand P salt ikm i = c25519_expand P (hkdf_Extract P ikm salt) i c25519_keySize"

definition c25519_Agree :: "('s, 'p) curve25519 \<Rightarrow> bytes \<Rightarrow> bytes \<Rightarrow> Context \<Rightarrow> bytes result" where
  "c25519_Agree P priv peerPub ctx =
     (if length priv \<noteq> c25519_privSize then Inl ErrBadKeySize
      else if \<not> c25519_owns ctx then Inl ErrBadContext
      else
        case Label SuiteC25519 ''agree'' of
          Inl e \<Rightarrow> Inl e
        | Inr label \<Rightarrow>
            if length peerPub \<noteq> c25519_pubSize then Inl ErrBadPublicKey
            else
              case X25519 P priv peerPub of
                Inl e \<Rightarrow> Inl (Errorf ErrBadPublicKey e)
              | Inr shared \<Rightarrow> extractExpand P (ctx_sum ctx) shared (info label (ctx_sum ctx)))"

definition c25519_MixKey :: "('s, 'p) curve25519 \<Rightarrow> bytes \<Rightarrow> bytes \<Rightarrow> Context \<Rightarrow> bytes result" where
  "c25519_MixKey P chain secret ctx =
     (if length chain \<noteq> c25519_keySize \<or> length secret \<noteq> c25519_keySize then Inl ErrBadKeySize
      else if \<not> c25519_owns ctx then Inl ErrBadContext
      else
        case Label SuiteC25519 ''mix'' of
          Inl e \<Rightarrow> Inl e
        | Inr label \<Rightarrow> extractExpand P chain secret (info label (ctx_sum ctx)))"

definition c25519_DeriveKey :: "('s, 'p) curve25519 \<Rightarrow> bytes \<Rightarrow> string \<Rightarrow> Context \<Rightarrow> int \<Rightarrow> bytes result" where
  "c25519_DeriveKey P secret purpose ctx n =
     (if length secret \<noteq> c25519_keySize then Inl ErrBadKeySize
      else if n \<le> 0 \<or> n > int c25519_keySize then Inl ErrBadKeySize
      else if \<not> c25519_owns ctx then Inl ErrBadContext
      else
        case DeriveLabel SuiteC25519 purpose of
          Inl e \<Rightarrow> Inl e
        | Inr label \<Rightarrow> c25519_expand P secret (info label (ctx_sum ctx)) (nat n))"

definition c25519_aead :: "AEAD \<Rightarrow> AEAD" where
  "c25519_aead inner =
     \<lparr>NonceSize = NonceSize inner, Overhead = Overhead inner, aSeal = aSeal inner,
      aOpen = (\<lambda>n c ad. case aOpen inner n c ad of Inl _ \<Rightarrow> Inl ErrOpen | Inr out \<Rightarrow> Inr out)\<rparr>"

definition c25519_NewAEAD :: "('s, 'p) curve25519 \<Rightarrow> bytes \<Rightarrow> AEAD result" where
  "c25519_NewAEAD P key =
     (if length key \<noteq> c25519_keySize then Inl ErrBadKeySize
      else case NewX P key of Inl e \<Rightarrow> Inl e | Inr inner \<Rightarrow> Inr (c25519_aead inner))"

section \<open>Signatures\<close>

definition c25519_publicKey :: "('s, 'p) curve25519 \<Rightarrow> bytes \<Rightarrow> bytes result" where
  "c25519_publicKey P seed =
     (case SetBytesWithClamping P (take 32 (sha512 P seed)) of
        None \<Rightarrow> Inl Panic
      | Some s \<Rightarrow> Inr (Point_Bytes P (ScalarBaseMult P s)))"

definition c25519_sign :: "('s, 'p) curve25519 \<Rightarrow> bytes \<Rightarrow> bytes \<Rightarrow> bytes result" where
  "c25519_sign P priv msg =
     (let seed = take SeedSize priv; pub = drop SeedSize priv; h = sha512 P seed in
      case SetBytesWithClamping P (take 32 h) of
        None \<Rightarrow> Inl Panic
      | Some s \<Rightarrow>
          (case SetUniformBytes P (sha512 P (drop 32 h @ msg)) of
             None \<Rightarrow> Inl Panic
           | Some r \<Rightarrow>
               (let R = Point_Bytes P (ScalarBaseMult P r) in
                case SetUniformBytes P (sha512 P (R @ pub @ msg)) of
                  None \<Rightarrow> Inl Panic
                | Some k \<Rightarrow> Inr (R @ Scalar_Bytes P (MultiplyAdd P k s r)))))"

definition validPublicKey :: "('s, 'p) curve25519 \<Rightarrow> bytes \<Rightarrow> bool" where
  "validPublicKey P pub =
     (case Point_SetBytes P pub of
        None \<Rightarrow> False
      | Some a \<Rightarrow> if Point_Bytes P a \<noteq> pub then False else \<not> isIdentity P (MultByCofactor P a))"

definition c25519_GenerateSigning :: "('s, 'p) curve25519 \<Rightarrow> (bytes \<times> bytes) io" where
  "c25519_GenerateSigning P w =
     (if \<not> live w < limit w then (Inl ErrMemory, w)
      else
        case readFull SeedSize (allocate w) of
          (Inl e, w) \<Rightarrow> (Inl e, release w)
        | (Inr seed, w) \<Rightarrow>
            (case c25519_publicKey P seed of
               Inl e \<Rightarrow> (Inl e, w)
             | Inr pub \<Rightarrow> (Inr (copy (replicate PrivateKeySize 0) (seed @ pub), pub), w)))"

definition c25519_Sign :: "('s, 'p) curve25519 \<Rightarrow> bytes \<Rightarrow> bytes \<Rightarrow> bytes io" where
  "c25519_Sign P priv msg w = (if length priv \<noteq> PrivateKeySize then Inl ErrBadKeySize else c25519_sign P priv msg, w)"

definition c25519_Verify :: "('s, 'p) curve25519 \<Rightarrow> bytes \<Rightarrow> bytes \<Rightarrow> bytes \<Rightarrow> bool" where
  "c25519_Verify P pub msg sig =
     (if length pub \<noteq> ed25519_PublicKeySize \<or> \<not> validPublicKey P pub then False else ed25519_Verify P pub msg sig)"

definition c25519 :: "('s, 'p) curve25519 \<Rightarrow> provider" where
  "c25519 P =
     \<lparr>pSuite = SuiteC25519, pKeySize = int c25519_keySize, pEphemeral = c25519_GenerateEphemeral P,
      pAgree = c25519_Agree P, pMixKey = c25519_MixKey P, pDeriveKey = c25519_DeriveKey P, pNewAEAD = c25519_NewAEAD P,
      pSigning = c25519_GenerateSigning P, pSign = c25519_Sign P, pVerify = c25519_Verify P, pHash = sha256 P\<rparr>"

section \<open>What the primitives promise\<close>

text \<open>
  Diffie-Hellman over honest keys commutes and never gives the all-zero value (RFC 7748); HKDF gives
  as many bytes as asked, up to 255 blocks (RFC 5869); the AEAD undoes its own sealing.
\<close>

definition x25519_ok :: "('s, 'p) curve25519 \<Rightarrow> bool" where
  "x25519_ok P \<longleftrightarrow>
     (\<forall>a. length a = 32 \<longrightarrow> (\<exists>A. X25519 P a (Basepoint P) = Inr A \<and> length A = 32))
     \<and> (\<forall>a b A B. length a = 32 \<longrightarrow> length b = 32 \<longrightarrow> X25519 P a (Basepoint P) = Inr A \<longrightarrow> X25519 P b (Basepoint P) = Inr B \<longrightarrow>
          (\<exists>s. X25519 P a B = Inr s \<and> X25519 P b A = Inr s))"

definition hkdf_ok :: "('s, 'p) curve25519 \<Rightarrow> bool" where
  "hkdf_ok P \<longleftrightarrow> (\<forall>prk i n. 0 < n \<longrightarrow> n \<le> 255 * 32 \<longrightarrow> (\<exists>k. hkdf_Expand P prk i n = Inr k \<and> length k = n))"

definition xchacha_ok :: "AEAD \<Rightarrow> bool" where
  "xchacha_ok a \<longleftrightarrow> NonceSize a = 24 \<and> Overhead a = 16
     \<and> (\<forall>n p ad. length n = 24 \<longrightarrow> aOpen a n (aSeal a n p ad) ad = Inr p)
     \<and> (\<forall>n p ad. length (aSeal a n p ad) = length p + 16)
     \<and> (\<forall>n c ad p. aOpen a n c ad = Inr p \<longrightarrow> length c = length p + 16)"

text \<open>
  RFC 8032: scalars and points have 32 bytes and one canonical spelling; a clamped scalar never gives
  a point of small order; a signature \<open>R, S\<close> verifies when \<open>R\<close> spells \<open>S\<cdot>B - k\<cdot>A\<close>, where \<open>k\<close> is read off
  the hash of \<open>R\<close>, the key and the message. \<open>sub\<close> is that difference, as a function of \<open>S\<close>, \<open>k\<close> and \<open>A\<close>.
\<close>

definition ed25519_ok :: "('s, 'p) curve25519 \<Rightarrow> ('s \<Rightarrow> 's \<Rightarrow> 'p \<Rightarrow> 'p) \<Rightarrow> bool" where
  "ed25519_ok P sub \<longleftrightarrow>
     (\<forall>b. length (sha512 P b) = 64)
     \<and> (\<forall>b. length b = 32 \<longrightarrow> SetBytesWithClamping P b \<noteq> None) \<and> (\<forall>b. length b = 64 \<longrightarrow> SetUniformBytes P b \<noteq> None)
     \<and> (\<forall>a. length (Point_Bytes P a) = 32 \<and> Point_SetBytes P (Point_Bytes P a) = Some a) \<and> (\<forall>s. length (Scalar_Bytes P s) = 32)
     \<and> (\<forall>b s. SetBytesWithClamping P b = Some s \<longrightarrow> \<not> isIdentity P (MultByCofactor P (ScalarBaseMult P s)))
     \<and> (\<forall>k s r. sub (MultiplyAdd P k s r) k (ScalarBaseMult P s) = ScalarBaseMult P r)
     \<and> (\<forall>A msg R S k. SetUniformBytes P (sha512 P (R @ Point_Bytes P A @ msg)) = Some k \<longrightarrow> R = Point_Bytes P (sub S k A) \<longrightarrow>
          ed25519_Verify P (Point_Bytes P A) msg (R @ Scalar_Bytes P S))"

definition curve25519_ok :: "('s, 'p) curve25519 \<Rightarrow> bool" where
  "curve25519_ok P \<longleftrightarrow> x25519_ok P \<and> hkdf_ok P \<and> (\<forall>k. length k = 32 \<longrightarrow> (\<exists>a. NewX P k = Inr a \<and> xchacha_ok a))
     \<and> (\<forall>b. length (sha256 P b) = 32) \<and> (\<exists>sub. ed25519_ok P sub)"

section \<open>The suite keeps the contract\<close>

lemmas c25519_sizes = c25519_privSize_def c25519_pubSize_def c25519_keySize_def SeedSize_def PrivateKeySize_def ed25519_PublicKeySize_def

lemma c25519_fields [simp]:
  "pSuite (c25519 P) = SuiteC25519" "pKeySize (c25519 P) = 32" "pEphemeral (c25519 P) = c25519_GenerateEphemeral P" "pAgree (c25519 P) = c25519_Agree P"
  "pMixKey (c25519 P) = c25519_MixKey P" "pDeriveKey (c25519 P) = c25519_DeriveKey P" "pNewAEAD (c25519 P) = c25519_NewAEAD P"
  "pSigning (c25519 P) = c25519_GenerateSigning P" "pSign (c25519 P) = c25519_Sign P" "pVerify (c25519 P) = c25519_Verify P" "pHash (c25519 P) = sha256 P"
  by (simp_all add: c25519_def c25519_keySize_def)

text \<open>The comment on \<^verbatim>\<open>info\<close>: labels have no zero byte, so label and hash can be told apart.\<close>

lemma info_inj:
  assumes "Label s p = Inr l" "Label t q = Inr m" "info l th = info m uh"
  shows "s = t \<and> p = q \<and> th = uh"
proof -
  have "l = m \<and> th = uh"
    using first_zero_split [of 0 l m th uh] Label_no_zero [OF assms(1)] Label_no_zero [OF assms(2)] assms(3) by (simp add: info_def)
  then show ?thesis using Label_inj_helper [OF assms(1)] assms(2) by simp
qed

lemma aead_c25519: "xchacha_ok a \<Longrightarrow> aead_ok (c25519_aead a) \<and> Overhead (c25519_aead a) = 16"
  by (auto simp: aead_ok_def c25519_aead_def xchacha_ok_def nonce_ok_def split: sum.splits)

lemma c25519_pair: "is_pair (c25519 P) priv pub \<longleftrightarrow> length priv = 32 \<and> X25519 P priv (Basepoint P) = Inr pub"
proof
  assume "is_pair (c25519 P) priv pub"
  then show "length priv = 32 \<and> X25519 P priv (Basepoint P) = Inr pub"
    by (auto simp: is_pair_def c25519_GenerateEphemeral_def readFull_def c25519_privSize_def split: if_splits sum.splits)
next
  assume "length priv = 32 \<and> X25519 P priv (Basepoint P) = Inr pub"
  then have "c25519_GenerateEphemeral P \<lparr>rnd = priv, live = 0, limit = 1, sizeCache = Map.empty\<rparr>
      = (Inr (priv, pub), \<lparr>rnd = [], live = 1, limit = 1, sizeCache = Map.empty\<rparr>)"
    by (simp add: c25519_GenerateEphemeral_def readFull_def c25519_privSize_def allocate_def)
  then show "is_pair (c25519 P) priv pub" unfolding is_pair_def by auto
qed

lemma agree_label: "\<exists>l. Label SuiteC25519 ''agree'' = Inr l" "\<exists>l. Label SuiteC25519 ''mix'' = Inr l"
proof -
  have "validName ''agree''" "validName ''mix''" by code_simp+
  then show "\<exists>l. Label SuiteC25519 ''agree'' = Inr l" "\<exists>l. Label SuiteC25519 ''mix'' = Inr l" by (simp_all add: Label_def knownSuite_def)
qed

lemma extractExpand_ok: "hkdf_ok P \<Longrightarrow> \<exists>k. extractExpand P salt ikm i = Inr k \<and> length k = 32"
  by (simp add: extractExpand_def c25519_expand_def c25519_keySize_def hkdf_ok_def)

lemma x25519_pub: "x25519_ok P \<Longrightarrow> length a = 32 \<Longrightarrow> X25519 P a (Basepoint P) = Inr A \<Longrightarrow> length A = 32"
  unfolding x25519_ok_def by (metis sum.inject(2))

lemma x25519_commutes:
  "x25519_ok P \<Longrightarrow> length a = 32 \<Longrightarrow> length b = 32 \<Longrightarrow> X25519 P a (Basepoint P) = Inr A \<Longrightarrow> X25519 P b (Basepoint P) = Inr B \<Longrightarrow>
     \<exists>s. X25519 P a B = Inr s \<and> X25519 P b A = Inr s"
  unfolding x25519_ok_def by blast

lemma c25519_Agree_honest:
  assumes "curve25519_ok P" "is_pair (c25519 P) a A" "is_pair (c25519 P) b B"
  shows "c25519_Agree P a B ctx = c25519_Agree P b A ctx"
    and "c25519_owns ctx \<Longrightarrow> \<exists>k. c25519_Agree P a B ctx = Inr k \<and> length k = 32"
proof -
  have x: "x25519_ok P" "hkdf_ok P" using assms(1) by (simp_all add: curve25519_ok_def)
  have l: "length a = 32" "length b = 32" "X25519 P a (Basepoint P) = Inr A" "X25519 P b (Basepoint P) = Inr B"
    using assms(2,3) by (simp_all add: c25519_pair)
  obtain s where s: "length A = 32" "length B = 32" "X25519 P a B = Inr s" "X25519 P b A = Inr s"
    using x25519_pub [OF x(1)] x25519_commutes [OF x(1) l] l by blast
  obtain lab where lab: "Label SuiteC25519 ''agree'' = Inr lab" using agree_label by blast
  show "c25519_Agree P a B ctx = c25519_Agree P b A ctx" using s l lab by (simp add: c25519_Agree_def c25519_sizes)
  show "\<exists>k. c25519_Agree P a B ctx = Inr k \<and> length k = 32" if "c25519_owns ctx"
    using that s l lab extractExpand_ok [OF x(2)] by (simp add: c25519_Agree_def c25519_sizes)
qed

lemma c25519_Derive_iff:
  assumes "hkdf_ok P"
  shows "(\<exists>k. c25519_DeriveKey P s pu ctx n = Inr k) \<longleftrightarrow>
    length s = 32 \<and> 0 < n \<and> n \<le> 32 \<and> c25519_owns ctx \<and> (\<exists>l. DeriveLabel SuiteC25519 pu = Inr l)"
    and "c25519_DeriveKey P s pu ctx n = Inr k \<Longrightarrow> int (length k) = n"
proof -
  have e: "\<exists>k. c25519_expand P s i (nat n) = Inr k \<and> length k = nat n" if "0 < n" "n \<le> 32" for i
    using assms that by (simp add: hkdf_ok_def c25519_expand_def)
  show "(\<exists>k. c25519_DeriveKey P s pu ctx n = Inr k) \<longleftrightarrow>
    length s = 32 \<and> 0 < n \<and> n \<le> 32 \<and> c25519_owns ctx \<and> (\<exists>l. DeriveLabel SuiteC25519 pu = Inr l)"
  proof (cases "length s = 32 \<and> 0 < n \<and> n \<le> 32 \<and> c25519_owns ctx")
    case False
    then show ?thesis by (auto simp: c25519_DeriveKey_def c25519_keySize_def)
  next
    case True
    then show ?thesis using e by (cases "DeriveLabel SuiteC25519 pu") (auto simp: c25519_DeriveKey_def c25519_keySize_def)
  qed
  show "int (length k) = n" if h: "c25519_DeriveKey P s pu ctx n = Inr k"
  proof -
    obtain l where l: "0 < n" "n \<le> 32" "c25519_expand P s (info l (ctx_sum ctx)) (nat n) = Inr k"
      using h by (auto simp: c25519_DeriveKey_def c25519_keySize_def split: if_splits sum.splits)
    then show ?thesis using e [OF l(1,2), of "info l (ctx_sum ctx)"] by auto
  qed
qed

lemma c25519_owns_iff: "c25519_owns ctx \<longleftrightarrow> Context_Valid ctx \<and> ctx_suite ctx = pSuite (c25519 P)"
  by (simp add: c25519_owns_def)

lemma not_isl: "\<not> isl r \<longleftrightarrow> (\<exists>k. r = Inr k)"
  by (cases r) auto

lemma c25519_provider_ok:
  assumes "curve25519_ok P"
  shows "provider_ok (c25519 P) 32 16"
proof -
  have h: "x25519_ok P" "hkdf_ok P" using assms by (simp_all add: curve25519_ok_def)
  have "\<forall>k a. pNewAEAD (c25519 P) k = Inr a \<longrightarrow> aead_ok a \<and> Overhead a = 16"
  proof (intro allI impI)
    fix k a assume a: "pNewAEAD (c25519 P) k = Inr a"
    then have k: "length k = 32" by (simp add: c25519_NewAEAD_def c25519_keySize_def split: if_splits)
    then obtain i where i: "NewX P k = Inr i" "xchacha_ok i" using assms by (auto simp: curve25519_ok_def)
    have "a = c25519_aead i" using a k i(1) by (simp add: c25519_NewAEAD_def c25519_keySize_def)
    then show "aead_ok a \<and> Overhead a = 16" using aead_c25519 [OF i(2)] by simp
  qed
  moreover have "derives_any (c25519 P)"
    using c25519_Derive_iff(1) [OF h(2)] unfolding derives_any_def c25519_fields not_isl by blast
  moreover have "\<forall>w r w'. pEphemeral (c25519 P) w = (r, w') \<longrightarrow>
      live w' = (if isl r then live w else live w + 1) \<and> limit w' = limit w \<and> sizeCache w' = sizeCache w"
    by (auto simp: c25519_GenerateEphemeral_def readFull_def allocate_def release_def split: if_splits sum.splits)
  moreover have "\<forall>a A b B ctx. is_pair (c25519 P) a A \<longrightarrow> is_pair (c25519 P) b B \<longrightarrow> pAgree (c25519 P) a B ctx = pAgree (c25519 P) b A ctx"
    unfolding c25519_fields using c25519_Agree_honest(1) [OF assms] by blast
  moreover have "\<forall>priv pub. is_pair (c25519 P) priv pub \<longrightarrow> length pub = 32"
    unfolding c25519_pair using x25519_pub [OF h(1)] by blast
  moreover have "\<forall>s pu ctx sz k. pDeriveKey (c25519 P) s pu ctx sz = Inr k \<longrightarrow> int (length k) = sz"
    using c25519_Derive_iff(2) [OF h(2)] by simp
  moreover have "\<forall>t. length (pHash (c25519 P) t) = ContextSize" using assms by (simp add: curve25519_ok_def ContextSize_def)
  moreover have "knownSuite (pSuite (c25519 P))" "pKeySize (c25519 P) \<ge> 16" "(32 :: nat) > 0" "32 \<le> maxPartSize"
    by (simp_all add: knownSuite_def maxPartSize_def)
  ultimately show ?thesis
    unfolding provider_ok_def by (intro conjI) assumption+
qed

lemma c25519_provider_total:
  assumes "curve25519_ok P"
  shows "provider_total (c25519 P) 32"
proof -
  have h: "x25519_ok P" "hkdf_ok P" using assms by (simp_all add: curve25519_ok_def)
  have cell: "(\<exists>k. c25519_DeriveKey P s ''cell'' ctx 32 = Inr k) \<longleftrightarrow> length s = 32 \<and> c25519_owns ctx" for s ctx
  proof -
    have "validName ''cell''" by code_simp
    then have "\<exists>l. DeriveLabel SuiteC25519 ''cell'' = Inr l"
      by (simp add: DeriveLabel_def Label_def knownSuite_def reservedPurposes_def transcriptNS_def)
    then show ?thesis unfolding c25519_Derive_iff(1) [OF h(2)] by simp
  qed
  have "\<exists>a A w'. c25519_GenerateEphemeral P w = (Inr (a, A), w') \<and> length (rnd w) \<le> 32 + length (rnd w')"
    if "live w < limit w" "32 \<le> length (rnd w)" for w
  proof -
    obtain A where "X25519 P (take 32 (rnd w)) (Basepoint P) = Inr A" using h(1) \<open>32 \<le> length (rnd w)\<close> unfolding x25519_ok_def by (metis length_take min.absorb2)
    then show ?thesis using that by (simp add: c25519_GenerateEphemeral_def readFull_def allocate_def c25519_privSize_def)
  qed
  moreover have "\<exists>s. c25519_Agree P a B ctx = Inr s \<and> (\<exists>k. c25519_DeriveKey P s ''cell'' ctx 32 = Inr k)"
    if "is_pair (c25519 P) a A" "is_pair (c25519 P) b B" "Context_Valid ctx" "ctx_suite ctx = SuiteC25519" for a A b B ctx
    using c25519_Agree_honest(2) [OF assms that(1,2)] that(3,4) unfolding cell by (simp add: c25519_owns_def)
  moreover have "\<exists>m. c25519_MixKey P s t ctx = Inr m \<and> (\<exists>k. c25519_DeriveKey P m ''cell'' ctx 32 = Inr k)"
    if "\<exists>k. c25519_DeriveKey P s ''cell'' ctx 32 = Inr k" "\<exists>k. c25519_DeriveKey P t ''cell'' ctx 32 = Inr k" for s t ctx
  proof -
    have st: "length s = 32" "length t = 32" "c25519_owns ctx" using that unfolding cell by simp_all
    obtain l where l: "Label SuiteC25519 ''mix'' = Inr l" using agree_label(2) by blast
    then show ?thesis unfolding cell using extractExpand_ok [OF h(2)] st by (simp add: c25519_MixKey_def c25519_keySize_def)
  qed
  moreover have "\<exists>a. c25519_NewAEAD P k = Inr a" if k: "int (length k) = 32" for k
  proof -
    obtain i where "NewX P k = Inr i" using assms k unfolding curve25519_ok_def by (metis of_nat_eq_iff of_nat_numeral)
    then show ?thesis using k by (simp add: c25519_NewAEAD_def c25519_keySize_def)
  qed
  ultimately show ?thesis unfolding provider_total_def c25519_fields not_isl by meson
qed

lemma ed25519_verifies:
  "ed25519_ok P sub \<Longrightarrow> SetUniformBytes P (sha512 P (R @ Point_Bytes P A @ msg)) = Some k \<Longrightarrow> R = Point_Bytes P (sub S k A) \<Longrightarrow>
     ed25519_Verify P (Point_Bytes P A) msg (R @ Scalar_Bytes P S)"
  unfolding ed25519_ok_def by blast

lemma c25519_signing_ok:
  assumes "curve25519_ok P"
  shows "signing_ok (c25519 P)"
proof -
  obtain sub where e: "ed25519_ok P sub" using assms by (auto simp: curve25519_ok_def)
  have "1 \<le> length pub \<and> length pub \<le> maxKey \<and> (\<forall>m w1 sig w2. c25519_Sign P priv m w1 = (Inr sig, w2) \<longrightarrow> length sig \<le> maxSig \<and> c25519_Verify P pub m sig)"
    if g: "c25519_GenerateSigning P w = (Inr (priv, pub), w')" for w priv pub w'
  proof -
    let ?seed = "take 32 (rnd w)"
    obtain s where s: "length ?seed = 32" "SetBytesWithClamping P (take 32 (sha512 P ?seed)) = Some s" "pub = Point_Bytes P (ScalarBaseMult P s)"
      "priv = copy (replicate 64 0) (?seed @ pub)"
      using g by (auto simp: c25519_GenerateSigning_def c25519_publicKey_def readFull_def c25519_sizes split: if_splits sum.splits option.splits)
    have lp: "length pub = 32" using s(3) e by (simp add: ed25519_ok_def)
    then have priv: "priv = ?seed @ pub" using s(1,4) by (simp add: copy_same)
    have "length sig \<le> maxSig \<and> c25519_Verify P pub m sig" if sg: "c25519_Sign P priv m w1 = (Inr sig, w2)" for m w1 sig w2
    proof -
      obtain r k where k: "SetUniformBytes P (sha512 P (Point_Bytes P (ScalarBaseMult P r) @ pub @ m)) = Some k"
        "sig = Point_Bytes P (ScalarBaseMult P r) @ Scalar_Bytes P (MultiplyAdd P k s r)"
        using sg s(1,2) lp by (auto simp: c25519_Sign_def c25519_sign_def priv c25519_sizes Let_def split: option.splits)
      have eq: "Point_Bytes P (ScalarBaseMult P r) = Point_Bytes P (sub (MultiplyAdd P k s r) k (ScalarBaseMult P s))"
        using e unfolding ed25519_ok_def by metis
      have "ed25519_Verify P pub m sig" unfolding k(2) s(3) by (rule ed25519_verifies [OF e k(1) [unfolded s(3)] eq])
      moreover have "validPublicKey P pub" using e s(2,3) by (auto simp: validPublicKey_def ed25519_ok_def)
      moreover have "length sig = 64" using e k(2) by (simp add: ed25519_ok_def)
      ultimately show ?thesis using lp by (simp add: c25519_Verify_def c25519_sizes maxSig_def)
    qed
    then show ?thesis using lp by (simp add: maxKey_def)
  qed
  then show ?thesis unfolding signing_ok_def c25519_fields by blast
qed

text \<open>
  C29: \<^verbatim>\<open>c25519.Provider\<close> keeps the contract of \<^verbatim>\<open>crypto.CryptoProvider\<close> whenever X25519, HKDF,
  XChaCha20-Poly1305 and Ed25519 behave as their documents say: two key pairs agree on one secret, derived
  keys have the asked size, opening undoes sealing, every call accounts for its buffers and succeeds
  when memory and randomness allow, and a signature verifies under the key made with it. So what is
  proved of links, circuits and enrollment for a provider that keeps the contract holds of this suite.
\<close>

theorem c25519_keeps_contract:
  assumes "curve25519_ok P"
  shows "provider_ok (c25519 P) 32 16 \<and> provider_total (c25519 P) 32 \<and> signing_ok (c25519 P)"
  using c25519_provider_ok [OF assms] c25519_provider_total [OF assms] c25519_signing_ok [OF assms] by blast

section \<open>Primitives that behave so\<close>

text \<open>A group in the place of the curve: the words of 256 bits under addition, with the scalars acting by multiplication.\<close>

definition samplePrimitives :: "(256 word, 256 word) curve25519" where
  "samplePrimitives =
     \<lparr>X25519 = (\<lambda>a B. Inr (samplePublic a B)), Basepoint = replicate 32 0, hkdf_Extract = (\<lambda>ikm salt. fit 32 ikm),
      hkdf_Expand = (\<lambda>prk i n. Inr (fit n prk)), NewX = (\<lambda>k. Inr sampleAEAD), sha256 = fit 32, sha512 = fit 64,
      SetBytesWithClamping = (\<lambda>b. Some 1), SetUniformBytes = (\<lambda>b. Some (word_of_nat (nat_be b))), ScalarBaseMult = (\<lambda>s. s),
      MultiplyAdd = (\<lambda>k s r. k * s + r), Scalar_Bytes = (\<lambda>s. be 32 (unat s)), Point_SetBytes = (\<lambda>b. Some (word_of_nat (nat_be b))),
      Point_Bytes = (\<lambda>a. be 32 (unat a)), MultByCofactor = (\<lambda>a. 8 * a), isIdentity = (\<lambda>a. a = 0),
      ed25519_Verify = (\<lambda>pub msg sig. take 32 sig
        = be 32 (unat (word_of_nat (nat_be (drop 32 sig)) - word_of_nat (nat_be (fit 64 (take 32 sig @ pub @ msg))) * word_of_nat (nat_be pub) :: 256 word)))\<rparr>"

lemma be_word: "word_of_nat (nat_be (be 32 (unat (a :: 256 word)))) = a"
proof -
  have "unat a < 256 ^ 32" using unsigned_less [of a] by simp
  then show ?thesis by (simp add: nat_be_be)
qed

lemma samplePrimitives_ok: "curve25519_ok samplePrimitives"
proof -
  have "x25519_ok samplePrimitives"
    unfolding x25519_ok_def samplePrimitives_def by (auto simp: samplePublic_def fit_def intro!: nth_equalityI simp: xor.commute)
  moreover have "hkdf_ok samplePrimitives" by (simp add: hkdf_ok_def samplePrimitives_def)
  moreover have "xchacha_ok sampleAEAD" by (auto simp: xchacha_ok_def sampleAEAD_def split: if_splits)
  moreover have "ed25519_ok samplePrimitives (\<lambda>S k A. S - k * A)"
    unfolding ed25519_ok_def samplePrimitives_def by (simp add: be_word)
  ultimately show ?thesis unfolding curve25519_ok_def by (auto simp: samplePrimitives_def)
qed

theorem c25519_keeps_contract_witness:
  "provider_ok (c25519 samplePrimitives) 32 16 \<and> provider_total (c25519 samplePrimitives) 32 \<and> signing_ok (c25519 samplePrimitives)"
  by (rule c25519_keeps_contract [OF samplePrimitives_ok])

end
