(* ===== verification/Gost.thy ===== *)
theory Gost
  imports C25519
begin

text \<open>
  \<^verbatim>\<open>crypto/gost\<close> and \<^verbatim>\<open>crypto/suite\<close>: the suite over GOST R 34.10-2012, VKO, Streebog and Kuznyechik in
  MGM mode, and the choice between the two suites. The primitives are packages outside the repository
  and form the record \<open>gogost\<close>, for the one curve the source uses; their documents are \<open>gogost_ok\<close>. The
  copies of keys that \<^verbatim>\<open>wipe\<close> and \<^verbatim>\<open>Zero\<close> clear, and the lock and \<^verbatim>\<open>Destroy\<close> of the AEAD, leave no value behind
  and are left out.
\<close>

section \<open>The primitives\<close>

text \<open>A point is its two coordinates, a private key its number.\<close>

record gogost =
  curve_P :: nat
  curve_Q :: nat
  NewPrivateKey :: "bytes \<Rightarrow> nat result"
  PublicKey_of :: "nat \<Rightarrow> (nat \<times> nat) result"
  Raw_of :: "nat \<times> nat \<Rightarrow> bytes"
  NewPublicKey :: "bytes \<Rightarrow> (nat \<times> nat) result"
  curve_Contains :: "nat \<times> nat \<Rightarrow> bool"
  curve_Exp :: "nat \<Rightarrow> nat \<times> nat \<Rightarrow> (nat \<times> nat) result"
  NewUKM :: "bytes \<Rightarrow> nat"
  KEK2012256 :: "nat \<Rightarrow> nat \<times> nat \<Rightarrow> nat \<Rightarrow> bytes result"
  kdf_Derive :: "bytes \<Rightarrow> bytes \<Rightarrow> bytes \<Rightarrow> bytes"
  NewMGM :: "bytes \<Rightarrow> AEAD result"
  SignDigest :: "nat \<Rightarrow> bytes \<Rightarrow> bytes io"
  VerifyDigest :: "nat \<times> nat \<Rightarrow> bytes \<Rightarrow> bytes \<Rightarrow> bool result"
  streebog256 :: "bytes \<Rightarrow> bytes"

section \<open>Keys\<close>

definition gost_keySize :: nat where "gost_keySize = 32"

definition tagSize :: nat where "tagSize = 16"

definition gost_nonceSize :: nat where "gost_nonceSize = 16"

definition ukmSize :: nat where "ukmSize = 8"

text \<open>\<^verbatim>\<open>PointSize\<close> of the 256-bit curve.\<close>

definition gost_pointSize :: nat where "gost_pointSize = 32"

definition littleEndian :: "bytes \<Rightarrow> nat" where
  "littleEndian raw = nat_be (rev raw)"

definition scalarOk :: "gogost \<Rightarrow> bytes \<Rightarrow> bool" where
  "scalarOk G raw \<longleftrightarrow> 0 < littleEndian raw \<and> littleEndian raw < curve_Q G"

text \<open>The loop of \<^verbatim>\<open>generate\<close>; it ends because every turn takes a block of the random stream.\<close>

function gost_draw :: "gogost \<Rightarrow> bytes io" where
  "gost_draw G w =
     (case readFull gost_pointSize w of
        (Inl e, w') \<Rightarrow> (Inl e, w')
      | (Inr raw, w') \<Rightarrow> if scalarOk G raw then (Inr raw, w') else gost_draw G w')"
  by pat_completeness auto

termination
  by (relation "measure (\<lambda>(G, w). length (rnd w))") (auto simp: readFull_def gost_pointSize_def split: if_splits)

declare gost_draw.simps [simp del]

definition gost_generate :: "gogost \<Rightarrow> (bytes \<times> bytes) io" where
  "gost_generate G w =
     (if \<not> live w < limit w then (Inl ErrMemory, w)
      else
        case gost_draw G (allocate w) of
          (Inl e, w) \<Rightarrow> (Inl e, release w)
        | (Inr priv, w) \<Rightarrow>
            (case NewPrivateKey G priv of
               Inl e \<Rightarrow> (Inl e, release w)
             | Inr prv \<Rightarrow>
                 (case PublicKey_of G prv of
                    Inl e \<Rightarrow> (Inl e, release w)
                  | Inr pub \<Rightarrow> (Inr (priv, Raw_of G pub), w))))"

definition gost_publicKey :: "gogost \<Rightarrow> bytes \<Rightarrow> (nat \<times> nat) result" where
  "gost_publicKey G raw =
     (if length raw \<noteq> 2 * gost_pointSize then Inl ErrBadPublicKey
      else
        case NewPublicKey G raw of
          Inl e \<Rightarrow> Inl ErrBadPublicKey
        | Inr (x, y) \<Rightarrow>
            if x \<ge> curve_P G \<or> y \<ge> curve_P G \<or> \<not> curve_Contains G (x, y) then Inl ErrBadPublicKey
            else if y = 0 then Inl ErrBadPublicKey
            else
              case curve_Exp G 2 (x, y) of
                Inl e \<Rightarrow> Inl ErrBadPublicKey
              | Inr (x2, y2) \<Rightarrow> if y2 = 0 then Inl ErrBadPublicKey else Inr (x, y))"

definition errUKMSize :: error where "errUKMSize = Message ''gost: ukm must be 8 bytes''"

definition vkoFactor :: "gogost \<Rightarrow> bytes \<Rightarrow> nat result" where
  "vkoFactor G ukm =
     (if length ukm \<noteq> ukmSize then Inl errUKMSize else Inr (if NewUKM G ukm = 0 then 1 else NewUKM G ukm))"

definition vko :: "gogost \<Rightarrow> bytes \<Rightarrow> bytes \<Rightarrow> bytes \<Rightarrow> bytes result" where
  "vko G priv peerPub ukm =
     (case gost_publicKey G peerPub of
        Inl e \<Rightarrow> Inl e
      | Inr pub \<Rightarrow>
          (case NewPrivateKey G priv of
             Inl e \<Rightarrow> Inl e
           | Inr prv \<Rightarrow> (case vkoFactor G ukm of Inl e \<Rightarrow> Inl e | Inr u \<Rightarrow> KEK2012256 G prv pub u)))"

section \<open>The provider\<close>

definition gost_owns :: "Context \<Rightarrow> bool" where
  "gost_owns ctx \<longleftrightarrow> Context_Valid ctx \<and> ctx_suite ctx = SuiteGOST"

text \<open>\<^verbatim>\<open>derive\<close> into a fresh buffer of \<open>n\<close> bytes.\<close>

definition gost_derive :: "gogost \<Rightarrow> nat \<Rightarrow> bytes \<Rightarrow> bytes \<Rightarrow> bytes \<Rightarrow> bytes" where
  "gost_derive G n key label seed = copy (replicate n 0) (kdf_Derive G key label seed)"

definition gost_Agree :: "gogost \<Rightarrow> bytes \<Rightarrow> bytes \<Rightarrow> Context \<Rightarrow> bytes result" where
  "gost_Agree G priv peerPub ctx =
     (if length priv \<noteq> gost_pointSize then Inl ErrBadKeySize
      else if \<not> gost_owns ctx then Inl ErrBadContext
      else
        case Label SuiteGOST ''agree'' of
          Inl e \<Rightarrow> Inl e
        | Inr label \<Rightarrow>
            (case slice_to (ctx_sum ctx) (int ukmSize) of
               Inl e \<Rightarrow> Inl e
             | Inr ukm \<Rightarrow>
                 (case vko G priv peerPub ukm of
                    Inl e \<Rightarrow> Inl e
                  | Inr kek \<Rightarrow> Inr (gost_derive G gost_keySize kek label (ctx_sum ctx)))))"

definition gost_MixKey :: "gogost \<Rightarrow> bytes \<Rightarrow> bytes \<Rightarrow> Context \<Rightarrow> bytes result" where
  "gost_MixKey G chain secret ctx =
     (if length chain \<noteq> gost_keySize \<or> length secret \<noteq> gost_keySize then Inl ErrBadKeySize
      else if \<not> gost_owns ctx then Inl ErrBadContext
      else
        case Label SuiteGOST ''mix'' of
          Inl e \<Rightarrow> Inl e
        | Inr label \<Rightarrow> Inr (gost_derive G gost_keySize chain label (ctx_sum ctx @ secret)))"

definition gost_DeriveKey :: "gogost \<Rightarrow> bytes \<Rightarrow> string \<Rightarrow> Context \<Rightarrow> int \<Rightarrow> bytes result" where
  "gost_DeriveKey G secret purpose ctx n =
     (if length secret \<noteq> gost_keySize then Inl ErrBadKeySize
      else if n \<le> 0 \<or> n > int gost_keySize then Inl ErrBadKeySize
      else if \<not> gost_owns ctx then Inl ErrBadContext
      else
        case DeriveLabel SuiteGOST purpose of
          Inl e \<Rightarrow> Inl e
        | Inr label \<Rightarrow> Inr (gost_derive G (nat n) secret label (ctx_sum ctx)))"

text \<open>
  The whole of \<^verbatim>\<open>MixKey\<close>, which holds a second buffer for the seed while it runs: the two allocations,
  and the release of the seed on the way out.
\<close>

definition gost_MixKey_mem :: "gogost \<Rightarrow> bytes \<Rightarrow> bytes \<Rightarrow> Context \<Rightarrow> bytes io" where
  "gost_MixKey_mem G chain secret ctx w =
     (case gost_MixKey G chain secret ctx of
        Inl e \<Rightarrow> (Inl e, w)
      | Inr k \<Rightarrow>
          if \<not> live w < limit w then (Inl ErrMemory, w)
          else
            let w = allocate w in
            if \<not> live w < limit w then (Inl ErrMemory, release w)
            else (Inr k, release (allocate w)))"

section \<open>Sealing\<close>

definition gost_nonceOK :: "bytes \<Rightarrow> bool" where
  "gost_nonceOK nonce \<longleftrightarrow> length nonce = gost_nonceSize \<and> unat (nonce ! 0) < 128"

definition gost_aead :: "AEAD \<Rightarrow> AEAD" where
  "gost_aead inner =
     \<lparr>NonceSize = int gost_nonceSize, Overhead = int tagSize, aSeal = aSeal inner,
      aOpen = (\<lambda>n c ad. if \<not> gost_nonceOK n \<or> length c < tagSize then Inl ErrOpen
                       else case aOpen inner n c ad of Inl _ \<Rightarrow> Inl ErrOpen | Inr out \<Rightarrow> Inr out)\<rparr>"

definition gost_NewAEAD :: "gogost \<Rightarrow> bytes \<Rightarrow> AEAD result" where
  "gost_NewAEAD G key =
     (if length key \<noteq> gost_keySize then Inl ErrBadKeySize
      else case NewMGM G key of Inl e \<Rightarrow> Inl e | Inr inner \<Rightarrow> Inr (gost_aead inner))"

section \<open>Signatures\<close>

definition gost_Sign :: "gogost \<Rightarrow> bytes \<Rightarrow> bytes \<Rightarrow> bytes io" where
  "gost_Sign G priv msg w =
     (if length priv \<noteq> gost_pointSize then (Inl ErrBadKeySize, w)
      else case NewPrivateKey G priv of Inl e \<Rightarrow> (Inl e, w) | Inr prv \<Rightarrow> SignDigest G prv (streebog256 G msg) w)"

definition gost_Verify :: "gogost \<Rightarrow> bytes \<Rightarrow> bytes \<Rightarrow> bytes \<Rightarrow> bool" where
  "gost_Verify G pub msg sig =
     (case gost_publicKey G pub of
        Inl e \<Rightarrow> False
      | Inr key \<Rightarrow> if length sig \<noteq> 2 * gost_pointSize then False else VerifyDigest G key (streebog256 G msg) sig = Inr True)"

definition gost :: "gogost \<Rightarrow> provider" where
  "gost G =
     \<lparr>pSuite = SuiteGOST, pKeySize = int gost_keySize, pEphemeral = gost_generate G, pAgree = gost_Agree G, pMixKey = gost_MixKey G,
      pDeriveKey = gost_DeriveKey G, pNewAEAD = gost_NewAEAD G, pSigning = gost_generate G, pSign = gost_Sign G,
      pVerify = gost_Verify G, pHash = streebog256 G\<rparr>"

section \<open>The choice of a suite\<close>

definition Default :: suite where "Default = SuiteC25519"

definition suite_Parse :: "string \<Rightarrow> suite result" where
  "suite_Parse name =
     (case find (\<lambda>s. suite_String s = name) [SuiteGOST, SuiteC25519] of
        Some s \<Rightarrow> Inr s
      | None \<Rightarrow> Inl (Message ''suite: unknown suite''))"

definition suite_New :: "gogost \<Rightarrow> ('s, 'p) curve25519 \<Rightarrow> suite \<Rightarrow> provider result" where
  "suite_New G P s =
     (if s = SuiteGOST then Inr (gost G) else if s = SuiteC25519 then Inr (c25519 P) else Inl (Message ''suite: unknown suite''))"

section \<open>What the primitives promise\<close>

text \<open>
  A public key made from a private one is a point of the curve, not of order 2 or 4, with one spelling
  of 64 bytes; VKO over honest keys commutes (RFC 7836); the KDF and the hash give 32 bytes; MGM undoes its
  own sealing for nonces with the top bit clear; a signature verifies under the key it was made with.
\<close>

definition honest_point :: "gogost \<Rightarrow> nat \<times> nat \<Rightarrow> bool" where
  "honest_point G pt \<longleftrightarrow> length (Raw_of G pt) = 64 \<and> NewPublicKey G (Raw_of G pt) = Inr pt \<and> fst pt < curve_P G \<and> snd pt < curve_P G
     \<and> curve_Contains G pt \<and> snd pt \<noteq> 0 \<and> (\<exists>x y. curve_Exp G 2 pt = Inr (x, y) \<and> y \<noteq> 0)"

definition gost_keys_ok :: "gogost \<Rightarrow> bool" where
  "gost_keys_ok G \<longleftrightarrow>
     (\<forall>raw. length raw = 32 \<longrightarrow> scalarOk G raw \<longrightarrow> NewPrivateKey G raw = Inr (littleEndian raw))
     \<and> (\<forall>k. 0 < k \<longrightarrow> k < curve_Q G \<longrightarrow> (\<exists>pt. PublicKey_of G k = Inr pt \<and> honest_point G pt))
     \<and> (\<forall>a b A B u. PublicKey_of G a = Inr A \<longrightarrow> PublicKey_of G b = Inr B \<longrightarrow> 0 < u \<longrightarrow>
          (\<exists>k. KEK2012256 G a B u = Inr k \<and> KEK2012256 G b A u = Inr k))
     \<and> (\<forall>k pt d w sig w'. PublicKey_of G k = Inr pt \<longrightarrow> SignDigest G k d w = (Inr sig, w') \<longrightarrow> length sig = 64 \<and> VerifyDigest G pt d sig = Inr True)"

definition mgm_ok :: "AEAD \<Rightarrow> bool" where
  "mgm_ok a \<longleftrightarrow> (\<forall>n p ad. gost_nonceOK n \<longrightarrow> aOpen a n (aSeal a n p ad) ad = Inr p) \<and> (\<forall>n p ad. length (aSeal a n p ad) = length p + 16)
     \<and> (\<forall>n c ad p. aOpen a n c ad = Inr p \<longrightarrow> length c = length p + 16)"

definition gogost_ok :: "gogost \<Rightarrow> bool" where
  "gogost_ok G \<longleftrightarrow> gost_keys_ok G \<and> (\<forall>k. length k = 32 \<longrightarrow> (\<exists>a. NewMGM G k = Inr a \<and> mgm_ok a))
     \<and> (\<forall>k l s. length (kdf_Derive G k l s) = 32) \<and> (\<forall>b. length (streebog256 G b) = 32)"

section \<open>The suite keeps the contract\<close>

lemmas gost_sizes = gost_keySize_def gost_pointSize_def tagSize_def gost_nonceSize_def ukmSize_def

lemma gost_fields [simp]:
  "pSuite (gost G) = SuiteGOST" "pKeySize (gost G) = 32" "pEphemeral (gost G) = gost_generate G" "pAgree (gost G) = gost_Agree G"
  "pMixKey (gost G) = gost_MixKey G" "pDeriveKey (gost G) = gost_DeriveKey G" "pNewAEAD (gost G) = gost_NewAEAD G"
  "pSigning (gost G) = gost_generate G" "pSign (gost G) = gost_Sign G" "pVerify (gost G) = gost_Verify G" "pHash (gost G) = streebog256 G"
  by (simp_all add: gost_def gost_keySize_def)

lemma gost_draw_world:
  "gost_draw G w = (r, w') \<Longrightarrow> live w' = live w \<and> limit w' = limit w \<and> sizeCache w' = sizeCache w \<and> (\<forall>raw. r = Inr raw \<longrightarrow> length raw = 32 \<and> scalarOk G raw)"
proof (induction G w arbitrary: r rule: gost_draw.induct)
  case (1 G w)
  show ?case
  proof (cases "32 \<le> length (rnd w)")
    case False
    then show ?thesis using 1(2) by (auto simp: gost_draw.simps [of G w] readFull_def gost_pointSize_def)
  next
    case True
    then have rf: "readFull gost_pointSize w = (Inr (take 32 (rnd w)), w\<lparr>rnd := drop 32 (rnd w)\<rparr>)" by (simp add: readFull_def gost_pointSize_def)
    show ?thesis
    proof (cases "scalarOk G (take 32 (rnd w))")
      case ok: True
      then show ?thesis using 1(2) rf True by (auto simp: gost_draw.simps [of G w])
    next
      case False
      then have "gost_draw G (w\<lparr>rnd := drop 32 (rnd w)\<rparr>) = (r, w')" using 1(2) rf by (simp add: gost_draw.simps [of G w])
      then show ?thesis using 1(1) [OF rf [symmetric] refl False] by simp
    qed
  qed
qed

text \<open>The first block in range is the key: every scalar below the order comes from one block.\<close>

lemma gost_draw_first:
  assumes "\<And>j. j < i \<Longrightarrow> \<not> scalarOk G (take 32 (drop (32 * j) (rnd w)))" "scalarOk G (take 32 (drop (32 * i) (rnd w)))" "32 * i + 32 \<le> length (rnd w)"
  shows "gost_draw G w = (Inr (take 32 (drop (32 * i) (rnd w))), w\<lparr>rnd := drop (32 * i + 32) (rnd w)\<rparr>)"
  using assms
proof (induction i arbitrary: w)
  case 0
  then show ?case by (simp add: gost_draw.simps [of G w] readFull_def gost_pointSize_def)
next
  case (Suc i)
  let ?v = "w\<lparr>rnd := drop 32 (rnd w)\<rparr>"
  have "gost_draw G w = gost_draw G ?v"
    using Suc.prems(1) [of 0] Suc.prems(3) by (simp add: gost_draw.simps [of G w] readFull_def gost_pointSize_def)
  also have "\<dots> = (Inr (take 32 (drop (32 * i) (rnd ?v))), ?v\<lparr>rnd := drop (32 * i + 32) (rnd ?v)\<rparr>)"
  proof (rule Suc.IH)
    show "\<not> scalarOk G (take 32 (drop (32 * j) (rnd ?v)))" if "j < i" for j
      using Suc.prems(1) [of "Suc j"] that by (simp add: algebra_simps)
  qed (use Suc.prems(2,3) in \<open>simp_all add: algebra_simps\<close>)
  finally show ?case by (simp add: algebra_simps)
qed

lemma littleEndian_inj: "length a = length b \<Longrightarrow> littleEndian a = littleEndian b \<Longrightarrow> a = b"
  unfolding littleEndian_def by (metis be_nat_be length_rev rev_rev_ident)

lemma gost_generate_pair:
  assumes "gost_generate G w = (Inr (priv, pub), w')"
  shows "length priv = 32 \<and> scalarOk G priv \<and> (\<exists>prv pt. NewPrivateKey G priv = Inr prv \<and> PublicKey_of G prv = Inr pt \<and> pub = Raw_of G pt)"
proof -
  obtain w1 where "gost_draw G (allocate w) = (Inr priv, w1)" "\<exists>prv pt. NewPrivateKey G priv = Inr prv \<and> PublicKey_of G prv = Inr pt \<and> pub = Raw_of G pt"
    using assms by (auto simp: gost_generate_def split: if_splits prod.splits sum.splits)
  then show ?thesis using gost_draw_world by blast
qed

lemma gost_pair:
  assumes "gost_keys_ok G" "is_pair (gost G) priv pub"
  obtains pt where "length priv = 32" "NewPrivateKey G priv = Inr (littleEndian priv)" "PublicKey_of G (littleEndian priv) = Inr pt"
    "pub = Raw_of G pt" "honest_point G pt"
proof -
  obtain prv pt where p: "length priv = 32" "scalarOk G priv" "NewPrivateKey G priv = Inr prv" "PublicKey_of G prv = Inr pt" "pub = Raw_of G pt"
    using assms(2) gost_generate_pair unfolding is_pair_def gost_fields by blast
  have prv: "prv = littleEndian priv" using assms(1) p(1,2,3) unfolding gost_keys_ok_def by fastforce
  have "honest_point G pt" using assms(1) p(2,4) unfolding prv gost_keys_ok_def scalarOk_def by (metis sum.inject(2))
  then show ?thesis using that p(1,3,4,5) unfolding prv by blast
qed

lemma honest_accepted: "honest_point G pt \<Longrightarrow> gost_publicKey G (Raw_of G pt) = Inr pt"
  by (cases pt) (auto simp: honest_point_def gost_publicKey_def gost_pointSize_def)

lemma gost_Agree_honest:
  assumes "gogost_ok G" "is_pair (gost G) a A" "is_pair (gost G) b B"
  shows "gost_Agree G a B ctx = gost_Agree G b A ctx"
    and "gost_owns ctx \<Longrightarrow> ukmSize \<le> length (ctx_sum ctx) \<Longrightarrow> \<exists>k. gost_Agree G a B ctx = Inr k \<and> length k = 32"
proof -
  have g: "gost_keys_ok G" using assms(1) by (simp add: gogost_ok_def)
  obtain p where p: "length a = 32" "NewPrivateKey G a = Inr (littleEndian a)" "PublicKey_of G (littleEndian a) = Inr p" "A = Raw_of G p" "honest_point G p"
    by (rule gost_pair [OF g assms(2)])
  obtain q where q: "length b = 32" "NewPrivateKey G b = Inr (littleEndian b)" "PublicKey_of G (littleEndian b) = Inr q" "B = Raw_of G q" "honest_point G q"
    by (rule gost_pair [OF g assms(3)])
  have key: "\<exists>k. vko G a B ukm = Inr k \<and> vko G b A ukm = Inr k" if "length ukm = ukmSize" for ukm
  proof -
    obtain u where u: "vkoFactor G ukm = Inr u" "0 < u" using \<open>length ukm = ukmSize\<close> by (simp add: vkoFactor_def)
    obtain k where "KEK2012256 G (littleEndian a) q u = Inr k \<and> KEK2012256 G (littleEndian b) p u = Inr k"
      using g p(3) q(3) u(2) unfolding gost_keys_ok_def by meson
    then show ?thesis using p(2,4) q(2,4) u(1) honest_accepted [OF p(5)] honest_accepted [OF q(5)] by (simp add: vko_def)
  qed
  have "validName ''agree''" by code_simp
  then obtain lab where lab: "Label SuiteGOST ''agree'' = Inr lab" by (simp add: Label_def knownSuite_def)
  have agreed: "gost_Agree G a B ctx = gost_Agree G b A ctx \<and> (gost_owns ctx \<and> ukmSize \<le> length (ctx_sum ctx) \<longrightarrow> (\<exists>k. gost_Agree G a B ctx = Inr k \<and> length k = 32))"
  proof (cases "ukmSize \<le> length (ctx_sum ctx)")
    case False
    then have "slice_to (ctx_sum ctx) (int ukmSize) = Inl Panic" by (simp add: slice_to_def)
    then show ?thesis using p(1) q(1) lab False by (simp add: gost_Agree_def gost_pointSize_def)
  next
    case True
    let ?u = "take ukmSize (ctx_sum ctx)"
    have s: "slice_to (ctx_sum ctx) (int ukmSize) = Inr ?u" "length ?u = ukmSize" using True by (simp_all add: slice_to_def)
    obtain k where "vko G a B ?u = Inr k" "vko G b A ?u = Inr k" using key [OF s(2)] by blast
    then show ?thesis using p(1) q(1) lab s(1) by (simp add: gost_Agree_def gost_pointSize_def gost_keySize_def gost_derive_def)
  qed
  show "gost_Agree G a B ctx = gost_Agree G b A ctx" using agreed by blast
  show "\<exists>k. gost_Agree G a B ctx = Inr k \<and> length k = 32" if "gost_owns ctx" "ukmSize \<le> length (ctx_sum ctx)" using agreed that by blast
qed

lemma gost_Derive_iff:
  shows "(\<exists>k. gost_DeriveKey G s pu ctx n = Inr k) \<longleftrightarrow>
    length s = 32 \<and> 0 < n \<and> n \<le> 32 \<and> gost_owns ctx \<and> (\<exists>l. DeriveLabel SuiteGOST pu = Inr l)"
    and "gost_DeriveKey G s pu ctx n = Inr k \<Longrightarrow> int (length k) = n"
  by (cases "DeriveLabel SuiteGOST pu"; auto simp: gost_DeriveKey_def gost_keySize_def)
    (auto simp: gost_DeriveKey_def gost_keySize_def gost_derive_def split: if_splits sum.splits)

lemma aead_gost: "mgm_ok a \<Longrightarrow> aead_ok (gost_aead a) \<and> Overhead (gost_aead a) = 16"
  unfolding aead_ok_def gost_aead_def mgm_ok_def nonce_ok_def gost_nonceOK_def gost_sizes by (auto split: sum.splits if_splits)

lemma gost_MixKey_mem_eq:
  "live w + 1 < limit w \<Longrightarrow> gost_MixKey_mem G c s ctx w = MixKey (gost G) c s ctx w"
  by (simp add: gost_MixKey_mem_def MixKey_def newBuffer_def allocate_def release_def Let_def split: sum.splits)

lemma gost_provider_ok:
  assumes "gogost_ok G"
  shows "provider_ok (gost G) 64 16"
proof -
  have g: "gost_keys_ok G" using assms by (simp add: gogost_ok_def)
  have "\<forall>k a. pNewAEAD (gost G) k = Inr a \<longrightarrow> aead_ok a \<and> Overhead a = 16"
  proof (intro allI impI)
    fix k a assume a: "pNewAEAD (gost G) k = Inr a"
    then have k: "length k = 32" by (simp add: gost_NewAEAD_def gost_keySize_def split: if_splits)
    then obtain i where i: "NewMGM G k = Inr i" "mgm_ok i" using assms by (auto simp: gogost_ok_def)
    have "a = gost_aead i" using a k i(1) by (simp add: gost_NewAEAD_def gost_keySize_def)
    then show "aead_ok a \<and> Overhead a = 16" using aead_gost [OF i(2)] by simp
  qed
  moreover have "derives_any (gost G)"
    using gost_Derive_iff(1) [of G] unfolding derives_any_def gost_fields not_isl by blast
  moreover have "\<forall>w r w'. pEphemeral (gost G) w = (r, w') \<longrightarrow>
      live w' = (if isl r then live w else live w + 1) \<and> limit w' = limit w \<and> sizeCache w' = sizeCache w"
  proof (intro allI impI)
    fix w r w' assume e: "pEphemeral (gost G) w = (r, w')"
    obtain d w1 where d: "gost_draw G (allocate w) = (d, w1)" by force
    then have "live w1 = live w + 1 \<and> limit w1 = limit w \<and> sizeCache w1 = sizeCache w" using gost_draw_world [OF d] by (simp add: allocate_def)
    then show "live w' = (if isl r then live w else live w + 1) \<and> limit w' = limit w \<and> sizeCache w' = sizeCache w"
      using e d by (auto simp: gost_generate_def release_def split: if_splits sum.splits)
  qed
  moreover have "\<forall>a A b B ctx. is_pair (gost G) a A \<longrightarrow> is_pair (gost G) b B \<longrightarrow> pAgree (gost G) a B ctx = pAgree (gost G) b A ctx"
    unfolding gost_fields using gost_Agree_honest(1) [OF assms] by blast
  moreover have "\<forall>priv pub. is_pair (gost G) priv pub \<longrightarrow> length pub = 64"
    using gost_pair [OF g] by (metis honest_point_def)
  moreover have "\<forall>s pu ctx sz k. pDeriveKey (gost G) s pu ctx sz = Inr k \<longrightarrow> int (length k) = sz"
    unfolding gost_fields using gost_Derive_iff(2) by blast
  moreover have "\<forall>t. length (pHash (gost G) t) = ContextSize" using assms by (simp add: gogost_ok_def ContextSize_def)
  moreover have "knownSuite (pSuite (gost G))" "pKeySize (gost G) \<ge> 16" "(64 :: nat) > 0" "64 \<le> maxPartSize"
    by (simp_all add: knownSuite_def maxPartSize_def)
  ultimately show ?thesis
    unfolding provider_ok_def by (intro conjI) assumption+
qed

lemma gost_signing_ok:
  assumes "gogost_ok G"
  shows "signing_ok (gost G)"
proof -
  have g: "gost_keys_ok G" using assms by (simp add: gogost_ok_def)
  have "1 \<le> length pub \<and> length pub \<le> maxKey \<and> (\<forall>m w1 sig w2. gost_Sign G priv m w1 = (Inr sig, w2) \<longrightarrow> length sig \<le> maxSig \<and> gost_Verify G pub m sig)"
    if gen: "gost_generate G w = (Inr (priv, pub), w')" for w priv pub w'
  proof -
    have "is_pair (gost G) priv pub" using gen unfolding is_pair_def by auto
    then obtain pt where p: "length priv = 32" "NewPrivateKey G priv = Inr (littleEndian priv)" "PublicKey_of G (littleEndian priv) = Inr pt"
      "pub = Raw_of G pt" "honest_point G pt" by (rule gost_pair [OF g])
    have "length sig \<le> maxSig \<and> gost_Verify G pub m sig" if sg: "gost_Sign G priv m w1 = (Inr sig, w2)" for m w1 sig w2
    proof -
      have "SignDigest G (littleEndian priv) (streebog256 G m) w1 = (Inr sig, w2)" using sg p(1,2) by (simp add: gost_Sign_def gost_pointSize_def)
      then have "length sig = 64" "VerifyDigest G pt (streebog256 G m) sig = Inr True" using g p(3) unfolding gost_keys_ok_def by blast+
      then show ?thesis using honest_accepted [OF p(5)] by (simp add: gost_Verify_def p(4) gost_pointSize_def maxSig_def)
    qed
    moreover have "length pub = 64" using p(4,5) by (simp add: honest_point_def)
    ultimately show ?thesis by (simp add: maxKey_def)
  qed
  then show ?thesis unfolding signing_ok_def gost_fields by blast
qed

section \<open>The properties of the suites\<close>

lemma gost_generate_drawn:
  assumes "gost_keys_ok G" "live w < limit w" "gost_draw G (allocate w) = (Inr raw, w1)"
  shows "\<exists>pub. gost_generate G w = (Inr (raw, pub), w1)"
proof -
  have raw: "length raw = 32" "scalarOk G raw" using gost_draw_world [OF assms(3)] by simp_all
  have "NewPrivateKey G raw = Inr (littleEndian raw)" using assms(1) raw unfolding gost_keys_ok_def by blast
  moreover obtain pt where "PublicKey_of G (littleEndian raw) = Inr pt" using assms(1) raw(2) unfolding gost_keys_ok_def scalarOk_def by blast
  ultimately show ?thesis using assms(2,3) by (simp add: gost_generate_def)
qed

text \<open>
  C31: the rejection sampling of \<^verbatim>\<open>gost.generate\<close> returns, and keeps the scalar uniform: given memory for the key,
  the key is the first block of the random stream whose number is above zero and below the order of the
  curve, all blocks before it are passed over, and two different blocks are two different numbers.
\<close>

theorem gost_key_drawn:
  assumes "gogost_ok G" "live w < limit w" "32 * i + 32 \<le> length (rnd w)" "scalarOk G (take 32 (drop (32 * i) (rnd w)))"
    "\<And>j. j < i \<Longrightarrow> \<not> scalarOk G (take 32 (drop (32 * j) (rnd w)))"
  shows "(\<exists>pub w'. GenerateEphemeral (gost G) w = (Inr (take 32 (drop (32 * i) (rnd w)), pub), w') \<and> rnd w' = drop (32 * i + 32) (rnd w) \<and> live w' = live w + 1)
    \<and> (\<forall>b. length b = 32 \<longrightarrow> littleEndian b = littleEndian (take 32 (drop (32 * i) (rnd w))) \<longrightarrow> b = take 32 (drop (32 * i) (rnd w)))"
proof -
  let ?w = "allocate w" and ?raw = "take 32 (drop (32 * i) (rnd w))"
  have "gost_draw G ?w = (Inr ?raw, ?w\<lparr>rnd := drop (32 * i + 32) (rnd w)\<rparr>)"
    using gost_draw_first [of i G ?w] assms(3,4,5) by (simp add: allocate_def)
  then obtain pub where "gost_generate G w = (Inr (?raw, pub), ?w\<lparr>rnd := drop (32 * i + 32) (rnd w)\<rparr>)"
    using gost_generate_drawn [of G w] assms(1,2) by (auto simp: gogost_ok_def)
  moreover have "length ?raw = 32" using assms(3) by simp
  ultimately show ?thesis
    using littleEndian_inj [of _ ?raw] by (auto simp: GenerateEphemeral_def allocate_def)
qed

text \<open>
  C30: every name \<^verbatim>\<open>suite.Parse\<close> takes is the name of one suite, and \<^verbatim>\<open>suite.New\<close> makes of it a provider of that
  suite that keeps the contract of \<^verbatim>\<open>crypto.CryptoProvider\<close>, with public keys of 64 bytes for GOST and of 32 for
  c25519 and 16 bytes of overhead in both, whenever the primitives behave as their documents say.
\<close>

theorem chosen_suite_keeps_contract:
  assumes "gogost_ok G" "curve25519_ok P" "suite_Parse name = Inr s"
  shows "suite_String s = name \<and> (\<exists>p n. suite_New G P s = Inr p \<and> pSuite p = s \<and> (n = 32 \<or> n = 64) \<and> provider_ok p n 16 \<and> signing_ok p)"
proof -
  have s: "suite_String s = name" "s = SuiteGOST \<or> s = SuiteC25519"
    using assms(3) by (auto simp: suite_Parse_def split: option.splits if_splits)
  from s(2) show ?thesis
  proof
    assume "s = SuiteGOST"
    then show ?thesis using s(1) gost_provider_ok [OF assms(1)] gost_signing_ok [OF assms(1)] by (auto simp: suite_New_def)
  next
    assume "s = SuiteC25519"
    moreover have "SuiteC25519 \<noteq> SuiteGOST" by (simp add: SuiteC25519_def SuiteGOST_def)
    ultimately show ?thesis using s(1) c25519_provider_ok [OF assms(2)] c25519_signing_ok [OF assms(2)] by (auto simp: suite_New_def)
  qed
qed

section \<open>Primitives that behave so\<close>

text \<open>The numbers under addition in the place of the curve; a point's second coordinate is one.\<close>

definition sampleMGM :: AEAD where
  "sampleMGM = sampleAEAD\<lparr>NonceSize := 16\<rparr>"

definition sampleGogost :: gogost where
  "sampleGogost =
     \<lparr>curve_P = 256 ^ 32, curve_Q = 2 ^ 255, NewPrivateKey = (\<lambda>raw. Inr (littleEndian raw)), PublicKey_of = (\<lambda>k. Inr (k mod 2 ^ 255, 1)),
      Raw_of = (\<lambda>(x, y). be 32 x @ be 32 y), NewPublicKey = (\<lambda>b. Inr (nat_be (take 32 b), nat_be (drop 32 b))),
      curve_Contains = (\<lambda>(x, y). y = 1), curve_Exp = (\<lambda>k (x, y). Inr (k * x, y)), NewUKM = nat_be,
      KEK2012256 = (\<lambda>a (x, y) u. Inr (be 32 ((a mod 2 ^ 255) * x * u))), kdf_Derive = (\<lambda>key label seed. fit 32 key), NewMGM = (\<lambda>k. Inr sampleMGM),
      SignDigest = (\<lambda>k d w. (Inr (fit 64 (be 32 (k mod 2 ^ 255) @ d)), w)), VerifyDigest = (\<lambda>(x, y) d sig. Inr (sig = fit 64 (be 32 x @ d))),
      streebog256 = fit 32\<rparr>"

lemma sampleGogost_ok: "gogost_ok sampleGogost"
proof -
  have "(2 :: nat) ^ 255 < 256 ^ 32" by simp
  then have small: "x mod 2 ^ 255 < (256 :: nat) ^ 32" for x :: nat by (meson less_trans mod_less_divisor zero_less_numeral zero_less_power)
  have pt: "honest_point sampleGogost (x mod 2 ^ 255, 1)" for x
    using small [of x] by (simp add: honest_point_def sampleGogost_def nat_be_be)
  have "gost_keys_ok sampleGogost"
    unfolding gost_keys_ok_def
  proof (intro conjI allI impI)
    fix k :: nat assume "0 < k" "k < curve_Q sampleGogost"
    have "PublicKey_of sampleGogost k = Inr (k mod 2 ^ 255, 1)" by (simp add: sampleGogost_def)
    then show "\<exists>pt. PublicKey_of sampleGogost k = Inr pt \<and> honest_point sampleGogost pt" using pt by blast
  qed (auto simp: sampleGogost_def mult.commute)
  moreover have "mgm_ok sampleMGM" by (auto simp: mgm_ok_def sampleMGM_def sampleAEAD_def split: if_splits)
  ultimately show ?thesis by (simp add: gogost_ok_def) (simp add: sampleGogost_def)
qed

lemma nat_be_zeros: "nat_be (replicate n 0) = 0"
  by (induction n) (simp_all add: nat_be_def)

definition gostWorld :: world where
  "gostWorld = \<lparr>rnd = replicate 32 0 @ 1 # replicate 31 0, live = 0, limit = 1, sizeCache = Map.empty\<rparr>"

theorem gost_key_drawn_witness:
  "\<exists>pub w'. GenerateEphemeral (gost sampleGogost) gostWorld = (Inr (1 # replicate 31 0, pub), w') \<and> rnd w' = []"
proof -
  have "scalarOk sampleGogost (1 # replicate 31 0)" "\<not> scalarOk sampleGogost (replicate 32 0)"
    by (simp_all add: scalarOk_def littleEndian_def nat_be_zeros) (simp add: sampleGogost_def)
  then show ?thesis
    using gost_key_drawn [OF sampleGogost_ok, of gostWorld 1] by (auto simp: gostWorld_def)
qed

theorem chosen_suite_keeps_contract_witness:
  "\<exists>p n. suite_New sampleGogost samplePrimitives SuiteGOST = Inr p \<and> pSuite p = SuiteGOST \<and> provider_ok p n 16 \<and> signing_ok p"
proof -
  have "suite_Parse ''gost'' = Inr SuiteGOST" by (simp add: suite_Parse_def suite_String_def)
  then show ?thesis using chosen_suite_keeps_contract [OF sampleGogost_ok samplePrimitives_ok] by blast
qed

end
