(* ===== verification/ClientCmd.thy ===== *)
theory ClientCmd
  imports Choose ClientChain Fetch Secmem Gost
begin

text \<open>
  \<^verbatim>\<open>cmd/client/main.go\<close>: how the client command takes a chain from the nodes it was given, and what it
  says about it. The flags, the hardening of the process and the printing itself are left out. The
  packages of the repository it calls are the definitions of the other theories; \<^verbatim>\<open>net/http\<close>,
  \<^verbatim>\<open>net/url\<close>, \<^verbatim>\<open>encoding/json\<close> and \<^verbatim>\<open>netip\<close> are the record \<open>services\<close>. \<^verbatim>\<open>selection.rnd\<close> is the bytes it
  still gives, apart from the random source of the primitives. A log line is a value with what the
  line prints. The theorems show that the chain is verified, that the lines do not depend on the draw,
  and how a run of messages ends.
\<close>

section \<open>Errors of the command\<close>

text \<open>
  \<open>EntryError\<close> is \<^verbatim>\<open>entryError\<close>, \<open>NamedNode\<close> the text \<^verbatim>\<open>node %s: %w\<close>, \<open>NoBundle\<close> is \<^verbatim>\<open>errNoBundle\<close> and \<open>TooFew\<close>
  wraps \<^verbatim>\<open>errTooFew\<close> with its counts.
\<close>

datatype clientFailure =
    EntryError clientFailure | NamedNode bytes clientFailure | FromFetch fetchError
  | NoBundle | TooFew int nat int | Plain error

text \<open>\<^verbatim>\<open>errors.Is\<close> and \<^verbatim>\<open>errors.As\<close> with \<^verbatim>\<open>*fetch.StatusError\<close>.\<close>

fun failure_Is :: "clientFailure \<Rightarrow> clientFailure \<Rightarrow> bool" where
  "failure_Is (EntryError e) t \<longleftrightarrow> EntryError e = t \<or> failure_Is e t"
| "failure_Is (NamedNode a e) t \<longleftrightarrow> NamedNode a e = t \<or> failure_Is e t"
| "failure_Is (FromFetch (Failed e)) t \<longleftrightarrow> FromFetch (Failed e) = t \<or> (case t of Plain u \<Rightarrow> errors_Is e u | _ \<Rightarrow> False)"
| "failure_Is (Plain e) t \<longleftrightarrow> (case t of Plain u \<Rightarrow> errors_Is e u | _ \<Rightarrow> False)"
| "failure_Is e t \<longleftrightarrow> e = t"

fun failure_status :: "clientFailure \<Rightarrow> (int \<times> string) option" where
  "failure_status (EntryError e) = failure_status e"
| "failure_status (NamedNode a e) = failure_status e"
| "failure_status (FromFetch (StatusError code unpublished)) = Some (code, unpublished)"
| "failure_status e = None"

text \<open>\<^verbatim>\<open>%d\<close> of a number.\<close>

fun showNat :: "nat \<Rightarrow> string" where
  "showNat n = (if n < 10 then [char_of (48 + n)] else showNat (n div 10) @ [char_of (48 + n mod 10)])"

declare showNat.simps [simp del]

definition showInt :: "int \<Rightarrow> string" where
  "showInt i = (if i < 0 then CHR ''-'' # showNat (nat (- i)) else showNat (nat i))"

definition StatusError_Error :: "int \<Rightarrow> string \<Rightarrow> string" where
  "StatusError_Error code unpublished =
     (if code = 503 \<and> unpublished \<noteq> '''' then unpublished else ''request answered status '' @ showInt code)"

definition knownFailures :: "(clientFailure \<times> string) list" where
  "knownFailures =
     [(NoBundle, ''the entry holds no bundle for it''), (FromFetch TooLarge, ''answer over the size limit''),
      (Plain ErrFormat, ''pki: malformed encoding''), (Plain ErrPkiVersion, ''pki: unknown format version''),
      (Plain ErrDuplicateNode, ''pki: node repeated in the chain''), (Plain ErrHandshake, ''link: handshake failed''),
      (Plain ErrNodeKey, ''client: node key missing or of the wrong size''), (Plain ErrPayloadSize, ''wire: payload too large'')]"

text \<open>A deadline of the system is the error \<open>ErrDeadline\<close>, for a connection and for a request alike.\<close>

definition client_failureClass :: "clientFailure \<Rightarrow> string" where
  "client_failureClass e =
     (case failure_status e of
        Some (code, unpublished) \<Rightarrow> StatusError_Error code unpublished
      | None \<Rightarrow>
          (case find (\<lambda>(known, text). failure_Is e known) knownFailures of
             Some (known, text) \<Rightarrow> text
           | None \<Rightarrow> if failure_Is e (Plain ErrDeadline) then ''timed out'' else ''connection failed''))"

text \<open>What is printed of an error: one of the texts above, or the whole error.\<close>

datatype shown = Class string | Full clientFailure

definition failure_Error :: "clientFailure \<Rightarrow> shown" where
  "failure_Error e = (case e of EntryError f \<Rightarrow> Class (''the entry: '' @ client_failureClass f) | _ \<Rightarrow> Full e)"

section \<open>Flags\<close>

definition splitList :: "string \<Rightarrow> string list" where
  "splitList s = filter (\<lambda>p. p \<noteq> '''') (map TrimSpace (splitOn (CHR '','') s))"

fun checkAddrs :: "(bytes \<Rightarrow> (bytes \<times> bytes) option) \<Rightarrow> bytes list \<Rightarrow> bytes list \<Rightarrow> unit result" where
  "checkAddrs ip [] seen = Inr ()"
| "checkAddrs ip (addr # addrs) seen =
     (if \<not> ValidAddr ip addr then Inl (Message ''-nodes: want host:port'')
      else if addr \<in> set seen then Inl (Message ''-nodes: listed twice'')
      else checkAddrs ip addrs (addr # seen))"

definition checkNodes :: "(bytes \<Rightarrow> (bytes \<times> bytes) option) \<Rightarrow> provider \<Rightarrow> bytes list \<Rightarrow> int \<Rightarrow> bytes \<Rightarrow> unit io" where
  "checkNodes ip p addrs hops infoPort w =
     (if addrs = [] then (Inl (Message ''no nodes given''), w)
      else
        case MaxLayers p w of
          (Inl e, w) \<Rightarrow> (Inl e, w)
        | (Inr most, w) \<Rightarrow>
            (if hops < 1 then Inl (Message ''-hops: want at least 1'')
             else if hops > most then Inl (Message ''-hops: a setup cell carries fewer'')
             else if int (length addrs) < hops then Inl (Message ''-nodes: -hops needs at least as many'')
             else if \<not> validPort infoPort then Inl (Message ''-info-port: want a port number'')
             else checkAddrs ip addrs [], w))"

definition trustPolicy :: "bool \<Rightarrow> string \<Rightarrow> suite \<Rightarrow> int \<Rightarrow> Policy result" where
  "trustPolicy auth ca s skew =
     (if \<not> auth then Inr \<lparr>po_Anchor = \<lparr>an_Suite = 0, an_Pub = []\<rparr>, po_Skew = 0, po_MaxLife = 0\<rparr>
      else if ca = '''' then Inl (Message ''-auth needs -ca, the anchor printed by jimichi enroll'')
      else
        case ParseAnchor ca of
          Inl e \<Rightarrow> Inl (Errorf (Message ''-ca'') e)
        | Inr anchor \<Rightarrow>
            if an_Suite anchor \<noteq> s then Inl (Errorf (Message ''-ca is an anchor for another suite'') ErrSuite)
            else if skew < 0 then Inl (Message ''-skew: must not be negative'')
            else Inr \<lparr>po_Anchor = anchor, po_Skew = skew, po_MaxLife = 0\<rparr>)"

section \<open>The request to the entry\<close>

text \<open>\<^verbatim>\<open>url.URL.String\<close> and \<^verbatim>\<open>url.Parse\<close>, what the source reads of a parsed URL, and the answers of the network.\<close>

record urlParts =
  up_Hostname :: bytes
  up_Port :: bytes
  up_Path :: bytes
  up_User :: "bytes option"
  up_RawQuery :: bytes
  up_Fragment :: bytes

record services =
  sv_json :: json
  sv_mirror :: mirrorJson
  sv_ip :: "bytes \<Rightarrow> (bytes \<times> bytes) option"
  sv_urlString :: "bytes \<Rightarrow> bytes \<Rightarrow> bytes"
  sv_urlParse :: "bytes \<Rightarrow> urlParts option"
  sv_web :: "bytes \<Rightarrow> nat \<Rightarrow> httpAnswer"

definition JoinHostPort :: "bytes \<Rightarrow> bytes \<Rightarrow> bytes" where
  "JoinHostPort host port =
     (if byte_of (CHR '':'') \<in> set host then byte_of (CHR ''['') # host @ [byte_of (CHR '']''), byte_of (CHR '':'')] @ port
      else host @ [byte_of (CHR '':'')] @ port)"

definition fetchURL :: "services \<Rightarrow> bytes \<Rightarrow> bytes \<Rightarrow> bytes \<Rightarrow> bytes result" where
  "fetchURL sv addr port path =
     (case SplitHostPort addr of
        None \<Rightarrow> Inl (Message ''net: not host:port'')
      | Some (host, _) \<Rightarrow>
          (let u = sv_urlString sv (JoinHostPort host port) path in
           case sv_urlParse sv u of
             None \<Rightarrow> Inl (Message ''fetch: does not name one host and port'')
           | Some u' \<Rightarrow>
               if \<not> validHost (sv_ip sv) host \<or> \<not> validPort port \<or> up_Hostname u' \<noteq> host \<or> up_Port u' \<noteq> port
                  \<or> up_Path u' \<noteq> path \<or> up_User u' \<noteq> None \<or> up_RawQuery u' \<noteq> [] \<or> up_Fragment u' \<noteq> []
               then Inl (Message ''fetch: does not name one host and port'')
               else Inr u))"

definition nodeBundles :: "services \<Rightarrow> bytes list \<Rightarrow> int \<Rightarrow> bytes \<Rightarrow> int \<Rightarrow> clientFailure + bytes option list" where
  "nodeBundles sv addrs entry infoPort attempts =
     (if entry < 0 \<or> entry \<ge> int (length addrs) then Inl (Plain Panic)
      else
        case fetchURL sv (addrs ! nat entry) infoPort (ascii ''/descriptors'') of
          Inl e \<Rightarrow> Inl (EntryError (Plain e))
        | Inr url \<Rightarrow>
            (case fetchMirror (sv_mirror sv) (sv_json sv) (sv_ip sv) (sv_web sv url) attempts of
               Inl e \<Rightarrow> Inl (EntryError (FromFetch e))
             | Inr got \<Rightarrow>
                 (let entries = (case got of None \<Rightarrow> [] | Some (_, es) \<Rightarrow> es);
                      held = map_of (rev (map (\<lambda>e. (me_Addr e, me_Bundle e)) entries))
                  in Inr (map held addrs))))"

section \<open>The chain\<close>

record selection =
  s_addrs :: "bytes list"
  s_hops :: int
  s_fixed :: bool
  s_missing :: int
  s_infoPort :: bytes
  s_auth :: bool
  s_trust :: Policy
  s_attempts :: int

definition resolve :: "services \<Rightarrow> provider \<Rightarrow> bool \<Rightarrow> Policy \<Rightarrow> bytes list \<Rightarrow> bytes list \<Rightarrow> int \<Rightarrow> Verified list io" where
  "resolve sv p auth trust addrs bundles now =
     (if auth then VerifyChain (sv_json sv) (sv_ip sv) p trust addrs bundles now else Unverified (sv_json sv) p addrs bundles)"

definition nodeOf :: "Verified \<Rightarrow> Node" where
  "nodeOf v = \<lparr>n_Addr = v_Addr v, n_StaticPub = v_OnionPub v, n_LinkPub = v_LinkPub v\<rparr>"

definition chainOf :: "Verified list \<Rightarrow> int list \<Rightarrow> Node list result" where
  "chainOf nodes path =
     (if list_all (\<lambda>i. 0 \<le> i \<and> i < int (length nodes)) path then Inr (map (\<lambda>i. nodeOf (nodes ! nat i)) path) else Inl Panic)"

text \<open>The first loop of \<^verbatim>\<open>chain\<close>: for every listed node its place among the nodes that are there, or -1.\<close>

fun places :: "bytes option list \<Rightarrow> int \<Rightarrow> int list" where
  "places [] k = []"
| "places (None # bs) k = -1 # places bs k"
| "places (Some b # bs) k = k # places bs (k + 1)"

fun firstMissing :: "nat \<Rightarrow> nat \<Rightarrow> bytes list \<Rightarrow> int list \<Rightarrow> clientFailure + unit" where
  "firstMissing 0 i addrs at = Inr ()"
| "firstMissing (Suc k) i addrs at =
     (if i \<ge> length at then Inl (Plain Panic)
      else if at ! i < 0 then Inl (NamedNode (addrs ! i) NoBundle)
      else firstMissing k (i + 1) addrs at)"

definition enough :: "selection \<Rightarrow> int list \<Rightarrow> int \<Rightarrow> clientFailure + unit" where
  "enough s at entry =
     (if s_fixed s then firstMissing (nat (s_hops s)) 0 (s_addrs s) at
      else
        case JudgeMirror (map (\<lambda>place. 0 \<le> place) at) entry (s_hops s) (s_missing s) of
          (MirrorTaken, _, _) \<Rightarrow> Inr ()
        | (MirrorLacksEntry, _, _) \<Rightarrow> Inl (EntryError NoBundle)
        | (MirrorLacksTooMany, absent, allowed) \<Rightarrow> Inl (TooFew absent (length (s_addrs s)) allowed))"

fun failure_entry :: "clientFailure \<Rightarrow> clientFailure option" where
  "failure_entry (EntryError e) = Some e"
| "failure_entry (NamedNode a e) = failure_entry e"
| "failure_entry e = None"

definition selection_named :: "selection \<Rightarrow> clientFailure \<Rightarrow> clientFailure" where
  "selection_named s e =
     (case failure_entry e of
        Some f \<Rightarrow> if s_fixed s then NamedNode (s_addrs s ! 0) f else e
      | None \<Rightarrow> e)"

definition cause :: "selection \<Rightarrow> clientFailure \<Rightarrow> shown" where
  "cause s e = (if s_fixed s then Full e else Class (client_failureClass e))"

text \<open>The lines: a node with the end of its certificate and, on a fixed chain, of its descriptor; the counts.\<close>

datatype logLine = NodeLine bytes string int "int option" | VerifiedLine nat nat

definition nodeLine :: "selection \<Rightarrow> provider \<Rightarrow> Verified \<Rightarrow> logLine" where
  "nodeLine s p v =
     NodeLine (v_Name v) (Fingerprint p (v_Identity v)) (v_CertUntil v) (if s_fixed s then Some (v_DescUntil v) else None)"

definition chainLines :: "selection \<Rightarrow> provider \<Rightarrow> Verified list \<Rightarrow> logLine list" where
  "chainLines s p nodes =
     (if s_auth s then map (nodeLine s p) nodes @ [VerifiedLine (length nodes) (length (s_addrs s))] else [])"

text \<open>\<^verbatim>\<open>chain\<close> once the nodes are known: the path and the chain.\<close>

definition drawChain :: "selection \<Rightarrow> int list \<Rightarrow> int \<Rightarrow> Verified list \<Rightarrow> bytes \<Rightarrow> (clientFailure + Node list) \<times> bytes" where
  "drawChain s at entry nodes rd =
     (if s_hops s < 0 \<or> s_hops s > int (length at) then (Inl (Plain Panic), rd)
      else
        case (if s_fixed s then (Inr (take (nat (s_hops s)) at), rd) else ChooseRest (at ! nat entry) (int (length nodes)) (s_hops s) rd) of
          (Inl e, rd) \<Rightarrow> (Inl (Plain e), rd)
        | (Inr path, rd) \<Rightarrow> (case chainOf nodes path of Inl e \<Rightarrow> Inl (Plain e) | Inr c \<Rightarrow> Inr c, rd))"

text \<open>The part of \<^verbatim>\<open>chain\<close> after the bundles are there.\<close>

definition chainRest ::
  "services \<Rightarrow> selection \<Rightarrow> provider \<Rightarrow> int \<Rightarrow> bytes option list \<Rightarrow> int \<Rightarrow> bytes \<Rightarrow> world \<Rightarrow> (clientFailure + Node list) \<times> logLine list \<times> bytes \<times> world" where
  "chainRest sv s p now bundles entry rd w =
     (case enough s (places bundles 0) entry of
        Inl e \<Rightarrow> (Inl e, [], rd, w)
      | Inr _ \<Rightarrow>
          (case resolve sv p (s_auth s) (s_trust s)
                 (map fst (filter (\<lambda>(a, b). b \<noteq> None) (zip (s_addrs s) bundles))) (List.map_filter (\<lambda>b. b) bundles) now w of
             (Inl e, w) \<Rightarrow> (Inl (Plain e), [], rd, w)
           | (Inr nodes, w) \<Rightarrow> (case drawChain s (places bundles 0) entry nodes rd of (res, rd) \<Rightarrow> (res, chainLines s p nodes, rd, w))))"

definition selection_chain ::
  "services \<Rightarrow> selection \<Rightarrow> provider \<Rightarrow> int \<Rightarrow> bytes \<Rightarrow> world \<Rightarrow> (clientFailure + Node list) \<times> logLine list \<times> bytes \<times> world" where
  "selection_chain sv s p now rd w =
     (case (if s_fixed s then (Inr 0, rd) else ChooseEntry (int (length (s_addrs s))) rd) of
        (Inl e, rd) \<Rightarrow> (Inl (Plain e), [], rd, w)
      | (Inr entry, rd) \<Rightarrow>
          (case nodeBundles sv (s_addrs s) entry (s_infoPort s) (s_attempts s) of
             Inl e \<Rightarrow> (Inl (selection_named s e), [], rd, w)
           | Inr bundles \<Rightarrow> chainRest sv s p now bundles entry rd w))"

section \<open>From the flags to the circuit\<close>

text \<open>
  \<^verbatim>\<open>main\<close> between the protection of the process and the first message: what is settled before anything is
  asked for, the chain, and the circuit over it. \<open>G\<close> and \<open>C\<close> are the primitives of the two suites and
  \<open>dial\<close> what a connection to an address reaches.
\<close>

record clientFlags =
  fl_nodes :: string
  fl_hops :: int
  fl_fixed :: bool
  fl_infoPort :: string
  fl_cover :: int
  fl_mode :: string
  fl_rate :: int
  fl_jitter :: int
  fl_suite :: string
  fl_auth :: bool
  fl_ca :: string
  fl_skew :: int
  fl_missing :: int

definition fetchAttempts :: int where "fetchAttempts = 30"

definition selectionOf :: "clientFlags \<Rightarrow> bytes list \<Rightarrow> Policy \<Rightarrow> selection" where
  "selectionOf f addrs trust =
     \<lparr>s_addrs = addrs, s_hops = fl_hops f, s_fixed = fl_fixed f, s_missing = fl_missing f, s_infoPort = ascii (fl_infoPort f),
      s_auth = fl_auth f, s_trust = trust, s_attempts = fetchAttempts\<rparr>"

definition clientConfigOf :: "clientFlags \<Rightarrow> provider \<Rightarrow> Node list \<Rightarrow> ClientConfig" where
  "clientConfigOf f p c =
     \<lparr>cc_Provider = p, cc_Chain = c, cc_Mode = (if fl_mode f = ''fixed'' then ConstantRate else Immediate),
      cc_Rate = (if fl_mode f = ''fixed'' then fl_rate f else 0), cc_CoverRate = fl_cover f, cc_Jitter = fl_jitter f\<rparr>"

definition clientStart ::
  "services \<Rightarrow> gogost \<Rightarrow> ('s, 'p) curve25519 \<Rightarrow> (bytes \<Rightarrow> Raw result) \<Rightarrow> clientFlags \<Rightarrow> int \<Rightarrow> bytes \<Rightarrow> world
    \<Rightarrow> (shown + Client) \<times> logLine list \<times> world" where
  "clientStart sv G C dial f now rd w =
     (let fatal = (\<lambda>e. Full (Plain e)) in
      case suite_Parse (fl_suite f) of
        Inl e \<Rightarrow> (Inl (fatal e), [], w)
      | Inr chosen \<Rightarrow>
          (case suite_New G C chosen of
             Inl e \<Rightarrow> (Inl (fatal e), [], w)
           | Inr p \<Rightarrow>
               (let addrs = map ascii (splitList (fl_nodes f)) in
                case checkNodes (sv_ip sv) p addrs (fl_hops f) (ascii (fl_infoPort f)) w of
                  (Inl e, w) \<Rightarrow> (Inl (fatal e), [], w)
                | (Inr _, w) \<Rightarrow>
                    (case trustPolicy (fl_auth f) (fl_ca f) chosen (fl_skew f) of
                       Inl e \<Rightarrow> (Inl (fatal e), [], w)
                     | Inr trust \<Rightarrow>
                         if fl_missing f < 0 then (Inl (fatal (Message ''-missing: must not be negative'')), [], w)
                         else
                           let s = selectionOf f addrs trust in
                           case selection_chain sv s p now rd w of
                             (Inl e, lines, rd, w) \<Rightarrow> (Inl (failure_Error e), lines, w)
                           | (Inr c, lines, rd, w) \<Rightarrow>
                               (case client_Dial (clientConfigOf f p c) dial w of
                                  (Inl e, w) \<Rightarrow> (Inl (cause s (Plain e)), lines, w)
                                | (Inr cl, w) \<Rightarrow> (Inr cl, lines, w))))))"

section \<open>Messages\<close>

text \<open>
  \<^verbatim>\<open>circuit\<close>, the interface of the client as the command uses it, over any state \<open>'s\<close>. \<open>ci_reply\<close> is what
  the wait of five seconds for \<^verbatim>\<open>Replies\<close> gives.
\<close>

datatype replyEvent = Reply bytes | RepliesClosed | NoReply

record 's circuitIface =
  if_Send :: "bytes \<Rightarrow> 's \<Rightarrow> unit result \<times> 's"
  if_reply :: "'s \<Rightarrow> replyEvent \<times> 's"
  if_Refused :: "'s \<Rightarrow> error option"

datatype exitLine = NoLine | SendLine shown | ClosedLine "error option"

definition exitRefused :: int where "exitRefused = 3"

definition ending :: "error option \<Rightarrow> int \<times> exitLine" where
  "ending refused = (case refused of Some e \<Rightarrow> (exitRefused, ClosedLine (Some e)) | None \<Rightarrow> (1, ClosedLine None))"

text \<open>The lines of the loop: the size of a reply, or that none came.\<close>

datatype tripLine = RoundTrip nat | NoReplyLine

text \<open>One turn of the loop of \<^verbatim>\<open>exchange\<close>: the end of the circuit, or the line of this message.\<close>

definition exchangeTurn :: "'s circuitIface \<Rightarrow> bytes \<Rightarrow> (error \<Rightarrow> shown) \<Rightarrow> 's \<Rightarrow> ((int \<times> exitLine) + tripLine) \<times> 's" where
  "exchangeTurn c message say s =
     (case if_Send c message s of
        (Inl e, s) \<Rightarrow>
          (Inl (case if_Refused c s of Some r \<Rightarrow> ending (Some r) | None \<Rightarrow> (1, SendLine (say e))), s)
      | (Inr _, s) \<Rightarrow>
          (case if_reply c s of
             (Reply reply, s) \<Rightarrow> (Inr (RoundTrip (length reply)), s)
           | (RepliesClosed, s) \<Rightarrow> (Inl (ending (if_Refused c s)), s)
           | (NoReply, s) \<Rightarrow> (Inr NoReplyLine, s)))"

partial_function (option) exchangeLoop ::
  "'s circuitIface \<Rightarrow> bytes \<Rightarrow> int \<Rightarrow> (error \<Rightarrow> shown) \<Rightarrow> int \<Rightarrow> tripLine list \<Rightarrow> 's \<Rightarrow> ((int \<times> exitLine) \<times> tripLine list \<times> 's) option" where
  "exchangeLoop c message n say i lines s =
     (if n = 0 \<or> i < n then
        case exchangeTurn c message say s of
          (Inl ended, s) \<Rightarrow> Some (ended, lines, s)
        | (Inr line, s) \<Rightarrow> exchangeLoop c message n say (i + 1) (lines @ [line]) s
      else Some ((0, NoLine), lines, s))"

definition exchange ::
  "'s circuitIface \<Rightarrow> bytes \<Rightarrow> int \<Rightarrow> (error \<Rightarrow> shown) \<Rightarrow> 's \<Rightarrow> ((int \<times> exitLine) \<times> tripLine list \<times> 's) option" where
  "exchange c message n say s = exchangeLoop c message n say 0 [] s"

section \<open>The chain is verified\<close>

abbreviation present :: "bytes list \<Rightarrow> bytes option list \<Rightarrow> bytes list" where
  "present addrs bundles \<equiv> map fst (filter (\<lambda>(a, b). b \<noteq> None) (zip addrs bundles))"

lemma length_places [simp]: "length (places bs k) = length bs"
  by (induction bs k rule: places.induct) simp_all

lemma places_present:
  assumes "i < length bs" "length addrs = length bs" "0 \<le> k" "0 \<le> places bs k ! i"
  shows "k \<le> places bs k ! i \<and> nat (places bs k ! i - k) < length (present addrs bs)
    \<and> present addrs bs ! nat (places bs k ! i - k) = addrs ! i"
  using assms
proof (induction bs k arbitrary: addrs i rule: places.induct)
  case (2 bs k)
  obtain a as where a: "addrs = a # as" using 2(3) by (cases addrs) auto
  show ?case
  proof (cases i)
    case (Suc j)
    then show ?thesis using 2(1) [of j as] 2(2-5) a by simp
  qed (use 2 in simp)
next
  case (3 b bs k)
  obtain a as where a: "addrs = a # as" using 3(3) by (cases addrs) auto
  show ?case
  proof (cases i)
    case (Suc j)
    let ?m = "places bs (k + 1) ! j"
    have ih: "k + 1 \<le> ?m" "nat (?m - (k + 1)) < length (present as bs)" "present as bs ! nat (?m - (k + 1)) = as ! j"
      using 3(1) [of j as] 3(2-5) a Suc by simp_all
    have "nat (?m - k) = Suc (nat (?m - (k + 1)))" using ih(1) by (simp add: nat_diff_distrib)
    then show ?thesis using ih a Suc by simp
  qed (use a in simp)
qed simp

lemma places_less:
  assumes "i < j" "j < length bs" "0 \<le> k" "0 \<le> places bs k ! j"
  shows "places bs k ! i < places bs k ! j"
  using assms
proof (induction bs k arbitrary: i j rule: places.induct)
  case (2 bs k)
  then show ?case by (cases i; cases j) auto
next
  case (3 b bs k)
  have "k + 1 \<le> places bs (k + 1) ! m" if "m < length bs" "0 \<le> places bs (k + 1) ! m" for m
    using places_present [of m bs "replicate (length bs) []" "k + 1"] that 3(4) by simp
  then show ?case using 3 by (cases i; cases j) force+
qed simp

lemma present_subset: "set (present addrs bs) \<subseteq> set addrs"
  by (auto dest: set_zip_leftD)

lemma fixed_places:
  assumes "firstMissing k i addrs at = Inr ()" "j < k"
  shows "i + j < length at \<and> 0 \<le> at ! (i + j)"
  using assms
proof (induction k i addrs at arbitrary: j rule: firstMissing.induct)
  case (2 k i addrs at)
  then show ?case by (cases j) (auto split: if_splits)
qed simp

definition node_verified :: "provider \<Rightarrow> Policy \<Rightarrow> int \<Rightarrow> Node \<Rightarrow> bool" where
  "node_verified p pol now n \<longleftrightarrow>
     (\<exists>c d. cert_accepted p pol (n_Addr n) now c \<and> desc_accepted p pol now c d \<and> n_StaticPub n = d_OnionPub d \<and> n_LinkPub n = d_LinkPub d)"

lemma VerifyChain_nodes:
  assumes "VerifyChain js ip p pol addrs bundles now w = (Inr vs, w')" "v \<in> set vs"
  shows "node_verified p pol now (nodeOf v)"
proof -
  obtain w1 where r: "length addrs = length bundles"
    "readNodes (\<lambda>addr bundle. Verify js ip p pol addr bundle now) addrs bundles w = (Inr vs, w1)"
    using assms(1) by (auto simp: VerifyChain_def eachNode_def split: if_splits prod.splits sum.splits)
  obtain a b w2 w3 where "Verify js ip p pol a b now w2 = (Inr v, w3)"
    using readNodes_Inr [OF r(2,1)] assms(2) by (auto simp: list_all2_conv_all_nth in_set_conv_nth)
  then obtain c d where "cert_accepted p pol a now c" "desc_accepted p pol now c d" "v = verified_of c d"
    by (auto simp: Verify_Inr)
  then show ?thesis
    unfolding node_verified_def by (intro exI [of _ c] exI [of _ d]) (simp add: nodeOf_def verified_of_def cert_accepted_def)
qed

lemma drawChain_path:
  assumes "drawChain s at entry nodes rd = (Inr c, rd')" "length nodes < 2 ^ 63" "\<not> s_fixed s"
  obtains path where "int (length path) = s_hops s" "distinct path" "set path \<subseteq> {0..<int (length nodes)}" "hd path = at ! nat entry"
    "c = map (\<lambda>i. nodeOf (nodes ! nat i)) path" "path \<noteq> []"
proof -
  obtain path rd1 where p: "ChooseRest (at ! nat entry) (int (length nodes)) (s_hops s) rd = (Inr path, rd1)"
    "c = map (\<lambda>i. nodeOf (nodes ! nat i)) path"
    using assms(1,3) by (auto simp: drawChain_def chainOf_def split: if_splits prod.splits sum.splits)
  have "int (length nodes) < 2 ^ 63"
    using assms(2) by (metis of_nat_less_iff of_nat_numeral of_nat_power)
  note path = ChooseRest_path [OF p(1) this]
  moreover have "1 \<le> s_hops s" using p(1) by (auto simp: ChooseRest_def split: if_splits)
  ultimately have "path \<noteq> []" by auto
  then show ?thesis using that path p(2) by blast
qed

lemma drawChain_fixed:
  assumes "drawChain s at entry nodes rd = (Inr c, rd')" "s_fixed s"
  shows "0 \<le> s_hops s \<and> s_hops s \<le> int (length at) \<and> (\<forall>i \<in> set (take (nat (s_hops s)) at). 0 \<le> i \<and> i < int (length nodes))
    \<and> c = map (\<lambda>i. nodeOf (nodes ! nat i)) (take (nat (s_hops s)) at)"
  using assms by (auto simp: drawChain_def chainOf_def list_all_iff split: if_splits sum.splits)

text \<open>What a run that ends in a chain went through.\<close>

lemma selection_chain_Inr:
  assumes "selection_chain sv s p now rd w = (Inr c, lines, rd', w')"
  obtains entry rd1 bundles nodes where
    "(if s_fixed s then (Inr 0, rd) else ChooseEntry (int (length (s_addrs s))) rd) = (Inr entry, rd1)"
    "nodeBundles sv (s_addrs s) entry (s_infoPort s) (s_attempts s) = Inr bundles"
    "enough s (places bundles 0) entry = Inr ()"
    "resolve sv p (s_auth s) (s_trust s) (present (s_addrs s) bundles) (List.map_filter (\<lambda>b. b) bundles) now w = (Inr nodes, w')"
    "drawChain s (places bundles 0) entry nodes rd1 = (Inr c, rd')"
    "lines = chainLines s p nodes"
  using assms unfolding selection_chain_def chainRest_def
  by (auto split: prod.splits sum.splits)

lemma nodeBundles_length: "nodeBundles sv addrs entry port n = Inr bundles \<Longrightarrow> length bundles = length addrs \<and> 0 \<le> entry \<and> entry < int (length addrs)"
  by (auto simp: nodeBundles_def Let_def split: if_splits sum.splits)

lemma resolve_nodes:
  assumes "resolve sv p True pol addrs held now w = (Inr vs, w')"
  shows "map v_Addr vs = addrs" "distinct addrs" "distinct (map v_OnionPub vs)" "v \<in> set vs \<Longrightarrow> node_verified p pol now (nodeOf v)"
proof -
  have v: "VerifyChain (sv_json sv) (sv_ip sv) p pol addrs held now w = (Inr vs, w')" using assms by (simp add: resolve_def)
  show "map v_Addr vs = addrs" "distinct addrs" "distinct (map v_OnionPub vs)" using verified_chain_distinct [OF v] by simp_all
  show "node_verified p pol now (nodeOf v)" if "v \<in> set vs" using VerifyChain_nodes [OF v that] .
qed

lemma picked_distinct:
  assumes "distinct path" "set path \<subseteq> {0..<int (length vs)}" "distinct (map f vs)"
  shows "distinct (map (\<lambda>i. f (vs ! nat i)) path)"
proof -
  have "inj_on (\<lambda>i. f (vs ! nat i)) (set path)"
  proof (rule inj_onI)
    fix i j assume m: "i \<in> set path" "j \<in> set path" and e: "f (vs ! nat i) = f (vs ! nat j)"
    have ij: "nat i < length vs" "nat j < length vs" "0 \<le> i" "0 \<le> j" using assms(2) m by fastforce+
    then have "nat i = nat j" using e assms(3) by (metis length_map nth_eq_iff_index_eq nth_map)
    then show "i = j" using ij by simp
  qed
  then show ?thesis using assms(1) by (simp add: distinct_map)
qed

lemma nodeOf_maps [simp]:
  "map (\<lambda>i. n_Addr (nodeOf (f i))) path = map (\<lambda>i. v_Addr (f i)) path"
  "map (\<lambda>i. n_StaticPub (nodeOf (f i))) path = map (\<lambda>i. v_OnionPub (f i)) path"
  by (simp_all add: nodeOf_def)

text \<open>Nodes picked without repeats from the verified ones.\<close>

lemma picked_chain:
  assumes "resolve sv p True pol (present addrs bundles) held now w = (Inr nodes, w')"
    "distinct path" "set path \<subseteq> {0..<int (length nodes)}" "c = map (\<lambda>i. nodeOf (nodes ! nat i)) path"
  shows "distinct (map n_Addr c) \<and> distinct (map n_StaticPub c) \<and> set (map n_Addr c) \<subseteq> set addrs \<and> (\<forall>n \<in> set c. node_verified p pol now n)"
proof -
  note v = resolve_nodes [OF assms(1)]
  have mem: "nodes ! nat i \<in> set nodes" if "i \<in> set path" for i using that assms(3) by (intro nth_mem) fastforce
  have "set (map v_Addr nodes) \<subseteq> set addrs" unfolding v(1) by (rule present_subset)
  then have "v_Addr x \<in> set addrs" if "x \<in> set nodes" for x using that by auto
  then have "set (map n_Addr c) \<subseteq> set addrs" using mem by (auto simp: assms(4) nodeOf_def)
  moreover have "\<forall>n \<in> set c. node_verified p pol now n" using v(4) mem by (auto simp: assms(4))
  moreover have "distinct (map v_Addr nodes)" using v(1,2) by simp
  ultimately show ?thesis
    using picked_distinct [OF assms(2,3), of v_Addr] picked_distinct [OF assms(2,3), of v_OnionPub] v(3) by (simp add: assms(4) comp_def)
qed

lemma resolved_place:
  assumes "resolve sv p True pol (present addrs bundles) held now w = (Inr nodes, w')" "length bundles = length addrs"
    "i < length bundles" "0 \<le> places bundles 0 ! i"
  shows "v_Addr (nodes ! nat (places bundles 0 ! i)) = addrs ! i"
proof -
  let ?m = "nat (places bundles 0 ! i)"
  have "?m < length (present addrs bundles)" "present addrs bundles ! ?m = addrs ! i"
    using places_present [OF assms(3) assms(2) [symmetric] order_refl assms(4)] unfolding diff_0_right by blast+
  then show ?thesis using resolve_nodes(1) [OF assms(1)] by (metis length_map nth_map)
qed

lemma fixed_chain:
  assumes "resolve sv p True pol (present (s_addrs s) bundles) held now w = (Inr nodes, w')" "length bundles = length (s_addrs s)"
    "enough s (places bundles 0) 0 = Inr ()" "drawChain s (places bundles 0) 0 nodes rd = (Inr c, rd')" "s_fixed s"
  shows "int (length c) = s_hops s \<and> map n_Addr c = take (nat (s_hops s)) (s_addrs s)
    \<and> (\<exists>path. distinct path \<and> set path \<subseteq> {0..<int (length nodes)} \<and> c = map (\<lambda>i. nodeOf (nodes ! nat i)) path)"
proof -
  let ?path = "take (nat (s_hops s)) (places bundles 0)"
  have f: "0 \<le> s_hops s" "s_hops s \<le> int (length bundles)" "set ?path \<subseteq> {0..<int (length nodes)}" "c = map (\<lambda>i. nodeOf (nodes ! nat i)) ?path"
    using drawChain_fixed [OF assms(4,5)] by auto
  have there: "i < length bundles \<and> 0 \<le> places bundles 0 ! i" if "i < nat (s_hops s)" for i
    using fixed_places [of "nat (s_hops s)" 0 "s_addrs s" "places bundles 0" i] assms(3,5) that by (simp add: enough_def)
  have "v_Addr (nodes ! nat (places bundles 0 ! i)) = s_addrs s ! i" if "i < nat (s_hops s)" for i
    using resolved_place [OF assms(1,2), of i] there [OF that] by simp
  then have "map n_Addr c = take (nat (s_hops s)) (s_addrs s)"
    using f(1,2) assms(2) by (intro nth_equalityI) (auto simp: f(4) nodeOf_def)
  moreover have "distinct ?path"
  proof -
    have "?path ! i < ?path ! j" if "i < j" "j < length ?path" for i j
      using places_less [of i j bundles 0] there [of j] that by simp
    then show ?thesis unfolding distinct_conv_nth by (metis less_irrefl linorder_neqE_nat)
  qed
  moreover have "int (length c) = s_hops s" using f(1,2) by (simp add: f(4))
  ultimately show ?thesis using f(3,4) by blast
qed

lemma drawn_chain:
  assumes "resolve sv p True pol (present (s_addrs s) bundles) held now w = (Inr nodes, w')" "length bundles = length (s_addrs s)"
    "0 \<le> entry" "entry < int (length bundles)" "drawChain s (places bundles 0) entry nodes rd = (Inr c, rd')" "\<not> s_fixed s" "length (s_addrs s) < 2 ^ 63"
  shows "int (length c) = s_hops s \<and> n_Addr (hd c) = s_addrs s ! nat entry
    \<and> (\<exists>path. distinct path \<and> set path \<subseteq> {0..<int (length nodes)} \<and> c = map (\<lambda>i. nodeOf (nodes ! nat i)) path)"
proof -
  have "length nodes = length (present (s_addrs s) bundles)" using resolve_nodes(1) [OF assms(1)] by (metis length_map)
  also have "\<dots> \<le> length (zip (s_addrs s) bundles)" unfolding length_map by (rule length_filter_le)
  finally have "length nodes < 2 ^ 63" using assms(7) by simp
  then obtain path where path: "int (length path) = s_hops s" "distinct path" "set path \<subseteq> {0..<int (length nodes)}"
    "hd path = places bundles 0 ! nat entry" "c = map (\<lambda>i. nodeOf (nodes ! nat i)) path" "path \<noteq> []"
    using drawChain_path [OF assms(5) _ assms(6)] by blast
  have "0 \<le> places bundles 0 ! nat entry" using path(3,4,6) by (metis atLeastLessThan_iff hd_in_set subsetD)
  then have "n_Addr (hd c) = s_addrs s ! nat entry"
    using resolved_place [OF assms(1,2), of "nat entry"] assms(3,4) path(4,6) by (simp add: path(5) hd_map nodeOf_def)
  then show ?thesis using path(1,2,3,5) by auto
qed

lemma chain_verified:
  assumes "selection_chain sv s p now rd w = (Inr c, lines, rd', w')" "s_auth s" "length (s_addrs s) < 2 ^ 63"
  shows "int (length c) = s_hops s \<and> distinct (map n_Addr c) \<and> distinct (map n_StaticPub c) \<and> set (map n_Addr c) \<subseteq> set (s_addrs s)
    \<and> (\<forall>n \<in> set c. node_verified p (s_trust s) now n)
    \<and> (if s_fixed s then map n_Addr c = take (nat (s_hops s)) (s_addrs s)
       else \<exists>entry rd1. ChooseEntry (int (length (s_addrs s))) rd = (Inr entry, rd1) \<and> n_Addr (hd c) = s_addrs s ! nat entry)"
proof -
  obtain entry rd1 bundles nodes where r:
    "(if s_fixed s then (Inr 0, rd) else ChooseEntry (int (length (s_addrs s))) rd) = (Inr entry, rd1)"
    "nodeBundles sv (s_addrs s) entry (s_infoPort s) (s_attempts s) = Inr bundles" "enough s (places bundles 0) entry = Inr ()"
    "resolve sv p (s_auth s) (s_trust s) (present (s_addrs s) bundles) (List.map_filter (\<lambda>b. b) bundles) now w = (Inr nodes, w')"
    "drawChain s (places bundles 0) entry nodes rd1 = (Inr c, rd')"
    by (rule selection_chain_Inr [OF assms(1)])
  have res: "resolve sv p True (s_trust s) (present (s_addrs s) bundles) (List.map_filter (\<lambda>b. b) bundles) now w = (Inr nodes, w')"
    using r(4) assms(2) by simp
  note len = nodeBundles_length [OF r(2)]
  show ?thesis
  proof (cases "s_fixed s")
    case True
    then have "entry = 0" using r(1) by simp
    then have f: "int (length c) = s_hops s \<and> map n_Addr c = take (nat (s_hops s)) (s_addrs s)
        \<and> (\<exists>path. distinct path \<and> set path \<subseteq> {0..<int (length nodes)} \<and> c = map (\<lambda>i. nodeOf (nodes ! nat i)) path)"
      using fixed_chain [OF res] len r(3,5) True by blast
    then show ?thesis using picked_chain [OF res] True by (metis (no_types, lifting))
  next
    case False
    have "int (length c) = s_hops s \<and> n_Addr (hd c) = s_addrs s ! nat entry
        \<and> (\<exists>path. distinct path \<and> set path \<subseteq> {0..<int (length nodes)} \<and> c = map (\<lambda>i. nodeOf (nodes ! nat i)) path)"
      using drawn_chain [OF res _ _ _ r(5) False assms(3)] len by simp
    then show ?thesis using picked_chain [OF res] r(1) False by (metis (no_types, lifting))
  qed
qed

text \<open>
  C12: the chain the client command goes on with, when it authenticates the nodes, has exactly the number of
  hops asked for, no node twice by address or onion key, and only nodes of the list; every one of them carries
  a certificate of the trusted authority for that very address and a descriptor signed under it, both good at
  this time, and the keys used are those of the descriptor. A drawn chain begins with the entry that was drawn
  and asked for the bundles, a fixed chain is the head of the list.
\<close>

theorem client_chain_verified:
  assumes "selection_chain sv s p now rd w = (Inr c, lines, rd', w')" "s_auth s" "length (s_addrs s) < 2 ^ 63"
  shows "int (length c) = s_hops s \<and> distinct (map n_Addr c) \<and> distinct (map n_StaticPub c) \<and> set (map n_Addr c) \<subseteq> set (s_addrs s)
    \<and> (\<forall>n \<in> set c. node_verified p (s_trust s) now n)
    \<and> (if s_fixed s then map n_Addr c = take (nat (s_hops s)) (s_addrs s)
       else \<exists>entry rd1. ChooseEntry (int (length (s_addrs s))) rd = (Inr entry, rd1) \<and> n_Addr (hd c) = s_addrs s ! nat entry)"
  using chain_verified [OF assms] .

lemma client_Dial_cfg: "client_Dial cfg dial w = (Inr cl, w') \<Longrightarrow> cl_cfg cl = cfg"
  by (auto simp: client_Dial_def dialCircuit_def newClient_def startSchedule_def startCover_def Let_def split: if_splits prod.splits sum.splits)

lemma checkAddrs_ok: "checkAddrs ip addrs seen = Inr () \<longleftrightarrow> (\<forall>a \<in> set addrs. ValidAddr ip a) \<and> distinct addrs \<and> set addrs \<inter> set seen = {}"
  by (induction ip addrs seen rule: checkAddrs.induct) auto

lemma checkNodes_ok:
  "checkNodes ip p addrs hops port w = (Inr (), w') \<Longrightarrow>
     1 \<le> hops \<and> hops \<le> int (length addrs) \<and> (\<exists>most. MaxLayers p w = (Inr most, w') \<and> hops \<le> most) \<and> distinct addrs \<and> (\<forall>a \<in> set addrs. ValidAddr ip a)"
  by (auto simp: checkNodes_def checkAddrs_ok split: if_splits prod.splits sum.splits)

lemma trustPolicy_ok:
  "trustPolicy True ca s skew = Inr trust \<Longrightarrow>
     \<exists>anchor. ParseAnchor ca = Inr anchor \<and> an_Suite anchor = s \<and> 0 \<le> skew \<and> trust = \<lparr>po_Anchor = anchor, po_Skew = skew, po_MaxLife = 0\<rparr>"
  by (auto simp: trustPolicy_def split: if_splits sum.splits)

text \<open>
  A client that starts with authentication on runs over a chain whose every node was verified under the anchor of
  the command line, for the suite of the command line, with as many hops as asked for and never more than a setup
  cell of the suite carries.
\<close>

lemma client_starts_verified:
  assumes "clientStart sv G C dial f now rd w = (Inr cl, lines, w')" "fl_auth f" "length (splitList (fl_nodes f)) < 2 ^ 63"
  shows "\<exists>anchor most w1. ParseAnchor (fl_ca f) = Inr anchor \<and> suite_Parse (fl_suite f) = Inr (an_Suite anchor)
    \<and> suite_New G C (an_Suite anchor) = Inr (cc_Provider (cl_cfg cl))
    \<and> MaxLayers (cc_Provider (cl_cfg cl)) w = (Inr most, w1) \<and> int (length (cc_Chain (cl_cfg cl))) = fl_hops f \<and> 1 \<le> fl_hops f \<and> fl_hops f \<le> most
    \<and> distinct (map n_Addr (cc_Chain (cl_cfg cl)))
    \<and> (\<forall>n \<in> set (cc_Chain (cl_cfg cl)). node_verified (cc_Provider (cl_cfg cl)) \<lparr>po_Anchor = anchor, po_Skew = fl_skew f, po_MaxLife = 0\<rparr> now n)"
proof -
  let ?addrs = "map ascii (splitList (fl_nodes f))"
  obtain chosen p w1 trust c rd1 w2 w3 where r: "suite_Parse (fl_suite f) = Inr chosen" "suite_New G C chosen = Inr p"
    "checkNodes (sv_ip sv) p ?addrs (fl_hops f) (ascii (fl_infoPort f)) w = (Inr (), w1)"
    "trustPolicy True (fl_ca f) chosen (fl_skew f) = Inr trust"
    "selection_chain sv (selectionOf f ?addrs trust) p now rd w1 = (Inr c, lines, rd1, w2)" "client_Dial (clientConfigOf f p c) dial w2 = (Inr cl, w3)"
    using assms(1,2) by (auto simp: clientStart_def Let_def split: sum.splits prod.splits if_splits)
  have cfg: "cc_Provider (cl_cfg cl) = p" "cc_Chain (cl_cfg cl) = c"
    using client_Dial_cfg [OF r(6)] by (simp_all add: clientConfigOf_def)
  obtain anchor where a: "ParseAnchor (fl_ca f) = Inr anchor" "an_Suite anchor = chosen" "trust = \<lparr>po_Anchor = anchor, po_Skew = fl_skew f, po_MaxLife = 0\<rparr>"
    using trustPolicy_ok [OF r(4)] by blast
  obtain most where m: "MaxLayers p w = (Inr most, w1)" "fl_hops f \<le> most" "1 \<le> fl_hops f" using checkNodes_ok [OF r(3)] by blast
  have "s_auth (selectionOf f ?addrs trust)" "length (s_addrs (selectionOf f ?addrs trust)) < 2 ^ 63"
    using assms(2,3) by (simp_all add: selectionOf_def)
  from chain_verified [OF r(5) this]
  have "int (length c) = fl_hops f" "distinct (map n_Addr c)" "\<forall>n \<in> set c. node_verified p trust now n"
    by (simp_all add: selectionOf_def)
  then show ?thesis using r(1,2) a m cfg by (intro exI [of _ anchor] exI [of _ most] exI [of _ w1]) simp
qed

section \<open>The lines do not tell the path\<close>

lemma drawLoop_error: "drawLoop k bound reject rd = (Inl e, rd') \<Longrightarrow> e = ErrChoice \<or> e = ErrRandom"
  by (induction k arbitrary: rd) (auto simp: readBytes_def Let_def split: if_splits)

lemma below_error: "below rd m = (Inl e, rd') \<Longrightarrow> e = ErrChoice \<or> e = ErrRandom"
  by (auto simp: below_def Let_def dest: drawLoop_error)

lemma restLoop_error: "restLoop k i others path rd = (Inl e, rd') \<Longrightarrow> e = ErrChoice \<or> e = ErrRandom"
  by (induction k arbitrary: i others path rd) (auto simp: Let_def split: prod.splits sum.splits dest: below_error)

lemma ChooseEntry_error: "ChooseEntry n rd = (Inl e, rd') \<Longrightarrow> e = ErrChoice \<or> e = ErrRandom"
  by (auto simp: ChooseEntry_def split: if_splits dest: below_error)

lemma ChooseRest_error: "ChooseRest entry n hops rd = (Inl e, rd') \<Longrightarrow> e = ErrChoice \<or> e = ErrRandom"
  by (auto simp: ChooseRest_def split: if_splits dest: restLoop_error)

text \<open>Ends that have to do with the draw: the random source gave no choice, or the entry does not serve its own bundle.\<close>

definition drawFailed :: "clientFailure + 'a \<Rightarrow> bool" where
  "drawFailed r \<longleftrightarrow> r = Inl (Plain ErrChoice) \<or> r = Inl (Plain ErrRandom) \<or> r = Inl (EntryError NoBundle)"

text \<open>What the command prints of the end of \<^verbatim>\<open>chain\<close>: the text of its error, if any.\<close>

definition endShown :: "clientFailure + 'a \<Rightarrow> shown option" where
  "endShown r = (case r of Inl e \<Rightarrow> Some (failure_Error e) | Inr _ \<Rightarrow> None)"

lemma drawChain_shown:
  assumes "drawChain s at entry nodes rd = (r, rd')" "length nodes < 2 ^ 63" "\<not> s_fixed s"
  shows "drawFailed r \<or> endShown r = (if s_hops s < 0 \<or> s_hops s > int (length at) then Some (Full (Plain Panic)) else None)"
proof (cases "s_hops s < 0 \<or> s_hops s > int (length at)")
  case True
  then show ?thesis using assms by (auto simp: drawChain_def endShown_def failure_Error_def)
next
  case False
  obtain x rd1 where x: "ChooseRest (at ! nat entry) (int (length nodes)) (s_hops s) rd = (x, rd1)" by force
  have r: "r = (case x of Inl e \<Rightarrow> Inl (Plain e) | Inr path \<Rightarrow> (case chainOf nodes path of Inl e \<Rightarrow> Inl (Plain e) | Inr c \<Rightarrow> Inr c))"
    using assms(1,3) False x by (auto simp: drawChain_def split: sum.splits)
  show ?thesis
  proof (cases x)
    case (Inl e)
    then show ?thesis using ChooseRest_error x r by (auto simp: drawFailed_def)
  next
    case (Inr path)
    have "int (length nodes) < 2 ^ 63" using assms(2) by (metis of_nat_less_iff of_nat_numeral of_nat_power)
    then have "set path \<subseteq> {0..<int (length nodes)}" using ChooseRest_path x Inr by blast
    then have "chainOf nodes path = Inr (map (\<lambda>i. nodeOf (nodes ! nat i)) path)" by (auto simp: chainOf_def list_all_iff)
    then show ?thesis using r Inr False by (simp add: endShown_def)
  qed
qed

text \<open>What a run prints, when every entry gives the same answer \<open>B\<close>; \<open>bad\<close> is whether the draw fails.\<close>

definition chainShown :: "services \<Rightarrow> selection \<Rightarrow> provider \<Rightarrow> int \<Rightarrow> world \<Rightarrow> clientFailure + bytes option list \<Rightarrow> logLine list \<times> shown option" where
  "chainShown sv s p now w B =
     (case B of
        Inl e \<Rightarrow> ([], Some (failure_Error e))
      | Inr bundles \<Rightarrow>
          (let served = map (\<lambda>b. b \<noteq> None) bundles; absent = int (length (filter Not served));
               allowed = MaxAbsent (int (length served)) (s_hops s) (s_missing s)
           in if absent > allowed then ([], Some (Full (TooFew absent (length (s_addrs s)) allowed)))
              else
                case resolve sv p (s_auth s) (s_trust s) (present (s_addrs s) bundles) (List.map_filter (\<lambda>b. b) bundles) now w of
                  (Inl e, w) \<Rightarrow> ([], Some (Full (Plain e)))
                | (Inr nodes, w) \<Rightarrow>
                    (chainLines s p nodes,
                     if s_hops s < 0 \<or> s_hops s > int (length bundles) then Some (Full (Plain Panic)) else None)))"

lemma places_served: "0 \<le> k \<Longrightarrow> map (\<lambda>place. 0 \<le> place) (places bs k) = map (\<lambda>b. b \<noteq> None) bs"
  by (induction bs k rule: places.induct) simp_all

lemma resolve_length:
  assumes "resolve sv p auth pol addrs held now w = (Inr vs, w')"
  shows "length vs = length addrs"
proof -
  have "length as = length bs \<Longrightarrow> readNodes rd as bs w = (Inr vs, w') \<Longrightarrow> length vs = length as" for rd as bs w
    using list_all2_lengthD [OF readNodes_Inr] by metis
  then show ?thesis using assms by (auto simp: resolve_def VerifyChain_def Unverified_def eachNode_def split: if_splits prod.splits sum.splits)
qed

lemma enough_drawn:
  assumes "\<not> s_fixed s"
  shows "enough s (places bundles 0) entry = Inl (EntryError NoBundle) \<or>
    enough s (places bundles 0) entry =
      (let served = map (\<lambda>b. b \<noteq> None) bundles; absent = int (length (filter Not served));
           allowed = MaxAbsent (int (length served)) (s_hops s) (s_missing s)
       in if absent > allowed then Inl (TooFew absent (length (s_addrs s)) allowed) else Inr ())"
  using assms places_served [of 0 bundles] by (simp add: enough_def JudgeMirror_def Let_def)

lemma chainRest_shown:
  assumes "\<not> s_fixed s" "length (s_addrs s) < 2 ^ 63" "length bundles = length (s_addrs s)"
    "chainRest sv s p now bundles entry rd w = (r, lines, rd', w')"
  shows "drawFailed r \<or> (lines, endShown r) = chainShown sv s p now w (Inr bundles)"
proof (cases "enough s (places bundles 0) entry = Inl (EntryError NoBundle)")
  case True
  then show ?thesis using assms(4) by (simp add: chainRest_def drawFailed_def)
next
  case False
  note e = enough_drawn [OF assms(1), of bundles entry]
  let ?served = "map (\<lambda>b. b \<noteq> None) bundles"
  show ?thesis
  proof (cases "int (length (filter Not ?served)) > MaxAbsent (int (length ?served)) (s_hops s) (s_missing s)")
    case True
    then show ?thesis using e False assms(4) by (auto simp: chainRest_def chainShown_def endShown_def failure_Error_def Let_def)
  next
    case few: False
    then have ok: "enough s (places bundles 0) entry = Inr ()" using e False by (simp add: Let_def)
    obtain x w1 where x: "resolve sv p (s_auth s) (s_trust s) (present (s_addrs s) bundles) (List.map_filter (\<lambda>b. b) bundles) now w = (x, w1)" by force
    show ?thesis
    proof (cases x)
      case (Inl e)
      then show ?thesis using x ok few assms(4) by (auto simp: chainRest_def chainShown_def endShown_def failure_Error_def Let_def)
    next
      case (Inr nodes)
      obtain y rd1 where y: "drawChain s (places bundles 0) entry nodes rd = (y, rd1)" by force
      have "length nodes = length (present (s_addrs s) bundles)" using x Inr resolve_length by blast
      also have "\<dots> \<le> length (zip (s_addrs s) bundles)" unfolding length_map by (rule length_filter_le)
      finally have "length nodes < 2 ^ 63" using assms(2) by simp
      then show ?thesis
        using drawChain_shown [OF y _ assms(1)] x Inr ok few assms(4) y by (auto simp: chainRest_def chainShown_def Let_def)
    qed
  qed
qed

lemma selection_chain_shown:
  assumes "\<not> s_fixed s" "length (s_addrs s) < 2 ^ 63"
    "\<And>i. 0 \<le> i \<Longrightarrow> i < int (length (s_addrs s)) \<Longrightarrow> nodeBundles sv (s_addrs s) i (s_infoPort s) (s_attempts s) = B"
    "selection_chain sv s p now rd w = (r, lines, rd', w')"
  shows "drawFailed r \<or> (lines, endShown r) = chainShown sv s p now w B"
proof -
  obtain x rd1 where x: "ChooseEntry (int (length (s_addrs s))) rd = (x, rd1)" by force
  show ?thesis
  proof (cases x)
    case (Inl e)
    then show ?thesis using assms(1,4) x ChooseEntry_error by (auto simp: selection_chain_def drawFailed_def)
  next
    case (Inr entry)
    have "int (length (s_addrs s)) < 2 ^ 63" using assms(2) by (metis of_nat_less_iff of_nat_numeral of_nat_power)
    then have B: "nodeBundles sv (s_addrs s) entry (s_infoPort s) (s_attempts s) = B"
      using assms(3) ChooseEntry_range x Inr by blast
    show ?thesis
    proof (cases B)
      case (Inl e)
      then show ?thesis
        using assms(1,4) x Inr B by (auto simp: selection_chain_def chainShown_def endShown_def selection_named_def split: option.splits)
    next
      case B': (Inr bundles)
      have run: "selection_chain sv s p now rd w = chainRest sv s p now bundles entry rd1 w"
        using assms(1) x Inr B B' by (simp add: selection_chain_def)
      show ?thesis
        using chainRest_shown [of s bundles sv p now entry rd1 w r lines rd' w'] nodeBundles_length [of sv "s_addrs s" entry] assms(1,2,4) run B B' by simp
    qed
  qed
qed


section \<open>How a run of messages ends\<close>

lemma exchangeTurn_end:
  assumes "exchangeTurn c message say s = (Inl (code, line), s')"
  shows "code = (if if_Refused c s' = None then 1 else exitRefused) \<and> (line = ClosedLine (if_Refused c s') \<or> if_Refused c s' = None \<and> (\<exists>e. line = SendLine (say e)))"
  using assms by (auto simp: exchangeTurn_def ending_def split: prod.splits sum.splits replyEvent.splits option.splits)

definition ended_well :: "'s circuitIface \<Rightarrow> int \<Rightarrow> (int \<times> exitLine) \<times> tripLine list \<times> 's \<Rightarrow> bool" where
  "ended_well c n r =
     (case r of ((code, line), lines, s') \<Rightarrow>
        (if code = 0 then n \<noteq> 0 \<and> line = NoLine \<and> int (length lines) = max n 0
         else code = (if if_Refused c s' = None then 1 else exitRefused) \<and> (0 < n \<longrightarrow> int (length lines) < n)
              \<and> (code = exitRefused \<longrightarrow> line = ClosedLine (if_Refused c s'))))"

lemma exchangeLoop_partial:
  assumes "exchangeLoop c message n say i lines s = Some r" "int (length lines) = i" "n \<le> 0 \<or> i \<le> n" "n < 0 \<longrightarrow> i = 0"
  shows "ended_well c n r"
  using assms
proof (induction rule: exchangeLoop.raw_induct [rotated, consumes 1, case_names 1])
  case (1 loop c message n say i lines s r)
  show ?case
  proof (cases "n = 0 \<or> i < n")
    case True
    obtain x s1 where x: "exchangeTurn c message say s = (x, s1)" by force
    show ?thesis
    proof (cases x)
      case (Inl e)
      obtain code line where e: "e = (code, line)" by force
      have "code \<noteq> 0" using exchangeTurn_end [of c message say s code line s1] x Inl e by (auto simp: exitRefused_def split: if_splits)
      then show ?thesis
        using 1 True x Inl e exchangeTurn_end [of c message say s code line s1] by (auto simp: ended_well_def exitRefused_def split: if_splits)
    next
      case (Inr l)
      then have "loop c message n say (i + 1) (lines @ [l]) s1 = Some r" using 1(2) True x by simp
      then show ?thesis by (rule 1(1)) (use 1(3-5) True in auto)
    qed
  next
    case False
    then show ?thesis using 1(2-5) by (auto simp: ended_well_def)
  qed
qed

lemma exchangeLoop_returns: "0 < n \<Longrightarrow> \<exists>r. exchangeLoop c message n say i lines s = Some r"
proof (induction "nat (n - i)" arbitrary: i lines s rule: less_induct)
  case less
  show ?case
  proof (cases "i < n")
    case True
    then have "nat (n - (i + 1)) < nat (n - i)" by simp
    from less(1) [OF this less(2)] True show ?thesis
      by (subst exchangeLoop.simps) (auto split: prod.splits sum.splits)
  qed (use less(2) in \<open>simp add: exchangeLoop.simps\<close>)
qed


section \<open>A run of the command\<close>

text \<open>URLs spelled without a scheme, and one relay that serves its own bundle while another is missing.\<close>

definition sampleParts :: "bytes \<Rightarrow> urlParts option" where
  "sampleParts u =
     (let slash = byte_of (CHR ''/''); hostport = takeWhile (\<lambda>b. b \<noteq> slash) u; path = dropWhile (\<lambda>b. b \<noteq> slash) u in
      case SplitHostPort hostport of
        None \<Rightarrow> None
      | Some (host, port) \<Rightarrow>
          Some \<lparr>up_Hostname = host, up_Port = port, up_Path = path, up_User = None, up_RawQuery = [], up_Fragment = []\<rparr>)"

definition sampleMirrorRaw :: bytes where
  "sampleMirrorRaw = the (fst sampleMirrorJson [sampleEntry ''relay-1:9001''])"

definition sampleServices :: "httpAnswer \<Rightarrow> services" where
  "sampleServices ans =
     \<lparr>sv_json = sampleJson, sv_mirror = sampleMirrorJson, sv_ip = (\<lambda>_. None), sv_urlString = (\<lambda>hp path. hp @ path),
      sv_urlParse = sampleParts, sv_web = (\<lambda>_ _. ans)\<rparr>"

definition sampleSelection :: selection where
  "sampleSelection =
     \<lparr>s_addrs = [ascii ''relay-1:9001'', ascii ''relay-2:9001''], s_hops = 1, s_fixed = False, s_missing = 1, s_infoPort = ascii ''9100'',
      s_auth = True, s_trust = samplePolicy, s_attempts = 1\<rparr>"

lemma sampleURL:
  "fetchURL (sampleServices ans) (ascii ''relay-1:9001'') (ascii ''9100'') (ascii ''/descriptors'') = Inr (ascii ''relay-1:9100/descriptors'')"
  "fetchURL (sampleServices ans) (ascii ''relay-2:9001'') (ascii ''9100'') (ascii ''/descriptors'') = Inr (ascii ''relay-2:9100/descriptors'')"
  by (simp_all add: fetchURL_def sampleServices_def sampleParts_def JoinHostPort_def ascii_def SplitHostPort_def lastIndexByte_def indexByte_def
      byte_of_def validHost_def validPort_def is_digit_def is_lower_def name_char_def validLabel_def numeric_def)

lemma sampleMirror_fetched:
  "fetchMirror sampleMirrorJson sampleJson (\<lambda>_. None) (\<lambda>_. Answer 200 sampleMirrorRaw True) 1 = Inr (Some (sampleMirrorRaw, [sampleEntry ''relay-1:9001'']))"
proof -
  let ?es = "[sampleEntry ''relay-1:9001'']"
  have raw: "fst sampleMirrorJson ?es = Some sampleMirrorRaw" by (simp add: sampleMirrorRaw_def sampleMirrorJson_def)
  have ok: "mirror_ok sampleJson (\<lambda>_. None) ?es" using sample_addr(1) sampleBundle_parses by (simp add: mirror_ok_def sampleEntry_def)
  then have "snd sampleMirrorJson sampleMirrorRaw = Some ?es"
    using sampleMirrorJson_ok [of sampleJson "\<lambda>_. None"] raw by (auto simp: mirror_json_ok_def)
  then have parse: "ParseMirror sampleMirrorJson sampleJson (\<lambda>_. None) sampleMirrorRaw = Inr ?es"
    using ok raw checkMirror_iff [of sampleJson "\<lambda>_. None" ?es] by (simp add: ParseMirror_def)
  have "length (esc f) = 2 * length f + 1" for f by (induction f) (simp_all add: esc_def)
  then have "length sampleMirrorRaw \<le> MaxMirror"
    using sampleBundle_size by (simp add: sampleMirrorRaw_def sampleMirrorJson_def sampleEntry_def ascii_def MaxMirror_def MaxBundle_def)
  then show ?thesis using parse by (simp add: fetchMirror_def retried_def get_def)
qed

lemma sampleNode_bundles:
  "nodeBundles (sampleServices (Answer 200 sampleMirrorRaw True)) (s_addrs sampleSelection) 0 (s_infoPort sampleSelection) (s_attempts sampleSelection)
     = Inr [Some sampleBundle, None]"
proof -
  have "ascii ''relay-2:9001'' \<noteq> ascii ''relay-1:9001''" by (simp add: ascii_def)
  then show ?thesis
    using sampleURL(1) sampleMirror_fetched
    by (simp add: nodeBundles_def sampleSelection_def) (simp add: sampleServices_def sampleEntry_def)
qed

lemma sampleChain:
  "selection_chain (sampleServices (Answer 200 sampleMirrorRaw True)) sampleSelection sampleSuite (20 * Second) (replicate 8 0) sampleReader
     = (Inr [nodeOf (verified_of sampleCert sampleDesc)], chainLines sampleSelection sampleSuite [verified_of sampleCert sampleDesc], [], sampleReader)"
proof -
  have e: "ChooseEntry 2 (replicate 8 0) = (Inr 0, [])" by code_simp
  have p: "places [Some sampleBundle, None] 0 = [0, -1]" by simp
  have r: "ChooseRest 0 1 1 [] = (Inr [0], [])" by code_simp
  show ?thesis
    using sampleNode_bundles e r VerifyChain_one [OF sampleBundle_verifies]
    by (simp add: selection_chain_def chainRest_def sampleSelection_def enough_def JudgeMirror_def MaxAbsent_def resolve_def List.map_filter_def drawChain_def chainOf_def)
      (simp add: sampleServices_def drawChain_def chainOf_def)
qed

theorem client_chain_verified_witness:
  "\<exists>c lines rd' w'. selection_chain (sampleServices (Answer 200 sampleMirrorRaw True)) sampleSelection sampleSuite (20 * Second) (replicate 8 0) sampleReader = (Inr c, lines, rd', w')
     \<and> length c = 1 \<and> node_verified sampleSuite samplePolicy (20 * Second) (hd c)"
proof -
  have "s_auth sampleSelection" "length (s_addrs sampleSelection) < 2 ^ 63" "s_hops sampleSelection = 1" "s_trust sampleSelection = samplePolicy"
    by (simp_all add: sampleSelection_def)
  then have "length [nodeOf (verified_of sampleCert sampleDesc)] = 1 \<and> node_verified sampleSuite samplePolicy (20 * Second) (hd [nodeOf (verified_of sampleCert sampleDesc)])"
    using client_chain_verified [OF sampleChain] by simp
  then show ?thesis using sampleChain by blast
qed

text \<open>Every relay answers that it has no such page; the first draw is the one relay, the second draw the other.\<close>

lemma sampleRefused:
  assumes "0 \<le> i" "i < int (length (s_addrs sampleSelection))"
  shows "nodeBundles (sampleServices (Answer 404 [] True)) (s_addrs sampleSelection) i (s_infoPort sampleSelection) (s_attempts sampleSelection)
    = Inl (EntryError (FromFetch (StatusError 404 '''')))"
proof -
  have "i = 0 \<or> i = 1" using assms by (auto simp: sampleSelection_def)
  then show ?thesis
    using sampleURL [of "Answer 404 [] True"]
    by (auto simp: nodeBundles_def sampleSelection_def fetchMirror_def retried_def get_def) (simp_all add: sampleServices_def)
qed


definition echoIface :: "bytes list circuitIface" where
  "echoIface =
     \<lparr>if_Send = (\<lambda>m q. (Inr (), q @ [m])), if_reply = (\<lambda>q. case q of [] \<Rightarrow> (NoReply, []) | m # q \<Rightarrow> (Reply m, q)), if_Refused = (\<lambda>_. None)\<rparr>"


end
