(* ===== verification/RelayCmd.thy ===== *)
theory RelayCmd
  imports Rotation Relay Secmem ClientCmd
begin

text \<open>
  \<^verbatim>\<open>cmd/relay/main.go\<close>: the start of a node from its flags, the keys it makes, what runs until it is stopped
  and the releases it defers. What the system answers, such as whether a key's memory was locked, is an argument. The
  handlers and timers of a node are events over its state; HTTP handlers and the goroutine that signs are
  not stopped, so events may also come between the deferred calls. The theorems account for every key.
\<close>

section \<open>The configuration\<close>

text \<open>The addresses of the listeners are left out but for \<^verbatim>\<open>stats\<close>, which is checked; so is \<^verbatim>\<open>logEvery\<close>.\<close>

record nodeConfig =
  nc_stats :: bytes
  nc_echo :: bool
  nc_period :: int
  nc_queue :: int
  nc_setupCache :: int
  nc_auth :: bool
  nc_name :: bytes
  nc_advertise :: bytes
  nc_descriptorTTL :: int
  nc_onionRotate :: int
  nc_peerInfoPort :: bytes
  nc_peers :: "bytes list"
  nc_lock :: bool
  nc_keymem :: string
  nc_harden :: bool
  nc_limits :: Config

text \<open>\<open>peers\<close> are the answers of the node's \<^verbatim>\<open>peerKey\<close>.\<close>

definition relayConfig :: "nodeConfig \<Rightarrow> (bytes \<Rightarrow> bytes option) \<Rightarrow> Config" where
  "relayConfig cfg peers =
     (nc_limits cfg)\<lparr>cf_Deliver := Some (\<lambda>_ payload. if nc_echo cfg then Some payload else None),
       cf_Period := nc_period cfg, cf_QueueCells := nc_queue cfg, cf_SetupCache := nc_setupCache cfg,
       cf_Peers := (if nc_auth cfg then Some peers else None)\<rparr>"

definition minMemlock :: int where "minMemlock = 80 * 2 ^ 10"

definition checkMemlock :: "int result \<Rightarrow> unit result" where
  "checkMemlock budget =
     (case budget of
        Inl e \<Rightarrow> Inl e
      | Inr b \<Rightarrow> if b < minMemlock then Inl (Message ''RLIMIT_MEMLOCK is too low to lock key pages'') else Inr ())"

section \<open>While the node runs\<close>

text \<open>
  What can happen to the keys of a node: the requests on its ports, its timers, the turns of its peer cache, and a
  setup that its relay opens with the shared ring, whose cell key is released once the hop is made of it.
\<close>

datatype nodeEvent =
    OnRequest bytes bool Time | OnCert bytes bool Time | OnRoster bytes bool Time | OnInfo Time | OnMirror Time
  | OnRefresh Time | OnRotate bool Time | OnPeer int "nat \<Rightarrow> httpAnswer" bytes | OnSetup Cell

fun nodeExec :: "codecs \<Rightarrow> nodeEvent \<Rightarrow> node \<Rightarrow> world \<Rightarrow> node \<times> world" where
  "nodeExec k (OnRequest body whole now) n w = (case handleRequest body whole now n w of (_, n, w) \<Rightarrow> (n, w))"
| "nodeExec k (OnCert body whole now) n w = (case handleCert k body whole now n w of (_, n, w) \<Rightarrow> (n, w))"
| "nodeExec k (OnRoster body whole now) n w = (case handleRoster k body whole now n w of (_, n, w) \<Rightarrow> (n, w))"
| "nodeExec k (OnInfo now) n w = (case infoDescriptor now n of (_, n) \<Rightarrow> (n, w))"
| "nodeExec k (OnMirror now) n w = (case infoDescriptors k now n of (_, n) \<Rightarrow> (n, w))"
| "nodeExec k (OnRefresh now) n w = (if n_id n = None then (n, w) else refreshIfDue k now n w)"
| "nodeExec k (OnRotate locked now) n w = rotateIfDue k locked now n w"
| "nodeExec k (OnPeer now net addr) n w =
     (case n_peers n of
        None \<Rightarrow> (n, w)
      | Some c \<Rightarrow> (case refreshPeer k (n_p n) now net addr c w of (c, w) \<Rightarrow> (n\<lparr>n_peers := Some c\<rparr>, w)))"
| "nodeExec k (OnSetup cell) n w =
     (case n_onion n of
        None \<Rightarrow> (n, w)
      | Some q \<Rightarrow>
          (case Open (n_p n) cell (on_ring q) w of (r, ring, w) \<Rightarrow>
             (n\<lparr>n_onion := Some (q\<lparr>on_ring := ring\<rparr>)\<rparr>, if isl r then w else release w)))"

fun nodeRun :: "codecs \<Rightarrow> nodeEvent list \<Rightarrow> node \<Rightarrow> world \<Rightarrow> node \<times> world" where
  "nodeRun k [] n w = (n, w)"
| "nodeRun k (e # es) n w = (case nodeExec k e n w of (n, w) \<Rightarrow> nodeRun k es n w)"

section \<open>A node from start to end\<close>

datatype stopCause = Signalled | ServeStopped error

definition untilStopped :: "stopCause \<Rightarrow> unit result" where
  "untilStopped why = (case why of Signalled \<Rightarrow> Inr () | ServeStopped e \<Rightarrow> Inl (Message ''serve stopped''))"

text \<open>
  What the surroundings of one run answer: whether each key's memory is locked, the clock at the start, the three
  listeners, the dialler of the relay, the end, the events while the node serves and
  after each deferred call, which hosts are loopback addresses, and what \<^verbatim>\<open>HardenProcess\<close> and \<^verbatim>\<open>MemlockBudget\<close> return.
\<close>

record surroundings =
  sr_staticLocked :: bool
  sr_onionLocked :: bool
  sr_idLocked :: bool
  sr_now :: Time
  sr_listen :: "nat \<Rightarrow> error option"
  sr_dial :: "bytes \<Rightarrow> nat \<Rightarrow> Raw result"
  sr_cause :: stopCause
  sr_serving :: "nodeEvent list"
  sr_afterRelay :: "nodeEvent list"
  sr_afterId :: "nodeEvent list"
  sr_afterOnion :: "nodeEvent list"
  sr_loopback :: "bytes \<Rightarrow> bool"
  sr_hardened :: "unit result"
  sr_budget :: "int result"

definition startNode :: "provider \<Rightarrow> nodeConfig \<Rightarrow> node" where
  "startNode p cfg =
     \<lparr>n_p = p, n_name = nc_name cfg, n_addr = nc_advertise cfg, n_id = None, n_unsigned = None, n_ttl = nc_descriptorTTL cfg,
      n_peerRetry = 0, n_peers = None, n_wake = Some False, n_out = None, n_notAfter = 0, n_requestAt = None, n_installed = None,
      n_installedAt = \<lparr>tm_wall = 0, tm_run = 0\<rparr>, n_roster = None, n_signedState = None, n_link = [], n_onion = None,
      n_descriptorRequests = 0, n_mirrorRequests = 0\<rparr>"

text \<open>From the relay on: it is made, the listeners are bound, the node serves, and the relay is closed.\<close>

definition serveRelay :: "codecs \<Rightarrow> provider \<Rightarrow> nodeConfig \<Rightarrow> surroundings \<Rightarrow> bytes \<Rightarrow> bytes \<Rightarrow> node \<Rightarrow> world \<Rightarrow> unit result \<times> node \<times> world" where
  "serveRelay k p cfg sr priv pub n w =
     (case (if \<not> nc_auth cfg \<and> nc_advertise cfg \<noteq> [] then setPeers k (sr_now sr) (nc_peers cfg) None n else (Inr (), n)) of
        (Inl e, n) \<Rightarrow> (Inl e, n, w)
      | (Inr _, n) \<Rightarrow>
          (case New (relayConfig cfg (peerKey (sr_now sr) n)) p (Some priv) pub (map_option on_ring (n_onion n)) (sr_dial sr) w of
             (Inl e, w) \<Rightarrow> (Inl (Errorf e (Message ''relay'')), n, w)
           | (Inr r, w) \<Rightarrow>
               (case List.map_filter (sr_listen sr) [0, 1, 2] of
                  e # _ \<Rightarrow> (Inl (Errorf e (Message ''listen'')), n, w)
                | [] \<Rightarrow>
                    (case nodeRun k (sr_serving sr) n w of (n, w) \<Rightarrow>
                     case nodeRun k (sr_afterRelay sr) n w of (n, w) \<Rightarrow> (untilStopped (sr_cause sr), n, w)))))"

text \<open>\<^verbatim>\<open>defer id.Close()\<close>, on the identity the node shares.\<close>

definition closeIdentity :: "node \<Rightarrow> world \<Rightarrow> node \<times> world" where
  "closeIdentity n w =
     (case n_id n of None \<Rightarrow> (n, w) | Some i \<Rightarrow> (case Identity_Close i w of (i, w) \<Rightarrow> (n\<lparr>n_id := Some i\<rparr>, w)))"

definition serveIdentity ::
  "codecs \<Rightarrow> provider \<Rightarrow> nodeConfig \<Rightarrow> surroundings \<Rightarrow> bytes \<Rightarrow> bytes \<Rightarrow> bytes \<Rightarrow> node \<Rightarrow> world \<Rightarrow> unit result \<times> node \<times> world" where
  "serveIdentity k p cfg sr priv pub onionPub n w =
     (if nc_auth cfg then
        (case NewIdentity (k_ip k) p (nc_name cfg) (nc_advertise cfg) w of
           (Inl e, w) \<Rightarrow> (Inl (Errorf e (Message ''identity'')), n, w)
         | (Inr i, w) \<Rightarrow>
             if nc_lock cfg \<and> \<not> sr_idLocked sr then
               (Inl (Message ''identity key memory is not locked, refusing to start''), n, snd (Identity_Close i w))
             else
               case serveRelay k p cfg sr priv pub (n\<lparr>n_id := Some (SetKeys pub onionPub 0 i)\<rparr>) w of (r, n, w) \<Rightarrow>
               case closeIdentity n w of (n, w) \<Rightarrow>
               case nodeRun k (sr_afterId sr) n w of (n, w) \<Rightarrow> (r, n, w))
      else
        case Unsigned (k_json k) p pub onionPub w of
          (Inl e, w) \<Rightarrow> (Inl (Errorf e (Message ''descriptor'')), n, w)
        | (Inr b, w) \<Rightarrow> serveRelay k p cfg sr priv pub (n\<lparr>n_unsigned := Some b\<rparr>) w)"

definition serveOnion :: "codecs \<Rightarrow> provider \<Rightarrow> nodeConfig \<Rightarrow> surroundings \<Rightarrow> bytes \<Rightarrow> bytes \<Rightarrow> unit io" where
  "serveOnion k p cfg sr priv pub w =
     (if nc_onionRotate cfg = 0 then (case serveIdentity k p cfg sr priv pub pub (startNode p cfg) w of (r, n, w) \<Rightarrow> (r, w))
      else
        case GenerateEphemeral p w of
          (Inl e, w) \<Rightarrow> (Inl (Errorf e (Message ''onion key'')), w)
        | (Inr (onionPriv, onionPub), w) \<Rightarrow>
            if nc_lock cfg \<and> \<not> sr_onionLocked sr then (Inl (Message ''onion key memory is not locked, refusing to start''), release w)
            else
              case NewOnionRing p (Some onionPriv) onionPub (nc_setupCache cfg) w of
                (Inl e, w) \<Rightarrow> (Inl (Errorf e (Message ''onion key'')), release w)
              | (Inr ring, w) \<Rightarrow>
                  (case newOnionKeys ring (nc_onionRotate cfg) (nc_descriptorTTL cfg) (nc_lock cfg) (sr_now sr) w of (q, w) \<Rightarrow>
                   case serveIdentity k p cfg sr priv pub onionPub ((startNode p cfg)\<lparr>n_link := pub, n_onion := Some q\<rparr>) w of (r, n, w) \<Rightarrow>
                   case closeOnion n w of (n, w) \<Rightarrow>
                   case nodeRun k (sr_afterOnion sr) n w of (n, w) \<Rightarrow> (r, w)))"

definition serveNode :: "codecs \<Rightarrow> provider \<Rightarrow> nodeConfig \<Rightarrow> surroundings \<Rightarrow> unit io" where
  "serveNode k p cfg sr w =
     (case GenerateEphemeral p w of
        (Inl e, w) \<Rightarrow> (Inl (Errorf e (Message ''static key'')), w)
      | (Inr (priv, pub), w) \<Rightarrow>
          (case (if nc_lock cfg \<and> \<not> sr_staticLocked sr then (Inl (Message ''key memory is not locked, refusing to start''), w)
                 else serveOnion k p cfg sr priv pub w) of
             (r, w) \<Rightarrow> (r, release w)))"

text \<open>
  \<^verbatim>\<open>main\<close> after its flags are parsed, to the exit code; every \<^verbatim>\<open>logger.Fatal\<close> is the code 1. It sets the policy of the
  store of key memory before the first key is made. \<^verbatim>\<open>splitList\<close> is the client command's, which is the same text.
\<close>

definition flagsOk :: "codecs \<Rightarrow> surroundings \<Rightarrow> nodeConfig \<Rightarrow> bool" where
  "flagsOk k sr cfg \<longleftrightarrow>
     (if nc_auth cfg then checkAuthFlags (k_ip k) (sr_loopback sr) (nc_stats cfg) (nc_name cfg) (nc_advertise cfg) (nc_descriptorTTL cfg)
      else checkTTL (nc_descriptorTTL cfg))
     \<and> checkPeerFlags (k_ip k) (nc_auth cfg) (nc_advertise cfg) (nc_peerInfoPort cfg) (nc_peers cfg)
     \<and> checkRotateFlags (nc_onionRotate cfg) (nc_descriptorTTL cfg)"

definition relayMain ::
  "codecs \<Rightarrow> gogost \<Rightarrow> ('s, 'p) curve25519 \<Rightarrow> surroundings \<Rightarrow> nodeConfig \<Rightarrow> string \<Rightarrow> string \<Rightarrow> Store \<Rightarrow> world \<Rightarrow> int \<times> Store \<times> world" where
  "relayMain k G C sr cfg peers suiteName s w =
     (let cfg = cfg\<lparr>nc_peers := map ascii (splitList peers)\<rparr> in
      if \<not> flagsOk k sr cfg then (1, s, w)
      else
        case ParsePolicy (nc_keymem cfg) of
          Inl e \<Rightarrow> (1, s, w)
        | Inr pol \<Rightarrow>
            (case SetPolicy pol s of
               (Inl e, s) \<Rightarrow> (1, s, w)
             | (Inr _, s) \<Rightarrow>
                 if nc_harden cfg \<and> isl (sr_hardened sr) then (1, s, w)
                 else if m_Lock pol \<and> isl (checkMemlock (sr_budget sr)) then (1, s, w)
                 else
                   case suite_Parse suiteName of
                     Inl e \<Rightarrow> (1, s, w)
                   | Inr chosen \<Rightarrow>
                       (case suite_New G C chosen of
                          Inl e \<Rightarrow> (1, s, w)
                        | Inr p \<Rightarrow>
                            (case serveNode k p (cfg\<lparr>nc_lock := m_Lock pol, nc_keymem := MemPolicy_String pol\<rparr>) sr w of
                               (Inl e, w) \<Rightarrow> (1, s, w)
                             | (Inr _, w) \<Rightarrow> (0, s, w)))))"

section \<open>The books of a node\<close>

text \<open>What the signing half of the provider interface does to the buffers: a new key is one, a signature leaves none.\<close>

definition signing_counts :: "provider \<Rightarrow> bool" where
  "signing_counts p \<longleftrightarrow> grows 1 (pSigning p) \<and> (\<forall>k m. grows 0 (pSign p k m))"

text \<open>The buffers a node holds: its onion keys with the reserve, and its identity key.\<close>

definition onion_held :: "onionKeys \<Rightarrow> nat" where
  "onion_held q = ring_keys (on_ring q) + (if on_reserve q then 1 else 0)"

definition id_held :: "Identity option \<Rightarrow> nat" where
  "id_held i = (case i of None \<Rightarrow> 0 | Some i \<Rightarrow> if id_priv i = None then 0 else 1)"

definition node_held :: "node \<Rightarrow> nat" where
  "node_held n = (case n_onion n of None \<Rightarrow> 0 | Some q \<Rightarrow> onion_held q) + id_held (n_id n)"

definition node_books :: "provider \<Rightarrow> nat \<Rightarrow> node \<Rightarrow> world \<Rightarrow> bool" where
  "node_books p b n w \<longleftrightarrow> n_p n = p \<and> (\<forall>i. n_id n = Some i \<longrightarrow> id_p i = p) \<and> (\<forall>q. n_onion n = Some q \<longrightarrow> wf_ring (on_ring q))
     \<and> live w = b + node_held n"

definition onion_books :: "nat \<Rightarrow> onionKeys \<Rightarrow> world \<Rightarrow> bool" where
  "onion_books b q w \<longleftrightarrow> wf_ring (on_ring q) \<and> live w = b + onion_held q"

lemma onion_books_other:
  "onion_books b (q\<lparr>on_failures := a\<rparr>) w = onion_books b q w" "onion_books b (q\<lparr>on_failed := e\<rparr>) w = onion_books b q w"
  "onion_books b (q\<lparr>on_rotateAt := t\<rparr>) w = onion_books b q w"
  "onion_books b (q\<lparr>on_closed := c\<rparr>) w = onion_books b q w" "onion_books b (q\<lparr>on_retireAt := r\<rparr>) w = onion_books b q w"
  by (simp_all add: onion_books_def onion_held_def)

lemma hold_pages_books: "hold_pages q w = (q', w') \<Longrightarrow> \<not> on_reserve q \<Longrightarrow> onion_books b q w \<Longrightarrow> onion_books b q' w'"
  by (auto simp: hold_pages_def onion_books_def onion_held_def split: if_splits)

lemma letGo_books: "letGo q w = (q', w') \<Longrightarrow> onion_books b q w \<Longrightarrow> onion_books b q' w' \<and> \<not> on_reserve q'"
  by (auto simp: letGo_def onion_books_def onion_held_def split: if_splits)

lemma Rotate_books:
  assumes "provider_ok p n ov" "Rotate p priv pub (on_ring q) w = (r, g, w')" "wf_ring (on_ring q)" "live w = b + 1 + onion_held q"
  shows "wf_ring g" "live w' + (if isl r then 0 else 1) = b + 1 + onion_held (q\<lparr>on_ring := g\<rparr>)"
proof -
  show "wf_ring g" using Rotate_wf(1) [OF assms(3,2)] .
  have "ring_keys (on_ring q) \<le> live w" using assms(4) by (simp add: onion_held_def)
  from conjunct1 [OF ring_keys_conserved [OF assms(1,3) this, of priv pub]] assms(2,4)
  show "live w' + (if isl r then 0 else 1) = b + 1 + onion_held (q\<lparr>on_ring := g\<rparr>)"
    by (simp add: onion_held_def split: if_splits)
qed

lemma rotateKey_books:
  assumes "provider_ok p n ov" "rotateKey p locked q w = (r, q', w')" "onion_books b q w"
  shows "onion_books b q' w' \<and> on_reserve q' = on_reserve q"
proof (cases "GenerateEphemeral p w")
  case (Pair x w1)
  note g = growsD [OF grows_GenerateEphemeral [OF assms(1)] Pair]
  show ?thesis
  proof (cases x)
    case (Inl e)
    then show ?thesis using assms Pair g by (auto simp: rotateKey_def onion_books_def)
  next
    case (Inr kp)
    obtain priv pub where kp: "kp = (priv, pub)" by force
    have w1: "live w1 = b + 1 + onion_held q" using g Inr assms(3) by (simp add: onion_books_def)
    obtain rr ring w2 where R: "Rotate p (Some priv) pub (on_ring q) w1 = (rr, ring, w2)" by (metis prod_cases3)
    note B = Rotate_books [OF assms(1) R _ w1]
    show ?thesis using assms(2,3) Pair Inr kp R B w1
      by (auto simp: rotateKey_def onion_books_def onion_held_def split: if_splits sum.splits)
  qed
qed

lemma node_rotate_books:
  assumes "provider_ok p n ov" "node_rotate p locked q w = (r, q', w')" "onion_books b q w"
  shows "onion_books b q' w'"
proof -
  obtain q1 w1 where l: "letGo q w = (q1, w1)" by force
  obtain r2 q2 w2 where k: "rotateKey p locked q1 w1 = (r2, q2, w2)" by (metis prod_cases3)
  have h: "hold_pages q2 w2 = (q', w')" using assms(2) l k by (auto simp: node_rotate_def split: prod.splits)
  note a = letGo_books [OF l assms(3)]
  show ?thesis using hold_pages_books [OF h] rotateKey_books [OF assms(1) k conjunct1 [OF a]] a by blast
qed

lemma Retire_books:
  assumes "Retire (on_ring q) w = (g, w')" "onion_books b q w"
  shows "onion_books b (q\<lparr>on_ring := g\<rparr>) w'"
  using assms Retire_wf [OF _ assms(1)] by (auto simp: Retire_def onion_books_def onion_held_def ring_keys_def split: if_splits)

lemma retireIfDue_books:
  assumes "retireIfDue now q w = (q', w')" "onion_books b q w"
  shows "onion_books b q' w'"
proof -
  obtain g w1 where R: "Retire (on_ring q) w = (g, w1)" by force
  have "onion_books b (q\<lparr>on_ring := g, on_retireAt := None\<rparr>) w1" using Retire_books [OF R assms(2)] by (simp add: onion_books_other)
  then show ?thesis using assms R hold_pages_books [of "q\<lparr>on_ring := g, on_retireAt := None\<rparr>" w1 q' w' b]
    by (auto simp: retireIfDue_def Let_def split: if_splits option.splits)
qed

text \<open>Verifying a bundle and signing leave the count of buffers alone.\<close>

lemma grows_keySizes: "provider_ok p n ov \<Longrightarrow> grows 0 (keySizes p d)"
  by (auto simp: grows_def keySizes_def dest!: growsD [OF grows_PublicKeySize] split: prod.splits sum.splits)

lemma grows_Verify: "provider_ok p n ov \<Longrightarrow> grows 0 (Verify js ip p pol addr b now)"
  by (auto simp: grows_def Verify_def verifyDesc_def dest!: growsD [OF grows_keySizes] split: prod.splits sum.splits if_splits)

lemma grows_readNodes: "(\<And>a b. grows 0 (f a b)) \<Longrightarrow> readNodes f addrs bs w = (r, w') \<Longrightarrow> live w' = live w"
  by (induction f addrs bs w arbitrary: r w' rule: readNodes.induct) (fastforce dest!: growsD split: prod.splits sum.splits)+

lemma grows_readUnverified: "provider_ok p n ov \<Longrightarrow> grows 0 (readUnverified js p a b)"
  by (auto simp: grows_def readUnverified_def dest!: growsD [OF grows_keySizes] split: prod.splits sum.splits if_splits)

lemma grows_Unverified: "provider_ok p n ov \<Longrightarrow> grows 0 (Unverified js p addrs bundles)"
  unfolding grows_def
proof (intro allI impI)
  fix w r w' assume ok: "provider_ok p n ov" and u: "Unverified js p addrs bundles w = (r, w')"
  obtain x w1 where x: "readNodes (readUnverified js p) addrs bundles w = (x, w1)" by force
  have "live w1 = live w" using grows_readNodes [OF grows_readUnverified [OF ok] x] .
  then show "live w' = live w + (if isl r then 0 else 0)"
    using u x by (auto simp: Unverified_def eachNode_def split: sum.splits if_splits)
qed

lemma readPeer_live:
  assumes "provider_ok p n ov" "readPeer k p c addr b now w = (r, w')"
  shows "live w' = live w"
  using assms(2)
  by (auto simp: readPeer_def verifiedPeer_def unverifiedPeer_def dest!: growsD [OF grows_Verify [OF assms(1)]]
      growsD [OF grows_Unverified [OF assms(1)]] split: option.splits prod.splits sum.splits list.splits if_splits)

lemma refreshPeer_live: "provider_ok p n ov \<Longrightarrow> refreshPeer k p now net addr c w = (c', w') \<Longrightarrow> live w' = live w"
  by (auto simp: refreshPeer_def askPeer_def dest: readPeer_live split: if_splits sum.splits prod.splits)

lemma sign_live: "signing_counts p \<Longrightarrow> pSign p k m w = (r, w') \<Longrightarrow> live w' = live w"
  unfolding signing_counts_def using growsD by fastforce

lemma Identity_sign_live: "Identity_sign i domain body w = (r, w') \<Longrightarrow> signing_counts (id_p i) \<Longrightarrow> live w' = live w"
  by (auto simp: Identity_sign_def dest: sign_live split: option.splits)

lemma PublicKeySize_live: "PublicKeySize p w = (r, w') \<Longrightarrow> provider_ok p n ov \<Longrightarrow> live w' = live w"
  using growsD [OF grows_PublicKeySize] by fastforce

lemma Refresh_live:
  assumes "provider_ok (id_p i) n ov" "signing_counts (id_p i)" "Refresh js now ttl i w = (r, i', w')"
  shows "live w' = live w"
proof (cases "PublicKeySize (id_p i) w")
  case (Pair x w1)
  have "live w1 = live w" using PublicKeySize_live [OF Pair assms(1)] .
  moreover have "w' = w \<or> w' = w1 \<or> (\<exists>body r1. Identity_sign i descriptorDomain body w1 = (r1, w'))"
    using assms(3) Pair by (auto simp: Refresh_def refreshed_def Let_def split: if_splits option.splits prod.splits sum.splits)
  ultimately show ?thesis using Identity_sign_live assms(2) by metis
qed

section \<open>Every event keeps the books\<close>

lemma republish_held: "n_onion (republish k now n) = n_onion n" "n_id (republish k now n) = n_id n" "n_p (republish k now n) = n_p n"
  by (simp_all add: republish_def split: option.splits)

lemma node_sign_books:
  assumes "provider_ok p l ov" "signing_counts p" "node_sign k now n w = (r, n', w')" "node_books p b n w"
  shows "node_books p b n' w'"
proof -
  note keeps = node_sign_keeps [OF assms(3)]
  have "live w' = live w"
  proof (cases "n_id n")
    case None
    then show ?thesis using assms(3) by (simp add: node_sign_def)
  next
    case (Some i)
    let ?i = "case n_onion n of None \<Rightarrow> i
      | Some q \<Rightarrow> (case Current (on_ring q) of (epoch, pub) \<Rightarrow> SetKeys (n_link n) (case pub of None \<Rightarrow> [] | Some b \<Rightarrow> b) epoch i)"
    have i: "id_p ?i = p" using Some assms(4) by (auto simp: node_books_def SetKeys_def split: option.splits prod.splits)
    obtain rr i' w1 where R: "Refresh (k_json k) (tm_wall now) (n_ttl n) ?i w = (rr, i', w1)" by (metis prod_cases3)
    have "w' = w1" using assms(3) Some R by (auto simp: node_sign_def Let_def split: sum.splits option.splits)
    then show ?thesis using Refresh_live [OF _ _ R] assms(1,2) i by simp
  qed
  then show ?thesis
    using keeps assms(4) by (cases "n_id n") (auto simp: node_books_def node_keeps_def node_held_def id_held_def same_id_def option_rel_Some1)
qed

lemma publishOnion_books:
  assumes "provider_ok p l ov" "signing_counts p" "publishOnion k now n w = (r, n', w')" "node_books p b n w"
  shows "node_books p b n' w'"
proof (cases "n_id n")
  case None
  have u: "live w1 = live w" if "UnsignedEpoch js p lk o1 e w = (x, w1)" for js lk o1 e x w1
    using that PublicKeySize_live [OF _ assms(1)] by (auto simp: UnsignedEpoch_def Let_def split: prod.splits sum.splits if_splits)
  have "n_p n = p" using assms(4) by (simp add: node_books_def)
  then show ?thesis using None assms(3,4) u
    by (auto simp: publishOnion_def node_books_def node_held_def republish_held split: option.splits prod.splits sum.splits)
next
  case (Some i)
  then show ?thesis using assms(3,4) node_sign_books [OF assms(1,2)] by (auto simp: publishOnion_def split: if_splits)
qed

lemma node_books_onion:
  assumes "node_books p b n w" "n_onion n = Some q"
  shows "onion_books (b + id_held (n_id n)) q w"
  using assms by (simp add: node_books_def onion_books_def node_held_def)

lemma onion_node_books:
  assumes "node_books p b n w" "onion_books (b + id_held (n_id n)) q' w'"
  shows "node_books p b (n\<lparr>n_onion := Some q'\<rparr>) w'"
  using assms by (simp add: node_books_def onion_books_def node_held_def)

lemma rotateIfDue_books:
  assumes "provider_ok p l ov" "signing_counts p" "rotateIfDue k locked now n w = (n', w')" "node_books p b n w"
  shows "node_books p b n' w'"
proof (cases "n_onion n")
  case None
  then show ?thesis using assms(3,4) by (simp add: rotateIfDue_def)
next
  case (Some q)
  let ?b = "b + id_held (n_id n)"
  obtain q1 w1 where q1: "retireIfDue now q w = (q1, w1)" by force
  have b1: "onion_books ?b q1 w1" using retireIfDue_books [OF q1 node_books_onion [OF assms(4) Some]] .
  obtain r q2 w2 where q2: "node_rotate (n_p n) locked q1 w1 = (r, q2, w2)" by (metis prod_cases3)
  have "n_p n = p" using assms(4) by (simp add: node_books_def)
  then have b2: "onion_books ?b q2 w2" using node_rotate_books [OF assms(1) _ b1] q2 by simp
  let ?m = "n\<lparr>n_onion := Some (q2\<lparr>on_failed := None, on_rotateAt := after now (on_every q2), on_retireAt := Some (after now (on_grace q2))\<rparr>)\<rparr>"
  have "node_books p b ?m w2" by (intro onion_node_books [OF assms(4)]) (simp add: b2 onion_books_other)
  then have pub: "node_books p b n2 w3" if "publishOnion k now ?m w2 = (x, n2, w3)" for x n2 w3 using publishOnion_books [OF assms(1,2) that] by blast
  have fail: "node_books p b (n\<lparr>n_onion := Some (q2\<lparr>on_failures := on_failures q2 + 1, on_failed := e\<rparr>)\<rparr>) w2" for e
    by (intro onion_node_books [OF assms(4)]) (simp add: b2 onion_books_other)
  show ?thesis using assms(3) Some q1 q2 fail pub onion_node_books [OF assms(4) b1] assms(4)
    by (auto simp: rotateIfDue_def split: if_splits sum.splits prod.splits)
qed

lemma setPeers_held: "setPeers k now addrs a n = (r, n') \<Longrightarrow> n_onion n' = n_onion n \<and> n_id n' = n_id n \<and> n_p n' = n_p n"
  by (auto simp: setPeers_def Let_def split: option.splits if_splits)

lemma node_books_same:
  "node_books p b n w \<Longrightarrow> n_onion n' = n_onion n \<Longrightarrow> n_id n' = n_id n \<Longrightarrow> n_p n' = n_p n \<Longrightarrow> live w' = live w \<Longrightarrow> node_books p b n' w'"
  by (simp add: node_books_def node_held_def)

lemma handleRequest_books:
  assumes "signing_counts p" "handleRequest body whole now n w = (r, n', w')" "node_books p b n w"
  shows "node_books p b n' w'"
proof -
  have "live w2 = live w" if "n_id n = Some i" "Identity_Request i nonce w = (x, w2)" for i nonce x w2
  proof -
    have "id_p i = p" using that(1) assms(3) by (simp add: node_books_def)
    then show ?thesis using that(2) Identity_sign_live [of i] assms(1) by (auto simp: Identity_Request_def Let_def split: prod.splits sum.splits)
  qed
  moreover have "n_onion n' = n_onion n \<and> n_id n' = n_id n \<and> n_p n' = n_p n
      \<and> (w' = w \<or> (\<exists>i nonce x. n_id n = Some i \<and> Identity_Request i nonce w = (x, w')))"
    using assms(2) by (auto simp: handleRequest_def split: sum.splits if_splits option.splits prod.splits)
  ultimately show ?thesis using node_books_same [OF assms(3)] by metis
qed

lemma handleCert_books:
  assumes "provider_ok p l ov" "signing_counts p" "handleCert k body whole now n w = (r, n', w')" "node_books p b n w"
  shows "node_books p b n' w'"
proof -
  consider "n' = n \<and> w' = w" | c where "installCert k body c now n w = (r, n', w')"
    using assms(3) by (auto simp: handleCert_def readBody_def split: sum.splits if_splits option.splits)
  then show ?thesis
  proof cases
    case 1
    then show ?thesis using assms(4) by simp
  next
    case c: 2
    show ?thesis
    proof (cases "n_id n")
      case None
      then show ?thesis using c assms(4) by (simp add: installCert_def)
    next
      case (Some i)
      obtain x i' where I: "Install (k_ip k) body (tm_wall now) i = (x, i')" by force
      have i': "id_p i' = id_p i \<and> id_priv i' = id_priv i"
        using I by (auto simp: Install_def split: sum.splits if_splits)
      let ?m = "n\<lparr>n_id := Some i', n_requestAt := None, n_installed := Some body, n_installedAt := now, n_notAfter := sint (c_NotAfter c)\<rparr>"
      have m: "node_books p b ?m w" "node_books p b (n\<lparr>n_id := Some i'\<rparr>) w"
        using assms(4) Some i' by (simp_all add: node_books_def node_held_def id_held_def)
      then show ?thesis using c Some I node_sign_books [OF assms(1,2) _ m(1)]
        by (auto simp: installCert_def split: sum.splits prod.splits)
    qed
  qed
qed

lemma handleRoster_books:
  assumes "provider_ok p l ov" "handleRoster k body whole now n w = (r, n', w')" "node_books p b n w"
  shows "node_books p b n' w'"
proof -
  have p: "n_p n = p" using assms(3) by (simp add: node_books_def)
  have v: "live w1 = live w" if "Verify js ip p pol a bu t w = (x, w1)" for js ip pol a bu t x w1
    using growsD [OF grows_Verify [OF assms(1)] that] by simp
  have s: "n_onion n2 = n_onion n \<and> n_id n2 = n_id n \<and> n_p n2 = n_p n"
    if "setPeers k now addrs a (n\<lparr>n_roster := Some raw\<rparr>) = (x, n2)" for addrs a raw x n2 using setPeers_held [OF that] by simp
  have "live w' = live w \<and> n_onion n' = n_onion n \<and> n_id n' = n_id n \<and> n_p n' = n_p n"
    using assms(2) p v s by (auto simp: handleRoster_def takeRoster_def split: sum.splits if_splits option.splits prod.splits)
  then show ?thesis using node_books_same [OF assms(3)] by blast
qed

lemma refreshIfDue_books:
  assumes "provider_ok p l ov" "signing_counts p" "refreshIfDue k now n w = (n', w')" "node_books p b n w"
  shows "node_books p b n' w'"
  using assms(3,4) node_sign_books [OF assms(1,2)] by (auto simp: refreshIfDue_def Let_def split: if_splits prod.splits)

lemma Open_books:
  assumes "provider_ok p l ov" "Open p cell (on_ring q) w = (r, g, w')" "onion_books b q w"
  shows "onion_books b (q\<lparr>on_ring := g\<rparr>) (if isl r then w' else release w')"
proof -
  have wf: "wf_ring (on_ring q)" and le: "ring_keys (on_ring q) \<le> live w" using assms(3) by (simp_all add: onion_books_def onion_held_def)
  have "ring_keys g = ring_keys (on_ring q) \<and> int (live w') = int (live w) + (if isl r then 0 else 1)"
    using conjunct2 [OF conjunct2 [OF conjunct2 [OF ring_keys_conserved [OF assms(1) wf le, of _ _ cell]]]] assms(2) by simp
  then show ?thesis using Open_wf [OF wf assms(2)] assms(3) by (auto simp: onion_books_def onion_held_def)
qed

lemma nodeExec_books:
  assumes "provider_ok p l ov" "signing_counts p" "nodeExec k e n w = (n', w')" "node_books p b n w"
  shows "node_books p b n' w'"
proof (cases e)
  case (OnRequest body whole now)
  then show ?thesis using assms(3) handleRequest_books [OF assms(2) _ assms(4)] by (auto split: prod.splits)
next
  case (OnCert body whole now)
  then show ?thesis using assms(3) handleCert_books [OF assms(1,2) _ assms(4)] by (auto split: prod.splits)
next
  case (OnRoster body whole now)
  then show ?thesis using assms(3) handleRoster_books [OF assms(1) _ assms(4)] by (auto split: prod.splits)
next
  case (OnInfo now)
  then show ?thesis using assms(3) by (auto simp: infoDescriptor_def intro: node_books_same [OF assms(4)])
next
  case (OnMirror now)
  then show ?thesis using assms(3) by (auto simp: infoDescriptors_def Let_def intro: node_books_same [OF assms(4)] split: prod.splits option.splits)
next
  case (OnRefresh now)
  then show ?thesis using assms(3,4) refreshIfDue_books [OF assms(1,2) _ assms(4)] by (auto split: if_splits)
next
  case (OnRotate locked now)
  then show ?thesis using assms(3) rotateIfDue_books [OF assms(1,2) _ assms(4)] by simp
next
  case (OnPeer now net addr)
  have "n_p n = p" using assms(4) by (simp add: node_books_def)
  then have "n' = n \<and> w' = w \<or> (\<exists>c c'. refreshPeer k p now net addr c w = (c', w') \<and> n' = n\<lparr>n_peers := Some c'\<rparr>)"
    using OnPeer assms(3) by (auto split: option.splits prod.splits)
  then show ?thesis using refreshPeer_live [OF assms(1)] assms(4) node_books_same [OF assms(4), of n' w'] by auto
next
  case (OnSetup cell)
  have "n_p n = p" using assms(4) by (simp add: node_books_def)
  then show ?thesis using OnSetup assms(3,4) onion_node_books [OF assms(4) Open_books [OF assms(1) _ node_books_onion [OF assms(4)]]]
    by (auto split: option.splits prod.splits)
qed

lemma nodeRun_books:
  assumes "provider_ok p l ov" "signing_counts p"
  shows "nodeRun k es n w = (n', w') \<Longrightarrow> node_books p b n w \<Longrightarrow> node_books p b n' w'"
  by (induction es arbitrary: n w) (auto dest: nodeExec_books [OF assms] split: prod.splits)

text \<open>No event makes an identity key, and none makes an onion key once the onion keys are closed.\<close>

definition onion_shut :: "node \<Rightarrow> bool" where
  "onion_shut n \<longleftrightarrow> (\<forall>q. n_onion n = Some q \<longrightarrow> on_closed q \<and> onion_held q = 0)"

lemma shut_held: "onion_shut n \<Longrightarrow> id_held (n_id n) = 0 \<Longrightarrow> node_held n = 0"
  by (cases "n_onion n") (simp_all add: onion_shut_def node_held_def)

lemma keeps_id_held: "node_keeps k n n' \<Longrightarrow> id_held (n_id n') = id_held (n_id n)"
  by (cases "n_id n") (auto simp: node_keeps_def id_held_def same_id_def option_rel_Some1)

lemma handleCert_held:
  assumes "handleCert k body whole now n w = (r, n', w')"
  shows "id_held (n_id n') = id_held (n_id n) \<and> n_onion n' = n_onion n"
proof -
  have sign: "id_held (n_id n2) = id_held (n_id m) \<and> n_onion n2 = n_onion m" if "node_sign k now m w = (x, n2, w2)" for m x n2 w2
    using node_sign_keeps [OF that] keeps_id_held by blast
  have inst: "id_held (Some i') = id_held (Some i)" if "Install ip raw t i = (x, i')" for ip raw t i x i'
    using that by (auto simp: Install_def id_held_def split: sum.splits if_splits)
  show ?thesis using assms
    by (auto simp: handleCert_def installCert_def readBody_def dest!: inst sign split: sum.splits if_splits option.splits prod.splits)
qed

lemma handleRoster_held: "handleRoster k body whole now n w = (r, n', w') \<Longrightarrow> n_id n' = n_id n \<and> n_onion n' = n_onion n"
  by (auto simp: handleRoster_def takeRoster_def dest!: setPeers_held split: sum.splits if_splits option.splits prod.splits)

lemma nodeExec_id_held: "nodeExec k e n w = (n', w') \<Longrightarrow> id_held (n_id n') = id_held (n_id n)"
  using handleCert_held handleRoster_held
  by (cases e) (fastforce dest: keeps_id_held [OF handleRequest_keeps] keeps_id_held [OF infoDescriptor_keeps] keeps_id_held [OF infoDescriptors_keeps]
      keeps_id_held [OF refreshIfDue_keeps] keeps_id_held [OF rotateIfDue_keeps] split: prod.splits if_splits option.splits)+

lemma handlers_onion:
  "handleRequest body whole now n w = (r, n', w') \<Longrightarrow> n_onion n' = n_onion n"
  "infoDescriptor now n = (a, n') \<Longrightarrow> n_onion n' = n_onion n"
  "infoDescriptors k now n = (a, n') \<Longrightarrow> n_onion n' = n_onion n"
  "refreshIfDue k now n w = (n', w') \<Longrightarrow> n_onion n' = n_onion n"
  using node_sign_keeps
  by (auto simp: handleRequest_def infoDescriptor_def infoDescriptors_def refreshIfDue_def Let_def split: sum.splits if_splits option.splits prod.splits)

lemma nodeExec_shut:
  assumes "provider_ok p l ov" "nodeExec k e n w = (n', w')" "node_books p b n w" "onion_shut n"
  shows "onion_shut n'"
proof (cases "n_onion n' = n_onion n")
  case True
  then show ?thesis using assms(4) by (simp add: onion_shut_def)
next
  case False
  then consider (rotate) locked now where "e = OnRotate locked now" | (opened) cell where "e = OnSetup cell"
    using assms(2) handlers_onion handleCert_held handleRoster_held by (cases e) (fastforce split: prod.splits if_splits option.splits)+
  then show ?thesis
  proof cases
    case rotate
    then show ?thesis using assms(2,4) False by (auto simp: onion_shut_def rotateIfDue_def split: option.splits if_splits)
  next
    case opened
    obtain q where q: "n_onion n = Some q" using opened assms(2) False by (auto split: option.splits)
    obtain r g w1 where opn: "Open p cell (on_ring q) w = (r, g, w1)" by (metis prod_cases3)
    have books: "onion_books (b + id_held (n_id n)) q w" using node_books_onion [OF assms(3) q] .
    have shut: "on_closed q" "onion_held q = 0" using assms(4) q by (simp_all add: onion_shut_def)
    have "n_p n = p" using assms(3) by (simp add: node_books_def)
    then have n': "n' = n\<lparr>n_onion := Some (q\<lparr>on_ring := g\<rparr>)\<rparr>" using opened assms(2) q opn by simp
    have "wf_ring (on_ring q)" "ring_keys (on_ring q) \<le> live w" using books by (simp_all add: onion_books_def onion_held_def)
    from conjunct2 [OF conjunct2 [OF conjunct2 [OF ring_keys_conserved [OF assms(1) this, of _ _ cell]]]] opn shut
    show ?thesis by (simp add: onion_shut_def n' onion_held_def split: if_splits)
  qed
qed

lemma nodeRun_held:
  assumes "provider_ok p l ov" "signing_counts p"
  shows "nodeRun k es n w = (n', w') \<Longrightarrow> node_books p b n w \<Longrightarrow> id_held (n_id n') = id_held (n_id n) \<and> (onion_shut n \<longrightarrow> onion_shut n')"
proof (induction es arbitrary: n w)
  case (Cons e es)
  obtain m w1 where m: "nodeExec k e n w = (m, w1)" by force
  show ?case
    using Cons.IH [of m w1] Cons.prems m nodeExec_books [OF assms m] nodeExec_shut [OF assms(1) m] nodeExec_id_held [OF m] by auto
qed simp

section \<open>The deferred calls\<close>

lemma closeIdentity_books:
  assumes "closeIdentity n w = (n', w')" "node_books p b n w"
  shows "node_books p b n' w'" "id_held (n_id n') = 0" "onion_shut n' = onion_shut n"
  using assms by (auto simp: closeIdentity_def Identity_Close_def node_books_def node_held_def id_held_def onion_shut_def split: option.splits)

lemma closeOnion_books:
  assumes "provider_ok p l ov" "closeOnion n w = (n', w')" "node_books p b n w"
  shows "node_books p b n' w'" "onion_shut n'" "n_id n' = n_id n"
proof -
  have "node_books p b n' w' \<and> onion_shut n' \<and> n_id n' = n_id n"
  proof (cases "n_onion n")
    case None
    then show ?thesis using assms(2,3) by (simp add: closeOnion_def onion_shut_def)
  next
    case (Some q)
    let ?b = "b + id_held (n_id n)"
    obtain q1 w1 where l: "letGo (q\<lparr>on_closed := True\<rparr>) w = (q1, w1)" by force
    obtain g w2 where c: "OnionRing_Close (on_ring q1) w1 = (g, w2)" by force
    have b1: "onion_books ?b q1 w1" "\<not> on_reserve q1"
      using letGo_books [OF l, of ?b] node_books_onion [OF assms(3) Some] by (simp_all add: onion_books_other)
    have closed: "on_closed q1" using l by (auto simp: letGo_def split: if_splits)
    have "wf_ring (on_ring q1)" "ring_keys (on_ring q1) \<le> live w1" using b1(1) by (simp_all add: onion_books_def onion_held_def)
    from conjunct1 [OF conjunct2 [OF conjunct2 [OF ring_keys_conserved [OF assms(1) this]]]] c
    have g: "ring_keys g = 0" "live w2 = ?b" using b1 by (simp_all add: onion_books_def onion_held_def)
    have n': "n' = n\<lparr>n_onion := Some (q1\<lparr>on_ring := g\<rparr>)\<rparr>" "w' = w2" using assms(2) Some l c by (simp_all add: closeOnion_def)
    have "onion_books ?b (q1\<lparr>on_ring := g\<rparr>) w2" using g b1(2) Close_wf [OF c] by (simp add: onion_books_def onion_held_def)
    then show ?thesis using onion_node_books [OF assms(3)] closed g(1) b1(2) by (simp add: n' onion_shut_def onion_held_def)
  qed
  then show "node_books p b n' w'" "onion_shut n'" "n_id n' = n_id n" by blast+
qed

lemma grows_New:
  assumes "provider_ok p l ov"
  shows "grows 0 (New cfg p priv pub ring dial)"
proof -
  have "live w' = live w" if "New cfg p priv pub ring dial w = (r, w')" for w r w'
  proof (cases priv)
    case None
    then show ?thesis using that by (simp add: New_def)
  next
    case (Some k)
    obtain a w1 where a: "PublicKeySize p w = (a, w1)" by force
    obtain c w2 where c: "checkKeyPair p k pub ErrStaticPair w1 = (c, w2)" by force
    have "live w1 = live w" "live w2 = live w1" using PublicKeySize_live [OF a assms] growsD [OF grows_checkKeyPair [OF assms] c] by simp_all
    moreover have "w' \<in> {w, w1, w2}" using that Some a c by (simp add: New_def split: sum.splits if_splits)
    ultimately show ?thesis by auto
  qed
  then show ?thesis by (simp add: grows_def)
qed

lemma serveRelay_books:
  assumes "provider_ok p l ov" "signing_counts p" "serveRelay k p cfg sr priv pub n w = (r, n', w')" "node_books p b n w"
  shows "node_books p b n' w' \<and> id_held (n_id n') = id_held (n_id n) \<and> (onion_shut n \<longrightarrow> onion_shut n') \<and> (r = Inr () \<longrightarrow> sr_cause sr = Signalled)"
proof -
  let ?set = "if \<not> nc_auth cfg \<and> nc_advertise cfg \<noteq> [] then setPeers k (sr_now sr) (nc_peers cfg) None n else (Inr (), n)"
  obtain x m where x: "?set = (x, m)" by force
  have m: "node_books p b m w" "n_id m = n_id n" "onion_shut m = onion_shut n" unfolding onion_shut_def
    using x setPeers_held node_books_same [OF assms(4), of m w] by (fastforce split: if_splits)+
  obtain y w1 where y: "New (relayConfig cfg (peerKey (sr_now sr) m)) p (Some priv) pub (map_option on_ring (n_onion m)) (sr_dial sr) w = (y, w1)" by force
  have b1: "node_books p b m w1" using node_books_same [OF m(1)] growsD [OF grows_New [OF assms(1)] y] by simp
  obtain n1 w2 where r1: "nodeRun k (sr_serving sr) m w1 = (n1, w2)" by force
  obtain n2 w3 where r2: "nodeRun k (sr_afterRelay sr) n1 w2 = (n2, w3)" by force
  note run1 = nodeRun_books [OF assms(1,2) r1 b1] nodeRun_held [OF assms(1,2) r1 b1]
  note run2 = nodeRun_books [OF assms(1,2) r2 run1(1)] nodeRun_held [OF assms(1,2) r2 run1(1)]
  have "r \<noteq> Inr () \<and> n' = m \<and> w' \<in> {w, w1} \<or> r = untilStopped (sr_cause sr) \<and> n' = n2 \<and> w' = w3"
    using assms(3) x y r1 r2 by (auto simp: serveRelay_def split: sum.splits list.splits)
  then show ?thesis using m b1 run1 run2 by (auto simp: untilStopped_def split: stopCause.splits)
qed

lemma NewIdentity_new:
  assumes "signing_counts p" "NewIdentity ip p name addr w = (r, w')"
  shows "live w' = live w + (if isl r then 0 else 1)" "r = Inr i \<Longrightarrow> id_p i = p \<and> id_priv i \<noteq> None"
proof -
  have "live w' = live w + (if isl x then 0 else 1)" if "pSigning p w = (x, w')" for x
    using growsD [of 1 "pSigning p", OF _ that] assms(1) by (simp add: signing_counts_def)
  then show "live w' = live w + (if isl r then 0 else 1)"
    using assms(2) by (fastforce simp: NewIdentity_def split: if_splits prod.splits sum.splits)
  show "r = Inr i \<Longrightarrow> id_p i = p \<and> id_priv i \<noteq> None" using assms(2) by (auto simp: NewIdentity_def split: if_splits prod.splits sum.splits)
qed

lemma serveIdentity_books:
  assumes "provider_ok p l ov" "signing_counts p" "serveIdentity k p cfg sr priv pub onionPub n w = (r, n', w')" "node_books p b n w" "n_id n = None"
  shows "node_books p b n' w' \<and> id_held (n_id n') = 0 \<and> (onion_shut n \<longrightarrow> onion_shut n') \<and> (r = Inr () \<longrightarrow> sr_cause sr = Signalled \<and> (nc_auth cfg \<and> nc_lock cfg \<longrightarrow> sr_idLocked sr))"
proof (cases "nc_auth cfg")
  case False
  obtain x w1 where u: "Unsigned (k_json k) p pub onionPub w = (x, w1)" by force
  have "live w1 = live w"
    using u PublicKeySize_live [OF _ assms(1)] by (auto simp: Unsigned_def UnsignedEpoch_def Let_def split: prod.splits sum.splits if_splits)
  then have b1: "node_books p b n w1" and b2: "node_books p b (n\<lparr>n_unsigned := y\<rparr>) w1" for y using node_books_same [OF assms(4)] by simp_all
  show ?thesis
  proof (cases x)
    case (Inl e)
    then have "r \<noteq> Inr ()" "n' = n" "w' = w1" using False assms(3) u by (auto simp: serveIdentity_def)
    then show ?thesis using b1 assms(5) by (simp add: id_held_def)
  next
    case (Inr y)
    have "serveRelay k p cfg sr priv pub (n\<lparr>n_unsigned := Some y\<rparr>) w1 = (r, n', w')" using False assms(3) u Inr by (simp add: serveIdentity_def)
    note s = serveRelay_books [OF assms(1,2) this b2]
    have "onion_shut (n\<lparr>n_unsigned := Some y\<rparr>) = onion_shut n" by (simp add: onion_shut_def)
    moreover have "id_held (n_id (n\<lparr>n_unsigned := Some y\<rparr>)) = 0" using assms(5) by (simp add: id_held_def)
    ultimately show ?thesis using False s by simp
  qed
next
  case True
  obtain x w1 where N: "NewIdentity (k_ip k) p (nc_name cfg) (nc_advertise cfg) w = (x, w1)" by force
  note new = NewIdentity_new [OF assms(2) N]
  show ?thesis
  proof (cases x)
    case (Inl e)
    then show ?thesis using True assms(3-5) N new(1) by (auto simp: serveIdentity_def id_held_def intro: node_books_same)
  next
    case (Inr i)
    have i: "id_p i = p" "id_priv i \<noteq> None" "live w1 = live w + 1" using new Inr by simp_all
    show ?thesis
    proof (cases "nc_lock cfg \<and> \<not> sr_idLocked sr")
      case unlocked: True
      have "live (snd (Identity_Close i w1)) = live w" using i by (auto simp: Identity_Close_def)
      then show ?thesis
        using True unlocked assms(3-5) N Inr node_books_same [OF assms(4), of n "snd (Identity_Close i w1)"] by (auto simp: serveIdentity_def id_held_def)
    next
      case locked: False
      let ?n = "n\<lparr>n_id := Some (SetKeys pub onionPub 0 i)\<rparr>"
      have b1: "node_books p b ?n w1" using assms(4,5) i by (simp add: node_books_def node_held_def id_held_def SetKeys_def)
      obtain r1 n1 w2 where S: "serveRelay k p cfg sr priv pub ?n w1 = (r1, n1, w2)" by (metis prod_cases3)
      note s = serveRelay_books [OF assms(1,2) S b1]
      obtain n2 w3 where C: "closeIdentity n1 w2 = (n2, w3)" by force
      note c = closeIdentity_books [OF C conjunct1 [OF s]]
      obtain n3 w4 where R: "nodeRun k (sr_afterId sr) n2 w3 = (n3, w4)" by force
      have "r = r1" "n' = n3" "w' = w4" using assms(3) True N Inr locked S C R by (auto simp: serveIdentity_def)
      moreover have "onion_shut ?n = onion_shut n" by (simp add: onion_shut_def)
      ultimately show ?thesis using locked s c nodeRun_books [OF assms(1,2) R c(1)] nodeRun_held [OF assms(1,2) R c(1)] by auto
    qed
  qed
qed

lemma serveOnion_books:
  assumes "provider_ok p l ov" "signing_counts p" "serveOnion k p cfg sr priv pub w = (r, w')"
  shows "live w' = live w \<and> (r = Inr () \<longrightarrow> sr_cause sr = Signalled \<and> (nc_lock cfg \<longrightarrow> (nc_auth cfg \<longrightarrow> sr_idLocked sr) \<and> (nc_onionRotate cfg \<noteq> 0 \<longrightarrow> sr_onionLocked sr)))"
proof (cases "nc_onionRotate cfg = 0")
  case True
  obtain r1 n w1 where S: "serveIdentity k p cfg sr priv pub pub (startNode p cfg) w = (r1, n, w1)" by (metis prod_cases3)
  have "node_books p (live w) (startNode p cfg) w" by (simp add: node_books_def node_held_def startNode_def id_held_def)
  from serveIdentity_books [OF assms(1,2) S this]
  have s: "node_books p (live w) n w1" "id_held (n_id n) = 0" "onion_shut n"
    "r1 = Inr () \<longrightarrow> sr_cause sr = Signalled \<and> (nc_auth cfg \<and> nc_lock cfg \<longrightarrow> sr_idLocked sr)" by (simp_all add: startNode_def onion_shut_def)
  have "node_held n = 0" using shut_held s(2,3) by blast
  then show ?thesis using True assms(3) S s by (auto simp: serveOnion_def node_books_def)
next
  case rot: False
  obtain x w1 where E: "GenerateEphemeral p w = (x, w1)" by force
  note g = growsD [OF grows_GenerateEphemeral [OF assms(1)] E]
  show ?thesis
  proof (cases "isl x \<or> nc_lock cfg \<and> \<not> sr_onionLocked sr")
    case True
    then show ?thesis using rot assms(3) E g by (auto simp: serveOnion_def split: sum.splits if_splits)
  next
    case ok: False
    then obtain opriv opub where x: "x = Inr (opriv, opub)" by (cases x) auto
    obtain y w2 where N: "NewOnionRing p (Some opriv) opub (nc_setupCache cfg) w1 = (y, w2)" by force
    note n = NewOnionRing_wf [OF assms(1) N]
    show ?thesis
    proof (cases y)
      case (Inl e)
      then show ?thesis using rot ok assms(3) E x g N n(1) by (auto simp: serveOnion_def)
    next
      case (Inr ring)
      obtain q w3 where Q: "newOnionKeys ring (nc_onionRotate cfg) (nc_descriptorTTL cfg) (nc_lock cfg) (sr_now sr) w2 = (q, w3)" by force
      have "ring_keys ring = 1" using N Inr by (auto simp: NewOnionRing_def ring_keys_def split: if_splits prod.splits sum.splits option.splits)
      then have "onion_books (live w) q w3" using hold_pages_books [OF Q [unfolded newOnionKeys_def], of "live w"] n Inr g x
        by (simp add: onion_books_def onion_held_def)
      then have b: "node_books p (live w) ((startNode p cfg)\<lparr>n_link := pub, n_onion := Some q\<rparr>) w3"
        by (simp add: node_books_def node_held_def startNode_def id_held_def onion_books_def)
      obtain r1 n1 w4 where S: "serveIdentity k p cfg sr priv pub opub ((startNode p cfg)\<lparr>n_link := pub, n_onion := Some q\<rparr>) w3 = (r1, n1, w4)" by (metis prod_cases3)
      have s: "node_books p (live w) n1 w4" "id_held (n_id n1) = 0"
        "r1 = Inr () \<longrightarrow> sr_cause sr = Signalled \<and> (nc_auth cfg \<and> nc_lock cfg \<longrightarrow> sr_idLocked sr)"
        using serveIdentity_books [OF assms(1,2) S b] by (simp_all add: startNode_def)
      obtain n2 w5 where C: "closeOnion n1 w4 = (n2, w5)" by force
      note c = closeOnion_books [OF assms(1) C s(1)]
      obtain n3 w6 where R: "nodeRun k (sr_afterOnion sr) n2 w5 = (n3, w6)" by force
      note run = nodeRun_books [OF assms(1,2) R c(1)] nodeRun_held [OF assms(1,2) R c(1)]
      have "node_held n3 = 0" using shut_held run(2) c(2,3) s(2) by metis
      then have "live w6 = live w" using run(1) by (simp add: node_books_def)
      moreover have "r = r1 \<and> w' = w6" using assms(3) rot ok E x N Inr Q S C R by (cases "nc_lock cfg") (simp_all add: serveOnion_def)
      ultimately show ?thesis using s(3) ok by auto
    qed
  qed
qed

lemma serveNode_books:
  assumes "provider_ok p l ov" "signing_counts p" "serveNode k p cfg sr w = (r, w')"
  shows "live w' = live w \<and> (r = Inr () \<longrightarrow> sr_cause sr = Signalled
    \<and> (nc_lock cfg \<longrightarrow> sr_staticLocked sr \<and> (nc_auth cfg \<longrightarrow> sr_idLocked sr) \<and> (nc_onionRotate cfg \<noteq> 0 \<longrightarrow> sr_onionLocked sr)))"
proof (cases "GenerateEphemeral p w")
  case (Pair x w1)
  note g = growsD [OF grows_GenerateEphemeral [OF assms(1)] Pair]
  show ?thesis
  proof (cases x)
    case (Inl e)
    then show ?thesis using assms(3) Pair g by (auto simp: serveNode_def)
  next
    case (Inr kp)
    obtain priv pub where kp: "kp = (priv, pub)" by force
    obtain r1 w2 where S: "serveOnion k p cfg sr priv pub w1 = (r1, w2)" by force
    note s = serveOnion_books [OF assms(1,2) S]
    have "nc_lock cfg \<and> \<not> sr_staticLocked sr \<and> isl r \<and> w' = release w1 \<or> \<not> (nc_lock cfg \<and> \<not> sr_staticLocked sr) \<and> r = r1 \<and> w' = release w2"
      using assms(3) Pair Inr kp S by (auto simp: serveNode_def split: if_splits)
    then show ?thesis using g s Inr by auto
  qed
qed

section \<open>The suites keep the count\<close>

lemma c25519_signing_counts:
  assumes "curve25519_ok C"
  shows "signing_counts (c25519 C)"
proof -
  obtain sub where e: "ed25519_ok C sub" using assms by (auto simp: curve25519_ok_def)
  have "\<not> isl (c25519_publicKey C seed)" for seed
    using e by (auto simp: c25519_publicKey_def ed25519_ok_def split: option.splits)
  then have "grows 1 (c25519_GenerateSigning C)"
    by (auto simp: grows_def c25519_GenerateSigning_def isl_def dest!: growsD [OF grows_readFull] split: if_splits prod.splits sum.splits)
  moreover have "grows 0 (c25519_Sign C k m)" for k m by (auto simp: grows_def c25519_Sign_def)
  ultimately show ?thesis by (simp add: signing_counts_def)
qed

text \<open>The nonce of a GOST signature is drawn by \<^verbatim>\<open>gogost\<close>, which knows nothing of the buffers.\<close>

definition gost_sign_plain :: "gogost \<Rightarrow> bool" where
  "gost_sign_plain G \<longleftrightarrow> (\<forall>k d. grows 0 (SignDigest G k d))"

lemma gost_signing_counts:
  assumes "gogost_ok G" "gost_sign_plain G"
  shows "signing_counts (gost G)"
proof -
  have "grows 1 (GenerateEphemeral (gost G))" using grows_GenerateEphemeral [OF gost_provider_ok [OF assms(1)]] .
  moreover have "GenerateEphemeral (gost G) = gost_generate G" by (rule ext) (simp add: GenerateEphemeral_def)
  moreover have "grows 0 (gost_Sign G k m)" for k m
    using assms(2) by (auto simp: grows_def gost_Sign_def gost_sign_plain_def split: if_splits sum.splits)
  ultimately show ?thesis by (simp add: signing_counts_def)
qed

lemma chosen_provider:
  assumes "gogost_ok G" "gost_sign_plain G" "curve25519_ok C" "suite_New G C chosen = Inr p"
  obtains l ov where "provider_ok p l ov" "signing_counts p"
proof -
  have "p = gost G \<or> p = c25519 C" using assms(4) by (auto simp: suite_New_def split: if_splits)
  then show ?thesis
    using that gost_provider_ok [OF assms(1)] gost_signing_counts [OF assms(1,2)] c25519_provider_ok [OF assms(3)] c25519_signing_counts [OF assms(3)] by blast
qed


text \<open>A node that starts without authentication, serves and is stopped by a signal.\<close>

definition sampleNodeConfig :: nodeConfig where
  "sampleNodeConfig =
     \<lparr>nc_stats = [], nc_echo = True, nc_period = 0, nc_queue = 64, nc_setupCache = 8, nc_auth = False, nc_name = [], nc_advertise = [],
      nc_descriptorTTL = Hour, nc_onionRotate = 0, nc_peerInfoPort = ascii ''9100'', nc_peers = [], nc_lock = False, nc_keymem = ''all'',
      nc_harden = True, nc_limits = sampleConfig\<rparr>"

definition sampleSurroundings :: surroundings where
  "sampleSurroundings =
     \<lparr>sr_staticLocked = True, sr_onionLocked = True, sr_idLocked = True, sr_now = \<lparr>tm_wall = 0, tm_run = 0\<rparr>, sr_listen = (\<lambda>_. None),
      sr_dial = (\<lambda>_ _. Inl errDial), sr_cause = Signalled, sr_serving = [OnInfo \<lparr>tm_wall = 1, tm_run = 1\<rparr>],
      sr_afterRelay = [], sr_afterId = [], sr_afterOnion = [], sr_loopback = (\<lambda>_. True), sr_hardened = Inr (), sr_budget = Inr (2 ^ 20)\<rparr>"

lemma sampleNode_serves: "\<exists>w'. serveNode sampleCodecs sampleSuite sampleNodeConfig sampleSurroundings sampleNode = (Inr (), w')"
proof -
  let ?key = "replicate 32 7 :: bytes" and ?w = "allocate (sampleNode\<lparr>rnd := replicate 3968 7\<rparr>)"
  have eph: "GenerateEphemeral sampleSuite sampleNode = (Inr (?key, ?key), ?w)"
    by (simp add: GenerateEphemeral_def sampleSuite_def sampleEphemeral_def readFull_def sampleNode_def)
  have sz: "PublicKeySize sampleSuite ?w = (Inr 32, ?w)"
    by (simp add: PublicKeySize_def sizesOf_def sampleNode_def sampleSuite_def allocate_def)
  have check: "checkKeyPair sampleSuite ?key ?key m ?w = (Inr (), ?w\<lparr>rnd := drop 32 (rnd ?w)\<rparr>)" for m
    by (rule sample_pair_any) (simp_all add: sampleNode_def)
  have period: "nc_limits sampleNodeConfig = sampleConfig" "nc_period sampleNodeConfig = 0" "cf_Period sampleConfig = 0"
    by (simp_all add: sampleNodeConfig_def sampleConfig_def)
  have "resolveLimits (relayConfig sampleNodeConfig f) = resolveLimits sampleConfig" for f by (simp add: relayConfig_def period resolveLimits_def)
  then have cfg: "cf_QueueCells (relayConfig sampleNodeConfig f) = 64" "cf_SetupCache (relayConfig sampleNodeConfig f) = 8"
    "resolveLimits (relayConfig sampleNodeConfig f) = Inr sampleLimits" for f
    using sampleLimits_resolved by (simp_all add: relayConfig_def sampleNodeConfig_def)
  have new: "\<exists>r. New (relayConfig sampleNodeConfig f) sampleSuite (Some ?key) ?key None d ?w = (Inr r, ?w\<lparr>rnd := drop 32 (rnd ?w)\<rparr>)" for f d
    using sz check cfg by (simp add: New_def maxQueueCells_def MaxSetupCache_def)
  obtain b where u: "Unsigned (k_json sampleCodecs) sampleSuite ?key ?key ?w = (Inr b, ?w)"
    using sz by (simp add: Unsigned_def UnsignedEpoch_def Let_def)
  let ?n = "(startNode sampleSuite sampleNodeConfig)\<lparr>n_unsigned := Some b\<rparr>"
  obtain r where r: "New (relayConfig sampleNodeConfig (peerKey (sr_now sampleSurroundings) ?n)) sampleSuite (Some ?key) ?key None (sr_dial sampleSurroundings) ?w
      = (Inr r, ?w\<lparr>rnd := drop 32 (rnd ?w)\<rparr>)" using new by blast
  have flags: "\<not> nc_auth sampleNodeConfig" "nc_advertise sampleNodeConfig = []" "nc_onionRotate sampleNodeConfig = 0" "\<not> nc_lock sampleNodeConfig"
    "sr_listen sampleSurroundings = (\<lambda>_. None)" "untilStopped (sr_cause sampleSurroundings) = Inr ()" "n_onion ?n = None"
    by (simp_all add: sampleNodeConfig_def sampleSurroundings_def untilStopped_def startNode_def)
  obtain n1 w1 where a: "nodeRun sampleCodecs (sr_serving sampleSurroundings) ?n (?w\<lparr>rnd := drop 32 (rnd ?w)\<rparr>) = (n1, w1)" by force
  obtain n2 w2 where b: "nodeRun sampleCodecs (sr_afterRelay sampleSurroundings) n1 w1 = (n2, w2)" by force
  have "serveRelay sampleCodecs sampleSuite sampleNodeConfig sampleSurroundings ?key ?key ?n ?w = (Inr (), n2, w2)"
    using r a b by (simp add: serveRelay_def flags List.map_filter_simps)
  then show ?thesis using eph u by (simp add: serveNode_def serveOnion_def serveIdentity_def flags)
qed


end
