(* ===== verification/Network.thy ===== *)
theory Network
  imports RelayInv ClientRate
begin

text \<open>
  The parts put together: a client, the relays of its chain and the links between them. A station
  is one relay with the circuit it holds and the handles of its two links; the bytes one end of a link
  has written are put into the inbox of the other end, and the handlers of \<^verbatim>\<open>relay/relay.go\<close> and
  \<^verbatim>\<open>client/client.go\<close> do the rest: \<^verbatim>\<open>handle\<close> takes a cell at every station on the way to the exit,
  \<^verbatim>\<open>backward\<close> takes the reply on the way back and \<^verbatim>\<open>receive\<close> takes it at the client. The theorem
  follows any number of messages through a chain of any length and says that each is delivered, in
  order, and answered, in order.
\<close>

section \<open>Stations\<close>

record station =
  st_relay :: Relay
  st_world :: world
  st_obj :: nat
  st_in :: nat
  st_out :: nat
  st_src :: Addr

text \<open>Bytes that reach a link, and the bytes it has written, taken off it.\<close>

definition raw_feed :: "bytes \<Rightarrow> Raw \<Rightarrow> Raw" where
  "raw_feed b raw = raw\<lparr>inbox := inbox raw @ b\<rparr>"

definition raw_unload :: "Raw \<Rightarrow> bytes \<times> Raw" where
  "raw_unload raw = (outbox raw, raw\<lparr>outbox := []\<rparr>)"

definition feed :: "bytes \<Rightarrow> nat \<Rightarrow> Relay \<Rightarrow> Relay" where
  "feed b l r = (case r_links r l of (c, raw) \<Rightarrow> setLink l (c, raw_feed b raw) r)"

definition unload :: "nat \<Rightarrow> Relay \<Rightarrow> bytes \<times> Relay" where
  "unload l r = (case r_links r l of (c, raw) \<Rightarrow> (case raw_unload raw of (b, raw) \<Rightarrow> (b, setLink l (c, raw) r)))"

text \<open>
  The bytes of one cell go up the chain from the first station of the list, and the bytes of the
  reply come back out of it.
\<close>

fun pass :: "int \<Rightarrow> bytes \<Rightarrow> station list \<Rightarrow> (bytes \<times> station list) option" where
  "pass now b [] = None"
| "pass now b (s # ss) =
     (case handleTurn (st_in s) (st_src s) now (feed b (st_in s) (st_relay s)) (st_world s) of
        None \<Rightarrow> None
      | Some (goes, r, w) \<Rightarrow>
          if ss = [] then
            (case unload (st_in s) r of (b, r) \<Rightarrow> Some (b, [s\<lparr>st_relay := r, st_world := w\<rparr>]))
          else
            (case unload (st_out s) r of (b, r) \<Rightarrow>
               (case pass now b ss of
                  None \<Rightarrow> None
                | Some (b, ss) \<Rightarrow>
                    (case backwardTurn (st_obj s) now (feed b (st_out s) r) w of
                       None \<Rightarrow> None
                     | Some (goes, r, w) \<Rightarrow>
                         (case unload (st_in s) r of (b, r) \<Rightarrow> Some (b, s\<lparr>st_relay := r, st_world := w\<rparr> # ss))))))"

text \<open>One message of the client, all the way and back.\<close>

definition round_trip :: "int \<Rightarrow> bytes \<Rightarrow> Client \<times> world \<times> station list \<Rightarrow> (Client \<times> world \<times> station list) option" where
  "round_trip now payload n =
     (case n of (c, w, ss) \<Rightarrow>
        (case client_send False payload c w of
           (Inl e, c, w) \<Rightarrow> None
         | (Inr _, c, w) \<Rightarrow>
             (case raw_unload (cl_raw c) of (b, raw) \<Rightarrow>
                (case pass now b ss of
                   None \<Rightarrow> None
                 | Some (b, ss) \<Rightarrow>
                     (case receiveTurn (c\<lparr>cl_raw := raw_feed b raw\<rparr>) of
                        None \<Rightarrow> None
                      | Some c \<Rightarrow> Some (c, w, ss))))))"

text \<open>A conversation: the client takes every reply off its channel before the next message.\<close>

fun conversation :: "int \<Rightarrow> bytes list \<Rightarrow> Client \<times> world \<times> station list \<Rightarrow> (bytes option list \<times> Client \<times> world \<times> station list) option" where
  "conversation now [] n = Some ([], n)"
| "conversation now (m # ms) n =
     (case round_trip now m n of
        None \<Rightarrow> None
      | Some (c, w, ss) \<Rightarrow>
          (case try_recv (cl_replies c) of (got, q) \<Rightarrow>
             (case conversation now ms (c\<lparr>cl_replies := q\<rparr>, w, ss) of
                None \<Rightarrow> None
              | Some (rest, n) \<Rightarrow> Some (got # rest, n))))"

section \<open>When the parts fit\<close>

text \<open>What the two directions of a link are sealed with and how far they are.\<close>

record linkKeys =
  lk_fwd :: AEAD
  lk_fseq :: u64
  lk_bwd :: AEAD
  lk_bseq :: u64

definition fbump :: "linkKeys \<Rightarrow> linkKeys" where
  "fbump k = k\<lparr>lk_fseq := lk_fseq k + 1\<rparr>"

definition bbump :: "linkKeys \<Rightarrow> linkKeys" where
  "bbump k = k\<lparr>lk_bseq := lk_bseq k + 1\<rparr>"

lemma bump_keys [simp]:
  "lk_fwd (fbump k) = lk_fwd k" "lk_bwd (fbump k) = lk_bwd k" "lk_bseq (fbump k) = lk_bseq k" "lk_fseq (fbump k) = lk_fseq k + 1"
  "lk_fwd (bbump k) = lk_fwd k" "lk_bwd (bbump k) = lk_bwd k" "lk_fseq (bbump k) = lk_fseq k" "lk_bseq (bbump k) = lk_bseq k + 1"
  by (simp_all add: fbump_def bbump_def)

definition keys_ok :: "linkKeys \<Rightarrow> bool" where
  "keys_ok k \<longleftrightarrow> aead_ok (lk_fwd k) \<and> aead_ok (lk_bwd k)"

text \<open>An idle end of a link that sends with \<open>a\<close> and receives with \<open>b\<close>, and has room for \<open>m\<close> more frames.\<close>

definition idle_end :: "AEAD \<Rightarrow> u64 \<Rightarrow> AEAD \<Rightarrow> u64 \<Rightarrow> nat \<Rightarrow> Conn \<times> Raw \<Rightarrow> bool" where
  "idle_end a s b t m e =
     (case e of (c, raw) \<Rightarrow> sends c a s \<and> receives c b t \<and> inbox raw = [] \<and> outbox raw = [] \<and> m * frame_len a \<le> room raw \<and> deadlineOK raw)"

abbreviation near_end :: "linkKeys \<Rightarrow> nat \<Rightarrow> Conn \<times> Raw \<Rightarrow> bool" where
  "near_end k \<equiv> idle_end (lk_fwd k) (lk_fseq k) (lk_bwd k) (lk_bseq k)"

abbreviation far_end :: "linkKeys \<Rightarrow> nat \<Rightarrow> Conn \<times> Raw \<Rightarrow> bool" where
  "far_end k \<equiv> idle_end (lk_bwd k) (lk_bseq k) (lk_fwd k) (lk_fseq k)"

text \<open>The sequence has taken \<open>n\<close> cells and \<open>v\<close> is due.\<close>

definition seq_due :: "Sequence \<Rightarrow> u64 \<Rightarrow> u64 \<Rightarrow> bool" where
  "seq_due sq n v \<longleftrightarrow> seq_taken sq = n \<and> (seeded sq \<longrightarrow> seq_next sq = v)"

text \<open>The counter of reply \<open>n\<close> on the link into hop \<open>k\<close>.\<close>

definition replyAt :: "Offsets list \<Rightarrow> nat \<Rightarrow> u64 \<Rightarrow> u64" where
  "replyAt offs k n = foldr (\<lambda>o' v. shift v (off_bwd o')) (drop k offs) n"

text \<open>
  Station \<open>k\<close> of the chain after \<open>i\<close> cells on the way out and \<open>j\<close> replies on the way back, with its two links as
  \<open>up\<close> and \<open>down\<close> say and \<open>budget\<close> random bytes left; the exit calls \<open>f\<close>.
\<close>

definition station_at ::
  "Circuit \<Rightarrow> Offsets list \<Rightarrow> u64 list \<Rightarrow> (u64 \<Rightarrow> bytes \<Rightarrow> bytes option) \<Rightarrow> nat \<Rightarrow> u64 \<Rightarrow> u64
    \<Rightarrow> (Conn \<times> Raw \<Rightarrow> bool) \<Rightarrow> (Conn \<times> Raw \<Rightarrow> bool) \<Rightarrow> nat \<Rightarrow> station \<Rightarrow> bool" where
  "station_at C offs links f k i j up down budget s \<longleftrightarrow>
     (let r = st_relay s; c = objs r (st_obj s) in
      circuits r (links ! k) = Some (st_obj s) \<and> ci_in c = st_in s \<and> hop_of C offs k (ci_hop c) \<and> ci_inbound c = links ! k
      \<and> ci_bwd c = None \<and> seq_due (ci_fwdSeq c) i (valueAt C k Forward i) \<and> up (r_links r (st_in s)) \<and> budget \<le> length (rnd (st_world s))
      \<and> (if Suc k = length offs then ci_isExit c \<and> ci_replies c = j \<and> cf_Deliver (r_cfg r) = Some f
         else \<not> ci_isExit c \<and> ci_fwd c = None \<and> ci_next c = Some (st_out s) \<and> ci_nextID c = links ! Suc k \<and> st_out s \<noteq> st_in s
              \<and> seq_due (ci_bwdSeq c) j (replyAt offs (Suc k) j) \<and> down (r_links r (st_out s))))"

text \<open>Between exchanges: room and random bytes for \<open>m\<close> more.\<close>

abbreviation station_ready ::
  "Circuit \<Rightarrow> Offsets list \<Rightarrow> u64 list \<Rightarrow> (u64 \<Rightarrow> bytes \<Rightarrow> bytes option) \<Rightarrow> linkKeys list \<Rightarrow> u64 \<Rightarrow> nat \<Rightarrow> nat \<Rightarrow> station \<Rightarrow> bool" where
  "station_ready C offs links f K n m k \<equiv>
     station_at C offs links f k n n (far_end (K ! k) m) (near_end (K ! Suc k) m) (m * (3 * BodySize))"

definition client_ready :: "Circuit \<Rightarrow> u64 list \<Rightarrow> linkKeys list \<Rightarrow> u64 \<Rightarrow> nat \<Rightarrow> Client \<Rightarrow> world \<Rightarrow> bool" where
  "client_ready C links K n m c w \<longleftrightarrow>
     cl_circuit c = C \<and> cl_inbound c = links ! 0 \<and> cl_sent c = n \<and> cl_want c = n \<and> \<not> cl_closed c \<and> cl_receiving c
     \<and> near_end (K ! 0) m (cl_conn c, cl_raw c) \<and> m * (BodySize + 8) \<le> length (rnd w)"

definition network_ready ::
  "Circuit \<Rightarrow> Offsets list \<Rightarrow> u64 list \<Rightarrow> (u64 \<Rightarrow> bytes \<Rightarrow> bytes option) \<Rightarrow> linkKeys list \<Rightarrow> u64 \<Rightarrow> nat \<Rightarrow> Client \<times> world \<times> station list \<Rightarrow> bool" where
  "network_ready C offs links f K n m N =
     (case N of (c, w, ss) \<Rightarrow>
        wf_circuit C offs links \<and> length ss = length offs \<and> length K = length offs \<and> list_all keys_ok K
        \<and> client_ready C links K n m c w \<and> list_all (\<lambda>k. station_ready C offs links f K n m k (ss ! k)) [0..<length ss])"

section \<open>Links\<close>

lemma idle_write:
  assumes "idle_end a s b t (Suc m) (c, raw)" "aead_ok a" "wf_cell x"
  obtains c' raw' where "WriteCell x c raw = (Inr (), c', raw')" "raw_unload raw' = (frames a s [x], raw'\<lparr>outbox := []\<rparr>)"
    "idle_end a (s + 1) b t m (c', raw'\<lparr>outbox := []\<rparr>)"
proof -
  have e: "sends c a s" "receives c b t" "outbox raw = []" "frame_len a + m * frame_len a \<le> room raw" "deadlineOK raw" "inbox raw = []"
    using assms(1) by (simp_all add: idle_end_def)
  obtain c' where w: "WriteCell x c raw = (Inr (), c', raw\<lparr>outbox := outbox raw @ frames a s [x], room := room raw - frame_len a\<rparr>)" "sends c' a (s + 1)"
    using WriteCell_sends [OF e(1) assms(2,3), of raw] e(4,5) unfolding frame_len_def by auto
  have "receives c' b t"
    using w(1) e(2) by (auto simp: WriteCell_def receives_def Let_def split: option.splits sum.splits prod.splits if_splits)
  then have "idle_end a (s + 1) b t m (c', raw\<lparr>outbox := outbox raw @ frames a s [x], room := room raw - frame_len a\<rparr>\<lparr>outbox := []\<rparr>)"
    using w(2) e(4-6) by (simp add: idle_end_def)
  then show ?thesis using that [OF w(1)] e(3) by (simp add: raw_unload_def)
qed

lemma idle_read:
  assumes "idle_end a s b t m (c, raw)" "aead_ok b" "wf_cell x" "\<not> IsPadding x"
  obtains c' raw' where "ReadCell (replicate CellSize 0) c (raw_feed (frames b t [x]) raw) = Some (Inr (), x, c', raw')" "idle_end a s b (t + 1) m (c', raw')"
proof -
  let ?raw = "raw_feed (frames b t [x]) raw"
  have e: "sends c a s" "receives c b t" "outbox raw = []" "m * frame_len a \<le> room raw" "deadlineOK raw" "inbox raw = []"
    using assms(1) by (simp_all add: idle_end_def)
  have box: "inbox ?raw = frames b t [x] @ []" using e(6) by (simp add: raw_feed_def)
  obtain c' where c': "readFrame (replicate CellSize 0) c ?raw = (Inr (), x, c', ?raw\<lparr>inbox := []\<rparr>)" "receives c' b (t + 1)"
    "cn_send c' = cn_send c" "cn_sendSeq c' = cn_sendSeq c" "cn_werr c' = cn_werr c"
    using readFrame_receives [OF e(2) assms(2,3) length_replicate box] by blast
  have "ReadCell (replicate CellSize 0) c ?raw = Some (Inr (), x, c', ?raw\<lparr>inbox := []\<rparr>)"
    using c'(1) assms(4) by (subst ReadCell.simps) simp
  moreover have "idle_end a s b (t + 1) m (c', ?raw\<lparr>inbox := []\<rparr>)"
    using e c'(2-5) by (simp add: idle_end_def sends_def raw_feed_def)
  ultimately show ?thesis using that by blast
qed

lemma idle_less: "idle_end a s b t (Suc m) e \<Longrightarrow> idle_end a s b t m e"
  by (auto simp: idle_end_def split: prod.splits)

section \<open>Counters\<close>

lemma cell_counter: "n < cellLimit \<Longrightarrow> n < counterLimit"
  by (simp add: cellLimit_val counterLimit_val word_less_nat_alt)

lemma shift_one:
  assumes "n < cellLimit"
  shows "shift n 1 = n + 1"
proof -
  have "unat n < 2 ^ 60" using assms by (simp add: cellLimit_val word_less_nat_alt)
  then have "n + 1 < counterLimit" using unat_Suc_taken [OF assms] by (simp add: counterLimit_val word_less_nat_alt)
  then show ?thesis by (simp add: shift_take_bit less_counterLimit)
qed

lemma due_Next:
  assumes "seq_due sq n v" "n < cellLimit" "v < counterLimit"
  obtains sq' where "Next v sq = (True, sq')" "seq_due sq' (n + 1) (shift v 1)"
  using assms that by (auto simp: seq_due_def Next_True)

lemma valueAt_next: "n < cellLimit \<Longrightarrow> shift (valueAt C k Forward n) 1 = valueAt C k Forward (n + 1)"
  using shift_one [of n] link.add_right_comm [of n _ 1] by (simp add: valueAt_def)

lemma replyAt_Suc: "k < length offs \<Longrightarrow> replyAt offs k n = shift (replyAt offs (Suc k) n) (off_bwd (offs ! k))"
  by (simp add: replyAt_def Cons_nth_drop_Suc [symmetric])

lemma replyAt_next:
  assumes "n < cellLimit"
  shows "shift (replyAt offs k n) 1 = replyAt offs k (n + 1)"
proof -
  have "shift (foldr (\<lambda>o' v. shift v (off_bwd o')) os n) 1 = foldr (\<lambda>o' v. shift v (off_bwd o')) os (n + 1)" for os
    using shift_one [OF assms] by (induction os) (simp_all add: link.add_right_comm)
  then show ?thesis by (simp add: replyAt_def)
qed

lemma replyAt_less: "k < length offs \<Longrightarrow> replyAt offs k n < counterLimit"
  by (simp add: replyAt_Suc link.ok_add)

section \<open>Layers\<close>

text \<open>The layers from hop \<open>k\<close> on, around what the client framed.\<close>

inductive layered :: "Circuit \<Rightarrow> u64 list \<Rightarrow> u64 \<Rightarrow> nat \<Rightarrow> bytes \<Rightarrow> bytes \<Rightarrow> bool" for C links v where
  innermost: "int (length inner) = layerLen (int (length (c_hops C))) (c_overhead C) \<Longrightarrow> layered C links v (length (c_hops C)) inner inner"
| layer: "k < length (c_hops C) \<Longrightarrow> nonceFor (NonceSize (c_hops C ! k)) Forward (links ! k) (valueAt C k Forward v) = Inr n \<Longrightarrow>
    nonce_ok (c_hops C ! k) n \<Longrightarrow> layered C links v (Suc k) y inner \<Longrightarrow>
    layered C links v k (aSeal (c_hops C ! k) n y (data_aad (valueAt C k Forward v) (int k))) inner"

inductive_cases layered_cases: "layered C links v k x inner"

lemma layered_length:
  assumes "layered C links v k x inner" "wf_circuit C offs links"
  shows "int (length x) = layerLen (int k) (c_overhead C)"
  using assms
proof (induction rule: layered.induct)
  case (layer k n y inner)
  have k: "k < length offs" using layer(1) assms(2) by (simp add: wf_circuit_def)
  note nth = wf_circuit_nth [OF assms(2) k]
  have "int (length y) = layerLen (int (Suc k)) (c_overhead C)" using layer(5) assms(2) .
  then show ?case using nth(1,2) by (simp add: aead_seal_length layerLen_def algebra_simps)
qed simp

lemma sealLayers_layered:
  assumes "wf_circuit C offs links" "wf_cell cell" "cell ! 0 = Version" "cell ! 1 = KindData"
    "sealLayers C cell v i x = Inr body" "i \<le> length offs" "layered C links v i x inner"
  shows "layered C links v 0 body inner"
  using assms(5-7)
proof (induction i arbitrary: x)
  case (Suc i)
  then have i: "i < length offs" by simp
  let ?a = "c_hops C ! i" and ?v = "valueAt C i Forward v"
  obtain n where n: "nonceFor (NonceSize ?a) Forward (links ! i) ?v = Inr n" "nonce_ok ?a n"
    "sealLayers C cell v (Suc i) x = sealLayers C cell v i (aSeal ?a n x (data_aad ?v (int i)))"
    using sealLayers_Suc [OF assms(1) i assms(2-4)] by metis
  have "i < length (c_hops C)" using i assms(1) by (simp add: wf_circuit_def)
  then have "layered C links v i (aSeal ?a n x (data_aad ?v (int i))) inner" using n(1,2) Suc.prems(3) by (intro layered.layer)
  then show ?case using Suc.IH Suc.prems(1) n(3) i by simp
qed simp

section \<open>One station\<close>

lemma carries_data: "carries cell l v x \<Longrightarrow> \<not> IsPadding cell"
  using IsPadding_iff [OF carries_header, of cell l v x] by (simp add: KindData_def KindPadding_def)

text \<open>A relay in the middle passes a cell of the circuit on, one layer less.\<close>

lemma layered_peel:
  assumes wf: "wf_circuit C offs links" and k: "k < length offs" and h: "hop_of C offs k h"
    and cell: "carries cell (links ! k) (valueAt C k Forward n) x" "layered C links n k x inner" and w: "BodySize \<le> length (rnd w)"
  obtains out w' y where "Peel h cell w = (Inr out, w')" "carries out (links ! k) (shift (valueAt C k Forward n) (off_fwd (offs ! k))) y"
    "layered C links n (Suc k) y inner" "length (rnd w) - BodySize \<le> length (rnd w')"
proof -
  have len: "length (c_hops C) = length offs" using wf by (simp add: wf_circuit_def)
  obtain nc y where y: "x = aSeal (c_hops C ! k) nc y (data_aad (valueAt C k Forward n) (int k))"
    "nonceFor (NonceSize (c_hops C ! k)) Forward (links ! k) (valueAt C k Forward n) = Inr nc" "nonce_ok (c_hops C ! k) nc" "layered C links n (Suc k) y inner"
    using cell(2) k len by (auto elim: layered_cases)
  note nth = wf_circuit_nth [OF wf k]
  have l: "int (length y) = layerLen (int k) (Overhead (c_hops C ! k)) - Overhead (c_hops C ! k)"
    using layered_length [OF y(4) wf] nth(2) by (simp add: layerLen_def algebra_simps)
  show ?thesis
    using Peel_carries [OF hop_of_overhead [OF wf k h] nth(1) y(2,3) cell(1) [unfolded y(1)] l w] that y(4) by blast
qed

lemma station_forward:
  assumes wf: "wf_circuit C offs links" and K: "keys_ok U" "keys_ok D" and k: "Suc k < length offs" and n: "n < cellLimit"
    and ready: "station_at C offs links f k n n (far_end U q) (near_end D (Suc m)) (BodySize + b) s"
    and cell: "carries cell (links ! k) (valueAt C k Forward n) x" "layered C links n k x inner"
  obtains r w cell' y where
    "handleTurn (st_in s) (st_src s) now (feed (frames (lk_fwd U) (lk_fseq U) [cell]) (st_in s) (st_relay s)) (st_world s) = Some (True, r, w)"
    "fst (unload (st_out s) r) = frames (lk_fwd D) (lk_fseq D) [cell']"
    "carries cell' (links ! Suc k) (valueAt C (Suc k) Forward n) y" "layered C links n (Suc k) y inner"
    "station_at C offs links f k (n + 1) n (far_end (fbump U) q) (near_end (fbump D) m) b (s\<lparr>st_relay := snd (unload (st_out s) r), st_world := w\<rparr>)"
proof -
  let ?r = "st_relay s" and ?w = "st_world s"
  let ?c = "objs ?r (st_obj s)"
  have at: "circuits ?r (links ! k) = Some (st_obj s)" "ci_in ?c = st_in s" "hop_of C offs k (ci_hop ?c)" "ci_inbound ?c = links ! k" "ci_bwd ?c = None"
    "seq_due (ci_fwdSeq ?c) n (valueAt C k Forward n)" "far_end U q (r_links ?r (st_in s))" "BodySize + b \<le> length (rnd ?w)"
    "\<not> ci_isExit ?c" "ci_fwd ?c = None" "ci_next ?c = Some (st_out s)" "ci_nextID ?c = links ! Suc k" "st_out s \<noteq> st_in s"
    "seq_due (ci_bwdSeq ?c) n (replyAt offs (Suc k) n)" "near_end D (Suc m) (r_links ?r (st_out s))"
    using ready k by (simp_all add: station_at_def Let_def)
  obtain cu ru where u: "r_links ?r (st_in s) = (cu, ru)" by force
  obtain cd rd where d: "r_links ?r (st_out s) = (cd, rd)" by force
  obtain cu' ru' where read: "ReadCell (replicate CellSize 0) cu (raw_feed (frames (lk_fwd U) (lk_fseq U) [cell]) ru) = Some (Inr (), cell, cu', ru')"
    "far_end (fbump U) q (cu', ru')"
    using idle_read [of "lk_bwd U" "lk_bseq U" "lk_fwd U" "lk_fseq U" q cu ru cell] at(7) u K(1) carries_wf [OF cell(1)] carries_data [OF cell(1)]
    by (auto simp: keys_ok_def)
  have "k < length offs" "BodySize \<le> length (rnd ?w)" using k at(8) by simp_all
  then obtain out w' y where peel: "Peel (ci_hop ?c) cell ?w = (Inr out, w')"
    "carries out (links ! k) (shift (valueAt C k Forward n) (off_fwd (offs ! k))) y"
    "layered C links n (Suc k) y inner" "length (rnd ?w) - BodySize \<le> length (rnd w')"
    using layered_peel [OF wf _ at(3) cell] by metis
  let ?x = "SetCircuit (links ! Suc k) out"
  have x: "carries ?x (links ! Suc k) (valueAt C (Suc k) Forward n) y"
    using carries_SetCircuit [OF peel(2)] valueAt_Forward_Suc [OF wf k] by simp
  obtain sq where sq: "Next (valueAt C k Forward n) (ci_fwdSeq ?c) = (True, sq)" "seq_due sq (n + 1) (valueAt C k Forward (n + 1))"
    using due_Next [OF at(6) n valueAt_less] valueAt_next [OF n] by metis
  obtain cd' rd' where wr: "WriteCell ?x cd rd = (Inr (), cd', rd')" "raw_unload rd' = (frames (lk_fwd D) (lk_fseq D) [?x], rd'\<lparr>outbox := []\<rparr>)"
    "near_end (fbump D) m (cd', rd'\<lparr>outbox := []\<rparr>)"
    using idle_write [of "lk_fwd D" "lk_fseq D" "lk_bwd D" "lk_bseq D" m cd rd ?x] at(15) d K(2) carries_wf [OF x] by (auto simp: keys_ok_def)
  define r1 where "r1 = setLink (st_in s) (cu', ru') (feed (frames (lk_fwd U) (lk_fseq U) [cell]) (st_in s) ?r)"
  have r1: "circuits r1 = circuits ?r" "objs r1 = objs ?r" "r_links r1 = (r_links ?r)(st_in s := (cu', ru'))"
    using u by (simp_all add: feed_def r1_def)
  then have "r_links r1 (st_out s) = (cd, rd)" using d at(13) by simp
  then have "\<exists>r'. route cell (st_in s) (st_src s) now r1 ?w = (Inr (), r', w')
    \<and> objs r' = (objs r1)(st_obj s := (objs r1 (st_obj s))\<lparr>ci_fwdSeq := sq, ci_active := now - ci_born (objs r1 (st_obj s))\<rparr>)
    \<and> r_links r' = (r_links r1)(st_out s := (cd', rd')) \<and> circuits r' = circuits r1"
    using route_writes [OF carries_header [OF cell(1)], of r1 "st_obj s" "st_in s" ?w out w' sq "st_out s" cd rd cd' rd' "st_src s" now]
      at(1,2,9-12) peel(1) sq(1) wr(1) r1(1,2) by (auto simp: KindData_def KindControl_def)
  then obtain r' where r': "route cell (st_in s) (st_src s) now r1 ?w = (Inr (), r', w')"
    "objs r' = (objs ?r)(st_obj s := ?c\<lparr>ci_fwdSeq := sq, ci_active := now - ci_born ?c\<rparr>)"
    "r_links r' = (r_links ?r)(st_in s := (cu', ru'), st_out s := (cd', rd'))" "circuits r' = circuits ?r"
    unfolding r1 by blast
  have "handleTurn (st_in s) (st_src s) now (feed (frames (lk_fwd U) (lk_fseq U) [cell]) (st_in s) ?r) ?w = Some (True, r', w')"
    using read(1) r'(1) u unfolding r1_def by (simp add: handleTurn_def handleRouted_def feed_def Let_def)
  moreover have "unload (st_out s) r' = (frames (lk_fwd D) (lk_fseq D) [?x], setLink (st_out s) (cd', rd'\<lparr>outbox := []\<rparr>) r')"
    using r'(3) wr(2) by (simp add: unload_def)
  moreover have "station_at C offs links f k (n + 1) n (far_end (fbump U) q) (near_end (fbump D) m) b
      (s\<lparr>st_relay := setLink (st_out s) (cd', rd'\<lparr>outbox := []\<rparr>) r', st_world := w'\<rparr>)"
    using at k r' read(2) wr(3) sq(2) peel(4) by (simp add: station_at_def Let_def)
  ultimately show ?thesis using that x peel(3) by simp
qed

lemma setObj_setObj [simp]: "setObj i c (setObj i d r) = setObj i c r"
  by (simp add: setObj_def)

text \<open>A relay in the middle wraps the reply and passes it back.\<close>

lemma station_backward:
  assumes wf: "wf_circuit C offs links" and K: "keys_ok U" "keys_ok D" and k: "Suc k < length offs" and n: "n < cellLimit"
    and ready: "station_at C offs links f k i n (far_end U (Suc m)) (near_end D m) (BodySize + b) s"
    and cell: "carries cell (links ! Suc k) (replyAt offs (Suc k) n) B" "opens C (Suc k) (replyAt offs (Suc k) n) B inner"
  obtains r w cell' B' where
    "backwardTurn (st_obj s) now (feed (frames (lk_bwd D) (lk_bseq D) [cell]) (st_out s) (st_relay s)) (st_world s) = Some (True, r, w)"
    "fst (unload (st_in s) r) = frames (lk_bwd U) (lk_bseq U) [cell']"
    "carries cell' (links ! k) (replyAt offs k n) B'" "opens C k (replyAt offs k n) B' inner"
    "station_at C offs links f k i (n + 1) (far_end (bbump U) m) (near_end (bbump D) m) b (s\<lparr>st_relay := snd (unload (st_in s) r), st_world := w\<rparr>)"
proof -
  let ?r = "st_relay s" and ?w = "st_world s" and ?v = "replyAt offs (Suc k) n"
  let ?c = "objs ?r (st_obj s)"
  have at: "circuits ?r (links ! k) = Some (st_obj s)" "ci_in ?c = st_in s" "hop_of C offs k (ci_hop ?c)" "ci_inbound ?c = links ! k" "ci_bwd ?c = None"
    "seq_due (ci_fwdSeq ?c) i (valueAt C k Forward i)" "far_end U (Suc m) (r_links ?r (st_in s))" "BodySize + b \<le> length (rnd ?w)"
    "\<not> ci_isExit ?c" "ci_fwd ?c = None" "ci_next ?c = Some (st_out s)" "ci_nextID ?c = links ! Suc k" "st_out s \<noteq> st_in s"
    "seq_due (ci_bwdSeq ?c) n ?v" "near_end D m (r_links ?r (st_out s))"
    using ready k by (simp_all add: station_at_def Let_def)
  obtain cu ru where u: "r_links ?r (st_in s) = (cu, ru)" by force
  obtain cd rd where d: "r_links ?r (st_out s) = (cd, rd)" by force
  obtain cd' rd' where read: "ReadCell (replicate CellSize 0) cd (raw_feed (frames (lk_bwd D) (lk_bseq D) [cell]) rd) = Some (Inr (), cell, cd', rd')"
    "near_end (bbump D) m (cd', rd')"
    using idle_read [of "lk_fwd D" "lk_fseq D" "lk_bwd D" "lk_bseq D" m cd rd cell] at(15) d K(2) carries_wf [OF cell(1)] carries_data [OF cell(1)]
    by (auto simp: keys_ok_def)
  have room: "BodySize \<le> length (rnd ?w)" and ra: "replyAt offs k n = shift ?v (off_bwd (offs ! k))" using at(8) replyAt_Suc [of k offs n] k by simp_all
  obtain out w' B' where wrap: "Wrap (ci_hop ?c) cell (links ! k) ?w = (Inr out, w')" "carries out (links ! k) (replyAt offs k n) B'"
    "opens C k (replyAt offs k n) B' inner" "length (rnd ?w) - BodySize \<le> length (rnd w')"
    using Wrap_opens [OF wf k at(3) cell room] unfolding ra by blast
  have "?v < counterLimit" using replyAt_less k by simp
  then obtain sq where sq: "Next ?v (ci_bwdSeq ?c) = (True, sq)" "seq_due sq (n + 1) (replyAt offs (Suc k) (n + 1))"
    using due_Next [OF at(14) n] replyAt_next [OF n] by metis
  obtain cu' ru' where wr: "WriteCell out cu ru = (Inr (), cu', ru')" "raw_unload ru' = (frames (lk_bwd U) (lk_bseq U) [out], ru'\<lparr>outbox := []\<rparr>)"
    "far_end (bbump U) m (cu', ru'\<lparr>outbox := []\<rparr>)"
    using idle_write [of "lk_bwd U" "lk_bseq U" "lk_fwd U" "lk_fseq U" m cu ru out] at(7) u K(1) carries_wf [OF wrap(2)] by (auto simp: keys_ok_def)
  define r1 where "r1 = setLink (st_out s) (cd', rd') (feed (frames (lk_bwd D) (lk_bseq D) [cell]) (st_out s) ?r)"
  let ?c' = "?c\<lparr>ci_bwdSeq := sq, ci_active := now - ci_born ?c\<rparr>"
  define r2 where "r2 = count (\<lambda>s. s\<lparr>Forwarded := Forwarded s + 1\<rparr>) (setLink (st_in s) (cu', ru') (setObj (st_obj s) ?c' r1))"
  have r1: "circuits r1 = circuits ?r" "objs r1 = objs ?r" "r_links r1 = (r_links ?r)(st_out s := (cd', rd'))" "r_links r1 (st_in s) = (cu, ru)"
    using d u at(13) by (simp_all add: feed_def r1_def)
  have "backwardCell (st_obj s) cell now r1 ?w = (True, r2, w')"
    using sq(1) wrap(1) wr(1) at(2,4,5) r1(2,4)
    by (simp add: backwardCell_def carries_header [OF cell(1)] Let_def link_write_def touch_def r2_def)
  then have "backwardTurn (st_obj s) now (feed (frames (lk_bwd D) (lk_bseq D) [cell]) (st_out s) ?r) ?w = Some (True, r2, w')"
    using read(1) d at(11) unfolding r1_def by (simp add: backwardTurn_def feed_def Let_def)
  moreover have "unload (st_in s) r2 = (frames (lk_bwd U) (lk_bseq U) [out], setLink (st_in s) (cu', ru'\<lparr>outbox := []\<rparr>) r2)"
    using wr(2) by (simp add: unload_def r2_def)
  moreover have "station_at C offs links f k i (n + 1) (far_end (bbump U) m) (near_end (bbump D) m) b
      (s\<lparr>st_relay := setLink (st_in s) (cu', ru'\<lparr>outbox := []\<rparr>) r2, st_world := w'\<rparr>)"
    using at k r1 read(2) wr(3) sq(2) wrap(4) by (simp add: station_at_def Let_def r2_def)
  ultimately show ?thesis using that wrap(2,3) by simp
qed

text \<open>What the exit answers: the bytes, and whether they are cover.\<close>

definition answer_bytes :: "bytes option \<Rightarrow> bytes" where
  "answer_bytes ans = (case ans of None \<Rightarrow> [] | Some b \<Rightarrow> b)"

lemma sealedReply_ok:
  assumes "Hop_sealReply (ci_hop c) (ci_inbound c) n (answer_bytes ans) (ans = None) w = (Inr cell, w')"
  shows "sealedReply c n ans r w = (Inr cell, r, w')"
  using assms by (cases ans) (simp_all add: sealedReply_def answer_bytes_def SealReply_def SealCoverReply_def)

lemma layered_inner: "layered C links n (length (c_hops C)) y inner \<Longrightarrow> y = inner"
  by (auto elim: layered_cases)

text \<open>The exit delivers the payload and answers.\<close>

lemma station_exit:
  assumes wf: "wf_circuit C offs links" and K: "keys_ok U" and k: "Suc k = length offs" and n: "n < cellLimit"
    and ready: "station_at C offs links f k n n (far_end U (Suc m)) down (3 * BodySize + b) s"
    and cell: "carries cell (links ! k) (valueAt C k Forward n) x" "layered C links n k x inner" "frame j payload False w0 = (Inr inner, w1)"
    and fits: "int (length (answer_bytes (f (links ! k) payload))) \<le> MaxPayload C"
  obtains r w cell' B inner' where
    "handleTurn (st_in s) (st_src s) now (feed (frames (lk_fwd U) (lk_fseq U) [cell]) (st_in s) (st_relay s)) (st_world s) = Some (True, r, w)"
    "fst (unload (st_in s) r) = frames (lk_bwd U) (lk_bseq U) [cell']"
    "carries cell' (links ! k) (replyAt offs k n) B" "opens C k (replyAt offs k n) B inner'"
    "unframe inner' = Inr (answer_bytes (f (links ! k) payload), f (links ! k) payload = None)"
    "station_at C offs links f k (n + 1) (n + 1) (far_end (bbump (fbump U)) m) down b (s\<lparr>st_relay := snd (unload (st_in s) r), st_world := w\<rparr>)"
proof -
  let ?r = "st_relay s" and ?w = "st_world s" and ?ans = "f (links ! k) payload"
  let ?c = "objs ?r (st_obj s)"
  have at: "circuits ?r (links ! k) = Some (st_obj s)" "ci_in ?c = st_in s" "hop_of C offs k (ci_hop ?c)" "ci_inbound ?c = links ! k" "ci_bwd ?c = None"
    "seq_due (ci_fwdSeq ?c) n (valueAt C k Forward n)" "far_end U (Suc m) (r_links ?r (st_in s))" "3 * BodySize + b \<le> length (rnd ?w)"
    "ci_isExit ?c" "ci_replies ?c = n" "cf_Deliver (r_cfg ?r) = Some f"
    using ready k by (simp_all add: station_at_def Let_def)
  obtain cu ru where u: "r_links ?r (st_in s) = (cu, ru)" by force
  obtain cu' ru' where read: "ReadCell (replicate CellSize 0) cu (raw_feed (frames (lk_fwd U) (lk_fseq U) [cell]) ru) = Some (Inr (), cell, cu', ru')"
    "far_end (fbump U) (Suc m) (cu', ru')"
    using idle_read [of "lk_bwd U" "lk_bseq U" "lk_fwd U" "lk_fseq U" "Suc m" cu ru cell] at(7) u K carries_wf [OF cell(1)] carries_data [OF cell(1)]
    by (auto simp: keys_ok_def)
  have len: "length (c_hops C) = Suc k" using wf k by (simp add: wf_circuit_def)
  have kk: "k < length offs" "BodySize \<le> length (rnd ?w)" using k at(8) by simp_all
  obtain out w' y where peel: "Peel (ci_hop ?c) cell ?w = (Inr out, w')" "carries out (links ! k) (shift (valueAt C k Forward n) (off_fwd (offs ! k))) y"
    "layered C links n (Suc k) y inner" "length (rnd ?w) - BodySize \<le> length (rnd w')"
    using layered_peel [OF wf kk(1) at(3) cell(1,2) kk(2)] by metis
  have "y = inner" using layered_inner peel(3) len by metis
  then have "Cell_Body out = inner @ drop (length inner) (Cell_Body out)"
    using peel(2) unfolding carries_def by (metis append_take_drop_id)
  then have "unframe (Cell_Body out) = Inr (payload, False)"
    using unframe_frame [OF cell(3)] by (metis (full_types))
  then have opened: "OpenLast (ci_hop ?c) cell ?w = (Inr (payload, False), w')" using peel(1) by (simp add: OpenLast_def)
  have budget: "2 * BodySize + b \<le> length (rnd w')" and ra: "replyAt offs k n = shift n (off_bwd (offs ! k))"
    using at(8) peel(4) replyAt_Suc [of k offs n] k by (simp_all add: replyAt_def)
  have cover: "?ans = None \<Longrightarrow> answer_bytes ?ans = []" by (simp add: answer_bytes_def)
  obtain cell' w'' B inner' where ans: "Hop_sealReply (ci_hop ?c) (links ! k) n (answer_bytes ?ans) (?ans = None) w' = (Inr cell', w'')"
    "carries cell' (links ! k) (replyAt offs k n) B" "opens C k (replyAt offs k n) B inner'"
    "unframe inner' = Inr (answer_bytes ?ans, ?ans = None)" "b \<le> length (rnd w'')"
    using sealReply_opens [OF wf k [symmetric] hop_of_overhead [OF wf kk(1) at(3)] fits cover n budget] unfolding ra by blast
  obtain sq where sq: "Next (valueAt C k Forward n) (ci_fwdSeq ?c) = (True, sq)" "seq_due sq (n + 1) (valueAt C k Forward (n + 1))"
    using due_Next [OF at(6) n valueAt_less] valueAt_next [OF n] by metis
  obtain cv rv where wr: "WriteCell cell' cu' ru' = (Inr (), cv, rv)" "raw_unload rv = (frames (lk_bwd U) (lk_bseq U) [cell'], rv\<lparr>outbox := []\<rparr>)"
    "far_end (bbump (fbump U)) m (cv, rv\<lparr>outbox := []\<rparr>)"
    using idle_write [of "lk_bwd U" "lk_bseq U" "lk_fwd U" "lk_fseq U + 1" m cu' ru' cell'] read(2) K carries_wf [OF ans(2)] by (auto simp: keys_ok_def)
  define r1 where "r1 = setLink (st_in s) (cu', ru') (feed (frames (lk_fwd U) (lk_fseq U) [cell]) (st_in s) ?r)"
  let ?c' = "?c\<lparr>ci_fwdSeq := sq, ci_active := now - ci_born ?c, ci_replies := n + 1\<rparr>"
  define r2 where "r2 = count (\<lambda>s. s\<lparr>Delivered := Delivered s + 1\<rparr>) (setObj (st_obj s) (?c\<lparr>ci_fwdSeq := sq, ci_active := now - ci_born ?c\<rparr>)
      (count (\<lambda>s. s\<lparr>Accepted := Accepted s + 1\<rparr>) r1))"
  have r1: "circuits r1 = circuits ?r" "objs r1 = objs ?r" "r_links r1 = (r_links ?r)(st_in s := (cu', ru'))" "r_cfg r1 = r_cfg ?r"
    using u by (simp_all add: feed_def r1_def)
  have r2: "circuits r2 = circuits ?r" "r_links r2 = r_links r1" "r_cfg r2 = r_cfg ?r" "objs r2 (st_obj s) = ?c\<lparr>ci_fwdSeq := sq, ci_active := now - ci_born ?c\<rparr>"
    using r1 by (simp_all add: r2_def)
  have routed: "route cell (st_in s) (st_src s) now r1 ?w = reply (st_obj s) ?ans r2 w'"
    using at(1,2,4,9,11) opened sq(1) r1(1,2,4)
    by (simp add: route_def routeExit_def carries_header [OF cell(1)] KindData_def KindControl_def Let_def touch_def r2_def)
  let ?r3 = "setLink (st_in s) (cv, rv) (setObj (st_obj s) ?c' r2)"
  have "reply (st_obj s) ?ans r2 w' = (Inr (), ?r3, w'')"
    using sealedReply_ok [of ?c' n ?ans w' cell' w''] ans(1) at(2,4,5,10) r1(3) r2(2,4) wr(1)
    by (simp add: reply_def Let_def link_write_def)
  then have "handleTurn (st_in s) (st_src s) now (feed (frames (lk_fwd U) (lk_fseq U) [cell]) (st_in s) ?r) ?w = Some (True, ?r3, w'')"
    using read(1) routed u unfolding r1_def by (simp add: handleTurn_def handleRouted_def feed_def Let_def)
  moreover have "unload (st_in s) ?r3 = (frames (lk_bwd U) (lk_bseq U) [cell'], setLink (st_in s) (cv, rv\<lparr>outbox := []\<rparr>) ?r3)"
    using wr(2) by (simp add: unload_def)
  moreover have "station_at C offs links f k (n + 1) (n + 1) (far_end (bbump (fbump U)) m) down b
      (s\<lparr>st_relay := setLink (st_in s) (cv, rv\<lparr>outbox := []\<rparr>) ?r3, st_world := w''\<rparr>)"
    using at k r1 r2 wr(3) sq(2) ans(5) by (simp add: station_at_def Let_def)
  ultimately show ?thesis using that ans(2-4) by simp
qed

section \<open>The whole chain\<close>

lemma station_at_less: "station_at C offs links f k i j up down b s \<Longrightarrow> b' \<le> b \<Longrightarrow> station_at C offs links f k i j up down b' s"
  by (auto simp: station_at_def Let_def)

lemma station_at_exit:
  "Suc k = length offs \<Longrightarrow> station_at C offs links f k i j up down b s \<longleftrightarrow> station_at C offs links f k i j up down' b s"
  by (simp add: station_at_def Let_def)

abbreviation both :: "linkKeys \<Rightarrow> linkKeys" where
  "both k \<equiv> bbump (fbump k)"

text \<open>A relay in the middle does its part when the stations behind it do theirs.\<close>

lemma pass_middle:
  assumes wf: "wf_circuit C offs links" and n: "n < cellLimit" and K: "list_all keys_ok K" "length K = length offs" and k: "Suc k < length offs"
    and ready: "station_ready C offs links f K n (Suc m) k s"
    and cell: "carries cell (links ! k) (valueAt C k Forward n) x" "layered C links n k x inner" and ss: "ss \<noteq> []"
    and rest: "\<And>cell x. carries cell (links ! Suc k) (valueAt C (Suc k) Forward n) x \<Longrightarrow> layered C links n (Suc k) x inner \<Longrightarrow>
      \<exists>ss' cell' B inner'. pass now (frames (lk_fwd (K ! Suc k)) (lk_fseq (K ! Suc k)) [cell]) ss = Some (frames (lk_bwd (K ! Suc k)) (lk_bseq (K ! Suc k)) [cell'], ss')
        \<and> carries cell' (links ! Suc k) (replyAt offs (Suc k) n) B \<and> opens C (Suc k) (replyAt offs (Suc k) n) B inner' \<and> P inner' ss'"
  shows "\<exists>s' ss' cell' B inner'. pass now (frames (lk_fwd (K ! k)) (lk_fseq (K ! k)) [cell]) (s # ss) = Some (frames (lk_bwd (K ! k)) (lk_bseq (K ! k)) [cell'], s' # ss')
    \<and> carries cell' (links ! k) (replyAt offs k n) B \<and> opens C k (replyAt offs k n) B inner' \<and> P inner' ss'
    \<and> station_ready C offs links f (map both K) (n + 1) m k s'"
proof -
  let ?U = "K ! k" and ?D = "K ! Suc k"
  have keys: "keys_ok ?U" "keys_ok ?D" "keys_ok (fbump ?U)" "keys_ok (fbump ?D)"
    using K k by (simp_all add: list_all_length keys_ok_def)
  have at: "station_at C offs links f k n n (far_end ?U (Suc m)) (near_end ?D (Suc m)) (BodySize + (BodySize + (BodySize + m * (3 * BodySize)))) s"
    using ready by (simp add: algebra_simps)
  obtain r w c1 y where go: "handleTurn (st_in s) (st_src s) now (feed (frames (lk_fwd ?U) (lk_fseq ?U) [cell]) (st_in s) (st_relay s)) (st_world s) = Some (True, r, w)"
    "fst (unload (st_out s) r) = frames (lk_fwd ?D) (lk_fseq ?D) [c1]"
    "carries c1 (links ! Suc k) (valueAt C (Suc k) Forward n) y" "layered C links n (Suc k) y inner"
    "station_at C offs links f k (n + 1) n (far_end (fbump ?U) (Suc m)) (near_end (fbump ?D) m) (BodySize + (BodySize + m * (3 * BodySize)))
      (s\<lparr>st_relay := snd (unload (st_out s) r), st_world := w\<rparr>)" (is "station_at _ _ _ _ _ _ _ _ _ _ ?s")
    by (rule station_forward [OF wf keys(1,2) k n at cell])
  obtain ss' c2 B inner' where there: "pass now (frames (lk_fwd ?D) (lk_fseq ?D) [c1]) ss = Some (frames (lk_bwd ?D) (lk_bseq ?D) [c2], ss')"
    "carries c2 (links ! Suc k) (replyAt offs (Suc k) n) B" "opens C (Suc k) (replyAt offs (Suc k) n) B inner'" "P inner' ss'"
    using rest [OF go(3,4)] by blast
  obtain r' w' c3 B' where home: "backwardTurn (st_obj ?s) now (feed (frames (lk_bwd ?D) (lk_bseq ?D) [c2]) (st_out ?s) (st_relay ?s)) (st_world ?s) = Some (True, r', w')"
    "fst (unload (st_in ?s) r') = frames (lk_bwd ?U) (lk_bseq ?U) [c3]"
    "carries c3 (links ! k) (replyAt offs k n) B'" "opens C k (replyAt offs k n) B' inner'"
    "station_at C offs links f k (n + 1) (n + 1) (far_end (both ?U) m) (near_end (both ?D) m) (BodySize + m * (3 * BodySize))
      (?s\<lparr>st_relay := snd (unload (st_in ?s) r'), st_world := w'\<rparr>)"
    using station_backward [OF wf keys(3,4) k n go(5) there(2,3), of now] by (metis bump_keys(2,3))
  have "pass now (frames (lk_fwd ?U) (lk_fseq ?U) [cell]) (s # ss)
      = Some (frames (lk_bwd ?U) (lk_bseq ?U) [c3], s\<lparr>st_relay := snd (unload (st_in s) r'), st_world := w'\<rparr> # ss')"
    using go(1,2) there(1) home(1,2) ss by (simp add: case_prod_beta)
  moreover have "station_ready C offs links f (map both K) (n + 1) m k (s\<lparr>st_relay := snd (unload (st_in s) r'), st_world := w'\<rparr>)"
    using station_at_less [OF home(5), of "m * (3 * BodySize)"] K(2) k by simp
  ultimately show ?thesis using home(3,4) there(4) by blast
qed

text \<open>The exit alone.\<close>

lemma pass_exit:
  assumes wf: "wf_circuit C offs links" and n: "n < cellLimit" and K: "list_all keys_ok K" "length K = length offs" and k: "Suc k = length offs"
    and ready: "station_ready C offs links f K n (Suc m) k s"
    and cell: "carries cell (links ! k) (valueAt C k Forward n) x" "layered C links n k x inner" "frame j payload False w0 = (Inr inner, w1)"
    and fits: "int (length (answer_bytes (f (links ! k) payload))) \<le> MaxPayload C"
  shows "\<exists>s' cell' B inner'. pass now (frames (lk_fwd (K ! k)) (lk_fseq (K ! k)) [cell]) [s] = Some (frames (lk_bwd (K ! k)) (lk_bseq (K ! k)) [cell'], [s'])
    \<and> carries cell' (links ! k) (replyAt offs k n) B \<and> opens C k (replyAt offs k n) B inner'
    \<and> unframe inner' = Inr (answer_bytes (f (links ! k) payload), f (links ! k) payload = None)
    \<and> station_ready C offs links f (map both K) (n + 1) m k s'"
proof -
  let ?U = "K ! k"
  have keys: "keys_ok ?U" "k < length K" using K k by (auto simp: list_all_length)
  have at: "station_at C offs links f k n n (far_end ?U (Suc m)) (near_end (map both K ! Suc k) m) (3 * BodySize + m * (3 * BodySize)) s"
    using ready station_at_exit [OF k] by (metis mult_Suc)
  obtain r w c1 B inner' where go: "handleTurn (st_in s) (st_src s) now (feed (frames (lk_fwd ?U) (lk_fseq ?U) [cell]) (st_in s) (st_relay s)) (st_world s) = Some (True, r, w)"
    "fst (unload (st_in s) r) = frames (lk_bwd ?U) (lk_bseq ?U) [c1]"
    "carries c1 (links ! k) (replyAt offs k n) B" "opens C k (replyAt offs k n) B inner'"
    "unframe inner' = Inr (answer_bytes (f (links ! k) payload), f (links ! k) payload = None)"
    "station_at C offs links f k (n + 1) (n + 1) (far_end (both ?U) m) (near_end (map both K ! Suc k) m) (m * (3 * BodySize)) (s\<lparr>st_relay := snd (unload (st_in s) r), st_world := w\<rparr>)"
    by (rule station_exit [OF wf keys(1) k n at cell fits])
  have "pass now (frames (lk_fwd ?U) (lk_fseq ?U) [cell]) [s] = Some (frames (lk_bwd ?U) (lk_bseq ?U) [c1], [s\<lparr>st_relay := snd (unload (st_in s) r), st_world := w\<rparr>])"
    using go(1,2) by (simp add: case_prod_beta)
  then show ?thesis using go(3-6) keys(2) by auto
qed

lemma pass_ok:
  assumes wf: "wf_circuit C offs links" and n: "n < cellLimit" and K: "list_all keys_ok K" "length K = length offs"
    and framed: "frame j payload False w0 = (Inr inner, w1)"
    and fits: "int (length (answer_bytes (f (last links) payload))) \<le> MaxPayload C"
    and ss: "k + length ss = length offs" "ss \<noteq> []" "\<And>i. i < length ss \<Longrightarrow> station_ready C offs links f K n (Suc m) (k + i) (ss ! i)"
    and cell: "carries cell (links ! k) (valueAt C k Forward n) x" "layered C links n k x inner"
  shows "\<exists>ss' cell' B inner'. pass now (frames (lk_fwd (K ! k)) (lk_fseq (K ! k)) [cell]) ss = Some (frames (lk_bwd (K ! k)) (lk_bseq (K ! k)) [cell'], ss')
    \<and> carries cell' (links ! k) (replyAt offs k n) B \<and> opens C k (replyAt offs k n) B inner'
    \<and> unframe inner' = Inr (answer_bytes (f (last links) payload), f (last links) payload = None)
    \<and> length ss' = length ss \<and> (\<forall>i < length ss. station_ready C offs links f (map both K) (n + 1) m (k + i) (ss' ! i))"
  using ss cell
proof (induction ss arbitrary: k cell x)
  case (Cons s ss)
  have s: "station_ready C offs links f K n (Suc m) k s" using Cons.prems(3) [of 0] by simp
  show ?case
  proof (cases "ss = []")
    case True
    then have k: "Suc k = length offs" using Cons.prems(1) by simp
    have "length links = length offs" "links \<noteq> []" using wf by (auto simp: wf_circuit_def)
    then have e: "last links = links ! k" using k by (metis diff_Suc_1 last_conv_nth)
    show ?thesis using pass_exit [OF wf n K k s Cons.prems(4,5) framed] fits unfolding e True by fastforce
  next
    case False
    then have k: "Suc k < length offs" using Cons.prems(1) by (cases ss) auto
    define P where "P inner' ss' \<longleftrightarrow> unframe inner' = Inr (answer_bytes (f (last links) payload), f (last links) payload = None)
      \<and> length ss' = length ss \<and> (\<forall>i < length ss. station_ready C offs links f (map both K) (n + 1) m (Suc k + i) (ss' ! i))" for inner' ss'
    have "station_ready C offs links f K n (Suc m) (Suc k + i) (ss ! i)" if "i < length ss" for i
      using Cons.prems(3) [of "Suc i"] that by simp
    then have rest: "\<exists>ss' cell' B inner'. pass now (frames (lk_fwd (K ! Suc k)) (lk_fseq (K ! Suc k)) [c]) ss
        = Some (frames (lk_bwd (K ! Suc k)) (lk_bseq (K ! Suc k)) [cell'], ss') \<and> carries cell' (links ! Suc k) (replyAt offs (Suc k) n) B
        \<and> opens C (Suc k) (replyAt offs (Suc k) n) B inner' \<and> P inner' ss'"
      if "carries c (links ! Suc k) (valueAt C (Suc k) Forward n) y" "layered C links n (Suc k) y inner" for c y
      using Cons.IH [of "Suc k" c y] that Cons.prems(1) False unfolding P_def by simp
    have "\<exists>s' ss' c B inner'. pass now (frames (lk_fwd (K ! k)) (lk_fseq (K ! k)) [cell]) (s # ss) = Some (frames (lk_bwd (K ! k)) (lk_bseq (K ! k)) [c], s' # ss')
      \<and> carries c (links ! k) (replyAt offs k n) B \<and> opens C k (replyAt offs k n) B inner' \<and> P inner' ss' \<and> station_ready C offs links f (map both K) (n + 1) m k s'"
      by (rule pass_middle [OF wf n K k s Cons.prems(4,5) False]) (erule (1) rest)
    then obtain s' ss' c B inner' where p: "pass now (frames (lk_fwd (K ! k)) (lk_fseq (K ! k)) [cell]) (s # ss) = Some (frames (lk_bwd (K ! k)) (lk_bseq (K ! k)) [c], s' # ss')"
      "carries c (links ! k) (replyAt offs k n) B" "opens C k (replyAt offs k n) B inner'" "P inner' ss'" "station_ready C offs links f (map both K) (n + 1) m k s'"
      by blast
    have "station_ready C offs links f (map both K) (n + 1) m (k + i) ((s' # ss') ! i)" if "i < length (s # ss)" for i
      using p(4,5) that by (cases i) (simp_all add: P_def)
    moreover have "length (s' # ss') = length (s # ss)"
      "unframe inner' = Inr (answer_bytes (f (last links) payload), f (last links) payload = None)"
      using p(4) by (simp_all add: P_def)
    ultimately show ?thesis using p(1-3) by blast
  qed
qed simp

section \<open>The client\<close>

lemma replyAt_total: "wf_circuit C offs links \<Longrightarrow> replyAt offs 0 n = shift n (off_bwd (c_total C))" if "n < counterLimit"
proof -
  have "foldr (\<lambda>o' v. shift v (off_bwd o')) os n = shift n (off_bwd (foldl addOffsets zeroOffsets os))" for os
    using that
    by (induction os arbitrary: n rule: rev_induct)
      (simp_all add: zeroOffsets_def link.add_zero addOffsets_def link.add_add link.ok_add link.add_comm)
  then show "wf_circuit C offs links \<Longrightarrow> replyAt offs 0 n = shift n (off_bwd (c_total C))"
    by (simp add: replyAt_def wf_circuit_def offsets_before_def)
qed

text \<open>The client seals a message under its next number and writes it to the first relay.\<close>

lemma client_sends:
  assumes wf: "wf_circuit C offs links" and K: "keys_ok (K ! 0)" and n: "n < cellLimit" and fits: "int (length payload) \<le> MaxPayload C"
    and ready: "client_ready C links K n (Suc m) c w"
  obtains cell j inner w0 w1 x cn raw w' where
    "client_send False payload c w = (Inr (), c\<lparr>cl_sent := n + 1, cl_conn := cn, cl_raw := raw\<rparr>, w')"
    "raw_unload raw = (frames (lk_fwd (K ! 0)) (lk_fseq (K ! 0)) [cell], raw\<lparr>outbox := []\<rparr>)"
    "near_end (fbump (K ! 0)) m (cn, raw\<lparr>outbox := []\<rparr>)" "m * (BodySize + 8) \<le> length (rnd w')"
    "carries cell (links ! 0) (valueAt C 0 Forward n) x" "layered C links n 0 x inner" "frame j payload False w0 = (Inr inner, w1)"
proof -
  have at: "cl_circuit c = C" "cl_sent c = n" "\<not> cl_closed c" "near_end (K ! 0) (Suc m) (cl_conn c, cl_raw c)" "BodySize + 8 + m * (BodySize + 8) \<le> length (rnd w)"
    using ready by (simp_all add: client_ready_def)
  obtain w1 where w1: "client_delay c w = (Inr (), w1)" "BodySize + m * (BodySize + 8) \<le> length (rnd w1)" using client_delay_ok [OF at(5)] by blast
  obtain cell w2 where seal: "Circuit_seal C n payload False w1 = (Inr cell, w2)" using Circuit_seal_ok [OF wf fits n] w1(2) by (meson add_leD1)
  obtain inner j w0 c0 body where s: "frame j payload False w1 = (Inr inner, w0)" "int (length inner) = layerLen (int (length offs)) (c_overhead C)"
    "wf_cell c0" "c0 ! 0 = Version" "c0 ! 1 = KindData" "sealLayers C c0 n (length offs) inner = Inr body" "carries cell (links ! 0) n body"
    by (rule Circuit_seal_Inr [OF wf seal])
  have len: "length offs = length (c_hops C)" using wf by (simp add: wf_circuit_def)
  have "layered C links n (length offs) inner inner" using s(2) unfolding len by (rule layered.innermost)
  then have lay: "layered C links n 0 body inner" by (rule sealLayers_layered [OF wf s(3-6) order_refl])
  obtain cn raw where wr: "WriteCell cell (cl_conn c) (cl_raw c) = (Inr (), cn, raw)"
    "raw_unload raw = (frames (lk_fwd (K ! 0)) (lk_fseq (K ! 0)) [cell], raw\<lparr>outbox := []\<rparr>)" "near_end (fbump (K ! 0)) m (cn, raw\<lparr>outbox := []\<rparr>)"
    using idle_write [OF at(4) _ carries_wf [OF s(7)]] K by (auto simp: keys_ok_def)
  have "client_send False payload c w = (Inr (), c\<lparr>cl_sent := n + 1, cl_conn := cn, cl_raw := raw\<rparr>, w2)"
    using at(1-3) w1(1) seal wr(1) by (simp add: client_send_def sendEnter_def sendCell_def Let_def Seal_def)
  moreover have "m * (BodySize + 8) \<le> length (rnd w2)" using Circuit_seal_rnd [OF seal wf] w1(2) by simp
  moreover have "valueAt C 0 Forward n = n" using valueAt_Forward_0 [OF wf] n cell_counter by blast
  ultimately show ?thesis using that [OF _ wr(2,3) _ _ lay s(1)] s(7) by simp
qed

text \<open>The reply channel after an answer; cover is not passed on.\<close>

definition replied :: "bytes option \<Rightarrow> bytes chan \<Rightarrow> bytes chan" where
  "replied ans q = (case ans of None \<Rightarrow> q | Some b \<Rightarrow> snd (try_send b q))"

lemma client_takes:
  assumes wf: "wf_circuit C offs links" and K: "keys_ok k" and n: "n < cellLimit"
    and c: "cl_circuit c = C" "cl_inbound c = links ! 0" "cl_sent c = n + 1" "cl_want c = n" "cl_receiving c" "near_end k m (cl_conn c, cl_raw c)"
    and cell: "carries cell (links ! 0) (replyAt offs 0 n) B" "opens C 0 (replyAt offs 0 n) B inner" "unframe inner = Inr (answer_bytes ans, ans = None)"
  obtains cn raw where "receiveTurn (c\<lparr>cl_raw := raw_feed (frames (lk_bwd k) (lk_bseq k) [cell]) (cl_raw c)\<rparr>)
      = Some (c\<lparr>cl_conn := cn, cl_raw := raw, cl_want := n + 1, cl_replies := replied ans (cl_replies c)\<rparr>)"
    "near_end (bbump k) m (cn, raw)"
proof -
  obtain cn raw where read: "ReadCell (replicate CellSize 0) (cl_conn c) (raw_feed (frames (lk_bwd k) (lk_bseq k) [cell]) (cl_raw c)) = Some (Inr (), cell, cn, raw)"
    "near_end (bbump k) m (cn, raw)"
    using idle_read [OF c(6) _ carries_wf [OF cell(1)] carries_data [OF cell(1)]] K by (auto simp: keys_ok_def)
  let ?c = "c\<lparr>cl_conn := cn, cl_raw := raw\<rparr>"
  have "ReplyNumber C (replyAt offs 0 n) = n"
    using replyAt_total [OF cell_counter [OF n] wf] link.sub_add cell_counter [OF n] by (simp add: ReplyNumber_def)
  moreover have "n < n + 1" using unat_Suc_taken [OF n] by (simp add: word_less_nat_alt)
  ultimately have "client_open ?c cell n = Inr (answer_bytes ans, ans = None)"
    using carries_header [OF cell(1)] OpenExit_opens [OF wf cell(1,2)] cell(3) c(1-3) by (simp add: client_open_def not_le)
  then have "receiveCell cell ?c = ?c\<lparr>cl_want := n + 1, cl_replies := replied ans (cl_replies c)\<rparr>"
    using c(4) by (cases ans) (simp_all add: receiveCell_def replied_def answer_bytes_def)
  then show ?thesis using that [OF _ read(2)] read(1) c(5) by (simp add: receiveTurn_def Let_def)
qed

section \<open>Round trips\<close>

lemma round_trip_ok:
  assumes net: "network_ready C offs links f K n (Suc m) (c, w, ss)" and n: "n < cellLimit"
    and fits: "int (length payload) \<le> MaxPayload C" "int (length (answer_bytes (f (last links) payload))) \<le> MaxPayload C"
  obtains c' w' ss' where "round_trip now payload (c, w, ss) = Some (c', w', ss')"
    "network_ready C offs links f (map both K) (n + 1) m (c', w', ss')" "cl_replies c' = replied (f (last links) payload) (cl_replies c)"
proof -
  have N: "wf_circuit C offs links" "length ss = length offs" "length K = length offs" "list_all keys_ok K" "client_ready C links K n (Suc m) c w"
    "\<And>i. i < length ss \<Longrightarrow> station_ready C offs links f K n (Suc m) i (ss ! i)"
    using net by (auto simp: network_ready_def list_all_iff)
  have K: "K \<noteq> []" "ss \<noteq> []" "keys_ok (K ! 0)" "keys_ok (fbump (K ! 0))" using N(1-4) by (auto simp: wf_circuit_def list_all_length keys_ok_def)
  obtain cell j inner w0 w1 x cn raw w' where s: "client_send False payload c w = (Inr (), c\<lparr>cl_sent := n + 1, cl_conn := cn, cl_raw := raw\<rparr>, w')"
    "raw_unload raw = (frames (lk_fwd (K ! 0)) (lk_fseq (K ! 0)) [cell], raw\<lparr>outbox := []\<rparr>)"
    "near_end (fbump (K ! 0)) m (cn, raw\<lparr>outbox := []\<rparr>)" "m * (BodySize + 8) \<le> length (rnd w')"
    "carries cell (links ! 0) (valueAt C 0 Forward n) x" "layered C links n 0 x inner" "frame j payload False w0 = (Inr inner, w1)"
    by (rule client_sends [OF N(1) K(3) n fits(1) N(5)])
  have "0 + length ss = length offs" "\<And>i. i < length ss \<Longrightarrow> station_ready C offs links f K n (Suc m) (0 + i) (ss ! i)" using N(2,6) by simp_all
  then obtain ss' cell' B inner' where p: "pass now (frames (lk_fwd (K ! 0)) (lk_fseq (K ! 0)) [cell]) ss = Some (frames (lk_bwd (K ! 0)) (lk_bseq (K ! 0)) [cell'], ss')"
    "carries cell' (links ! 0) (replyAt offs 0 n) B" "opens C 0 (replyAt offs 0 n) B inner'"
    "unframe inner' = Inr (answer_bytes (f (last links) payload), f (last links) payload = None)"
    "length ss' = length ss" "\<forall>i < length ss. station_ready C offs links f (map both K) (n + 1) m (0 + i) (ss' ! i)"
    using pass_ok [OF N(1) n N(4,3) s(7), where f = f and k = 0 and ss = ss and m = m and now = now, OF fits(2) _ K(2) _ s(5,6)] by blast
  let ?c = "c\<lparr>cl_sent := n + 1, cl_conn := cn, cl_raw := raw\<lparr>outbox := []\<rparr>\<rparr>"
  have c: "cl_circuit c = C" "cl_inbound c = links ! 0" "cl_want c = n" "cl_receiving c" "\<not> cl_closed c" using N(5) by (simp_all add: client_ready_def)
  define d where "d = ?c"
  have d: "cl_circuit d = C" "cl_inbound d = links ! 0" "cl_sent d = n + 1" "cl_want d = n" "cl_receiving d" "near_end (fbump (K ! 0)) m (cl_conn d, cl_raw d)"
    using c s(3) by (simp_all add: d_def)
  obtain cn' raw' where t: "receiveTurn (d\<lparr>cl_raw := raw_feed (frames (lk_bwd (fbump (K ! 0))) (lk_bseq (fbump (K ! 0))) [cell']) (cl_raw d)\<rparr>)
      = Some (d\<lparr>cl_conn := cn', cl_raw := raw', cl_want := n + 1, cl_replies := replied (f (last links) payload) (cl_replies d)\<rparr>)"
    "near_end (both (K ! 0)) m (cn', raw')"
    by (rule client_takes [OF N(1) K(4) n d p(2,3,4)])
  let ?c' = "?c\<lparr>cl_conn := cn', cl_raw := raw', cl_want := n + 1, cl_replies := replied (f (last links) payload) (cl_replies c)\<rparr>"
  have "round_trip now payload (c, w, ss) = Some (?c', w', ss')" using s(1,2) p(1) t(1) by (simp add: round_trip_def d_def)
  moreover have k0: "map both K ! 0 = both (K ! 0)" using K(1) by simp
  have "network_ready C offs links f (map both K) (n + 1) m (?c', w', ss')"
    using N(1-4) p(5,6) c t(2) s(4) k0 by (auto simp: network_ready_def client_ready_def list_all_iff keys_ok_def)
  ultimately show ?thesis using that by simp
qed

text \<open>An answer is on the channel and off it again.\<close>

lemma replied_recv:
  assumes "ch_buf q = []" "0 < ch_cap q"
  shows "\<exists>q'. try_recv (replied ans q) = (ans, q') \<and> ch_buf q' = [] \<and> ch_cap q' = ch_cap q"
  using assms by (cases ans) (simp_all add: replied_def try_recv_def try_send_def)

lemma network_ready_replies: "network_ready C offs links f K n m (c\<lparr>cl_replies := q\<rparr>, w, ss) \<longleftrightarrow> network_ready C offs links f K n m (c, w, ss)"
  by (simp add: network_ready_def client_ready_def)

lemma numbers_left:
  assumes "unat n + Suc k \<le> 2 ^ 60"
  shows "n < cellLimit" "unat (n + 1) + k \<le> 2 ^ 60"
proof -
  show "n < cellLimit" using assms by (simp add: cellLimit_val word_less_nat_alt)
  then show "unat (n + 1) + k \<le> 2 ^ 60" using unat_Suc_taken assms by simp
qed

text \<open>
  C3: a conversation over a chain of any length runs to its end and every message of it is answered. With the
  client, its relays and the links between them in step, room and random bytes for the conversation and
  numbers left on the circuit, each message the client sends passes every relay of the chain, reaches the
  destination at the exit exactly as it was sent, and the answer of the destination, and no other, comes back
  through the same relays and onto the channel of replies before the next message; where the destination gives
  none, cover comes back and nothing is put on the channel. Everything is in step again at the end.
\<close>

theorem conversation_answered:
  assumes "network_ready C offs links f K n (length ms) (c, w, ss)" "unat n + length ms \<le> 2 ^ 60"
    and "\<forall>m \<in> set ms. int (length m) \<le> MaxPayload C \<and> int (length (answer_bytes (f (last links) m))) \<le> MaxPayload C"
    and "ch_buf (cl_replies c) = []" "0 < ch_cap (cl_replies c)"
  shows "\<exists>c' w' ss' K'. conversation now ms (c, w, ss) = Some (map (f (last links)) ms, c', w', ss')
    \<and> network_ready C offs links f K' (n + of_nat (length ms)) 0 (c', w', ss')"
  using assms
proof (induction ms arbitrary: c w ss n K)
  case (Cons m ms)
  note left = numbers_left [of n "length ms"]
  have n: "n < cellLimit" "unat (n + 1) + length ms \<le> 2 ^ 60" using left Cons.prems(2) by simp_all
  obtain c' w' ss' where r: "round_trip now m (c, w, ss) = Some (c', w', ss')"
    "network_ready C offs links f (map both K) (n + 1) (length ms) (c', w', ss')" "cl_replies c' = replied (f (last links) m) (cl_replies c)"
    using round_trip_ok [of C offs links f K n "length ms" c w ss m now] Cons.prems(1,3) n(1) by auto
  obtain q where q: "try_recv (cl_replies c') = (f (last links) m, q)" "ch_buf q = []" "0 < ch_cap q"
    using replied_recv [OF Cons.prems(4,5)] Cons.prems(5) unfolding r(3) by metis
  have "\<exists>d v zs K'. conversation now ms (c'\<lparr>cl_replies := q\<rparr>, w', ss') = Some (map (f (last links)) ms, d, v, zs)
    \<and> network_ready C offs links f K' (n + 1 + of_nat (length ms)) 0 (d, v, zs)"
    by (rule Cons.IH) (use r(2) q(2,3) n(2) Cons.prems(3) network_ready_replies in auto)
  then show ?case using r(1) q(1) by (auto simp: add.assoc)
qed auto

text \<open>The network of the witness: three relays that have just set up the sample circuit.\<close>

definition sampleDestination :: "u64 \<Rightarrow> bytes \<Rightarrow> bytes option" where
  "sampleDestination cid b = (if b = [4] then None else Some (rev b))"

definition sampleStation :: "nat \<Rightarrow> station" where
  "sampleStation k =
     \<lparr>st_relay = setLink 0 (sampleConn, sampleRaw) (setLink 1 (sampleConn, sampleRaw)
        (registered (sampleLinks ! k) 0
          ((newCircuitObj (sampleHop k) (if k = 2 then 0 else sampleLinks ! Suc k) (k = 2) (sampleLinks ! k) 0 (int k) 0)\<lparr>ci_next := (if k = 2 then None else Some 1)\<rparr>)
          (sampleRelay\<lparr>r_cfg := sampleConfig\<lparr>cf_Deliver := Some sampleDestination\<rparr>\<rparr>))),
      st_world = sampleWorld, st_obj = 0, st_in = 0, st_out = 1, st_src = NoAddr\<rparr>"

definition sampleTalker :: Client where
  "sampleTalker = (newClient sampleClientConfig sampleConn sampleRaw sampleCircuit sampleKeys 11)\<lparr>cl_receiving := True\<rparr>"

definition sampleLinkKeys :: linkKeys where
  "sampleLinkKeys = \<lparr>lk_fwd = sampleAEAD, lk_fseq = 5, lk_bwd = sampleAEAD, lk_bseq = 5\<rparr>"

lemma sample_network:
  "network_ready sampleCircuit sampleOffsets sampleLinks sampleDestination [sampleLinkKeys, sampleLinkKeys, sampleLinkKeys] 0 2
     (sampleTalker, sampleWorld, map sampleStation [0, 1, 2])"
proof -
  let ?K = "[sampleLinkKeys, sampleLinkKeys, sampleLinkKeys]"
  have wf: "wf_circuit sampleCircuit sampleOffsets sampleLinks"
    using NewCircuit_wf(1) [OF sampleCircuit_ok(1) sampleSuite_aeads] .
  have keys: "keys_ok sampleLinkKeys" by (simp add: keys_ok_def sampleLinkKeys_def sampleAEAD_ok)
  have e: "near_end sampleLinkKeys 2 (sampleConn, sampleRaw)" "far_end sampleLinkKeys 2 (sampleConn, sampleRaw)"
    by (simp_all add: idle_end_def sampleLinkKeys_def sends_def receives_def sampleConn_def sampleRaw_def frame_len_def CellSize_def)
      (simp_all add: sampleAEAD_def)
  have hop: "hop_of sampleCircuit sampleOffsets k (sampleHop k)" if "k < 3" for k
    using NewHop_hop_of [OF sampleCircuit_ok(1) sampleSuite_aeads] sampleHop_ok [OF that] that by (simp add: sampleKeys_def)
  have at: "station_ready sampleCircuit sampleOffsets sampleLinks sampleDestination ?K 0 2 k (map sampleStation [0, 1, 2] ! k)" if "k < 3" for k
  proof -
    have k: "k \<in> {0, 1, 2}" using that by auto
    then have "map sampleStation [0, 1, 2] ! k = sampleStation k" by auto
    moreover have "station_ready sampleCircuit sampleOffsets sampleLinks sampleDestination ?K 0 2 k (sampleStation k)"
      using k e hop [of k]
      by (auto simp: station_at_def sampleStation_def registered_def newCircuitObj_def seq_due_def newSequence_def sampleOffsets_def
          sampleWorld_def BodySize_val Let_def sampleRelay_def)
    ultimately show ?thesis by simp
  qed
  have len: "length sampleOffsets = 3" by (simp add: sampleOffsets_def)
  have "client_ready sampleCircuit sampleLinks ?K 0 2 sampleTalker sampleWorld"
    using e(1) by (simp add: client_ready_def sampleTalker_def newClient_def sampleLinks_def sampleWorld_def BodySize_val)
  then show ?thesis
    using wf keys at len by (simp add: network_ready_def list_all_iff)
qed

theorem conversation_answered_witness:
  "\<exists>c' w' ss' K'. conversation 9 [[1, 2, 3], [4]] (sampleTalker, sampleWorld, map sampleStation [0, 1, 2]) = Some ([Some [3, 2, 1], None], c', w', ss')
    \<and> network_ready sampleCircuit sampleOffsets sampleLinks sampleDestination K' 2 0 (c', w', ss')"
proof -
  let ?ms = "[[1, 2, 3], [4]] :: bytes list" and ?K = "[sampleLinkKeys, sampleLinkKeys, sampleLinkKeys]"
  have "network_ready sampleCircuit sampleOffsets sampleLinks sampleDestination ?K 0 (length ?ms) (sampleTalker, sampleWorld, map sampleStation [0, 1, 2])"
    using sample_network by (simp add: numeral_2_eq_2)
  moreover have "ch_buf (cl_replies sampleTalker) = []" "0 < ch_cap (cl_replies sampleTalker)"
    by (simp_all add: sampleTalker_def newClient_def make_chan_def)
  ultimately show ?thesis
    using conversation_answered [of sampleCircuit sampleOffsets sampleLinks sampleDestination ?K 0 ?ms sampleTalker sampleWorld "map sampleStation [0, 1, 2]" 9]
      sampleCircuit_ok(2) by (simp add: sampleDestination_def answer_bytes_def del: conversation.simps)
qed

end
