(* ===== verification/Metrics.thy ===== *)
theory Metrics
  imports Complex_Main "HOL-Library.Multiset" Choose
begin

text \<open>
  \<^verbatim>\<open>lab/metrics\<close>: the shares of paths an adversary holds (\<^verbatim>\<open>compromise.go\<close>), how well it links flows
  (\<^verbatim>\<open>correlation.go\<close>) and what the cover costs (\<^verbatim>\<open>cost.go\<close>). Numbers are exact reals where the source has
  \<^verbatim>\<open>float64\<close>, and \<^verbatim>\<open>NaN\<close> is \<open>None\<close>; \<^verbatim>\<open>math.Erf\<close>, \<^verbatim>\<open>math.Erfinv\<close> and the generator of \<^verbatim>\<open>math/rand\<close> are arguments. The
  theorems compare each closed form with what it stands for: the model of a choice with the share over
  all choices, the model with mirrors with the one without, and the area under the curve with the
  share of pairs ranked right.
\<close>

type_synonym f64 = "real option"

text \<open>A quotient of finite numbers, with \<^verbatim>\<open>0/0\<close> as \<open>None\<close>; no other quotient by zero is taken.\<close>

definition fdiv :: "real \<Rightarrow> real \<Rightarrow> f64" where
  "fdiv x y = (if y = 0 then None else Some (x / y))"

section \<open>Compromise of paths\<close>

definition rogueEnds :: "(int \<Rightarrow> bool) \<Rightarrow> int list \<Rightarrow> bool" where
  "rogueEnds rogue path \<longleftrightarrow> path \<noteq> [] \<and> rogue (hd path) \<and> rogue (last path)"

definition CompromiseFraction :: "int list list \<Rightarrow> (int \<Rightarrow> bool) \<Rightarrow> f64 \<times> f64" where
  "CompromiseFraction paths rogue =
     (if paths = [] then (None, None)
      else (Some (real (length (filter (rogueEnds rogue) paths)) / real (length paths)),
            Some (real (length (filter (list_ex rogue) paths)) / real (length paths))))"

definition CompromiseProbability :: "int \<Rightarrow> int \<Rightarrow> int \<Rightarrow> f64 \<times> f64" where
  "CompromiseProbability nodes hops rogue =
     (if hops < 1 \<or> hops > nodes \<or> rogue < 0 \<or> rogue > nodes then (None, None)
      else
        let n = real_of_int nodes; k = real_of_int rogue;
            ends = (if hops > 1 then k * max (k - 1) 0 / (n * (n - 1)) else k / n);
            clean = foldl (\<lambda>clean i. clean * ((n - k - real i) / (n - real i))) 1 [0..<nat hops]
        in (Some ends, Some (1 - clean)))"

record undrawn =
  u_honest :: int
  u_withholding :: int
  u_others :: int
  u_afterHonest :: bool

record entryChains =
  ec_comeUp :: real
  ec_failed :: real
  ec_rogueExit :: real

definition noChains :: entryChains where
  "noChains = \<lparr>ec_comeUp = 0, ec_failed = 0, ec_rogueExit = 0\<rparr>"

definition addShare :: "real \<Rightarrow> entryChains \<Rightarrow> entryChains \<Rightarrow> entryChains" where
  "addShare share ch acc =
     \<lparr>ec_comeUp = ec_comeUp acc + share * ec_comeUp ch, ec_failed = ec_failed acc + share * ec_failed ch,
      ec_rogueExit = ec_rogueExit acc + share * ec_rogueExit ch\<rparr>"

definition pool :: "undrawn \<Rightarrow> int" where
  "pool st = u_honest st + u_withholding st + u_others st"

definition lastChains :: "undrawn \<Rightarrow> entryChains" where
  "lastChains st = (if u_afterHonest st then \<lparr>ec_comeUp = 1, ec_failed = 0, ec_rogueExit = 0\<rparr> else \<lparr>ec_comeUp = 1, ec_failed = 0, ec_rogueExit = 1\<rparr>)"

text \<open>The closure \<^verbatim>\<open>add\<close>: what follows a draw of one kind, with the map of known states passed along.\<close>

definition addKind ::
  "(undrawn \<Rightarrow> (undrawn \<rightharpoonup> entryChains) \<Rightarrow> entryChains \<times> (undrawn \<rightharpoonup> entryChains)) \<Rightarrow> int \<Rightarrow> int \<Rightarrow> undrawn
    \<Rightarrow> entryChains \<times> (undrawn \<rightharpoonup> entryChains) \<Rightarrow> entryChains \<times> (undrawn \<rightharpoonup> entryChains)" where
  "addKind go left cnt next s =
     (if cnt = 0 then s
      else case s of (acc, known) \<Rightarrow> (case go next known of (ch, known) \<Rightarrow> (addShare (real_of_int cnt / real_of_int left) ch acc, known)))"

primrec memoChains :: "nat \<Rightarrow> undrawn \<Rightarrow> (undrawn \<rightharpoonup> entryChains) \<Rightarrow> entryChains \<times> (undrawn \<rightharpoonup> entryChains)" where
  "memoChains 0 = (\<lambda>st known. (lastChains st, known))"
| "memoChains (Suc draws) = (\<lambda>st known.
     case known st of
       Some acc \<Rightarrow> (acc, known)
     | None \<Rightarrow>
         (let s = addKind (memoChains draws) (pool st) (u_honest st) (st\<lparr>u_honest := u_honest st - 1, u_afterHonest := True\<rparr>) (noChains, known);
              s = (if u_afterHonest st
                   then case s of (acc, known) \<Rightarrow> (acc\<lparr>ec_failed := ec_failed acc + real_of_int (u_withholding st) / real_of_int (pool st)\<rparr>, known)
                   else addKind (memoChains draws) (pool st) (u_withholding st) (st\<lparr>u_withholding := u_withholding st - 1, u_afterHonest := False\<rparr>) s);
              s = addKind (memoChains draws) (pool st) (u_others st) (st\<lparr>u_others := u_others st - 1, u_afterHonest := False\<rparr>) s
          in case s of (acc, known) \<Rightarrow> (acc, known(st \<mapsto> acc))))"

definition rogueEntryChains :: "int \<Rightarrow> int \<Rightarrow> int \<Rightarrow> nat \<Rightarrow> entryChains" where
  "rogueEntryChains honest withholding others draws =
     fst (memoChains draws \<lparr>u_honest = honest, u_withholding = withholding, u_others = others, u_afterHonest = False\<rparr> Map.empty)"

text \<open>The sums over the accepted entries: those accepted, and the chains that come up, fail, have both ends rogue, hold a rogue node.\<close>

record mirrorSums =
  ms_accepted :: int
  ms_up :: real
  ms_down :: real
  ms_bothEnds :: real
  ms_anyNode :: real

definition addEntries :: "int \<Rightarrow> int \<Rightarrow> int \<Rightarrow> int \<Rightarrow> int \<times> int \<Rightarrow> mirrorSums \<Rightarrow> mirrorSums" where
  "addEntries honest rogue leftOut hops kind s =
     (case kind of (entries, withholding) \<Rightarrow>
        if entries = 0 then s
        else
          let ch = rogueEntryChains (honest - leftOut) withholding (rogue - 1 - withholding) (nat (hops - 1)); e = real_of_int entries
          in s\<lparr>ms_up := ms_up s + e * ec_comeUp ch, ms_down := ms_down s + e * ec_failed ch,
               ms_bothEnds := ms_bothEnds s + e * ec_rogueExit ch, ms_anyNode := ms_anyNode s + e * ec_comeUp ch\<rparr>)"

definition honestEntries :: "int \<Rightarrow> int \<Rightarrow> int \<Rightarrow> int \<Rightarrow> mirrorSums \<Rightarrow> mirrorSums" where
  "honestEntries nodes hops honest withheld s =
     (let clean = foldl (\<lambda>clean i. clean * (real_of_int (honest - 1 - int i) / real_of_int (nodes - withheld - 1 - int i))) 1 [0..<nat (hops - 1)]
      in s\<lparr>ms_accepted := ms_accepted s + honest, ms_up := ms_up s + real_of_int honest,
           ms_anyNode := ms_anyNode s + real_of_int honest * (1 - clean)\<rparr>)"

definition rogueEntries :: "int \<Rightarrow> int \<Rightarrow> int \<Rightarrow> int \<Rightarrow> int \<Rightarrow> mirrorSums \<Rightarrow> mirrorSums" where
  "rogueEntries hops honest rogue leftOut withheld s =
     fold (addEntries honest rogue leftOut hops) [(withheld, withheld - 1), (rogue - withheld, withheld)] (s\<lparr>ms_accepted := ms_accepted s + rogue\<rparr>)"

definition MirrorCompromiseProbability :: "int \<Rightarrow> int \<Rightarrow> int \<Rightarrow> int \<Rightarrow> int \<Rightarrow> int \<Rightarrow> f64 \<times> f64 \<times> f64 \<times> f64" where
  "MirrorCompromiseProbability nodes hops rogue missing leftOut withheld =
     (let honest = nodes - rogue in
      if hops < 1 \<or> hops > nodes \<or> missing < 0 \<or> leftOut < 0 \<or> leftOut > honest \<or> withheld < 0 \<or> withheld > rogue
      then (None, None, None, None)
      else
        let allowed = min missing (nodes - hops);
            s = \<lparr>ms_accepted = 0, ms_up = 0, ms_down = 0, ms_bothEnds = 0, ms_anyNode = 0\<rparr>;
            s = (if honest > 0 \<and> withheld \<le> allowed then honestEntries nodes hops honest withheld s else s);
            s = (if leftOut \<le> allowed then rogueEntries hops honest rogue leftOut withheld s else s);
            n = real_of_int nodes
        in (fdiv (ms_bothEnds s) (ms_up s), fdiv (ms_anyNode s) (ms_up s), Some (1 - real_of_int (ms_accepted s) / n), Some (ms_down s / n)))"

definition BinomialStdErr :: "f64 \<Rightarrow> int \<Rightarrow> f64" where
  "BinomialStdErr p n =
     (if n < 1 then None
      else case p of None \<Rightarrow> None | Some p \<Rightarrow> if p * (1 - p) < 0 then None else Some (sqrt (p * (1 - p) / real_of_int n)))"

section \<open>Cost\<close>

definition CellsWithin :: "int list list \<Rightarrow> int \<Rightarrow> nat" where
  "CellsWithin traces window = sum_list (map (\<lambda>t. length (filter (\<lambda>e. e < window) t)) traces)"

definition Multiplier :: "int \<Rightarrow> int \<Rightarrow> f64" where
  "Multiplier cells messages = (if messages \<le> 0 then None else Some (real_of_int cells / real_of_int messages))"

text \<open>\<^verbatim>\<open>slices.Sort\<close> puts \<^verbatim>\<open>NaN\<close> before every number; \<^verbatim>\<open>slices.Min\<close> and \<^verbatim>\<open>slices.Max\<close> are \<^verbatim>\<open>NaN\<close> when a value is, and panic on none.\<close>

definition sortFloats :: "f64 list \<Rightarrow> f64 list" where
  "sortFloats values = filter (\<lambda>v. v = None) values @ map Some (sort (List.map_filter (\<lambda>v. v) values))"

definition minFloat :: "f64 list \<Rightarrow> f64" where
  "minFloat values = (if None \<in> set values then None else Some (Min (set (List.map_filter (\<lambda>v. v) values))))"

definition maxFloat :: "f64 list \<Rightarrow> f64" where
  "maxFloat values = (if None \<in> set values then None else Some (Max (set (List.map_filter (\<lambda>v. v) values))))"

definition Median :: "f64 list \<Rightarrow> f64" where
  "Median values =
     (if values = [] then None
      else
        let ordered = sortFloats values; mid = length ordered div 2 in
        if length ordered mod 2 = 1 then ordered ! mid
        else case (ordered ! (mid - 1), ordered ! mid) of (Some a, Some b) \<Rightarrow> Some ((a + b) / 2) | _ \<Rightarrow> None)"

text \<open>\<^verbatim>\<open>math.Round\<close>: halves away from zero.\<close>

definition mathRound :: "real \<Rightarrow> int" where
  "mathRound x = (if x \<ge> 0 then \<lfloor>x + 1 / 2\<rfloor> else \<lceil>x - 1 / 2\<rceil>)"

definition Percentile :: "int list \<Rightarrow> f64 \<Rightarrow> int option" where
  "Percentile samples q =
     (case q of
        None \<Rightarrow> None
      | Some q \<Rightarrow>
          if samples = [] \<or> \<not> (0 \<le> q \<and> q \<le> 1) then None
          else
            let ordered = sort samples; pos = q * real (length ordered - 1); lo = nat \<lfloor>pos\<rfloor> in
            if lo + 1 \<ge> length ordered then Some (ordered ! lo)
            else Some (ordered ! lo + mathRound ((pos - real lo) * real_of_int (ordered ! (lo + 1) - ordered ! lo))))"

section \<open>Correlation\<close>

definition Bin :: "int list \<Rightarrow> int \<Rightarrow> int \<Rightarrow> real list" where
  "Bin events window bin =
     (let bin = (if bin \<le> 0 then 100 * 1000000 else bin) in
      foldl (\<lambda>out e. if 0 \<le> e \<and> e < window then out[nat (e div bin) := out ! nat (e div bin) + 1] else out)
        (replicate (nat ((window + bin - 1) div bin)) 0) events)"

definition Pearson :: "real list \<Rightarrow> real list \<Rightarrow> f64" where
  "Pearson a b =
     (let n = min (length a) (length b) in
      if n = 0 then None
      else
        let ma = (\<Sum>i\<leftarrow>[0..<n]. a ! i) / real n; mb = (\<Sum>i\<leftarrow>[0..<n]. b ! i) / real n;
            num = (\<Sum>i\<leftarrow>[0..<n]. (a ! i - ma) * (b ! i - mb));
            da = (\<Sum>i\<leftarrow>[0..<n]. (a ! i - ma) * (a ! i - ma));
            db = (\<Sum>i\<leftarrow>[0..<n]. (b ! i - mb) * (b ! i - mb))
        in if da = 0 \<or> db = 0 then None else Some (num / sqrt (da * db)))"

record Score =
  sc_Entry :: nat
  sc_Exit :: nat
  sc_Value :: real
  sc_True :: bool

definition undefinedScore :: real where "undefinedScore = -2"

text \<open>\<^verbatim>\<open>truth[i]\<close> of a flow that is not in the map is 0.\<close>

definition scoreOf :: "(nat \<rightharpoonup> nat) \<Rightarrow> nat \<Rightarrow> nat \<Rightarrow> f64 \<Rightarrow> Score" where
  "scoreOf truth i j v =
     (let v = (case v of None \<Rightarrow> undefinedScore | Some v \<Rightarrow> v) in
      \<lparr>sc_Entry = i, sc_Exit = j, sc_Value = real_of_int (mathRound (v * 10 ^ 9)) / 10 ^ 9, sc_True = ((case truth i of None \<Rightarrow> 0 | Some t \<Rightarrow> t) = j)\<rparr>)"

definition ScorePairs :: "real list list \<Rightarrow> real list list \<Rightarrow> (nat \<rightharpoonup> nat) \<Rightarrow> Score list" where
  "ScorePairs entry exit truth =
     concat (map (\<lambda>i. map (\<lambda>j. scoreOf truth i j (Pearson (entry ! i) (exit ! j))) [0..<length exit]) [0..<length entry])"

definition UndefinedPairs :: "Score list \<Rightarrow> nat" where
  "UndefinedPairs scores = length (filter (\<lambda>s. sc_Value s = undefinedScore) scores)"

text \<open>The loop over the groups of equal values: each member has the mean of the ranks of the group.\<close>

function tieRanks :: "nat \<Rightarrow> real list \<Rightarrow> real list" where
  "tieRanks i [] = []"
| "tieRanks i (v # vs) =
     (let g = length (takeWhile (\<lambda>x. x = v) vs) in
      replicate (Suc g) (real (i + (i + g)) / 2 + 1) @ tieRanks (Suc (i + g)) (drop g vs))"
  by pat_completeness auto
termination
  by (relation "measure (length \<circ> snd)") auto

text \<open>
  The order \<^verbatim>\<open>sort.Slice\<close> leaves among equal values is not fixed; here it is the order of the list, and the uses
  below treat equal values alike.
\<close>

definition AUC :: "Score list \<Rightarrow> f64" where
  "AUC scores =
     (let ordered = sort_key sc_Value scores; ranks = tieRanks 0 (map sc_Value ordered);
          positives = real (length (filter sc_True ordered)); negatives = real (length (filter (\<lambda>s. \<not> sc_True s) ordered));
          rankSum = (\<Sum>(s, r)\<leftarrow>zip ordered ranks. if sc_True s then r else 0)
      in if positives = 0 \<or> negatives = 0 then None
         else Some ((rankSum - positives * (positives + 1) / 2) / (positives * negatives)))"

record rocPoint =
  rp_fpr :: real
  rp_tpr :: real

function rocLoop :: "real \<Rightarrow> real \<Rightarrow> nat \<Rightarrow> nat \<Rightarrow> Score list \<Rightarrow> rocPoint list" where
  "rocLoop positives negatives tp fp [] = []"
| "rocLoop positives negatives tp fp (s # ss) =
     (let group = s # takeWhile (\<lambda>t. sc_Value t = sc_Value s) ss;
          tp = tp + length (filter sc_True group); fp = fp + length (filter (\<lambda>t. \<not> sc_True t) group)
      in \<lparr>rp_fpr = real fp / negatives, rp_tpr = real tp / positives\<rparr>
         # rocLoop positives negatives tp fp (dropWhile (\<lambda>t. sc_Value t = sc_Value s) ss))"
  by pat_completeness auto
termination
  by (relation "measure (\<lambda>(p, n, tp, fp, ss). length ss)") (auto simp: less_Suc_eq_le length_dropWhile_le)

definition roc :: "Score list \<Rightarrow> rocPoint list" where
  "roc scores =
     (let ordered = sort_key (\<lambda>s. - sc_Value s) scores;
          positives = real (length (filter sc_True ordered)); negatives = real (length (filter (\<lambda>s. \<not> sc_True s) ordered))
      in if positives = 0 \<or> negatives = 0 then []
         else \<lparr>rp_fpr = 0, rp_tpr = 0\<rparr> # rocLoop positives negatives 0 0 ordered)"

fun tprLoop :: "real \<Rightarrow> rocPoint list \<Rightarrow> real \<Rightarrow> real" where
  "tprLoop target (a # b # ps) best =
     tprLoop target (b # ps)
       (if rp_fpr b \<le> target then max best (rp_tpr b)
        else if rp_fpr a \<le> target then
          max best (rp_tpr a + (target - rp_fpr a) / (rp_fpr b - rp_fpr a) * (rp_tpr b - rp_tpr a))
        else best)"
| "tprLoop target ps best = best"

definition TPRAtFPR :: "Score list \<Rightarrow> real \<Rightarrow> f64" where
  "TPRAtFPR scores target = (case roc scores of [] \<Rightarrow> None | points \<Rightarrow> Some (tprLoop target points 0))"

text \<open>A flow out of range panics; \<open>None\<close> in \<open>best\<close> is minus infinity.\<close>

definition topBest :: "Score list \<Rightarrow> nat \<Rightarrow> real option list" where
  "topBest scores flows =
     foldl (\<lambda>best s. case best ! sc_Entry s of
         None \<Rightarrow> best[sc_Entry s := Some (sc_Value s)]
       | Some v \<Rightarrow> if sc_Value s > v then best[sc_Entry s := Some (sc_Value s)] else best)
       (replicate flows None) scores"

definition TopOneAccuracy :: "Score list \<Rightarrow> nat \<Rightarrow> f64 result" where
  "TopOneAccuracy scores flows =
     (if \<exists>s \<in> set scores. flows \<le> sc_Entry s then Inl Panic
      else
        let best = topBest scores flows;
            tied = map (\<lambda>i. length (filter (\<lambda>s. sc_Entry s = i \<and> best ! i = Some (sc_Value s)) scores)) [0..<flows];
            hit = map (\<lambda>i. list_ex (\<lambda>s. sc_Entry s = i \<and> best ! i = Some (sc_Value s) \<and> sc_True s) scores) [0..<flows]
        in Inr (fdiv (\<Sum>i\<leftarrow>[0..<flows]. if hit ! i then 1 / real (tied ! i) else 0) (real flows)))"

record Interval =
  iv_Point :: f64
  iv_Low :: f64
  iv_High :: f64
  iv_Method :: string

definition normCDF :: "(real \<Rightarrow> real) \<Rightarrow> real \<Rightarrow> real" where
  "normCDF erf x = 1 / 2 * (1 + erf (x / sqrt 2))"

definition normQuantile :: "(real \<Rightarrow> real) \<Rightarrow> real \<Rightarrow> real" where
  "normQuantile erfinv p = sqrt 2 * erfinv (2 * p - 1)"

definition quantile :: "real list \<Rightarrow> real \<Rightarrow> real" where
  "quantile ordered p =
     (if p \<le> 0 then ordered ! 0
      else if p \<ge> 1 then ordered ! (length ordered - 1)
      else
        let pos = p * real (length ordered - 1); lo = nat \<lfloor>pos\<rfloor>; hi = nat \<lceil>pos\<rceil>
        in ordered ! lo + (pos - real lo) * (ordered ! hi - ordered ! lo))"

definition byEntry :: "Score list \<Rightarrow> nat \<Rightarrow> Score list list" where
  "byEntry scores flows = map (\<lambda>i. filter (\<lambda>s. sc_Entry s = i) scores) [0..<flows]"

text \<open>The scores of the flows drawn; \<open>draws k\<close> is the answer of the \<open>k\<close>-th \<^verbatim>\<open>rng.Intn(flows)\<close>.\<close>

definition resampled :: "Score list list \<Rightarrow> nat \<Rightarrow> (nat \<Rightarrow> nat) \<Rightarrow> nat \<Rightarrow> real list" where
  "resampled groups flows draws resamples =
     List.map_filter (\<lambda>r. AUC (concat (map (\<lambda>i. groups ! draws (r * flows + i)) [0..<flows]))) [0..<resamples]"

definition jackknife :: "Score list list \<Rightarrow> nat \<Rightarrow> real list" where
  "jackknife groups flows =
     List.map_filter (\<lambda>leave. AUC (concat (map (\<lambda>i. if i \<noteq> leave then groups ! i else []) [0..<flows]))) [0..<flows]"

definition acceleration :: "real list \<Rightarrow> real" where
  "acceleration jack =
     (if length jack \<le> 1 then 0
      else
        let mean = sum_list jack / real (length jack);
            num = (\<Sum>v\<leftarrow>jack. (mean - v) * (mean - v) * (mean - v)); den = (\<Sum>v\<leftarrow>jack. (mean - v) * (mean - v))
        in if den > 0 then num / (6 * (den * sqrt den)) else 0)"

text \<open>The closure \<^verbatim>\<open>adjust\<close>; a denominator of zero makes the argument of \<^verbatim>\<open>normCDF\<close> infinite.\<close>

definition adjusted :: "(real \<Rightarrow> real) \<Rightarrow> (real \<Rightarrow> real) \<Rightarrow> real \<Rightarrow> real \<Rightarrow> real \<Rightarrow> real" where
  "adjusted erf erfinv z0 accel alpha =
     (let z = normQuantile erfinv alpha; d = 1 - accel * (z0 + z) in
      if d = 0 then (if z0 + z > 0 then 1 else 0) else normCDF erf (z0 + (z0 + z) / d))"

definition BootstrapAUC :: "(real \<Rightarrow> real) \<Rightarrow> (real \<Rightarrow> real) \<Rightarrow> (nat \<Rightarrow> nat) \<Rightarrow> Score list \<Rightarrow> nat \<Rightarrow> nat \<Rightarrow> Interval result" where
  "BootstrapAUC erf erfinv draws scores flows resamples =
     (let out = \<lparr>iv_Point = AUC scores, iv_Low = None, iv_High = None, iv_Method = ''bca''\<rparr> in
      case AUC scores of
        None \<Rightarrow> Inr out
      | Some point \<Rightarrow>
          if resamples = 0 \<or> flows \<le> 1 then Inr out
          else if \<exists>s \<in> set scores. flows \<le> sc_Entry s then Inl Panic
          else
            let groups = byEntry scores flows; samples = sort (resampled groups flows draws resamples) in
            if samples = [] then Inr out
            else if samples ! 0 = samples ! (length samples - 1) then Inr (out\<lparr>iv_Low := Some (samples ! 0), iv_High := Some (samples ! 0)\<rparr>)
            else
              let b = real (length samples);
                  p0 = (real (length (filter (\<lambda>v. v < point) samples)) + 1 / 2 * real (length (filter (\<lambda>v. v = point) samples))) / b;
                  p0 = min (max p0 (1 / 2 / b)) (1 - 1 / 2 / b);
                  z0 = normQuantile erfinv p0; accel = acceleration (jackknife groups flows)
              in Inr (out\<lparr>iv_Low := Some (quantile samples (adjusted erf erfinv z0 accel (25 / 1000))),
                           iv_High := Some (quantile samples (adjusted erf erfinv z0 accel (975 / 1000)))\<rparr>))"

section \<open>The chains of a rogue entry\<close>

text \<open>The sum over the kinds without the map of known states.\<close>

definition kindShare :: "(undrawn \<Rightarrow> entryChains) \<Rightarrow> int \<Rightarrow> int \<Rightarrow> undrawn \<Rightarrow> entryChains \<Rightarrow> entryChains" where
  "kindShare go left cnt next acc = (if cnt = 0 then acc else addShare (real_of_int cnt / real_of_int left) (go next) acc)"

primrec chainsFrom :: "nat \<Rightarrow> undrawn \<Rightarrow> entryChains" where
  "chainsFrom 0 = lastChains"
| "chainsFrom (Suc draws) = (\<lambda>st.
     let s = kindShare (chainsFrom draws) (pool st) (u_honest st) (st\<lparr>u_honest := u_honest st - 1, u_afterHonest := True\<rparr>) noChains;
         s = (if u_afterHonest st then s\<lparr>ec_failed := ec_failed s + real_of_int (u_withholding st) / real_of_int (pool st)\<rparr>
              else kindShare (chainsFrom draws) (pool st) (u_withholding st) (st\<lparr>u_withholding := u_withholding st - 1, u_afterHonest := False\<rparr>) s)
     in kindShare (chainsFrom draws) (pool st) (u_others st) (st\<lparr>u_others := u_others st - 1, u_afterHonest := False\<rparr>) s)"

text \<open>The map is keyed by the state alone: the number of draws left follows from the nodes left, \<open>T\<close> fewer.\<close>

definition memo_ok :: "int \<Rightarrow> (undrawn \<rightharpoonup> entryChains) \<Rightarrow> bool" where
  "memo_ok T known \<longleftrightarrow> (\<forall>st s. known st = Some s \<longrightarrow> s = chainsFrom (nat (pool st - T)) st)"

lemma pool_next [simp]:
  "pool (st\<lparr>u_honest := u_honest st - 1, u_afterHonest := b\<rparr>) = pool st - 1"
  "pool (st\<lparr>u_withholding := u_withholding st - 1, u_afterHonest := b\<rparr>) = pool st - 1"
  "pool (st\<lparr>u_others := u_others st - 1, u_afterHonest := b\<rparr>) = pool st - 1"
  by (simp_all add: pool_def)

text \<open>A value and a map that is right about the states it knows.\<close>

definition memo_pair :: "int \<Rightarrow> entryChains \<times> (undrawn \<rightharpoonup> entryChains) \<Rightarrow> entryChains \<Rightarrow> bool" where
  "memo_pair T s acc \<longleftrightarrow> fst s = acc \<and> memo_ok T (snd s)"

lemma addKind_memo:
  assumes "\<And>known. memo_ok T known \<Longrightarrow> memo_pair T (go next known) (ref next)" "memo_pair T s acc"
  shows "memo_pair T (addKind go left cnt next s) (kindShare ref left cnt next acc)"
  using assms by (auto simp: addKind_def kindShare_def memo_pair_def split: prod.splits) fastforce+

lemma memoChains_ref:
  assumes "memo_ok T known" "pool st = T + int d"
  shows "memo_pair T (memoChains d st known) (chainsFrom d st)"
  using assms
proof (induction d arbitrary: st known)
  case (Suc d)
  have left: "nat (pool st - T) = Suc d" using Suc.prems(2) by simp
  show ?case
  proof (cases "known st")
    case (Some s)
    then have "s = chainsFrom (Suc d) st" using Suc.prems(1) left unfolding memo_ok_def by metis
    then show ?thesis using Some Suc.prems(1) by (simp add: memo_pair_def del: chainsFrom.simps)
  next
    case None
    have go: "memo_pair T (memoChains d nx known) (chainsFrom d nx)" if "memo_ok T known" "pool nx = pool st - 1" for nx known
      using Suc.IH [OF that(1), of nx] that(2) Suc.prems(2) by simp
    define s1 where "s1 = addKind (memoChains d) (pool st) (u_honest st) (st\<lparr>u_honest := u_honest st - 1, u_afterHonest := True\<rparr>) (noChains, known)"
    define s2 where "s2 = (if u_afterHonest st
        then case s1 of (acc, known) \<Rightarrow> (acc\<lparr>ec_failed := ec_failed acc + real_of_int (u_withholding st) / real_of_int (pool st)\<rparr>, known)
        else addKind (memoChains d) (pool st) (u_withholding st) (st\<lparr>u_withholding := u_withholding st - 1, u_afterHonest := False\<rparr>) s1)"
    define s3 where "s3 = addKind (memoChains d) (pool st) (u_others st) (st\<lparr>u_others := u_others st - 1, u_afterHonest := False\<rparr>) s2"
    define a1 where "a1 = kindShare (chainsFrom d) (pool st) (u_honest st) (st\<lparr>u_honest := u_honest st - 1, u_afterHonest := True\<rparr>) noChains"
    define a2 where "a2 = (if u_afterHonest st then a1\<lparr>ec_failed := ec_failed a1 + real_of_int (u_withholding st) / real_of_int (pool st)\<rparr>
        else kindShare (chainsFrom d) (pool st) (u_withholding st) (st\<lparr>u_withholding := u_withholding st - 1, u_afterHonest := False\<rparr>) a1)"
    have m0: "memo_pair T (noChains, known) noChains" using Suc.prems(1) by (simp add: memo_pair_def)
    have m1: "memo_pair T s1 a1" unfolding s1_def a1_def by (rule addKind_memo) (simp_all add: go m0)
    have m2: "memo_pair T s2 a2"
    proof (cases "u_afterHonest st")
      case True
      then show ?thesis using m1 by (auto simp: s2_def a2_def memo_pair_def split: prod.splits)
    next
      case False
      have "memo_pair T (addKind (memoChains d) (pool st) (u_withholding st) (st\<lparr>u_withholding := u_withholding st - 1, u_afterHonest := False\<rparr>) s1)
        (kindShare (chainsFrom d) (pool st) (u_withholding st) (st\<lparr>u_withholding := u_withholding st - 1, u_afterHonest := False\<rparr>) a1)"
        by (rule addKind_memo) (simp_all add: go m1)
      then show ?thesis using False by (simp add: s2_def a2_def)
    qed
    have m3: "memo_pair T s3 (chainsFrom (Suc d) st)"
      unfolding s3_def chainsFrom.simps Let_def a1_def [symmetric] a2_def [symmetric]
      by (rule addKind_memo) (simp_all add: go m2)
    have run: "memoChains (Suc d) st known = (case s3 of (acc, known) \<Rightarrow> (acc, known(st \<mapsto> acc)))"
      using None by (simp add: Let_def s1_def s2_def s3_def)
    have "memo_ok T ((snd s3)(st \<mapsto> fst s3))" using m3 left by (auto simp: memo_pair_def memo_ok_def simp del: chainsFrom.simps)
    then show ?thesis using m3 unfolding run by (auto simp: memo_pair_def split: prod.splits simp del: chainsFrom.simps)
  qed
qed (simp add: memo_pair_def)

lemma rogueEntryChains_ref:
  "rogueEntryChains honest withholding others draws
     = chainsFrom draws \<lparr>u_honest = honest, u_withholding = withholding, u_others = others, u_afterHonest = False\<rparr>"
proof -
  let ?st = "\<lparr>u_honest = honest, u_withholding = withholding, u_others = others, u_afterHonest = False\<rparr>"
  have "memo_pair (pool ?st - int draws) (memoChains draws ?st Map.empty) (chainsFrom draws ?st)" by (rule memoChains_ref) (simp_all add: memo_ok_def)
  then show ?thesis by (simp add: rogueEntryChains_def memo_pair_def)
qed

definition undrawn_ok :: "nat \<Rightarrow> undrawn \<Rightarrow> bool" where
  "undrawn_ok d st \<longleftrightarrow> 0 \<le> u_honest st \<and> 0 \<le> u_withholding st \<and> 0 \<le> u_others st \<and> int d \<le> pool st"

lemma undrawn_ok_next:
  assumes "undrawn_ok (Suc d) st"
  shows "u_honest st \<noteq> 0 \<Longrightarrow> undrawn_ok d (st\<lparr>u_honest := u_honest st - 1, u_afterHonest := b\<rparr>)"
    "u_withholding st \<noteq> 0 \<Longrightarrow> undrawn_ok d (st\<lparr>u_withholding := u_withholding st - 1, u_afterHonest := b\<rparr>)"
    "u_others st \<noteq> 0 \<Longrightarrow> undrawn_ok d (st\<lparr>u_others := u_others st - 1, u_afterHonest := b\<rparr>)"
    "0 < pool st"
  using assms by (auto simp: undrawn_ok_def)

text \<open>A sum of shares of values that satisfy a linear property.\<close>

lemma kindShare_sel:
  "ec_comeUp (kindShare go p c nx acc) = ec_comeUp acc + (if c = 0 then 0 else c / p * ec_comeUp (go nx))"
  "ec_failed (kindShare go p c nx acc) = ec_failed acc + (if c = 0 then 0 else c / p * ec_failed (go nx))"
  "ec_rogueExit (kindShare go p c nx acc) = ec_rogueExit acc + (if c = 0 then 0 else c / p * ec_rogueExit (go nx))"
  by (simp_all add: kindShare_def addShare_def)

lemma shares_sum: "0 < pool st \<Longrightarrow> u_honest st / real_of_int (pool st) + u_withholding st / pool st + u_others st / pool st = 1"
  by (simp add: pool_def add_divide_distrib [symmetric] flip: of_int_add)

lemma chainsFrom_shares:
  "undrawn_ok d st \<Longrightarrow> ec_comeUp (chainsFrom d st) + ec_failed (chainsFrom d st) = 1
     \<and> 0 \<le> ec_failed (chainsFrom d st) \<and> 0 \<le> ec_rogueExit (chainsFrom d st) \<and> ec_rogueExit (chainsFrom d st) \<le> ec_comeUp (chainsFrom d st)"
proof (induction d arbitrary: st)
  case (Suc d)
  let ?h = "st\<lparr>u_honest := u_honest st - 1, u_afterHonest := True\<rparr>" and ?w = "st\<lparr>u_withholding := u_withholding st - 1, u_afterHonest := False\<rparr>"
    and ?o = "st\<lparr>u_others := u_others st - 1, u_afterHonest := False\<rparr>"
  note nx = undrawn_ok_next [OF Suc.prems]
  have p: "0 < pool st" "0 \<le> u_honest st" "0 \<le> u_withholding st" "0 \<le> u_others st" using nx(4) Suc.prems by (simp_all add: undrawn_ok_def)
  define part where "part c nx = (if c = (0::int) then (0, 0, 0) else (c / pool st * ec_comeUp (chainsFrom d nx), c / pool st * ec_failed (chainsFrom d nx), c / pool st * ec_rogueExit (chainsFrom d nx)))" for c nx
  have part: "fst (part c x) + fst (snd (part c x)) = c / pool st \<and> 0 \<le> fst (snd (part c x)) \<and> 0 \<le> snd (snd (part c x)) \<and> snd (snd (part c x)) \<le> fst (part c x)"
    if "c \<noteq> 0 \<Longrightarrow> undrawn_ok d x" "0 \<le> c" for c x
  proof (cases "c = 0")
    case False
    note ih = Suc.IH [OF that(1) [OF False]]
    have q: "0 \<le> real_of_int c / real_of_int (pool st)" using that(2) p(1) by simp
    define q where "q = real_of_int c / real_of_int (pool st)"
    have "q * ec_comeUp (chainsFrom d x) + q * ec_failed (chainsFrom d x) = q" using ih by (metis distrib_left mult.right_neutral)
    moreover have "0 \<le> q * ec_failed (chainsFrom d x)" "0 \<le> q * ec_rogueExit (chainsFrom d x)" "q * ec_rogueExit (chainsFrom d x) \<le> q * ec_comeUp (chainsFrom d x)"
      using ih q by (simp_all add: q_def [symmetric] mult_left_mono)
    ultimately show ?thesis using False by (simp add: part_def q_def [symmetric])
  qed (simp add: part_def)
  have "ec_comeUp (chainsFrom (Suc d) st) = fst (part (u_honest st) ?h) + (if u_afterHonest st then 0 else fst (part (u_withholding st) ?w)) + fst (part (u_others st) ?o)"
    "ec_failed (chainsFrom (Suc d) st) = fst (snd (part (u_honest st) ?h)) + (if u_afterHonest st then u_withholding st / pool st else fst (snd (part (u_withholding st) ?w))) + fst (snd (part (u_others st) ?o))"
    "ec_rogueExit (chainsFrom (Suc d) st) = snd (snd (part (u_honest st) ?h)) + (if u_afterHonest st then 0 else snd (snd (part (u_withholding st) ?w))) + snd (snd (part (u_others st) ?o))"
    by (simp_all add: Let_def kindShare_sel noChains_def part_def)
  then show ?case
    using part [of "u_honest st" ?h] part [of "u_withholding st" ?w] part [of "u_others st" ?o] nx p shares_sum [OF p(1)]
    by (auto split: if_splits)
qed (simp add: lastChains_def)

section \<open>Full mirrors\<close>

text \<open>With nobody withholding every chain of a rogue entry comes up, and its exit is as likely rogue as any node left.\<close>

lemma chainsFrom_full:
  assumes "undrawn_ok d st" "u_withholding st = 0"
  shows "ec_failed (chainsFrom d st) = 0 \<and> (0 < d \<longrightarrow> ec_rogueExit (chainsFrom d st) = u_others st / pool st)"
  using assms
proof (induction d arbitrary: st)
  case (Suc d)
  let ?h = "st\<lparr>u_honest := u_honest st - 1, u_afterHonest := True\<rparr>" and ?o = "st\<lparr>u_others := u_others st - 1, u_afterHonest := False\<rparr>"
  note nx = undrawn_ok_next [OF Suc.prems(1)]
  have ih: "u_honest st \<noteq> 0 \<Longrightarrow> ec_failed (chainsFrom d ?h) = 0 \<and> (0 < d \<longrightarrow> ec_rogueExit (chainsFrom d ?h) = u_others st / (pool st - 1))"
    "u_others st \<noteq> 0 \<Longrightarrow> ec_failed (chainsFrom d ?o) = 0 \<and> (0 < d \<longrightarrow> ec_rogueExit (chainsFrom d ?o) = (u_others st - 1) / (pool st - 1))"
    using Suc.IH [of ?h] Suc.IH [of ?o] nx(1,3) Suc.prems(2) by simp_all
  have failed: "ec_failed (chainsFrom (Suc d) st) = 0"
    using ih Suc.prems(2) by (simp add: Let_def kindShare_sel noChains_def)
  have exit: "ec_rogueExit (chainsFrom (Suc d) st)
      = (if u_honest st = 0 then 0 else u_honest st / pool st * ec_rogueExit (chainsFrom d ?h)) + (if u_others st = 0 then 0 else u_others st / pool st * ec_rogueExit (chainsFrom d ?o))"
    using Suc.prems(2) by (simp add: Let_def kindShare_sel noChains_def)
  have "ec_rogueExit (chainsFrom (Suc d) st) = u_others st / pool st"
  proof (cases d)
    case 0
    then show ?thesis unfolding exit by (simp add: lastChains_def)
  next
    case (Suc e)
    define p where "p = real_of_int (pool st)"
    have p: "p = real_of_int (u_honest st) + real_of_int (u_others st)" "p > 1"
      using Suc.prems Suc by (simp_all add: p_def pool_def undrawn_ok_def)
    have "ec_rogueExit (chainsFrom (Suc d) st) = u_honest st / p * (u_others st / (p - 1)) + u_others st / p * ((u_others st - 1) / (p - 1))"
      using ih Suc unfolding exit p_def by auto
    also have "\<dots> = u_others st * (p - 1) / (p * (p - 1))" unfolding p(1) by (simp add: field_simps add_divide_distrib diff_divide_distrib)
    also have "\<dots> = u_others st / p" using p(2) by simp
    finally show ?thesis by (simp add: p_def)
  qed
  then show ?case using failed by simp
qed (simp add: lastChains_def)

lemma foldl_factors: "foldl (\<lambda>c i. c * f i) a [0..<n] = a * (\<Prod>i<n. f i :: real)"
  by (induction n) (simp_all add: mult.assoc)

lemma rogueEntryChains_full:
  assumes "0 \<le> honest" "0 \<le> others" "int d \<le> honest + others"
  shows "ec_comeUp (rogueEntryChains honest 0 others d) = 1" "ec_failed (rogueEntryChains honest 0 others d) = 0"
    "ec_rogueExit (rogueEntryChains honest 0 others d) = (if d = 0 then 1 else real_of_int others / real_of_int (honest + others))"
proof -
  let ?st = "\<lparr>u_honest = honest, u_withholding = 0, u_others = others, u_afterHonest = False\<rparr>"
  have ok: "undrawn_ok d ?st" using assms by (simp add: undrawn_ok_def pool_def)
  note full = chainsFrom_full [OF ok] and shares = chainsFrom_shares [OF ok]
  show "ec_comeUp (rogueEntryChains honest 0 others d) = 1" "ec_failed (rogueEntryChains honest 0 others d) = 0"
    using full shares by (simp_all add: rogueEntryChains_ref)
  show "ec_rogueExit (rogueEntryChains honest 0 others d) = (if d = 0 then 1 else real_of_int others / real_of_int (honest + others))"
    using full by (cases d) (auto simp: rogueEntryChains_ref lastChains_def pool_def simp del: chainsFrom.simps(2))
qed

lemma clean_shift:
  assumes "0 < hops"
  shows "(\<Prod>i<nat hops. (n - k - real i) / (n - real i)) = (n - k) / n * (\<Prod>i<nat (hops - 1). (n - k - 1 - real i) / (n - 1 - real i))"
proof -
  obtain h where h: "nat hops = Suc h" "nat (hops - 1) = h" using assms by (metis Suc_nat_eq_nat_zadd1 diff_add_cancel add.commute zle_diff1_eq)
  have "(n - k - (real i + 1)) / (n - (real i + 1)) = (n - k - 1 - real i) / (n - 1 - real i)" for i by (simp add: algebra_simps)
  then show ?thesis unfolding h by (subst prod.lessThan_Suc_shift) (simp add: add.commute)
qed

text \<open>
  C37: the model of the choice with mirrors agrees with the uniform choice where the mirrors are full: when no rogue
  node leaves an honest one out or withholds its own descriptor, no mirror is refused, no chain fails at setup, and
  the shares of chains with both ends rogue and with a rogue node anywhere are those of a path drawn among all
  the nodes, for every number of nodes, hops and rogue nodes and every bound on missing nodes.
\<close>

theorem full_mirrors_uniform:
  assumes "1 \<le> hops" "hops \<le> nodes" "0 \<le> rogue" "rogue \<le> nodes" "0 \<le> missing"
  shows "MirrorCompromiseProbability nodes hops rogue missing 0 0
    = (fst (CompromiseProbability nodes hops rogue), snd (CompromiseProbability nodes hops rogue), Some 0, Some 0)"
proof -
  define n k where "n = real_of_int nodes" and "k = real_of_int rogue"
  have n: "0 < n" "0 \<le> k" "k \<le> n" using assms by (simp_all add: n_def k_def)
  define clean where "clean = (\<Prod>i<nat (hops - 1). (n - k - 1 - real i) / (n - 1 - real i))"
  define ends where "ends = (if hops > 1 then k * max (k - 1) 0 / (n * (n - 1)) else k / n)"
  have uniform: "CompromiseProbability nodes hops rogue = (Some ends, Some (1 - (n - k) / n * clean))"
    unfolding CompromiseProbability_def Let_def foldl_factors n_def [symmetric] k_def [symmetric]
    using assms clean_shift [of hops n k] by (simp add: ends_def clean_def)
  define c where "c = rogueEntryChains (nodes - rogue) 0 (rogue - 1) (nat (hops - 1))"
  have c: "ec_comeUp c = 1" "ec_failed c = 0" "k * ec_rogueExit c = n * ends" if "rogue \<noteq> 0"
  proof -
    note full = rogueEntryChains_full [of "nodes - rogue" "rogue - 1" "nat (hops - 1)"]
    show "ec_comeUp c = 1" "ec_failed c = 0" using full(1,2) assms that by (simp_all add: c_def)
    have "ec_rogueExit c = (if hops = 1 then 1 else (k - 1) / (n - 1))"
      using full(3) assms that by (auto simp: c_def n_def k_def)
    moreover have "max (k - 1) 0 = k - 1" using that assms(3) by (simp add: k_def)
    ultimately show "k * ec_rogueExit c = n * ends" using n(1) assms(1) by (auto simp: ends_def)
  qed
  let ?z = "\<lparr>ms_accepted = 0, ms_up = 0, ms_down = 0, ms_bothEnds = 0, ms_anyNode = 0\<rparr>"
  let ?s = "\<lparr>ms_accepted = nodes - rogue, ms_up = n - k, ms_down = 0, ms_bothEnds = 0, ms_anyNode = (n - k) * (1 - clean)\<rparr>"
  have honest: "(if nodes - rogue > 0 \<and> 0 \<le> min missing (nodes - hops) then honestEntries nodes hops (nodes - rogue) 0 ?z else ?z) = ?s"
    using assms unfolding honestEntries_def Let_def foldl_factors by (auto simp: n_def k_def clean_def)
  have rogues: "rogueEntries hops (nodes - rogue) rogue 0 0 ?s
      = \<lparr>ms_accepted = nodes, ms_up = n, ms_down = 0, ms_bothEnds = n * ends, ms_anyNode = n - (n - k) * clean\<rparr>"
  proof (cases "rogue = 0")
    case True
    then show ?thesis by (auto simp: rogueEntries_def addEntries_def k_def ends_def algebra_simps)
  next
    case False
    then show ?thesis using c by (simp add: rogueEntries_def addEntries_def Let_def c_def [symmetric] k_def [symmetric] algebra_simps)
  qed
  have "(n - (n - k) * clean) / n = 1 - (n - k) / n * clean" using n(1) by (simp add: field_simps)
  then show ?thesis
    using assms n(1) unfolding MirrorCompromiseProbability_def Let_def uniform honest
    by (simp add: rogues fdiv_def n_def [symmetric])
qed

theorem full_mirrors_uniform_witness:
  "MirrorCompromiseProbability 5 3 2 1 0 0 = (Some (1 / 10), Some (9 / 10), Some 0, Some 0)"
proof -
  have "CompromiseProbability 5 3 2 = (Some (1 / 10), Some (9 / 10))" by (simp add: CompromiseProbability_def Let_def upt_rec)
  then show ?thesis using full_mirrors_uniform [of 3 5 2 1] by simp
qed

section \<open>All paths\<close>

definition pathsOver :: "nat \<Rightarrow> int set \<Rightarrow> int list set" where
  "pathsOver h A = {p. length p = h \<and> distinct p \<and> set p \<subseteq> A}"

lemma finite_pathsOver: "finite A \<Longrightarrow> finite (pathsOver h A)"
  using finite_lists_length_eq [of A h] by (auto simp: pathsOver_def intro: rev_finite_subset)

lemma pathsOver_Suc: "pathsOver (Suc h) A = (\<lambda>(p, x). x # p) ` (SIGMA p:pathsOver h A. A - set p)"
proof (intro equalityI subsetI)
  fix q assume "q \<in> pathsOver (Suc h) A"
  then show "q \<in> (\<lambda>(p, x). x # p) ` (SIGMA p:pathsOver h A. A - set p)"
    by (cases q) (auto simp: pathsOver_def image_iff)
qed (auto simp: pathsOver_def)

lemma card_pathsOver:
  assumes "finite A"
  shows "real (card (pathsOver h A)) = (\<Prod>i<h. real (card A) - real i)"
proof (induction h)
  case 0
  have "pathsOver 0 A = {[]}" by (auto simp: pathsOver_def)
  then show ?case by simp
next
  case (Suc h)
  have rest: "real (card (A - set p)) = real (card A) - real h" if "p \<in> pathsOver h A" for p
  proof -
    have p: "length p = h" "distinct p" "set p \<subseteq> A" using that by (simp_all add: pathsOver_def)
    then have "card (A - set p) = card A - h" "h \<le> card A"
      using assms by (auto simp: card_Diff_subset distinct_card) (metis card_mono distinct_card)
    then show ?thesis by simp
  qed
  have "inj_on (\<lambda>(p, x). x # p) (SIGMA p:pathsOver h A. A - set p)" by (auto simp: inj_on_def)
  then have "card (pathsOver (Suc h) A) = (\<Sum>p\<in>pathsOver h A. card (A - set p))"
    using assms finite_pathsOver [OF assms] unfolding pathsOver_Suc by (simp add: card_image)
  then show ?case using Suc rest by (simp add: of_nat_sum)
qed

lemma pathsOver_nonzero: "h \<le> n \<Longrightarrow> (\<Prod>i<h. real n - real i) \<noteq> 0"
  by simp

text \<open>The paths of two nodes and more whose ends are in a set.\<close>

lemma card_ends:
  assumes "finite A" "R \<subseteq> A"
  shows "real (card {p \<in> pathsOver (Suc (Suc m)) A. hd p \<in> R \<and> last p \<in> R}) = real (card R) * (real (card R) - 1) * (\<Prod>i<m. real (card A) - 2 - real i)"
proof -
  let ?E = "SIGMA a:R. R - {a}" and ?f = "\<lambda>(e, mid). fst e # mid @ [snd e]" and ?mid = "\<lambda>e. pathsOver m (A - {fst e, snd e})"
  have "finite R" using assms by (rule rev_finite_subset)
  then have fin: "finite R" "finite ?E" by auto
  have "card ?E = (\<Sum>a\<in>R. card (R - {a}))" using fin(1) by simp
  then have pairs: "real (card ?E) = real (card R) * (real (card R) - 1)" using fin(1) by (cases "card R") (simp_all add: algebra_simps)
  have mid: "real (card (?mid e)) = (\<Prod>i<m. real (card A) - 2 - real i)" if "e \<in> ?E" for e
  proof -
    have "{fst e, snd e} \<subseteq> A" "fst e \<noteq> snd e" using that assms(2) by auto
    then have "{fst e, snd e} \<subseteq> A" "card {fst e, snd e} = 2" by simp_all
    then have "card (A - {fst e, snd e}) = card A - 2" "2 \<le> card A"
      using assms(1) card_mono [of A "{fst e, snd e}"] by (simp_all add: card_Diff_subset)
    then show ?thesis using card_pathsOver [of "A - {fst e, snd e}" m] assms(1) by simp
  qed
  have set: "{p \<in> pathsOver (Suc (Suc m)) A. hd p \<in> R \<and> last p \<in> R} = ?f ` (SIGMA e:?E. ?mid e)"
  proof (intro equalityI subsetI)
    fix p assume p: "p \<in> {p \<in> pathsOver (Suc (Suc m)) A. hd p \<in> R \<and> last p \<in> R}"
    then obtain a q b where q: "p = a # q @ [b]" by (cases p; cases "tl p" rule: rev_cases) (auto simp: pathsOver_def)
    then have "((a, b), q) \<in> (SIGMA e:?E. ?mid e)" using p by (auto simp: pathsOver_def)
    then show "p \<in> ?f ` (SIGMA e:?E. ?mid e)" using q by (force simp: image_iff)
  next
    fix p assume "p \<in> ?f ` (SIGMA e:?E. ?mid e)"
    then show "p \<in> {p \<in> pathsOver (Suc (Suc m)) A. hd p \<in> R \<and> last p \<in> R}" using assms(2) by (auto simp: pathsOver_def)
  qed
  have "inj_on ?f (SIGMA e:?E. ?mid e)" by (auto simp: inj_on_def)
  then have "card {p \<in> pathsOver (Suc (Suc m)) A. hd p \<in> R \<and> last p \<in> R} = (\<Sum>e\<in>?E. card (?mid e))"
    unfolding set using fin(2) assms(1) finite_pathsOver by (subst card_image) (auto intro!: card_SigmaI)
  then have "real (card {p \<in> pathsOver (Suc (Suc m)) A. hd p \<in> R \<and> last p \<in> R}) = (\<Sum>e\<in>?E. real (card (?mid e)))" by (simp add: of_nat_sum)
  also have "\<dots> = real (card ?E) * (\<Prod>i<m. real (card A) - 2 - real i)" using mid by simp
  finally show ?thesis using pairs by simp
qed

text \<open>The paths of one node.\<close>

lemma card_ends_one: "R \<subseteq> A \<Longrightarrow> card {p \<in> pathsOver (Suc 0) A. hd p \<in> R \<and> last p \<in> R} = card R"
proof -
  assume "R \<subseteq> A"
  then have "{p \<in> pathsOver (Suc 0) A. hd p \<in> R \<and> last p \<in> R} = (\<lambda>x. [x]) ` R" by (auto simp: pathsOver_def length_Suc_conv)
  then show ?thesis by (simp add: card_image inj_on_def)
qed

text \<open>
  C35: the chance the lab states for a uniform choice is the exact share over all choices. Taken over every path of
  the asked length through distinct nodes, each once, the measured share of paths with both ends rogue and of
  paths with a rogue node anywhere are the numbers of \<^verbatim>\<open>CompromiseProbability\<close>, whichever nodes are rogue.
\<close>

theorem compromise_probability_exact:
  assumes "set paths = {p. length p = nat hops \<and> distinct p \<and> set p \<subseteq> {0..<nodes}}" "distinct paths" "1 \<le> hops" "hops \<le> nodes" "R \<subseteq> {0..<nodes}"
  shows "CompromiseFraction paths (\<lambda>x. x \<in> R) = CompromiseProbability nodes hops (int (card R))"
proof -
  let ?A = "{0..<nodes}"
  define n k where "n = real_of_int nodes" and "k = real (card R)"
  have A: "finite ?A" "real (card ?A) = n" "finite R" "card R \<le> card ?A" using assms(3-5) rev_finite_subset [of ?A R] card_mono [of ?A R] by (simp_all add: n_def)
  have paths: "set paths = pathsOver (nat hops) ?A" using assms(1) by (simp add: pathsOver_def)
  have nz: "(\<Prod>i<nat hops. n - real i) \<noteq> 0" using assms(3,4) by (auto simp: n_def)
  have len: "real (length paths) = (\<Prod>i<nat hops. n - real i)"
    using card_pathsOver [OF A(1), of "nat hops"] A(2) distinct_card [OF assms(2)] paths by simp
  have share: "length (filter P paths) = card {p \<in> pathsOver (nat hops) ?A. P p}" for P
    using distinct_card [of "filter P paths"] assms(2) paths by simp
  have "{p \<in> pathsOver (nat hops) ?A. \<not> list_ex (\<lambda>x. x \<in> R) p} = pathsOver (nat hops) (?A - R)" by (auto simp: pathsOver_def list_ex_iff)
  moreover have "real (card (?A - R)) = n - k" using A assms(5) by (simp add: card_Diff_subset k_def of_nat_diff)
  ultimately have "real (length (filter (\<lambda>p. \<not> list_ex (\<lambda>x. x \<in> R) p) paths)) = (\<Prod>i<nat hops. n - k - real i)"
    using card_pathsOver [of "?A - R" "nat hops"] share by simp
  moreover have "length (filter (list_ex (\<lambda>x. x \<in> R)) paths) + length (filter (\<lambda>p. \<not> list_ex (\<lambda>x. x \<in> R) p) paths) = length paths"
    by (rule sum_length_filter_compl)
  ultimately have "real (length (filter (list_ex (\<lambda>x. x \<in> R)) paths)) = real (length paths) - (\<Prod>i<nat hops. n - k - real i)" by linarith
  then have touched: "real (length (filter (list_ex (\<lambda>x. x \<in> R)) paths)) / real (length paths) = 1 - (\<Prod>i<nat hops. (n - k - real i) / (n - real i))"
    using nz unfolding len prod_dividef by (metis diff_divide_distrib divide_self)
  have "{p \<in> pathsOver (nat hops) ?A. rogueEnds (\<lambda>x. x \<in> R) p} = {p \<in> pathsOver (nat hops) ?A. hd p \<in> R \<and> last p \<in> R}"
    using assms(3) by (auto simp: pathsOver_def rogueEnds_def)
  then have e: "length (filter (rogueEnds (\<lambda>x. x \<in> R)) paths) = card {p \<in> pathsOver (nat hops) ?A. hd p \<in> R \<and> last p \<in> R}"
    using share [of "rogueEnds (\<lambda>x. x \<in> R)"] by simp
  have ends: "real (length (filter (rogueEnds (\<lambda>x. x \<in> R)) paths)) / real (length paths) = (if hops > 1 then k * max (k - 1) 0 / (n * (n - 1)) else k / n)"
  proof (cases "hops = 1")
    case True
    then show ?thesis using card_ends_one [OF assms(5)] e len by (simp add: k_def)
  next
    case False
    then obtain m where m: "nat hops = Suc (Suc m)" using assms(3) by (metis One_nat_def Suc_pred int_one_le_iff_zero_less nat_eq_iff2 not0_implies_Suc of_nat_1 order_less_irrefl zero_less_nat_eq)
    have "real (length paths) = n * (n - 1) * (\<Prod>i<m. n - 2 - real i)"
      unfolding len m prod.lessThan_Suc_shift by (simp add: algebra_simps)
    moreover have "k * (k - 1) = k * max (k - 1) 0" by (cases "card R") (simp_all add: k_def)
    ultimately show ?thesis using card_ends [OF A(1) assms(5), of m] e m False assms(3) nz len A(2) by (simp add: k_def)
  qed
  have "paths \<noteq> []" using nz len by auto
  moreover have "int (card R) \<le> nodes" using A(4) assms(3,4) by simp
  ultimately show ?thesis
    unfolding CompromiseProbability_def Let_def foldl_factors CompromiseFraction_def touched ends
    using assms(3,4) by (simp add: n_def k_def)
qed

theorem compromise_probability_exact_witness:
  "CompromiseFraction [[0, 1], [0, 2], [1, 0], [1, 2], [2, 0], [2, 1]] (\<lambda>x. x \<in> {0, 1}) = (Some (1 / 3), Some 1)"
proof -
  let ?paths = "[[0, 1], [0, 2], [1, 0], [1, 2], [2, 0], [2, 1]] :: int list list"
  have three: "{0..<3} = {0, 1, 2 :: int}" by auto
  have "set ?paths = {p. length p = nat 2 \<and> distinct p \<and> set p \<subseteq> {0..<3}}"
    unfolding three by (auto simp: length_Suc_conv numeral_2_eq_2)
  moreover have "CompromiseProbability 3 2 (int (card {0, 1 :: int})) = (Some (1 / 3), Some 1)" by (simp add: CompromiseProbability_def Let_def upt_rec)
  ultimately show ?thesis using compromise_probability_exact [of ?paths 2 3 "{0, 1}"] by simp
qed

section \<open>The area under the curve\<close>

text \<open>What a rank is: the mean place among the equal values.\<close>

definition midRank :: "real list \<Rightarrow> real \<Rightarrow> real" where
  "midRank vs v = (real (length (filter (\<lambda>x. x < v) vs)) + real (length (filter (\<lambda>x. x \<le> v) vs)) + 1) / 2"

lemma tieRanks_midRank:
  assumes "sorted (us @ vs)" "\<And>u v. u \<in> set us \<Longrightarrow> v \<in> set vs \<Longrightarrow> u < v"
  shows "tieRanks (length us) vs = map (midRank (us @ vs)) vs"
  using assms
proof (induction "length us" vs arbitrary: us rule: tieRanks.induct)
  case (2 v vs)
  let ?same = "takeWhile (\<lambda>x. x = v) vs"
  define g rst where "g = length ?same" and "rst = dropWhile (\<lambda>x. x = v) vs"
  have same: "?same = replicate g v" by (rule replicate_eqI) (auto simp: g_def dest: set_takeWhileD)
  have rest: "drop g vs = rst" unfolding g_def rst_def by (simp add: dropWhile_eq_drop)
  have vs: "vs = replicate g v @ rst" using same takeWhile_dropWhile_id [of "\<lambda>x. x = v" vs] by (simp add: rst_def)
  have sorted: "sorted vs" "\<And>x. x \<in> set vs \<Longrightarrow> v \<le> x" using "2.prems"(1) by (simp_all add: sorted_append)
  have above: "v < x" if x: "x \<in> set rst" for x
  proof -
    obtain y ys where y: "rst = y # ys" using x by (cases rst) auto
    have "y \<noteq> v" "y \<in> set vs" using y hd_dropWhile [of "\<lambda>x. x = v" vs] set_dropWhileD [of y "\<lambda>x. x = v" vs] unfolding rst_def by auto
    then have "v < y" using sorted(2) by force
    moreover have "sorted (y # ys)" using sorted_dropWhile [OF sorted(1), of "\<lambda>x. x = v"] y by (simp add: rst_def)
    ultimately show ?thesis using x y by auto
  qed
  have below: "u < v" if "u \<in> set us" for u using "2.prems"(2) that by simp
  let ?us = "us @ replicate (Suc g) v"
  have all: "?us @ rst = us @ v # vs" using vs by simp
  have "u < x" if u: "u \<in> set ?us" and x: "x \<in> set rst" for u x
  proof -
    have "u \<le> v" using u below by fastforce
    then show ?thesis using above [OF x] by simp
  qed
  then have "tieRanks (length ?us) rst = map (midRank (?us @ rst)) rst"
    using "2.hyps" [OF g_def, of ?us] "2.prems"(1) all rest by simp
  moreover have "midRank (us @ v # vs) v = real (length us + (length us + g)) / 2 + 1"
  proof -
    have "filter (\<lambda>x. x < v) (us @ v # vs) = us" "filter (\<lambda>x. x \<le> v) (us @ v # vs) = ?us"
      unfolding all [symmetric] using less_imp_le [OF below] above by (simp_all add: filter_id_conv filter_empty_conv below not_le) (auto dest: less_asym)
    then show ?thesis by (simp add: midRank_def field_simps)
  qed
  moreover have "v # vs = replicate (Suc g) v @ rst" using vs by simp
  then have "map (midRank (us @ v # vs)) (v # vs) = replicate (Suc g) (midRank (us @ v # vs) v) @ map (midRank (us @ v # vs)) rst"
    using arg_cong [where f = "map (midRank (us @ v # vs))"] by (metis map_append map_replicate)
  ultimately show ?case unfolding tieRanks.simps Let_def g_def [symmetric] rest all by simp
qed simp

text \<open>A sum over the pairs of two lists, and its symmetric half.\<close>

lemma count_sum: "real (length (filter P xs)) = (\<Sum>x\<leftarrow>xs. if P x then 1 else 0)"
  by (induction xs) auto

lemma sum_list_swap: "(\<Sum>x\<leftarrow>xs. \<Sum>y\<leftarrow>ys. f x y :: real) = (\<Sum>y\<leftarrow>ys. \<Sum>x\<leftarrow>xs. f x y)"
  by (induction xs) (simp_all add: sum_list_addf)

lemma midRank_sum: "midRank xs v = 1 / 2 * ((\<Sum>x\<leftarrow>xs. if x < v then 1 else 0) + (\<Sum>x\<leftarrow>xs. if x \<le> v then 1 else 0) + 1)"
  by (simp add: midRank_def count_sum)

lemma midRanks_own: "(\<Sum>v\<leftarrow>vs. midRank vs v) = real (length vs) * (real (length vs) + 1) / 2"
proof -
  have "(\<Sum>v\<leftarrow>vs. \<Sum>x\<leftarrow>vs. if x < v then 1 else 0) + (\<Sum>v\<leftarrow>vs. \<Sum>x\<leftarrow>vs. if x \<le> v then 1 else 0)
      = (\<Sum>v\<leftarrow>vs. \<Sum>x\<leftarrow>vs. if v < x then 1 else (0 :: real)) + (\<Sum>v\<leftarrow>vs. \<Sum>x\<leftarrow>vs. if x \<le> v then 1 else 0)"
    by (subst sum_list_swap) simp
  also have "\<dots> = (\<Sum>v\<leftarrow>vs. \<Sum>x\<leftarrow>vs. 1)"
    unfolding sum_list_addf [symmetric] by (intro arg_cong [where f = sum_list] map_cong refl) auto
  also have "\<dots> = real (length vs) * real (length vs)" by (simp add: sum_list_triv)
  finally show ?thesis unfolding midRank_sum sum_list_const_mult sum_list_addf by (simp add: sum_list_triv algebra_simps)
qed

text \<open>
  The points of a ranking: a pair of a true and a false score counts one where the true one is higher and a half
  where they tie.
\<close>

definition pairPoints :: "Score list \<Rightarrow> real" where
  "pairPoints scores =
     (\<Sum>s\<leftarrow>filter sc_True scores. \<Sum>t\<leftarrow>filter (\<lambda>t. \<not> sc_True t) scores. if sc_Value t < sc_Value s then 1 else if sc_Value t = sc_Value s then 1 / 2 else 0)"

lemma midRank_split: "midRank (map f xs) v = midRank (map f (filter P xs)) v
    + (\<Sum>t\<leftarrow>filter (\<lambda>t. \<not> P t) xs. if f t < v then 1 else if f t = v then 1 / 2 else 0)"
  by (induction xs) (auto simp: midRank_def field_simps)

lemma zip_ranks: "(\<Sum>(s, r)\<leftarrow>zip xs (map g xs). if P s then r else 0) = (\<Sum>s\<leftarrow>filter P xs. g s :: real)"
  by (induction xs) auto

lemma AUC_sorted:
  "(\<Sum>(s, r)\<leftarrow>zip xs (tieRanks 0 (map sc_Value xs)). if sc_True s then r else 0)
     = real (length (filter sc_True xs)) * (real (length (filter sc_True xs)) + 1) / 2 + pairPoints xs" if "sorted (map sc_Value xs)"
proof -
  let ?pos = "filter sc_True xs"
  have "tieRanks 0 (map sc_Value xs) = map (\<lambda>s. midRank (map sc_Value xs) (sc_Value s)) xs"
    using tieRanks_midRank [of "[]" "map sc_Value xs"] that by simp
  then have "(\<Sum>(s, r)\<leftarrow>zip xs (tieRanks 0 (map sc_Value xs)). if sc_True s then r else 0) = (\<Sum>s\<leftarrow>?pos. midRank (map sc_Value xs) (sc_Value s))"
    by (simp add: zip_ranks)
  also have "\<dots> = (\<Sum>s\<leftarrow>?pos. midRank (map sc_Value ?pos) (sc_Value s)) + pairPoints xs"
    unfolding pairPoints_def sum_list_addf [symmetric] by (subst midRank_split [where P = sc_True]) simp
  also have "(\<Sum>s\<leftarrow>?pos. midRank (map sc_Value ?pos) (sc_Value s)) = real (length ?pos) * (real (length ?pos) + 1) / 2"
    using midRanks_own [of "map sc_Value ?pos"] by (simp add: comp_def)
  finally show ?thesis .
qed

lemma sum_list_mset: "mset xs = mset ys \<Longrightarrow> (\<Sum>x\<leftarrow>xs. f x :: real) = (\<Sum>y\<leftarrow>ys. f y)"
  by (metis mset_map sum_mset_sum_list)

lemma pairPoints_mset:
  assumes "mset xs = mset ys"
  shows "pairPoints xs = pairPoints ys"
proof -
  have perm: "mset (filter P xs) = mset (filter P ys)" for P using assms by simp
  show ?thesis unfolding pairPoints_def sum_list_mset [OF perm [of "\<lambda>t. \<not> sc_True t"]] by (rule sum_list_mset [OF perm])
qed

lemma auc_value:
  "AUC scores =
     (let positives = length (filter sc_True scores); negatives = length (filter (\<lambda>s. \<not> sc_True s) scores)
      in if positives * negatives = 0 then None else Some (pairPoints scores / real (positives * negatives)))"
proof -
  let ?xs = "sort_key sc_Value scores"
  have perm: "mset ?xs = mset scores" by simp
  then have len: "length (filter P ?xs) = length (filter P scores)" for P by (metis mset_filter size_mset)
  have "sorted (map sc_Value ?xs)" by simp
  then show ?thesis
    unfolding AUC_def Let_def by (simp add: AUC_sorted len pairPoints_mset [OF perm])
qed

text \<open>
  C36: the area under the curve is the share of the pairs ranked right. For any list of scores the value computed
  from the mean ranks is the number of pairs of a true and a false score in which the true one is higher, with
  ties as half a pair, over the number of such pairs; it is not a number exactly when there is no such pair.
\<close>

theorem auc_counts_pairs:
  "AUC scores =
     (let positives = length (filter sc_True scores); negatives = length (filter (\<lambda>s. \<not> sc_True s) scores)
      in if positives * negatives = 0 then None else Some (pairPoints scores / real (positives * negatives)))"
  by (rule auc_value)

lemma pairPoints_bounds: "0 \<le> pairPoints scores" "pairPoints scores \<le> real (length (filter sc_True scores) * length (filter (\<lambda>s. \<not> sc_True s) scores))"
proof -
  let ?p = "filter sc_True scores" and ?n = "filter (\<lambda>t. \<not> sc_True t) scores"
  let ?f = "\<lambda>s t. if sc_Value t < sc_Value s then 1 else if sc_Value t = sc_Value s then 1 / 2 else (0 :: real)"
  show "0 \<le> pairPoints scores" unfolding pairPoints_def by (intro sum_list_nonneg) (auto intro!: sum_list_nonneg)
  have "(\<Sum>t\<leftarrow>?n. ?f s t) \<le> (\<Sum>t\<leftarrow>?n. 1)" for s by (intro sum_list_mono) auto
  then have "(\<Sum>s\<leftarrow>?p. \<Sum>t\<leftarrow>?n. ?f s t) \<le> (\<Sum>s\<leftarrow>?p. real (length ?n))" by (intro sum_list_mono) (simp add: sum_list_triv)
  then show "pairPoints scores \<le> real (length ?p * length ?n)" by (simp add: pairPoints_def sum_list_triv)
qed

section \<open>Correlations\<close>

lemma cauchy_schwarz: "(\<Sum>i\<leftarrow>is. f i * g i :: real)\<^sup>2 \<le> (\<Sum>i\<leftarrow>is. f i * f i) * (\<Sum>i\<leftarrow>is. g i * g i)"
proof -
  define N A D where "N = (\<Sum>i\<leftarrow>is. f i * g i)" and "A = (\<Sum>i\<leftarrow>is. f i * f i)" and "D = (\<Sum>i\<leftarrow>is. g i * g i)"
  have "0 \<le> D" unfolding D_def by (intro sum_list_nonneg) auto
  have "0 \<le> (\<Sum>i\<leftarrow>is. (D * f i - N * g i) * (D * f i - N * g i))" by (intro sum_list_nonneg) auto
  also have "(\<Sum>i\<leftarrow>is. (d * f i - n * g i) * (d * f i - n * g i)) = d * d * (\<Sum>i\<leftarrow>is. f i * f i) - 2 * d * n * (\<Sum>i\<leftarrow>is. f i * g i) + n * n * (\<Sum>i\<leftarrow>is. g i * g i)" for d n
    by (induction "is") (simp_all add: algebra_simps)
  also have "D * D * (\<Sum>i\<leftarrow>is. f i * f i) - 2 * D * N * (\<Sum>i\<leftarrow>is. f i * g i) + N * N * (\<Sum>i\<leftarrow>is. g i * g i) = D * (A * D - N\<^sup>2)"
    unfolding N_def [symmetric] A_def [symmetric] D_def [symmetric] by (simp add: algebra_simps power2_eq_square)
  finally have pos: "0 \<le> D * (A * D - N\<^sup>2)" .
  have "N\<^sup>2 \<le> A * D"
  proof (cases "D = 0")
    case True
    have "g i = 0" if "i \<in> set is" for i
      using True that sum_list_nonneg_eq_0_iff [of "map (\<lambda>i. g i * g i) is"] unfolding D_def by fastforce
    then have "N = 0" unfolding N_def by (induction "is") auto
    then show ?thesis using True by simp
  next
    case False
    then show ?thesis using pos \<open>0 \<le> D\<close> by (simp add: zero_le_mult_iff)
  qed
  then show ?thesis by (simp add: N_def A_def D_def)
qed

lemma Pearson_bounds:
  assumes "Pearson a b = Some v"
  shows "-1 \<le> v \<and> v \<le> 1"
proof -
  let ?n = "min (length a) (length b)"
  define ma mb where "ma = (\<Sum>i\<leftarrow>[0..<?n]. a ! i) / real ?n" and "mb = (\<Sum>i\<leftarrow>[0..<?n]. b ! i) / real ?n"
  define num da db where "num = (\<Sum>i\<leftarrow>[0..<?n]. (a ! i - ma) * (b ! i - mb))"
    and "da = (\<Sum>i\<leftarrow>[0..<?n]. (a ! i - ma) * (a ! i - ma))" and "db = (\<Sum>i\<leftarrow>[0..<?n]. (b ! i - mb) * (b ! i - mb))"
  have v: "v = num / sqrt (da * db)" "da \<noteq> 0" "db \<noteq> 0"
    using assms by (auto simp: Pearson_def Let_def num_def da_def db_def ma_def mb_def split: if_splits)
  have nonneg: "0 \<le> da" "0 \<le> db" unfolding da_def db_def by (intro sum_list_nonneg; auto)+
  have "num\<^sup>2 \<le> da * db" unfolding num_def da_def db_def by (rule cauchy_schwarz)
  then have "\<bar>num\<bar> \<le> sqrt (da * db)" using real_sqrt_le_mono [of "num\<^sup>2" "da * db"] by simp
  moreover have "0 < sqrt (da * db)" using v(2,3) nonneg by simp
  ultimately have "\<bar>v\<bar> \<le> 1" by (simp add: v(1) abs_divide)
  then show ?thesis by linarith
qed

lemma mathRound_ge: "x - 1 \<le> real_of_int (mathRound x)"
  by (auto simp: mathRound_def) linarith+

lemma scoreOf_undefined: "sc_Value (scoreOf truth i j (Pearson a b)) = undefinedScore \<longleftrightarrow> Pearson a b = None"
proof (cases "Pearson a b")
  case None
  have "mathRound (- 2000000000) = - 2000000000" by (simp add: mathRound_def)
  then show ?thesis using None by (simp add: scoreOf_def undefinedScore_def)
next
  case (Some v)
  have "real_of_int (mathRound (v * 10 ^ 9)) > - 2000000000" using Pearson_bounds [OF Some] mathRound_ge [of "v * 10 ^ 9"] by simp
  then show ?thesis using Some by (simp add: scoreOf_def undefinedScore_def)
qed

text \<open>The pairs counted as undefined are those without a correlation: every correlation is above their place in the ranking.\<close>

lemma undefined_pairs_counted:
  "UndefinedPairs (ScorePairs entry exit truth) = length (filter (\<lambda>(i, j). Pearson (entry ! i) (exit ! j) = None) (List.product [0..<length entry] [0..<length exit]))"
proof -
  have pairs: "ScorePairs entry exit truth = map (\<lambda>(i, j). scoreOf truth i j (Pearson (entry ! i) (exit ! j))) (List.product [0..<length entry] [0..<length exit])"
    unfolding ScorePairs_def by (simp add: product_concat_map map_concat comp_def)
  show ?thesis unfolding UndefinedPairs_def pairs filter_map length_map by (simp add: comp_def scoreOf_undefined case_prod_unfold)
qed

section \<open>The interval\<close>

lemma AUC_bounds: "AUC scores = Some v \<Longrightarrow> 0 \<le> v \<and> v \<le> 1"
  using pairPoints_bounds [of scores] unfolding auc_value
  by (auto simp: Let_def divide_le_eq split: if_splits)

lemma quantile_between:
  assumes "sorted xs" "xs \<noteq> []"
  shows "xs ! 0 \<le> quantile xs p \<and> quantile xs p \<le> xs ! (length xs - 1)"
proof (cases "0 < p \<and> p < 1")
  case True
  define pos lo hi where "pos = p * real (length xs - 1)" and "lo = nat \<lfloor>pos\<rfloor>" and "hi = nat \<lceil>pos\<rceil>"
  have pos: "0 \<le> pos" "pos \<le> real (length xs - 1)" using True mult_left_le_one_le [of "real (length xs - 1)" p] by (simp_all add: pos_def)
  have lo: "real lo \<le> pos" "pos \<le> real lo + 1" "lo \<le> hi" using pos(1) by (simp_all add: lo_def hi_def) linarith+
  have "hi \<le> length xs - 1" using pos by (simp add: hi_def ceiling_le_iff)
  then have hi: "lo < length xs" "hi < length xs" "hi \<le> length xs - 1" "length xs - 1 < length xs" using assms(2) lo(3) by (cases xs; simp)+
  have order: "xs ! 0 \<le> xs ! lo" "xs ! lo \<le> xs ! hi" "xs ! hi \<le> xs ! (length xs - 1)"
    using sorted_nth_mono [OF assms(1)] lo(3) hi by blast+
  define d where "d = (pos - real lo) * (xs ! hi - xs ! lo)"
  have "0 \<le> d" "d \<le> 1 * (xs ! hi - xs ! lo)" unfolding d_def using lo order(2) by (intro mult_nonneg_nonneg mult_right_mono; simp)+
  moreover have "quantile xs p = xs ! lo + d"
    using True unfolding d_def quantile_def Let_def pos_def [symmetric] lo_def [symmetric] hi_def [symmetric] by simp
  ultimately show ?thesis using order by auto
next
  case False
  then show ?thesis using assms by (auto simp: quantile_def intro!: sorted_nth_mono)
qed

lemma resampled_bounds: "v \<in> set (resampled groups flows draws resamples) \<Longrightarrow> 0 \<le> v \<and> v \<le> 1"
  by (auto simp: resampled_def List.map_filter_def dest: AUC_bounds)

text \<open>Whatever the generator draws, an interval lies within the values an area can take.\<close>

lemma bootstrap_within:
  assumes "BootstrapAUC erf erfinv draws scores flows resamples = Inr iv" "iv_Low iv = Some x \<or> iv_High iv = Some x"
  shows "0 \<le> x \<and> x \<le> 1"
proof -
  define xs where "xs = sort (resampled (byEntry scores flows) flows draws resamples)"
  have nth: "0 \<le> xs ! i \<and> xs ! i \<le> 1" if "i < length xs" for i using that nth_mem [of i xs] resampled_bounds by (auto simp: xs_def)
  have "0 \<le> quantile xs p \<and> quantile xs p \<le> 1" if "xs \<noteq> []" for p
    using quantile_between [of xs p] nth [of 0] nth [of "length xs - 1"] that by (fastforce simp: xs_def)
  then show ?thesis
    using assms nth [of 0] by (auto simp: BootstrapAUC_def Let_def xs_def [symmetric] split: option.splits if_splits)
qed

section \<open>The median\<close>

lemma filter_prefix: "(\<And>i. i < j \<Longrightarrow> P (xs ! i)) \<Longrightarrow> j \<le> length xs \<Longrightarrow> j \<le> length (filter P xs)"
proof -
  assume P: "\<And>i. i < j \<Longrightarrow> P (xs ! i)" and j: "j \<le> length xs"
  have "filter P (take j xs) = take j xs" using P j by (auto simp: filter_id_conv in_set_conv_nth)
  moreover have "filter P xs = filter P (take j xs) @ filter P (drop j xs)" by (metis append_take_drop_id filter_append)
  ultimately show ?thesis using j by (metis length_append length_take le_add1 min.absorb2)
qed

lemma filter_suffix: "(\<And>i. j \<le> i \<Longrightarrow> i < length xs \<Longrightarrow> P (xs ! i)) \<Longrightarrow> length xs - j \<le> length (filter P xs)"
proof -
  assume P: "\<And>i. j \<le> i \<Longrightarrow> i < length xs \<Longrightarrow> P (xs ! i)"
  have "filter P (drop j xs) = drop j xs" using P by (auto simp: filter_id_conv in_set_conv_nth)
  moreover have "filter P xs = filter P (take j xs) @ filter P (drop j xs)" by (metis append_take_drop_id filter_append)
  ultimately show ?thesis by (metis length_append length_drop le_add2)
qed

text \<open>Half of the values are not above the median, and half are not below it.\<close>

lemma median_splits:
  assumes "Median (map Some xs) = Some m"
  shows "length xs \<le> 2 * length (filter (\<lambda>x. x \<le> m) xs) \<and> length xs \<le> 2 * length (filter (\<lambda>x. m \<le> x) xs)"
proof -
  define ys mid where "ys = sort xs" and "mid = length xs div 2"
  have "sortFloats (map Some xs) = map Some ys" by (simp add: sortFloats_def List.map_filter_def comp_def ys_def filter_empty_conv)
  moreover have ys: "length ys = length xs" "sorted ys" by (simp_all add: ys_def)
  moreover have ne: "xs \<noteq> []" using assms by (auto simp: Median_def)
  moreover have mid: "mid < length ys" "mid - 1 < length ys" "0 < mid \<or> length xs mod 2 = 1" using ne ys(1) by (cases xs; auto simp: mid_def)+
  ultimately have m: "if length xs mod 2 = 1 then m = ys ! mid else m = (ys ! (mid - 1) + ys ! mid) / 2"
    using assms by (simp add: Median_def Let_def mid_def split: if_splits)
  have mono: "i \<le> j \<Longrightarrow> j < length ys \<Longrightarrow> ys ! i \<le> ys ! j" for i j using ys(2) by (rule sorted_nth_mono)
  define a where "a = (if length xs mod 2 = 1 then mid else mid - 1)"
  have a: "ys ! a \<le> m" "m \<le> ys ! mid" "a < length ys" using m mid mono [of "mid - 1" mid] by (auto simp: a_def split: if_splits)
  have low: "ys ! i \<le> m" if "2 * i < length ys" for i
  proof -
    have "i \<le> a" using that mid(3) ys(1) unfolding a_def mid_def by auto
    then show ?thesis using mono [of i a] a by simp
  qed
  have high: "m \<le> ys ! i" if "length ys \<le> 2 * i + 1" "i < length ys" for i
  proof -
    have "mid \<le> i" using that ys(1) unfolding mid_def by auto
    then show ?thesis using mono [of mid i] a that(2) by simp
  qed
  have "length (filter (\<lambda>x. x \<le> m) ys) = length (filter (\<lambda>x. x \<le> m) xs)" "length (filter (\<lambda>x. m \<le> x) ys) = length (filter (\<lambda>x. m \<le> x) xs)"
    unfolding ys_def by (metis mset_filter mset_sort size_mset)+
  moreover have "(length ys + 1) div 2 \<le> length (filter (\<lambda>x. x \<le> m) ys)" by (rule filter_prefix) (use low in auto)
  moreover have "length ys - length ys div 2 \<le> length (filter (\<lambda>x. m \<le> x) ys)" by (rule filter_suffix) (use high in auto)
  ultimately show ?thesis using ys(1) by auto
qed

end
