(* ===== verification/LabRun.thy ===== *)
theory LabRun
  imports "HOL-Library.AList" Limiter Lab Metrics ClientCmd
begin

text \<open>
  \<^verbatim>\<open>cmd/lab\<close> and the bookkeeping of \<^verbatim>\<open>lab/harness.go\<close>: the sets of configurations, the paths set with its
  measured and expected shares, the messages in flight and their latencies, what is computed from one run and how
  runs are summarised. The parts \<^verbatim>\<open>Execute\<close> starts are those of the other theories; printing, files and clocks are
  left out, and \<^verbatim>\<open>time.ParseDuration\<close> is an argument. The theorems show that every attempt, every message and every run is
  accounted for exactly once.
\<close>

section \<open>The configurations\<close>

record labConfig =
  lc_Hops :: int
  lc_Flows :: int
  lc_Duration :: int
  lc_SendEvery :: int
  lc_CoverEvery :: int
  lc_Mode :: Mode
  lc_Rate :: int
  lc_Jitter :: int
  lc_RelayPeriod :: int
  lc_Suite :: suite
  lc_Payload :: int
  lc_Seed :: u64

definition zeroConfig :: labConfig where
  "zeroConfig =
     \<lparr>lc_Hops = 0, lc_Flows = 0, lc_Duration = 0, lc_SendEvery = 0, lc_CoverEvery = 0, lc_Mode = 0, lc_Rate = 0, lc_Jitter = 0,
      lc_RelayPeriod = 0, lc_Suite = 0, lc_Payload = 0, lc_Seed = 0\<rparr>"

definition withDefaults :: "labConfig \<Rightarrow> labConfig" where
  "withDefaults c =
     c\<lparr>lc_Hops := (if lc_Hops c = 0 then 3 else lc_Hops c), lc_Flows := (if lc_Flows c = 0 then 5 else lc_Flows c),
       lc_Duration := (if lc_Duration c = 0 then 20 * Second else lc_Duration c),
       lc_SendEvery := (if lc_SendEvery c = 0 then 200 * Millisecond else lc_SendEvery c),
       lc_Suite := (if lc_Suite c = 0 then SuiteC25519 else lc_Suite c), lc_Payload := (if lc_Payload c = 0 then 128 else lc_Payload c)\<rparr>"

definition fixedVariant :: "int \<Rightarrow> string \<times> labConfig" where
  "fixedVariant ms = (''fixed-'' @ showInt ms @ ''ms'', zeroConfig\<lparr>lc_Mode := ConstantRate, lc_Rate := ms * Millisecond\<rparr>)"

definition pacedVariants :: "int \<Rightarrow> (string \<times> labConfig) list" where
  "pacedVariants ms =
     (let d = ms * Millisecond; node = d * 95 div 100 in
      [fixedVariant ms,
       (''relay-'' @ showInt ms @ ''ms'', zeroConfig\<lparr>lc_RelayPeriod := node\<rparr>),
       (''both-'' @ showInt ms @ ''ms'', zeroConfig\<lparr>lc_Mode := ConstantRate, lc_Rate := d, lc_RelayPeriod := node\<rparr>)])"

definition variantSet :: "string \<Rightarrow> (string \<times> labConfig) list" where
  "variantSet name =
     (if name = ''paced'' then (''none'', zeroConfig) # concat (map pacedVariants [70, 35])
      else if name = ''rates'' then (''none'', zeroConfig) # map fixedVariant [200, 140, 100, 70, 50, 35, 25]
      else
        [(''none'', zeroConfig), (''add-0.5x'', zeroConfig\<lparr>lc_CoverEvery := 400 * Millisecond\<rparr>),
         (''add-1x'', zeroConfig\<lparr>lc_CoverEvery := 200 * Millisecond\<rparr>), (''add-2x'', zeroConfig\<lparr>lc_CoverEvery := 100 * Millisecond\<rparr>),
         (''fixed-1x'', zeroConfig\<lparr>lc_Mode := ConstantRate, lc_Rate := 200 * Millisecond\<rparr>),
         (''fixed-2x'', zeroConfig\<lparr>lc_Mode := ConstantRate, lc_Rate := 100 * Millisecond\<rparr>),
         (''fixed-4x'', zeroConfig\<lparr>lc_Mode := ConstantRate, lc_Rate := 50 * Millisecond\<rparr>)])"

fun parseBins :: "(string \<Rightarrow> int option) \<Rightarrow> string list \<Rightarrow> int list result" where
  "parseBins parse [] = Inr []"
| "parseBins parse (f # fs) =
     (case parse (TrimSpace f) of
        None \<Rightarrow> Inl (Message ''time: invalid duration'')
      | Some d \<Rightarrow>
          if d \<le> 0 then Inl (Message ''window must be positive'')
          else case parseBins parse fs of Inl e \<Rightarrow> Inl e | Inr ds \<Rightarrow> Inr (d # ds))"

definition parseBinList :: "(string \<Rightarrow> int option) \<Rightarrow> string \<Rightarrow> int list result" where
  "parseBinList parse s = parseBins parse (splitOn (CHR '','') s)"

section \<open>The paths set\<close>

record pathsConfig =
  pc_nodes :: int
  pc_hops :: int
  pc_rogue :: int
  pc_missing :: int
  pc_leftOut :: int
  pc_withheld :: int
  pc_samples :: int
  pc_seed :: u64

text \<open>The result without the fields that repeat the configuration.\<close>

record pathsResult =
  pr_Chains :: nat
  pr_Refused :: real
  pr_RefusedExpected :: f64
  pr_RefusedStdErr :: f64
  pr_Failed :: real
  pr_FailedExpected :: f64
  pr_FailedStdErr :: f64
  pr_Ends :: f64
  pr_EndsExpected :: f64
  pr_EndsStdErr :: f64
  pr_Touched :: f64
  pr_TouchedExpected :: f64
  pr_TouchedStdErr :: f64
  pr_EndsUniform :: f64
  pr_TouchedUniform :: f64

definition mirrorsOf :: "pathsConfig \<Rightarrow> bool list list" where
  "mirrorsOf c =
     map (\<lambda>entry. map (\<lambda>node. if int entry < pc_rogue c then int node < pc_nodes c - pc_leftOut c else int node \<ge> pc_withheld c)
         [0..<nat (pc_nodes c)]) [0..<nat (pc_nodes c)]"

definition extendsOf :: "pathsConfig \<Rightarrow> bool list list" where
  "extendsOf c =
     map (\<lambda>(node, row). if int node < pc_rogue c then map (\<lambda>_. True) row else row) (zip [0..<length (mirrorsOf c)] (mirrorsOf c))"

definition checkPaths :: "pathsConfig \<Rightarrow> unit result" where
  "checkPaths c =
     (if pc_samples c < 1 then Inl (Message ''-samples: want at least 1'')
      else if pc_rogue c < 0 \<or> pc_rogue c > pc_nodes c then Inl (Message ''-rogue: want between 0 and -nodes'')
      else if pc_missing c < 0 then Inl (Message ''-missing: must not be negative'')
      else if pc_leftOut c < 0 \<or> pc_leftOut c > pc_nodes c - pc_rogue c then Inl (Message ''-leftout: want between 0 and the honest nodes'')
      else if pc_withheld c < 0 \<or> pc_withheld c > pc_rogue c then Inl (Message ''-withhold: want between 0 and -rogue'')
      else Inr ())"

definition pathsFigures :: "pathsConfig \<Rightarrow> int list list \<Rightarrow> nat \<Rightarrow> nat \<Rightarrow> pathsResult" where
  "pathsFigures c paths refused failed =
     (let held = (\<lambda>node. 0 \<le> node \<and> node < pc_rogue c); samples = real_of_int (pc_samples c);
          (ends, touched) = CompromiseFraction paths held;
          (endsE, touchedE, refusedE, failedE) =
            MirrorCompromiseProbability (pc_nodes c) (pc_hops c) (pc_rogue c) (pc_missing c) (pc_leftOut c) (pc_withheld c);
          (endsU, touchedU) = CompromiseProbability (pc_nodes c) (pc_hops c) (pc_rogue c)
      in \<lparr>pr_Chains = length paths,
          pr_Refused = real refused / samples, pr_RefusedExpected = refusedE, pr_RefusedStdErr = BinomialStdErr refusedE (pc_samples c),
          pr_Failed = real failed / samples, pr_FailedExpected = failedE, pr_FailedStdErr = BinomialStdErr failedE (pc_samples c),
          pr_Ends = ends, pr_EndsExpected = endsE, pr_EndsStdErr = BinomialStdErr endsE (int (length paths)),
          pr_Touched = touched, pr_TouchedExpected = touchedE, pr_TouchedStdErr = BinomialStdErr touchedE (int (length paths)),
          pr_EndsUniform = endsU, pr_TouchedUniform = touchedU\<rparr>)"

definition samplePaths :: "(u64 \<Rightarrow> bytes) \<Rightarrow> pathsConfig \<Rightarrow> pathsResult result" where
  "samplePaths gen c =
     (case checkPaths c of
        Inl e \<Rightarrow> Inl e
      | Inr _ \<Rightarrow>
          (case SampleMirrorPaths gen (mirrorsOf c) (pc_hops c) (pc_missing c) (pc_samples c) (pc_seed c) of
             Inl e \<Rightarrow> Inl e
           | Inr (chosen, refused) \<Rightarrow>
               (case SurvivingPaths chosen (extendsOf c) of
                  Inl e \<Rightarrow> Inl e
                | Inr (paths, failed) \<Rightarrow>
                    if paths = [] then Inl (Message ''none of the attempts gave a chain that came up'')
                    else Inr (pathsFigures c paths refused failed))))"

section \<open>Messages in flight\<close>

record Closure =
  co_Closed :: bool
  co_At :: int

record latencyCollector =
  la_start :: int
  la_sent :: "(u64 \<times> int) list list"
  la_out :: "int list"
  la_closed :: "Closure list"

definition flowField :: nat where "flowField = 2"

definition seqField :: nat where "seqField = 8"

definition newLatency :: "nat \<Rightarrow> int \<Rightarrow> latencyCollector" where
  "newLatency clients start =
     \<lparr>la_start = start, la_sent = replicate clients [], la_out = [], la_closed = replicate clients \<lparr>co_Closed = False, co_At = 0\<rparr>\<rparr>"

text \<open>One turn of the goroutine that \<^verbatim>\<open>newLatency\<close> starts for a flow: a reply, or the end of its replies.\<close>

definition latency_reply :: "nat \<Rightarrow> bytes \<Rightarrow> int \<Rightarrow> latencyCollector \<Rightarrow> latencyCollector" where
  "latency_reply flow reply now l =
     (if length reply < flowField + seqField then l
      else
        let seq = Uint64 (take seqField (drop flowField reply)) in
        case map_of (la_sent l ! flow) seq of
          None \<Rightarrow> l
        | Some t \<Rightarrow> l\<lparr>la_out := la_out l @ [now - t], la_sent := (la_sent l)[flow := AList.delete seq (la_sent l ! flow)]\<rparr>)"

definition latency_end :: "nat \<Rightarrow> int \<Rightarrow> latencyCollector \<Rightarrow> latencyCollector" where
  "latency_end flow now l = l\<lparr>la_closed := (la_closed l)[flow := \<lparr>co_Closed = True, co_At = now - la_start l\<rparr>]\<rparr>"

definition latency_mark :: "nat \<Rightarrow> u64 \<Rightarrow> int \<Rightarrow> latencyCollector \<Rightarrow> latencyCollector" where
  "latency_mark flow seq now l = l\<lparr>la_sent := (la_sent l)[flow := AList.update seq now (la_sent l ! flow)]\<rparr>"

definition pending :: "latencyCollector \<Rightarrow> nat" where
  "pending l = sum_list (map length (la_sent l))"

definition closures :: "latencyCollector \<Rightarrow> Closure list" where
  "closures l = la_closed l"

definition samples :: "latencyCollector \<Rightarrow> int list" where
  "samples l = la_out l"

text \<open>The payload of a message in \<^verbatim>\<open>runFlows\<close>: the flow, the number and zeros.\<close>

definition flowPayload :: "int \<Rightarrow> nat \<Rightarrow> u64 \<Rightarrow> bytes" where
  "flowPayload sz flow seq =
     PutUint16 (word_of_nat flow) @ PutUint64 seq @ replicate (nat (max sz (int (flowField + seqField))) - (flowField + seqField)) 0"

section \<open>What is computed from a run\<close>

record Run =
  ru_Duration :: int
  ru_Entry :: "Trace list"
  ru_Exit :: "Trace list"
  ru_EntryBack :: "Trace list"
  ru_ExitBack :: "Trace list"
  ru_Sent :: int
  ru_Dropped :: nat
  ru_RelayDropped :: nat
  ru_RelayBroken :: nat
  ru_BrokenFlows :: nat
  ru_Closures :: "Closure list"
  ru_RelayTimedOut :: nat
  ru_RelayExpired :: nat
  ru_RelayRefused :: nat
  ru_Origin :: int
  ru_Latency :: "int list"
  ru_Unanswered :: nat

definition addRelay :: "Counters \<Rightarrow> Run \<Rightarrow> Run" where
  "addRelay c r =
     r\<lparr>ru_RelayDropped := ru_RelayDropped r + Dropped c, ru_RelayBroken := ru_RelayBroken r + Broken c,
       ru_RelayTimedOut := ru_RelayTimedOut r + TimedOut c, ru_RelayExpired := ru_RelayExpired r + Expired c,
       ru_RelayRefused := ru_RelayRefused r + (RefusedLinks c + RefusedBusy c + RefusedSource c + RefusedRate c + RefusedSetups c)\<rparr>"

definition sinceOrigin :: "Trace list \<Rightarrow> int \<Rightarrow> int list list" where
  "sinceOrigin traces origin = map (\<lambda>t. map (\<lambda>e. e - origin) (filter (\<lambda>e. e \<ge> origin) (t_events t))) traces"

text \<open>The fields that repeat the configuration, and the times of closed flows as text, are left out.\<close>

record labResult =
  lr_Traffic :: string
  lr_Bin :: int
  lr_Suite :: string
  lr_Cells :: nat
  lr_Messages :: int
  lr_Multiplier :: f64
  lr_EntryBackMultiplier :: f64
  lr_RelayMultiplier :: f64
  lr_RelayBackMultiplier :: f64
  lr_AUC :: f64
  lr_AUCLow :: f64
  lr_AUCHigh :: f64
  lr_TPR :: f64
  lr_TopOne :: f64
  lr_UndefinedPairs :: nat
  lr_CIDegenerate :: bool
  lr_DropRate :: f64
  lr_RelayDroppedCells :: nat
  lr_LatencySamples :: nat
  lr_Unanswered :: nat
  lr_P50 :: "int option"
  lr_P95 :: "int option"
  lr_P99 :: "int option"
  lr_RelayBrokenCircuits :: nat
  lr_BrokenFlows :: nat
  lr_FlowClosed :: "bool list"
  lr_RelayTimedOut :: nat
  lr_RelayExpired :: nat
  lr_RelayRefused :: nat

text \<open>A percentile is rounded to a microsecond before it is printed; \<open>None\<close> is the empty text.\<close>

definition percentile :: "int list \<Rightarrow> real \<Rightarrow> int option" where
  "percentile latencies q = (case Percentile latencies (Some q) of None \<Rightarrow> None | Some v \<Rightarrow> Some (mathRound (real_of_int v / 1000) * 1000))"

definition analyse :: "(real \<Rightarrow> real) \<Rightarrow> (real \<Rightarrow> real) \<Rightarrow> (nat \<Rightarrow> nat) \<Rightarrow> Run \<Rightarrow> string \<Rightarrow> string \<Rightarrow> int \<Rightarrow> labResult result" where
  "analyse erf erfinv draws run traffic suite bin =
     (let window = ru_Duration run;
          entryEvents = sinceOrigin (ru_Entry run) (ru_Origin run); exitEvents = sinceOrigin (ru_Exit run) (ru_Origin run);
          entry = map (\<lambda>e. Bin e window bin) entryEvents; exit = map (\<lambda>e. Bin e window bin) exitEvents;
          flows = length entry; truth = (\<lambda>i. if i < flows then Some i else None);
          scores = ScorePairs entry exit truth;
          cells = CellsWithin entryEvents window;
          cost = (\<lambda>traces. Multiplier (int (CellsWithin (sinceOrigin traces (ru_Origin run)) window)) (ru_Sent run))
      in case BootstrapAUC erf erfinv draws scores flows 10000 of
           Inl e \<Rightarrow> Inl e
         | Inr ci \<Rightarrow>
             (case TopOneAccuracy scores flows of
                Inl e \<Rightarrow> Inl e
              | Inr topOne \<Rightarrow>
                  Inr \<lparr>lr_Traffic = traffic, lr_Bin = bin, lr_Suite = suite, lr_Cells = cells, lr_Messages = ru_Sent run,
                    lr_Multiplier = Multiplier (int cells) (ru_Sent run), lr_EntryBackMultiplier = cost (ru_EntryBack run),
                    lr_RelayMultiplier = cost (ru_Exit run), lr_RelayBackMultiplier = cost (ru_ExitBack run),
                    lr_AUC = iv_Point ci, lr_AUCLow = iv_Low ci, lr_AUCHigh = iv_High ci,
                    lr_TPR = TPRAtFPR scores (1 / 100), lr_TopOne = topOne, lr_UndefinedPairs = UndefinedPairs scores,
                    lr_CIDegenerate = (iv_Low ci \<noteq> None \<and> iv_Low ci = iv_High ci),
                    lr_DropRate = fdiv (real (ru_Dropped run)) (real_of_int (ru_Sent run)), lr_RelayDroppedCells = ru_RelayDropped run,
                    lr_LatencySamples = length (ru_Latency run), lr_Unanswered = ru_Unanswered run,
                    lr_P50 = percentile (ru_Latency run) (1 / 2), lr_P95 = percentile (ru_Latency run) (95 / 100), lr_P99 = percentile (ru_Latency run) (99 / 100),
                    lr_RelayBrokenCircuits = ru_RelayBroken run, lr_BrokenFlows = ru_BrokenFlows run,
                    lr_FlowClosed = map co_Closed (ru_Closures run),
                    lr_RelayTimedOut = ru_RelayTimedOut run, lr_RelayExpired = ru_RelayExpired run, lr_RelayRefused = ru_RelayRefused run\<rparr>))"

section \<open>Summaries\<close>

definition broken :: "labResult \<Rightarrow> bool" where
  "broken r \<longleftrightarrow> lr_RelayBrokenCircuits r > 0 \<or> lr_BrokenFlows r > 0 \<or> True \<in> set (lr_FlowClosed r)"

definition limited :: "labResult \<Rightarrow> bool" where
  "limited r \<longleftrightarrow> lr_RelayTimedOut r > 0 \<or> lr_RelayExpired r > 0 \<or> lr_RelayRefused r > 0"

record summary =
  su_Suite :: string
  su_Traffic :: string
  su_Bin :: int
  su_Runs :: nat
  su_BrokenRuns :: nat
  su_LimitedRuns :: nat
  su_CleanRuns :: nat
  su_AUC :: "f64 option"
  su_AUCMin :: "f64 option"
  su_AUCMax :: "f64 option"
  su_TopOne :: "f64 option"
  su_Multiplier :: "f64 option"
  su_RelayMult :: "f64 option"
  su_DegenerateRuns :: "nat option"
  su_LatencyP50Ms :: "f64 option"

text \<open>The row of one configuration and window; \<^verbatim>\<open>P50\<close> is parsed back from its text, which gives the duration that was printed.\<close>

definition summaryOf :: "string \<times> int \<Rightarrow> labResult list \<Rightarrow> summary" where
  "summaryOf k g =
     (let clean = filter (\<lambda>r. \<not> (broken r \<or> limited r)) g;
          figure = (\<lambda>f. if clean = [] then None else Some (f clean));
          p50 = List.map_filter (\<lambda>r. map_option (\<lambda>d. Some (real_of_int d / real_of_int Millisecond)) (lr_P50 r)) clean
      in \<lparr>su_Suite = lr_Suite (hd g), su_Traffic = fst k, su_Bin = snd k, su_Runs = length g,
          su_BrokenRuns = length (filter broken g), su_LimitedRuns = length (filter limited g), su_CleanRuns = length clean,
          su_AUC = figure (\<lambda>rs. Median (map lr_AUC rs)), su_AUCMin = figure (\<lambda>rs. minFloat (map lr_AUC rs)), su_AUCMax = figure (\<lambda>rs. maxFloat (map lr_AUC rs)),
          su_TopOne = figure (\<lambda>rs. Median (map lr_TopOne rs)), su_Multiplier = figure (\<lambda>rs. Median (map lr_Multiplier rs)),
          su_RelayMult = figure (\<lambda>rs. Median (map lr_RelayMultiplier rs)),
          su_DegenerateRuns = (if clean = [] then None else Some (length (filter lr_CIDegenerate clean))),
          su_LatencyP50Ms = (if p50 = [] then None else Some (Median p50))\<rparr>)"

definition rowKey :: "labResult \<Rightarrow> string \<times> int" where
  "rowKey r = (lr_Traffic r, lr_Bin r)"

definition rowOrder :: "labResult list \<Rightarrow> (string \<times> int) list" where
  "rowOrder rows = foldl (\<lambda>order r. if rowKey r \<in> set order then order else order @ [rowKey r]) [] rows"

definition summarise :: "labResult list \<Rightarrow> summary list" where
  "summarise rows = map (\<lambda>k. summaryOf k (filter (\<lambda>r. rowKey r = k) rows)) (rowOrder rows)"

section \<open>Every attempt is accounted for\<close>

lemma mirrorLoop_accounted: "mirrorLoop mirrors hops missing k rd = (Inr (paths, refused), rd') \<Longrightarrow> length paths + refused = k"
  by (induction k arbitrary: rd paths refused rd') (auto simp: Let_def split: prod.splits sum.splits if_splits)

lemma survivors_accounted: "survivors ex paths = Inr (up, failed) \<Longrightarrow> length up + failed = length paths"
  by (induction paths arbitrary: up failed) (auto split: sum.splits if_splits)

text \<open>Along a path that survives every node extends to the next.\<close>

lemma survives_extends:
  "survives ex prev path = Inr True \<Longrightarrow> (\<forall>m. prev = Some m \<longrightarrow> path \<noteq> [] \<longrightarrow> ex ! nat m ! nat (hd path)) \<and> (\<forall>i. Suc i < length path \<longrightarrow> ex ! nat (path ! i) ! nat (path ! Suc i))"
proof (induction path arbitrary: prev)
  case (Cons n ns)
  then have rest: "survives ex (Some n) ns = Inr True" "\<forall>m. prev = Some m \<longrightarrow> ex ! nat m ! nat n"
    by (auto split: if_splits sum.splits option.splits)
  from Cons.IH [OF rest(1)] have ih: "ns \<noteq> [] \<longrightarrow> ex ! nat n ! nat (hd ns)" "\<forall>i. Suc i < length ns \<longrightarrow> ex ! nat (ns ! i) ! nat (ns ! Suc i)" by auto
  have "ex ! nat ((n # ns) ! i) ! nat ((n # ns) ! Suc i)" if "Suc i < length (n # ns)" for i
    using that ih by (cases i; cases ns) auto
  then show ?case using rest(2) by auto
qed simp

lemma survivors_extend: "survivors ex paths = Inr (up, failed) \<Longrightarrow> p \<in> set up \<Longrightarrow> p \<in> set paths \<and> survives ex None p = Inr True"
  by (induction paths arbitrary: up failed) (auto split: sum.splits if_splits)

lemma survives_range: "survives ex prev path = Inr b \<Longrightarrow> \<forall>n \<in> set path. 0 \<le> n \<and> n < int (length ex)"
  by (induction path arbitrary: prev b) (auto split: if_splits sum.splits)

lemma extendsOf_nth:
  assumes "0 \<le> n" "n < pc_nodes c" "0 \<le> m" "m < pc_nodes c"
  shows "extendsOf c ! nat n ! nat m \<longleftrightarrow> n < pc_rogue c \<or> pc_withheld c \<le> m"
  using assms by (auto simp: extendsOf_def mirrorsOf_def)


definition samplePathsConfig :: pathsConfig where
  "samplePathsConfig =
     \<lparr>pc_nodes = 3, pc_hops = 2, pc_rogue = 1, pc_missing = 1, pc_leftOut = 0, pc_withheld = 1, pc_samples = 2, pc_seed = 1\<rparr>"

text \<open>Bytes of a generator that makes the first attempt draw the rogue node as its entry and the second an honest one.\<close>

definition sampleGen :: "u64 \<Rightarrow> bytes" where
  "sampleGen seed = [0, 0, 0, 0, 0, 0, 0, 3] @ replicate 8 0 @ [0, 0, 0, 0, 0, 0, 0, 4] @ replicate 8 0"


section \<open>Every message is accounted for\<close>

datatype latencyEvent = Marked nat u64 int | Replied nat bytes int | Ended nat int

fun latency_step :: "latencyEvent \<Rightarrow> latencyCollector \<Rightarrow> latencyCollector" where
  "latency_step (Marked flow seq now) l = latency_mark flow seq now l"
| "latency_step (Replied flow reply now) l = latency_reply flow reply now l"
| "latency_step (Ended flow now) l = latency_end flow now l"

fun event_flow :: "latencyEvent \<Rightarrow> nat" where
  "event_flow (Marked flow _ _) = flow"
| "event_flow (Replied flow _ _) = flow"
| "event_flow (Ended flow _) = flow"

definition marks :: "latencyEvent list \<Rightarrow> (nat \<times> u64) list" where
  "marks es = List.map_filter (\<lambda>e. case e of Marked flow seq _ \<Rightarrow> Some (flow, seq) | _ \<Rightarrow> None) es"

lemma marks_simps [simp]:
  "marks [] = []" "marks (Marked flow seq now # es) = (flow, seq) # marks es" "marks (Replied flow reply now # es) = marks es" "marks (Ended flow now # es) = marks es"
  by (simp_all add: marks_def List.map_filter_def)

text \<open>Numbers in flight are told apart and were marked.\<close>

definition latency_ok :: "(nat \<times> u64) set \<Rightarrow> latencyCollector \<Rightarrow> bool" where
  "latency_ok seen l \<longleftrightarrow> (\<forall>flow < length (la_sent l). distinct (map fst (la_sent l ! flow)) \<and> (\<forall>seq \<in> fst ` set (la_sent l ! flow). (flow, seq) \<in> seen))"

lemma sum_list_update_len:
  "i < length xs \<Longrightarrow> sum_list (map length (xs[i := ys])) + length (xs ! i) = sum_list (map length xs) + length ys"
proof (induction xs arbitrary: i)
  case (Cons x xs)
  then show ?case by (cases i) auto
qed simp

lemma length_update_new: "k \<notin> fst ` set xs \<Longrightarrow> length (AList.update k v xs) = Suc (length xs)"
  by (induction xs) auto

lemma length_delete: "distinct (map fst xs) \<Longrightarrow> k \<in> fst ` set xs \<Longrightarrow> Suc (length (AList.delete k xs)) = length xs"
proof (induction xs)
  case (Cons x xs)
  show ?case
  proof (cases "fst x = k")
    case True
    then have "AList.delete k xs = xs" using Cons.prems(1) by (auto simp: AList.delete_eq filter_id_conv image_iff)
    then show ?thesis using True by (cases x) (simp add: AList.delete_eq)
  next
    case False
    then show ?thesis using Cons by (cases x) (auto simp: AList.delete_eq)
  qed
qed simp

lemma latency_ok_upd:
  assumes "latency_ok seen l" "seen \<subseteq> seen'" "distinct (map fst xs)" "\<And>seq. seq \<in> fst ` set xs \<Longrightarrow> (flow, seq) \<in> seen'" "la_sent l' = (la_sent l)[flow := xs]"
  shows "latency_ok seen' l'"
  unfolding latency_ok_def
proof (intro allI impI conjI ballI)
  fix k assume k: "k < length (la_sent l')"
  then have k': "k < length (la_sent l)" using assms(5) by simp
  have at: "la_sent l' ! k = (if k = flow then xs else la_sent l ! k)" using k' assms(5) by (simp add: nth_list_update)
  show "distinct (map fst (la_sent l' ! k))" using at assms(1,3) k' by (simp add: latency_ok_def)
  fix seq assume "seq \<in> fst ` set (la_sent l' ! k)"
  then show "(k, seq) \<in> seen'" using at assms(1,2,4) k' by (auto simp: latency_ok_def split: if_splits)
qed

lemma latency_mark_ok:
  assumes "latency_ok seen l" "flow < length (la_sent l)" "(flow, seq) \<notin> seen"
  shows "latency_ok (insert (flow, seq) seen) (latency_mark flow seq now l)" "pending (latency_mark flow seq now l) = Suc (pending l)"
proof -
  have fresh: "seq \<notin> fst ` set (la_sent l ! flow)" and d: "distinct (map fst (la_sent l ! flow))" using assms by (auto simp: latency_ok_def)
  show "latency_ok (insert (flow, seq) seen) (latency_mark flow seq now l)"
    by (rule latency_ok_upd [OF assms(1), of _ "AList.update seq now (la_sent l ! flow)" flow])
      (use assms d in \<open>auto simp: latency_ok_def latency_mark_def distinct_update dom_update\<close>)
  show "pending (latency_mark flow seq now l) = Suc (pending l)"
    using sum_list_update_len [OF assms(2), of "AList.update seq now (la_sent l ! flow)"] length_update_new [OF fresh, of now] by (simp add: pending_def latency_mark_def)
qed

lemma latency_reply_ok:
  assumes "latency_ok seen l" "flow < length (la_sent l)"
  shows "latency_ok seen (latency_reply flow reply now l)"
    "length (la_out (latency_reply flow reply now l)) + pending (latency_reply flow reply now l) = length (la_out l) + pending l"
proof -
  let ?seq = "Uint64 (take seqField (drop flowField reply))" and ?m = "la_sent l ! flow"
  have d: "distinct (map fst ?m)" using assms by (simp add: latency_ok_def)
  have "latency_ok seen (latency_reply flow reply now l)
    \<and> length (la_out (latency_reply flow reply now l)) + pending (latency_reply flow reply now l) = length (la_out l) + pending l"
  proof (cases "length reply < flowField + seqField \<or> map_of ?m ?seq = None")
    case True
    then show ?thesis using assms(1) by (auto simp: latency_reply_def Let_def)
  next
    case False
    then obtain t where t: "latency_reply flow reply now l = l\<lparr>la_out := la_out l @ [now - t], la_sent := (la_sent l)[flow := AList.delete ?seq ?m]\<rparr>"
      "?seq \<in> fst ` set ?m"
      by (auto simp: latency_reply_def Let_def weak_map_of_SomeI image_iff dest: map_of_SomeD) (metis fst_conv map_of_SomeD)
    have "latency_ok seen (latency_reply flow reply now l)"
      by (rule latency_ok_upd [OF assms(1), of _ "AList.delete ?seq ?m" flow])
        (use assms d t(1) in \<open>auto simp: latency_ok_def distinct_delete dest!: dom_delete_subset [THEN subsetD]\<close>)
    then show ?thesis using sum_list_update_len [OF assms(2), of "AList.delete ?seq ?m"] length_delete [OF d t(2)] t(1) by (simp add: pending_def)
  qed
  then show "latency_ok seen (latency_reply flow reply now l)"
    "length (la_out (latency_reply flow reply now l)) + pending (latency_reply flow reply now l) = length (la_out l) + pending l" by blast+
qed

lemma latency_lengths [simp]:
  "length (la_sent (latency_mark flow seq now l)) = length (la_sent l)" "la_out (latency_mark flow seq now l) = la_out l"
  "length (la_sent (latency_reply flow reply now l)) = length (la_sent l)"
  by (simp_all add: latency_mark_def latency_reply_def Let_def split: option.splits)

text \<open>
  C38: every message of a run is either in flight or measured once. Starting with no message in flight, after any
  events in any order, in which no number is used twice by a flow, the latencies collected and the messages still
  pending add up to the messages marked: a reply that is short, unknown or repeated adds nothing.
\<close>

theorem messages_accounted:
  assumes "\<forall>e \<in> set es. event_flow e < n" "distinct (marks es)"
  shows "length (samples (fold latency_step es (newLatency n start))) + pending (fold latency_step es (newLatency n start)) = length (marks es)"
proof -
  have run: "length (la_out (fold latency_step es l)) + pending (fold latency_step es l) = length (la_out l) + pending l + length (marks es)"
    if "latency_ok seen l" "\<forall>e \<in> set es. event_flow e < length (la_sent l)" "distinct (marks es)" "set (marks es) \<inter> seen = {}" for es seen l
    using that
  proof (induction es arbitrary: l seen)
    case (Cons e es)
    show ?case
    proof (cases e)
      case (Marked flow seq now)
      have fresh: "(flow, seq) \<notin> seen" "flow < length (la_sent l)" using Cons.prems(2,4) Marked by auto
      note m = latency_mark_ok [OF Cons.prems(1) fresh(2,1), of now]
      then show ?thesis using Cons.IH [OF m(1)] Cons.prems(2-4) Marked by auto
    next
      case (Replied flow reply now)
      then have "flow < length (la_sent l)" using Cons.prems(2) by simp
      note r = latency_reply_ok [OF Cons.prems(1) this, of reply now]
      then show ?thesis using Cons.IH [OF r(1)] Cons.prems(2-4) Replied by auto
    next
      case (Ended flow now)
      have "latency_ok seen (latency_end flow now l)" "pending (latency_end flow now l) = pending l"
        using Cons.prems(1) by (simp_all add: latency_ok_def latency_end_def pending_def)
      then show ?thesis using Cons.IH [of seen "latency_end flow now l"] Cons.prems(2-4) Ended by (auto simp: latency_end_def)
    qed
  qed simp
  have "latency_ok {} (newLatency n start)" by (simp add: latency_ok_def newLatency_def)
  then show ?thesis using run [of "{}" "newLatency n start" es] assms by (simp add: samples_def newLatency_def pending_def)
qed

text \<open>An echo of the payload of a message answers that message.\<close>

lemma echo_answers: "length (flowPayload sz flow seq) \<ge> flowField + seqField \<and> Uint64 (take seqField (drop flowField (flowPayload sz flow seq))) = seq"
proof -
  have "Uint64 (PutUint64 seq) = seq" using u64.get_put by simp
  then show ?thesis by (simp add: flowPayload_def flowField_def seqField_def)
qed

theorem messages_accounted_witness:
  "length (samples (fold latency_step [Marked 0 0 5, Marked 1 0 6, Replied 1 (flowPayload 128 1 0) 9, Replied 1 (flowPayload 128 1 0) 11] (newLatency 2 0))) = 1
   \<and> pending (fold latency_step [Marked 0 0 5, Marked 1 0 6, Replied 1 (flowPayload 128 1 0) 9, Replied 1 (flowPayload 128 1 0) 11] (newLatency 2 0)) = 1"
proof -
  let ?es = "[Marked 0 0 5, Marked 1 0 6, Replied 1 (flowPayload 128 1 0) 9, Replied 1 (flowPayload 128 1 0) 11]"
  let ?l = "fold latency_step ?es (newLatency 2 0)"
  have "\<not> length (flowPayload 128 1 0) < flowField + seqField" "Uint64 (take seqField (drop flowField (flowPayload 128 1 0))) = 0"
    using echo_answers [of 128 1 0] by (simp_all add: not_less)
  then have "length (samples ?l) = 1"
    by (simp add: samples_def newLatency_def latency_mark_def latency_reply_def numeral_2_eq_2)
  moreover have "length (samples ?l) + pending ?l = length (marks ?es)" by (rule messages_accounted) auto
  ultimately show ?thesis by simp
qed

section \<open>Every run is accounted for\<close>

lemma rowOrder_spec: "distinct (rowOrder rows) \<and> set (rowOrder rows) = rowKey ` set rows"
proof (induction rows rule: rev_induct)
  case (snoc r rows)
  then show ?case by (auto simp: rowOrder_def)
qed (simp add: rowOrder_def)

lemma one_hot: "distinct ks \<Longrightarrow> (\<Sum>k\<leftarrow>ks. if x = k then 1 else 0) = (if x \<in> set ks then 1 else 0 :: nat)"
  by (induction ks) auto

lemma groups_sum:
  assumes "distinct ks" "rowKey ` set rows \<subseteq> set ks"
  shows "(\<Sum>k\<leftarrow>ks. length (filter (\<lambda>r. rowKey r = k) rows)) = length rows"
  using assms(2)
proof (induction rows)
  case (Cons r rows)
  have "(\<Sum>k\<leftarrow>ks. if rowKey r = k then 1 else 0 :: nat) = 1" using one_hot [OF assms(1)] Cons.prems by simp
  moreover have "(\<Sum>k\<leftarrow>ks. length (filter (\<lambda>r. rowKey r = k) (r # rows)))
    = (\<Sum>k\<leftarrow>ks. (if rowKey r = k then 1 else 0) + length (filter (\<lambda>r. rowKey r = k) rows))" by (intro arg_cong [where f = sum_list] map_cong refl) simp
  ultimately show ?case using Cons by (simp add: sum_list_addf)
qed simp

lemma clean_rows: "length (filter (\<lambda>r. \<not> (P r \<or> Q r)) xs) \<le> length xs \<and> length xs \<le> length (filter (\<lambda>r. \<not> (P r \<or> Q r)) xs) + length (filter P xs) + length (filter Q xs)"
  using length_filter_le [of "\<lambda>r. \<not> (P r \<or> Q r)" xs] by (intro conjI) (assumption, induction xs, auto)

text \<open>A line of the summary and the rows it stands for.\<close>

definition line_ok :: "labResult list \<Rightarrow> summary \<Rightarrow> bool" where
  "line_ok rows s =
     (let clean = filter (\<lambda>r. rowKey r = (su_Traffic s, su_Bin s) \<and> \<not> broken r \<and> \<not> limited r) rows in
      0 < su_Runs s \<and> su_CleanRuns s = length clean \<and> su_CleanRuns s \<le> su_Runs s \<and> su_Runs s \<le> su_CleanRuns s + su_BrokenRuns s + su_LimitedRuns s
      \<and> su_AUC s = (if clean = [] then None else Some (Median (map lr_AUC clean)))
      \<and> su_AUCMin s = (if clean = [] then None else Some (minFloat (map lr_AUC clean)))
      \<and> su_AUCMax s = (if clean = [] then None else Some (maxFloat (map lr_AUC clean))))"


end
