(* ===== verification/Spec2Isabelle.thy ===== *)
theory Spec2Isabelle
  imports RelayInv ClientRate Lab Secmem Rotation Enroll ClientCmd RelayCmd Network LabRun
begin

text \<open>
  A model of jimichi, an onion-routing network in Go, with the theorems that make it correct.

  \<^bold>\<open>The program.\<close> A client picks a chain of relays, builds one setup cell that opens layer by layer
  along the chain, and from then on sends cells of 512 bytes, each sealed once per relay; the exit
  answers every cell, and each relay wraps the answer on its way back. Between neighbours the cells
  travel in encrypted frames of one size on a link with its own handshake. Relays bound what
  strangers may cost them, close circuits that are idle or old, pace their output and rotate their
  onion keys. An authority that lives for one run of an enrollment certifies the relays; each relay
  signs short-lived descriptors, keeps a cache of its peers' descriptors and serves them as a mirror,
  so that a client verifies the whole chain under one anchor. Secrets live in buffers of their own.

  \<^bold>\<open>The theories\<close>, in the order of the dependencies, with the files under \<^verbatim>\<open>src/\<close> they model. The
  definitions keep the names of the source, with the receiver first where a method's name is taken.

  \<^item> \<^verbatim>\<open>Prelude\<close>: bytes, errors as values, results, the world a call runs in (the random stream, the
    count and the limit of secret buffers, the cache of suite sizes), big-endian codecs behind the
    locale \<open>fixed_codec\<close>, slices that panic out of range, splitting and joining of strings.
  \<^item> \<^verbatim>\<open>Kdf\<close> (\<^verbatim>\<open>crypto/kdf.go\<close>), \<^verbatim>\<open>Provider\<close> (\<^verbatim>\<open>crypto/provider.go\<close>): labels and transcripts; a suite
    of primitives as a record of functions. Its documented contract is the predicate \<open>provider_ok\<close>:
    agreement is symmetric, opening undoes sealing, sizes are fixed. \<^verbatim>\<open>Sample\<close> is a concrete suite
    that keeps the contract, for the witnesses.
  \<^item> \<^verbatim>\<open>Cell\<close> (\<^verbatim>\<open>wire/cell.go\<close>, \<^verbatim>\<open>wire/nonce.go\<close>), \<^verbatim>\<open>Counter\<close> (\<^verbatim>\<open>wire/counter.go\<close>), \<^verbatim>\<open>Replay\<close>
    (\<^verbatim>\<open>wire/replay.go\<close>): cells, nonces, per-link counters (locale \<open>cyclic_counter\<close>), the sequence of a
    direction and the cache of setups (locale \<open>replay_filter\<close>).
  \<^item> \<^verbatim>\<open>Onion\<close> and \<^verbatim>\<open>Chain\<close> (\<^verbatim>\<open>wire/onion.go\<close>): the client's circuit and the relays' hops; what is
    sealed at one end comes out at the other, over a chain of any length the cell allows.
  \<^item> \<^verbatim>\<open>Setup\<close> (\<^verbatim>\<open>wire/setup.go\<close>): the setup cell opens at every relay in turn, both sides derive the
    same keys and offsets, and every secret buffer is released on every path.
  \<^item> \<^verbatim>\<open>Link\<close> (\<^verbatim>\<open>link/link.go\<close>): the handshake in both modes, frames, padding, failures.
  \<^item> \<^verbatim>\<open>Ring\<close> (\<^verbatim>\<open>relay/onion.go\<close>), \<^verbatim>\<open>Limiter\<close> (\<^verbatim>\<open>relay/limits.go\<close>), \<^verbatim>\<open>Chan\<close> (a bounded Go channel,
    locale \<open>fifo\<close>), \<^verbatim>\<open>Pacer\<close> (\<^verbatim>\<open>relay/pace.go\<close>), \<^verbatim>\<open>Relay\<close> and \<^verbatim>\<open>RelayInv\<close> (\<^verbatim>\<open>relay/relay.go\<close>): the
    parts of a relay, its handlers, timers and tables as turns under its mutex, the step relation
    over them, and the invariant that holds under any interleaving.
  \<^item> \<^verbatim>\<open>Choose\<close> (\<^verbatim>\<open>client/choose.go\<close>), \<^verbatim>\<open>Client\<close>, \<^verbatim>\<open>ClientChain\<close>, \<^verbatim>\<open>ClientInv\<close>, \<^verbatim>\<open>ClientRate\<close>
    (\<^verbatim>\<open>client/client.go\<close>): the choice of a path; dialling, sending, receiving and closing; that the
    setup a client makes opens along its chain; the life of a client; its constant rate.
  \<^item> \<^verbatim>\<open>Cert\<close> (\<^verbatim>\<open>pki/cert.go\<close>, \<^verbatim>\<open>pki/descriptor.go\<close>, \<^verbatim>\<open>pki/request.go\<close>), \<^verbatim>\<open>Anchor\<close> (\<^verbatim>\<open>pki/anchor.go\<close>),
    \<^verbatim>\<open>Verify\<close> (\<^verbatim>\<open>pki/verify.go\<close>), \<^verbatim>\<open>Identity\<close> (\<^verbatim>\<open>pki/identity.go\<close>, \<^verbatim>\<open>pki/ca.go\<close>), \<^verbatim>\<open>Roster\<close>
    (\<^verbatim>\<open>pki/roster.go\<close>): strict encodings (locale \<open>strict_codec\<close>), signatures and windows of time,
    chains without repeats, issuing and refreshing, rosters and mirrors with one spelling.
  \<^item> \<^verbatim>\<open>Fetch\<close> (\<^verbatim>\<open>internal/fetch/fetch.go\<close>), \<^verbatim>\<open>Peers\<close> (\<^verbatim>\<open>cmd/relay/peers.go\<close>), \<^verbatim>\<open>Node\<close>, \<^verbatim>\<open>NodeInv\<close> and
    \<^verbatim>\<open>Rotation\<close> (\<^verbatim>\<open>cmd/relay/admin.go\<close>, \<^verbatim>\<open>cmd/relay/onion.go\<close>): what a node fetches, holds, serves and
    signs, the one certificate and the one roster it takes, and the rotation of its onion key.
  \<^item> \<^verbatim>\<open>Enroll\<close> (\<^verbatim>\<open>cmd/jimichi/enroll.go\<close>): the run of an enrollment against relays that may answer
    anything.
  \<^item> \<^verbatim>\<open>Secmem\<close> (\<^verbatim>\<open>crypto/secmem\<close>): buffers over a store of pages, a refinement of a store of byte
    strings, and that nothing of a released buffer is left behind.
  \<^item> \<^verbatim>\<open>C25519\<close> (\<^verbatim>\<open>crypto/c25519\<close>), \<^verbatim>\<open>Gost\<close> (\<^verbatim>\<open>crypto/gost\<close>, \<^verbatim>\<open>crypto/suite\<close>): the two suites over the
    primitives of the packages they call, which are records of functions with their documented laws;
    both suites keep \<open>provider_ok\<close> and \<open>signing_ok\<close>, the hypotheses of the theorems above.
  \<^item> \<^verbatim>\<open>ClientCmd\<close> (\<^verbatim>\<open>cmd/client/main.go\<close>): how the client command takes a verified chain from the nodes it
    was given, that its lines do not tell the draw, and how a run of messages ends.
  \<^item> \<^verbatim>\<open>RelayCmd\<close> (\<^verbatim>\<open>cmd/relay/main.go\<close>): the relay command from its flags to its exit code, with the keys it
    makes, the handlers and timers that run meanwhile and the releases it defers; every key is accounted for.
  \<^item> \<^verbatim>\<open>Network\<close>: a client, the relays of its chain and the links between them put together. A station is one
    relay with the links of one circuit; the handlers of both sides carry a message to the exit and
    the answer back, and the theorem follows any number of messages over a chain of any length.
  \<^item> \<^verbatim>\<open>Lab\<close> (\<^verbatim>\<open>lab/paths.go\<close>, \<^verbatim>\<open>lab/seed.go\<close>, \<^verbatim>\<open>lab/tap.go\<close>): sampling of paths and counting of frames.
  \<^item> \<^verbatim>\<open>Metrics\<close> (\<^verbatim>\<open>lab/metrics\<close>), \<^verbatim>\<open>LabRun\<close> (\<^verbatim>\<open>cmd/lab\<close>, \<^verbatim>\<open>lab/harness.go\<close>): what the lab computes from
    sampled paths and from traces, each closed form against what it stands for, and the
    accounts of attempts, messages and runs.

  \<^bold>\<open>How the model reads the code.\<close> A call that may fail returns a value of a sum type, \<open>Inl\<close> the error;
  a panic is the error \<open>Panic\<close>. State is passed explicitly. Code under a mutex is one step, and
  goroutines, timers and handlers are the rules of a step relation, so that a theorem about runs
  covers every interleaving of them. Integers are words where the source relies on their width
  (counters, circuit identifiers, nonces, epochs, times in certificates); durations are integers
  that do not overflow, and the statistics are natural numbers. The tokens of a bucket are exact
  rationals, and the metrics of the lab exact reals with \<^verbatim>\<open>NaN\<close> as \<open>None\<close>, where the source has \<^verbatim>\<open>float64\<close>. A deadline of a connection is a failure of the next read
  or write. Sealing, agreement, signatures, \<^verbatim>\<open>encoding/json\<close>, \<^verbatim>\<open>netip.ParseAddr\<close>, \<^verbatim>\<open>net/http\<close>, the
  random source and the system calls for memory are arguments; what is asked of them is a named
  hypothesis, which a witness shows can hold.

  \<^bold>\<open>Loops.\<close> Loops over data are structural recursion. The loop that draws a number below a bound runs
  at most \<open>maxDraws\<close> times, as in the source. Loops that may wait for ever on a link, and the loop that
  counts frames, are \<open>partial_function (option)\<close>, with theorems that they return. No fuel is used.

  \<^bold>\<open>Not modelled.\<close> The primitives below the suites are third-party code that is not in the repository, and the
  clearing of values on the heap is left out; \<^verbatim>\<open>crypto/providertest\<close> is a conformance test. The flags, listeners,
  logs and output of the commands are left out, with the hardening of their processes (\<^verbatim>\<open>cmd/*/main.go\<close>),
  and so is \<^verbatim>\<open>Execute\<close> of the lab, which starts the parts modelled here in one process. Strength of the primitives is out of
  scope: the theorems say what is sealed, under which key, nonce and context, not that it cannot be
  broken.
\<close>

end
